(* ===== verification/Go_Base.thy ===== *)
theory Go_Base
  imports Main "HOL-Library.Sublist"
begin

text \<open>
  Prelude of the development: the parts of Go and of its standard library that
  the modelled packages use. Go strings are lists of bytes (\<^typ>\<open>string\<close>), as
  they are in Go; \<^verbatim>\<open>range\<close> loops over a string and \<^verbatim>\<open>unicode/utf8\<close> go through
  the decoder \<open>decode_rune\<close>, which like Go's maps a malformed byte to U+FFFD of
  width one. Go's \<^verbatim>\<open>int\<close> is \<^typ>\<open>int\<close> for ids, sequence numbers and times
  (counters that would need \<open>2^63\<close> operations to wrap), with the range written
  out where a conversion checks it. Errors are values of the type \<open>error\<close>.

  The theory also holds the collections of simplification rules the component
  theories fill, and the generic list lemmas they share.
\<close>

named_theorems inv_simps \<open>unfolding rules of the components' invariants\<close>
named_theorems go_simps \<open>evaluation rules of the modelled standard library\<close>

section \<open>Errors\<close>

text \<open>The error codes of \<^verbatim>\<open>internal/api/errors.go\<close>.\<close>

datatype code =
    CodeInvalidRequest | CodeUnknownMethod | CodeUnauthorized | CodeDaemonNotRunning
  | CodeDaemonStart | CodeVersionMismatch | CodeSessionsActive | CodeNoSession
  | CodeNotStopped | CodeNotRunning | CodeSessionExited | CodeAdapterMissing
  | CodeAdapterFailed | CodeBuildFailed | CodeInternal | CodeLeaseHeld | CodeNotOwner
  | CodeUnsupported | CodeSideEffects | CodeAttachFailed | CodeNoTestHost
  | CodeAnchorNotFound | CodeAnchorAmbiguous | CodeHelperNotFound | CodeHelperMismatch
  | CodeHelperFailed | CodeNotDotnet | CodeDiagnosticsDisabled | CodeDiagnosticsTimeout
  | CodeDumpUnsupported | CodeDumpRuntimeMissing | CodeDumpFailed | CodeTraceUnsupported

text \<open>
  An error message is the list of its parts: literal text, and the arguments the
  source prints with \<^verbatim>\<open>%q\<close> or \<^verbatim>\<open>strconv.Quote\<close>, which stay unrendered. The hint
  of an \<^verbatim>\<open>api.Error\<close> is advice printed to the user and read by no code; it is
  not modelled.
\<close>

datatype msg_part = Lit string | Quoted string

type_synonym message = "msg_part list"

text \<open>
  An error is an \<^verbatim>\<open>*api.Error\<close> with its code, or any other error value (a canceled
  context, an I/O error), which has no code.
\<close>

datatype error = Error code message | PlainError message

fun err_message :: "error \<Rightarrow> message" where
  "err_message (Error c m) = m"
| "err_message (PlainError m) = m"

text \<open>\<^verbatim>\<open>api.CodeOf\<close>.\<close>

fun CodeOf :: "error \<Rightarrow> code option" where
  "CodeOf (Error c m) = Some c"
| "CodeOf (PlainError m) = None"

text \<open>The text of a message, given how a quoted argument is printed (\<^verbatim>\<open>strconv.Quote\<close>).\<close>

definition message_text :: "(string \<Rightarrow> string) \<Rightarrow> message \<Rightarrow> string" where
  "message_text quote m = concat (map (\<lambda>p. case p of Lit s \<Rightarrow> s | Quoted s \<Rightarrow> quote s) m)"

abbreviation NewError :: "code \<Rightarrow> message \<Rightarrow> error" where
  "NewError \<equiv> Error"

type_synonym 'a result = "error + 'a"

definition is_ok :: "'e + 'a \<Rightarrow> bool" where
  "is_ok r = (case r of Inl _ \<Rightarrow> False | Inr _ \<Rightarrow> True)"

lemma is_ok_simps [simp]: "is_ok (Inr x)" "\<not> is_ok (Inl e)"
  by (simp_all add: is_ok_def)

lemma is_okE: "is_ok r \<Longrightarrow> (\<And>x. r = Inr x \<Longrightarrow> P) \<Longrightarrow> P"
  by (cases r) (auto simp: is_ok_def)

section \<open>Bytes and decimal numbers\<close>

type_synonym time = int

abbreviation byte :: "char \<Rightarrow> nat" where
  "byte c \<equiv> of_char c"

lemma byte_less_256 [simp]: "byte c < 256"
  by simp

lemma byte_eq_iff: "byte c = byte d \<longleftrightarrow> c = d"
  by simp

definition is_digit :: "char \<Rightarrow> bool" where
  "is_digit c = (48 \<le> byte c \<and> byte c \<le> 57)"

definition is_lower :: "char \<Rightarrow> bool" where
  "is_lower c = (97 \<le> byte c \<and> byte c \<le> 122)"

definition is_upper :: "char \<Rightarrow> bool" where
  "is_upper c = (65 \<le> byte c \<and> byte c \<le> 90)"

definition digit_char :: "nat \<Rightarrow> char" where
  "digit_char n = char_of (48 + n)"

definition digit_val :: "char \<Rightarrow> nat" where
  "digit_val c = byte c - 48"

lemma byte_digit_char [simp]: "n < 10 \<Longrightarrow> byte (digit_char n) = 48 + n"
  by (simp add: digit_char_def)

lemma digit_val_digit_char [simp]: "n < 10 \<Longrightarrow> digit_val (digit_char n) = n"
  by (simp add: digit_val_def)

lemma is_digit_digit_char [simp]: "n < 10 \<Longrightarrow> is_digit (digit_char n)"
  by (simp add: is_digit_def)

lemma digit_char_digit_val: "is_digit c \<Longrightarrow> digit_char (digit_val c) = c"
  by (simp add: is_digit_def digit_char_def digit_val_def)

lemma digit_val_less: "is_digit c \<Longrightarrow> digit_val c < 10"
  by (auto simp: is_digit_def digit_val_def)

text \<open>\<^verbatim>\<open>strconv.Itoa\<close> and \<^verbatim>\<open>%d\<close>.\<close>

fun nat_dec :: "nat \<Rightarrow> string" where
  "nat_dec n = (if n < 10 then [digit_char n] else nat_dec (n div 10) @ [digit_char (n mod 10)])"

declare nat_dec.simps [simp del]

definition itoa :: "int \<Rightarrow> string" where
  "itoa i = (if i < 0 then CHR ''-'' # nat_dec (nat (- i)) else nat_dec (nat i))"

text \<open>The value of a string of decimal digits, read left to right.\<close>

definition dec_from :: "nat \<Rightarrow> string \<Rightarrow> nat" where
  "dec_from a s = foldl (\<lambda>n c. n * 10 + digit_val c) a s"

abbreviation dec_val :: "string \<Rightarrow> nat" where
  "dec_val \<equiv> dec_from 0"

lemma dec_from_simps [simp]:
  "dec_from a [] = a"
  "dec_from a (c # s) = dec_from (a * 10 + digit_val c) s"
  "dec_from a (s @ t) = dec_from (dec_from a s) t"
  by (simp_all add: dec_from_def)

lemma nat_dec_digits: "list_all is_digit (nat_dec n)"
  by (induction n rule: nat_dec.induct) (subst nat_dec.simps, simp)

lemma nat_dec_nonempty [simp]: "nat_dec n \<noteq> []"
  by (subst nat_dec.simps) simp

lemma dec_val_nat_dec [simp]: "dec_val (nat_dec n) = n"
proof (induction n rule: nat_dec.induct)
  case (1 n)
  then show ?case by (subst nat_dec.simps) auto
qed

lemma nat_dec_inj: "nat_dec m = nat_dec n \<longleftrightarrow> m = n"
  by (metis dec_val_nat_dec)

lemma nat_dec_length: "n < 10 ^ d \<Longrightarrow> 0 < d \<Longrightarrow> length (nat_dec n) \<le> d"
proof (induction n arbitrary: d rule: nat_dec.induct)
  case (1 n)
  show ?case
  proof (cases "n < 10")
    case True
    then show ?thesis using 1(3) by (subst nat_dec.simps) simp
  next
    case False
    then obtain e where e: "d = Suc e" "0 < e"
      using 1(2,3) by (cases d; cases "d = 1") auto
    then have "n div 10 < 10 ^ e"
      using 1(2) by (simp add: less_mult_imp_div_less mult.commute)
    then have "length (nat_dec (n div 10)) \<le> e"
      using 1(1)[OF False] e by simp
    then show ?thesis using False e by (subst nat_dec.simps) simp
  qed
qed

lemma dec_val_upper: "list_all is_digit s \<Longrightarrow> dec_from a s < (a + 1) * 10 ^ length s"
proof (induction s arbitrary: a)
  case (Cons c s)
  then have "digit_val c + 1 \<le> 10" using digit_val_less[of c] by simp
  then have "(a * 10 + digit_val c + 1) * 10 ^ length s \<le> (a + 1) * 10 * 10 ^ length s"
    by (intro mult_le_mono1) simp
  moreover have "dec_from (a * 10 + digit_val c) s < (a * 10 + digit_val c + 1) * 10 ^ length s"
    using Cons by simp
  ultimately have "dec_from (a * 10 + digit_val c) s < (a + 1) * 10 * 10 ^ length s"
    by (rule less_le_trans[rotated])
  then show ?case by (simp add: algebra_simps)
qed simp

section \<open>Strings\<close>

text \<open>\<^verbatim>\<open>strings.Cut\<close> at a byte: before, after and whether it was found.\<close>

fun cut_at :: "char \<Rightarrow> string \<Rightarrow> string \<times> string \<times> bool" where
  "cut_at d [] = ([], [], False)"
| "cut_at d (c # s) =
    (if c = d then ([], s, True) else (case cut_at d s of (b, a, f) \<Rightarrow> (c # b, a, f)))"

lemma cut_at_found: "d \<notin> set b \<Longrightarrow> cut_at d (b @ d # a) = (b, a, True)"
  by (induction b) auto

lemma cut_at_absent: "d \<notin> set s \<Longrightarrow> cut_at d s = (s, [], False)"
  by (induction s) auto

lemma cut_at_cases:
  "cut_at d s = (b, a, f) \<Longrightarrow> d \<notin> set b \<and> (if f then s = b @ d # a else s = b \<and> a = [])"
  by (induction s arbitrary: b a f) (auto split: if_splits prod.splits)

text \<open>\<^verbatim>\<open>strings.Split\<close> at a byte; it never returns an empty list.\<close>

fun split_at :: "char \<Rightarrow> string \<Rightarrow> string list" where
  "split_at d [] = [[]]"
| "split_at d (c # s) =
    (if c = d then [] # split_at d s
     else (case split_at d s of w # ws \<Rightarrow> (c # w) # ws | [] \<Rightarrow> [[c]]))"

text \<open>\<^verbatim>\<open>strings.Join\<close>.\<close>

fun join_with :: "string \<Rightarrow> string list \<Rightarrow> string" where
  "join_with d [] = []"
| "join_with d [w] = w"
| "join_with d (w # v # ws) = w @ d @ join_with d (v # ws)"

lemma split_at_nonempty [simp]: "split_at d s \<noteq> []"
  by (cases s) (auto split: list.splits)

lemma split_at_plain: "d \<notin> set s \<Longrightarrow> split_at d s = [s]"
  by (induction s) auto

lemma split_at_append: "d \<notin> set w \<Longrightarrow> split_at d (w @ d # s) = w # split_at d s"
  by (induction w) (auto split: list.splits)

lemma split_join:
  "ws \<noteq> [] \<Longrightarrow> \<forall>w\<in>set ws. d \<notin> set w \<Longrightarrow> split_at d (join_with [d] ws) = ws"
  by (induction "[d]" ws rule: join_with.induct) (auto simp: split_at_plain split_at_append)

lemma split_at_no_sep: "w \<in> set (split_at d s) \<Longrightarrow> d \<notin> set w"
  by (induction s arbitrary: w) (auto split: list.splits if_splits)

lemma split_at_join: "split_at d (s @ d # t) = split_at d s @ split_at d t"
  by (induction s) (auto split: list.splits)

lemma join_split: "join_with [d] (split_at d s) = s"
proof (induction s)
  case (Cons c s)
  obtain w ws where "split_at d s = w # ws" by (meson neq_Nil_conv split_at_nonempty)
  then show ?case using Cons by (cases ws) auto
qed simp

text \<open>\<^verbatim>\<open>strings.Contains\<close> and \<^verbatim>\<open>strings.HasSuffix\<close>; \<^verbatim>\<open>strings.HasPrefix\<close> is \<^const>\<open>prefix\<close>.\<close>

fun contains_sub :: "string \<Rightarrow> string \<Rightarrow> bool" where
  "contains_sub [] p = (p = [])"
| "contains_sub (c # s) p = (prefix p (c # s) \<or> contains_sub s p)"

lemma contains_sub_iff: "contains_sub s p \<longleftrightarrow> (\<exists>a b. s = a @ p @ b)"
proof (induction s)
  case (Cons c s)
  then show ?case
    by (auto simp: prefix_def Cons_eq_append_conv)
qed auto

section \<open>UTF-8\<close>

type_synonym rune = nat

abbreviation RuneError :: rune where
  "RuneError \<equiv> 65533"

text \<open>\<^verbatim>\<open>utf8.RuneStart\<close>: the byte is not a continuation byte.\<close>

definition RuneStart :: "char \<Rightarrow> bool" where
  "RuneStart c = (\<not> (128 \<le> byte c \<and> byte c < 192))"

definition cont :: "char \<Rightarrow> bool" where
  "cont c = (128 \<le> byte c \<and> byte c < 192)"

text \<open>
  \<^verbatim>\<open>utf8.DecodeRuneInString\<close>: the first rune of a string and its width. A byte
  that starts no well-formed sequence (a bare continuation byte, an overlong or
  surrogate encoding, a sequence cut short) is U+FFFD of width one.
\<close>

fun decode_rune :: "string \<Rightarrow> rune \<times> nat" where
  "decode_rune [] = (RuneError, 0)"
| "decode_rune (a # s) =
    (let x = byte a in
     if x < 128 then (x, 1)
     else if 194 \<le> x \<and> x < 224 then
       (case s of b # _ \<Rightarrow> if cont b then ((x - 192) * 64 + (byte b - 128), 2) else (RuneError, 1)
        | [] \<Rightarrow> (RuneError, 1))
     else if 224 \<le> x \<and> x < 240 then
       (case s of b # c # _ \<Rightarrow>
          if cont b \<and> cont c \<and> (x = 224 \<longrightarrow> 160 \<le> byte b) \<and> (x = 237 \<longrightarrow> byte b < 160)
          then ((x - 224) * 4096 + (byte b - 128) * 64 + (byte c - 128), 3) else (RuneError, 1)
        | _ \<Rightarrow> (RuneError, 1))
     else if 240 \<le> x \<and> x < 245 then
       (case s of b # c # d # _ \<Rightarrow>
          if cont b \<and> cont c \<and> cont d \<and> (x = 240 \<longrightarrow> 144 \<le> byte b) \<and> (x = 244 \<longrightarrow> byte b < 144)
          then ((x - 240) * 262144 + (byte b - 128) * 4096 + (byte c - 128) * 64 + (byte d - 128), 4)
          else (RuneError, 1)
        | _ \<Rightarrow> (RuneError, 1))
     else (RuneError, 1))"

lemma decode_rune_width:
  "s \<noteq> [] \<Longrightarrow> 1 \<le> snd (decode_rune s) \<and> snd (decode_rune s) \<le> length s"
  by (cases s) (auto simp: Let_def split: list.splits)

lemma decode_rune_ascii: "byte c < 128 \<Longrightarrow> decode_rune (c # s) = (byte c, 1)"
  by simp

lemma decode_rune_cases:
  obtains r w where "decode_rune (c # s) = (r, Suc w)" "w \<le> length s"
  using decode_rune_width[of "c # s"]
  by (cases "decode_rune (c # s)"; cases "snd (decode_rune (c # s))") auto

declare decode_rune.simps(2) [simp del]

text \<open>
  The runes of a string with the bytes each one came from, as a \<^verbatim>\<open>range\<close> loop
  visits them.
\<close>

function (sequential) chunks :: "string \<Rightarrow> (rune \<times> string) list" where
  "chunks [] = []"
| "chunks (c # s) =
    (let (r, w) = decode_rune (c # s) in (r, take w (c # s)) # chunks (drop w (c # s)))"
  by pat_completeness auto
termination
proof (relation "measure length")
  fix c s x r w
  assume "x = decode_rune (c # s)" "(r, w) = x"
  then show "(drop w (c # s), c # s) \<in> measure length"
    using decode_rune_width[of "c # s"] by (cases "decode_rune (c # s)") auto
qed simp

definition runes :: "string \<Rightarrow> rune list" where
  "runes s = map fst (chunks s)"

definition RuneCount :: "string \<Rightarrow> nat" where
  "RuneCount s = length (chunks s)"

lemma chunks_step:
  assumes "decode_rune (c # s) = (r, Suc w)"
  shows "chunks (c # s) = (r, c # take w s) # chunks (drop w s)"
  using assms by simp

declare chunks.simps(2) [simp del]

lemma chunks_induct [case_names Nil Step]:
  assumes "P []"
    and "\<And>c s r w. decode_rune (c # s) = (r, Suc w) \<Longrightarrow> w \<le> length s \<Longrightarrow> P (drop w s) \<Longrightarrow> P (c # s)"
  shows "P s"
proof (induction s rule: length_induct)
  case (1 s)
  show ?case
  proof (cases s)
    case (Cons c t)
    obtain r w where "decode_rune (c # t) = (r, Suc w)" "w \<le> length t"
      by (rule decode_rune_cases)
    then show ?thesis using assms(2) 1 Cons by simp
  qed (simp add: assms)
qed

lemma chunks_concat: "concat (map snd (chunks s)) = s"
  by (induction s rule: chunks_induct) (simp_all add: chunks_step)

lemma chunks_nonempty_parts: "(r, b) \<in> set (chunks s) \<Longrightarrow> b \<noteq> []"
  by (induction s rule: chunks_induct) (auto simp: chunks_step)

lemma chunks_ascii: "byte c < 128 \<Longrightarrow> chunks (c # s) = (byte c, [c]) # chunks s"
  by (simp add: chunks_step decode_rune_ascii)

lemma RuneCount_le_length: "RuneCount s \<le> length s"
  unfolding RuneCount_def by (induction s rule: chunks_induct) (auto simp: chunks_step)

text \<open>\<^verbatim>\<open>utf8.ValidString\<close>: no rune of it stands for a malformed byte.\<close>

definition valid_utf8 :: "string \<Rightarrow> bool" where
  "valid_utf8 s = list_all (\<lambda>(r, b). \<not> (r = RuneError \<and> length b = 1)) (chunks s)"

lemma decode_rune_valid:
  assumes "decode_rune (c # s) = (r, Suc w)" "\<not> (r = RuneError \<and> w = 0)"
  obtains (one) "w = 0" "byte c < 128"
  | (two) b s' where "w = 1" "s = b # s'" "194 \<le> byte c" "byte c < 224" "cont b"
  | (three) b b' s' where "w = 2" "s = b # b' # s'" "224 \<le> byte c" "byte c < 240" "cont b" "cont b'"
  | (four) b b' b'' s' where "w = 3" "s = b # b' # b'' # s'" "240 \<le> byte c" "byte c < 245"
      "cont b" "cont b'" "cont b''"
  using assms(1,2) unfolding decode_rune.simps Let_def
  by (simp split: if_splits list.splits)

lemma decode_rune_shape:
  assumes "decode_rune (c # s) = (r, Suc w)" "\<not> (r = RuneError \<and> w = 0)"
  shows "RuneStart c" "list_all cont (take w s)" "w \<le> 3"
  using assms by (auto simp: RuneStart_def elim: decode_rune_valid)

lemma decode_rune_local:
  assumes "decode_rune (c # s) = (r, Suc w)" "\<not> (r = RuneError \<and> w = 0)"
  shows "decode_rune (c # take w s @ t) = (r, Suc w)"
  using assms(2) assms
  by (cases rule: decode_rune_valid[OF assms])
    (simp_all add: decode_rune.simps Let_def numeral_2_eq_2 numeral_3_eq_3 split: if_splits)

lemma cont_not_start: "cont c \<longleftrightarrow> \<not> RuneStart c"
  by (simp add: cont_def RuneStart_def)

lemma valid_step:
  assumes "decode_rune (c # s) = (r, Suc w)" "w \<le> length s" "valid_utf8 (c # s)"
  shows "\<not> (r = RuneError \<and> w = 0)" "valid_utf8 (drop w s)"
  using assms by (auto simp: valid_utf8_def chunks_step)

lemma chunks_local:
  assumes "decode_rune (c # s) = (r, Suc w)" "w \<le> length s" "\<not> (r = RuneError \<and> w = 0)"
  shows "chunks (c # take w s @ t) = (r, c # take w s) # chunks t"
  using assms chunks_step[OF decode_rune_local[OF assms(1,3)], of t] by simp

lemma chunks_append:
  "valid_utf8 s \<Longrightarrow> chunks (s @ t) = chunks s @ chunks t"
proof (induction s rule: chunks_induct)
  case (Step c s r w)
  note ok = valid_step[OF Step(1,2,4)]
  have "c # s @ t = c # take w s @ (drop w s @ t)" by simp
  then have "chunks (c # s @ t) = (r, c # take w s) # chunks (drop w s @ t)"
    using chunks_local[OF Step(1,2) ok(1), of "drop w s @ t"] by (simp only:)
  then show ?case using Step(3)[OF ok(2)] chunks_step[OF Step(1)] by simp
qed simp

lemma valid_utf8_append: "valid_utf8 s \<Longrightarrow> valid_utf8 t \<Longrightarrow> valid_utf8 (s @ t)"
  using chunks_append[of s t] by (simp add: valid_utf8_def)

text \<open>\<^verbatim>\<open>unicode.IsSpace\<close> and \<^verbatim>\<open>unicode.IsControl\<close>, on every rune.\<close>

definition IsSpace :: "rune \<Rightarrow> bool" where
  "IsSpace r = (r \<in> {9, 10, 11, 12, 13, 32, 133, 160, 5760, 8232, 8233, 8239, 8287, 12288}
     \<or> (8192 \<le> r \<and> r \<le> 8202))"

definition IsControl :: "rune \<Rightarrow> bool" where
  "IsControl r = (r < 32 \<or> (127 \<le> r \<and> r < 160))"

text \<open>
  \<^verbatim>\<open>strings.TrimSpace\<close>. Go trims the end by decoding backwards; a byte that can start
  a rune always starts one going forwards too, so dropping runes of the forward
  decoding from both ends is the same.
\<close>

definition trim_runes :: "(rune \<Rightarrow> bool) \<Rightarrow> (rune \<times> string) list \<Rightarrow> (rune \<times> string) list" where
  "trim_runes P cs = rev (dropWhile (P \<circ> fst) (rev (dropWhile (P \<circ> fst) cs)))"

definition TrimSpace :: "string \<Rightarrow> string" where
  "TrimSpace s = concat (map snd (trim_runes IsSpace (chunks s)))"

lemma dropWhile_hd: "xs = [] \<or> \<not> P (hd xs) \<Longrightarrow> dropWhile P xs = xs"
  by (cases xs) auto

lemma trim_runes_id:
  "cs = [] \<or> \<not> P (fst (hd cs)) \<and> \<not> P (fst (last cs)) \<Longrightarrow> trim_runes P cs = cs"
  by (cases "cs = []") (simp_all add: trim_runes_def dropWhile_hd hd_rev)

text \<open>\<^verbatim>\<open>strconv.Atoi\<close>: an optional sign and decimal digits, in the range of a 64-bit int.\<close>

definition int64_ok :: "int \<Rightarrow> bool" where
  "int64_ok i = (- (2 ^ 63) \<le> i \<and> i < 2 ^ 63)"

definition Atoi :: "string \<Rightarrow> int option" where
  "Atoi s =
    (let (neg, ds) = (case s of c # t \<Rightarrow> if c = CHR ''-'' then (True, t)
                                        else if c = CHR ''+'' then (False, t) else (False, s)
                      | [] \<Rightarrow> (False, s));
         i = (if neg then - int (dec_val ds) else int (dec_val ds))
     in if ds \<noteq> [] \<and> list_all is_digit ds \<and> int64_ok i then Some i else None)"

lemma Atoi_nat_dec: "int n < 2 ^ 63 \<Longrightarrow> Atoi (nat_dec n) = Some (int n)"
proof -
  assume n: "int n < 2 ^ 63"
  obtain c t where ct: "nat_dec n = c # t" by (meson neq_Nil_conv nat_dec_nonempty)
  then have "is_digit c" using nat_dec_digits[of n] by simp
  then have "c \<noteq> CHR ''-''" "c \<noteq> CHR ''+''" by (auto simp: is_digit_def)
  moreover have "list_all is_digit (c # t)" "dec_val (c # t) = n"
    using nat_dec_digits[of n] dec_val_nat_dec[of n] ct by simp_all
  moreover have "int64_ok (int n)" using n by (simp add: int64_ok_def)
  ultimately show ?thesis using ct by (simp add: Atoi_def del: dec_from_simps)
qed

lemma Atoi_itoa: "int64_ok i \<Longrightarrow> Atoi (itoa i) = Some i"
proof (cases "i < 0")
  case True
  assume "int64_ok i"
  then show ?thesis using True nat_dec_digits[of "nat (- i)"] by (simp add: itoa_def Atoi_def)
next
  case False
  assume "int64_ok i"
  then show ?thesis using False Atoi_nat_dec[of "nat i"] by (simp add: itoa_def int64_ok_def)
qed

lemma Atoi_range: "Atoi s = Some i \<Longrightarrow> int64_ok i"
  by (auto simp: Atoi_def Let_def split: if_splits prod.splits)

section \<open>Paths and files\<close>

abbreviation SL :: char where "SL \<equiv> CHR ''/''"

text \<open>
  \<^verbatim>\<open>path.Clean\<close>, which on a Unix host is \<^verbatim>\<open>filepath.Clean\<close>: segments are handled left
  to right; the accumulator holds the ones kept, innermost first.
\<close>

fun clean_segs :: "bool \<Rightarrow> string list \<Rightarrow> string list \<Rightarrow> string list" where
  "clean_segs rooted acc [] = rev acc"
| "clean_segs rooted acc (w # ws) =
    (if w = [] \<or> w = ''.'' then clean_segs rooted acc ws
     else if w = ''..'' then
       (case acc of
          a # as \<Rightarrow> if a = ''..'' then clean_segs rooted (w # acc) ws else clean_segs rooted as ws
        | [] \<Rightarrow> if rooted then clean_segs rooted [] ws else clean_segs rooted [w] ws)
     else clean_segs rooted (w # acc) ws)"

definition IsAbs :: "string \<Rightarrow> bool" where
  "IsAbs p = prefix [SL] p"

definition Clean :: "string \<Rightarrow> string" where
  "Clean p =
    (let segs = clean_segs (IsAbs p) [] (split_at SL p) in
     if IsAbs p then SL # join_with [SL] segs
     else if segs = [] then ''.'' else join_with [SL] segs)"

text \<open>\<^verbatim>\<open>path.Join\<close> of two elements; empty elements are left out.\<close>

definition Join2 :: "string \<Rightarrow> string \<Rightarrow> string" where
  "Join2 a b =
    (if a = [] \<and> b = [] then [] else if a = [] then Clean b else if b = [] then Clean a
     else Clean (a @ [SL] @ b))"

text \<open>
  What the code asks of the host's file system: \<^verbatim>\<open>filepath.EvalSymlinks\<close>, \<^verbatim>\<open>os.Stat\<close>
  (where \<^verbatim>\<open>os.SameFile\<close> compares \<open>fi_id\<close>), the contents of a file, and the text
  of the error when one of these fails on a path.
\<close>

record file_info =
  fi_id :: nat
  fi_IsDir :: bool
  fi_ModTime :: time
  fi_Size :: int

record fs =
  fs_EvalSymlinks :: "string \<Rightarrow> string option"
  fs_Stat :: "string \<Rightarrow> file_info option"
  fs_ReadFile :: "string \<Rightarrow> string option"
  fs_ErrText :: "string \<Rightarrow> string"

definition SameFile :: "file_info \<Rightarrow> file_info \<Rightarrow> bool" where
  "SameFile a b = (fi_id a = fi_id b)"

section \<open>Lists\<close>

text \<open>\<^verbatim>\<open>slices.DeleteFunc\<close> and \<^verbatim>\<open>slices.ContainsFunc\<close>.\<close>

abbreviation delete_func :: "('a \<Rightarrow> bool) \<Rightarrow> 'a list \<Rightarrow> 'a list" where
  "delete_func P xs \<equiv> filter (\<lambda>x. \<not> P x) xs"

abbreviation contains_func :: "('a \<Rightarrow> bool) \<Rightarrow> 'a list \<Rightarrow> bool" where
  "contains_func P xs \<equiv> list_ex P xs"

text \<open>Go maps as association lists with distinct keys, in some iteration order.\<close>

fun aput :: "'k \<Rightarrow> 'v \<Rightarrow> ('k \<times> 'v) list \<Rightarrow> ('k \<times> 'v) list" where
  "aput k v [] = [(k, v)]"
| "aput k v ((k', v') # m) = (if k' = k then (k, v) # m else (k', v') # aput k v m)"

definition adel :: "'k \<Rightarrow> ('k \<times> 'v) list \<Rightarrow> ('k \<times> 'v) list" where
  "adel k m = filter (\<lambda>(k', _). k' \<noteq> k) m"

lemma map_of_aput [simp]: "map_of (aput k v m) = (map_of m)(k \<mapsto> v)"
  by (induction m) auto

lemma set_keys_aput [simp]: "set (map fst (aput k v m)) = insert k (set (map fst m))"
proof (induction m)
  case (Cons p m)
  then show ?case by (cases p; cases "fst p = k") (simp_all add: insert_commute)
qed simp

lemma distinct_aput: "distinct (map fst m) \<Longrightarrow> distinct (map fst (aput k v m))"
proof (induction m)
  case (Cons p m)
  then show ?case using set_keys_aput[of k v m] by (cases p; cases "fst p = k") (simp_all del: set_map)
qed simp

lemma map_of_adel [simp]: "map_of (adel k m) = (map_of m)(k := None)"
  by (induction m) (auto simp: adel_def)

lemma distinct_adel: "distinct (map fst m) \<Longrightarrow> distinct (map fst (adel k m))"
  by (induction m) (auto simp: adel_def)

lemma set_adel: "p \<in> set (adel k m) \<longleftrightarrow> p \<in> set m \<and> fst p \<noteq> k"
  by (auto simp: adel_def)

lemma adel_aput [simp]: "adel k (aput k v al) = adel k al"
  by (induction al) (auto simp: adel_def)

lemma aput_absent: "map_of al k = None \<Longrightarrow> aput k v al = al @ [(k, v)]"
  by (induction al) (auto split: if_splits)

lemma aput_same: "map_of al k = Some v \<Longrightarrow> aput k v al = al"
  by (induction al) (auto split: if_splits)

lemma adel_none: "map_of al k = None \<Longrightarrow> adel k al = al"
  by (induction al) (auto simp: adel_def split: if_splits)

lemma sum_list_take_drop: "sum_list (map f (take n xs)) + sum_list (map f (drop n xs)) = sum_list (map f xs)"
  for f :: "'a \<Rightarrow> 'b::comm_monoid_add"
  by (metis append_take_drop_id map_append sum_list_append)

lemma distinct_map_filter': "distinct (map f xs) \<Longrightarrow> distinct (map f (filter P xs))"
  by (induction xs) auto

lemma distinct_map_drop: "distinct (map f xs) \<Longrightarrow> distinct (map f (drop n xs))"
  by (metis distinct_drop drop_map)

end
