(* ===== verification/Dap_Frame.thy ===== *)
theory Dap_Frame
  imports Go_Base
begin

text \<open>
  The base-protocol framing of \<^verbatim>\<open>internal/dap/frame.go\<close>. A \<^verbatim>\<open>bufio.Reader\<close> is the
  list of bytes still to come and the error it reports after them; the readers
  return their result with the reader after the bytes they consumed. Contents
  and headers are byte strings. The theory proves that a written frame is read
  back, that an accepted frame has exactly the documented form, that an oversized
  frame leaves the reader at its content, and the bounds on what a header costs.
\<close>

section \<open>The reader\<close>

datatype io_error = EOF | ErrUnexpectedEOF | IOError nat

record reader =
  rd_bytes :: string
  rd_err :: io_error

datatype framing_violation = NotTheHeader | NotTheDelimiter | NotTheLength

datatype frame_error =
    Io io_error
  | ErrFraming framing_violation
  | TooLargeError (tl_Size: int) (tl_Max: int)

abbreviation MaxAdapterMessage :: int where "MaxAdapterMessage \<equiv> 4 * 2 ^ 20"
abbreviation maxLengthDigits :: nat where "maxLengthDigits \<equiv> 10"

definition contentLengthPrefix :: string where
  "contentLengthPrefix = ''Content-Length: ''"

abbreviation CR :: char where "CR \<equiv> CHR 0x0D"
abbreviation LF :: char where "LF \<equiv> CHR 0x0A"

fun ReadByte :: "reader \<Rightarrow> (io_error + char) \<times> reader" where
  "ReadByte r = (case rd_bytes r of [] \<Rightarrow> (Inl (rd_err r), r)
    | b # bs \<Rightarrow> (Inr b, r\<lparr>rd_bytes := bs\<rparr>))"

text \<open>\<^verbatim>\<open>io.ReadFull\<close>: a stream that ends after some of the bytes is an unexpected end.\<close>

definition ReadFull :: "nat \<Rightarrow> reader \<Rightarrow> (io_error + string) \<times> reader" where
  "ReadFull n r =
    (let bs = rd_bytes r in
     if n \<le> length bs then (Inr (take n bs), r\<lparr>rd_bytes := drop n bs\<rparr>)
     else (Inl (if bs \<noteq> [] \<and> rd_err r = EOF then ErrUnexpectedEOF else rd_err r), r\<lparr>rd_bytes := []\<rparr>))"

definition unexpectedEOF :: "io_error \<Rightarrow> io_error" where
  "unexpectedEOF e = (if e = EOF then ErrUnexpectedEOF else e)"

section \<open>Reading and writing\<close>

text \<open>
  The digits loop of \<^verbatim>\<open>readLength\<close>; \<open>n\<close> is an \<^verbatim>\<open>int64\<close> that ten digits cannot
  overflow (\<open>readLength_bound\<close> below).
\<close>

function (sequential) readLength_loop :: "nat \<Rightarrow> int \<Rightarrow> reader \<Rightarrow> (frame_error + int) \<times> reader" where
  "readLength_loop digits n r =
    (case ReadByte r of
       (Inl e, r') \<Rightarrow> (Inl (Io (unexpectedEOF e)), r')
     | (Inr b, r') \<Rightarrow>
         if is_digit b \<and> digits < maxLengthDigits
         then readLength_loop (digits + 1) (n * 10 + int (digit_val b)) r'
         else if b = CR \<and> digits > 0 then (Inr n, r')
         else (Inl (ErrFraming NotTheLength), r'))"
  by pat_completeness auto
termination
  by (relation "measure (\<lambda>(d, n, r). length (rd_bytes r))") (auto split: list.splits)

declare readLength_loop.simps [simp del]

definition readLength :: "reader \<Rightarrow> (frame_error + int) \<times> reader" where
  "readLength r = readLength_loop 0 0 r"

text \<open>The loop over the bytes of the prefix; \<open>i\<close> is the position reached.\<close>

fun readPrefix :: "nat \<Rightarrow> string \<Rightarrow> reader \<Rightarrow> (frame_error + unit) \<times> reader" where
  "readPrefix i [] r = (Inr (), r)"
| "readPrefix i (w # ws) r =
    (case ReadByte r of
       (Inl e, r') \<Rightarrow> (Inl (Io (if i = 0 then e else unexpectedEOF e)), r')
     | (Inr b, r') \<Rightarrow> if b \<noteq> w then (Inl (ErrFraming NotTheHeader), r') else readPrefix (i + 1) ws r')"

fun readDelimiter :: "string \<Rightarrow> reader \<Rightarrow> (frame_error + unit) \<times> reader" where
  "readDelimiter [] r = (Inr (), r)"
| "readDelimiter (w # ws) r =
    (case ReadByte r of
       (Inl e, r') \<Rightarrow> (Inl (Io (unexpectedEOF e)), r')
     | (Inr b, r') \<Rightarrow> if b \<noteq> w then (Inl (ErrFraming NotTheDelimiter), r') else readDelimiter ws r')"

definition readHeader :: "reader \<Rightarrow> (frame_error + int) \<times> reader" where
  "readHeader r =
    (case readPrefix 0 contentLengthPrefix r of
       (Inl e, r1) \<Rightarrow> (Inl e, r1)
     | (Inr _, r1) \<Rightarrow>
       (case readLength r1 of
          (Inl e, r2) \<Rightarrow> (Inl e, r2)
        | (Inr n, r2) \<Rightarrow>
          (case readDelimiter [LF, CR, LF] r2 of
             (Inl e, r3) \<Rightarrow> (Inl e, r3)
           | (Inr _, r3) \<Rightarrow> (Inr n, r3))))"

definition ReadMessage :: "reader \<Rightarrow> int \<Rightarrow> (frame_error + string) \<times> reader" where
  "ReadMessage r maxContent =
    (case readHeader r of
       (Inl e, r1) \<Rightarrow> (Inl e, r1)
     | (Inr n, r1) \<Rightarrow>
         if n > maxContent then (Inl (TooLargeError n maxContent), r1)
         else (case ReadFull (nat n) r1 of
                 (Inl e, r2) \<Rightarrow> (Inl (Io (unexpectedEOF e)), r2)
               | (Inr content, r2) \<Rightarrow> (Inr content, r2)))"

definition writeMessage :: "string \<Rightarrow> string" where
  "writeMessage content =
    contentLengthPrefix @ itoa (int (length content)) @ [CR, LF, CR, LF] @ content"

section \<open>What the readers consume\<close>

lemma not_digit_CR [simp]: "\<not> is_digit CR"
  by (simp add: is_digit_def)

lemma ReadByte_cases:
  obtains (eof) "rd_bytes r = []" "ReadByte r = (Inl (rd_err r), r)"
  | (byte) b bs where "rd_bytes r = b # bs" "ReadByte r = (Inr b, r\<lparr>rd_bytes := bs\<rparr>)"
  by (cases "rd_bytes r") simp_all

lemma readPrefix_append:
  "rd_bytes r = p @ s \<Longrightarrow> readPrefix i p r = (Inr (), r\<lparr>rd_bytes := s\<rparr>)"
  by (induction p arbitrary: i r) simp_all

lemma readDelimiter_append:
  "rd_bytes r = p @ s \<Longrightarrow> readDelimiter p r = (Inr (), r\<lparr>rd_bytes := s\<rparr>)"
  by (induction p arbitrary: r) simp_all

lemma readPrefix_sound:
  "readPrefix i p r = (x, r') \<Longrightarrow> length (rd_bytes r) \<le> length (rd_bytes r') + length p
    \<and> rd_err r' = rd_err r \<and> (is_ok x \<longrightarrow> rd_bytes r = p @ rd_bytes r')"
proof (induction p arbitrary: i r)
  case (Cons w ws)
  show ?case
  proof (cases r rule: ReadByte_cases)
    case (byte b bs)
    then show ?thesis
      using Cons.prems Cons.IH[of "i + 1" "r\<lparr>rd_bytes := bs\<rparr>"] by (cases "b = w") (simp_all, auto)
  qed (use Cons in auto)
qed auto

lemma readDelimiter_sound:
  "readDelimiter p r = (x, r') \<Longrightarrow> length (rd_bytes r) \<le> length (rd_bytes r') + length p
    \<and> rd_err r' = rd_err r \<and> (is_ok x \<longrightarrow> rd_bytes r = p @ rd_bytes r')"
proof (induction p arbitrary: r)
  case (Cons w ws)
  show ?case
  proof (cases r rule: ReadByte_cases)
    case (byte b bs)
    then show ?thesis
      using Cons.prems Cons.IH[of "r\<lparr>rd_bytes := bs\<rparr>"] by (cases "b = w") (simp_all, auto)
  qed (use Cons in auto)
qed auto

lemma readLength_loop_Nil:
  "rd_bytes r = [] \<Longrightarrow> readLength_loop k n r = (Inl (Io (unexpectedEOF (rd_err r))), r)"
  by (subst readLength_loop.simps) simp

lemma readLength_loop_Cons:
  "rd_bytes r = b # bs \<Longrightarrow> readLength_loop k n r =
    (if is_digit b \<and> k < maxLengthDigits
     then readLength_loop (Suc k) (n * 10 + int (digit_val b)) (r\<lparr>rd_bytes := bs\<rparr>)
     else if b = CR \<and> k > 0 then (Inr n, r\<lparr>rd_bytes := bs\<rparr>)
     else (Inl (ErrFraming NotTheLength), r\<lparr>rd_bytes := bs\<rparr>))"
  by (subst readLength_loop.simps) simp

lemma readLength_loop_digits:
  assumes "list_all is_digit ds" "k + length ds \<le> maxLengthDigits" "0 < k + length ds"
    and "rd_bytes r = ds @ CR # s"
  shows "readLength_loop k (int a) r = (Inr (int (dec_from a ds)), r\<lparr>rd_bytes := s\<rparr>)"
  using assms
proof (induction ds arbitrary: k a r)
  case Nil
  then show ?case by (simp add: readLength_loop_Cons)
next
  case (Cons d ds)
  then show ?case
    using Cons.IH[of "Suc k" "r\<lparr>rd_bytes := ds @ CR # s\<rparr>" "a * 10 + digit_val d"]
    by (simp add: readLength_loop_Cons)
qed

lemma readLength_loop_length:
  "readLength_loop k n r = (x, r') \<Longrightarrow> k \<le> maxLengthDigits \<Longrightarrow> rd_err r' = rd_err r
    \<and> length (rd_bytes r) \<le> length (rd_bytes r') + (maxLengthDigits + 1 - k)"
proof (induction "rd_bytes r" arbitrary: k n r)
  case (Cons b bs)
  note step = readLength_loop_Cons[OF Cons.hyps(2)[symmetric], of k n]
  show ?case
  proof (cases "is_digit b \<and> k < maxLengthDigits")
    case True
    then have "readLength_loop (Suc k) (n * 10 + int (digit_val b)) (r\<lparr>rd_bytes := bs\<rparr>) = (x, r')"
      using Cons.prems step by simp
    from Cons.hyps(1)[OF _ this] have "rd_err r' = rd_err r"
        "length bs \<le> length (rd_bytes r') + (maxLengthDigits + 1 - Suc k)"
      using True by simp_all
    then show ?thesis using True Cons.hyps(2)[symmetric] by auto
  next
    case False
    have "snd (readLength_loop k n r) = r\<lparr>rd_bytes := bs\<rparr>"
      by (simp only: step False if_False) simp
    then have "r' = r\<lparr>rd_bytes := bs\<rparr>" using Cons.prems by simp
    then show ?thesis using Cons.prems(2) Cons.hyps(2)[symmetric] by simp
  qed
qed (auto simp: readLength_loop_Nil)

lemma readLength_loop_sound:
  assumes "readLength_loop k (int a) r = (Inr m, r')" "k \<le> maxLengthDigits"
  shows "\<exists>ds. list_all is_digit ds \<and> k + length ds \<le> maxLengthDigits \<and> 0 < k + length ds
    \<and> rd_bytes r = ds @ CR # rd_bytes r' \<and> m = int (dec_from a ds)"
  using assms
proof (induction "rd_bytes r" arbitrary: k a r)
  case Nil
  then show ?case by (simp add: readLength_loop_Nil)
next
  case (Cons b bs)
  show ?case
  proof (cases "is_digit b \<and> k < maxLengthDigits")
    case True
    then have "readLength_loop (Suc k) (int (a * 10 + digit_val b)) (r\<lparr>rd_bytes := bs\<rparr>) = (Inr m, r')"
      using Cons.prems Cons.hyps(2) by (simp add: readLength_loop_Cons[where b = b and bs = bs])
    then obtain ds where "list_all is_digit ds" "Suc k + length ds \<le> maxLengthDigits"
        "bs = ds @ CR # rd_bytes r'" "m = int (dec_from (a * 10 + digit_val b) ds)"
      using Cons.hyps(1)[of "r\<lparr>rd_bytes := bs\<rparr>" "Suc k" "a * 10 + digit_val b"] True by auto
    then show ?thesis
      using True Cons.hyps(2) by (intro exI[of _ "b # ds"]) simp
  next
    case False
    then have "b = CR \<and> 0 < k \<and> m = int a \<and> rd_bytes r' = bs"
      using Cons.prems(1) readLength_loop_Cons[OF Cons.hyps(2)[symmetric], of k "int a"]
      by (cases "b = CR \<and> 0 < k") auto
    then show ?thesis using Cons.hyps(2) Cons.prems(2) by (intro exI[of _ "[]"]) simp
  qed
qed

text \<open>
  The header as a language: the prefix, one to ten digits, and the delimiter.
\<close>

definition header_of :: "string \<Rightarrow> string" where
  "header_of ds = contentLengthPrefix @ ds @ [CR, LF, CR, LF]"

definition length_digits :: "string \<Rightarrow> bool" where
  "length_digits ds = (list_all is_digit ds \<and> ds \<noteq> [] \<and> length ds \<le> maxLengthDigits)"

lemma readHeader_accepts:
  assumes "length_digits ds" "rd_bytes r = header_of ds @ s"
  shows "readHeader r = (Inr (int (dec_val ds)), r\<lparr>rd_bytes := s\<rparr>)"
proof -
  have "readPrefix 0 contentLengthPrefix r
      = (Inr (), r\<lparr>rd_bytes := ds @ CR # LF # CR # LF # s\<rparr>)"
    using assms by (intro readPrefix_append) (simp add: header_of_def)
  moreover have "readLength (r\<lparr>rd_bytes := ds @ CR # LF # CR # LF # s\<rparr>)
      = (Inr (int (dec_val ds)), r\<lparr>rd_bytes := LF # CR # LF # s\<rparr>)"
    using assms readLength_loop_digits[of ds 0 "r\<lparr>rd_bytes := ds @ CR # LF # CR # LF # s\<rparr>" "LF # CR # LF # s" 0]
    by (simp add: readLength_def length_digits_def)
  ultimately show ?thesis by (simp add: readHeader_def)
qed

lemma readHeader_sound:
  assumes "readHeader r = (Inr n, r')"
  shows "\<exists>ds. length_digits ds \<and> n = int (dec_val ds) \<and> rd_bytes r = header_of ds @ rd_bytes r'
    \<and> rd_err r' = rd_err r"
proof -
  obtain r1 r2 where pre: "readPrefix 0 contentLengthPrefix r = (Inr (), r1)"
    and len: "readLength r1 = (Inr n, r2)" and del: "readDelimiter [LF, CR, LF] r2 = (Inr (), r')"
    using assms by (auto simp: readHeader_def simp del: readDelimiter.simps split: prod.splits sum.splits)
  obtain ds where "list_all is_digit ds" "length ds \<le> maxLengthDigits" "0 < length ds"
      "rd_bytes r1 = ds @ CR # rd_bytes r2" "n = int (dec_val ds)"
    using readLength_loop_sound[of 0 0 r1 n r2] len by (auto simp: readLength_def)
  moreover have "rd_err r2 = rd_err r1"
    using readLength_loop_length[of 0 0 r1 _ r2] len by (simp add: readLength_def)
  ultimately show ?thesis
    using readPrefix_sound[OF pre] readDelimiter_sound[OF del]
    by (intro exI[of _ ds]) (simp add: length_digits_def header_of_def)
qed

lemma length_digits_bound: "length_digits ds \<Longrightarrow> dec_val ds < 10 ^ 10"
proof -
  assume "length_digits ds"
  then have "dec_val ds < 10 ^ length ds" "length ds \<le> 10"
    using dec_val_upper[of ds 0] by (auto simp: length_digits_def)
  moreover have "(10::nat) ^ length ds \<le> 10 ^ 10"
    using \<open>length ds \<le> 10\<close> by (intro power_increasing) auto
  ultimately show ?thesis by linarith
qed

lemma nat_dec_length_digits: "n < 10 ^ 10 \<Longrightarrow> length_digits (nat_dec n)"
  using nat_dec_length[of n 10] by (simp add: length_digits_def nat_dec_digits)

lemma writeMessage_header:
  "writeMessage content = header_of (nat_dec (length content)) @ content"
  by (simp add: writeMessage_def header_of_def itoa_def)

text \<open>How many bytes a reader consumed.\<close>

definition consumed :: "reader \<Rightarrow> reader \<Rightarrow> nat" where
  "consumed r r' = length (rd_bytes r) - length (rd_bytes r')"

section \<open>Properties\<close>

lemma ReadMessage_of_header:
  assumes "length_digits ds" "rd_bytes r = header_of ds @ s"
  shows "ReadMessage r m =
    (let n = dec_val ds; r1 = r\<lparr>rd_bytes := s\<rparr> in
     if int n > m then (Inl (TooLargeError (int n) m), r1)
     else case ReadFull n r1 of
         (Inl e, r2) \<Rightarrow> (Inl (Io (unexpectedEOF e)), r2) | (Inr c, r2) \<Rightarrow> (Inr c, r2))"
  using readHeader_accepts[OF assms] by (simp add: ReadMessage_def Let_def)

text \<open>
  A message written by \<^const>\<open>writeMessage\<close> is read back whole, and the reader is
  left at the first byte after it, whatever follows in the stream.
\<close>

theorem frame_roundtrip:
  assumes "int (length content) \<le> m" "length content < 10 ^ 10"
  shows "ReadMessage \<lparr>rd_bytes = writeMessage content @ rest, rd_err = e\<rparr> m
       = (Inr content, \<lparr>rd_bytes = rest, rd_err = e\<rparr>)"
  using assms ReadMessage_of_header[OF nat_dec_length_digits[OF assms(2)],
      of "\<lparr>rd_bytes = writeMessage content @ rest, rd_err = e\<rparr>" "content @ rest" m]
  by (simp add: writeMessage_header ReadFull_def Let_def)

theorem frame_roundtrip_witness:
  "ReadMessage \<lparr>rd_bytes = writeMessage ''{}'' @ ''tail'', rd_err = EOF\<rparr> MaxAdapterMessage
    = (Inr ''{}'', \<lparr>rd_bytes = ''tail'', rd_err = EOF\<rparr>)"
  by (rule frame_roundtrip) simp_all

text \<open>
  A frame is accepted only if the stream starts with exactly the header
  \<^verbatim>\<open>Content-Length: N\<close> of one to ten digits and its delimiter, followed by the
  content returned, which has the length the digits say and is within the limit;
  the reader is left right after it.
\<close>

theorem frame_sound:
  assumes "ReadMessage r m = (Inr content, r')"
  shows "\<exists>ds. length_digits ds \<and> dec_val ds = length content \<and> int (length content) \<le> m
    \<and> rd_bytes r = header_of ds @ content @ rd_bytes r'"
proof -
  obtain n r1 where hdr: "readHeader r = (Inr n, r1)"
    using assms by (auto simp: ReadMessage_def split: prod.splits sum.splits)
  then obtain ds where ds: "length_digits ds" "n = int (dec_val ds)" "rd_bytes r = header_of ds @ rd_bytes r1"
    using readHeader_sound by blast
  have n: "n \<le> m" and full: "ReadFull (nat n) r1 = (Inr content, r')"
    using assms hdr by (auto simp: ReadMessage_def split: prod.splits sum.splits if_splits)
  have "nat n \<le> length (rd_bytes r1)" "content = take (nat n) (rd_bytes r1)"
      "rd_bytes r' = drop (nat n) (rd_bytes r1)"
    using full by (cases "nat n \<le> length (rd_bytes r1)"; force simp: ReadFull_def Let_def)+
  then show ?thesis using ds n by (intro exI[of _ ds]) simp
qed

theorem frame_sound_witness:
  "\<exists>ds. length_digits ds \<and> dec_val ds = length ''{}'' \<and> int (length ''{}'') \<le> 10
    \<and> writeMessage ''{}'' = header_of ds @ ''{}'' @ []"
  using frame_sound[of "\<lparr>rd_bytes = writeMessage ''{}'', rd_err = EOF\<rparr>" 10 "''{}''" "\<lparr>rd_bytes = [], rd_err = EOF\<rparr>"]
    ReadMessage_of_header[OF nat_dec_length_digits[of 2], of "\<lparr>rd_bytes = writeMessage ''{}'', rd_err = EOF\<rparr>" "''{}''" 10]
  by (simp add: writeMessage_header ReadFull_def Let_def numeral_2_eq_2)

text \<open>
  A frame that announces more than the limit is refused before any of its
  content is read: the error carries the announced size, and dropping that many
  bytes of what is left puts the reader at whatever follows the frame.
\<close>

theorem oversized_frame_keeps_sync:
  assumes "int (length content) > m" "length content < 10 ^ 10"
  shows "\<exists>r'. ReadMessage \<lparr>rd_bytes = writeMessage content @ rest, rd_err = e\<rparr> m
       = (Inl (TooLargeError (int (length content)) m), r')
     \<and> drop (length content) (rd_bytes r') = rest \<and> rd_err r' = e"
  using assms ReadMessage_of_header[OF nat_dec_length_digits[OF assms(2)],
      of "\<lparr>rd_bytes = writeMessage content @ rest, rd_err = e\<rparr>" "content @ rest" m]
  by (simp add: writeMessage_header Let_def)

theorem oversized_frame_keeps_sync_witness:
  "\<exists>r'. ReadMessage \<lparr>rd_bytes = writeMessage ''{...}'' @ ''tail'', rd_err = EOF\<rparr> 4
     = (Inl (TooLargeError 5 4), r') \<and> drop (length ''{...}'') (rd_bytes r') = ''tail'' \<and> rd_err r' = EOF"
  using oversized_frame_keeps_sync[of 4 "''{...}''" "''tail''" EOF] by simp

text \<open>
  Whatever the peer sends, reading a header consumes at most 30 bytes, and a
  length it accepts is below \<open>10^10\<close>, so the \<^verbatim>\<open>int64\<close> accumulator never wraps.
\<close>

theorem header_bounds:
  assumes "readHeader r = (x, r')"
  shows "length (rd_bytes r) \<le> length (rd_bytes r') + 30
    \<and> (\<forall>n. x = Inr n \<longrightarrow> 0 \<le> n \<and> n < 10 ^ 10)"
proof
  show "length (rd_bytes r) \<le> length (rd_bytes r') + 30"
  proof -
    obtain y1 r1 where 1: "readPrefix 0 contentLengthPrefix r = (y1, r1)" by fastforce
    obtain y2 r2 where 2: "readLength_loop 0 0 r1 = (y2, r2)" by fastforce
    obtain y3 r3 where 3: "readDelimiter [LF, CR, LF] r2 = (y3, r3)" by fastforce
    have "r' \<in> {r1, r2, r3}"
      using assms 1 2 3
      by (auto simp: readHeader_def readLength_def simp del: readDelimiter.simps split: sum.splits)
    moreover have "length (rd_bytes r) \<le> length (rd_bytes r1) + 16"
      using readPrefix_sound[OF 1] by (simp add: contentLengthPrefix_def)
    moreover have "length (rd_bytes r1) \<le> length (rd_bytes r2) + 11"
      using readLength_loop_length[OF 2] by simp
    moreover have "length (rd_bytes r2) \<le> length (rd_bytes r3) + 3"
      using readDelimiter_sound[OF 3] by simp
    ultimately show ?thesis by auto
  qed
  show "\<forall>n. x = Inr n \<longrightarrow> 0 \<le> n \<and> n < 10 ^ 10"
    using readHeader_sound[of r _ r'] assms length_digits_bound by fastforce
qed

theorem header_bounds_witness:
  "length (rd_bytes \<lparr>rd_bytes = ''Content-Length: 7'' @ [CR, LF, CR, LF], rd_err = EOF\<rparr>) \<le> length ([]::string) + 30
    \<and> 0 \<le> (7::int) \<and> (7::int) < 10 ^ 10"
  using header_bounds[of "\<lparr>rd_bytes = ''Content-Length: 7'' @ [CR, LF, CR, LF], rd_err = EOF\<rparr>"
      "Inr 7" "\<lparr>rd_bytes = [], rd_err = EOF\<rparr>"]
  by (simp add: readHeader_def contentLengthPrefix_def readLength_def readLength_loop_Cons
      is_digit_def digit_val_def)

end
