(* ===== verification/Dap_Client.thy ===== *)
theory Dap_Client
  imports Dap_Frame
begin

text \<open>
  The client side of a DAP connection (\<^verbatim>\<open>internal/dap/client.go\<close>): the loop that reads
  frames, and the matching of responses to the calls that wait for them.

  A client is shared by its read goroutine and any number of callers. Each critical
  section and each channel operation is one step, in any order; the channel a call makes is
  part of the call, a buffer of one message. The decoders of go-dap are parameters.
\<close>

section \<open>The read loop\<close>

datatype loop_error = ErrClosed | ReadFailed frame_error

text \<open>\<^verbatim>\<open>io.CopyN(io.Discard, r, n)\<close> over \<open>n\<close> bytes.\<close>

definition skip_bytes :: "nat \<Rightarrow> reader \<Rightarrow> (io_error + unit) \<times> reader" where
  "skip_bytes n r =
    (if n \<le> length (rd_bytes r) then (Inr (), r\<lparr>rd_bytes := drop n (rd_bytes r)\<rparr>)
     else (Inl (rd_err r), r\<lparr>rd_bytes := []\<rparr>))"

text \<open>A header that is read, or is too large, has been consumed.\<close>

lemma readPrefix_error: "readPrefix i p r = (Inl (TooLargeError a b), r') \<Longrightarrow> False"
  by (induction i p r rule: readPrefix.induct) (auto split: list.splits if_splits)

lemma readDelimiter_error: "readDelimiter p r = (Inl (TooLargeError a b), r') \<Longrightarrow> False"
  by (induction p r rule: readDelimiter.induct) (auto split: list.splits if_splits)

lemma readLength_error: "readLength_loop k n r = (Inl (TooLargeError a b), r') \<Longrightarrow> False"
proof (induction "rd_bytes r" arbitrary: k n r)
  case Nil
  then show ?case using readLength_loop_Nil[of r k n] by simp
next
  case (Cons x xs)
  have "readLength_loop (Suc k) (n * 10 + int (digit_val x)) (r\<lparr>rd_bytes := xs\<rparr>) \<noteq> (Inl (TooLargeError a b), r')"
    using Cons.hyps(1)[of "r\<lparr>rd_bytes := xs\<rparr>"] by auto
  then show ?case using readLength_loop_Cons[OF Cons.hyps(2)[symmetric], of k n] Cons.prems by (auto split: if_splits)
qed

lemma readHeader_error: "readHeader r = (Inl (TooLargeError a b), r') \<Longrightarrow> False"
  unfolding readHeader_def readLength_def
  by (auto split: prod.splits sum.splits simp del: readDelimiter.simps dest: readPrefix_error readLength_error readDelimiter_error)

lemma ReadMessage_consumes:
  assumes "ReadMessage r m = (x, r')" "is_ok x \<or> x = Inl (TooLargeError a b)"
  shows "length (rd_bytes r') < length (rd_bytes r)"
proof -
  obtain n r1 where h: "readHeader r = (Inr n, r1)"
    using assms readHeader_error[of r a b] by (auto simp: ReadMessage_def is_ok_def split: prod.splits sum.splits)
  obtain ds where "rd_bytes r = header_of ds @ rd_bytes r1" using readHeader_sound[OF h] by blast
  then have "length (rd_bytes r1) < length (rd_bytes r)" by (simp add: header_of_def)
  moreover have "length (rd_bytes r') \<le> length (rd_bytes r1)"
    using assms(1) h by (auto simp: ReadMessage_def ReadFull_def Let_def split: if_splits)
  ultimately show ?thesis by simp
qed

text \<open>
  \<^verbatim>\<open>readLoop\<close>: the messages that go to \<^verbatim>\<open>dispatch\<close>, in order, and why the loop ended. An
  oversized message is skipped.
\<close>

definition loop_end :: "frame_error \<Rightarrow> loop_error" where
  "loop_end e = (if e = Io EOF then ErrClosed else ReadFailed e)"

function readLoop :: "reader \<Rightarrow> string list \<times> loop_error" where
  "readLoop r =
    (case ReadMessage r MaxAdapterMessage of
       (Inr raw, r1) \<Rightarrow> (case readLoop r1 of (raws, e) \<Rightarrow> (raw # raws, e))
     | (Inl (TooLargeError n mx), r1) \<Rightarrow>
         (case skip_bytes (nat n) r1 of
            (Inl e, r2) \<Rightarrow> ([], loop_end (Io (unexpectedEOF e)))
          | (Inr _, r2) \<Rightarrow> readLoop r2)
     | (Inl e, r1) \<Rightarrow> ([], loop_end e))"
  by pat_completeness auto
termination
proof (relation "measure (\<lambda>r. length (rd_bytes r))")
  have ok: "length (rd_bytes r1) < length (rd_bytes r)" if "(Inr raw, r1) = ReadMessage r MaxAdapterMessage" for raw r r1
    using ReadMessage_consumes[OF that[symmetric]] by (simp add: is_ok_def)
  have large: "length (rd_bytes r1) < length (rd_bytes r)" if "(Inl (TooLargeError n mx), r1) = ReadMessage r MaxAdapterMessage" for n mx r r1
    using ReadMessage_consumes[OF that[symmetric]] by blast
  have skip: "length (rd_bytes r2) \<le> length (rd_bytes r1)" if "(x, r2) = skip_bytes n r1" for x r2 n r1
    using that by (auto simp: skip_bytes_def split: if_splits)
  show "wf (measure (\<lambda>r::reader. length (rd_bytes r)))" by simp
qed (auto simp: skip_bytes_def is_ok_def split: if_splits dest!: ReadMessage_consumes[OF sym])

declare readLoop.simps [simp del]

text \<open>
  The loop over whole frames, and over a part of one: every frame within the limit is
  dispatched, in order, an oversized one costs only itself, and a part dispatches nothing.
\<close>

lemma readLoop_end: "readLoop \<lparr>rd_bytes = [], rd_err = EOF\<rparr> = ([], ErrClosed)"
proof -
  have "ReadMessage \<lparr>rd_bytes = [], rd_err = EOF\<rparr> MaxAdapterMessage = (Inl (Io EOF), \<lparr>rd_bytes = [], rd_err = EOF\<rparr>)"
    by (simp add: ReadMessage_def readHeader_def contentLengthPrefix_def)
  then show ?thesis by (simp add: readLoop.simps[of "\<lparr>rd_bytes = [], rd_err = EOF\<rparr>"] loop_end_def)
qed

lemma readLoop_frame:
  assumes "length m < 10 ^ 10"
  shows "readLoop \<lparr>rd_bytes = writeMessage m @ rest, rd_err = e\<rparr>
    = apfst (\<lambda>raws. if int (length m) \<le> MaxAdapterMessage then m # raws else raws) (readLoop \<lparr>rd_bytes = rest, rd_err = e\<rparr>)"
proof -
  let ?r = "\<lparr>rd_bytes = writeMessage m @ rest, rd_err = e\<rparr>"
  have h: "rd_bytes ?r = header_of (nat_dec (length m)) @ (m @ rest)" by (simp add: writeMessage_header)
  have "ReadMessage ?r MaxAdapterMessage =
      (if int (length m) > MaxAdapterMessage
       then (Inl (TooLargeError (int (length m)) MaxAdapterMessage), \<lparr>rd_bytes = m @ rest, rd_err = e\<rparr>)
       else (Inr m, \<lparr>rd_bytes = rest, rd_err = e\<rparr>))"
    using ReadMessage_of_header[OF nat_dec_length_digits[OF assms] h, of MaxAdapterMessage] by (simp add: Let_def ReadFull_def)
  then show ?thesis by (simp add: readLoop.simps[of ?r] skip_bytes_def apfst_def map_prod_def split: if_splits prod.split)
qed

lemma readLoop_frames:
  assumes "list_all (\<lambda>m. length m < 10 ^ 10) ms"
  shows "readLoop \<lparr>rd_bytes = concat (map writeMessage ms) @ rest, rd_err = e\<rparr>
    = apfst (append (filter (\<lambda>m. int (length m) \<le> MaxAdapterMessage) ms)) (readLoop \<lparr>rd_bytes = rest, rd_err = e\<rparr>)"
  using assms by (induction ms) (simp_all add: readLoop_frame prod_eq_iff)

lemma readLoop_part:
  assumes "length m < 10 ^ 10" "n < length (writeMessage m)"
  shows "fst (readLoop \<lparr>rd_bytes = take n (writeMessage m), rd_err = e\<rparr>) = []"
proof -
  let ?r = "\<lparr>rd_bytes = take n (writeMessage m), rd_err = e\<rparr>" and ?all = "\<lparr>rd_bytes = writeMessage m, rd_err = e\<rparr>"
  obtain x r1 where h: "readHeader ?r = (x, r1)" by fastforce
  show ?thesis
  proof (cases x)
    case (Inl err)
    then show ?thesis using h readHeader_error[of ?r _ _ r1] by (cases err) (simp_all add: readLoop.simps[of ?r] ReadMessage_def)
  next
    case (Inr k)
    obtain ds where ds: "length_digits ds" "k = int (dec_val ds)" "take n (writeMessage m) = header_of ds @ rd_bytes r1"
      using readHeader_sound[of ?r k r1] h Inr by auto
    let ?rest = "rd_bytes r1 @ drop n (writeMessage m)"
    have "readHeader ?all = (Inr k, ?all\<lparr>rd_bytes := ?rest\<rparr>)"
      using ds append_take_drop_id[of n "writeMessage m"] by (simp add: readHeader_accepts[OF ds(1), of ?all ?rest])
    moreover have "readHeader ?all = (Inr (int (length m)), ?all\<lparr>rd_bytes := m\<rparr>)"
      using readHeader_accepts[OF nat_dec_length_digits[OF assms(1)], of ?all m] by (simp add: writeMessage_header)
    ultimately have k: "k = int (length m)" and "m = ?rest" by auto
    from this(2) have "length (rd_bytes r1) < length m" using assms(2) by (metis add.right_neutral drop_eq_Nil leD length_append length_greater_0_conv nat_add_left_cancel_less)
    then show ?thesis using h Inr k by (simp add: readLoop.simps[of ?r] ReadMessage_def ReadFull_def skip_bytes_def Let_def)
  qed
qed

section \<open>Messages\<close>

record response =
  rs_RequestSeq :: int
  rs_Success :: bool
  rs_Message :: string
  rs_Error :: "(string \<times> (string \<times> string) list) option"
  rs_IsError :: bool
  rs_Body :: string

datatype incoming = Response response | Event string | Request int string

fun ReplaceAll :: "string \<Rightarrow> string \<Rightarrow> string \<Rightarrow> string" where
  "ReplaceAll [] old new = []"
| "ReplaceAll (c # s) old new =
    (if old \<noteq> [] \<and> take (length old) (c # s) = old then new @ ReplaceAll (drop (length old - 1) s) old new
     else c # ReplaceAll s old new)"

text \<open>The variables in the order in which Go's map yields them.\<close>

definition formatErrorMessage :: "string \<Rightarrow> (string \<times> string) list \<Rightarrow> string" where
  "formatErrorMessage format vars = fold (\<lambda>(k, v) s. ReplaceAll s (''{'' @ k @ ''}'') v) vars format"

text \<open>\<^verbatim>\<open>responseError\<close>: the message of the error a failed response is.\<close>

definition responseError :: "response \<Rightarrow> string option" where
  "responseError r =
    (if rs_IsError r
     then Some (case rs_Error r of
         Some (format, vars) \<Rightarrow> if format \<noteq> [] then formatErrorMessage format vars else rs_Message r
       | None \<Rightarrow> rs_Message r)
     else if \<not> rs_Success r then Some (rs_Message r) else None)"

text \<open>
  \<^verbatim>\<open>dispatch\<close>: where a message goes. \<open>decode\<close> is go-dap's decoder and \<open>unmarshal\<close> the type and
  the response that JSON makes of a message it has no type for.
\<close>

datatype dispatched = Deliver response | Handle string | Answer int string | Dropped

definition dispatch ::
    "(string \<Rightarrow> incoming option) \<Rightarrow> (string \<Rightarrow> (string \<times> response) option) \<Rightarrow> (response \<Rightarrow> response) \<Rightarrow> (string \<Rightarrow> string) \<Rightarrow> string \<Rightarrow> dispatched" where
  "dispatch decode unmarshal tr_response tr_event raw =
    (case decode raw of
       None \<Rightarrow> (case unmarshal raw of Some (t, r) \<Rightarrow> if t = ''response'' then Deliver r else Dropped | None \<Rightarrow> Dropped)
     | Some (Response r) \<Rightarrow> Deliver (tr_response r)
     | Some (Event e) \<Rightarrow> Handle (tr_event e)
     | Some (Request seq command) \<Rightarrow> Answer seq command)"

section \<open>Calls\<close>

text \<open>
  A call of \<^verbatim>\<open>Do\<close>: its request's seq, its channel (\<open>ca_buf\<close> is the buffered message) and how far
  it is. It holds the write lock while it is \<open>Writing\<close>.
\<close>

datatype call_result = Closed | SendFailed | CtxDone | Answered response

datatype phase = Writing | Waiting | Returned call_result

record do_call =
  ca_seq :: int
  ca_buf :: "response option"
  ca_closed :: bool
  ca_phase :: phase

text \<open>
  The client, with the message its read goroutine has taken a channel for (\<open>cl_taken\<close>), the
  seqs written so far, and whether a send on a channel ever blocked or met a closed one.
\<close>

record dap_client =
  cl_seq :: int
  cl_pending :: "(int \<times> nat) list option"
  cl_done :: bool
  cl_calls :: "do_call list"
  cl_taken :: "(nat \<times> response) option"
  cl_wmu :: "nat option"
  cl_written :: "int list"
  cl_wrong :: bool

definition NewClient :: dap_client where
  "NewClient = \<lparr>cl_seq = 0, cl_pending = Some [], cl_done = False, cl_calls = [], cl_taken = None, cl_wmu = None,
     cl_written = [], cl_wrong = False\<rparr>"

abbreviation on_call :: "nat \<Rightarrow> (do_call \<Rightarrow> do_call) \<Rightarrow> dap_client \<Rightarrow> dap_client" where
  "on_call i f c \<equiv> c\<lparr>cl_calls := (cl_calls c)[i := f (cl_calls c ! i)]\<rparr>"

abbreviation new_call :: "int \<Rightarrow> phase \<Rightarrow> do_call" where
  "new_call seq ph \<equiv> \<lparr>ca_seq = seq, ca_buf = None, ca_closed = False, ca_phase = ph\<rparr>"

text \<open>The start of \<^verbatim>\<open>Do\<close> under the write lock: a seq and, unless the stream has ended, a place in \<open>pending\<close>.\<close>

definition do_begin :: "dap_client \<Rightarrow> dap_client" where
  "do_begin c =
    (let seq = cl_seq c + 1; i = length (cl_calls c); c1 = c\<lparr>cl_seq := seq\<rparr> in
     case cl_pending c of
       None \<Rightarrow> c1\<lparr>cl_calls := cl_calls c @ [new_call seq (Returned Closed)]\<rparr>
     | Some p \<Rightarrow> c1\<lparr>cl_calls := cl_calls c @ [new_call seq Writing], cl_pending := Some (aput seq i p), cl_wmu := Some i\<rparr>)"

definition unregister :: "int \<Rightarrow> dap_client \<Rightarrow> dap_client" where
  "unregister seq c = c\<lparr>cl_pending := map_option (adel seq) (cl_pending c)\<rparr>"

definition do_written :: "nat \<Rightarrow> dap_client \<Rightarrow> dap_client" where
  "do_written i c = on_call i (\<lambda>a. a\<lparr>ca_phase := Waiting\<rparr>) (c\<lparr>cl_wmu := None, cl_written := cl_written c @ [ca_seq (cl_calls c ! i)]\<rparr>)"

text \<open>A failed write releases the lock before it unregisters; a part of the message may be out.\<close>

definition do_send_failed :: "nat \<Rightarrow> dap_client \<Rightarrow> dap_client" where
  "do_send_failed i c =
    on_call i (\<lambda>a. a\<lparr>ca_phase := Returned SendFailed\<rparr>) (unregister (ca_seq (cl_calls c ! i)) (c\<lparr>cl_wmu := None\<rparr>))"

definition do_received :: "nat \<Rightarrow> response \<Rightarrow> dap_client \<Rightarrow> dap_client" where
  "do_received i m c = on_call i (\<lambda>a. a\<lparr>ca_buf := None, ca_phase := Returned (Answered m)\<rparr>) c"

definition do_closed :: "nat \<Rightarrow> dap_client \<Rightarrow> dap_client" where
  "do_closed i c = on_call i (\<lambda>a. a\<lparr>ca_phase := Returned Closed\<rparr>) c"

definition do_cancelled :: "nat \<Rightarrow> dap_client \<Rightarrow> dap_client" where
  "do_cancelled i c =
    on_call i (\<lambda>a. a\<lparr>ca_phase := Returned CtxDone\<rparr>) (unregister (ca_seq (cl_calls c ! i)) c)"

text \<open>\<^verbatim>\<open>deliver\<close>: under the lock it takes the channel out of \<open>pending\<close>; the send comes after.\<close>

definition deliver_take :: "response \<Rightarrow> dap_client \<Rightarrow> dap_client" where
  "deliver_take m c =
    (case Option.bind (cl_pending c) (\<lambda>p. map_of p (rs_RequestSeq m)) of
       None \<Rightarrow> unregister (rs_RequestSeq m) c
     | Some i \<Rightarrow> (unregister (rs_RequestSeq m) c)\<lparr>cl_taken := Some (i, m)\<rparr>)"

definition deliver_send :: "nat \<Rightarrow> response \<Rightarrow> dap_client \<Rightarrow> dap_client" where
  "deliver_send i m c =
    (if ca_closed (cl_calls c ! i) \<or> ca_buf (cl_calls c ! i) \<noteq> None then c\<lparr>cl_wrong := True\<rparr>
     else (on_call i (\<lambda>a. a\<lparr>ca_buf := Some m\<rparr>) c)\<lparr>cl_taken := None\<rparr>)"

text \<open>The end of \<^verbatim>\<open>readLoop\<close>: every pending channel is closed.\<close>

definition read_end :: "dap_client \<Rightarrow> dap_client" where
  "read_end c =
    c\<lparr>cl_calls := fold (\<lambda>i cs. cs[i := (cs ! i)\<lparr>ca_closed := True\<rparr>]) (map snd (the (cl_pending c))) (cl_calls c),
      cl_pending := None, cl_done := True\<rparr>"

text \<open>
  \<^verbatim>\<open>respond\<close>: an answer to a reverse request. Its look whether the stream has ended is not under
  the lock, so the answer may still be written just after the end.
\<close>

definition respond :: "dap_client \<Rightarrow> dap_client" where
  "respond c = c\<lparr>cl_seq := cl_seq c + 1, cl_written := cl_written c @ [cl_seq c + 1]\<rparr>"

section \<open>All interleavings\<close>

inductive client_step :: "dap_client \<Rightarrow> dap_client \<Rightarrow> bool" where
  Begin: "cl_wmu c = None \<Longrightarrow> client_step c (do_begin c)"
| Written: "cl_wmu c = Some i \<Longrightarrow> client_step c (do_written i c)"
| Failed: "cl_wmu c = Some i \<Longrightarrow> client_step c (do_send_failed i c)"
| Received: "i < length (cl_calls c) \<Longrightarrow> ca_phase (cl_calls c ! i) = Waiting \<Longrightarrow> ca_buf (cl_calls c ! i) = Some m
    \<Longrightarrow> client_step c (do_received i m c)"
| ChannelClosed: "i < length (cl_calls c) \<Longrightarrow> ca_phase (cl_calls c ! i) = Waiting \<Longrightarrow> ca_buf (cl_calls c ! i) = None
    \<Longrightarrow> ca_closed (cl_calls c ! i) \<Longrightarrow> client_step c (do_closed i c)"
| Cancelled: "i < length (cl_calls c) \<Longrightarrow> ca_phase (cl_calls c ! i) = Waiting \<Longrightarrow> client_step c (do_cancelled i c)"
| Take: "\<not> cl_done c \<Longrightarrow> cl_taken c = None \<Longrightarrow> client_step c (deliver_take m c)"
| Send: "cl_taken c = Some (i, m) \<Longrightarrow> client_step c (deliver_send i m c)"
| ReadEnd: "\<not> cl_done c \<Longrightarrow> cl_taken c = None \<Longrightarrow> client_step c (read_end c)"
| Respond: "cl_wmu c = None \<Longrightarrow> client_step c (respond c)"

section \<open>Invariant\<close>

text \<open>The channels that may still get a message or be closed, by the seq they wait for.\<close>

definition waiting_for :: "dap_client \<Rightarrow> (int \<times> nat) set" where
  "waiting_for c = (case cl_pending c of None \<Rightarrow> {} | Some p \<Rightarrow> set p)"

abbreviation registered :: "dap_client \<Rightarrow> nat \<Rightarrow> bool" where
  "registered c i \<equiv> i \<in> snd ` waiting_for c"

text \<open>
  Of a call, by whether it is registered, the message taken for it, whether it holds the
  write lock, and the last seq given out: a message in its channel or returned answers its
  request; a channel that may still be used is empty and open; a call that has not returned
  is not forgotten.
\<close>

definition call_ok :: "bool \<Rightarrow> response option \<Rightarrow> bool \<Rightarrow> int \<Rightarrow> do_call \<Rightarrow> bool" where
  "call_ok reg tk wr n a \<longleftrightarrow>
    (\<forall>m. ca_buf a = Some m \<or> ca_phase a = Returned (Answered m) \<or> tk = Some m \<longrightarrow> rs_RequestSeq m = ca_seq a)
    \<and> (reg \<or> tk \<noteq> None \<longrightarrow> ca_buf a = None \<and> \<not> ca_closed a) \<and> (reg \<longrightarrow> tk = None)
    \<and> (ca_phase a = Writing \<or> ca_phase a = Waiting \<longrightarrow> reg \<or> tk \<noteq> None \<or> ca_buf a \<noteq> None \<or> ca_closed a)
    \<and> (ca_phase a = Writing \<longleftrightarrow> wr) \<and> ca_seq a \<le> n"

definition taken_for :: "dap_client \<Rightarrow> nat \<Rightarrow> response option" where
  "taken_for c i = (case cl_taken c of Some (j, m) \<Rightarrow> if j = i then Some m else None | None \<Rightarrow> None)"

definition call_inv :: "dap_client \<Rightarrow> nat \<Rightarrow> do_call \<Rightarrow> bool" where
  "call_inv c i a \<longleftrightarrow> call_ok (registered c i) (taken_for c i) (cl_wmu c = Some i) (cl_seq c) a"

lemma call_ok_steps:
  "call_ok reg tk True n a \<Longrightarrow> call_ok reg tk False n (a\<lparr>ca_phase := Waiting\<rparr>)"
  "call_ok reg tk True n a \<Longrightarrow> call_ok False tk False n (a\<lparr>ca_phase := Returned SendFailed\<rparr>)"
  "call_ok reg tk False n a \<Longrightarrow> ca_buf a = Some m \<Longrightarrow> call_ok reg tk False n (a\<lparr>ca_buf := None, ca_phase := Returned (Answered m)\<rparr>)"
  "call_ok reg tk False n a \<Longrightarrow> call_ok reg tk False n (a\<lparr>ca_phase := Returned Closed\<rparr>)"
  "call_ok reg tk False n a \<Longrightarrow> call_ok False tk False n (a\<lparr>ca_phase := Returned CtxDone\<rparr>)"
  "call_ok True tk wr n a \<Longrightarrow> rs_RequestSeq m = ca_seq a \<Longrightarrow> call_ok False (Some m) wr n a"
  "call_ok reg (Some m) wr n a \<Longrightarrow> call_ok reg None wr n (a\<lparr>ca_buf := Some m\<rparr>)"
  "call_ok True tk wr n a \<Longrightarrow> call_ok False tk wr n (a\<lparr>ca_closed := True\<rparr>)"
  "call_ok reg tk wr n a \<Longrightarrow> n \<le> n' \<Longrightarrow> call_ok reg tk wr n' a"
  unfolding call_ok_def by ((cases reg; cases tk; cases "ca_buf a"; simp)[1])+

definition calls_inv :: "dap_client \<Rightarrow> bool" where
  "calls_inv c \<longleftrightarrow> (\<forall>i < length (cl_calls c). call_inv c i (cl_calls c ! i))
    \<and> (\<forall>(s, i) \<in> waiting_for c. i < length (cl_calls c) \<and> s = ca_seq (cl_calls c ! i))
    \<and> (\<forall>i m. cl_taken c = Some (i, m) \<longrightarrow> i < length (cl_calls c))
    \<and> (\<forall>i. cl_wmu c = Some i \<longrightarrow> i < length (cl_calls c) \<and> ca_seq (cl_calls c ! i) = cl_seq c)
    \<and> distinct (map ca_seq (cl_calls c))"

definition conn_inv :: "dap_client \<Rightarrow> bool" where
  "conn_inv c \<longleftrightarrow> \<not> cl_wrong c \<and> (cl_done c \<longleftrightarrow> cl_pending c = None) \<and> (cl_done c \<longrightarrow> cl_taken c = None) \<and> calls_inv c
    \<and> sorted_wrt (<) (cl_written c) \<and> (\<forall>q \<in> set (cl_written c). q \<le> cl_seq c \<and> (cl_wmu c \<noteq> None \<longrightarrow> q < cl_seq c))"

text \<open>A step that leaves a call's own part of the client alone keeps the call's invariant.\<close>

lemma call_inv_frame:
  "call_inv c i a \<Longrightarrow> registered c' i = registered c i \<Longrightarrow> taken_for c' i = taken_for c i
    \<Longrightarrow> (cl_wmu c' = Some i) = (cl_wmu c = Some i) \<Longrightarrow> cl_seq c \<le> cl_seq c' \<Longrightarrow> call_inv c' i a"
  unfolding call_inv_def by (rule call_ok_steps(9)) simp_all

lemma calls_invD:
  assumes "calls_inv c"
  shows "i < length (cl_calls c) \<Longrightarrow> call_inv c i (cl_calls c ! i)"
    "(s, i) \<in> waiting_for c \<Longrightarrow> i < length (cl_calls c) \<and> s = ca_seq (cl_calls c ! i)"
    "cl_taken c = Some (i, m) \<Longrightarrow> i < length (cl_calls c)"
    "cl_wmu c = Some i \<Longrightarrow> i < length (cl_calls c) \<and> ca_seq (cl_calls c ! i) = cl_seq c"
    "distinct (map ca_seq (cl_calls c))"
  using assms unfolding calls_inv_def by auto

text \<open>A step on the one call \<open>i\<close>.\<close>

lemma calls_inv_update:
  assumes inv: "calls_inv c" and i: "i < length (cl_calls c)"
    and calls: "cl_calls c' = (cl_calls c)[i := a]" and seq: "ca_seq a = ca_seq (cl_calls c ! i)" "cl_seq c' = cl_seq c"
    and waiting: "waiting_for c' \<subseteq> waiting_for c" "\<And>j. j \<noteq> i \<Longrightarrow> registered c j \<Longrightarrow> registered c' j"
    and taken: "\<And>j. j \<noteq> i \<Longrightarrow> taken_for c' j = taken_for c j"
    and wmu: "\<And>j. j \<noteq> i \<Longrightarrow> cl_wmu c' = Some j \<longleftrightarrow> cl_wmu c = Some j" "cl_wmu c' = Some i \<Longrightarrow> cl_wmu c = Some i"
    and own: "call_inv c' i a"
  shows "calls_inv c'"
proof -
  have other: "call_inv c' j (cl_calls c ! j)" if "j < length (cl_calls c)" "j \<noteq> i" for j
    using waiting that(2) by (intro call_inv_frame[OF calls_invD(1)[OF inv that(1)]]) (auto simp: taken wmu seq(2))
  have len: "length (cl_calls c') = length (cl_calls c)" by (simp add: calls)
  have same: "ca_seq (cl_calls c' ! j) = ca_seq (cl_calls c ! j)" if "j < length (cl_calls c)" for j
    using that i seq(1) by (simp add: calls nth_list_update)
  have "map ca_seq (cl_calls c') = map ca_seq (cl_calls c)" by (rule nth_equalityI) (simp_all add: len same)
  moreover have "call_inv c' j (cl_calls c' ! j)" if "j < length (cl_calls c)" for j
    using other[OF that] own i that by (cases "j = i") (simp_all add: calls)
  moreover have "j < length (cl_calls c) \<and> s = ca_seq (cl_calls c' ! j)" if "(s, j) \<in> waiting_for c'" for s j
    using calls_invD(2)[OF inv, of s j] waiting(1) that same by auto
  moreover have "j < length (cl_calls c)" if "cl_taken c' = Some (j, m)" for j m
    using calls_invD(3)[OF inv, of j m] taken[of j] i that by (cases "j = i") (auto simp: taken_for_def split: option.splits if_splits)
  moreover have "j < length (cl_calls c) \<and> ca_seq (cl_calls c' ! j) = cl_seq c'" if "cl_wmu c' = Some j" for j
    using calls_invD(4)[OF inv, of j] wmu(1)[of j] wmu(2) that same seq(2) by (cases "j = i") auto
  ultimately show ?thesis using calls_invD(5)[OF inv] unfolding calls_inv_def len by auto
qed

lemma waiting_unregister: "waiting_for (unregister s c) = {x \<in> waiting_for c. fst x \<noteq> s}"
  by (auto simp: waiting_for_def unregister_def set_adel split: option.split)

lemma unregister_sel [simp]:
  "cl_calls (unregister s c) = cl_calls c" "cl_taken (unregister s c) = cl_taken c" "cl_wmu (unregister s c) = cl_wmu c"
  "cl_seq (unregister s c) = cl_seq c" "cl_written (unregister s c) = cl_written c" "cl_wrong (unregister s c) = cl_wrong c"
  "cl_done (unregister s c) = cl_done c" "cl_pending (unregister s c) = None \<longleftrightarrow> cl_pending c = None"
  by (simp_all add: unregister_def)

lemma waiting_update [simp]:
  "waiting_for (c\<lparr>cl_calls := x1\<rparr>) = waiting_for c" "waiting_for (c\<lparr>cl_taken := x2\<rparr>) = waiting_for c"
  "waiting_for (c\<lparr>cl_wmu := x3\<rparr>) = waiting_for c" "waiting_for (c\<lparr>cl_written := x4\<rparr>) = waiting_for c"
  "waiting_for (c\<lparr>cl_seq := x5\<rparr>) = waiting_for c" "waiting_for (c\<lparr>cl_wrong := x6\<rparr>) = waiting_for c"
  by (simp_all add: waiting_for_def)

text \<open>Unregistering a call's seq leaves the others registered, because no two calls share a seq.\<close>

lemma unregister_own:
  assumes inv: "calls_inv c" and i: "i < length (cl_calls c)"
  shows "registered (unregister (ca_seq (cl_calls c ! i)) c) j \<longleftrightarrow> j \<noteq> i \<and> registered c j"
proof -
  have "ca_seq (cl_calls c ! j) = ca_seq (cl_calls c ! i) \<longleftrightarrow> j = i" if "j < length (cl_calls c)" for j
    using calls_invD(5)[OF inv] i that by (simp add: distinct_conv_nth) blast
  then show ?thesis using calls_invD(2)[OF inv] by (force simp: waiting_unregister)
qed

lemma taken_update [simp]:
  "taken_for (c\<lparr>cl_calls := x1\<rparr>) = taken_for c" "taken_for (unregister s c) = taken_for c"
  "taken_for (c\<lparr>cl_wmu := x3\<rparr>) = taken_for c" "taken_for (c\<lparr>cl_written := x4\<rparr>) = taken_for c"
  "taken_for (c\<lparr>cl_seq := x5\<rparr>) = taken_for c"
  by (simp_all add: taken_for_def fun_eq_iff)

lemma inv_Written:
  assumes "conn_inv c" "cl_wmu c = Some i"
  shows "conn_inv (do_written i c)"
proof -
  have inv: "calls_inv c" using assms(1) by (simp add: conn_inv_def)
  note i = calls_invD(4)[OF inv assms(2)]
  have "call_inv c i (cl_calls c ! i)" using calls_invD(1)[OF inv] i by blast
  then have "call_inv (do_written i c) i ((cl_calls c ! i)\<lparr>ca_phase := Waiting\<rparr>)"
    unfolding call_inv_def do_written_def by (simp add: assms(2) call_ok_steps(1))
  then have "calls_inv (do_written i c)"
    by (rule calls_inv_update[OF inv conjunct1[OF i], rotated -1]) (simp_all add: do_written_def assms(2))
  then show ?thesis using assms i by (auto simp: conn_inv_def do_written_def sorted_wrt_append)
qed

lemma inv_Failed:
  assumes "conn_inv c" "cl_wmu c = Some i"
  shows "conn_inv (do_send_failed i c)"
proof -
  have inv: "calls_inv c" using assms(1) by (simp add: conn_inv_def)
  note i = calls_invD(4)[OF inv assms(2)]
  have r: "registered (do_send_failed i c) j \<longleftrightarrow> j \<noteq> i \<and> registered c j" for j
    using unregister_own[OF inv, of i j] i by (simp add: do_send_failed_def waiting_unregister)
  have "call_inv c i (cl_calls c ! i)" using calls_invD(1)[OF inv] i by blast
  then have "call_inv (do_send_failed i c) i ((cl_calls c ! i)\<lparr>ca_phase := Returned SendFailed\<rparr>)"
    unfolding call_inv_def r[of i] by (simp add: assms(2) do_send_failed_def call_ok_steps(2))
  then have "calls_inv (do_send_failed i c)"
    by (rule calls_inv_update[OF inv conjunct1[OF i], rotated -1]) (simp_all add: r, simp_all add: do_send_failed_def waiting_unregister assms(2))
  then show ?thesis using assms i by (auto simp: conn_inv_def do_send_failed_def)
qed

text \<open>Every step that lets one call return, or moves a message to its channel.\<close>

lemma not_writing:
  assumes "calls_inv c" "i < length (cl_calls c)" "ca_phase (cl_calls c ! i) = Waiting"
  shows "cl_wmu c \<noteq> Some i"
  using calls_invD(1)[OF assms(1,2)] assms(3) by (simp add: call_inv_def call_ok_def)

lemma inv_return:
  assumes "conn_inv c" "i < length (cl_calls c)" "ca_phase (cl_calls c ! i) = Waiting"
  shows "ca_buf (cl_calls c ! i) = Some m \<Longrightarrow> conn_inv (do_received i m c)" "conn_inv (do_closed i c)"
proof -
  have inv: "calls_inv c" using assms(1) by (simp add: conn_inv_def)
  note wmu = not_writing[OF inv assms(2,3)]
  have own: "call_ok (registered c i) (taken_for c i) False (cl_seq c) (cl_calls c ! i)"
    using calls_invD(1)[OF inv assms(2)] wmu by (simp add: call_inv_def)
  {
    assume m: "ca_buf (cl_calls c ! i) = Some m"
    have "call_inv (do_received i m c) i ((cl_calls c ! i)\<lparr>ca_buf := None, ca_phase := Returned (Answered m)\<rparr>)"
      using call_ok_steps(3)[OF own m] wmu by (simp add: call_inv_def do_received_def)
    then have "calls_inv (do_received i m c)"
      by (rule calls_inv_update[OF inv assms(2), rotated -1]) (simp_all add: do_received_def)
    then show "conn_inv (do_received i m c)" using assms(1) by (simp add: conn_inv_def do_received_def)
  }
  have "call_inv (do_closed i c) i ((cl_calls c ! i)\<lparr>ca_phase := Returned Closed\<rparr>)"
    using call_ok_steps(4)[OF own] wmu by (simp add: call_inv_def do_closed_def)
  then have "calls_inv (do_closed i c)"
    by (rule calls_inv_update[OF inv assms(2), rotated -1]) (simp_all add: do_closed_def)
  then show "conn_inv (do_closed i c)" using assms(1) by (simp add: conn_inv_def do_closed_def)
qed

lemma inv_Cancelled:
  assumes "conn_inv c" "i < length (cl_calls c)" "ca_phase (cl_calls c ! i) = Waiting"
  shows "conn_inv (do_cancelled i c)"
proof -
  have inv: "calls_inv c" using assms(1) by (simp add: conn_inv_def)
  note wmu = not_writing[OF inv assms(2,3)]
  have r: "registered (do_cancelled i c) j \<longleftrightarrow> j \<noteq> i \<and> registered c j" for j
    using unregister_own[OF inv, of i j] assms(2) by (simp add: do_cancelled_def waiting_unregister)
  have own: "call_ok (registered c i) (taken_for c i) False (cl_seq c) (cl_calls c ! i)"
    using calls_invD(1)[OF inv assms(2)] wmu by (simp add: call_inv_def)
  have "call_inv (do_cancelled i c) i ((cl_calls c ! i)\<lparr>ca_phase := Returned CtxDone\<rparr>)"
    unfolding call_inv_def r[of i] using call_ok_steps(5)[OF own] wmu by (simp add: do_cancelled_def)
  then have "calls_inv (do_cancelled i c)"
    by (rule calls_inv_update[OF inv assms(2), rotated -1]) (simp_all add: r, simp_all add: do_cancelled_def waiting_unregister)
  then show ?thesis using assms(1) by (simp add: conn_inv_def do_cancelled_def)
qed

lemma inv_Take:
  assumes "conn_inv c" "\<not> cl_done c" "cl_taken c = None"
  shows "conn_inv (deliver_take m c)"
proof -
  have inv: "calls_inv c" using assms(1) by (simp add: conn_inv_def)
  obtain p where p: "cl_pending c = Some p" using assms(1,2) by (auto simp: conn_inv_def)
  have w: "waiting_for c = set p" by (simp add: waiting_for_def p)
  show ?thesis
  proof (cases "map_of p (rs_RequestSeq m)")
    case None
    then have "rs_RequestSeq m \<notin> fst ` set p" by (simp add: map_of_eq_None_iff)
    then have "unregister (rs_RequestSeq m) c = c" using adel_none[OF None] p by (simp add: unregister_def)
    then show ?thesis using assms(1) None p by (simp add: deliver_take_def)
  next
    case (Some i)
    then have mem: "(rs_RequestSeq m, i) \<in> waiting_for c" using w by (simp add: map_of_SomeD)
    have i: "i < length (cl_calls c)" "rs_RequestSeq m = ca_seq (cl_calls c ! i)" using calls_invD(2)[OF inv mem] by auto
    let ?c = "deliver_take m c"
    have c': "?c = (unregister (rs_RequestSeq m) c)\<lparr>cl_taken := Some (i, m)\<rparr>" using Some p by (simp add: deliver_take_def)
    have r: "registered ?c j \<longleftrightarrow> j \<noteq> i \<and> registered c j" for j
      using unregister_own[OF inv i(1), of j] i(2) by (simp add: c' waiting_unregister)
    have "registered c i" using mem by force
    then have "call_ok True (taken_for c i) (cl_wmu c = Some i) (cl_seq c) (cl_calls c ! i)"
      using calls_invD(1)[OF inv i(1)] by (simp add: call_inv_def)
    then have "call_inv ?c i (cl_calls c ! i)"
      unfolding call_inv_def r[of i] using call_ok_steps(6) i(2) by (simp add: c' taken_for_def)
    then have "calls_inv ?c"
      by (rule calls_inv_update[OF inv i(1), rotated -1])
        (simp_all add: r, simp_all add: c' waiting_unregister, simp_all add: taken_for_def assms(3))
    then show ?thesis using assms by (simp add: conn_inv_def c')
  qed
qed

lemma inv_Send:
  assumes "conn_inv c" "cl_taken c = Some (i, m)"
  shows "conn_inv (deliver_send i m c)"
proof -
  have inv: "calls_inv c" using assms(1) by (simp add: conn_inv_def)
  note i = calls_invD(3)[OF inv assms(2)]
  have own: "call_ok (registered c i) (Some m) (cl_wmu c = Some i) (cl_seq c) (cl_calls c ! i)"
    using calls_invD(1)[OF inv i] assms(2) by (simp add: call_inv_def taken_for_def)
  have "ca_buf (cl_calls c ! i) = None" "\<not> ca_closed (cl_calls c ! i)" using own by (simp_all add: call_ok_def)
  then have c': "deliver_send i m c = (on_call i (\<lambda>a. a\<lparr>ca_buf := Some m\<rparr>) c)\<lparr>cl_taken := None\<rparr>"
    by (simp add: deliver_send_def)
  have "call_inv (deliver_send i m c) i ((cl_calls c ! i)\<lparr>ca_buf := Some m\<rparr>)"
    using call_ok_steps(7)[OF own] by (simp add: call_inv_def c' taken_for_def)
  then have "calls_inv (deliver_send i m c)"
    by (rule calls_inv_update[OF inv i, rotated -1]) (simp_all add: c', simp_all add: taken_for_def assms(2))
  then show ?thesis using assms by (simp add: conn_inv_def c')
qed

lemma inv_Respond:
  assumes "conn_inv c" "cl_wmu c = None"
  shows "conn_inv (respond c)"
proof -
  have inv: "calls_inv c" using assms(1) by (simp add: conn_inv_def)
  have "call_inv (respond c) i (cl_calls c ! i)" if "i < length (cl_calls c)" for i
    by (rule call_inv_frame[OF calls_invD(1)[OF inv that]]) (simp_all add: respond_def)
  then have "calls_inv (respond c)"
    using calls_invD(2,3,5)[OF inv] assms(2) unfolding calls_inv_def by (auto simp: respond_def)
  then show ?thesis using assms by (fastforce simp: conn_inv_def respond_def sorted_wrt_append)
qed

lemma inv_Begin:
  assumes "conn_inv c" "cl_wmu c = None"
  shows "conn_inv (do_begin c)"
proof -
  have inv: "calls_inv c" using assms(1) by (simp add: conn_inv_def)
  let ?n = "length (cl_calls c)" and ?seq = "cl_seq c + 1" and ?c = "do_begin c"
  obtain ph where calls: "cl_calls ?c = cl_calls c @ [new_call ?seq ph]" and ph: "cl_pending c = None \<Longrightarrow> ph = Returned Closed"
    "cl_pending c \<noteq> None \<Longrightarrow> ph = Writing"
    by (cases "cl_pending c") (simp_all add: do_begin_def Let_def)
  have sel: "cl_seq ?c = ?seq" "cl_taken ?c = cl_taken c" "cl_written ?c = cl_written c" "cl_wrong ?c = cl_wrong c"
    "cl_done ?c = cl_done c" "cl_pending ?c = None \<longleftrightarrow> cl_pending c = None"
    "cl_wmu ?c = (if cl_pending c = None then None else Some ?n)"
    using assms(2) by (simp_all add: do_begin_def Let_def split: option.split)
  have old: "ca_seq (cl_calls c ! i) \<le> cl_seq c" if "i < ?n" for i
    using calls_invD(1)[OF inv that] by (simp add: call_inv_def call_ok_def)
  have w: "waiting_for ?c = waiting_for c \<union> (if cl_pending c = None then {} else {(?seq, ?n)})"
  proof (cases "cl_pending c")
    case (Some p)
    have "?seq \<notin> fst ` set p"
      using calls_invD(2)[OF inv] old Some by (force simp: waiting_for_def)
    then have "aput ?seq ?n p = p @ [(?seq, ?n)]" by (intro aput_absent) (simp add: map_of_eq_None_iff)
    then show ?thesis using Some by (simp add: do_begin_def waiting_for_def Let_def)
  qed (simp add: do_begin_def waiting_for_def Let_def)
  have fresh: "(s, ?n) \<notin> waiting_for c" "taken_for c ?n = None" for s
    using calls_invD(2)[OF inv, of s ?n] calls_invD(3)[OF inv, of ?n] by (auto simp: taken_for_def split: option.split)
  have tk: "taken_for ?c = taken_for c" by (simp add: taken_for_def sel fun_eq_iff)
  have "call_inv ?c i (cl_calls c ! i)" if "i < ?n" for i
    using that assms(2) w by (intro call_inv_frame[OF calls_invD(1)[OF inv that]]) (auto simp: sel tk)
  moreover have "call_inv ?c ?n (new_call ?seq ph)"
  proof (cases "cl_pending c")
    case None
    then have "\<not> registered ?c ?n" using fresh(1) w by auto
    then show ?thesis using ph(1)[OF None] None fresh(2) by (simp add: call_inv_def call_ok_def sel tk)
  next
    case (Some p)
    then have "registered ?c ?n" using w by force
    then show ?thesis using ph(2) Some fresh(2) by (simp add: call_inv_def call_ok_def sel tk)
  qed
  moreover have "?seq \<notin> ca_seq ` set (cl_calls c)" using old by (force simp: in_set_conv_nth)
  ultimately have "calls_inv ?c"
    using calls_invD(2,3,5)[OF inv] unfolding calls_inv_def calls w
    by (auto simp: sel nth_append less_Suc_eq split: if_splits)
  moreover have "\<forall>q \<in> set (cl_written c). q \<le> cl_seq c" using assms(1) by (simp add: conn_inv_def)
  ultimately show ?thesis using assms(1) by (force simp: conn_inv_def sel)
qed

lemma close_channels:
  "\<forall>i \<in> set is. i < length cs \<Longrightarrow>
    length (fold (\<lambda>i cs. cs[i := (cs ! i)\<lparr>ca_closed := True\<rparr>]) is cs) = length cs
    \<and> (\<forall>j < length cs. fold (\<lambda>i cs. cs[i := (cs ! i)\<lparr>ca_closed := True\<rparr>]) is cs ! j
        = (if j \<in> set is then (cs ! j)\<lparr>ca_closed := True\<rparr> else cs ! j))"
  by (induction "is" arbitrary: cs) (simp_all add: nth_list_update)

lemma inv_ReadEnd:
  assumes "conn_inv c" "\<not> cl_done c" "cl_taken c = None"
  shows "conn_inv (read_end c)"
proof -
  have inv: "calls_inv c" using assms(1) by (simp add: conn_inv_def)
  obtain p where p: "cl_pending c = Some p" using assms(1,2) by (auto simp: conn_inv_def)
  let ?c = "read_end c" and ?n = "length (cl_calls c)"
  have reg: "registered c i \<longleftrightarrow> i \<in> set (map snd p)" for i by (simp add: waiting_for_def p)
  have "\<forall>i \<in> set (map snd p). i < ?n" using calls_invD(2)[OF inv] by (auto simp: waiting_for_def p)
  note closed = close_channels[OF this]
  have len: "length (cl_calls ?c) = ?n" using closed by (simp add: read_end_def p)
  have nth: "cl_calls ?c ! j = (if registered c j then (cl_calls c ! j)\<lparr>ca_closed := True\<rparr> else cl_calls c ! j)" if "j < ?n" for j
    using closed that unfolding reg by (simp add: read_end_def p)
  have sel: "cl_seq ?c = cl_seq c" "cl_taken ?c = None" "cl_wmu ?c = cl_wmu c" "waiting_for ?c = {}" "cl_done ?c" "cl_pending ?c = None"
    "cl_written ?c = cl_written c" "cl_wrong ?c = cl_wrong c"
    by (simp_all add: read_end_def assms(3) waiting_for_def)
  have tk: "taken_for ?c = taken_for c" by (simp add: taken_for_def sel assms(3) fun_eq_iff)
  have "call_inv ?c j (cl_calls ?c ! j)" if "j < ?n" for j
  proof (cases "registered c j")
    case True
    have "call_ok False (taken_for c j) (cl_wmu c = Some j) (cl_seq c) ((cl_calls c ! j)\<lparr>ca_closed := True\<rparr>)"
      using calls_invD(1)[OF inv that] True by (intro call_ok_steps(8)) (simp add: call_inv_def)
    then show ?thesis using True by (simp add: call_inv_def sel tk nth[OF that])
  next
    case False
    then show ?thesis using calls_invD(1)[OF inv that] by (simp add: call_inv_def sel tk nth[OF that])
  qed
  moreover have "ca_seq (cl_calls ?c ! j) = ca_seq (cl_calls c ! j)" if "j < ?n" for j using nth[OF that] by simp
  moreover from this have "map ca_seq (cl_calls ?c) = map ca_seq (cl_calls c)" by (intro nth_equalityI) (simp_all add: len)
  ultimately have "calls_inv ?c" using calls_invD(4,5)[OF inv] unfolding calls_inv_def len by (auto simp: sel)
  then show ?thesis using assms(1) by (simp add: conn_inv_def sel)
qed

lemma client_inv: "client_step\<^sup>*\<^sup>* NewClient c \<Longrightarrow> conn_inv c"
proof (induction rule: rtranclp_induct)
  case base
  show ?case by (simp add: conn_inv_def calls_inv_def NewClient_def waiting_for_def)
next
  case (step c c')
  from step.hyps(2) step.IH show ?case
    by (cases rule: client_step.cases)
      (simp_all add: inv_Begin inv_Written inv_Failed inv_return inv_Cancelled inv_Take inv_Send inv_ReadEnd inv_Respond)
qed

section \<open>Properties\<close>

text \<open>
  C34: in every interleaving of callers and the read goroutine, a call gets the response to
  its own request and to no other, the seqs of what is written strictly increase, and the
  read goroutine never blocks on a call's channel nor sends on a closed one.
\<close>

theorem response_reaches_its_request:
  assumes "client_step\<^sup>*\<^sup>* NewClient c"
  shows "(i < length (cl_calls c) \<and> ca_phase (cl_calls c ! i) = Returned (Answered m) \<longrightarrow> rs_RequestSeq m = ca_seq (cl_calls c ! i))
    \<and> distinct (map ca_seq (cl_calls c)) \<and> sorted_wrt (<) (cl_written c) \<and> \<not> cl_wrong c"
  using client_inv[OF assms] by (simp add: conn_inv_def calls_inv_def call_inv_def call_ok_def)

definition demo_waiting :: dap_client where
  "demo_waiting = do_written 0 (do_begin NewClient)"

definition demo_answer :: response where
  "demo_answer = \<lparr>rs_RequestSeq = 1, rs_Success = True, rs_Message = [], rs_Error = None, rs_IsError = False, rs_Body = ''{}''\<rparr>"

lemma demo_waiting_eq:
  "demo_waiting = \<lparr>cl_seq = 1, cl_pending = Some [(1, 0)], cl_done = False, cl_calls = [new_call 1 Waiting], cl_taken = None,
     cl_wmu = None, cl_written = [1], cl_wrong = False\<rparr>"
  by (simp add: demo_waiting_def do_begin_def do_written_def NewClient_def Let_def)

lemma demo_waiting_reached: "client_step\<^sup>*\<^sup>* NewClient demo_waiting"
proof -
  have "client_step NewClient (do_begin NewClient)" by (rule Begin) (simp add: NewClient_def)
  moreover have "client_step (do_begin NewClient) demo_waiting"
    unfolding demo_waiting_def by (rule Written) (simp add: do_begin_def NewClient_def Let_def)
  ultimately show ?thesis by simp
qed

definition demo_answered :: dap_client where
  "demo_answered = do_received 0 demo_answer (deliver_send 0 demo_answer (deliver_take demo_answer demo_waiting))"

lemma demo_answered_reached: "client_step\<^sup>*\<^sup>* NewClient demo_answered"
proof -
  let ?t = "deliver_take demo_answer demo_waiting" and ?s = "deliver_send 0 demo_answer (deliver_take demo_answer demo_waiting)"
  have t: "?t = demo_waiting\<lparr>cl_pending := Some [], cl_taken := Some (0, demo_answer)\<rparr>"
    by (simp add: deliver_take_def demo_waiting_eq demo_answer_def unregister_def adel_def)
  have s: "?s = demo_waiting\<lparr>cl_pending := Some [], cl_calls := [(new_call 1 Waiting)\<lparr>ca_buf := Some demo_answer\<rparr>]\<rparr>"
    unfolding t by (simp add: deliver_send_def demo_waiting_eq)
  have "client_step demo_waiting ?t" by (rule Take) (simp_all add: demo_waiting_eq)
  moreover have "client_step ?t ?s" by (rule Send) (simp add: t)
  moreover have "client_step ?s demo_answered"
    unfolding demo_answered_def s by (rule Received) (simp_all add: demo_waiting_eq)
  ultimately show ?thesis using demo_waiting_reached by (meson rtranclp.rtrancl_into_rtrancl)
qed

theorem response_reaches_its_request_witness:
  "sorted_wrt (<) (cl_written demo_answered) \<and> \<not> cl_wrong demo_answered"
  using response_reaches_its_request[OF demo_answered_reached] by blast

text \<open>
  C32: nobody waits for an adapter that is gone. Once the stream has ended, a call that waits
  has a message or a closed channel and returns with its next step, whether or not its
  context ever ends, and a new call returns at once.
\<close>

theorem ended_client_leaves_no_waiter:
  assumes "client_step\<^sup>*\<^sup>* NewClient c" "cl_done c"
  shows "(i < length (cl_calls c) \<and> ca_phase (cl_calls c ! i) = Waiting \<longrightarrow>
      (case ca_buf (cl_calls c ! i) of Some m \<Rightarrow> client_step c (do_received i m c) | None \<Rightarrow> client_step c (do_closed i c)))
    \<and> ca_phase (last (cl_calls (do_begin c))) = Returned Closed"
proof -
  have inv: "conn_inv c" by (rule client_inv[OF assms(1)])
  then have none: "cl_pending c = None" "cl_taken c = None" "calls_inv c" using assms(2) by (simp_all add: conn_inv_def)
  have "ca_buf (cl_calls c ! i) \<noteq> None \<or> ca_closed (cl_calls c ! i)" if "i < length (cl_calls c)" "ca_phase (cl_calls c ! i) = Waiting"
    using calls_invD(1)[OF none(3) that(1)] that(2) none(1,2) by (simp add: call_inv_def call_ok_def waiting_for_def taken_for_def)
  then show ?thesis using none(1)
    by (auto simp: do_begin_def Let_def intro: Received ChannelClosed split: option.split)
qed

theorem ended_client_leaves_no_waiter_witness:
  "client_step (read_end demo_waiting) (do_closed 0 (read_end demo_waiting))"
proof -
  have "client_step demo_waiting (read_end demo_waiting)" by (rule ReadEnd) (simp_all add: demo_waiting_eq)
  then have "client_step\<^sup>*\<^sup>* NewClient (read_end demo_waiting)" using demo_waiting_reached by simp
  from ended_client_leaves_no_waiter[OF this, of 0] show ?thesis by (simp add: read_end_def demo_waiting_eq)
qed

end
