(* ===== verification/Dap_Server.thy ===== *)
theory Dap_Server
  imports Dap_Client
begin

text \<open>
  The server side of a DAP connection (\<^verbatim>\<open>internal/dap/server.go\<close>), which faces an editor:
  reading requests and writing responses and events with its own seqs. A write that fails
  may leave a part of its message in the stream, and breaks the connection for all that
  follow. JSON's and the codec's decoders and the encoder are parameters.
\<close>

section \<open>Reading requests\<close>

record message_head =
  hd_Seq :: int
  hd_Type :: string
  hd_Command :: string

datatype request_error = ReadError frame_error | NotDAP | DecodeError int string

text \<open>\<open>unmarshal\<close> reads a message's head, and \<open>decode\<close> the request.\<close>

function ReadRequest ::
    "(string \<Rightarrow> message_head option) \<Rightarrow> (string \<Rightarrow> 'req option) \<Rightarrow> int \<Rightarrow> reader \<Rightarrow> (request_error + 'req) \<times> reader" where
  "ReadRequest unmarshal decode maxContent r =
    (case ReadMessage r maxContent of
       (Inl e, r1) \<Rightarrow> (Inl (ReadError e), r1)
     | (Inr raw, r1) \<Rightarrow>
         (case unmarshal raw of None \<Rightarrow> (Inl NotDAP, r1)
          | Some h \<Rightarrow>
              if hd_Type h \<noteq> ''request'' then ReadRequest unmarshal decode maxContent r1
              else (case decode raw of None \<Rightarrow> (Inl (DecodeError (hd_Seq h) (hd_Command h)), r1) | Some q \<Rightarrow> (Inr q, r1))))"
  by pat_completeness auto
termination
  by (relation "measure (\<lambda>(u, d, m, r). length (rd_bytes r))") (auto simp: is_ok_def dest!: ReadMessage_consumes[OF sym])

declare ReadRequest.simps [simp del]

text \<open>Whatever else the peer sends before a request is skipped.\<close>

lemma ReadRequest_skips:
  assumes "\<And>m. m \<in> set ms \<Longrightarrow> int (length m) \<le> mx \<and> length m < 10 ^ 10 \<and> (\<exists>h. unmarshal m = Some h \<and> hd_Type h \<noteq> ''request'')"
  shows "ReadRequest unmarshal decode mx \<lparr>rd_bytes = concat (map writeMessage ms) @ rest, rd_err = e\<rparr>
    = ReadRequest unmarshal decode mx \<lparr>rd_bytes = rest, rd_err = e\<rparr>"
  using assms
proof (induction ms)
  case (Cons m ms)
  let ?rest = "concat (map writeMessage ms) @ rest"
  let ?r = "\<lparr>rd_bytes = writeMessage m @ ?rest, rd_err = e\<rparr>"
  have m: "int (length m) \<le> mx" "length m < 10 ^ 10" using Cons.prems[of m] by simp_all
  have "rd_bytes ?r = header_of (nat_dec (length m)) @ (m @ ?rest)" by (simp add: writeMessage_header)
  then have "ReadMessage ?r mx = (Inr m, \<lparr>rd_bytes = ?rest, rd_err = e\<rparr>)"
    using ReadMessage_of_header[OF nat_dec_length_digits[OF m(2)], of ?r "m @ ?rest" mx] m by (simp add: Let_def ReadFull_def)
  moreover obtain h where "unmarshal m = Some h" "hd_Type h \<noteq> ''request''" using Cons.prems[of m] by auto
  ultimately show ?case using Cons by (simp add: ReadRequest.simps[of _ _ _ ?r])
qed simp

section \<open>Writing\<close>

record server =
  sv_seq :: int
  sv_broken :: bool
  sv_stream :: string

definition NewServer :: server where
  "NewServer = \<lparr>sv_seq = 0, sv_broken = False, sv_stream = []\<rparr>"

datatype write_error = ErrBroken | EncodeFailed | WriteFailed

text \<open>
  \<^verbatim>\<open>write\<close>: \<open>encode\<close> is the message by the seq it is given, and \<open>took\<close> how many bytes the
  connection takes of it before it fails (none: all of them).
\<close>

definition server_write :: "(int \<Rightarrow> string option) \<Rightarrow> nat option \<Rightarrow> server \<Rightarrow> server \<times> write_error option" where
  "server_write encode took sv =
    (if sv_broken sv then (sv, Some ErrBroken)
     else let seq = sv_seq sv + 1; sv1 = sv\<lparr>sv_seq := seq\<rparr> in
       case encode seq of None \<Rightarrow> (sv1, Some EncodeFailed)
       | Some content \<Rightarrow> (case took of
           None \<Rightarrow> (sv1\<lparr>sv_stream := sv_stream sv1 @ writeMessage content\<rparr>, None)
         | Some n \<Rightarrow> (sv1\<lparr>sv_stream := sv_stream sv1 @ take n (writeMessage content), sv_broken := True\<rparr>, Some WriteFailed)))"

text \<open>The responses and events as they are sent: type, request seq, command, success, message.\<close>

record sent_message =
  sm_Seq :: int
  sm_Type :: string
  sm_RequestSeq :: int
  sm_Command :: string
  sm_Success :: bool
  sm_Message :: string
  sm_Body :: string

definition Respond :: "(sent_message \<Rightarrow> string option) \<Rightarrow> nat option \<Rightarrow> int \<Rightarrow> string \<Rightarrow> string \<Rightarrow> server \<Rightarrow> server \<times> write_error option" where
  "Respond json took req_seq command body =
    server_write (\<lambda>seq. json \<lparr>sm_Seq = seq, sm_Type = ''response'', sm_RequestSeq = req_seq, sm_Command = command,
      sm_Success = True, sm_Message = [], sm_Body = body\<rparr>) took"

definition Fail :: "(sent_message \<Rightarrow> string option) \<Rightarrow> nat option \<Rightarrow> int \<Rightarrow> string \<Rightarrow> string \<Rightarrow> string \<Rightarrow> server \<Rightarrow> server \<times> write_error option" where
  "Fail json took req_seq command msg body =
    server_write (\<lambda>seq. json \<lparr>sm_Seq = seq, sm_Type = ''response'', sm_RequestSeq = req_seq, sm_Command = command,
      sm_Success = False, sm_Message = msg, sm_Body = body\<rparr>) took"

definition Send :: "(sent_message \<Rightarrow> string option) \<Rightarrow> nat option \<Rightarrow> string \<Rightarrow> server \<Rightarrow> server \<times> write_error option" where
  "Send json took body =
    server_write (\<lambda>seq. json \<lparr>sm_Seq = seq, sm_Type = ''event'', sm_RequestSeq = 0, sm_Command = [],
      sm_Success = False, sm_Message = [], sm_Body = body\<rparr>) took"

section \<open>What the editor reads\<close>

definition writes :: "((int \<Rightarrow> string option) \<times> nat option) list \<Rightarrow> server \<Rightarrow> server" where
  "writes ws sv = fold (\<lambda>(encode, took) sv. fst (server_write encode took sv)) ws sv"

text \<open>The messages sent whole: each that can be encoded, by its own seq, until a write fails.\<close>

fun sent_whole :: "int \<Rightarrow> ((int \<Rightarrow> string option) \<times> nat option) list \<Rightarrow> string list" where
  "sent_whole n [] = []"
| "sent_whole n ((encode, took) # ws) =
    (case encode (n + 1) of None \<Rightarrow> sent_whole (n + 1) ws
     | Some content \<Rightarrow> (case took of None \<Rightarrow> content # sent_whole (n + 1) ws
        | Some k \<Rightarrow> if k < length (writeMessage content) then [] else [content]))"

lemma writes_broken: "sv_broken sv \<Longrightarrow> writes ws sv = sv"
  by (induction ws) (auto simp: writes_def server_write_def)

lemma writes_Cons: "writes ((encode, took) # ws) sv = writes ws (fst (server_write encode took sv))"
  by (simp add: writes_def)

text \<open>The stream after any writes: the frames of these messages, and a part of one after a failed write.\<close>

definition part_of :: "(int \<Rightarrow> string option) list \<Rightarrow> string \<Rightarrow> bool" where
  "part_of encodes part \<longleftrightarrow>
    (\<exists>encode \<in> set encodes. \<exists>seq content n. encode seq = Some content \<and> n < length (writeMessage content) \<and> part = take n (writeMessage content))"

lemma writes_stream:
  assumes "\<not> sv_broken sv"
  shows "\<exists>part. sv_stream (writes ws sv) = sv_stream sv @ concat (map writeMessage (sent_whole (sv_seq sv) ws)) @ part
    \<and> (part = [] \<or> sv_broken (writes ws sv) \<and> part_of (map fst ws) part)"
  using assms
proof (induction ws arbitrary: sv)
  case Nil
  then show ?case by (simp add: writes_def)
next
  case (Cons w ws)
  obtain encode took where w: "w = (encode, took)" by (cases w)
  let ?sv = "fst (server_write encode took sv)" and ?n = "sv_seq sv + 1"
  have part: "part_of (map fst (w # ws)) part" if "part_of (map fst ws) part" for part
    using that by (auto simp: part_of_def)
  consider "encode ?n = None" | content where "encode ?n = Some content" "took = None"
    | content k where "encode ?n = Some content" "took = Some k" by (cases "encode ?n"; cases took) auto
  then show ?case
  proof cases
    case 1
    then have "?sv = sv\<lparr>sv_seq := ?n\<rparr>" using Cons.prems by (simp add: server_write_def Let_def)
    then show ?thesis using Cons.IH[of ?sv] Cons.prems 1 part unfolding w writes_Cons by fastforce
  next
    case (2 content)
    then have "?sv = sv\<lparr>sv_seq := ?n, sv_stream := sv_stream sv @ writeMessage content\<rparr>"
      using Cons.prems by (simp add: server_write_def Let_def)
    then show ?thesis using Cons.IH[of ?sv] Cons.prems 2 part unfolding w writes_Cons by fastforce
  next
    case (3 content k)
    then have sv: "?sv = sv\<lparr>sv_seq := ?n, sv_stream := sv_stream sv @ take k (writeMessage content), sv_broken := True\<rparr>"
      using Cons.prems by (simp add: server_write_def Let_def)
    then have "writes (w # ws) sv = ?sv" using writes_broken[of ?sv ws] by (simp only: w writes_Cons) simp
    moreover have "part_of (map fst (w # ws)) (take k (writeMessage content))" if "k < length (writeMessage content)"
      using 3 that by (auto simp: part_of_def w)
    ultimately show ?thesis using sv 3 by (cases "k < length (writeMessage content)") (auto simp: w)
  qed
qed

text \<open>
  C33: what the peer of a connection reads. Whatever is written, and whenever a write fails in
  the middle of a message, a reader of the stream dispatches exactly the messages sent whole
  (those within its limit), in the order of their seqs, and nothing that a failed write left;
  without a failed write the stream ends cleanly.
\<close>

theorem peer_reads_what_was_sent_whole:
  assumes "\<And>encode seq content. encode \<in> set (map fst ws) \<Longrightarrow> encode seq = Some content \<Longrightarrow> length content < 10 ^ 10"
  shows "fst (readLoop \<lparr>rd_bytes = sv_stream (writes ws NewServer), rd_err = EOF\<rparr>)
      = filter (\<lambda>m. int (length m) \<le> MaxAdapterMessage) (sent_whole 0 ws)
    \<and> (sv_broken (writes ws NewServer) \<or> snd (readLoop \<lparr>rd_bytes = sv_stream (writes ws NewServer), rd_err = EOF\<rparr>) = ErrClosed)"
proof -
  obtain part where s: "sv_stream (writes ws NewServer) = concat (map writeMessage (sent_whole 0 ws)) @ part"
    and part: "part = [] \<or> sv_broken (writes ws NewServer) \<and> part_of (map fst ws) part"
    using writes_stream[of NewServer ws] by (auto simp: NewServer_def)
  have "\<forall>encode \<in> set (map fst ws). \<forall>seq content. encode seq = Some content \<longrightarrow> length content < 10 ^ 10" using assms by blast
  then have "list_all (\<lambda>m. length m < 10 ^ 10) (sent_whole n ws)" for n
    by (induction n ws rule: sent_whole.induct) (auto split: option.split)
  note frames = readLoop_frames[OF this[of 0], of part EOF, folded s]
  from part show ?thesis
  proof
    assume "part = []"
    then show ?thesis using frames readLoop_end by simp
  next
    assume broken: "sv_broken (writes ws NewServer) \<and> part_of (map fst ws) part"
    then obtain encode seq content n where p: "encode \<in> set (map fst ws)" "encode seq = Some content" "n < length (writeMessage content)"
        "part = take n (writeMessage content)" unfolding part_of_def by blast
    show ?thesis using frames broken readLoop_part[OF assms[OF p(1,2)] p(3), folded p(4)] by simp
  qed
qed

theorem peer_reads_what_was_sent_whole_witness:
  "fst (readLoop \<lparr>rd_bytes = sv_stream (writes [(\<lambda>seq. Some ''{}'', None), (\<lambda>seq. None, None), (\<lambda>seq. Some ''[]'', Some 5)] NewServer), rd_err = EOF\<rparr>)
    = [''{}'']"
proof -
  let ?ws = "[(\<lambda>seq. Some ''{}'', None), (\<lambda>seq. None, None), (\<lambda>seq. Some ''[]'', Some 5)] :: ((int \<Rightarrow> string option) \<times> nat option) list"
  have "length content < 10 ^ 10" if "encode \<in> set (map fst ?ws)" "encode seq = Some content" for encode seq content
    using that by auto
  from peer_reads_what_was_sent_whole[of ?ws, OF this] show ?thesis
    by (simp add: writeMessage_def contentLengthPrefix_def)
qed

end
