(* ===== verification/Api_Types.thy ===== *)
theory Api_Types
  imports Go_Base
begin

text \<open>
  The wire types of \<^verbatim>\<open>internal/api\<close> that the session core reads and writes, one
  record per struct (the field prefix names the struct), with the package's
  validators: client ids, lease policies, exception modes and group names. Go's
  string-typed enumerations (event kinds, lease policies, exception modes) stay
  strings, because the code compares and passes on values it has not checked.
\<close>

section \<open>Clients\<close>

record client =
  cl_ID :: string
  cl_Kind :: string
  cl_Name :: string

abbreviation KindAgent :: string where "KindAgent \<equiv> ''agent''"
abbreviation KindHuman :: string where "KindHuman \<equiv> ''human''"
abbreviation DefaultClientID :: string where "DefaultClientID \<equiv> KindAgent"
abbreviation maxClientName :: nat where "maxClientName \<equiv> 64"

text \<open>The zero value of the struct stands for nobody.\<close>

definition no_client :: client where
  "no_client = \<lparr>cl_ID = [], cl_Kind = [], cl_Name = []\<rparr>"

definition IsHuman :: "client \<Rightarrow> bool" where
  "IsHuman c = (cl_Kind c = KindHuman)"

definition client_name_rune :: "rune \<Rightarrow> bool" where
  "client_name_rune r =
    ((97 \<le> r \<and> r \<le> 122) \<or> (65 \<le> r \<and> r \<le> 90) \<or> (48 \<le> r \<and> r \<le> 57)
     \<or> r \<in> set (map byte ''._@+-''))"

definition validClientName :: "string \<Rightarrow> bool" where
  "validClientName name =
    (if name = [] \<or> length name > maxClientName then False
     else list_all client_name_rune (runes name))"

definition client_error :: "string \<Rightarrow> error" where
  "client_error s = NewError CodeInvalidRequest
    [Lit ''invalid client '', Quoted s,
     Lit '': want agent, human, agent:NAME or human:NAME '',
     Lit ''(NAME: 1 to 64 of letters, digits and . _ @ + -)'']"

definition ParseClient :: "string \<Rightarrow> client result" where
  "ParseClient s =
    (if s = [] then Inr \<lparr>cl_ID = DefaultClientID, cl_Kind = KindAgent, cl_Name = []\<rparr>
     else let (kind, name, hasName) = cut_at (CHR '':'') s in
       if (kind \<noteq> KindAgent \<and> kind \<noteq> KindHuman) \<or> (hasName \<and> \<not> validClientName name)
       then Inl (client_error s)
       else Inr \<lparr>cl_ID = s, cl_Kind = kind, cl_Name = name\<rparr>)"

record client_info =
  ci_client :: client
  ci_FirstSeen :: time
  ci_LastSeen :: time
  ci_Connected :: int

section \<open>Leases\<close>

type_synonym lease_policy = string

abbreviation LeaseFree :: lease_policy where "LeaseFree \<equiv> ''free''"
abbreviation LeaseHandoff :: lease_policy where "LeaseHandoff \<equiv> ''handoff''"
abbreviation LeaseHumanPriority :: lease_policy where "LeaseHumanPriority \<equiv> ''human-priority''"
abbreviation MaxLeaseRequestMessage :: nat where "MaxLeaseRequestMessage \<equiv> 200"

definition LeasePolicies :: "lease_policy list" where
  "LeasePolicies = [LeaseFree, LeaseHandoff, LeaseHumanPriority]"

definition ParseLeasePolicy :: "string \<Rightarrow> lease_policy result" where
  "ParseLeasePolicy s =
    (if s = [] then Inr LeaseFree
     else case find (\<lambda>p. p = s) LeasePolicies of
       Some p \<Rightarrow> Inr p
     | None \<Rightarrow> Inl (NewError CodeInvalidRequest
         [Lit ''invalid lease policy '', Quoted s, Lit '': want free, handoff or human-priority'']))"

record lease_request =
  lr_Client :: string
  lr_Message :: string
  lr_At :: time

record lease_info =
  li_Policy :: lease_policy
  li_Holder :: string
  li_Since :: "time option"
  li_Requests :: "lease_request list"

section \<open>Sessions, stops and breakpoints\<close>

datatype session_state = StateStarting | StateRunning | StateStopped | StateExited | StateLost

fun state_name :: "session_state \<Rightarrow> string" where
  "state_name StateStarting = ''starting''"
| "state_name StateRunning = ''running''"
| "state_name StateStopped = ''stopped''"
| "state_name StateExited = ''exited''"
| "state_name StateLost = ''lost''"

record stop_breakpoint =
  sb_ID :: int
  sb_Owner :: string

record stop_info =
  si_Reason :: string
  si_ThreadID :: int
  si_Description :: string
  si_Text :: string
  si_AllThreadsStopped :: bool
  si_Breakpoints :: "stop_breakpoint list"

definition no_stop :: stop_info where
  "no_stop = \<lparr>si_Reason = [], si_ThreadID = 0, si_Description = [], si_Text = [],
    si_AllThreadsStopped = False, si_Breakpoints = []\<rparr>"

record breakpoint_spec =
  bs_File :: string
  bs_Line :: int
  bs_Condition :: string
  bs_Function :: string
  bs_Anchor :: string
  bs_HitCondition :: string
  bs_LogMessage :: string

record api_breakpoint =
  bp_ID :: int
  bp_File :: string
  bp_RequestedLine :: int
  bp_Line :: int
  bp_Verified :: bool
  bp_Message :: string
  bp_Condition :: string
  bp_Temporary :: bool
  bp_Owner :: string
  bp_CreatedAt :: time
  bp_Note :: string
  bp_Function :: string
  bp_Anchor :: string
  bp_HitCondition :: string
  bp_LogMessage :: string
  bp_Hits :: int
  bp_Editor :: bool

section \<open>Events\<close>

type_synonym event_kind = string

abbreviation EventStarted :: event_kind where "EventStarted \<equiv> ''started''"
abbreviation EventClient :: event_kind where "EventClient \<equiv> ''client''"
abbreviation EventLease :: event_kind where "EventLease \<equiv> ''lease''"
abbreviation EventExec :: event_kind where "EventExec \<equiv> ''exec''"
abbreviation EventContinued :: event_kind where "EventContinued \<equiv> ''continued''"
abbreviation EventStopped :: event_kind where "EventStopped \<equiv> ''stopped''"
abbreviation EventOutput :: event_kind where "EventOutput \<equiv> ''output''"
abbreviation EventBreakpoint :: event_kind where "EventBreakpoint \<equiv> ''breakpoint''"
abbreviation EventThread :: event_kind where "EventThread \<equiv> ''thread''"
abbreviation EventExited :: event_kind where "EventExited \<equiv> ''exited''"
abbreviation EventEnded :: event_kind where "EventEnded \<equiv> ''ended''"
abbreviation EventExceptions :: event_kind where "EventExceptions \<equiv> ''exceptions''"

abbreviation MaxEventsLimit :: int where "MaxEventsLimit \<equiv> 1000"

definition EventKinds :: "event_kind list" where
  "EventKinds = [EventStarted, EventClient, EventLease, EventExec, EventContinued, EventStopped,
    EventOutput, EventBreakpoint, EventThread, EventExited, EventEnded, EventExceptions]"

definition EventKindNames :: string where
  "EventKindNames = join_with '', '' EventKinds"

record event =
  ev_Seq :: int
  ev_Time :: time
  ev_Kind :: event_kind
  ev_Client :: string
  ev_Action :: string
  ev_Program :: string
  ev_Lease :: "lease_info option"
  ev_Previous :: string
  ev_Stop :: "stop_info option"
  ev_ThreadID :: int
  ev_Reason :: string
  ev_Category :: string
  ev_Text :: string
  ev_Truncated :: bool
  ev_Breakpoint :: "api_breakpoint option"
  ev_ExitCode :: "int option"

text \<open>An event literal: the given kind, every other field the zero value.\<close>

definition Event :: "event_kind \<Rightarrow> event" where
  "Event k = \<lparr>ev_Seq = 0, ev_Time = 0, ev_Kind = k, ev_Client = [], ev_Action = [],
    ev_Program = [], ev_Lease = None, ev_Previous = [], ev_Stop = None, ev_ThreadID = 0,
    ev_Reason = [], ev_Category = [], ev_Text = [], ev_Truncated = False,
    ev_Breakpoint = None, ev_ExitCode = None\<rparr>"

lemma Event_sel [simp]:
  "ev_Seq (Event k) = 0" "ev_Time (Event k) = 0" "ev_Kind (Event k) = k" "ev_Client (Event k) = []"
  "ev_Action (Event k) = []" "ev_Program (Event k) = []" "ev_Lease (Event k) = None"
  "ev_Previous (Event k) = []" "ev_Stop (Event k) = None" "ev_ThreadID (Event k) = 0"
  "ev_Reason (Event k) = []" "ev_Category (Event k) = []" "ev_Text (Event k) = []"
  "\<not> ev_Truncated (Event k)" "ev_Breakpoint (Event k) = None" "ev_ExitCode (Event k) = None"
  by (simp_all add: Event_def)

record events_params =
  ep_Since :: int
  ep_Newest :: bool
  ep_Limit :: int
  ep_Kinds :: "event_kind list"
  ep_Budget :: int

record events_result =
  er_Events :: "event list"
  er_Latest :: int
  er_Dropped :: int
  er_More :: int
  er_TimedOut :: bool

record output_line =
  ol_Seq :: int
  ol_Category :: string
  ol_Text :: string

section \<open>Variables\<close>

text \<open>\<^verbatim>\<open>api.Var\<close> is recursive, so it is a datatype with the struct's fields.\<close>

datatype var = Var (v_Name: string) (v_Type: string) (v_Value: string) (v_HasChildren: bool)
  (v_Children: "var list") (v_More: int) (v_Change: string) (v_Previous: string)

record api_frame =
  fr_Index :: int
  fr_Name :: string
  fr_File :: string
  fr_Line :: int
  fr_Column :: int

section \<open>Exception modes and groups\<close>

type_synonym exception_mode = string

abbreviation ExceptionsNone :: exception_mode where "ExceptionsNone \<equiv> ''none''"
abbreviation ExceptionsUncaught :: exception_mode where "ExceptionsUncaught \<equiv> ''uncaught''"
abbreviation ExceptionsAll :: exception_mode where "ExceptionsAll \<equiv> ''all''"

definition ExceptionModes :: "exception_mode list" where
  "ExceptionModes = [ExceptionsNone, ExceptionsUncaught, ExceptionsAll]"

definition ParseExceptionMode :: "string \<Rightarrow> exception_mode result" where
  "ParseExceptionMode s =
    (case find (\<lambda>m. s = m) ExceptionModes of
       Some m \<Rightarrow> Inr m
     | None \<Rightarrow> Inl (NewError CodeInvalidRequest [Lit ''unknown exception mode '', Quoted s]))"

record client_exception_mode =
  cem_Client :: string
  cem_Mode :: exception_mode

abbreviation maxGroupLen :: nat where "maxGroupLen \<equiv> 63"

definition isLowerAlnum :: "rune \<Rightarrow> bool" where
  "isLowerAlnum r = ((97 \<le> r \<and> r \<le> 122) \<or> (48 \<le> r \<and> r \<le> 57))"

text \<open>
  \<^verbatim>\<open>strings.Map\<close> re-encodes every rune it maps: the bytes of a mapped control
  character become one space, other runes keep their bytes, and a malformed byte
  becomes the three bytes of U+FFFD.
\<close>

definition quoteShort :: "string \<Rightarrow> string" where
  "quoteShort s =
    (let s' = (if length s > 40 then take 40 s @ ''...'' else s) in
     CHR 0x22 # concat (map (\<lambda>(r, b).
        if r < 32 \<or> r = 127 then '' ''
        else if r = RuneError then [CHR 0xEF, CHR 0xBF, CHR 0xBD] else b) (chunks s'))
     @ [CHR 0x22])"

definition CheckGroup :: "string \<Rightarrow> unit result" where
  "CheckGroup g =
    (if g \<noteq> [] \<and> length g \<le> maxGroupLen \<and> isLowerAlnum (fst (decode_rune (take 1 g)))
        \<and> list_all (\<lambda>c. isLowerAlnum (byte c) \<or> c = CHR ''_'' \<or> c = CHR ''-'') g
     then Inr ()
     else Inl (NewError CodeInvalidRequest [Lit (''invalid group name '' @ quoteShort g)]))"

section \<open>Well-formed clients\<close>

text \<open>
  The clients a request can come from: what \<^const>\<open>ParseClient\<close> returns. The empty
  id, which stands for nobody holding a lease, is never one of them.
\<close>

definition client_ok :: "client \<Rightarrow> bool" where
  "client_ok c = (ParseClient (cl_ID c) = Inr c)"

lemma ParseClient_cases:
  assumes "ParseClient s = Inr c"
  obtains (default) "s = []" "c = \<lparr>cl_ID = DefaultClientID, cl_Kind = KindAgent, cl_Name = []\<rparr>"
  | (named) kind name f where "s \<noteq> []" "cut_at (CHR '':'') s = (kind, name, f)"
      "kind \<in> {KindAgent, KindHuman}" "f \<longrightarrow> validClientName name"
      "cl_ID c = s" "cl_Kind c = kind" "cl_Name c = name"
proof (cases "s = []")
  case True
  then show ?thesis using assms default by (simp add: ParseClient_def)
next
  case False
  obtain kind name f where cut: "cut_at (CHR '':'') s = (kind, name, f)" by (metis prod_cases3)
  show ?thesis
  proof (cases "(kind \<noteq> KindAgent \<and> kind \<noteq> KindHuman) \<or> (f \<and> \<not> validClientName name)")
    case True
    then have "ParseClient s = Inl (client_error s)"
      using False cut by (simp only: ParseClient_def Let_def) simp
    then show ?thesis using assms by simp
  next
    case ok: False
    then have "ParseClient s = Inr \<lparr>cl_ID = s, cl_Kind = kind, cl_Name = name\<rparr>"
      using False cut by (simp only: ParseClient_def Let_def) simp
    then have "c = \<lparr>cl_ID = s, cl_Kind = kind, cl_Name = name\<rparr>" using assms by simp
    then show ?thesis using named[OF False cut] ok by auto
  qed
qed

lemma ParseClient_ID: "ParseClient s = Inr c \<Longrightarrow> cl_ID c = (if s = [] then DefaultClientID else s)"
  by (erule ParseClient_cases) simp_all

lemma ParseClient_agent:
  "ParseClient KindAgent = Inr \<lparr>cl_ID = DefaultClientID, cl_Kind = KindAgent, cl_Name = []\<rparr>"
  by (simp add: ParseClient_def)

lemma ParseClient_ok: "ParseClient s = Inr c \<Longrightarrow> client_ok c"
  by (cases "s = []")
    (auto simp: client_ok_def ParseClient_ID ParseClient_agent elim: ParseClient_cases)

lemma client_ok_nonempty [simp]: "client_ok c \<Longrightarrow> cl_ID c \<noteq> []"
  using ParseClient_ID[of "cl_ID c" c] by (cases "cl_ID c = []") (simp_all add: client_ok_def)

lemma client_ok_inj: "client_ok c \<Longrightarrow> client_ok d \<Longrightarrow> cl_ID c = cl_ID d \<longleftrightarrow> c = d"
  by (metis client_ok_def sum.inject(2))

lemma client_ok_kind: "client_ok c \<Longrightarrow> cl_Kind c \<in> {KindAgent, KindHuman}"
  unfolding client_ok_def by (erule ParseClient_cases) simp_all

lemma client_ok_prefix:
  "client_ok c \<Longrightarrow> cl_ID c = cl_Kind c \<or> cl_ID c = cl_Kind c @ CHR '':'' # cl_Name c"
  unfolding client_ok_def
proof (erule ParseClient_cases)
  fix kind name f
  assume "cut_at (CHR '':'') (cl_ID c) = (kind, name, f)" "cl_Kind c = kind" "cl_Name c = name"
  then show ?thesis using cut_at_cases by (cases f) fastforce+
qed simp

end
