(* ===== verification/Present.thy ===== *)
theory Present
  imports Api_Types
begin

text \<open>
  The shaping of results in \<^verbatim>\<open>internal/present\<close>: cutting text on rune boundaries,
  keeping as many events or output chunks as fit a byte limit, and the diff of
  two lists of variables. The JSON size of an output chunk is computed as
  \<^verbatim>\<open>encoding/json\<close> encodes it; for events, which \<^verbatim>\<open>fit\<close> treats generically, the
  size is an argument.
\<close>

section \<open>Cutting text\<close>

fun back_up :: "string \<Rightarrow> nat \<Rightarrow> nat" where
  "back_up s 0 = 0"
| "back_up s (Suc i) = (if RuneStart (s ! Suc i) then Suc i else back_up s i)"

definition CutText :: "string \<Rightarrow> nat \<Rightarrow> bool \<Rightarrow> string" where
  "CutText s n keepEnd =
    (if length s \<le> n then s
     else if keepEnd then dropWhile (\<lambda>c. \<not> RuneStart c) (drop (length s - n) s)
     else take (back_up s n) s)"

section \<open>Sizes\<close>

abbreviation MaxResultBytes :: nat where "MaxResultBytes \<equiv> 512 * 2 ^ 10"
abbreviation EventTextLimit :: nat where "EventTextLimit \<equiv> 1000"
abbreviation CharsPerToken :: int where "CharsPerToken \<equiv> 4"

text \<open>The size of one rune inside a JSON string, as \<^verbatim>\<open>encoding/json\<close> escapes it (HTML escaping on).\<close>

definition json_rune_size :: "rune \<times> string \<Rightarrow> nat" where
  "json_rune_size p = (case p of (r, b) \<Rightarrow>
    if r \<in> {34, 92, 8, 9, 10, 12, 13} then 2
    else if r < 32 \<or> r \<in> {60, 62, 38, 8232, 8233} \<or> (r = RuneError \<and> length b = 1) then 6
    else length b)"

definition json_string_size :: "string \<Rightarrow> nat" where
  "json_string_size s = 2 + sum_list (map json_rune_size (chunks s))"

definition output_json_size :: "output_line \<Rightarrow> nat" where
  "output_json_size l =
    length ''{seq:,category:,text:}'' + 6 + length (itoa (ol_Seq l))
     + json_string_size (ol_Category l) + json_string_size (ol_Text l)"

text \<open>
  The loop of \<^verbatim>\<open>fit\<close> over the items in the order it visits them: \<open>n\<close> items are
  kept so far, of \<open>total\<close> bytes.
\<close>

fun fit_loop :: "('a \<Rightarrow> nat) \<Rightarrow> nat \<Rightarrow> nat \<Rightarrow> nat \<Rightarrow> 'a list \<Rightarrow> nat" where
  "fit_loop sz limit n tot [] = n"
| "fit_loop sz limit n tot (x # xs) =
    (if tot + sz x > limit \<and> n > 0 then n else fit_loop sz limit (n + 1) (tot + sz x) xs)"

definition fit :: "'a list \<Rightarrow> nat \<Rightarrow> bool \<Rightarrow> ('a \<Rightarrow> nat) \<Rightarrow> nat" where
  "fit items limit fromEnd sz = fit_loop sz limit 0 0 (if fromEnd then rev items else items)"

definition CapOutput :: "output_line list \<Rightarrow> nat \<Rightarrow> bool \<Rightarrow> output_line list \<times> nat" where
  "CapOutput lines maxBytes newest =
    (let n = fit lines maxBytes newest output_json_size;
         kept = (if newest then drop (length lines - n) lines else take n lines);
         kept' = (case kept of
             [l] \<Rightarrow> if output_json_size l > maxBytes
                     then [l\<lparr>ol_Text := CutText (ol_Text l) maxBytes newest\<rparr>] else kept
           | _ \<Rightarrow> kept)
     in (kept', length lines - n))"

text \<open>
  \<^verbatim>\<open>string([]rune(s)[:n])\<close>: the first \<open>n\<close> runes, with a malformed byte re-encoded
  as U+FFFD.
\<close>

definition take_runes :: "nat \<Rightarrow> string \<Rightarrow> string" where
  "take_runes n s = concat (map (\<lambda>(r, b).
     if r = RuneError then [CHR 0xEF, CHR 0xBF, CHR 0xBD] else b) (take n (chunks s)))"

definition shape_event :: "event \<Rightarrow> event" where
  "shape_event e =
    (if RuneCount (ev_Text e) > EventTextLimit
     then e\<lparr>ev_Text := take_runes EventTextLimit (ev_Text e), ev_Truncated := True\<rparr> else e)"

definition shape_limit :: "int \<Rightarrow> nat" where
  "shape_limit budget =
    (if budget > 0 then nat (min (int MaxResultBytes) (budget * CharsPerToken)) else MaxResultBytes)"

definition ShapeEvents :: "(event \<Rightarrow> nat) \<Rightarrow> event list \<Rightarrow> int \<Rightarrow> bool \<Rightarrow> event list \<times> nat" where
  "ShapeEvents jsonSize events budget newest =
    (let out = map shape_event events;
         n = fit out (shape_limit budget) newest jsonSize
     in ((if newest then drop (length out - n) out else take n out), length out - n))"

section \<open>Diff\<close>

abbreviation ChangeNew :: string where "ChangeNew \<equiv> ''new''"
abbreviation ChangeChanged :: string where "ChangeChanged \<equiv> ''changed''"

text \<open>The map \<^verbatim>\<open>before\<close>: a later variable of the same name replaces an earlier one.\<close>

definition before_map :: "var list \<Rightarrow> string \<rightharpoonup> var" where
  "before_map prev = foldl (\<lambda>m v. m(v_Name v \<mapsto> v)) Map.empty prev"

definition diff_var :: "(string \<rightharpoonup> var) \<Rightarrow> var \<Rightarrow> var option" where
  "diff_var before v =
    (case before (v_Name v) of
       None \<Rightarrow> Some (Var (v_Name v) (v_Type v) (v_Value v) (v_HasChildren v) [] 0 ChangeNew (v_Previous v))
     | Some old \<Rightarrow>
         if v_Value old \<noteq> v_Value v \<or> v_Type old \<noteq> v_Type v
         then Some (Var (v_Name v) (v_Type v) (v_Value v) (v_HasChildren v) [] 0 ChangeChanged (v_Value old))
         else None)"

definition Diff :: "var list \<Rightarrow> var list \<Rightarrow> var list" where
  "Diff prev cur = List.map_filter (diff_var (before_map prev)) cur"

section \<open>Lemmas\<close>

lemma back_up_le: "back_up s n \<le> n"
  by (induction n) auto

lemma back_up_start: "back_up s n = 0 \<or> RuneStart (s ! back_up s n)"
  by (induction n) auto

lemma back_up_cont: "back_up s n < i \<Longrightarrow> i \<le> n \<Longrightarrow> \<not> RuneStart (s ! i)"
proof (induction n)
  case (Suc n)
  then show ?case by (cases "i = Suc n") (auto split: if_splits)
qed simp

lemma nth_cont:
  assumes "decode_rune (c # s) = (r, Suc w)" "w \<le> length s" "\<not> (r = RuneError \<and> w = 0)" "j < w"
  shows "\<not> RuneStart (s ! j)"
  using assms decode_rune_shape(2)[OF assms(1,3)]
  by (simp add: list_all_length cont_not_start)

text \<open>In a well-formed string every byte that can start a rune does start one.\<close>

lemma chunks_split_at_start:
  assumes "valid_utf8 s" "i \<le> length s" "i < length s \<longrightarrow> RuneStart (s ! i)"
  shows "\<exists>k. chunks (take i s) = take k (chunks s) \<and> chunks (drop i s) = drop k (chunks s)"
  using assms
proof (induction s arbitrary: i rule: chunks_induct)
  case (Step c s r w)
  note ok = valid_step[OF Step(1,2,4)]
  show ?case
  proof (cases "i = 0")
    case False
    have "w < i"
    proof (rule ccontr)
      assume "\<not> w < i"
      then have "\<not> RuneStart (s ! (i - 1))" "i - 1 < length s"
        using False Step(2) nth_cont[OF Step(1,2) ok(1), of "i - 1"] by auto
      then show False using Step(5,6) False by (auto simp: nth_Cons')
    qed
    then obtain j where i: "i = Suc w + j" by (metis add.commute less_iff_Suc_add add_Suc_right)
    then have jl: "j \<le> length (drop w s)" using Step(5) by simp
    have "RuneStart (drop w s ! j)" if "j < length (drop w s)"
      using Step(5,6) i that by simp
    then obtain k where k: "chunks (take j (drop w s)) = take k (chunks (drop w s))"
        "chunks (drop j (drop w s)) = drop k (chunks (drop w s))"
      using Step(3)[OF ok(2) jl] by auto
    have "take i (c # s) = c # take w s @ take j (drop w s)"
      using i by (simp add: take_add)
    then have "chunks (take i (c # s)) = take (Suc k) (chunks (c # s))"
      using chunks_local[OF Step(1,2) ok(1)] k(1) chunks_step[OF Step(1)] by simp
    moreover have "chunks (drop i (c # s)) = drop (Suc k) (chunks (c # s))"
      using i k(2) chunks_step[OF Step(1)] by (simp add: add.commute)
    ultimately show ?thesis by blast
  qed (auto intro!: exI[of _ 0])
qed simp

lemma start_near:
  assumes "valid_utf8 s" "i < length s"
  shows "\<exists>j. j \<le> i \<and> i < j + 4 \<and> RuneStart (s ! j)"
  using assms
proof (induction s arbitrary: i rule: chunks_induct)
  case (Step c s r w)
  note ok = valid_step[OF Step(1,2,4)] and shape = decode_rune_shape[OF Step(1)]
  show ?case
  proof (cases "i \<le> w")
    case True
    then show ?thesis using shape(1,3)[OF ok(1)] by (intro exI[of _ 0]) auto
  next
    case False
    then obtain j where i: "i = Suc w + j" by (metis add.commute less_iff_Suc_add add_Suc_right not_le)
    then have "j < length (drop w s)" using Step(5) by simp
    then obtain j' where "j' \<le> j" "j < j' + 4" "RuneStart (drop w s ! j')"
      using Step(3)[OF ok(2)] by blast
    then show ?thesis using i Step(5) by (intro exI[of _ "Suc w + j'"]) simp
  qed
qed simp

lemma start_near_above:
  assumes "valid_utf8 s" "i \<le> length s"
  shows "\<exists>j. i \<le> j \<and> j < i + 4 \<and> j \<le> length s \<and> (j < length s \<longrightarrow> RuneStart (s ! j))"
  using assms
proof (induction s arbitrary: i rule: chunks_induct)
  case (Step c s r w)
  note ok = valid_step[OF Step(1,2,4)] and shape = decode_rune_shape[OF Step(1)]
  consider "i = 0" | "0 < i" "i \<le> Suc w" | j where "i = Suc w + j"
    by (metis gr0I le_Suc_ex nat_le_linear)
  then show ?case
  proof cases
    case 1
    then show ?thesis using shape(1)[OF ok(1)] by (intro exI[of _ 0]) simp
  next
    case 2
    have "drop w s = [] \<or> RuneStart (s ! w)"
    proof (cases "drop w s")
      case (Cons d t)
      obtain r' w' where d: "decode_rune (d # t) = (r', Suc w')" "w' \<le> length t" by (rule decode_rune_cases)
      then have "RuneStart d"
        using valid_step(1)[OF d] ok(2) Cons decode_rune_shape(1)[OF d(1)] by simp
      then show ?thesis using Cons by (metis drop_eq_Nil hd_drop_conv_nth leI list.distinct(1) list.sel(1))
    qed simp
    then show ?thesis using 2 shape(3)[OF ok(1)] Step(2) by (intro exI[of _ "Suc w"]) auto
  next
    case 3
    then have "j \<le> length (drop w s)" using Step(5) by simp
    then obtain j' where "j \<le> j'" "j' < j + 4" "j' \<le> length (drop w s)"
        "j' < length (drop w s) \<longrightarrow> RuneStart (drop w s ! j')"
      using Step(3)[OF ok(2)] by blast
    then show ?thesis using 3 Step(2) by (intro exI[of _ "Suc w + j'"]) auto
  qed
qed simp

lemma dropWhile_eq_drop_least:
  "\<exists>m. dropWhile P xs = drop m xs \<and> m \<le> length xs \<and> (m < length xs \<longrightarrow> \<not> P (xs ! m)) \<and> (\<forall>j<m. P (xs ! j))"
proof (intro exI conjI)
  show "dropWhile P xs = drop (length (takeWhile P xs)) xs" by (rule dropWhile_eq_drop)
  show "length (takeWhile P xs) \<le> length xs" by (rule length_takeWhile_le)
  show "length (takeWhile P xs) < length xs \<longrightarrow> \<not> P (xs ! length (takeWhile P xs))"
    using nth_length_takeWhile by blast
  show "\<forall>j<length (takeWhile P xs). P (xs ! j)"
    by (metis nth_mem set_takeWhileD takeWhile_nth)
qed

text \<open>
  A text longer than the limit is cut on a rune boundary. Of a well-formed
  text \<^const>\<open>CutText\<close> keeps whole runes only, from the start or from the end, in at
  most \<open>n\<close> bytes, and it gives up fewer than four bytes to do so.
\<close>

theorem cut_text_whole_runes:
  assumes "valid_utf8 s" "n < length s"
  shows "\<exists>k. chunks (CutText s n keepEnd) = (if keepEnd then drop k (chunks s) else take k (chunks s))
    \<and> length (CutText s n keepEnd) \<le> n \<and> n < length (CutText s n keepEnd) + 4"
proof (cases keepEnd)
  case False
  let ?i = "back_up s n"
  have "s \<noteq> []" using assms(2) by auto
  then have start: "RuneStart (s ! 0)" using start_near[OF assms(1), of 0] by auto
  then have "RuneStart (s ! ?i)" using back_up_start[of s n] by auto
  then obtain k where "chunks (take ?i s) = take k (chunks s)"
    using chunks_split_at_start[OF assms(1), of ?i] back_up_le[of s n] assms(2) by auto
  moreover obtain j where "j \<le> n" "n < j + 4" "RuneStart (s ! j)"
    using start_near[OF assms(1,2)] by blast
  then have "j \<le> ?i" using back_up_cont[of s n j] by (meson not_le)
  ultimately show ?thesis
    using False assms(2) back_up_le[of s n] \<open>n < j + 4\<close> by (intro exI[of _ k]) (simp add: CutText_def)
next
  case True
  let ?d = "length s - n"
  obtain m where m: "dropWhile (\<lambda>c. \<not> RuneStart c) (drop ?d s) = drop m (drop ?d s)"
      "m \<le> length (drop ?d s)" "m < length (drop ?d s) \<longrightarrow> RuneStart (drop ?d s ! m)"
      "\<forall>j<m. \<not> RuneStart (drop ?d s ! j)"
    using dropWhile_eq_drop_least[of "\<lambda>c. \<not> RuneStart c" "drop ?d s"] by auto
  then have cut: "CutText s n keepEnd = drop (?d + m) s"
    using True assms(2) by (simp add: CutText_def add.commute)
  have "?d + m \<le> length s" "?d + m < length s \<longrightarrow> RuneStart (s ! (?d + m))"
    using m(2,3) assms(2) by auto
  then obtain k where "chunks (drop (?d + m) s) = drop k (chunks s)"
    using chunks_split_at_start[OF assms(1)] by blast
  moreover obtain j where j: "?d \<le> j" "j < ?d + 4" "j \<le> length s" "j < length s \<longrightarrow> RuneStart (s ! j)"
    using start_near_above[OF assms(1), of ?d] by auto
  have "?d + m \<le> j"
  proof (rule ccontr)
    assume "\<not> ?d + m \<le> j"
    then have "j - ?d < m" "j < length s" using m(2) j(1) assms(2) by auto
    moreover have "drop ?d s ! (j - ?d) = s ! j" using j(1) by simp
    ultimately show False using m(4) j(4) by metis
  qed
  ultimately show ?thesis using True cut j(2) assms(2) m(2) by (intro exI[of _ k]) auto
qed

theorem cut_text_whole_runes_witness:
  "\<exists>k. chunks (CutText ''abc'' 2 False) = (if False then drop k (chunks ''abc'') else take k (chunks ''abc''))
    \<and> length (CutText ''abc'' 2 False) \<le> 2 \<and> 2 < length (CutText ''abc'' 2 False) + 4"
  by (rule cut_text_whole_runes) (simp_all add: valid_utf8_def chunks_ascii)

section \<open>Fitting\<close>

lemma fit_loop_spec:
  assumes "n > 0 \<longrightarrow> tot \<le> limit \<or> n = 1"
  shows "\<exists>k \<le> length xs. fit_loop sz limit n tot xs = n + k \<and> (n = 0 \<and> xs \<noteq> [] \<longrightarrow> 0 < k)
    \<and> (k < length xs \<longrightarrow> limit < tot + sum_list (map sz (take (Suc k) xs)))
    \<and> (n + k \<le> 1 \<or> tot + sum_list (map sz (take k xs)) \<le> limit \<or> k = 0)"
  using assms
proof (induction xs arbitrary: n tot)
  case (Cons x xs)
  show ?case
  proof (cases "tot + sz x > limit \<and> n > 0")
    case True
    then show ?thesis by (intro exI[of _ 0]) auto
  next
    case False
    then obtain k where "k \<le> length xs" "fit_loop sz limit (n + 1) (tot + sz x) xs = n + 1 + k"
        "k < length xs \<longrightarrow> limit < tot + sz x + sum_list (map sz (take (Suc k) xs))"
        "n + 1 + k \<le> 1 \<or> tot + sz x + sum_list (map sz (take k xs)) \<le> limit \<or> k = 0"
      using Cons.IH[of "n + 1" "tot + sz x"] by auto
    then show ?thesis using False by (intro exI[of _ "Suc k"]) (auto simp: add.assoc)
  qed
qed simp

text \<open>What \<^const>\<open>fit\<close> computes, over the items in visiting order.\<close>

lemma fit_loop_0:
  fixes sz :: "'a \<Rightarrow> nat"
  defines "f xs limit \<equiv> fit_loop sz limit 0 0 xs"
  shows "f xs limit \<le> length xs" "xs \<noteq> [] \<Longrightarrow> 0 < f xs limit"
    "f xs limit < length xs \<Longrightarrow> limit < sum_list (map sz (take (Suc (f xs limit)) xs))"
    "f xs limit \<le> 1 \<or> sum_list (map sz (take (f xs limit) xs)) \<le> limit"
  using fit_loop_spec[of 0 0 limit xs sz] unfolding f_def by auto

text \<open>
  The items kept: a prefix, or with \<open>newest\<close> a suffix, of the list.
\<close>

definition kept_part :: "bool \<Rightarrow> nat \<Rightarrow> 'a list \<Rightarrow> 'a list" where
  "kept_part newest n xs = (if newest then drop (length xs - n) xs else take n xs)"

lemma sum_list_kept:
  "n \<le> length xs \<Longrightarrow> sum_list (map sz (kept_part newest n xs))
     = sum_list (map sz (take n (if newest then rev xs else xs)))" for sz :: "'a \<Rightarrow> nat"
  by (simp add: kept_part_def take_rev rev_map[symmetric] sum_list_rev)

lemma fit_kept:
  fixes sz :: "'a \<Rightarrow> nat"
  assumes n: "n = fit xs limit newest sz"
  shows "n \<le> length xs" "xs \<noteq> [] \<Longrightarrow> 0 < n"
    "n < length xs \<Longrightarrow> limit < sum_list (map sz (kept_part newest (Suc n) xs))"
    "n \<le> 1 \<or> sum_list (map sz (kept_part newest n xs)) \<le> limit"
  using fit_loop_0[where sz = sz and xs = "if newest then rev xs else xs" and limit = limit]
  by (auto simp: n fit_def sum_list_kept split: if_splits)

text \<open>
  \<^const>\<open>ShapeEvents\<close> returns a contiguous run of the events, cut to the text
  limit: the oldest ones, or the newest with \<open>newest\<close>, never none of a non-empty
  list. The omitted count is exactly what is missing, the run fits the limit
  unless it is a single event, and one more event would not have fitted.
\<close>

theorem shape_events_spec:
  assumes "ShapeEvents sz events budget newest = (kept, omitted)"
  shows "kept = kept_part newest (length kept) (map shape_event events)
    \<and> length kept + omitted = length events \<and> (events \<noteq> [] \<longrightarrow> kept \<noteq> [])
    \<and> (length kept \<le> 1 \<or> sum_list (map sz kept) \<le> shape_limit budget)
    \<and> (omitted > 0 \<longrightarrow> shape_limit budget
          < sum_list (map sz (kept_part newest (length kept + 1) (map shape_event events))))"
proof -
  let ?out = "map shape_event events"
  define n where "n = fit ?out (shape_limit budget) newest sz"
  note f = fit_kept[OF n_def]
  have kept: "kept = kept_part newest n ?out" and om: "omitted = length events - n"
    using assms by (auto simp: ShapeEvents_def Let_def n_def kept_part_def)
  then have len: "length kept = n" using f(1) by (simp add: kept_part_def)
  then show ?thesis using f kept om by auto
qed

theorem shape_events_spec_witness:
  "[Event EventOutput] = kept_part True 1 (map shape_event [Event EventLease, Event EventOutput])
    \<and> shape_limit 1 < sum_list (map (\<lambda>_. 3) (kept_part True 2 (map shape_event [Event EventLease, Event EventOutput])))"
proof -
  have "ShapeEvents (\<lambda>_. 3) [Event EventLease, Event EventOutput] 1 True = ([Event EventOutput], 1)"
    by (simp add: ShapeEvents_def fit_def shape_limit_def shape_event_def RuneCount_def Let_def)
  note spec = shape_events_spec[OF this]
  have one: "length [Event EventOutput] = 1" "length [Event EventOutput] + 1 = 2" by simp_all
  have "[Event EventOutput] = kept_part True (length [Event EventOutput]) (map shape_event [Event EventLease, Event EventOutput])"
    "shape_limit 1 < sum_list (map (\<lambda>_. 3) (kept_part True (length [Event EventOutput] + 1)
       (map shape_event [Event EventLease, Event EventOutput])))"
    using spec zero_less_one[where 'a = nat] by blast+
  then show ?thesis unfolding one one_add_one by blast
qed

text \<open>
  \<^const>\<open>CapOutput\<close> keeps the oldest or the newest chunks in order, at least one,
  and counts the rest. They fit the limit as JSON unless a single chunk is left,
  whose text is then cut to at most the limit's bytes and which is otherwise
  unchanged.
\<close>

theorem cap_output_spec:
  assumes "CapOutput lines m newest = (kept, omitted)"
  shows "length kept + omitted = length lines \<and> (lines \<noteq> [] \<longrightarrow> kept \<noteq> [])
    \<and> (sum_list (map output_json_size kept) \<le> m \<and> kept = kept_part newest (length kept) lines
       \<or> (\<exists>l. [l] = kept_part newest 1 lines \<and> kept = [l\<lparr>ol_Text := CutText (ol_Text l) m newest\<rparr>]))"
proof -
  define n where "n = fit lines m newest output_json_size"
  note f = fit_kept[OF n_def]
  let ?k = "kept_part newest n lines"
  have len: "length ?k = n" using f(1) by (simp add: kept_part_def)
  have om: "omitted = length lines - n"
    using assms by (auto simp: CapOutput_def Let_def n_def)
  show ?thesis
  proof (cases "\<exists>l. ?k = [l] \<and> output_json_size l > m")
    case True
    then obtain l where l: "?k = [l]" "output_json_size l > m" by blast
    then have "kept = [l\<lparr>ol_Text := CutText (ol_Text l) m newest\<rparr>]"
      using assms by (auto simp: CapOutput_def Let_def n_def kept_part_def)
    then show ?thesis using l om f(1) len by (auto intro!: exI[of _ l])
  next
    case False
    then have "kept = ?k"
      using assms by (auto simp: CapOutput_def Let_def n_def kept_part_def split: list.splits if_splits)
    moreover have "sum_list (map output_json_size ?k) \<le> m"
      using f(4) False len by (cases "?k") (auto simp: le_Suc_eq)
    ultimately show ?thesis using om f(1,2) len by auto
  qed
qed

theorem cap_output_spec_witness:
  "length [\<lparr>ol_Seq = 1, ol_Category = ''stdout'', ol_Text = ''a''\<rparr>] + 0
      = length [\<lparr>ol_Seq = 1, ol_Category = ''stdout'', ol_Text = ''a''\<rparr>]"
proof -
  have "CapOutput [\<lparr>ol_Seq = 1, ol_Category = ''stdout'', ol_Text = ''a''\<rparr>] 100 False
      = ([\<lparr>ol_Seq = 1, ol_Category = ''stdout'', ol_Text = ''a''\<rparr>], 0)"
    by (simp add: CapOutput_def fit_def Let_def output_json_size_def json_string_size_def
        json_rune_size_def chunks_ascii itoa_def nat_dec.simps)
  from cap_output_spec[OF this] show ?thesis by blast
qed

end
