(* ===== verification/Event_Log.thy ===== *)
theory Event_Log
  imports Api_Types
begin

text \<open>
  The session's event log (\<^verbatim>\<open>internal/session/events.go\<close>) and its recording
  (\<^verbatim>\<open>internal/session/record.go\<close>). The log is a bounded window onto the history of
  everything ever appended; the locale \<open>cursor_log\<close> states that as an interface,
  proves what a reader that follows a cursor may rely on, and is interpreted on
  the log's own operations. The recorder is the log's sink: it sees every event
  under the log's lock, in order.
\<close>

section \<open>The recorder\<close>

abbreviation maxRecording :: nat where "maxRecording \<equiv> 4 * 2 ^ 20"

text \<open>
  \<open>rec_open\<close> is whether \<^verbatim>\<open>w\<close> is not nil. The file behind it is \<open>rec_file\<close>, and
  \<open>rec_room\<close> how many more bytes the file system takes before a write fails (none:
  it never does). \<open>rec_json\<close> is \<^verbatim>\<open>json.Marshal\<close> on events.
\<close>

record recorder =
  rec_json :: "event \<Rightarrow> string"
  rec_limit :: nat
  rec_open :: bool
  rec_written :: nat
  rec_room :: "nat option"
  rec_file :: string

definition newRecorder :: "(event \<Rightarrow> string) \<Rightarrow> nat option \<Rightarrow> nat \<Rightarrow> recorder" where
  "newRecorder json room limit = \<lparr>rec_json = json, rec_limit = limit, rec_open = True,
    rec_written = 0, rec_room = room, rec_file = []\<rparr>"

text \<open>What is kept of an event: of a stop only its reason and thread, no lease requests, no text.\<close>

definition record_view :: "event \<Rightarrow> event" where
  "record_view e =
    (let e1 = (if ev_Kind e = EventStopped
               then e\<lparr>ev_Stop := map_option (\<lambda>s. no_stop\<lparr>si_Reason := si_Reason s, si_ThreadID := si_ThreadID s\<rparr>)
                                    (ev_Stop e)\<rparr>
               else e)
     in e1\<lparr>ev_Lease := map_option (\<lambda>l. l\<lparr>li_Requests := []\<rparr>) (ev_Lease e1),
           ev_Text := [], ev_Truncated := False\<rparr>)"

definition recordable :: "event \<Rightarrow> event option" where
  "recordable e =
    (let k = ev_Kind e in
     if k = EventOutput then None
     else if k = EventStopped
       \<or> k \<in> {EventStarted, EventClient, EventLease, EventExec, EventContinued, EventBreakpoint,
              EventThread, EventExited, EventEnded, EventExceptions}
     then Some (record_view e)
     else None)"

definition rec_closeLocked :: "recorder \<Rightarrow> recorder" where
  "rec_closeLocked r = r\<lparr>rec_open := False\<rparr>"

text \<open>One write: the bytes the file system took, and whether that was all of them.\<close>

definition rec_write :: "string \<Rightarrow> recorder \<Rightarrow> recorder \<times> bool" where
  "rec_write line r =
    (let n = (case rec_room r of None \<Rightarrow> length line | Some k \<Rightarrow> min k (length line)) in
     (r\<lparr>rec_written := rec_written r + n, rec_file := rec_file r @ take n line,
        rec_room := map_option (\<lambda>k. k - n) (rec_room r)\<rparr>, n = length line))"

definition rec_record :: "event \<Rightarrow> recorder \<Rightarrow> recorder" where
  "rec_record e0 r =
    (case recordable e0 of
       None \<Rightarrow> r
     | Some e \<Rightarrow>
         let line = rec_json r e @ [CHR 0x0A] in
         if \<not> rec_open r then r
         else if rec_written r + length line > rec_limit r then rec_closeLocked r
         else case rec_write line r of
             (r', False) \<Rightarrow> rec_closeLocked r'
           | (r', True) \<Rightarrow> if ev_Kind e = EventEnded then rec_closeLocked r' else r')"

section \<open>The log\<close>

abbreviation maxEvents :: nat where "maxEvents \<equiv> 10000"
abbreviation maxEventBytes :: nat where "maxEventBytes \<equiv> 8 * 2 ^ 20"
abbreviation eventOverhead :: nat where "eventOverhead \<equiv> 128"
abbreviation defaultEventLimit :: int where "defaultEventLimit \<equiv> 100"

record event_log =
  el_maxCount :: nat
  el_maxBytes :: nat
  el_events :: "event list"
  el_bytes :: nat
  el_seq :: int
  el_sink :: "recorder option"

definition newEventLog :: "nat \<Rightarrow> nat \<Rightarrow> event_log" where
  "newEventLog maxCount maxBytes = \<lparr>el_maxCount = maxCount, el_maxBytes = maxBytes,
    el_events = [], el_bytes = 0, el_seq = 0, el_sink = None\<rparr>"

definition setSink :: "recorder \<Rightarrow> event_log \<Rightarrow> event_log" where
  "setSink r l = l\<lparr>el_sink := Some r\<rparr>"

definition eventSize :: "event \<Rightarrow> nat" where
  "eventSize e =
    eventOverhead + length (ev_Client e) + length (ev_Action e) + length (ev_Program e)
    + length (ev_Previous e) + length (ev_Reason e) + length (ev_Category e) + length (ev_Text e)
    + (case ev_Stop e of None \<Rightarrow> 0 | Some s \<Rightarrow>
         length (si_Reason s) + length (si_Description s) + length (si_Text s)
         + sum_list (map (\<lambda>b. length (sb_Owner b) + 8) (si_Breakpoints s)))
    + (case ev_Breakpoint e of None \<Rightarrow> 0 | Some b \<Rightarrow>
         length (bp_File b) + length (bp_Condition b) + length (bp_Message b) + length (bp_Note b)
         + length (bp_Owner b))
    + (case ev_Lease e of None \<Rightarrow> 0 | Some l \<Rightarrow> length (li_Holder l))"

text \<open>\<^verbatim>\<open>trimLocked\<close>: drop the oldest while over a bound, keeping the newest.\<close>

fun trimLocked :: "nat \<Rightarrow> nat \<Rightarrow> nat \<Rightarrow> event list \<Rightarrow> nat \<times> event list" where
  "trimLocked mc mb b (e # e' # es) =
    (if length (e # e' # es) > mc \<or> b > mb then trimLocked mc mb (b - eventSize e) (e' # es)
     else (b, e # e' # es))"
| "trimLocked mc mb b es = (b, es)"

definition log_append :: "time \<Rightarrow> event \<Rightarrow> event_log \<Rightarrow> event_log" where
  "log_append now e l =
    (let seq = el_seq l + 1;
         e' = e\<lparr>ev_Seq := seq, ev_Time := now\<rparr>;
         (b, es) = trimLocked (el_maxCount l) (el_maxBytes l) (el_bytes l + eventSize e') (el_events l @ [e'])
     in l\<lparr>el_seq := seq, el_events := es, el_bytes := b, el_sink := map_option (rec_record e') (el_sink l)\<rparr>)"

abbreviation latest :: "event_log \<Rightarrow> int" where
  "latest \<equiv> el_seq"

definition eventLimit :: "int \<Rightarrow> int" where
  "eventLimit n = (if n \<le> 0 then defaultEventLimit else min n MaxEventsLimit)"

text \<open>The events the log holds after \<open>since\<close> (the slice both queries take).\<close>

definition held_after :: "int \<Rightarrow> event_log \<Rightarrow> event list" where
  "held_after since l =
    (let first = el_seq l - int (length (el_events l)) + 1
     in drop (nat (min (max (since + 1 - first) 0) (int (length (el_events l))))) (el_events l))"

definition kind_matches :: "event_kind list \<Rightarrow> event \<Rightarrow> bool" where
  "kind_matches kinds e = (kinds = [] \<or> ev_Kind e \<in> set kinds)"

text \<open>The selection loop: the first \<open>limit\<close> matching events, and how many more match.\<close>

fun select_loop :: "(event \<Rightarrow> bool) \<Rightarrow> int \<Rightarrow> event list \<Rightarrow> event list \<times> int \<Rightarrow> event list \<times> int" where
  "select_loop mtch limit [] acc = acc"
| "select_loop mtch limit (e # es) (res, m) =
    (if \<not> mtch e then select_loop mtch limit es (res, m)
     else if int (length res) < limit then select_loop mtch limit es (res @ [e], m)
     else select_loop mtch limit es (res, m + 1))"

definition queryLocked :: "events_params \<Rightarrow> event_log \<Rightarrow> events_result" where
  "queryLocked q l =
    (let since = (if ep_Since q < 0 then el_seq l else ep_Since q);
         first = el_seq l - int (length (el_events l)) + 1;
         dropped = (if since + 1 < first then first - since - 1 else 0);
         held = held_after since l;
         limit = eventLimit (ep_Limit q);
         (es, m) = select_loop (kind_matches (ep_Kinds q)) limit
                        (if ep_Newest q then rev held else held) ([], 0)
     in \<lparr>er_Events = (if ep_Newest q then rev es else es), er_Latest = el_seq l,
         er_Dropped = dropped, er_More = m, er_TimedOut = False\<rparr>)"

text \<open>
  \<^verbatim>\<open>wait\<close>: the log as it is at each wake-up, oldest first; the last one is what
  \<^verbatim>\<open>ctx.Done\<close> finds. A \<open>Since\<close> of \<open>-1\<close> is fixed at the first.
\<close>

fun wait_loop :: "events_params \<Rightarrow> event_log list \<Rightarrow> event_log \<Rightarrow> events_result" where
  "wait_loop q [] done_l =
    (let res = queryLocked q done_l in res\<lparr>er_TimedOut := (er_Events res = [])\<rparr>)"
| "wait_loop q (l # ls) done_l =
    (let res = queryLocked q l in if er_Events res \<noteq> [] then res else wait_loop q ls done_l)"

definition log_wait :: "events_params \<Rightarrow> event_log \<Rightarrow> event_log list \<Rightarrow> event_log \<Rightarrow> events_result" where
  "log_wait q l wakes done_l =
    wait_loop (if ep_Since q < 0 then q\<lparr>ep_Since := el_seq l\<rparr> else q) (l # wakes) done_l"

definition output_of :: "event \<Rightarrow> output_line" where
  "output_of e = \<lparr>ol_Seq = ev_Seq e, ol_Category = ev_Category e, ol_Text = ev_Text e\<rparr>"

definition outputSince :: "int \<Rightarrow> event_log \<Rightarrow> output_line list" where
  "outputSince since l = map output_of (filter (\<lambda>e. ev_Kind e = EventOutput) (held_after since l))"

definition outputUntil :: "int \<Rightarrow> event_log \<Rightarrow> output_line list" where
  "outputUntil seq l =
    map output_of (filter (\<lambda>e. ev_Kind e = EventOutput) (takeWhile (\<lambda>e. \<not> ev_Seq e > seq) (el_events l)))"

section \<open>A log read by cursor\<close>

text \<open>
  What a reader of the log relies on. \<open>held\<close> is the window, \<open>seq\<close> the number of an
  event, and adding an event numbers it next and drops some of the oldest.
\<close>

locale cursor_log =
  fixes ok :: "'l \<Rightarrow> bool"
    and held :: "'l \<Rightarrow> 'e list"
    and seq :: "'e \<Rightarrow> int"
    and newest :: "'l \<Rightarrow> int"
    and add :: "'a \<Rightarrow> 'l \<Rightarrow> 'l"
    and stored :: "'a \<Rightarrow> 'l \<Rightarrow> 'e"
  assumes ok_add: "ok l \<Longrightarrow> ok (add x l)"
    and newest_add: "ok l \<Longrightarrow> newest (add x l) = newest l + 1"
    and held_add: "ok l \<Longrightarrow> \<exists>n. held (add x l) = drop n (held l @ [stored x l])"
    and consecutive: "ok l \<Longrightarrow> map seq (held l) = [newest l - int (length (held l)) + 1 .. newest l]"
begin

definition after :: "int \<Rightarrow> 'l \<Rightarrow> 'e list" where
  "after s l = filter (\<lambda>e. s < seq e) (held l)"

definition oldest :: "'l \<Rightarrow> int" where
  "oldest l = newest l - int (length (held l)) + 1"

lemma adds_spec:
  "ok l \<Longrightarrow> ok (fold add xs l) \<and> newest (fold add xs l) = newest l + int (length xs)
    \<and> (\<exists>n ys. length ys = length xs \<and> held (fold add xs l) = drop n (held l @ ys))"
proof (induction xs arbitrary: l)
  case Nil
  then show ?case by (auto intro: exI[of _ 0])
next
  case (Cons x xs)
  obtain n where n: "held (add x l) = drop n (held l @ [stored x l])" using held_add[OF Cons.prems] by blast
  obtain m ys where ys: "length ys = length xs" "held (fold add xs (add x l)) = drop m (held (add x l) @ ys)"
    using Cons.IH[OF ok_add[OF Cons.prems]] by blast
  have "\<exists>k. drop m (drop n (held l @ [stored x l]) @ ys) = drop k (held l @ stored x l # ys)"
  proof (cases "n \<le> length (held l) + 1")
    case True
    then have "drop n (held l @ [stored x l]) @ ys = drop n (held l @ stored x l # ys)"
      using drop_append[of n "held l @ [stored x l]" ys] by simp
    then show ?thesis by (metis drop_drop)
  next
    case False
    then show ?thesis by (intro exI[of _ "Suc (length (held l)) + m"]) simp
  qed
  then obtain k where "held (fold add (x # xs) l) = drop k (held l @ stored x l # ys)"
    using n ys(2) by auto
  then show ?case
    using Cons.IH[OF ok_add[OF Cons.prems]] newest_add[OF Cons.prems] ys(1)
    by (auto intro!: exI[of _ k] exI[of _ "stored x l # ys"])
qed

lemma sorted_held: "ok l \<Longrightarrow> sorted_wrt (<) (map seq (held l))"
  using consecutive sorted_wrt_upto by presburger

lemma nth_held: "ok l \<Longrightarrow> i < length (held l) \<Longrightarrow> seq (held l ! i) = oldest l + int i"
proof -
  assume l: "ok l" and i: "i < length (held l)"
  then have "seq (held l ! i) = [newest l - int (length (held l)) + 1 .. newest l] ! i"
    using consecutive by (metis nth_map)
  then show ?thesis using i by (simp add: oldest_def)
qed

lemma after_drop: "ok l \<Longrightarrow> after s l = drop (nat (s + 1 - oldest l)) (held l)"
proof -
  assume l: "ok l"
  let ?n = "nat (s + 1 - oldest l)"
  have "held l = take ?n (held l) @ drop ?n (held l)" by simp
  moreover have "filter (\<lambda>e. s < seq e) (take ?n (held l)) = []"
    using nth_held[OF l] by (auto simp: filter_empty_conv in_set_conv_nth)
  moreover have "filter (\<lambda>e. s < seq e) (drop ?n (held l)) = drop ?n (held l)"
    using nth_held[OF l] by (auto simp: filter_id_conv in_set_conv_nth)
  ultimately show ?thesis by (metis after_def append_Nil filter_append)
qed

lemma length_after:
  "ok l \<Longrightarrow> s \<le> newest l \<Longrightarrow> int (length (after s l)) = newest l - max s (oldest l - 1)"
  by (auto simp: after_drop oldest_def)

text \<open>
  A reader at cursor \<open>s\<close> that comes back after more events were added finds what it
  would have found before, then the new events, as long as nothing after \<open>s\<close> was
  dropped meanwhile.
\<close>

lemma follow:
  assumes l: "ok l" and s: "s \<le> newest l" and kept: "oldest (fold add xs l) \<le> s + 1"
  shows "\<exists>ys. length ys = length xs \<and> after s (fold add xs l) = after s l @ ys"
proof -
  obtain n ys where l': "ok (fold add xs l)" "newest (fold add xs l) = newest l + int (length xs)"
    and ys: "length ys = length xs" "held (fold add xs l) = drop n (held l @ ys)"
    using adds_spec[OF l] by blast
  let ?all = "held l @ ys" and ?k = "nat (s + 1 - oldest (fold add xs l))"
  have len: "int (length (drop n ?all)) = newest l + int (length xs) - oldest (fold add xs l) + 1"
    using l'(2) ys by (simp add: oldest_def)
  have "after s (fold add xs l) = drop ?k (drop n ?all)" using after_drop[OF l'(1)] ys by simp
  moreover have "?k + n = nat (s + 1 - oldest l)" if "n \<le> length ?all"
    using that len kept ys(1) by (simp add: oldest_def)
  moreover have "nat (s + 1 - oldest l) \<le> length (held l)" using s by (simp add: oldest_def)
  moreover have "n \<le> length ?all \<or> newest l + int (length xs) = s"
    using len kept s by (cases "n \<le> length ?all") simp_all
  ultimately show ?thesis
    using after_drop[OF l] ys(1) s by (cases "n \<le> length ?all") (auto simp: oldest_def)
qed

lemma take_filter_resume:
  assumes l: "ok l" and es: "es = take k (filter P (after s l))" "es \<noteq> []"
  shows "filter P (after s l) = es @ filter P (after (seq (last es)) l)"
proof -
  define fs where "fs = drop k (filter P (after s l))"
  have split: "filter P (after s l) = es @ fs" using es(1) by (simp add: fs_def)
  have "sorted_wrt (\<lambda>x y. seq x < seq y) (held l)"
    using sorted_held[OF l] by (simp add: sorted_wrt_map)
  then have srt: "sorted_wrt (\<lambda>x y. seq x < seq y) (es @ fs)"
    unfolding split[symmetric] by (simp add: after_def sorted_wrt_filter)
  have "last es \<in> set (filter P (after s l))" using split es(2) by simp
  then have "s < seq (last es)" by (simp add: after_def)
  then have "filter P (after (seq (last es)) l) = filter (\<lambda>e. seq (last es) < seq e) (filter P (after s l))"
    by (auto simp: after_def intro!: filter_cong)
  also have "\<dots> = fs"
  proof -
    have "es = butlast es @ [last es]" using es(2) by simp
    then have "sorted_wrt (\<lambda>x y. seq x < seq y) (butlast es @ last es # fs)" using srt by (metis append_Cons append_Nil append_assoc)
    then have "filter (\<lambda>e. seq (last es) < seq e) (butlast es @ last es # fs) = fs"
      by (auto simp: sorted_wrt_append filter_empty_conv filter_id_conv intro: less_imp_le dest: less_not_sym)
    then show ?thesis using split \<open>es = butlast es @ [last es]\<close> by (metis append_Cons append_Nil append_assoc)
  qed
  finally show ?thesis using split by simp
qed

end

section \<open>The log's invariant\<close>

definition log_inv :: "event_log \<Rightarrow> bool" where
  "log_inv l \<longleftrightarrow>
    map ev_Seq (el_events l) = [el_seq l - int (length (el_events l)) + 1 .. el_seq l]
    \<and> el_bytes l = sum_list (map eventSize (el_events l))
    \<and> int (length (el_events l)) \<le> el_seq l
    \<and> (0 < el_seq l \<longrightarrow> el_events l \<noteq> [])
    \<and> (length (el_events l) \<le> 1
       \<or> length (el_events l) \<le> el_maxCount l \<and> el_bytes l \<le> el_maxBytes l)"

lemma trimLocked_spec:
  assumes "trimLocked mc mb b es = (b', es')" "b = sum_list (map eventSize es)"
  shows "\<exists>n. es' = drop n es \<and> n \<le> length es \<and> (es \<noteq> [] \<longrightarrow> n < length es)
    \<and> b' = sum_list (map eventSize es') \<and> (length es' \<le> 1 \<or> length es' \<le> mc \<and> b' \<le> mb)"
  using assms
proof (induction mc mb b es rule: trimLocked.induct)
  case (1 mc mb b e e' es)
  show ?case
  proof (cases "length (e # e' # es) > mc \<or> b > mb")
    case True
    then have "trimLocked mc mb (b - eventSize e) (e' # es) = (b', es')" using 1(2) by simp
    then obtain n where "es' = drop n (e' # es)" "n < length (e' # es)"
        "b' = sum_list (map eventSize es')" "length es' \<le> 1 \<or> length es' \<le> mc \<and> b' \<le> mb"
      using 1(1)[OF True] 1(3) by auto
    then show ?thesis by (intro exI[of _ "Suc n"]) simp
  next
    case False
    then show ?thesis using 1(2,3) by (intro exI[of _ 0]) auto
  qed
qed (auto intro: exI[of _ 0])

lemma upto_snoc: "i \<le> j + 1 \<Longrightarrow> [i .. j + 1] = [i .. j] @ [j + 1 :: int]"
  by (simp add: upto_rec2)

lemma drop_upto: "n \<le> nat (j - i + 1) \<Longrightarrow> drop n [i .. j] = [i + int n .. j]" for i j :: int
proof (induction n arbitrary: i)
  case (Suc n)
  then have "i \<le> j" by linarith
  then show ?case using Suc by (simp add: upto_rec1[of i j] algebra_simps)
qed simp

definition stamped :: "time \<times> event \<Rightarrow> event_log \<Rightarrow> event" where
  "stamped x l = (snd x)\<lparr>ev_Seq := el_seq l + 1, ev_Time := fst x\<rparr>"

definition append_at :: "time \<times> event \<Rightarrow> event_log \<Rightarrow> event_log" where
  "append_at x l = log_append (fst x) (snd x) l"

lemma log_append_spec:
  assumes "log_inv l"
  obtains n where "el_events (append_at x l) = drop n (el_events l @ [stamped x l])"
    "n \<le> length (el_events l)" "el_seq (append_at x l) = el_seq l + 1" "log_inv (append_at x l)"
proof -
  let ?es = "el_events l @ [stamped x l]" and ?l' = "append_at x l"
  obtain b es' where t: "trimLocked (el_maxCount l) (el_maxBytes l)
      (el_bytes l + eventSize (stamped x l)) ?es = (b, es')" by fastforce
  have bytes: "el_bytes l + eventSize (stamped x l) = sum_list (map eventSize ?es)"
    using assms by (simp add: log_inv_def)
  obtain n where n: "es' = drop n ?es" "n < length ?es" "b = sum_list (map eventSize es')"
      "length es' \<le> 1 \<or> length es' \<le> el_maxCount l \<and> b \<le> el_maxBytes l"
    using trimLocked_spec[OF t bytes] by auto
  have l': "el_events ?l' = es'" "el_bytes ?l' = b" "el_seq ?l' = el_seq l + 1"
      "el_maxCount ?l' = el_maxCount l" "el_maxBytes ?l' = el_maxBytes l"
    using t by (simp_all add: append_at_def log_append_def stamped_def[symmetric] Let_def)
  have "map ev_Seq ?es = [el_seq l - int (length (el_events l)) + 1 .. el_seq l] @ [el_seq l + 1]"
    using assms by (simp add: log_inv_def stamped_def)
  also have "\<dots> = [el_seq l - int (length (el_events l)) + 1 .. el_seq l + 1]"
    by (rule upto_snoc[symmetric]) simp
  finally have "map ev_Seq (drop n ?es) = drop n [el_seq l - int (length (el_events l)) + 1 .. el_seq l + 1]"
    by (metis drop_map)
  also have "\<dots> = [el_seq l + 1 - int (length (drop n ?es)) + 1 .. el_seq l + 1]"
    using n(2) by (subst drop_upto) (auto simp: algebra_simps of_nat_diff)
  finally have seqs: "map ev_Seq es' = [el_seq l + 1 - int (length es') + 1 .. el_seq l + 1]"
    by (simp only: n(1))
  have "es' \<noteq> []" "int (length es') \<le> el_seq l + 1"
    using n(1,2) assms by (auto simp: log_inv_def)
  then have "log_inv ?l'"
    unfolding log_inv_def l' using seqs n(3,4) by blast
  then show thesis using that[of n] n(1,2) l' by simp
qed

interpretation elog: cursor_log log_inv el_events ev_Seq el_seq append_at stamped
proof
  fix l x
  assume l: "log_inv l"
  show "log_inv (append_at x l)" "el_seq (append_at x l) = el_seq l + 1"
    "\<exists>n. el_events (append_at x l) = drop n (el_events l @ [stamped x l])"
    using log_append_spec[OF l, of x] by blast+
  show "map ev_Seq (el_events l) = [el_seq l - int (length (el_events l)) + 1 .. el_seq l]"
    using l by (simp add: log_inv_def)
qed

lemma held_after_eq: "log_inv l \<Longrightarrow> held_after s l = elog.after s l"
  by (auto simp: held_after_def elog.after_drop elog.oldest_def Let_def min_def max_def nat_diff_distrib'
      intro!: arg_cong2[where f = drop])

lemma select_loop_spec:
  "0 \<le> limit \<Longrightarrow> int (length res) \<le> limit \<Longrightarrow> select_loop mtch limit es (res, m) =
    (res @ take (nat limit - length res) (filter mtch es),
     m + int (length (filter mtch es) - (nat limit - length res)))"
proof (induction es arbitrary: res m)
  case (Cons e es)
  show ?case
  proof (cases "mtch e")
    case True
    show ?thesis
    proof (cases "int (length res) < limit")
      case lt: True
      then have "nat limit - length res = Suc (nat limit - length (res @ [e]))" by simp
      then show ?thesis using True lt Cons.prems Cons.IH[of "res @ [e]" m] by simp
    next
      case False
      then show ?thesis using True Cons.prems Cons.IH[of res "m + 1"] by simp
    qed
  qed (use Cons in simp)
qed simp

lemma eventLimit_bounds: "0 < eventLimit n" "eventLimit n \<le> MaxEventsLimit"
  by (auto simp: eventLimit_def)

section \<open>Properties of the log\<close>

text \<open>Everything appended to a new log, numbered from \<open>i + 1\<close>.\<close>

fun history :: "int \<Rightarrow> (time \<times> event) list \<Rightarrow> event list" where
  "history i [] = []"
| "history i ((now, e) # xs) = e\<lparr>ev_Seq := i + 1, ev_Time := now\<rparr> # history (i + 1) xs"

lemma newEventLog_inv [simp]: "log_inv (newEventLog mc mb)"
  by (simp add: log_inv_def newEventLog_def)

lemma append_at_bounds [simp]:
  "el_maxCount (append_at x l) = el_maxCount l" "el_maxBytes (append_at x l) = el_maxBytes l"
  by (simp_all add: append_at_def log_append_def Let_def split: prod.splits)

lemma appends_bounds [simp]:
  "el_maxCount (fold append_at xs l) = el_maxCount l" "el_maxBytes (fold append_at xs l) = el_maxBytes l"
  by (induction xs arbitrary: l) auto

lemma length_history [simp]: "length (history i xs) = length xs"
  by (induction i xs rule: history.induct) auto

lemma appends_history:
  "log_inv l \<Longrightarrow> el_events l = drop n hs \<Longrightarrow> n \<le> length hs \<Longrightarrow>
    \<exists>m. m \<le> length hs + length xs
      \<and> el_events (fold append_at xs l) = drop m (hs @ history (el_seq l) xs)"
proof (induction xs arbitrary: l n hs)
  case (Cons x xs)
  obtain k where k: "el_events (append_at x l) = drop k (el_events l @ [stamped x l])"
      "k \<le> length (el_events l)" "el_seq (append_at x l) = el_seq l + 1" "log_inv (append_at x l)"
    using log_append_spec[OF Cons.prems(1)] by blast
  have "el_events (append_at x l) = drop (k + n) (hs @ [stamped x l])"
    using k(1,2) Cons.prems(2,3) by simp
  then obtain m where "m \<le> length hs + 1 + length xs"
      "el_events (fold append_at xs (append_at x l)) = drop m ((hs @ [stamped x l]) @ history (el_seq l + 1) xs)"
    using Cons.IH[OF k(4), of "k + n" "hs @ [stamped x l]"] k(2,3) Cons.prems(2,3) by fastforce
  then show ?case by (cases x) (auto simp: stamped_def intro!: exI[of _ m])
qed (auto intro: exI[of _ n])

text \<open>
  C12: the log is a window onto its history. After any sequence of appends to a
  new log, it holds an unbroken, newest part of everything appended, numbered
  from 1; the newest event is always held, and the window keeps both bounds
  except that one event may be larger than the byte bound.
\<close>

theorem log_is_bounded_window:
  fixes xs mc mb
  defines "l \<equiv> fold append_at xs (newEventLog mc mb)"
  shows "\<exists>n. el_events l = drop n (history 0 xs) \<and> (n < length xs \<or> xs = [])
    \<and> el_seq l = int (length xs)
    \<and> el_bytes l = sum_list (map eventSize (el_events l))
    \<and> (length (el_events l) = 1 \<or> length (el_events l) \<le> mc \<and> el_bytes l \<le> mb)"
proof -
  have inv: "log_inv l" "el_seq l = int (length xs)"
    using elog.adds_spec[OF newEventLog_inv, of xs mc mb] by (auto simp: l_def newEventLog_def)
  obtain n where n: "el_events l = drop n (history 0 xs)"
    using appends_history[OF newEventLog_inv, of mc mb 0 "[]" xs] by (auto simp: l_def newEventLog_def)
  have "n < length xs \<or> xs = []"
    using n inv by (cases "n < length xs") (auto simp: log_inv_def)
  moreover have "length (el_events l) \<le> 1 \<Longrightarrow> length (el_events l) = 1 \<or> el_events l = []"
    by (cases "el_events l") auto
  ultimately show ?thesis
    using n inv by (intro exI[of _ n]) (auto simp: log_inv_def l_def newEventLog_def)
qed

lemma queryLocked_oldest:
  assumes "0 \<le> ep_Since q" "\<not> ep_Newest q"
  shows "er_Events (queryLocked q l)
      = take (nat (eventLimit (ep_Limit q))) (filter (kind_matches (ep_Kinds q)) (held_after (ep_Since q) l))"
  using assms eventLimit_bounds[of "ep_Limit q"] by (simp add: queryLocked_def Let_def select_loop_spec)

lemma filter_rev_take: "rev (take n (filter P (rev xs))) = drop (length (filter P xs) - n) (filter P xs)"
  by (simp add: rev_filter[symmetric] take_rev)

text \<open>
  what a query returns. From a cursor within the log, the result holds the
  oldest (or with \<open>Newest\<close> the newest) events of the asked kinds after the cursor, up to
  the limit, in order; \<open>More\<close> counts exactly the matching ones left out, and the
  dropped count with what is still held accounts for every event since the cursor.
\<close>

theorem query_accounts_for_every_event:
  assumes "log_inv l" "0 \<le> ep_Since q" "ep_Since q \<le> latest l"
    and "sel = filter (kind_matches (ep_Kinds q)) (held_after (ep_Since q) l)"
    and "res = queryLocked q l" and "n = nat (eventLimit (ep_Limit q))"
  shows "er_Events res = (if ep_Newest q then drop (length sel - n) sel else take n sel)
    \<and> er_More res = int (length sel - length (er_Events res))
    \<and> er_Dropped res + int (length (held_after (ep_Since q) l)) = latest l - ep_Since q
    \<and> (\<forall>e \<in> set (er_Events res). ep_Since q < ev_Seq e)"
proof -
  note lim = eventLimit_bounds[of "ep_Limit q"]
  have events: "er_Events res = (if ep_Newest q then drop (length sel - n) sel else take n sel)"
    using assms(2,4-6) lim by (simp add: queryLocked_def Let_def select_loop_spec filter_rev_take)
  have more: "er_More res = int (length sel - n)"
    using assms(2,4-6) lim
    by (simp add: queryLocked_def Let_def select_loop_spec rev_filter[symmetric])
  have "int (length (held_after (ep_Since q) l)) = latest l - max (ep_Since q) (elog.oldest l - 1)"
    using elog.length_after[OF assms(1,3)] held_after_eq[OF assms(1)] by simp
  moreover have "er_Dropped res = max (elog.oldest l - 1 - ep_Since q) 0"
    using assms(2,5) lim by (simp add: queryLocked_def Let_def select_loop_spec elog.oldest_def)
  ultimately have "er_Dropped res + int (length (held_after (ep_Since q) l)) = latest l - ep_Since q"
    by (simp add: max_def)
  moreover have "set (er_Events res) \<subseteq> set (held_after (ep_Since q) l)"
    using events assms(4) by (auto dest: in_set_dropD in_set_takeD)
  then have "\<forall>e \<in> set (er_Events res). ep_Since q < ev_Seq e"
    by (auto simp: held_after_eq[OF assms(1)] elog.after_def)
  ultimately show ?thesis using events more by auto
qed

definition demo_log :: event_log where
  "demo_log = fold append_at [(5, Event EventStarted), (6, Event EventOutput)] (newEventLog 10 10000)"

lemma demo_log_inv: "log_inv demo_log" "latest demo_log = 2" "length (el_events demo_log) = 2"
  by (simp_all add: demo_log_def append_at_def log_append_def newEventLog_def eventSize_def Let_def
      log_inv_def upto_rec1)

definition demo_query :: events_params where
  "demo_query = \<lparr>ep_Since = 0, ep_Newest = False, ep_Limit = 1, ep_Kinds = [], ep_Budget = 0\<rparr>"

theorem query_accounts_for_every_event_witness:
  "er_Dropped (queryLocked demo_query demo_log) + int (length (held_after (ep_Since demo_query) demo_log)) = 2
    \<and> length (er_Events (queryLocked demo_query demo_log)) = 1
    \<and> er_More (queryLocked demo_query demo_log)
      = int (length (filter (kind_matches (ep_Kinds demo_query)) (held_after (ep_Since demo_query) demo_log)) - 1)"
proof -
  have "filter (kind_matches (ep_Kinds demo_query)) (held_after (ep_Since demo_query) demo_log) = el_events demo_log"
    by (simp add: demo_query_def kind_matches_def held_after_def demo_log_inv)
  then show ?thesis
    using query_accounts_for_every_event[OF demo_log_inv(1) _ _ refl refl refl, of demo_query] demo_log_inv(2,3)
    by (simp add: demo_query_def eventLimit_def)
qed

text \<open>
  C11: reading by pages loses and repeats nothing, even while events are appended
  between the pages. If a page read at cursor \<open>s\<close> is not empty and the log has since
  grown without dropping anything after \<open>s\<close>, then the matching events after \<open>s\<close> are
  the page followed by the matching events after the page's last event.
\<close>

theorem paging_loses_nothing:
  assumes l: "log_inv l" and q: "0 \<le> ep_Since q" "ep_Since q \<le> latest l" "\<not> ep_Newest q"
    and page: "page = er_Events (queryLocked q l)" "page \<noteq> []"
    and l': "l' = fold append_at xs l" "er_Dropped (queryLocked q l') = 0"
  shows "filter (kind_matches (ep_Kinds q)) (held_after (ep_Since q) l')
    = page @ filter (kind_matches (ep_Kinds q)) (held_after (ev_Seq (last page)) l')"
proof -
  let ?P = "kind_matches (ep_Kinds q)" and ?s = "ep_Since q" and ?n = "nat (eventLimit (ep_Limit q))"
  have inv': "log_inv l'" using elog.adds_spec[OF l] l'(1) by simp
  have "elog.oldest l' \<le> ?s + 1"
    using l'(2) q(1) by (simp add: queryLocked_def elog.oldest_def Let_def split: prod.splits if_splits)
  then obtain ys where ys: "elog.after ?s l' = elog.after ?s l @ ys"
    using elog.follow[OF l q(2), of xs] l'(1) by blast
  have pg: "page = take ?n (filter ?P (elog.after ?s l))"
    using queryLocked_oldest[OF q(1,3)] held_after_eq[OF l] page(1) by simp
  then have "page = take (length page) (filter ?P (elog.after ?s l'))" by (simp add: ys min_def)
  then have "filter ?P (elog.after ?s l') = page @ filter ?P (elog.after (ev_Seq (last page)) l')"
    using elog.take_filter_resume[OF inv' _ page(2)] by blast
  then show ?thesis by (simp add: held_after_eq[OF inv'])
qed

theorem paging_loses_nothing_witness:
  "filter (kind_matches (ep_Kinds demo_query)) (held_after (ep_Since demo_query) (fold append_at [(7, Event EventEnded)] demo_log))
    = er_Events (queryLocked demo_query demo_log)
      @ filter (kind_matches (ep_Kinds demo_query))
          (held_after (ev_Seq (last (er_Events (queryLocked demo_query demo_log)))) (fold append_at [(7, Event EventEnded)] demo_log))"
  by (rule paging_loses_nothing[OF demo_log_inv(1) _ _ _ refl _ refl])
    (simp_all add: demo_query_def demo_log_def append_at_def log_append_def newEventLog_def eventSize_def
      Let_def queryLocked_def held_after_def kind_matches_def eventLimit_def)

section \<open>Properties of the recording\<close>

definition rec_inv :: "recorder \<Rightarrow> bool" where
  "rec_inv r \<longleftrightarrow> length (rec_file r) = rec_written r \<and> rec_written r \<le> rec_limit r"

lemma rec_write_spec:
  assumes "rec_write line r = (r', full)"
  shows "rec_inv r \<Longrightarrow> rec_written r + length line \<le> rec_limit r \<Longrightarrow> rec_inv r'"
    "rec_open r' = rec_open r" "rec_limit r' = rec_limit r" "prefix (rec_file r) (rec_file r')"
  using assms by (auto simp: rec_write_def rec_inv_def Let_def split: option.splits)

lemma rec_record_closed: "\<not> rec_open r \<Longrightarrow> rec_record e r = r"
  by (simp add: rec_record_def Let_def split: option.splits)

lemma rec_record_inv: "rec_inv r \<Longrightarrow> rec_inv (rec_record e r)"
  by (auto simp: rec_record_def rec_closeLocked_def Let_def rec_inv_def
      dest: rec_write_spec(1,3) split: option.splits prod.splits bool.splits)

lemma rec_record_frame:
  "rec_limit (rec_record e r) = rec_limit r" "prefix (rec_file r) (rec_file (rec_record e r))"
  by (auto simp: rec_record_def rec_closeLocked_def Let_def
      dest: rec_write_spec(3,4) split: option.splits prod.splits bool.splits)

lemma rec_records:
  "rec_inv r \<Longrightarrow> rec_inv (fold rec_record es r) \<and> rec_limit (fold rec_record es r) = rec_limit r"
  by (induction es arbitrary: r) (simp_all add: rec_record_inv rec_record_frame)

lemma rec_records_closed: "\<not> rec_open r \<Longrightarrow> fold rec_record es r = r"
  by (induction es) (simp_all add: rec_record_closed)

lemma ended_closes: "ev_Kind e = EventEnded \<Longrightarrow> \<not> rec_open (rec_record e r)"
  by (auto simp: rec_record_def recordable_def record_view_def rec_closeLocked_def Let_def
      split: prod.splits bool.splits)

text \<open>
  A recording never grows beyond its limit whatever events reach it and
  whenever writes fail, and nothing is written after the event that ends the
  session.
\<close>

theorem recording_is_bounded:
  fixes json room limit before after
  assumes "ev_Kind e = EventEnded"
  shows "length (rec_file (fold rec_record (before @ e # after) (newRecorder json room limit))) \<le> limit
    \<and> fold rec_record (before @ e # after) (newRecorder json room limit)
      = fold rec_record (before @ [e]) (newRecorder json room limit)"
proof
  have "rec_inv (newRecorder json room limit)" by (simp add: rec_inv_def newRecorder_def)
  from rec_records[OF this, of "before @ e # after"]
  show "length (rec_file (fold rec_record (before @ e # after) (newRecorder json room limit))) \<le> limit"
    by (simp add: rec_inv_def newRecorder_def)
  show "fold rec_record (before @ e # after) (newRecorder json room limit)
      = fold rec_record (before @ [e]) (newRecorder json room limit)"
    by (simp add: rec_records_closed ended_closes[OF assms])
qed

theorem recording_is_bounded_witness:
  "length (rec_file (fold rec_record ([] @ Event EventEnded # [Event EventLease]) (newRecorder ev_Kind None 20))) \<le> 20
    \<and> fold rec_record ([] @ Event EventEnded # [Event EventLease]) (newRecorder ev_Kind None 20)
      = fold rec_record ([] @ [Event EventEnded]) (newRecorder ev_Kind None 20)"
  by (rule recording_is_bounded) simp

text \<open>
  Two events that differ only in program data: in an output event anything, in
  others the text, and of a stop or a lease everything a control event does not
  need (the stop's description and text, the requesters' messages).
\<close>

definition stop_control :: "stop_info \<Rightarrow> string \<times> int" where
  "stop_control s = (si_Reason s, si_ThreadID s)"

definition lease_control :: "lease_info \<Rightarrow> lease_policy \<times> string \<times> time option" where
  "lease_control l = (li_Policy l, li_Holder l, li_Since l)"

definition same_control :: "event \<Rightarrow> event \<Rightarrow> bool" where
  "same_control d e \<longleftrightarrow> ev_Kind d = ev_Kind e \<and> (ev_Kind d = EventOutput \<or>
    ev_Seq d = ev_Seq e \<and> ev_Time d = ev_Time e \<and> ev_Client d = ev_Client e \<and> ev_Action d = ev_Action e
    \<and> ev_Program d = ev_Program e \<and> ev_Previous d = ev_Previous e \<and> ev_ThreadID d = ev_ThreadID e
    \<and> ev_Reason d = ev_Reason e \<and> ev_Category d = ev_Category e \<and> ev_Breakpoint d = ev_Breakpoint e
    \<and> ev_ExitCode d = ev_ExitCode e
    \<and> map_option lease_control (ev_Lease d) = map_option lease_control (ev_Lease e)
    \<and> (if ev_Kind d = EventStopped
       then map_option stop_control (ev_Stop d) = map_option stop_control (ev_Stop e)
       else ev_Stop d = ev_Stop e))"

lemma lease_control_requests:
  "lease_control l = lease_control k \<Longrightarrow> l\<lparr>li_Requests := []\<rparr> = k\<lparr>li_Requests := []\<rparr>"
  by (rule lease_info.equality) (simp_all add: lease_control_def)

lemma same_control_lease:
  "map_option lease_control a = map_option lease_control b \<Longrightarrow>
    map_option (\<lambda>l. l\<lparr>li_Requests := []\<rparr>) a = map_option (\<lambda>l. l\<lparr>li_Requests := []\<rparr>) b"
  by (cases a; cases b; simp) (erule lease_control_requests)

lemma same_control_stop:
  "map_option stop_control a = map_option stop_control b \<Longrightarrow>
    map_option (\<lambda>s. no_stop\<lparr>si_Reason := si_Reason s, si_ThreadID := si_ThreadID s\<rparr>) a
      = map_option (\<lambda>s. no_stop\<lparr>si_Reason := si_Reason s, si_ThreadID := si_ThreadID s\<rparr>) b"
  by (cases a; cases b) (simp_all add: stop_control_def)

lemma record_view_same_control:
  assumes "same_control d e" "ev_Kind d \<noteq> EventOutput"
  shows "record_view d = record_view e"
proof -
  have "map_option (\<lambda>l. l\<lparr>li_Requests := []\<rparr>) (ev_Lease d) = map_option (\<lambda>l. l\<lparr>li_Requests := []\<rparr>) (ev_Lease e)"
    using assms by (intro same_control_lease) (simp add: same_control_def)
  moreover have "ev_Kind d = EventStopped \<Longrightarrow>
      map_option (\<lambda>s. no_stop\<lparr>si_Reason := si_Reason s, si_ThreadID := si_ThreadID s\<rparr>) (ev_Stop d)
        = map_option (\<lambda>s. no_stop\<lparr>si_Reason := si_Reason s, si_ThreadID := si_ThreadID s\<rparr>) (ev_Stop e)"
    using assms by (intro same_control_stop) (simp add: same_control_def)
  ultimately show ?thesis
    using assms unfolding record_view_def same_control_def Let_def
    by (cases "ev_Kind e = EventStopped"; intro event.equality) simp_all
qed

lemma recordable_same_control: "same_control d e \<Longrightarrow> recordable d = recordable e"
  using record_view_same_control[of d e]
  by (cases "ev_Kind d = EventOutput") (simp_all add: recordable_def same_control_def Let_def)

text \<open>
  C31: the recording does not depend on the program's data. Two runs whose events
  differ only in program output, stop texts and request messages leave the same
  bytes in the recording.
\<close>

theorem recording_independent_of_program_data:
  assumes "list_all2 same_control ds es"
  shows "fold rec_record ds r = fold rec_record es r"
  using assms
  by (induction arbitrary: r rule: list_all2_induct)
    (simp_all add: rec_record_def recordable_same_control)

theorem recording_independent_of_program_data_witness:
  "fold rec_record [Event EventOutput, (Event EventExec)\<lparr>ev_Text := ''secret''\<rparr>] (newRecorder ev_Kind None 9)
    = fold rec_record [(Event EventOutput)\<lparr>ev_Text := ''out''\<rparr>, Event EventExec] (newRecorder ev_Kind None 9)"
  by (rule recording_independent_of_program_data) (simp add: same_control_def)

end
