(* ===== verification/Path_Map.thy ===== *)
theory Path_Map
  imports Api_Types
begin

text \<open>
  Path maps (\<^verbatim>\<open>internal/session/pathmap.go\<close>) for a debuggee in a container, on a
  Unix host: how source paths are checked, mapped to the container and back, and
  which host files may be read. Absolute clean paths are compared with lists of
  segments, which is what the proofs of containment and of the round trip use.
\<close>

section \<open>Definitions\<close>

abbreviation maxPathMappings :: nat where "maxPathMappings \<equiv> 16"
abbreviation maxRemotePath :: nat where "maxRemotePath \<equiv> 1024"

record path_pair =
  pp_remote :: string
  pp_local :: string

record path_map =
  pm_pairs :: "path_pair list"
  pm_byLocal :: "path_pair list"
  pm_byRemote :: "path_pair list"

definition mapError :: "message \<Rightarrow> error" where
  "mapError msg = NewError CodeInvalidRequest (Lit ''invalid path map: '' # msg)"

definition plainText :: "string \<Rightarrow> bool" where
  "plainText s = (valid_utf8 s \<and> \<not> list_ex IsControl (runes s))"

definition hasDotDot :: "string \<Rightarrow> bool" where
  "hasDotDot p = (''..'' \<in> set (split_at SL p))"

definition checkRemoteRoot :: "string \<Rightarrow> unit result" where
  "checkRemoteRoot remote =
    (if length remote > maxRemotePath
     then Inl (mapError [Lit (''container path of '' @ itoa (int (length remote)) @ '' bytes: at most 1024 are allowed'')])
     else if \<not> IsAbs remote \<or> CHR 0x5C \<in> set remote \<or> \<not> plainText remote
     then Inl (mapError [Lit ''container path '', Quoted remote,
                         Lit '': want an absolute POSIX path (from /, no backslashes or control characters)''])
     else if remote \<noteq> Clean remote
     then Inl (mapError [Lit ''container path '', Quoted remote, Lit '': want it clean, as '', Quoted (Clean remote)])
     else Inr ())"

definition checkLocalRoot :: "fs \<Rightarrow> string \<Rightarrow> (string \<times> file_info) result" where
  "checkLocalRoot F l =
    (if \<not> IsAbs l then Inl (mapError [Lit ''host directory '', Quoted l, Lit '': want an absolute path''])
     else case fs_EvalSymlinks F (Clean l) of
       None \<Rightarrow> Inl (mapError [Lit ''host directory '', Quoted l, Lit '': not found''])
     | Some resolved \<Rightarrow>
         (case fs_Stat F resolved of
            Some info \<Rightarrow> if fi_IsDir info then Inr (resolved, info)
                          else Inl (mapError [Lit ''host directory '', Quoted l, Lit '': not a directory''])
          | None \<Rightarrow> Inl (mapError [Lit ''host directory '', Quoted l, Lit '': not a directory''])))"

text \<open>The check of a new pair against those taken so far, in order.\<close>

fun check_twice :: "string \<Rightarrow> string \<Rightarrow> file_info \<Rightarrow> (path_pair \<times> file_info) list \<Rightarrow> unit result" where
  "check_twice remote l dir [] = Inr ()"
| "check_twice remote l dir ((p, d) # ps) =
    (if pp_remote p = remote then Inl (mapError [Lit ''container path '', Quoted remote, Lit '' is mapped twice''])
     else if pp_local p = l \<or> SameFile d dir
     then Inl (mapError [Lit ''host directory '', Quoted l, Lit '' is mapped twice''])
     else check_twice remote l dir ps)"

fun take_pairs :: "fs \<Rightarrow> path_pair list \<Rightarrow> (path_pair \<times> file_info) list \<Rightarrow> (path_pair \<times> file_info) list result" where
  "take_pairs F [] acc = Inr acc"
| "take_pairs F (p # ps) acc =
    (case checkRemoteRoot (pp_remote p) of
       Inl e \<Rightarrow> Inl e
     | Inr _ \<Rightarrow>
       (case checkLocalRoot F (pp_local p) of
          Inl e \<Rightarrow> Inl e
        | Inr (l, dir) \<Rightarrow>
          (case check_twice (pp_remote p) l dir acc of
             Inl e \<Rightarrow> Inl e
           | Inr _ \<Rightarrow> take_pairs F ps (acc @ [(\<lparr>pp_remote = pp_remote p, pp_local = l\<rparr>, dir)]))))"

definition NewPathMap :: "fs \<Rightarrow> path_pair list \<Rightarrow> path_map result" where
  "NewPathMap F pairs =
    (if length pairs > maxPathMappings
     then Inl (mapError [Lit (itoa (int (length pairs)) @ '' path mappings: at most 16 are allowed'')])
     else case take_pairs F pairs [] of
       Inl e \<Rightarrow> Inl e
     | Inr acc \<Rightarrow>
         let ps = map fst acc in
         Inr \<lparr>pm_pairs = ps,
              pm_byLocal = sort_key (\<lambda>p. - int (length (pp_local p))) ps,
              pm_byRemote = sort_key (\<lambda>p. - int (length (pp_remote p))) ps\<rparr>)"

text \<open>\<^verbatim>\<open>filepath.Rel\<close> on clean paths, by segments.\<close>

definition path_segs :: "string \<Rightarrow> string list" where
  "path_segs p = filter (\<lambda>w. w \<noteq> [] \<and> w \<noteq> ''.'') (split_at SL p)"

fun strip_common :: "string list \<Rightarrow> string list \<Rightarrow> string list \<times> string list" where
  "strip_common (a # as) (b # bs) = (if a = b then strip_common as bs else (a # as, b # bs))"
| "strip_common as bs = (as, bs)"

definition Rel :: "string \<Rightarrow> string \<Rightarrow> string option" where
  "Rel base targ =
    (let b = Clean base; t = Clean targ in
     if b = t then Some ''.''
     else if IsAbs b \<noteq> IsAbs t then None
     else let (br, tr) = strip_common (path_segs b) (path_segs t) in
       if br = [''..''] then None
       else Some (join_with [SL] (map (\<lambda>_. ''..'') br @ tr)))"

definition escapes :: "string \<Rightarrow> bool" where
  "escapes rel = (rel = ''..'' \<or> prefix ''../'' rel \<or> IsAbs rel)"

definition within :: "string \<Rightarrow> string \<Rightarrow> bool" where
  "within root p =
    (if p = root then True
     else prefix (if suffix [SL] root then root else root @ [SL]) p)"

definition under :: "string \<Rightarrow> string \<Rightarrow> string option" where
  "under root c =
    (if root = [SL] then Some (drop 1 c)
     else if c = root then Some []
     else if prefix (root @ [SL]) c then Some (drop (length root + 1) c)
     else None)"

text \<open>\<^verbatim>\<open>fs.ValidPath\<close>, \<^verbatim>\<open>filepath.Localize\<close> and \<^verbatim>\<open>filepath.IsLocal\<close> on a Unix host.\<close>

definition ValidPath :: "string \<Rightarrow> bool" where
  "ValidPath p = (valid_utf8 p \<and> (p = ''.'' \<or> list_all (\<lambda>w. w \<notin> {[], ''.'', ''..''}) (split_at SL p)))"

definition Localize :: "string \<Rightarrow> string option" where
  "Localize p = (if ValidPath p \<and> CHR 0x00 \<notin> set p then Some p else None)"

definition IsLocal :: "string \<Rightarrow> bool" where
  "IsLocal p = (if IsAbs p \<or> p = [] then False
    else let c = (if list_ex (\<lambda>w. w \<in> {''.'', ''..''}) (split_at SL p) then Clean p else p)
         in \<not> (c = ''..'' \<or> prefix ''../'' c))"

definition localRel :: "string \<Rightarrow> string option" where
  "localRel rel =
    (if CHR 0x5C \<in> set rel \<or> \<not> plainText rel then None
     else if list_ex (\<lambda>seg. seg \<in> {[], ''.'', ''..''}) (split_at SL rel) then None
     else case Localize rel of
       None \<Rightarrow> None
     | Some out \<Rightarrow> if IsLocal out then Some out else None)"

fun to_remote_loop :: "path_pair list \<Rightarrow> string \<Rightarrow> string option" where
  "to_remote_loop [] host = None"
| "to_remote_loop (p # ps) host =
    (case Rel (pp_local p) host of
       None \<Rightarrow> to_remote_loop ps host
     | Some rel \<Rightarrow>
         if escapes rel then to_remote_loop ps host
         else if rel = ''.'' then Some (pp_remote p)
         else if localRel rel = None then None
         else Some (Join2 (pp_remote p) rel))"

definition ToRemote :: "path_map \<Rightarrow> string \<Rightarrow> string option" where
  "ToRemote m host = to_remote_loop (pm_byLocal m) host"

fun to_local_loop :: "path_pair list \<Rightarrow> string \<Rightarrow> string option" where
  "to_local_loop [] c = None"
| "to_local_loop (p # ps) c =
    (case under (pp_remote p) c of
       None \<Rightarrow> to_local_loop ps c
     | Some rel \<Rightarrow>
         if rel = [] then Some (pp_local p)
         else (case localRel rel of
             None \<Rightarrow> None
           | Some osRel \<Rightarrow>
               let out = Join2 (pp_local p) osRel
               in if within (pp_local p) out then Some out else None))"

definition ToLocal :: "path_map \<Rightarrow> string \<Rightarrow> string option" where
  "ToLocal m remote =
    (if \<not> IsAbs remote \<or> \<not> plainText remote \<or> hasDotDot remote then None
     else to_local_loop (pm_byRemote m) (Clean remote))"

definition sourceExtensions :: "string list" where
  "sourceExtensions = [''.cs'', ''.csx'', ''.vb'', ''.fs'', ''.fsi'', ''.fsx'', ''.razor'', ''.cshtml'', ''.xaml'']"

text \<open>
  \<^verbatim>\<open>strings.ToLower\<close> as far as an ASCII suffix can see it: ASCII letters, and the
  two other letters whose lower case is ASCII (U+0130 and the Kelvin sign U+212A).
  Bytes of other runes are kept; no such byte is ASCII before or after.
\<close>

definition to_lower :: "string \<Rightarrow> string" where
  "to_lower s = concat (map (\<lambda>(r, b).
     if 65 \<le> r \<and> r \<le> 90 then [char_of (r + 32)]
     else if r = 304 then ''i'' else if r = 8490 then ''k'' else b) (chunks s))"

definition isSourceName :: "string \<Rightarrow> bool" where
  "isSourceName name =
    (let lower = to_lower name in
     list_ex (\<lambda>ext. suffix ext lower \<and> length lower > length ext) sourceExtensions)"

definition Base :: "string \<Rightarrow> string" where
  "Base p = (if p = [] then ''.''
    else let t = rev (dropWhile (\<lambda>c. c = SL) (rev p)) in
      if t = [] then [SL] else last (split_at SL t))"

definition resolve :: "fs \<Rightarrow> path_map \<Rightarrow> string \<Rightarrow> (string \<times> string) option" where
  "resolve F m l =
    (case fs_EvalSymlinks F l of
       None \<Rightarrow> None
     | Some resolved \<Rightarrow>
         if \<not> isSourceName (Base resolved) then None
         else (case find (\<lambda>p. within (pp_local p) resolved) (pm_byLocal m) of
             None \<Rightarrow> None
           | Some p \<Rightarrow>
               let r1 = drop (length (pp_local p)) resolved;
                   rel = (if prefix [SL] r1 then drop 1 r1 else r1)
               in Some (pp_local p, if rel = [] then ''.'' else rel)))"

definition Readable :: "fs \<Rightarrow> path_map \<Rightarrow> string \<Rightarrow> bool" where
  "Readable F m l = (resolve F m l \<noteq> None)"

definition MessageOutsidePathMap :: string where
  "MessageOutsidePathMap = '' is outside the container's path map''"

definition checkBreakpoint :: "path_map option \<Rightarrow> breakpoint_spec \<Rightarrow> unit result" where
  "checkBreakpoint m spec =
    (case m of
       None \<Rightarrow> Inr ()
     | Some m' \<Rightarrow>
         if bs_Function spec \<noteq> [] then Inr ()
         else if ToRemote m' (bs_File spec) \<noteq> None then Inr ()
         else Inl (NewError CodeInvalidRequest [Lit (bs_File spec @ MessageOutsidePathMap)]))"

section \<open>Absolute paths as segments\<close>

definition seg_ok :: "string \<Rightarrow> bool" where
  "seg_ok w \<longleftrightarrow> w \<noteq> [] \<and> w \<noteq> ''.'' \<and> w \<noteq> ''..'' \<and> SL \<notin> set w"

definition abs_path :: "string list \<Rightarrow> string" where
  "abs_path ws = SL # join_with [SL] ws"

lemma seg_ok_sep: "list_all seg_ok ws \<Longrightarrow> \<forall>w\<in>set ws. SL \<notin> set w"
  by (auto simp: seg_ok_def list_all_iff)

lemma split_segs: "list_all seg_ok ws \<Longrightarrow> ws \<noteq> [] \<Longrightarrow> split_at SL (join_with [SL] ws) = ws"
  by (rule split_join) (simp_all add: seg_ok_sep)

lemma split_abs: "list_all seg_ok ws \<Longrightarrow> split_at SL (abs_path ws) = [] # (if ws = [] then [[]] else ws)"
  by (simp add: abs_path_def split_segs)

lemma IsAbs_abs [simp]: "IsAbs (abs_path ws)"
  by (simp add: IsAbs_def abs_path_def)

lemma clean_segs_ok: "list_all seg_ok ws \<Longrightarrow> clean_segs b acc ws = rev acc @ ws"
  by (induction ws arbitrary: acc) (auto simp: seg_ok_def)

lemma clean_segs_skip [simp]: "clean_segs b acc ([] # ws) = clean_segs b acc ws"
  by simp

lemma Clean_abs: "list_all seg_ok ws \<Longrightarrow> Clean (abs_path ws) = abs_path ws"
  by (simp add: Clean_def split_abs clean_segs_ok) (simp add: abs_path_def)

lemma clean_segs_rooted:
  "list_all seg_ok acc \<Longrightarrow> \<forall>w\<in>set ws. SL \<notin> set w \<Longrightarrow> list_all seg_ok (clean_segs True acc ws)"
proof (induction ws arbitrary: acc)
  case (Cons w ws)
  then show ?case by (cases acc) (auto simp: seg_ok_def)
qed (simp add: list_all_iff)

lemma clean_abs_segs:
  assumes "IsAbs p" "Clean p = p"
  obtains ws where "list_all seg_ok ws" "p = abs_path ws"
proof
  show "list_all seg_ok (clean_segs True [] (split_at SL p))"
    by (rule clean_segs_rooted) (auto dest: split_at_no_sep)
  show "p = abs_path (clean_segs True [] (split_at SL p))"
    using assms by (simp add: Clean_def abs_path_def Let_def)
qed

lemma path_segs_abs: "list_all seg_ok ws \<Longrightarrow> path_segs (abs_path ws) = ws"
  by (auto simp: path_segs_def split_abs seg_ok_def list_all_iff intro!: filter_True)

lemma abs_path_inj: "list_all seg_ok a \<Longrightarrow> list_all seg_ok b \<Longrightarrow> abs_path a = abs_path b \<longleftrightarrow> a = b"
  using path_segs_abs by metis

lemma abs_path_append: "ws \<noteq> [] \<Longrightarrow> abs_path (a @ ws) = (if a = [] then [] else abs_path a) @ SL # join_with [SL] ws"
proof (induction a rule: induct_list012)
  case (2 x)
  then show ?case by (cases ws) (auto simp: abs_path_def)
qed (auto simp: abs_path_def)

lemma Join2_abs:
  assumes "list_all seg_ok a" "list_all seg_ok ws" "ws \<noteq> []"
  shows "Join2 (abs_path a) (join_with [SL] ws) = abs_path (a @ ws)"
proof -
  have ne: "join_with [SL] ws \<noteq> []" using split_segs[OF assms(2,3)] assms(2) by (auto simp: seg_ok_def)
  have "split_at SL (abs_path a @ SL # join_with [SL] ws) = [] # (if a = [] then [[]] else a) @ ws"
    using assms by (simp add: split_at_join split_abs split_segs)
  moreover have "list_all seg_ok (a @ ws)" using assms by simp
  ultimately have "Clean (abs_path a @ SL # join_with [SL] ws) = abs_path (a @ ws)"
    using clean_segs_ok[of "a @ ws" True "[]"] clean_segs_ok[of ws True "[]"] assms(2)
    by (auto simp: Clean_def IsAbs_def abs_path_def Let_def)
  then show ?thesis using ne by (simp add: Join2_def) (simp add: abs_path_def)
qed

lemma prefix_abs: "list_all seg_ok a \<Longrightarrow> list_all seg_ok b \<Longrightarrow> a \<noteq> [] \<Longrightarrow>
    prefix (abs_path a @ [SL]) (abs_path b) \<longleftrightarrow> strict_prefix a b"
proof
  assume a: "list_all seg_ok a" "a \<noteq> []" and b: "list_all seg_ok b" and "prefix (abs_path a @ [SL]) (abs_path b)"
  then obtain t where t: "abs_path b = abs_path a @ SL # t" by (auto simp: prefix_def)
  have "split_at SL (abs_path b) = split_at SL (abs_path a) @ split_at SL t"
    unfolding t by (rule split_at_join)
  then have "[] # (if b = [] then [[]] else b) = [] # a @ split_at SL t"
    using a b by (simp add: split_abs)
  then have "b = a @ split_at SL t" using a(2) t by (cases "b = []") (auto simp: abs_path_def)
  then show "strict_prefix a b" by (auto simp: strict_prefix_def)
next
  assume "a \<noteq> []" "strict_prefix a b"
  then obtain ws where "ws \<noteq> []" "b = a @ ws" by (auto simp: strict_prefix_def prefix_def)
  then show "prefix (abs_path a @ [SL]) (abs_path b)"
    using abs_path_append[of ws a] \<open>a \<noteq> []\<close> by simp
qed

lemma under_abs:
  assumes "list_all seg_ok a" "list_all seg_ok b"
  shows "under (abs_path a) (abs_path b) = (if prefix a b then Some (join_with [SL] (drop (length a) b)) else None)"
proof (cases "a = []")
  case True
  then show ?thesis by (simp add: under_def abs_path_def)
next
  case False
  then have root: "abs_path a \<noteq> [SL]" using abs_path_inj[of a "[]"] assms by (auto simp: abs_path_def)
  consider "a = b" | "strict_prefix a b" | "\<not> prefix a b" by (auto simp: strict_prefix_def)
  then show ?thesis
  proof cases
    case 2
    then obtain ws where ws: "ws \<noteq> []" "b = a @ ws" by (auto simp: strict_prefix_def prefix_def)
    then have "abs_path b = abs_path a @ SL # join_with [SL] ws" using abs_path_append[of ws a] False by simp
    then show ?thesis using root ws by (auto simp: under_def)
  next
    case 3
    then show ?thesis using root prefix_abs[OF assms False] abs_path_inj[OF assms] by (auto simp: under_def strict_prefix_def)
  qed (use root in \<open>simp add: under_def\<close>)
qed

lemma within_abs_append: "list_all seg_ok a \<Longrightarrow> list_all seg_ok ws \<Longrightarrow> within (abs_path a) (abs_path (a @ ws))"
proof -
  assume a: "list_all seg_ok a" and w: "list_all seg_ok ws"
  show ?thesis
  proof (cases "ws = []")
    case False
    then have app: "abs_path (a @ ws) = (if a = [] then [] else abs_path a) @ SL # join_with [SL] ws"
      by (rule abs_path_append)
    then show ?thesis by (cases "a = []") (auto simp: within_def abs_path_def suffix_def)
  qed (simp add: within_def)
qed

lemma strip_common_spec:
  "strip_common a b = (x, y) \<Longrightarrow> \<exists>c. a = c @ x \<and> b = c @ y \<and> (x = [] \<or> y = [] \<or> hd x \<noteq> hd y)"
proof (induction a b rule: strip_common.induct)
  case (1 a as b bs)
  show ?case
  proof (cases "a = b")
    case True
    then obtain c where "as = c @ x" "bs = c @ y" "x = [] \<or> y = [] \<or> hd x \<noteq> hd y"
      using 1 by auto
    then show ?thesis using True by (intro exI[of _ "b # c"]) simp
  qed (use 1 in auto)
qed auto

text \<open>\<^const>\<open>Rel\<close> stays below its base exactly for the paths below it.\<close>

lemma Rel_abs:
  assumes "list_all seg_ok a" "list_all seg_ok b"
  shows "prefix a b \<Longrightarrow> Rel (abs_path a) (abs_path b)
      = Some (if a = b then ''.'' else join_with [SL] (drop (length a) b))"
    "\<not> prefix a b \<Longrightarrow> \<exists>rel. Rel (abs_path a) (abs_path b) = Some rel \<and> escapes rel"
proof -
  obtain x y where xy: "strip_common a b = (x, y)" by fastforce
  then obtain c where c: "a = c @ x" "b = c @ y" "x = [] \<or> y = [] \<or> hd x \<noteq> hd y" using strip_common_spec by blast
  have nd: "x \<noteq> [''..'']" using assms(1) c(1) by (auto simp: seg_ok_def)
  have rel: "Rel (abs_path a) (abs_path b) = Some (if a = b then ''.''
      else join_with [SL] (map (\<lambda>_. ''..'') x @ y))"
    using xy nd by (simp add: Rel_def Clean_abs assms abs_path_inj path_segs_abs)
  show "Rel (abs_path a) (abs_path b) = Some (if a = b then ''.'' else join_with [SL] (drop (length a) b))"
    if "prefix a b"
  proof -
    have "x = []" using that c by (cases x; cases y) auto
    then show ?thesis using rel c by simp
  qed
  show "\<exists>rel. Rel (abs_path a) (abs_path b) = Some rel \<and> escapes rel" if np: "\<not> prefix a b"
  proof -
    obtain x1 x2 where x: "x = x1 # x2" using np c by (cases x) auto
    have "escapes (join_with [SL] (map (\<lambda>_. ''..'') x @ y))"
      using x by (cases "map (\<lambda>_. ''..'') x2 @ y") (auto simp: escapes_def)
    then show ?thesis using rel np by auto
  qed
qed

lemma join_not_escapes:
  assumes "list_all seg_ok ws" "ws \<noteq> []"
  shows "\<not> escapes (join_with [SL] ws)" "join_with [SL] ws \<noteq> ''.''" "join_with [SL] ws \<noteq> []"
proof -
  note sp = split_segs[OF assms]
  obtain w v where w: "ws = w # v" "seg_ok w" using assms by (cases ws) auto
  show ne: "join_with [SL] ws \<noteq> []" using sp w by (auto simp: seg_ok_def)
  show "join_with [SL] ws \<noteq> ''.''" using sp w by (auto simp: seg_ok_def)
  have "hd (join_with [SL] ws) \<noteq> SL" using w by (cases w; cases v) (auto simp: seg_ok_def)
  then have "\<not> IsAbs (join_with [SL] ws)" using ne by (cases "join_with [SL] ws") (auto simp: IsAbs_def)
  moreover have "\<not> prefix ''../'' (join_with [SL] ws)"
  proof
    assume "prefix ''../'' (join_with [SL] ws)"
    then obtain t where "join_with [SL] ws = ''..'' @ SL # t" by (auto simp: prefix_def)
    then have "split_at SL (join_with [SL] ws) = ''..'' # split_at SL t" by simp
    then show False using sp w by (auto simp: seg_ok_def)
  qed
  moreover have "join_with [SL] ws \<noteq> ''..''" using sp w by (auto simp: seg_ok_def)
  ultimately show "\<not> escapes (join_with [SL] ws)" by (simp add: escapes_def)
qed

lemma localRel_cases:
  assumes "localRel rel = Some out"
  obtains ws where "out = rel" "ws \<noteq> []" "list_all seg_ok ws" "rel = join_with [SL] ws" "plainText rel" "CHR 0x5C \<notin> set rel"
proof
  let ?ws = "split_at SL rel"
  have ok: "\<not> list_ex (\<lambda>seg. seg \<in> {[], ''.'', ''..''}) ?ws" "plainText rel" "CHR 0x5C \<notin> set rel"
    using assms by (auto simp: localRel_def split: if_splits)
  then show "list_all seg_ok ?ws"
    by (auto simp: seg_ok_def list_all_iff list_ex_iff dest: split_at_no_sep)
  show "out = rel" using assms by (auto simp: localRel_def Localize_def split: if_splits option.splits)
  show "rel = join_with [SL] ?ws" by (simp add: join_split)
qed (use assms in \<open>auto simp: localRel_def split: if_splits\<close>)

section \<open>Well-formed maps\<close>

definition clean_abs :: "string \<Rightarrow> bool" where
  "clean_abs p \<longleftrightarrow> IsAbs p \<and> Clean p = p"

definition pair_ok :: "path_pair \<Rightarrow> bool" where
  "pair_ok p \<longleftrightarrow> clean_abs (pp_remote p) \<and> clean_abs (pp_local p) \<and> plainText (pp_remote p)"

definition map_ok :: "path_map \<Rightarrow> bool" where
  "map_ok m \<longleftrightarrow> (\<forall>p\<in>set (pm_pairs m). pair_ok p) \<and> distinct (map pp_remote (pm_pairs m))
    \<and> distinct (map pp_local (pm_pairs m)) \<and> length (pm_pairs m) \<le> maxPathMappings
    \<and> set (pm_byLocal m) = set (pm_pairs m) \<and> set (pm_byRemote m) = set (pm_pairs m)"

text \<open>What \<^verbatim>\<open>filepath.EvalSymlinks\<close> documents: an absolute path resolves to an absolute, clean one.\<close>

definition fs_clean :: "fs \<Rightarrow> bool" where
  "fs_clean F \<longleftrightarrow> (\<forall>p q. IsAbs p \<longrightarrow> fs_EvalSymlinks F p = Some q \<longrightarrow> clean_abs q)"

lemma clean_abs_Clean: "IsAbs p \<Longrightarrow> clean_abs (Clean p)"
proof -
  assume p: "IsAbs p"
  then have "Clean p = abs_path (clean_segs True [] (split_at SL p))"
    by (simp add: Clean_def abs_path_def Let_def)
  moreover have "list_all seg_ok (clean_segs True [] (split_at SL p))"
    by (rule clean_segs_rooted) (auto dest: split_at_no_sep)
  ultimately show ?thesis by (simp add: clean_abs_def Clean_abs)
qed

lemma clean_absE:
  assumes "clean_abs p"
  shows "list_all seg_ok (path_segs p)" "abs_path (path_segs p) = p"
  using assms clean_abs_segs[of p] path_segs_abs unfolding clean_abs_def by metis+

lemma check_twice_ok:
  "check_twice r l d acc = Inr () \<Longrightarrow> r \<notin> set (map (pp_remote \<circ> fst) acc) \<and> l \<notin> set (map (pp_local \<circ> fst) acc)"
  by (induction r l d acc rule: check_twice.induct) (auto split: if_splits)

lemma take_pairs_ok:
  "take_pairs F ps acc = Inr acc' \<Longrightarrow> fs_clean F \<Longrightarrow> list_all (pair_ok \<circ> fst) acc
    \<Longrightarrow> distinct (map (pp_remote \<circ> fst) acc) \<Longrightarrow> distinct (map (pp_local \<circ> fst) acc)
    \<Longrightarrow> list_all (pair_ok \<circ> fst) acc' \<and> distinct (map (pp_remote \<circ> fst) acc')
      \<and> distinct (map (pp_local \<circ> fst) acc') \<and> length acc' = length acc + length ps"
proof (induction F ps acc rule: take_pairs.induct)
  case (2 F p ps acc)
  obtain l dir where r: "checkRemoteRoot (pp_remote p) = Inr ()" and l: "checkLocalRoot F (pp_local p) = Inr (l, dir)"
    and t: "check_twice (pp_remote p) l dir acc = Inr ()"
    and rec: "take_pairs F ps (acc @ [(\<lparr>pp_remote = pp_remote p, pp_local = l\<rparr>, dir)]) = Inr acc'"
    using "2.prems"(1) by (auto split: sum.splits)
  have "clean_abs (pp_remote p)" "plainText (pp_remote p)"
    using r by (auto simp: checkRemoteRoot_def clean_abs_def split: if_splits)
  moreover have "IsAbs (pp_local p)" "fs_EvalSymlinks F (Clean (pp_local p)) = Some l"
    using l by (auto simp: checkLocalRoot_def split: if_splits option.splits)
  then have "clean_abs l"
    using "2.prems"(2) clean_abs_Clean[of "pp_local p"] unfolding fs_clean_def clean_abs_def by blast
  ultimately have "pair_ok \<lparr>pp_remote = pp_remote p, pp_local = l\<rparr>" by (simp add: pair_ok_def)
  then show ?case
    using "2.IH"[OF r l refl t rec] "2.prems" check_twice_ok[OF t] by (auto simp: comp_def)
qed simp

lemma NewPathMap_ok: "NewPathMap F ps = Inr m \<Longrightarrow> fs_clean F \<Longrightarrow> map_ok m"
  using take_pairs_ok[of F ps "[]"]
  by (auto simp: NewPathMap_def map_ok_def list_all_iff Let_def comp_def split: if_splits sum.splits)

section \<open>Properties\<close>

lemma to_local_spec:
  assumes "list_all pair_ok ps" "list_all seg_ok c" "to_local_loop ps (abs_path c) = Some l"
  shows "\<exists>p\<in>set ps. \<exists>rest. list_all seg_ok rest \<and> c = path_segs (pp_remote p) @ rest
    \<and> l = abs_path (path_segs (pp_local p) @ rest)"
  using assms(1,3)
proof (induction ps)
  case (Cons p ps)
  let ?r = "path_segs (pp_remote p)" and ?l = "path_segs (pp_local p)"
  have r: "list_all seg_ok ?r" "abs_path ?r = pp_remote p" and l: "list_all seg_ok ?l" "abs_path ?l = pp_local p"
    using Cons.prems(1) clean_absE by (auto simp: pair_ok_def)
  note u = under_abs[OF r(1) assms(2), unfolded r(2)]
  show ?case
  proof (cases "prefix ?r c")
    case False
    then show ?thesis using Cons u by auto
  next
    case True
    then obtain rest where c: "c = ?r @ rest" by (auto simp: prefix_def)
    then have rest: "list_all seg_ok rest" using assms(2) by simp
    show ?thesis
    proof (cases "rest = []")
      case True
      then have "l = pp_local p" using Cons.prems(2) u c by simp
      then show ?thesis using c True l(2) by auto
    next
      case ne: False
      then have "localRel (join_with [SL] rest) = Some (join_with [SL] rest)" "l = Join2 (pp_local p) (join_with [SL] rest)"
        using Cons.prems(2) u c join_not_escapes(3)[OF rest ne]
        by (auto simp: Let_def split: option.splits if_splits elim!: localRel_cases)
      then have "l = abs_path (?l @ rest)" using Join2_abs[OF l(1) rest ne] l(2) by simp
      then show ?thesis using c rest by auto
    qed
  qed
qed simp

text \<open>
  C30: a container path never leads out of the mapped host directories. Whatever
  path an adapter names, if it maps at all it maps to a clean host path made of
  one pair's host directory and the segments the path has below that pair's
  container directory, none of which is \<^verbatim>\<open>..\<close>.
\<close>

theorem to_local_stays_inside:
  assumes "NewPathMap F pairs = Inr m" "fs_clean F" "ToLocal m remote = Some l"
  shows "\<exists>p\<in>set (pm_pairs m). \<exists>rest. list_all seg_ok rest
    \<and> Clean remote = abs_path (path_segs (pp_remote p) @ rest)
    \<and> l = abs_path (path_segs (pp_local p) @ rest)"
proof -
  have m: "map_ok m" using NewPathMap_ok assms(1,2) by blast
  have "IsAbs remote" "to_local_loop (pm_byRemote m) (Clean remote) = Some l"
    using assms(3) by (auto simp: ToLocal_def split: if_splits)
  then obtain c where c: "list_all seg_ok c" "Clean remote = abs_path c"
    using clean_abs_Clean clean_absE by metis
  have "list_all pair_ok (pm_byRemote m)" using m by (auto simp: map_ok_def list_all_iff)
  from to_local_spec[OF this c(1)] obtain p rest where "p \<in> set (pm_byRemote m)" "list_all seg_ok rest"
      "c = path_segs (pp_remote p) @ rest" "l = abs_path (path_segs (pp_local p) @ rest)"
    using \<open>to_local_loop (pm_byRemote m) (Clean remote) = Some l\<close> c(2) by auto
  then show ?thesis using m c(2) by (auto simp: map_ok_def)
qed

lemma to_remote_spec:
  assumes "list_all pair_ok ps" "list_all seg_ok h" "to_remote_loop ps (abs_path h) = Some r"
  shows "\<exists>p\<in>set ps. \<exists>rest. list_all seg_ok rest \<and> h = path_segs (pp_local p) @ rest
    \<and> r = abs_path (path_segs (pp_remote p) @ rest)
    \<and> (rest \<noteq> [] \<longrightarrow> localRel (join_with [SL] rest) = Some (join_with [SL] rest))"
  using assms(1,3)
proof (induction ps)
  case (Cons p ps)
  let ?r = "path_segs (pp_remote p)" and ?l = "path_segs (pp_local p)"
  have r: "list_all seg_ok ?r" "abs_path ?r = pp_remote p" and l: "list_all seg_ok ?l" "abs_path ?l = pp_local p"
    using Cons.prems(1) clean_absE by (auto simp: pair_ok_def)
  note R = Rel_abs[OF l(1) assms(2), unfolded l(2)]
  show ?case
  proof (cases "prefix ?l h")
    case False
    then show ?thesis using Cons R(2) by auto
  next
    case True
    then obtain rest where h: "h = ?l @ rest" by (auto simp: prefix_def)
    then have rest: "list_all seg_ok rest" using assms(2) by simp
    show ?thesis
    proof (cases "rest = []")
      case True
      then have "r = pp_remote p" using Cons.prems(2) R(1) h by (simp add: escapes_def IsAbs_def)
      then show ?thesis using h True r(2) by auto
    next
      case ne: False
      then have "localRel (join_with [SL] rest) \<noteq> None" "r = Join2 (pp_remote p) (join_with [SL] rest)"
        using Cons.prems(2) R(1) h join_not_escapes[OF rest ne] by (auto split: if_splits)
      then have "r = abs_path (?r @ rest)" "localRel (join_with [SL] rest) = Some (join_with [SL] rest)"
        using Join2_abs[OF r(1) rest ne] r(2) by (auto elim: localRel_cases)
      then show ?thesis using h rest by auto
    qed
  qed
qed simp

lemma plainText_join:
  "plainText a \<Longrightarrow> plainText b \<Longrightarrow> plainText (a @ b)"
  by (simp add: plainText_def valid_utf8_append chunks_append runes_def)

lemma plainText_abs_append:
  assumes "plainText (abs_path a)" "plainText (join_with [SL] ws)" "ws \<noteq> []"
  shows "plainText (abs_path (a @ ws))"
proof -
  have "plainText [SL]" by (simp add: plainText_def valid_utf8_def runes_def chunks_ascii IsControl_def)
  then have "plainText ([SL] @ join_with [SL] ws)" using assms(2) by (rule plainText_join)
  then show ?thesis using assms(1) plainText_join abs_path_append[OF assms(3), of a] by (cases "a = []") auto
qed

text \<open>No container directory of the map lies inside another one.\<close>

definition remotes_apart :: "path_map \<Rightarrow> bool" where
  "remotes_apart m = list_all (\<lambda>p. list_all (\<lambda>q. under (pp_remote p) (pp_remote q) = None \<or> p = q) (pm_pairs m)) (pm_pairs m)"

lemma to_local_only:
  assumes ps: "list_all pair_ok ps" and p: "p \<in> set ps"
    and apart: "\<forall>q\<in>set ps. prefix (path_segs (pp_remote q)) (path_segs (pp_remote p) @ rest) \<longrightarrow> q = p"
    and rest: "list_all seg_ok rest" "rest \<noteq> [] \<longrightarrow> localRel (join_with [SL] rest) = Some (join_with [SL] rest)"
  shows "to_local_loop ps (abs_path (path_segs (pp_remote p) @ rest)) = Some (abs_path (path_segs (pp_local p) @ rest))"
  using ps p apart
proof (induction ps)
  case (Cons q ps)
  let ?c = "path_segs (pp_remote p) @ rest"
  have "pair_ok p" using Cons.prems(1,2) by (auto simp: list_all_iff)
  then have pr: "list_all seg_ok (path_segs (pp_remote p))" "abs_path (path_segs (pp_remote p)) = pp_remote p"
    and pl: "list_all seg_ok (path_segs (pp_local p))" "abs_path (path_segs (pp_local p)) = pp_local p"
    using clean_absE by (auto simp: pair_ok_def)
  have c: "list_all seg_ok ?c" using pr rest by simp
  have q: "list_all seg_ok (path_segs (pp_remote q))" "abs_path (path_segs (pp_remote q)) = pp_remote q"
    using Cons.prems(1) clean_absE by (auto simp: pair_ok_def)
  note u = under_abs[OF q(1) c, unfolded q(2)]
  show ?case
  proof (cases "prefix (path_segs (pp_remote q)) ?c")
    case False
    then have "q \<noteq> p" by auto
    then show ?thesis using Cons u False by simp
  next
    case True
    then have q: "q = p" using Cons.prems(3) by simp
    show ?thesis
    proof (cases "rest = []")
      case False
      then show ?thesis
        using u True q rest join_not_escapes(3)[OF rest(1) False] Join2_abs[OF pl(1) rest(1) False]
          within_abs_append[OF pl(1) rest(1)] pl(2)
        by (simp add: Let_def)
    qed (use u True q pl(2) in simp)
  qed
qed simp

text \<open>
  A host path that maps into the container maps back to itself, for a map
  whose container directories do not lie inside one another: a breakpoint's file
  sent to the adapter is recognised when a stop names it.
\<close>

theorem host_path_roundtrip:
  assumes "NewPathMap F pairs = Inr m" "fs_clean F" "remotes_apart m"
    and "clean_abs host" "ToRemote m host = Some r"
  shows "ToLocal m r = Some host"
proof -
  have m: "map_ok m" using NewPathMap_ok assms(1,2) by blast
  let ?h = "path_segs host"
  have h: "list_all seg_ok ?h" "abs_path ?h = host" using clean_absE[OF assms(4)] by auto
  have ps: "list_all pair_ok (pm_byLocal m)" "list_all pair_ok (pm_byRemote m)"
    using m by (auto simp: map_ok_def list_all_iff)
  obtain p rest where p: "p \<in> set (pm_pairs m)" and rest: "list_all seg_ok rest" "?h = path_segs (pp_local p) @ rest"
      "r = abs_path (path_segs (pp_remote p) @ rest)"
      "rest \<noteq> [] \<longrightarrow> localRel (join_with [SL] rest) = Some (join_with [SL] rest)"
    using to_remote_spec[OF ps(1) h(1)] assms(5) h(2) m by (auto simp: ToRemote_def map_ok_def)
  have ok: "pair_ok p" using m p by (auto simp: map_ok_def)
  then have pr: "list_all seg_ok (path_segs (pp_remote p))" "abs_path (path_segs (pp_remote p)) = pp_remote p"
    using clean_absE by (auto simp: pair_ok_def)
  have segs: "list_all seg_ok (path_segs (pp_remote p) @ rest)" using pr rest(1) by simp
  have apart: "q = p" if q: "q \<in> set (pm_pairs m)" "prefix (path_segs (pp_remote q)) (path_segs (pp_remote p) @ rest)" for q
  proof -
    have "pair_ok q" using m q by (auto simp: map_ok_def)
    then have qr: "list_all seg_ok (path_segs (pp_remote q))" "abs_path (path_segs (pp_remote q)) = pp_remote q"
      using clean_absE by (auto simp: pair_ok_def)
    have "prefix (path_segs (pp_remote q)) (path_segs (pp_remote p)) \<or> prefix (path_segs (pp_remote p)) (path_segs (pp_remote q))"
      using q(2) prefix_same_cases[of _ "path_segs (pp_remote p) @ rest"] by auto
    then have "under (pp_remote q) (pp_remote p) \<noteq> None \<or> under (pp_remote p) (pp_remote q) \<noteq> None"
      using under_abs[OF qr(1) pr(1)] under_abs[OF pr(1) qr(1)] pr(2) qr(2) by auto
    then show ?thesis using assms(3) p q(1) unfolding remotes_apart_def list_all_iff by metis
  qed
  have "plainText r"
    using rest ok pr(2) plainText_abs_append[of "path_segs (pp_remote p)" rest]
    by (cases "rest = []") (auto simp: pair_ok_def elim!: localRel_cases)
  moreover have "\<not> hasDotDot r" "Clean r = r" "IsAbs r"
    using segs rest(3) by (auto simp: hasDotDot_def split_abs Clean_abs seg_ok_def list_all_iff)
  ultimately show ?thesis
    using to_local_only[OF ps(2) _ _ rest(1,4)] p apart m rest(2,3) h(2) by (auto simp: ToLocal_def map_ok_def)
qed

text \<open>A small concrete file system and map.\<close>

definition demo_fs :: fs where
  "demo_fs = \<lparr>fs_EvalSymlinks = (\<lambda>p. Some (Clean p)), fs_Stat = (\<lambda>p. Some \<lparr>fi_id = length p, fi_IsDir = True, fi_ModTime = 0, fi_Size = 0\<rparr>),
    fs_ReadFile = (\<lambda>_. None), fs_ErrText = (\<lambda>_. [])\<rparr>"

lemma demo_fs_clean: "fs_clean demo_fs"
  by (simp add: fs_clean_def demo_fs_def clean_abs_Clean)

definition demo_pair :: path_pair where
  "demo_pair = \<lparr>pp_remote = ''/src'', pp_local = ''/home/a''\<rparr>"

definition demo_map :: path_map where
  "demo_map = \<lparr>pm_pairs = [demo_pair], pm_byLocal = [demo_pair], pm_byRemote = [demo_pair]\<rparr>"

lemmas path_eval = Clean_def IsAbs_def plainText_def valid_utf8_def runes_def chunks_ascii IsControl_def

lemma demo_map_ok: "NewPathMap demo_fs [demo_pair] = Inr demo_map"
  by (simp add: NewPathMap_def checkRemoteRoot_def checkLocalRoot_def demo_fs_def demo_map_def demo_pair_def Let_def path_eval)

lemma demo_map_paths:
  "ToLocal demo_map ''/src/x.cs'' = Some ''/home/a/x.cs''" "ToRemote demo_map ''/home/a/x.cs'' = Some ''/src/x.cs''"
  by (simp_all add: ToLocal_def ToRemote_def demo_map_def demo_pair_def hasDotDot_def under_def localRel_def Localize_def
      ValidPath_def IsLocal_def Join2_def within_def Rel_def path_segs_def escapes_def path_eval)

theorem to_local_stays_inside_witness:
  "\<exists>p\<in>set (pm_pairs demo_map). \<exists>rest. list_all seg_ok rest
    \<and> Clean ''/src/x.cs'' = abs_path (path_segs (pp_remote p) @ rest)
    \<and> ''/home/a/x.cs'' = abs_path (path_segs (pp_local p) @ rest)"
  by (rule to_local_stays_inside[OF demo_map_ok demo_fs_clean demo_map_paths(1)])

theorem host_path_roundtrip_witness: "ToLocal demo_map ''/src/x.cs'' = Some ''/home/a/x.cs''"
  by (rule host_path_roundtrip[OF demo_map_ok demo_fs_clean _ _ demo_map_paths(2)])
    (simp_all add: remotes_apart_def demo_map_def clean_abs_def path_eval)

end
