(* ===== verification/Hit_Log.thy ===== *)
theory Hit_Log
  imports Api_Types
begin

text \<open>
  Hit conditions and logpoint messages: the parsers of
  \<^verbatim>\<open>internal/session/emulate.go\<close> (\<^verbatim>\<open>parseHit\<close>, \<^verbatim>\<open>parseLog\<close>) and \<^verbatim>\<open>parseEmulated\<close> of
  \<^verbatim>\<open>breakpoints.go\<close>, with printers for the two languages and the proofs that
  parsing reads back what they print.
\<close>

section \<open>Hit conditions\<close>

record hit_condition =
  hc_op :: string
  hc_n :: int

definition hit_error :: "string \<Rightarrow> error" where
  "hit_error s = NewError CodeInvalidRequest [Lit ''invalid hit count '', Quoted s]"

definition parseHit :: "string \<Rightarrow> hit_condition result" where
  "parseHit s =
    (let text = TrimSpace s;
         (opn, body) = (if prefix ''>='' text then (''>='', TrimSpace (drop 2 text))
                        else if prefix ''%'' text then (''%'', TrimSpace (drop 1 text))
                        else (''=='', text))
     in case Atoi body of
          None \<Rightarrow> Inl (hit_error s)
        | Some n \<Rightarrow> if n < 1 then Inl (hit_error s) else Inr \<lparr>hc_op = opn, hc_n = n\<rparr>)"

definition hit_holds :: "hit_condition \<Rightarrow> int \<Rightarrow> bool" where
  "hit_holds h count =
    (if hc_op h = ''>='' then count \<ge> hc_n h
     else if hc_op h = ''%'' then count mod hc_n h = 0
     else count = hc_n h)"

section \<open>Log messages\<close>

abbreviation maxLogExprs :: nat where "maxLogExprs \<equiv> 10"
abbreviation maxLogValue :: nat where "maxLogValue \<equiv> 200"
abbreviation maxLogMessage :: nat where "maxLogMessage \<equiv> 1000"

text \<open>A part is literal text or, with the expression set, an expression to evaluate.\<close>

record log_part =
  lp_text :: string
  lp_expr :: string

abbreviation text_part :: "string \<Rightarrow> log_part" where "text_part t \<equiv> \<lparr>lp_text = t, lp_expr = []\<rparr>"
abbreviation expr_part :: "string \<Rightarrow> log_part" where "expr_part e \<equiv> \<lparr>lp_text = [], lp_expr = e\<rparr>"

abbreviation LB :: char where "LB \<equiv> CHR ''{''"
abbreviation RB :: char where "RB \<equiv> CHR ''}''"

definition logError :: "string \<Rightarrow> string \<Rightarrow> error" where
  "logError msg why = NewError CodeInvalidRequest [Lit ''invalid log message '', Quoted msg, Lit ('': '' @ why)]"

definition flush_text :: "log_part list \<Rightarrow> string \<Rightarrow> log_part list" where
  "flush_text parts text = (if text = [] then parts else parts @ [text_part text])"

lemma cut_at_length: "cut_at d s = (b, a, f) \<Longrightarrow> length a \<le> length s"
  using cut_at_cases[of d s b a f] by (auto split: if_splits)

text \<open>
  The loop of \<^verbatim>\<open>parseLog\<close> on the bytes that are left: the parts so far, the text
  being collected and the number of expressions.
\<close>

function (sequential) parseLog_loop ::
  "string \<Rightarrow> string \<Rightarrow> log_part list \<Rightarrow> string \<Rightarrow> nat \<Rightarrow> log_part list result" where
  "parseLog_loop msg [] parts buf exprs = Inr (flush_text parts buf)"
| "parseLog_loop msg (c # rest) parts buf exprs =
    (if (c = LB \<or> c = RB) \<and> rest \<noteq> [] \<and> hd rest = c
     then parseLog_loop msg (tl rest) parts (buf @ [c]) exprs
     else if c = RB then Inl (logError msg ''a } has no {'')
     else if c = LB then
       (case cut_at RB rest of
          (_, _, False) \<Rightarrow> Inl (logError msg ''a { is not closed'')
        | (body, rest', True) \<Rightarrow>
            let expr = TrimSpace body in
            if expr = [] then Inl (logError msg ''{} has no expression'')
            else if exprs + 1 > maxLogExprs then Inl (logError msg ''more than 10 {expressions}'')
            else parseLog_loop msg rest' (flush_text parts buf @ [expr_part expr]) [] (exprs + 1))
     else parseLog_loop msg rest parts (buf @ [c]) exprs)"
  by pat_completeness auto
termination
  by (relation "measure (\<lambda>(msg, rest, _). length rest)") (auto dest: sym[THEN cut_at_length] cut_at_length)

definition parseLog :: "string \<Rightarrow> log_part list result" where
  "parseLog msg =
    (if TrimSpace msg = [] then Inl (logError msg ''the message is empty'')
     else parseLog_loop msg msg [] [] 0)"

text \<open>\<^verbatim>\<open>parseEmulated\<close>: both, each only when set.\<close>

definition parseEmulated :: "breakpoint_spec \<Rightarrow> (hit_condition option \<times> log_part list) result" where
  "parseEmulated spec =
    (case (if bs_HitCondition spec \<noteq> [] then map_sum id Some (parseHit (bs_HitCondition spec)) else Inr None) of
       Inl e \<Rightarrow> Inl e
     | Inr hit \<Rightarrow>
       (case (if bs_LogMessage spec \<noteq> [] then parseLog (bs_LogMessage spec) else Inr []) of
          Inl e \<Rightarrow> Inl e
        | Inr logs \<Rightarrow> Inr (hit, logs)))"

section \<open>Printing and reading back\<close>

definition escape_text :: "string \<Rightarrow> string" where
  "escape_text t = concat (map (\<lambda>c. if c = LB \<or> c = RB then [c, c] else [c]) t)"

definition print_part :: "log_part \<Rightarrow> string" where
  "print_part p = (if lp_expr p = [] then escape_text (lp_text p) else LB # lp_expr p @ [RB])"

definition print_log :: "log_part list \<Rightarrow> string" where
  "print_log ps = concat (map print_part ps)"

text \<open>
  The parts a message can have: no two texts in a row, no empty text, and
  expressions that are trimmed, not empty, hold no closing brace and do not
  start with an opening one.
\<close>

definition text_wf :: "log_part \<Rightarrow> bool" where
  "text_wf p \<longleftrightarrow> lp_expr p = [] \<and> lp_text p \<noteq> []"

definition expr_wf :: "log_part \<Rightarrow> bool" where
  "expr_wf p \<longleftrightarrow> lp_text p = [] \<and> lp_expr p \<noteq> [] \<and> RB \<notin> set (lp_expr p) \<and> hd (lp_expr p) \<noteq> LB
    \<and> TrimSpace (lp_expr p) = lp_expr p"

fun parts_wf :: "log_part list \<Rightarrow> bool" where
  "parts_wf [] = True"
| "parts_wf (p # ps) =
    (if text_wf p then parts_wf ps \<and> (ps = [] \<or> expr_wf (hd ps)) else expr_wf p \<and> parts_wf ps)"

definition count_exprs :: "log_part list \<Rightarrow> nat" where
  "count_exprs ps = length (filter (\<lambda>p. lp_expr p \<noteq> []) ps)"

lemma loop_escaped:
  "parseLog_loop msg (escape_text t @ rest) parts buf n = parseLog_loop msg rest parts (buf @ t) n"
  by (induction t arbitrary: buf) (auto simp: escape_text_def)

lemma loop_expr:
  assumes "expr_wf p" "n < maxLogExprs"
  shows "parseLog_loop msg (print_part p @ rest) parts buf n
    = parseLog_loop msg rest (flush_text parts buf @ [p]) [] (Suc n)"
proof -
  obtain c e where e: "lp_expr p = c # e" using assms(1) by (cases "lp_expr p") (auto simp: expr_wf_def)
  then have "c \<noteq> LB" "c \<noteq> RB" "RB \<notin> set (c # e)" "TrimSpace (c # e) = c # e"
    using assms(1) by (auto simp: expr_wf_def)
  moreover from this have "cut_at RB (c # e @ RB # rest) = (c # e, rest, True)"
    using cut_at_found[of RB "c # e" rest] by simp
  moreover have "p = expr_part (c # e)"
    using assms(1) e by (intro log_part.equality) (auto simp: expr_wf_def)
  ultimately show ?thesis using assms(2) e by (simp add: print_part_def del: cut_at.simps)
qed

lemma loop_parts:
  "parts_wf ps \<Longrightarrow> n + count_exprs ps \<le> maxLogExprs \<Longrightarrow> buf = [] \<or> ps = [] \<or> expr_wf (hd ps) \<Longrightarrow>
    parseLog_loop msg (print_log ps) parts buf n = Inr (flush_text parts buf @ ps)"
proof (induction ps arbitrary: parts buf n)
  case (Cons p ps)
  show ?case
  proof (cases "text_wf p")
    case True
    then have "\<not> expr_wf p" "p = text_part (lp_text p)" by (auto simp: text_wf_def expr_wf_def)
    moreover have "parseLog_loop msg (print_log (p # ps)) parts buf n
        = parseLog_loop msg (print_log ps) parts (buf @ lp_text p) n"
      using True loop_escaped by (simp add: print_log_def print_part_def text_wf_def)
    moreover have "count_exprs (p # ps) = count_exprs ps" using True by (simp add: count_exprs_def text_wf_def)
    ultimately show ?thesis
      using Cons.IH[of n "buf @ lp_text p" parts] Cons.prems True by (auto simp: flush_text_def text_wf_def)
  next
    case False
    then have wf: "expr_wf p" "parts_wf ps" "count_exprs (p # ps) = Suc (count_exprs ps)"
      using Cons.prems(1) by (auto simp: count_exprs_def expr_wf_def)
    then show ?thesis
      using Cons.IH[of "Suc n" "[]" "flush_text parts buf @ [p]"] Cons.prems(2) loop_expr[OF wf(1)]
      by (simp add: print_log_def flush_text_def)
  qed
qed (simp add: print_log_def)

text \<open>
  a log message prints and parses back. Any sequence of at most ten
  expressions and the literal texts between them, written with braces doubled in
  the texts, is read back as exactly those parts unless it is all white space.
\<close>

theorem log_message_roundtrip:
  assumes "parts_wf ps" "count_exprs ps \<le> maxLogExprs" "TrimSpace (print_log ps) \<noteq> []"
  shows "parseLog (print_log ps) = Inr ps"
  using loop_parts[OF assms(1), of 0 "[]" "print_log ps" "[]"] assms
  by (simp add: parseLog_def flush_text_def)

theorem log_message_roundtrip_witness:
  "parseLog (print_log [text_part ''i={'', expr_part ''i''])
    = Inr [text_part ''i={'', expr_part ''i'']"
  by (rule log_message_roundtrip)
    (simp_all add: text_wf_def expr_wf_def count_exprs_def print_log_def print_part_def escape_text_def
      TrimSpace_def trim_runes_def chunks_ascii IsSpace_def)

lemma loop_sound:
  assumes "parseLog_loop msg rest parts buf n = Inr ps" "n = count_exprs parts" "n \<le> maxLogExprs"
    "list_all (\<lambda>p. (lp_text p = []) \<noteq> (lp_expr p = [])) parts"
  shows "count_exprs ps \<le> maxLogExprs \<and> list_all (\<lambda>p. (lp_text p = []) \<noteq> (lp_expr p = [])) ps"
  using assms
proof (induction msg rest parts buf n rule: parseLog_loop.induct)
  case (1 msg parts buf n)
  then show ?case by (auto simp: flush_text_def count_exprs_def)
next
  case (2 msg c rest parts buf n)
  show ?case
  proof (cases "c = LB \<and> \<not> (rest \<noteq> [] \<and> hd rest = c)")
    case False
    then show ?thesis using 2 by (auto split: if_splits)
  next
    case True
    obtain b a f where cut: "cut_at RB rest = (b, a, f)" by (metis prod_cases3)
    then have f: "f" "TrimSpace b \<noteq> []" "Suc n \<le> maxLogExprs"
      "parseLog_loop msg a (flush_text parts buf @ [expr_part (TrimSpace b)]) [] (n + 1) = Inr ps"
      using 2(4) True by (auto simp: Let_def split: if_splits bool.splits)
    have "count_exprs (flush_text parts buf @ [expr_part (TrimSpace b)]) = Suc (count_exprs parts)"
        "list_all (\<lambda>p. (lp_text p = []) \<noteq> (lp_expr p = [])) (flush_text parts buf @ [expr_part (TrimSpace b)])"
      using 2(7) f(2) by (auto simp: flush_text_def count_exprs_def)
    then show ?thesis using 2(2)[OF _ _ _ cut[symmetric] refl, of "TrimSpace b"] True f 2(5) cut by auto
  qed
qed

text \<open>
  What a parsed log message costs. A message that is accepted has at most ten
  expressions to evaluate, and each of its parts is either literal text or an
  expression, never both and never neither.
\<close>

theorem log_message_bounds:
  assumes "parseLog msg = Inr ps"
  shows "count_exprs ps \<le> maxLogExprs \<and> list_all (\<lambda>p. (lp_text p = []) \<noteq> (lp_expr p = [])) ps"
  using loop_sound[of msg msg "[]" "[]" 0 ps] assms
  by (simp add: parseLog_def count_exprs_def split: if_splits)

theorem log_message_bounds_witness:
  "count_exprs [text_part ''i='', expr_part ''i''] \<le> maxLogExprs
    \<and> list_all (\<lambda>p. (lp_text p = []) \<noteq> (lp_expr p = [])) [text_part ''i='', expr_part ''i'']"
  by (rule log_message_bounds[of "''i={ i }''"])
    (simp add: parseLog_def flush_text_def TrimSpace_def trim_runes_def chunks_ascii IsSpace_def)

section \<open>Hit conditions read back\<close>

lemma chunks_all_ascii: "list_all (\<lambda>c. byte c < 128) s \<Longrightarrow> chunks s = map (\<lambda>c. (byte c, [c])) s"
  by (induction s) (simp_all add: chunks_ascii)

lemma TrimSpace_plain:
  assumes "list_all (\<lambda>c. byte c < 128 \<and> \<not> IsSpace (byte c)) s"
  shows "TrimSpace s = s"
proof -
  have "list_all (\<lambda>c. byte c < 128) s" using assms by (auto simp: list_all_iff)
  note c = chunks_all_ascii[OF this]
  have "trim_runes IsSpace (map (\<lambda>c. (byte c, [c])) s) = map (\<lambda>c. (byte c, [c])) s"
    using assms by (intro trim_runes_id) (cases "s = []"; auto simp: list_all_iff hd_map last_map)
  then show ?thesis by (simp add: TrimSpace_def c comp_def)
qed

definition print_hit :: "hit_condition \<Rightarrow> string" where
  "print_hit h = (if hc_op h = ''=='' then [] else hc_op h) @ itoa (hc_n h)"

definition hit_wf :: "hit_condition \<Rightarrow> bool" where
  "hit_wf h \<longleftrightarrow> hc_op h \<in> {''=='', ''>='', ''%''} \<and> 1 \<le> hc_n h \<and> hc_n h < 2 ^ 63"

lemma digit_plain: "is_digit c \<Longrightarrow> byte c < 128 \<and> \<not> IsSpace (byte c)"
  by (auto simp: is_digit_def IsSpace_def)

lemma nat_dec_plain: "list_all (\<lambda>c. byte c < 128 \<and> \<not> IsSpace (byte c)) (nat_dec n)"
  using nat_dec_digits[of n] by (auto simp: list_all_iff digit_plain)

lemma nat_dec_hd: "\<not> prefix ''>='' (nat_dec n)" "\<not> prefix ''%'' (nat_dec n)"
proof -
  obtain c t where ct: "nat_dec n = c # t" by (meson neq_Nil_conv nat_dec_nonempty)
  then have "is_digit c" using nat_dec_digits[of n] by simp
  then show "\<not> prefix ''>='' (nat_dec n)" "\<not> prefix ''%'' (nat_dec n)" using ct by (auto simp: is_digit_def)
qed

lemma parseHit_print:
  assumes "hit_wf h"
  shows "parseHit (print_hit h) = Inr h"
proof -
  have n: "itoa (hc_n h) = nat_dec (nat (hc_n h))" "Atoi (nat_dec (nat (hc_n h))) = Some (hc_n h)"
    using assms Atoi_nat_dec[of "nat (hc_n h)"] by (simp_all add: hit_wf_def itoa_def)
  note plain = TrimSpace_plain[OF nat_dec_plain]
  have "TrimSpace (print_hit h) = print_hit h"
    using assms nat_dec_plain by (intro TrimSpace_plain) (auto simp: print_hit_def hit_wf_def n(1) IsSpace_def)
  moreover consider "hc_op h = ''==''" | "hc_op h = ''>=''" | "hc_op h = ''%''" using assms by (auto simp: hit_wf_def)
  then show ?thesis
  proof cases
    case 1
    then have "h = \<lparr>hc_op = ''=='', hc_n = hc_n h\<rparr>" by simp
    then show ?thesis using 1 calculation n assms nat_dec_hd[of "nat (hc_n h)"]
      by (simp add: parseHit_def print_hit_def hit_wf_def)
  next
    case 2
    then have "h = \<lparr>hc_op = ''>='', hc_n = hc_n h\<rparr>" by simp
    then show ?thesis using 2 calculation n assms plain by (simp add: parseHit_def print_hit_def hit_wf_def)
  next
    case 3
    then have "h = \<lparr>hc_op = ''%'', hc_n = hc_n h\<rparr>" by simp
    then show ?thesis using 3 calculation n assms plain by (simp add: parseHit_def print_hit_def hit_wf_def)
  qed
qed

lemma parseHit_wf: "parseHit s = Inr h \<Longrightarrow> hit_wf h"
  using Atoi_range
  by (fastforce simp: parseHit_def hit_wf_def int64_ok_def Let_def split: option.splits if_splits)

text \<open>
  Hit counts. Every condition the three forms can express, with a count from 1
  to the largest 64-bit integer, is read back from its text, and nothing else is
  ever accepted; so a stored hit condition never divides by zero.
\<close>

theorem hit_condition_language:
  "{h. \<exists>s. parseHit s = Inr h} = {h. hit_wf h}"
  using parseHit_print parseHit_wf by blast

end
