(* ===== verification/Dap_Types.thy ===== *)
theory Dap_Types
  imports Path_Map
begin

text \<open>
  The Debug Adapter Protocol messages the session exchanges with its adapter, as
  far as the code reads and writes them, and the translation of source paths at
  the connection (\<^verbatim>\<open>internal/session/translate.go\<close>). The message types are those of
  the go-dap package; the adapter itself is not modelled, only what it may answer.
\<close>

section \<open>Messages\<close>

datatype source = Source (src_Name: string) (src_Path: string) (src_Sources: "source list")

record dap_breakpoint =
  db_Id :: int
  db_Verified :: bool
  db_Message :: string
  db_Line :: int
  db_Source :: "source option"

record dap_frame =
  df_Id :: int
  df_Name :: string
  df_Line :: int
  df_Column :: int
  df_Source :: "source option"

record dap_scope =
  sc_Name :: string
  sc_VariablesReference :: int
  sc_Expensive :: bool
  sc_PresentationHint :: string
  sc_Source :: "source option"

record dap_variable =
  dv_Name :: string
  dv_Type :: string
  dv_Value :: string
  dv_VariablesReference :: int

text \<open>The capabilities the session looks at; \<open>cap_Filters\<close> are the exception filters' ids.\<close>

record capabilities =
  cap_FunctionBreakpoints :: bool
  cap_ConditionalBreakpoints :: bool
  cap_Filters :: "string list"
  cap_ExceptionInfo :: bool
  cap_SetExpression :: bool
  cap_SetVariable :: bool
  cap_ConfigurationDone :: bool
  cap_LoadedSources :: bool
  cap_Modules :: bool
  cap_BreakpointLocations :: bool
  cap_ReadMemory :: bool
  cap_Disassemble :: bool
  cap_Completions :: bool

definition no_caps :: capabilities where
  "no_caps = \<lparr>cap_FunctionBreakpoints = False, cap_ConditionalBreakpoints = False, cap_Filters = [],
    cap_ExceptionInfo = False, cap_SetExpression = False, cap_SetVariable = False, cap_ConfigurationDone = False,
    cap_LoadedSources = False, cap_Modules = False, cap_BreakpointLocations = False, cap_ReadMemory = False,
    cap_Disassemble = False, cap_Completions = False\<rparr>"

text \<open>
  Requests. \<open>ExecReq\<close> is continue, next, stepIn, stepOut or pause by its command;
  \<open>OtherReq\<close> any other command.
\<close>

datatype dap_request =
    InitializeReq string bool
  | LaunchReq string
  | AttachReq string
  | ConfigurationDoneReq
  | DisconnectReq "bool option"
  | SetBreakpointsReq source "(int \<times> string) list"
  | SetFunctionBreakpointsReq "(string \<times> string) list"
  | SetExceptionBreakpointsReq "string list"
  | ExecReq string int
  | ThreadsReq
  | StackTraceReq int int
  | ScopesReq int
  | VariablesReq int
  | EvaluateReq string int string
  | SetVariableReq int string string
  | SetExpressionReq string string int
  | ExceptionInfoReq int
  | SourceReq "source option"
  | LoadedSourcesReq
  | ModulesReq
  | BreakpointLocationsReq "source option"
  | ReadMemoryReq
  | DisassembleReq
  | CompletionsReq string int
  | GotoTargetsReq source
  | OtherReq string

datatype dap_response =
    InitializeResp capabilities
  | BreakpointsResp "dap_breakpoint list"
  | StackTraceResp "dap_frame list"
  | ScopesResp "dap_scope list"
  | VariablesResp "dap_variable list"
  | EvaluateResp string string int
  | SetVariableResp string string
  | SetExpressionResp string string
  | ThreadsResp "int list"
  | LoadedSourcesResp "source list"
  | DisassembleResp "source option list"
  | OtherResp

datatype dap_event =
    InitializedEvent
  | StoppedEvent string int string string bool
  | ContinuedEvent int
  | ExitedEvent int
  | ThreadEvent string int
  | TerminatedEvent
  | ProcessEvent int
  | OutputEvent string string "source option"
  | BreakpointEvent dap_breakpoint
  | LoadedSourceEvent source
  | OtherEvent

text \<open>How a request fails: the adapter refused it, the connection closed, or any other error (the context ended, the answer is of another type).\<close>

datatype dap_error = RequestError string | ErrClosed | CtxError string

definition adapterErr :: "dap_error \<Rightarrow> error" where
  "adapterErr e = (case e of
     RequestError m \<Rightarrow> NewError CodeAdapterFailed [Lit m]
   | ErrClosed \<Rightarrow> NewError CodeSessionExited [Lit ''the debug adapter has exited'']
   | CtxError m \<Rightarrow> PlainError [Lit m])"

section \<open>Path translation\<close>

fun walkSource :: "(string \<Rightarrow> string option) \<Rightarrow> source \<Rightarrow> source" where
  "walkSource conv (Source name p subs) =
    Source name (if p \<noteq> [] then (case conv p of Some q \<Rightarrow> q | None \<Rightarrow> p) else p)
      (map (walkSource conv) subs)"

definition Outgoing :: "path_map \<Rightarrow> dap_request \<Rightarrow> dap_request" where
  "Outgoing m req = (case req of
     SetBreakpointsReq src bps \<Rightarrow> SetBreakpointsReq (walkSource (ToRemote m) src) bps
   | BreakpointLocationsReq src \<Rightarrow> BreakpointLocationsReq (map_option (walkSource (ToRemote m)) src)
   | GotoTargetsReq src \<Rightarrow> GotoTargetsReq (walkSource (ToRemote m) src)
   | SourceReq src \<Rightarrow> SourceReq (map_option (walkSource (ToRemote m)) src)
   | _ \<Rightarrow> req)"

definition in_source :: "path_map \<Rightarrow> source option \<Rightarrow> source option" where
  "in_source m = map_option (walkSource (ToLocal m))"

definition Incoming_resp :: "path_map \<Rightarrow> dap_response \<Rightarrow> dap_response" where
  "Incoming_resp m resp = (case resp of
     BreakpointsResp bps \<Rightarrow> BreakpointsResp (map (\<lambda>b. b\<lparr>db_Source := in_source m (db_Source b)\<rparr>) bps)
   | StackTraceResp fs \<Rightarrow> StackTraceResp (map (\<lambda>f. f\<lparr>df_Source := in_source m (df_Source f)\<rparr>) fs)
   | ScopesResp scs \<Rightarrow> ScopesResp (map (\<lambda>c. c\<lparr>sc_Source := in_source m (sc_Source c)\<rparr>) scs)
   | LoadedSourcesResp srcs \<Rightarrow> LoadedSourcesResp (map (walkSource (ToLocal m)) srcs)
   | DisassembleResp locs \<Rightarrow> DisassembleResp (map (in_source m) locs)
   | _ \<Rightarrow> resp)"

definition Incoming_event :: "path_map \<Rightarrow> dap_event \<Rightarrow> dap_event" where
  "Incoming_event m ev = (case ev of
     BreakpointEvent b \<Rightarrow> BreakpointEvent (b\<lparr>db_Source := in_source m (db_Source b)\<rparr>)
   | LoadedSourceEvent src \<Rightarrow> LoadedSourceEvent (walkSource (ToLocal m) src)
   | OutputEvent c t src \<Rightarrow> OutputEvent c t (in_source m src)
   | _ \<Rightarrow> ev)"

end
