(* ===== verification/Session_State.thy ===== *)
theory Session_State
  imports Event_Log Hit_Log Dap_Types Present
begin

text \<open>
  The state of a session (\<^verbatim>\<open>type Session\<close> in \<^verbatim>\<open>internal/session/session.go\<close>) and the
  small operations every other component uses: the event log of the session, the
  client list (\<^verbatim>\<open>clients.go\<close>), output, state changes and the state error.

  A pointer to a breakpoint is its id, which the session never reuses; the map
  from files to breakpoints is an association list whose order stands for Go's
  iteration order. Goroutines that a handler starts and that wait for a lock are
  recorded in the state: the stop filters (\<open>s_filters\<close>) and the adapter shutdowns
  (\<open>s_shutdowns\<close>). The requests written to the adapter are \<open>s_sent\<close>. Channels that are closed to wake waiters are counted
  (\<open>s_changed\<close>). The clock is read as the argument \<open>now\<close> of each operation.
\<close>

section \<open>Types\<close>

record lease =
  le_policy :: lease_policy
  le_holder :: client
  le_since :: time
  le_requests :: "lease_request list"

record breakpoint = api_breakpoint +
  b_adapterID :: int
  b_source :: string
  b_hit :: "hit_condition option"
  b_log :: "log_part list"

definition api_of :: "breakpoint \<Rightarrow> api_breakpoint" where
  "api_of b = api_breakpoint.truncate b"

record presence =
  pr_conns :: int
  pr_gen :: int
  pr_excSet :: bool

record container_info =
  co_ID :: string
  co_Name :: string
  co_Service :: string
  co_Project :: string
  co_PID :: int
  co_Launched :: bool

record stop_capture =
  cp_stops :: int
  cp_frame :: api_frame
  cp_locals :: "var list"
  cp_more :: int

type_synonym bp_map = "(string \<times> breakpoint list) list"

record session =
  s_ID :: string
  s_Lang :: string
  s_Program :: string
  s_CreatedAt :: time
  s_mode :: string
  s_run :: bool
  s_client :: bool
  s_sent :: "dap_request list"
  s_starter :: client
  s_initialized :: bool
  s_log :: event_log
  s_recPath :: string
  s_state :: session_state
  s_stops :: int
  s_stop :: stop_info
  s_pid :: int
  s_stoppedAt :: time
  s_exitCode :: "int option"
  s_endReason :: string
  s_bps :: bp_map
  s_nextBP :: int
  s_lease :: lease
  s_clients :: "client_info list"
  s_resumedAt :: int
  s_presence :: "(string \<times> presence) list"
  s_connGen :: int
  s_lastOutput :: int
  s_execInFlight :: bool
  s_stopping :: string
  s_stopReason :: string
  s_changed :: nat
  s_ended :: bool
  s_caps :: capabilities
  s_capsKnown :: bool
  s_excFilters :: "(exception_mode \<times> string list) list"
  s_pathMap :: "path_map option"
  s_group :: string
  s_container :: "container_info option"
  s_claimKey :: string
  s_excModes :: "client_exception_mode list"
  s_adapter :: string
  s_pauseUnsupported :: string
  s_setByEval :: bool
  s_exitCodeUnknown :: string
  s_programExited :: bool
  s_curStale :: bool
  s_stopGen :: int
  s_stepping :: bool
  s_pauseRequested :: bool
  s_cur :: "stop_capture option"
  s_prev :: "stop_capture option"
  s_filters :: "(int \<times> stop_info) list"
  s_shutdowns :: "bool list"

abbreviation ModeAttach :: string where "ModeAttach \<equiv> ''attach''"
abbreviation ModeTest :: string where "ModeTest \<equiv> ''test''"
abbreviation maxOutputChunk :: nat where "maxOutputChunk \<equiv> 64 * 2 ^ 10"

section \<open>A new session\<close>

text \<open>The part of a driver's \<^verbatim>\<open>Launch\<close> the session keeps.\<close>

record launch =
  la_Program :: string
  la_Request :: string
  la_PID :: int
  la_AdapterID :: string
  la_Arguments :: string
  la_ExceptionFilters :: "(exception_mode \<times> string list) list"
  la_AdapterName :: string
  la_PauseUnsupported :: string
  la_SetByEval :: bool
  la_ExitCodeUnknown :: string
  la_PathMap :: "path_map option"
  la_Container :: "container_info option"

definition hostPID :: "launch \<Rightarrow> int" where
  "hostPID la = (if la_Container la \<noteq> None then 0 else la_PID la)"

definition newSession :: "time \<Rightarrow> string \<Rightarrow> string \<Rightarrow> string \<Rightarrow> launch \<Rightarrow> client \<Rightarrow> lease_policy \<Rightarrow> session" where
  "newSession now sid lang mode la starter policy = \<lparr>
    s_ID = sid, s_Lang = lang, s_Program = la_Program la, s_CreatedAt = now, s_mode = mode,
    s_run = False, s_client = False, s_sent = [], s_starter = starter, s_initialized = False,
    s_log = newEventLog maxEvents maxEventBytes, s_recPath = [], s_state = StateStarting,
    s_stops = 0, s_stop = no_stop, s_pid = hostPID la, s_stoppedAt = 0, s_exitCode = None,
    s_endReason = [], s_bps = [], s_nextBP = 0,
    s_lease = \<lparr>le_policy = policy, le_holder = starter, le_since = now, le_requests = []\<rparr>,
    s_clients = [\<lparr>ci_client = starter, ci_FirstSeen = now, ci_LastSeen = now, ci_Connected = 0\<rparr>],
    s_resumedAt = 0, s_presence = [], s_connGen = 0, s_lastOutput = 0, s_execInFlight = False,
    s_stopping = [], s_stopReason = [], s_changed = 0, s_ended = False, s_caps = no_caps,
    s_capsKnown = False, s_excFilters = la_ExceptionFilters la, s_pathMap = la_PathMap la,
    s_group = [], s_container = la_Container la, s_claimKey = [], s_excModes = [],
    s_adapter = la_AdapterName la, s_pauseUnsupported = la_PauseUnsupported la,
    s_setByEval = la_SetByEval la, s_exitCodeUnknown = la_ExitCodeUnknown la,
    s_programExited = False, s_curStale = False, s_stopGen = 0, s_stepping = False,
    s_pauseRequested = False, s_cur = None, s_prev = None, s_filters = [], s_shutdowns = []\<rparr>"

section \<open>Shared operations\<close>

definition log_event :: "time \<Rightarrow> event \<Rightarrow> session \<Rightarrow> session" where
  "log_event now e s = s\<lparr>s_log := log_append now e (s_log s)\<rparr>"

definition bump :: "session \<Rightarrow> session" where
  "bump s = s\<lparr>s_changed := s_changed s + 1\<rparr>"

definition setStateLocked :: "session_state \<Rightarrow> session \<Rightarrow> session" where
  "setStateLocked st s = bump (s\<lparr>s_state := st\<rparr>)"

definition setCaps :: "capabilities \<Rightarrow> session \<Rightarrow> session" where
  "setCaps caps s = bump (s\<lparr>s_caps := caps, s_capsKnown := True\<rparr>)"

definition attachRecorder :: "recorder \<Rightarrow> string \<Rightarrow> session \<Rightarrow> session" where
  "attachRecorder r path s = s\<lparr>s_recPath := path, s_log := setSink r (s_log s)\<rparr>"

definition stateError :: "string \<Rightarrow> session_state \<Rightarrow> string \<Rightarrow> error" where
  "stateError sid st what =
    NewError (if st = StateExited then CodeSessionExited
              else if st = StateStopped then CodeNotRunning else CodeNotStopped)
      [Lit (what @ '': session '' @ sid @ '' is '' @ state_name st)]"

definition requireLive :: "string \<Rightarrow> session \<Rightarrow> unit result" where
  "requireLive what s = (if s_state s = StateExited then Inl (stateError (s_ID s) (s_state s) what) else Inr ())"

definition requireStopped :: "session \<Rightarrow> int result" where
  "requireStopped s =
    (if s_state s \<noteq> StateStopped
     then Inl (stateError (s_ID s) (s_state s) ''inspecting needs a stopped program'')
     else Inr (si_ThreadID (s_stop s)))"

definition appendOutputLocked :: "time \<Rightarrow> string \<Rightarrow> string \<Rightarrow> session \<Rightarrow> session" where
  "appendOutputLocked now category txt s =
    (if category = ''telemetry'' \<or> txt = [] then s
     else let cat = (if category = [] then ''console'' else category);
              cut = CutText txt maxOutputChunk False;
              s' = log_event now ((Event EventOutput)\<lparr>ev_Category := cat, ev_Text := cut,
                                    ev_Truncated := length cut < length txt\<rparr>) s
          in s'\<lparr>s_lastOutput := latest (s_log s')\<rparr>)"

text \<open>\<^verbatim>\<open>touchLocked\<close>: the client's last-seen time, or the client and its event.\<close>

fun touch_list :: "time \<Rightarrow> client \<Rightarrow> client_info list \<Rightarrow> client_info list option" where
  "touch_list now c [] = None"
| "touch_list now c (i # is) =
    (if cl_ID (ci_client i) = cl_ID c then Some (i\<lparr>ci_LastSeen := now\<rparr> # is)
     else map_option (\<lambda>js. i # js) (touch_list now c is))"

definition touchLocked :: "time \<Rightarrow> client \<Rightarrow> session \<Rightarrow> session" where
  "touchLocked now c s =
    (case touch_list now c (s_clients s) of
       Some cs \<Rightarrow> s\<lparr>s_clients := cs\<rparr>
     | None \<Rightarrow> log_event now ((Event EventClient)\<lparr>ev_Client := cl_ID c\<rparr>)
         (s\<lparr>s_clients := s_clients s @ [\<lparr>ci_client = c, ci_FirstSeen = now, ci_LastSeen = now, ci_Connected = 0\<rparr>]\<rparr>))"

definition Touch :: "time \<Rightarrow> client \<Rightarrow> session \<Rightarrow> session" where
  "Touch now c s = touchLocked now c s"

section \<open>Frame rules\<close>

text \<open>Logging changes nothing but the log; the rules below let the components' proofs see that by simplification.\<close>

lemma log_event_frame [simp]:
  "s_state (log_event now e s) = s_state s" "s_lease (log_event now e s) = s_lease s"
  "s_bps (log_event now e s) = s_bps s" "s_nextBP (log_event now e s) = s_nextBP s"
  "s_stopGen (log_event now e s) = s_stopGen s" "s_stops (log_event now e s) = s_stops s"
  "s_presence (log_event now e s) = s_presence s" "s_connGen (log_event now e s) = s_connGen s"
  "s_ID (log_event now e s) = s_ID s" "s_clients (log_event now e s) = s_clients s"
  "s_excModes (log_event now e s) = s_excModes s" "s_filters (log_event now e s) = s_filters s"
  "s_execInFlight (log_event now e s) = s_execInFlight s" "s_ended (log_event now e s) = s_ended s"
  "s_stopReason (log_event now e s) = s_stopReason s" "s_stepping (log_event now e s) = s_stepping s"
  "s_pauseRequested (log_event now e s) = s_pauseRequested s" "s_stop (log_event now e s) = s_stop s"
  "s_mode (log_event now e s) = s_mode s" "s_run (log_event now e s) = s_run s"
  "s_pathMap (log_event now e s) = s_pathMap s" "s_sent (log_event now e s) = s_sent s"
  "s_initialized (log_event now e s) = s_initialized s" "s_caps (log_event now e s) = s_caps s"
  "s_capsKnown (log_event now e s) = s_capsKnown s" "s_client (log_event now e s) = s_client s"
  "s_log (log_event now e s) = log_append now e (s_log s)" "s_Lang (log_event now e s) = s_Lang s"
  "s_pauseUnsupported (log_event now e s) = s_pauseUnsupported s" "s_excFilters (log_event now e s) = s_excFilters s"
  "s_shutdowns (log_event now e s) = s_shutdowns s" "s_endReason (log_event now e s) = s_endReason s"
  "s_claimKey (log_event now e s) = s_claimKey s" "s_group (log_event now e s) = s_group s"
  "s_CreatedAt (log_event now e s) = s_CreatedAt s"
  by (simp_all add: log_event_def)

lemma log_append_seq [simp]: "el_seq (log_append now e l) = el_seq l + 1"
  by (simp add: log_append_def Let_def split: prod.splits)

lemma log_append_inv: "log_inv l \<Longrightarrow> log_inv (log_append now e l)"
  using log_append_spec[of l "(now, e)"] by (auto simp: append_at_def)

end
