(* ===== verification/Slots.thy ===== *)
theory Slots
  imports Session_State "HOL-Library.Multiset"
begin

text \<open>
  How the breakpoints of several clients share an adapter's breakpoints
  (\<^verbatim>\<open>internal/session/slots.go\<close>), and when a stop there has to go through the stop
  filter (\<^verbatim>\<open>needsFilterLocked\<close> in \<^verbatim>\<open>emulate.go\<close>). A slot is one line or function as
  sent to the adapter. The locale \<open>merged_condition\<close> is what makes sharing sound:
  whatever the conditions evaluate to, the merged one holds whenever one of them does.
\<close>

section \<open>Slots\<close>

abbreviation funcKey :: string where "funcKey \<equiv> []"

type_synonym slot_key = "string \<times> int"

definition bp_key :: "breakpoint \<Rightarrow> slot_key" where
  "bp_key b = (bp_Function b, bp_RequestedLine b)"

record slot =
  sl_key :: slot_key
  sl_condition :: string
  sl_note :: bool
  sl_bps :: "breakpoint list"

text \<open>The grouping loop: the breakpoint joins the slot of its key, or starts one at the end.\<close>

fun slot_add :: "breakpoint \<Rightarrow> slot list \<Rightarrow> slot list" where
  "slot_add b [] = [\<lparr>sl_key = bp_key b, sl_condition = bp_Condition b, sl_note = False, sl_bps = [b]\<rparr>]"
| "slot_add b (sl # sls) =
    (if sl_key sl = bp_key b then sl\<lparr>sl_bps := sl_bps sl @ [b]\<rparr> # sls else sl # slot_add b sls)"

text \<open>The second loop: the merged condition of a slot, and whether its conditions conflict.\<close>

definition slot_merge :: "slot \<Rightarrow> slot" where
  "slot_merge sl =
    (let unconditional = list_ex (\<lambda>b. bp_Condition b = []) (sl_bps sl);
         differ = list_ex (\<lambda>b. bp_Condition b \<noteq> sl_condition sl) (sl_bps sl)
     in if unconditional then sl\<lparr>sl_condition := []\<rparr>
        else if differ then sl\<lparr>sl_condition := [], sl_note := True\<rparr> else sl)"

definition slotsFor :: "breakpoint list \<Rightarrow> slot list" where
  "slotsFor bs = map slot_merge (foldl (\<lambda>sls b. slot_add b sls) [] bs)"

section \<open>When the stop filter is needed\<close>

definition emulated :: "breakpoint \<Rightarrow> bool" where
  "emulated b = (b_hit b \<noteq> None \<or> b_log b \<noteq> [])"

fun conditionsDiffer :: "breakpoint list \<Rightarrow> (int \<rightharpoonup> string) \<Rightarrow> bool" where
  "conditionsDiffer [] seen = False"
| "conditionsDiffer (b # bs) seen =
    (case seen (bp_Line b) of
       None \<Rightarrow> conditionsDiffer bs (seen(bp_Line b \<mapsto> bp_Condition b))
     | Some c \<Rightarrow> if c \<noteq> bp_Condition b then True else conditionsDiffer bs seen)"

definition needsFilterLocked :: "session \<Rightarrow> bool" where
  "needsFilterLocked s =
    list_ex (\<lambda>(key, bs). key \<noteq> funcKey \<and>
      (list_ex emulated bs \<or> (\<not> length bs < 2 \<and> conditionsDiffer bs Map.empty))) (s_bps s)"

section \<open>Grouping\<close>

definition slot_wf :: "slot \<Rightarrow> bool" where
  "slot_wf sl \<longleftrightarrow> sl_bps sl \<noteq> [] \<and> list_all (\<lambda>b. bp_key b = sl_key sl) (sl_bps sl)
    \<and> sl_condition sl = bp_Condition (hd (sl_bps sl)) \<and> \<not> sl_note sl"

lemma slot_add_keys:
  "map sl_key (slot_add b sls) = (if bp_key b \<in> set (map sl_key sls) then map sl_key sls else map sl_key sls @ [bp_key b])"
  by (induction sls) auto

lemma slot_add_wf: "list_all slot_wf sls \<Longrightarrow> list_all slot_wf (slot_add b sls)"
  by (induction sls) (auto simp: slot_wf_def)

lemma slot_add_mset:
  "mset (concat (map sl_bps (slot_add b sls))) = add_mset b (mset (concat (map sl_bps sls)))"
  by (induction sls) auto

definition grouped :: "breakpoint list \<Rightarrow> slot list" where
  "grouped bs = foldl (\<lambda>sls b. slot_add b sls) [] bs"

lemma grouped_snoc: "grouped (bs @ [b]) = slot_add b (grouped bs)"
  by (simp add: grouped_def)

lemma grouped_spec:
  "list_all slot_wf (grouped bs) \<and> distinct (map sl_key (grouped bs))
    \<and> set (map sl_key (grouped bs)) = set (map bp_key bs) \<and> mset (concat (map sl_bps (grouped bs))) = mset bs"
proof (induction bs rule: rev_induct)
  case (snoc b bs)
  have keys: "map sl_key (slot_add b (grouped bs)) = (if bp_key b \<in> set (map sl_key (grouped bs))
      then map sl_key (grouped bs) else map sl_key (grouped bs) @ [bp_key b])"
    by (rule slot_add_keys)
  show ?case
    unfolding grouped_snoc keys slot_add_mset using snoc slot_add_wf by auto
qed (simp add: grouped_def)

lemma slot_merge_frame [simp]: "sl_key (slot_merge sl) = sl_key sl" "sl_bps (slot_merge sl) = sl_bps sl"
  by (simp_all add: slot_merge_def Let_def)

lemma slotsFor_grouped: "slotsFor bs = map slot_merge (grouped bs)"
  by (simp add: slotsFor_def grouped_def)

section \<open>Merged conditions\<close>

text \<open>
  A way to merge conditions is sound if the merged condition never hides a stop
  one of the parts wants. \<open>holds\<close> says which conditions hold at a stop; the empty
  condition always does.
\<close>

locale merged_condition =
  fixes merge :: "string list \<Rightarrow> string"
  assumes merge_sound: "c \<in> set cs \<Longrightarrow> merge cs = [] \<or> merge cs = c"
begin

lemma never_misses:
  assumes "holds []" "c \<in> set cs" "holds c"
  shows "holds (merge cs)"
  using merge_sound[OF assms(2)] assms(1,3) by auto

lemma exact_if_shared: "set cs = {c} \<Longrightarrow> merge cs \<noteq> [] \<Longrightarrow> holds (merge cs) = holds c"
  using merge_sound[of c cs] by auto

end

text \<open>The merge of \<^const>\<open>slot_merge\<close>, on the conditions alone.\<close>

definition merge_conditions :: "string list \<Rightarrow> string" where
  "merge_conditions cs =
    (if list_ex (\<lambda>c. c = []) cs \<or> list_ex (\<lambda>c. c \<noteq> hd cs) cs then [] else hd cs)"

interpretation slot_cond: merged_condition merge_conditions
  by unfold_locales (auto simp: merge_conditions_def list_ex_iff)

lemma merge_same: "set cs = {c} \<Longrightarrow> merge_conditions cs = c"
  by (cases cs) (auto simp: merge_conditions_def list_ex_iff)

lemma list_ex_map: "list_ex P (map f xs) = list_ex (\<lambda>x. P (f x)) xs"
  by (induction xs) auto

lemma slot_merge_condition:
  "slot_wf sl \<Longrightarrow> sl_condition (slot_merge sl) = merge_conditions (map bp_Condition (sl_bps sl))"
proof -
  assume wf: "slot_wf sl"
  then have c: "sl_condition sl = hd (map bp_Condition (sl_bps sl))" by (simp add: slot_wf_def hd_map)
  show ?thesis unfolding slot_merge_def merge_conditions_def list_ex_map c Let_def
    by (cases "list_ex (\<lambda>b. bp_Condition b = []) (sl_bps sl)") (simp_all add: c)
qed

lemma slot_merge_note:
  "slot_wf sl \<Longrightarrow> sl_note (slot_merge sl) \<longleftrightarrow>
    \<not> list_ex (\<lambda>b. bp_Condition b = []) (sl_bps sl)
    \<and> list_ex (\<lambda>b. bp_Condition b \<noteq> bp_Condition (hd (sl_bps sl))) (sl_bps sl)"
  by (auto simp: slot_merge_def slot_wf_def Let_def)

text \<open>
  The slots sent to the adapter are a partition of a file's breakpoints by
  requested place: every breakpoint is in exactly one slot, at its own place, no
  two slots share a place, so a request never names one line or function twice.
\<close>

theorem slots_partition_breakpoints:
  "mset (concat (map sl_bps (slotsFor bs))) = mset bs \<and> distinct (map sl_key (slotsFor bs))
    \<and> list_all (\<lambda>sl. sl_bps sl \<noteq> [] \<and> list_all (\<lambda>b. bp_key b = sl_key sl) (sl_bps sl)) (slotsFor bs)"
  using grouped_spec[of bs] by (auto simp: slotsFor_grouped list_all_iff slot_wf_def comp_def)

text \<open>
  C37: sharing a place never hides a stop. Whatever the conditions evaluate to at
  a stop, the condition sent for a slot holds there if the condition of any
  breakpoint of the slot does; and if all of them have the same condition and it
  is not empty, the adapter checks exactly that one.
\<close>

theorem slot_condition_never_hides_a_stop:
  assumes "sl \<in> set (slotsFor bs)" "b \<in> set (sl_bps sl)" "holds []" "holds (bp_Condition b)"
  shows "holds (sl_condition sl)
    \<and> ((\<forall>b'\<in>set (sl_bps sl). bp_Condition b' = bp_Condition b) \<longrightarrow> sl_condition sl = bp_Condition b)"
proof -
  obtain g where g: "g \<in> set (grouped bs)" "sl = slot_merge g" using assms(1) by (auto simp: slotsFor_grouped)
  then have wf: "slot_wf g" using grouped_spec[of bs] by (auto simp: list_all_iff)
  have cond: "sl_condition sl = merge_conditions (map bp_Condition (sl_bps sl))"
    using slot_merge_condition[OF wf] g(2) by simp
  have "holds (merge_conditions (map bp_Condition (sl_bps sl)))"
    by (rule slot_cond.never_misses[where holds = holds, OF assms(3) _ assms(4)]) (use assms(2) in simp)
  moreover have "sl_condition sl = bp_Condition b" if "\<forall>b'\<in>set (sl_bps sl). bp_Condition b' = bp_Condition b"
  proof -
    have "set (map bp_Condition (sl_bps sl)) = {bp_Condition b}"
      unfolding set_map using assms(2) that by blast
    then show ?thesis unfolding cond by (rule merge_same)
  qed
  ultimately show ?thesis using cond by simp
qed

definition demo_bp :: "int \<Rightarrow> int \<Rightarrow> string \<Rightarrow> string \<Rightarrow> breakpoint" where
  "demo_bp i line cond owner = \<lparr>bp_ID = i, bp_File = ''/a.cs'', bp_RequestedLine = line, bp_Line = line,
    bp_Verified = True, bp_Message = [], bp_Condition = cond, bp_Temporary = False, bp_Owner = owner,
    bp_CreatedAt = 0, bp_Note = [], bp_Function = [], bp_Anchor = [], bp_HitCondition = [], bp_LogMessage = [],
    bp_Hits = 0, bp_Editor = False, b_adapterID = 0, b_source = [], b_hit = None, b_log = []\<rparr>"

theorem slot_condition_never_hides_a_stop_witness:
  "sl_condition (hd (slotsFor [demo_bp 1 7 ''x > 1'' ''agent'', demo_bp 2 7 ''y'' ''human''])) \<noteq> ''y''"
proof -
  let ?bs = "[demo_bp 1 7 ''x > 1'' ''agent'', demo_bp 2 7 ''y'' ''human'']"
  have sl: "slotsFor ?bs = [\<lparr>sl_key = ([], 7), sl_condition = [], sl_note = True, sl_bps = ?bs\<rparr>]"
    by (simp add: slotsFor_def slot_merge_def bp_key_def demo_bp_def)
  have "(\<lambda>c. c \<noteq> ''y'') (sl_condition (hd (slotsFor ?bs)))"
    by (rule conjunct1[OF slot_condition_never_hides_a_stop[where b = "demo_bp 1 7 ''x > 1'' ''agent''" and bs = ?bs]])
      (simp_all add: sl, simp add: demo_bp_def)
  then show ?thesis by simp
qed

end
