(* ===== verification/Lease.thy ===== *)
theory Lease
  imports Session_State
begin

text \<open>
  The control lease (\<^verbatim>\<open>internal/session/lease.go\<close>): who may change the program's
  execution. One definition per method, each the whole critical section of the
  source; a method returns the session after it and its result. The locale
  \<open>control_lease\<close> is what the execution requests rely on.
\<close>

section \<open>Operations\<close>

datatype lease_op = opExec | opTake | opAdmin

abbreviation maxLeaseRequests :: nat where "maxLeaseRequests \<equiv> 16"

definition allows :: "lease \<Rightarrow> lease_op \<Rightarrow> client \<Rightarrow> bool \<Rightarrow> bool" where
  "allows l opn c force =
    (if force \<or> cl_ID (le_holder l) = [] \<or> cl_ID (le_holder l) = cl_ID c then True
     else if opn = opAdmin then False
     else if le_policy l = LeaseFree then True
     else if le_policy l = LeaseHandoff then False
     else if le_policy l = LeaseHumanPriority then IsHuman c \<and> \<not> IsHuman (le_holder l)
     else False)"

definition lease_view :: "lease \<Rightarrow> lease_info" where
  "lease_view l = \<lparr>li_Policy = le_policy l, li_Holder = cl_ID (le_holder l),
    li_Since = (if cl_ID (le_holder l) \<noteq> [] then Some (le_since l) else None), li_Requests = le_requests l\<rparr>"

definition leaseHeldLocked :: "session \<Rightarrow> error" where
  "leaseHeldLocked s = NewError CodeLeaseHeld
    [Lit (''the lease of session '' @ s_ID s @ '' is held by '' @ cl_ID (le_holder (s_lease s))
          @ '' (policy '' @ le_policy (s_lease s) @ '')'')]"

definition setHolderLocked :: "time \<Rightarrow> client \<Rightarrow> string \<Rightarrow> string \<Rightarrow> string \<Rightarrow> session \<Rightarrow> session" where
  "setHolderLocked now holder actor action reason s =
    (let previous = cl_ID (le_holder (s_lease s));
         l = (s_lease s)\<lparr>le_holder := holder, le_since := now, le_requests := []\<rparr>
     in log_event now ((Event EventLease)\<lparr>ev_Client := actor, ev_Action := action, ev_Lease := Some (lease_view l),
                         ev_Previous := previous, ev_Reason := reason\<rparr>) (s\<lparr>s_lease := l\<rparr>))"

definition TakeLease :: "time \<Rightarrow> client \<Rightarrow> bool \<Rightarrow> session \<Rightarrow> session \<times> lease_info result" where
  "TakeLease now c force s =
    (let l = s_lease s in
     if cl_ID (le_holder l) = cl_ID c then (s, Inr (lease_view l))
     else if \<not> allows l opTake c False \<and> \<not> force then (s, Inl (leaseHeldLocked s))
     else let action = (if allows l opTake c False then ''take'' else ''force'');
              s' = setHolderLocked now c (cl_ID c) action [] s
          in (s', Inr (lease_view (s_lease s'))))"

definition ReleaseLease :: "time \<Rightarrow> client \<Rightarrow> session \<Rightarrow> session \<times> lease_info result" where
  "ReleaseLease now c s =
    (let s' = (if cl_ID (le_holder (s_lease s)) = cl_ID c
               then setHolderLocked now no_client (cl_ID c) ''release'' [] s else s)
     in (s', Inr (lease_view (s_lease s'))))"

definition GrantLease :: "time \<Rightarrow> client \<Rightarrow> string \<Rightarrow> bool \<Rightarrow> session \<Rightarrow> session \<times> lease_info result" where
  "GrantLease now c to force s =
    (if to = [] then (s, Inl (NewError CodeInvalidRequest [Lit ''lease grant needs the client to give it to'']))
     else case ParseClient to of
       Inl e \<Rightarrow> (s, Inl (NewError CodeInvalidRequest (err_message e)))
     | Inr target \<Rightarrow>
         if \<not> allows (s_lease s) opAdmin c force then (s, Inl (leaseHeldLocked s))
         else let s' = (if cl_ID (le_holder (s_lease s)) \<noteq> cl_ID target
                        then setHolderLocked now target (cl_ID c) ''grant'' [] s else s)
              in (s', Inr (lease_view (s_lease s'))))"

definition SetLeasePolicy :: "time \<Rightarrow> client \<Rightarrow> lease_policy \<Rightarrow> bool \<Rightarrow> session \<Rightarrow> session \<times> lease_info result" where
  "SetLeasePolicy now c policy force s =
    (case ParseLeasePolicy policy of
       Inl e \<Rightarrow> (s, Inl e)
     | Inr p \<Rightarrow>
         if \<not> allows (s_lease s) opAdmin c force then (s, Inl (leaseHeldLocked s))
         else let s' = (if le_policy (s_lease s) \<noteq> p
                        then let l = (s_lease s)\<lparr>le_policy := p\<rparr> in
                             log_event now ((Event EventLease)\<lparr>ev_Client := cl_ID c, ev_Action := ''policy'',
                               ev_Lease := Some (lease_view l), ev_Previous := cl_ID (le_holder l)\<rparr>) (s\<lparr>s_lease := l\<rparr>)
                        else s)
              in (s', Inr (lease_view (s_lease s'))))"

definition acquireLocked :: "time \<Rightarrow> client \<Rightarrow> session \<Rightarrow> session \<times> unit result" where
  "acquireLocked now c s =
    (if cl_ID (le_holder (s_lease s)) = cl_ID c then (s, Inr ())
     else if \<not> allows (s_lease s) opExec c False then (s, Inl (leaseHeldLocked s))
     else (setHolderLocked now c (cl_ID c) ''auto'' [] s, Inr ()))"

definition drop_request :: "string \<Rightarrow> lease_request list \<Rightarrow> lease_request list" where
  "drop_request cid rs = delete_func (\<lambda>r. lr_Client r = cid) rs"

definition dropRequestLocked :: "string \<Rightarrow> session \<Rightarrow> session" where
  "dropRequestLocked cid s = s\<lparr>s_lease := (s_lease s)\<lparr>le_requests := drop_request cid (le_requests (s_lease s))\<rparr>\<rparr>"

definition RequestLease :: "time \<Rightarrow> client \<Rightarrow> string \<Rightarrow> session \<Rightarrow> session \<times> lease_info result" where
  "RequestLease now c msg s =
    (if RuneCount msg > MaxLeaseRequestMessage
     then (s, Inl (NewError CodeInvalidRequest
            [Lit (''the lease request's message has '' @ itoa (int (RuneCount msg)) @ '' characters, more than 200'')]))
     else if s_state s = StateExited
     then (s, Inl (stateError (s_ID s) (s_state s) ''requesting the lease needs a live session''))
     else let l = s_lease s in
       if cl_ID (le_holder l) = [] \<or> cl_ID (le_holder l) = cl_ID c then (s, Inr (lease_view l))
       else let rs = drop_request (cl_ID c) (le_requests l);
                rs' = (if length rs \<ge> maxLeaseRequests then drop (length rs - maxLeaseRequests + 1) rs else rs);
                l' = l\<lparr>le_requests := rs' @ [\<lparr>lr_Client = cl_ID c, lr_Message = msg, lr_At = now\<rparr>]\<rparr>
            in (log_event now ((Event EventLease)\<lparr>ev_Client := cl_ID c, ev_Action := ''request'',
                  ev_Lease := Some (lease_view l'), ev_Text := msg\<rparr>) (s\<lparr>s_lease := l'\<rparr>),
                Inr (lease_view l')))"

section \<open>The contract of execution requests\<close>

text \<open>
  What an execution request relies on: after \<open>acquire\<close> succeeds its client holds
  the lease, and a refusal changes nothing and only happens while somebody else
  holds it.
\<close>

locale control_lease =
  fixes holder :: "'s \<Rightarrow> string"
    and acquire :: "time \<Rightarrow> client \<Rightarrow> 's \<Rightarrow> 's \<times> unit result"
  assumes acquire_ok: "acquire now c s = (s', Inr u) \<Longrightarrow> holder s' = cl_ID c"
    and acquire_refused: "acquire now c s = (s', Inl e) \<Longrightarrow> s' = s \<and> holder s \<noteq> cl_ID c \<and> holder s \<noteq> []"
    and acquire_holding: "holder s = cl_ID c \<Longrightarrow> acquire now c s = (s, Inr ())"
begin

lemma acquire_cases:
  obtains (held) s' where "acquire now c s = (s', Inr ())" "holder s' = cl_ID c"
  | (refused) e where "acquire now c s = (s, Inl e)" "holder s \<noteq> cl_ID c" "holder s \<noteq> []"
proof (cases "acquire now c s")
  case (Pair s' r)
  then show ?thesis
    using acquire_ok acquire_refused held refused by (cases r) (metis (full_types) old.unit.exhaust)+
qed

lemma acquire_idem: "acquire now c s = (s', Inr u) \<Longrightarrow> acquire now' c s' = (s', Inr ())"
  by (rule acquire_holding) (rule acquire_ok)

lemma acquire_unheld: "holder s = [] \<Longrightarrow> \<exists>s'. acquire now c s = (s', Inr ())"
  by (cases rule: acquire_cases[of now c s]) auto

end

abbreviation lease_holder :: "session \<Rightarrow> string" where
  "lease_holder s \<equiv> cl_ID (le_holder (s_lease s))"

lemma setHolder_lease [simp]:
  "s_lease (setHolderLocked now h a act r s) = (s_lease s)\<lparr>le_holder := h, le_since := now, le_requests := []\<rparr>"
  by (simp add: setHolderLocked_def Let_def)

interpretation slease: control_lease lease_holder acquireLocked
proof
  fix now c s s' u e
  show "lease_holder s' = cl_ID c" if "acquireLocked now c s = (s', Inr u)"
    using that by (auto simp: acquireLocked_def split: if_splits)
  show "s' = s \<and> lease_holder s \<noteq> cl_ID c \<and> lease_holder s \<noteq> []" if "acquireLocked now c s = (s', Inl e)"
    using that by (auto simp: acquireLocked_def allows_def split: if_splits)
  show "acquireLocked now c s = (s, Inr ())" if "lease_holder s = cl_ID c"
    using that by (simp add: acquireLocked_def)
qed

section \<open>The lease's invariant\<close>

text \<open>
  The pending requests are at most sixteen, one per client, never from the holder,
  and none are pending while nobody holds the lease.
\<close>

definition lease_inv :: "lease \<Rightarrow> bool" where
  "lease_inv l \<longleftrightarrow> length (le_requests l) \<le> maxLeaseRequests \<and> distinct (map lr_Client (le_requests l))
    \<and> cl_ID (le_holder l) \<notin> set (map lr_Client (le_requests l))
    \<and> (cl_ID (le_holder l) = [] \<longrightarrow> le_requests l = [])"

lemma cleared_inv [simp]: "lease_inv (l\<lparr>le_holder := h, le_since := t, le_requests := []\<rparr>)"
  by (simp add: lease_inv_def)

lemma drop_request_inv:
  "lease_inv l \<Longrightarrow> lease_inv (l\<lparr>le_requests := drop_request cid (le_requests l)\<rparr>)"
  by (auto simp: lease_inv_def drop_request_def distinct_map_filter' intro: le_trans[OF length_filter_le])

text \<open>The calls clients can make on the lease, with the request's own arguments.\<close>

datatype lease_call =
    CallTake client bool
  | CallRelease client
  | CallGrant client string bool
  | CallPolicy client string bool
  | CallAcquire client
  | CallRequest client string
  | CallDrop string

fun lease_step :: "time \<Rightarrow> lease_call \<Rightarrow> session \<Rightarrow> session" where
  "lease_step now (CallTake c f) s = fst (TakeLease now c f s)"
| "lease_step now (CallRelease c) s = fst (ReleaseLease now c s)"
| "lease_step now (CallGrant c to f) s = fst (GrantLease now c to f s)"
| "lease_step now (CallPolicy c p f) s = fst (SetLeasePolicy now c p f s)"
| "lease_step now (CallAcquire c) s = fst (acquireLocked now c s)"
| "lease_step now (CallRequest c m) s = fst (RequestLease now c m s)"
| "lease_step now (CallDrop cid) s = dropRequestLocked cid s"

lemma RequestLease_inv:
  assumes "lease_inv (s_lease s)"
  shows "lease_inv (s_lease (fst (RequestLease now c m s)))"
proof -
  let ?rs = "drop_request (cl_ID c) (le_requests (s_lease s))"
  let ?rs' = "if length ?rs \<ge> maxLeaseRequests then drop (length ?rs - maxLeaseRequests + 1) ?rs else ?rs"
  have inv: "lease_inv ((s_lease s)\<lparr>le_requests := ?rs\<rparr>)" by (rule drop_request_inv[OF assms])
  have "set ?rs' \<subseteq> set ?rs" "length ?rs' < maxLeaseRequests" "distinct (map lr_Client ?rs')"
    using inv by (auto simp: lease_inv_def distinct_map_drop dest: in_set_dropD)
  moreover have "cl_ID c \<notin> lr_Client ` set ?rs" by (auto simp: drop_request_def)
  ultimately show ?thesis
    using inv assms by (auto simp: RequestLease_def lease_inv_def Let_def)
qed

lemma lease_step_inv: "lease_inv (s_lease s) \<Longrightarrow> lease_inv (s_lease (lease_step now call s))"
proof (cases call)
  case (CallRequest c m)
  then show "lease_inv (s_lease s) \<Longrightarrow> ?thesis" by (simp add: RequestLease_inv)
next
  case (CallDrop cid)
  then show "lease_inv (s_lease s) \<Longrightarrow> ?thesis" by (simp add: dropRequestLocked_def drop_request_inv)
next
  case (CallPolicy c p f)
  then show "lease_inv (s_lease s) \<Longrightarrow> ?thesis"
    by (auto simp: SetLeasePolicy_def lease_inv_def Let_def split: sum.splits)
qed (auto simp: TakeLease_def ReleaseLease_def GrantLease_def acquireLocked_def Let_def split: sum.splits)

section \<open>Properties\<close>

definition run_calls :: "(time \<times> lease_call) list \<Rightarrow> session \<Rightarrow> session" where
  "run_calls calls s = fold (\<lambda>(now, call). lease_step now call) calls s"

lemma run_calls_simps [simp]:
  "run_calls [] s = s" "run_calls ((now, call) # calls) s = run_calls calls (lease_step now call s)"
  by (simp_all add: run_calls_def)

text \<open>
  The pending lease requests of a session are always bounded. After any
  sequence of lease calls on a new session, at most sixteen requests are pending,
  each from a different client, none from the holder, and none while nobody holds
  the lease.
\<close>

theorem lease_requests_bounded:
  "lease_inv (s_lease (run_calls calls (newSession now sid lang mode la starter policy)))"
proof -
  have "lease_inv (s_lease s) \<Longrightarrow> lease_inv (s_lease (run_calls calls s))" for s
    by (induction calls arbitrary: s) (auto simp: lease_step_inv)
  then show ?thesis by (simp add: newSession_def lease_inv_def)
qed

fun caller :: "lease_call \<Rightarrow> client option" where
  "caller (CallTake c f) = Some c"
| "caller (CallRelease c) = Some c"
| "caller (CallGrant c to f) = Some c"
| "caller (CallPolicy c p f) = Some c"
| "caller (CallAcquire c) = Some c"
| "caller (CallRequest c m) = Some c"
| "caller (CallDrop cid) = None"

fun forced :: "lease_call \<Rightarrow> bool" where
  "forced (CallTake c f) = f"
| "forced (CallGrant c to f) = f"
| "forced (CallPolicy c p f) = f"
| "forced _ = False"

text \<open>The policy shields the holder from client \<open>c\<close>: handoff from everybody else, human priority from other agents, and a human from everybody.\<close>

definition shielded :: "lease \<Rightarrow> client \<Rightarrow> bool" where
  "shielded l c \<longleftrightarrow> cl_ID (le_holder l) \<noteq> [] \<and> cl_ID (le_holder l) \<noteq> cl_ID c
    \<and> (le_policy l = LeaseHandoff \<or> le_policy l = LeaseHumanPriority \<and> (IsHuman (le_holder l) \<or> \<not> IsHuman c))"

lemma shielded_not_allowed: "shielded l c \<Longrightarrow> \<not> allows l opn c False"
  by (auto simp: shielded_def allows_def)

definition same_holder :: "lease \<Rightarrow> lease \<Rightarrow> bool" where
  "same_holder l l' \<longleftrightarrow> le_holder l' = le_holder l \<and> le_policy l' = le_policy l \<and> le_since l' = le_since l"

lemma same_holder_shielded: "same_holder l l' \<Longrightarrow> shielded l' c = shielded l c"
  by (simp add: same_holder_def shielded_def)

lemma shielded_step:
  assumes "\<not> forced call" "\<forall>c. caller call = Some c \<longrightarrow> shielded (s_lease s) c"
  shows "same_holder (s_lease s) (s_lease (lease_step now call s))"
  using assms
proof (cases call)
  case (CallRelease c)
  then show ?thesis using assms by (simp add: ReleaseLease_def shielded_def same_holder_def Let_def)
next
  case (CallDrop cid)
  then show ?thesis by (simp add: dropRequestLocked_def same_holder_def)
next
  case (CallRequest c m)
  then show ?thesis by (auto simp: RequestLease_def same_holder_def Let_def)
qed (auto simp: TakeLease_def GrantLease_def SetLeasePolicy_def acquireLocked_def Let_def same_holder_def
    shielded_not_allowed split: sum.splits)

text \<open>
  C10: nobody takes a shielded lease. While the policy is handoff, or human
  priority with a human holding it or only agents asking, no sequence of takes,
  grants, policy changes, releases, requests and execution requests by other
  clients, none of them forced, moves the lease or changes its policy.
\<close>

theorem shielded_holder_keeps_lease:
  assumes "list_all (\<lambda>(now, call). \<not> forced call \<and> (\<forall>c. caller call = Some c \<longrightarrow> shielded (s_lease s) c)) calls"
  shows "same_holder (s_lease s) (s_lease (run_calls calls s))"
  using assms
proof (induction calls arbitrary: s)
  case (Cons x calls)
  obtain now call where x: "x = (now, call)" by fastforce
  then have step: "same_holder (s_lease s) (s_lease (lease_step now call s))"
    using Cons.prems by (intro shielded_step) auto
  then have "same_holder (s_lease (lease_step now call s)) (s_lease (run_calls calls (lease_step now call s)))"
    using Cons.prems by (intro Cons.IH) (simp add: same_holder_shielded[OF step])
  then show ?case using step x by (simp add: same_holder_def)
qed (simp add: same_holder_def)

definition demo_client :: "string \<Rightarrow> client" where
  "demo_client k = \<lparr>cl_ID = k, cl_Kind = k, cl_Name = []\<rparr>"

definition demo_launch :: launch where
  "demo_launch = \<lparr>la_Program = ''app'', la_Request = ''launch'', la_PID = 0, la_AdapterID = ''coreclr'', la_Arguments = ''{}'',
    la_ExceptionFilters = [], la_AdapterName = ''netcoredbg'', la_PauseUnsupported = [], la_SetByEval = False,
    la_ExitCodeUnknown = [], la_PathMap = None, la_Container = None\<rparr>"

definition demo_session :: session where
  "demo_session = newSession 0 ''s1'' ''dotnet'' [] demo_launch (demo_client KindAgent) LeaseHandoff"

lemma demo_session_lease:
  "s_lease demo_session = \<lparr>le_policy = LeaseHandoff, le_holder = demo_client KindAgent, le_since = 0, le_requests = []\<rparr>"
  by (simp add: demo_session_def newSession_def)

theorem shielded_holder_keeps_lease_witness:
  "same_holder (s_lease demo_session) (s_lease (run_calls [(1, CallTake (demo_client KindHuman) False)] demo_session))"
  by (rule shielded_holder_keeps_lease)
    (simp add: shielded_def demo_session_lease demo_client_def)

text \<open>Who may take the lease from somebody else, as the policies are documented.\<close>

definition may_take :: "lease \<Rightarrow> client \<Rightarrow> bool \<Rightarrow> bool" where
  "may_take l c force \<longleftrightarrow> force \<or> cl_ID (le_holder l) = [] \<or> le_policy l = LeaseFree
     \<or> le_policy l = LeaseHumanPriority \<and> IsHuman c \<and> \<not> IsHuman (le_holder l)"

lemma may_take_allows:
  "cl_ID (le_holder l) \<noteq> cl_ID c \<Longrightarrow> may_take l c force \<longleftrightarrow> allows l opTake c False \<or> force"
  by (auto simp: may_take_def allows_def)

text \<open>
  What taking the lease does, in every case. A client that already holds it
  changes nothing; otherwise it gets the lease exactly if it is forced, unheld, or
  the policy allows it, the requests are cleared and one lease event is logged; and
  a refusal is LEASE_HELD and changes nothing.
\<close>

theorem take_lease_spec:
  assumes "TakeLease now c force s = (s', r)"
  shows "if cl_ID (le_holder (s_lease s)) = cl_ID c then s' = s \<and> r = Inr (lease_view (s_lease s))
    else if may_take (s_lease s) c force
    then le_holder (s_lease s') = c \<and> le_requests (s_lease s') = [] \<and> le_policy (s_lease s') = le_policy (s_lease s)
      \<and> latest (s_log s') = latest (s_log s) + 1 \<and> r = Inr (lease_view (s_lease s'))
    else s' = s \<and> r = Inl (leaseHeldLocked s)"
proof -
  have "s' = fst (TakeLease now c force s)" "r = snd (TakeLease now c force s)" using assms by simp_all
  moreover have "cl_ID (le_holder (s_lease s)) = cl_ID c \<or>
      (may_take (s_lease s) c force \<longleftrightarrow> \<not> (\<not> allows (s_lease s) opTake c False \<and> \<not> force))"
    using may_take_allows[of "s_lease s" c force] by blast
  ultimately show ?thesis
    by (cases "cl_ID (le_holder (s_lease s)) = cl_ID c"; cases "may_take (s_lease s) c force")
      (simp_all add: TakeLease_def setHolderLocked_def Let_def)
qed

theorem take_lease_spec_witness:
  "if cl_ID (le_holder (s_lease demo_session)) = cl_ID (demo_client KindHuman)
   then demo_session = demo_session \<and> Inl (leaseHeldLocked demo_session) = Inr (lease_view (s_lease demo_session))
   else if may_take (s_lease demo_session) (demo_client KindHuman) False
   then le_holder (s_lease demo_session) = demo_client KindHuman \<and> le_requests (s_lease demo_session) = []
     \<and> le_policy (s_lease demo_session) = le_policy (s_lease demo_session)
     \<and> latest (s_log demo_session) = latest (s_log demo_session) + 1
     \<and> Inl (leaseHeldLocked demo_session) = Inr (lease_view (s_lease demo_session))
   else demo_session = demo_session
     \<and> (Inl (leaseHeldLocked demo_session) :: lease_info result) = Inl (leaseHeldLocked demo_session)"
  by (rule take_lease_spec[where now = 1])
    (simp add: TakeLease_def allows_def demo_session_lease demo_client_def IsHuman_def Let_def)

end
