(* ===== verification/Presence.thy ===== *)
theory Presence
  imports Lease
begin

text \<open>
  Editor connections (\<^verbatim>\<open>internal/session/presence.go\<close>), the parts that run under the
  session's lock alone: opening a connection, counting one out, and the test a
  pending cleanup makes before each of its steps. The cleanup itself is in the
  theory \<open>Leaving\<close>, after the breakpoint and exception operations it uses.
\<close>

section \<open>Operations\<close>

text \<open>One editor connection: its client and whether it has left.\<close>

record connection =
  cn_client :: client
  cn_left :: bool

definition no_presence :: presence where
  "no_presence = \<lparr>pr_conns = 0, pr_gen = 0, pr_excSet = False\<rparr>"

definition presence_of :: "string \<Rightarrow> session \<Rightarrow> presence option" where
  "presence_of cid s = map_of (s_presence s) cid"

definition set_presence :: "string \<Rightarrow> presence \<Rightarrow> session \<Rightarrow> session" where
  "set_presence cid p s = s\<lparr>s_presence := aput cid p (s_presence s)\<rparr>"

definition del_presence :: "string \<Rightarrow> session \<Rightarrow> session" where
  "del_presence cid s = s\<lparr>s_presence := adel cid (s_presence s)\<rparr>"

definition Connect :: "time \<Rightarrow> client \<Rightarrow> session \<Rightarrow> session \<times> connection" where
  "Connect now c s0 =
    (let s1 = touchLocked now c s0;
         p = (case presence_of (cl_ID c) s1 of Some p \<Rightarrow> p | None \<Rightarrow> no_presence);
         gen = s_connGen s1 + 1;
         s2 = set_presence (cl_ID c) (p\<lparr>pr_conns := pr_conns p + 1, pr_gen := gen\<rparr>) (s1\<lparr>s_connGen := gen\<rparr>);
         s3 = (if s_state s2 \<noteq> StateExited
               then log_event now ((Event EventClient)\<lparr>ev_Client := cl_ID c, ev_Action := ''connected''\<rparr>) s2 else s2)
     in (s3, \<lparr>cn_client = c, cn_left = False\<rparr>))"

definition ExceptionsSet :: "connection \<Rightarrow> exception_mode \<Rightarrow> session \<Rightarrow> session" where
  "ExceptionsSet cn mode s =
    (case presence_of (cl_ID (cn_client cn)) s of
       Some e \<Rightarrow> if \<not> cn_left cn
                  then set_presence (cl_ID (cn_client cn)) (e\<lparr>pr_excSet := mode \<noteq> ExceptionsNone\<rparr>) s else s
     | None \<Rightarrow> s)"

text \<open>
  \<^verbatim>\<open>decrement\<close>: \<open>done\<close> is whether the daemon's context ended. The result is the
  generation the client's cleanup is valid for, if it left.
\<close>

definition decrement :: "time \<Rightarrow> bool \<Rightarrow> connection \<Rightarrow> session \<Rightarrow> session \<times> connection \<times> int option" where
  "decrement now ctx_done cn s =
    (if cn_left cn then (s, cn, None)
     else let cn' = cn\<lparr>cn_left := True\<rparr>; cid = cl_ID (cn_client cn) in
       case presence_of cid s of
         None \<Rightarrow> (s, cn', None)
       | Some e \<Rightarrow>
           let e' = e\<lparr>pr_conns := pr_conns e - 1\<rparr>;
               s1 = set_presence cid e' s;
               live = (s_state s1 \<noteq> StateExited);
               s2 = (if live then log_event now ((Event EventClient)\<lparr>ev_Client := cid, ev_Action := ''disconnected''\<rparr>) s1 else s1)
           in if pr_conns e' > 0 then (s2, cn', None)
              else if \<not> live \<or> ctx_done then (del_presence cid s2, cn', None)
              else (s2, cn', Some (pr_gen e')))"

definition leftLocked :: "string \<Rightarrow> int \<Rightarrow> session \<Rightarrow> bool" where
  "leftLocked cid gen s =
    (s_state s \<noteq> StateExited \<and>
     (case presence_of cid s of None \<Rightarrow> False | Some e \<Rightarrow> pr_conns e = 0 \<and> pr_gen e = gen))"

definition clientsLocked :: "session \<Rightarrow> client_info list" where
  "clientsLocked s = map (\<lambda>i. case presence_of (cl_ID (ci_client i)) s of
     Some e \<Rightarrow> i\<lparr>ci_Connected := pr_conns e\<rparr> | None \<Rightarrow> i) (s_clients s)"

section \<open>Counting\<close>

lemma touchLocked_frame [simp]:
  "s_presence (touchLocked now c s) = s_presence s" "s_connGen (touchLocked now c s) = s_connGen s"
  "s_state (touchLocked now c s) = s_state s" "s_lease (touchLocked now c s) = s_lease s"
  "s_bps (touchLocked now c s) = s_bps s" "s_nextBP (touchLocked now c s) = s_nextBP s"
  by (simp_all add: touchLocked_def split: option.splits)

lemma presence_of_set [simp]:
  "presence_of cid (set_presence cid' p s) = (if cid = cid' then Some p else presence_of cid s)"
  by (simp add: presence_of_def set_presence_def)

lemma presence_of_del [simp]:
  "presence_of cid (del_presence cid' s) = (if cid = cid' then None else presence_of cid s)"
  by (simp add: presence_of_def del_presence_def)

lemma presence_frame [simp]:
  "presence_of cid (log_event now e s) = presence_of cid s" "presence_of cid (touchLocked now c s) = presence_of cid s"
  "presence_of cid (s\<lparr>s_connGen := g\<rparr>) = presence_of cid s"
  "s_state (set_presence cid p s) = s_state s" "s_state (del_presence cid s) = s_state s"
  "s_connGen (set_presence cid p s) = s_connGen s" "s_connGen (del_presence cid s) = s_connGen s"
  "s_lease (set_presence cid p s) = s_lease s" "s_lease (del_presence cid s) = s_lease s"
  "s_bps (set_presence cid p s) = s_bps s" "s_bps (del_presence cid s) = s_bps s"
  "s_nextBP (set_presence cid p s) = s_nextBP s" "s_nextBP (del_presence cid s) = s_nextBP s"
  "s_log (set_presence cid p s) = s_log s" "s_log (del_presence cid s) = s_log s"
  by (simp_all add: presence_of_def set_presence_def del_presence_def)

text \<open>Generations only grow, and an entry's generation is one that was given out.\<close>

definition pres_inv :: "session \<Rightarrow> bool" where
  "pres_inv s \<longleftrightarrow> 0 \<le> s_connGen s \<and>
    (\<forall>cid p. presence_of cid s = Some p \<longrightarrow> 1 \<le> pr_gen p \<and> pr_gen p \<le> s_connGen s)"

lemma Connect_presence:
  "presence_of cid (fst (Connect now c s)) =
    (if cid = cl_ID c
     then Some ((case presence_of cid s of Some p \<Rightarrow> p | None \<Rightarrow> no_presence)
       \<lparr>pr_conns := pr_conns (case presence_of cid s of Some p \<Rightarrow> p | None \<Rightarrow> no_presence) + 1, pr_gen := s_connGen s + 1\<rparr>)
     else presence_of cid s)"
  "s_connGen (fst (Connect now c s)) = s_connGen s + 1"
  "s_state (fst (Connect now c s)) = s_state s" "cn_client (snd (Connect now c s)) = c" "\<not> cn_left (snd (Connect now c s))"
  by (simp_all add: Connect_def Let_def)

lemma Connect_inv:
  assumes "pres_inv s"
  shows "pres_inv (fst (Connect now c s))"
  unfolding pres_inv_def Connect_presence(2)
proof (intro conjI allI impI)
  show "0 \<le> s_connGen s + 1" using assms by (simp add: pres_inv_def)
next
  fix cid p
  assume p: "presence_of cid (fst (Connect now c s)) = Some p"
  have gen: "0 \<le> s_connGen s" using assms by (simp add: pres_inv_def)
  have old: "1 \<le> pr_gen q \<and> pr_gen q \<le> s_connGen s" if "presence_of cid s = Some q" for q
    using assms that by (simp add: pres_inv_def)
  have "1 \<le> pr_gen p \<and> pr_gen p \<le> s_connGen s + 1"
  proof (cases "cid = cl_ID c")
    case True
    then show ?thesis using p gen old
      by (cases "presence_of cid s") (simp_all add: Connect_presence(1), force+)
  next
    case False
    then have "presence_of cid s = Some p" using p by (simp add: Connect_presence(1))
    then show ?thesis using old by fastforce
  qed
  then show "1 \<le> pr_gen p" "pr_gen p \<le> s_connGen s + 1" by simp_all
qed

text \<open>
  Connections of one client opened and closed in any order; each connection is
  closed at most once (a second \<^verbatim>\<open>Leave\<close> does nothing). \<open>n\<close> connections are open.
\<close>

lemma decrement_left: "cn_left cn \<Longrightarrow> decrement now d cn s = (s, cn, None)"
  by (simp add: decrement_def)

lemma decrement_sets_left: "cn_left (fst (snd (decrement now d cn s)))"
  by (simp add: decrement_def Let_def split: option.splits)

lemma decrement_state [simp]: "s_state (fst (decrement now d cn s)) = s_state s"
  "s_connGen (fst (decrement now d cn s)) = s_connGen s"
  by (simp_all add: decrement_def Let_def split: option.splits)

lemma decrement_inv: "pres_inv s \<Longrightarrow> pres_inv (fst (decrement now d cn s))"
  by (auto simp: decrement_def Let_def pres_inv_def split: if_splits option.splits)

lemma decrement_last:
  assumes "\<not> cn_left cn" "presence_of (cl_ID (cn_client cn)) s = Some p" "pr_conns p = 1" "s_state s \<noteq> StateExited"
  shows "snd (snd (decrement now False cn s)) = Some (pr_gen p)"
    "leftLocked (cl_ID (cn_client cn)) (pr_gen p) (fst (decrement now False cn s))"
  using assms by (simp_all add: decrement_def leftLocked_def Let_def)

text \<open>
  A departed editor that comes back keeps its things. Once a client has left
  and a cleanup is pending for generation \<open>gen\<close>, any new connection of the client
  makes every later step of that cleanup a no-op, even if the new connection
  closes again: the test the steps make is false for that generation from then on.
\<close>

theorem superseded_cleanup_never_runs:
  assumes "pres_inv s" "leftLocked (cl_ID c) gen s"
  shows "\<not> leftLocked (cl_ID c) gen (fst (Connect now c s))
    \<and> \<not> leftLocked (cl_ID c) gen (fst (decrement now' d (snd (Connect now c s)) (fst (Connect now c s))))"
proof -
  obtain p where p: "presence_of (cl_ID c) s = Some p" "pr_gen p = gen" "gen \<le> s_connGen s"
    using assms by (auto simp: leftLocked_def pres_inv_def split: option.splits)
  let ?s = "fst (Connect now c s)"
  have e: "presence_of (cl_ID c) ?s = Some (p\<lparr>pr_conns := pr_conns p + 1, pr_gen := s_connGen s + 1\<rparr>)"
    using p by (simp add: Connect_presence)
  have "pr_gen q = s_connGen s + 1"
    if "presence_of (cl_ID c) (fst (decrement now' d (snd (Connect now c s)) ?s)) = Some q" for q
    using that e by (auto simp: decrement_def Connect_presence Let_def split: if_splits)
  then show ?thesis using e p(3) by (auto simp: leftLocked_def split: option.splits)
qed

definition demo_left :: session where
  "demo_left = fst (decrement 2 False (snd (Connect 1 (demo_client KindHuman) demo_session)) (fst (Connect 1 (demo_client KindHuman) demo_session)))"

lemma demo_session_fields:
  "s_presence demo_session = []" "s_connGen demo_session = 0" "s_state demo_session = StateStarting"
  by (simp_all add: demo_session_def newSession_def)

lemma demo_left_pending: "pres_inv demo_left" "leftLocked KindHuman 1 demo_left"
proof -
  let ?cn = "snd (Connect 1 (demo_client KindHuman) demo_session)" and ?s = "fst (Connect 1 (demo_client KindHuman) demo_session)"
  have id: "cl_ID (demo_client KindHuman) = KindHuman" by (simp add: demo_client_def)
  have p: "presence_of KindHuman ?s = Some \<lparr>pr_conns = 1, pr_gen = 1, pr_excSet = False\<rparr>"
    unfolding Connect_presence id by (simp add: presence_of_def demo_session_fields no_presence_def)
  have o: "presence_of cid ?s = None" if "cid \<noteq> KindHuman" for cid
    using that unfolding Connect_presence id by (simp add: presence_of_def demo_session_fields)
  show "leftLocked KindHuman 1 demo_left"
    unfolding demo_left_def
    using decrement_last(2)[of ?cn ?s "\<lparr>pr_conns = 1, pr_gen = 1, pr_excSet = False\<rparr>" 2] p
    by (simp add: Connect_presence id demo_session_fields)
  have "presence_of cid demo_left = (if cid = KindHuman then Some \<lparr>pr_conns = 0, pr_gen = 1, pr_excSet = False\<rparr> else None)" for cid
    unfolding demo_left_def using p o by (simp add: decrement_def Connect_presence id demo_session_fields Let_def)
  moreover have "s_connGen demo_left = 1" unfolding demo_left_def by (simp add: Connect_presence demo_session_fields)
  ultimately show "pres_inv demo_left" by (auto simp: pres_inv_def split: if_splits)
qed

theorem superseded_cleanup_never_runs_witness:
  "\<not> leftLocked (cl_ID (demo_client KindHuman)) 1 (fst (Connect 3 (demo_client KindHuman) demo_left))"
  using superseded_cleanup_never_runs[OF demo_left_pending(1), of "demo_client KindHuman" 1 3 4 False] demo_left_pending(2)
  by (simp add: demo_client_def)

end
