(* ===== verification/Adapter.thy ===== *)
theory Adapter
  imports Slots Presence
begin

text \<open>
  The session and its debug adapter: the handlers of the adapter's events
  (\<^verbatim>\<open>onEvent\<close> and what it calls in \<^verbatim>\<open>session.go\<close>, \<^verbatim>\<open>emulate.go\<close> and \<^verbatim>\<open>breakpoints.go\<close>),
  the end of a session, and a request to the adapter.

  The adapter, the file system, the driver's side-effect check, how Go quotes a
  string and sizes JSON, and Unicode's letters and digits are the record \<open>env\<close>. The
  adapter answers a request by the requests sent before it.
  The session's lock is not held while a request is at the adapter: what happens
  meanwhile (events of the adapter, its exit, lease calls and connections of other
  clients) is part of the adapter's behaviour, an arbitrary list of \<open>inter\<close> steps
  before its answer. A theorem for every \<open>env\<close> is one for every such interleaving.
\<close>

section \<open>Stops and the end of a session\<close>

abbreviation reasonBreakpoint :: string where "reasonBreakpoint \<equiv> ''breakpoint''"
abbreviation reasonException :: string where "reasonException \<equiv> ''exception''"
abbreviation reasonPause :: string where "reasonPause \<equiv> ''pause''"

definition pauseSignal :: "stop_info \<Rightarrow> bool" where
  "pauseSignal st = (si_Reason st = reasonException \<and> si_Description st = ''signal SIGSTOP'')"

definition pendingLocked :: "int \<Rightarrow> session \<Rightarrow> bool" where
  "pendingLocked gen s = (s_stopGen s = gen \<and> s_state s \<noteq> StateExited)"

definition applyStopLocked :: "time \<Rightarrow> stop_info \<Rightarrow> session \<Rightarrow> session" where
  "applyStopLocked now st s =
    (let s1 = s\<lparr>s_stops := s_stops s + 1, s_stop := st, s_stoppedAt := now, s_stepping := False, s_pauseRequested := False\<rparr>
     in log_event now ((Event EventStopped)\<lparr>ev_Stop := Some st\<rparr>) (setStateLocked StateStopped s1))"

definition publish :: "time \<Rightarrow> int \<Rightarrow> stop_info \<Rightarrow> string \<Rightarrow> session \<Rightarrow> session" where
  "publish now gen st desc s =
    (if \<not> pendingLocked gen s then s
     else applyStopLocked now (if desc \<noteq> [] then st\<lparr>si_Description := desc\<rparr> else st) s)"

definition stop_of :: "string \<Rightarrow> int \<Rightarrow> string \<Rightarrow> string \<Rightarrow> bool \<Rightarrow> bool \<Rightarrow> stop_info" where
  "stop_of reason thread desc txt allStopped pauseReq =
    (let st = \<lparr>si_Reason = reason, si_ThreadID = thread, si_Description = desc, si_Text = txt,
               si_AllThreadsStopped = allStopped, si_Breakpoints = []\<rparr>
     in if pauseReq \<and> pauseSignal st then st\<lparr>si_Reason := reasonPause\<rparr> else st)"

text \<open>\<open>s_filters\<close> holds the started \<^verbatim>\<open>filterStop\<close> goroutines.\<close>

definition onStoppedLocked :: "time \<Rightarrow> string \<Rightarrow> int \<Rightarrow> string \<Rightarrow> string \<Rightarrow> bool \<Rightarrow> session \<Rightarrow> session" where
  "onStoppedLocked now reason thread desc txt allStopped s =
    (let s1 = s\<lparr>s_stopGen := s_stopGen s + 1\<rparr>;
         st = stop_of reason thread desc txt allStopped (s_pauseRequested s1)
     in if si_Reason st = reasonBreakpoint \<and> needsFilterLocked s1
        then s1\<lparr>s_filters := s_filters s1 @ [(s_stopGen s1, st)]\<rparr>
        else applyStopLocked now st s1)"

definition onContinuedLocked :: "time \<Rightarrow> int \<Rightarrow> session \<Rightarrow> session" where
  "onContinuedLocked now thread s =
    (let s1 = s\<lparr>s_stopGen := s_stopGen s + 1\<rparr>;
         s2 = (if s_state s1 = StateStopped then setStateLocked StateRunning s1 else s1)
     in if \<not> s_execInFlight s2 then log_event now ((Event EventContinued)\<lparr>ev_ThreadID := thread\<rparr>) s2 else s2)"

definition hostExitedLocked :: "time \<Rightarrow> int \<Rightarrow> session \<Rightarrow> session" where
  "hostExitedLocked now code s =
    appendOutputLocked now ''console'' (''eyedbg: the test host exited with code '' @ itoa code @ [CHR 10]) s"

definition onExitedLocked :: "time \<Rightarrow> int \<Rightarrow> session \<Rightarrow> session" where
  "onExitedLocked now code s =
    (if s_run s
     then if s_exitCodeUnknown s \<noteq> []
          then appendOutputLocked now ''console'' (''eyedbg: the test host exited'' @ [CHR 10]) s
          else hostExitedLocked now code s
     else if s_exitCodeUnknown s \<noteq> []
     then log_event now (Event EventExited) (bump (s\<lparr>s_programExited := True\<rparr>))
     else log_event now ((Event EventExited)\<lparr>ev_ExitCode := Some code\<rparr>) (bump (s\<lparr>s_exitCode := Some code\<rparr>)))"

definition endReasonLocked :: "string \<Rightarrow> session \<Rightarrow> string" where
  "endReasonLocked def s =
    (let other = (if s_programExited s then def @ ''; its exit code is unknown ('' @ s_exitCodeUnknown s @ '')'' else def) in
     if s_mode s = ModeTest \<and> \<not> s_run s
     then case s_exitCode s of
         Some code \<Rightarrow> ''the test run finished: the test app exited with code '' @ itoa code
       | None \<Rightarrow> if s_programExited s
           then ''the test run finished; the test app's exit code is unknown ('' @ s_exitCodeUnknown s
                @ ''): read the test output for the result''
           else other
     else other)"

text \<open>\<open>s_shutdowns\<close> holds the started \<^verbatim>\<open>shutdownAdapter\<close> goroutines with their \<^verbatim>\<open>terminate\<close> argument.\<close>

definition endLocked :: "time \<Rightarrow> string \<Rightarrow> session \<Rightarrow> session" where
  "endLocked now reason s =
    (if s_state s = StateExited then s
     else let reason' = (if s_stopReason s \<noteq> [] then s_stopReason s else reason);
              s1 = setStateLocked StateExited (s\<lparr>s_endReason := reason'\<rparr>);
              s2 = log_event now ((Event EventEnded)\<lparr>ev_Reason := reason', ev_Client := s_stopping s\<rparr>) s1
          in if s_client s2 then s2\<lparr>s_shutdowns := s_shutdowns s2 @ [s_mode s2 = ModeTest]\<rparr> else s2)"

section \<open>Breakpoints by adapter events\<close>

definition all_bps :: "session \<Rightarrow> breakpoint list" where
  "all_bps s = concat (map snd (s_bps s))"

definition map_bps :: "(breakpoint \<Rightarrow> breakpoint) \<Rightarrow> session \<Rightarrow> session" where
  "map_bps f s = s\<lparr>s_bps := map (\<lambda>(k, bs). (k, map f bs)) (s_bps s)\<rparr>"

definition logBreakpointLocked :: "time \<Rightarrow> string \<Rightarrow> string \<Rightarrow> breakpoint \<Rightarrow> session \<Rightarrow> session" where
  "logBreakpointLocked now action actor b s =
    log_event now ((Event EventBreakpoint)\<lparr>ev_Action := action, ev_Client := actor, ev_Breakpoint := Some (api_of b)\<rparr>) s"

definition placed :: "dap_breakpoint \<Rightarrow> breakpoint \<Rightarrow> breakpoint" where
  "placed g b =
    (let b1 = b\<lparr>bp_Verified := db_Verified g, bp_Message := db_Message g\<rparr>;
         b2 = (if db_Line g > 0 \<and> bp_Function b = [] then b1\<lparr>bp_Line := db_Line g\<rparr> else b1)
     in case db_Source g of
          Some src \<Rightarrow> if src_Path src \<noteq> [] then b2\<lparr>b_source := src_Path src\<rparr> else b2
        | None \<Rightarrow> b2)"

definition updateBreakpointLocked :: "time \<Rightarrow> dap_breakpoint \<Rightarrow> session \<Rightarrow> session" where
  "updateBreakpointLocked now g s =
    (if db_Id g = 0 then s
     else let s1 = map_bps (\<lambda>b. if b_adapterID b \<noteq> db_Id g then b else placed g b) s;
              hit = sort_key bp_ID (filter (\<lambda>b. b_adapterID b = db_Id g) (all_bps s1))
          in fold (logBreakpointLocked now ''changed'' []) hit s1)"

section \<open>Events\<close>

fun onEvent :: "time \<Rightarrow> dap_event \<Rightarrow> session \<Rightarrow> session" where
  "onEvent now InitializedEvent s = s\<lparr>s_initialized := True\<rparr>"
| "onEvent now (StoppedEvent reason thread desc txt allStopped) s = onStoppedLocked now reason thread desc txt allStopped s"
| "onEvent now (ContinuedEvent thread) s = onContinuedLocked now thread s"
| "onEvent now (ExitedEvent code) s = onExitedLocked now code s"
| "onEvent now (ThreadEvent reason thread) s =
    log_event now ((Event EventThread)\<lparr>ev_Reason := reason, ev_ThreadID := thread\<rparr>) s"
| "onEvent now TerminatedEvent s =
    (if s_run s then s\<lparr>s_shutdowns := s_shutdowns s @ [True]\<rparr>
     else endLocked now (endReasonLocked ''the program terminated'' s) s)"
| "onEvent now (ProcessEvent pid) s =
    (case s_container s of
       None \<Rightarrow> s\<lparr>s_pid := pid\<rparr>
     | Some c \<Rightarrow> if co_Launched c then s\<lparr>s_container := Some (c\<lparr>co_PID := pid\<rparr>)\<rparr> else s)"
| "onEvent now (OutputEvent category txt src) s = appendOutputLocked now category txt s"
| "onEvent now (BreakpointEvent g) s = updateBreakpointLocked now g s"
| "onEvent now (LoadedSourceEvent src) s = s"
| "onEvent now OtherEvent s = s"

definition closeRecording :: "session \<Rightarrow> session" where
  "closeRecording s = s\<lparr>s_log := (s_log s)\<lparr>el_sink := map_option rec_closeLocked (el_sink (s_log s))\<rparr>\<rparr>"

text \<open>\<^verbatim>\<open>watchAdapter\<close> when the connection to the adapter is gone (waiting for its process is I/O).\<close>

definition watchAdapter :: "time \<Rightarrow> session \<Rightarrow> session" where
  "watchAdapter now s =
    (if s_run s then s
     else closeRecording (endLocked now (endReasonLocked ''the debug adapter exited'' s) s))"

section \<open>Requests\<close>

text \<open>What can happen under the session's lock while a request is at the adapter.\<close>

datatype inter =
    AdapterEvent dap_event
  | AdapterGone
  | ClientLease lease_call
  | ClientTouch client
  | ClientConnect client
  | ClientLeave connection

record env =
  env_now :: time
  env_fs :: fs
  env_quote :: "string \<Rightarrow> string"
  env_sideEffects :: "string \<Rightarrow> string option"
  env_letter :: "rune \<Rightarrow> bool"
  env_digit :: "rune \<Rightarrow> bool"
  env_jsonEvent :: "event \<Rightarrow> nat"
  env_adapter :: "dap_request list \<Rightarrow> dap_request \<Rightarrow> inter list \<times> (dap_error + dap_response)"

fun inter_step :: "time \<Rightarrow> inter \<Rightarrow> session \<Rightarrow> session" where
  "inter_step now (AdapterEvent ev) s =
    onEvent now (case s_pathMap s of Some m \<Rightarrow> Incoming_event m ev | None \<Rightarrow> ev) s"
| "inter_step now AdapterGone s = watchAdapter now s"
| "inter_step now (ClientLease call) s = lease_step now call s"
| "inter_step now (ClientTouch c) s = Touch now c s"
| "inter_step now (ClientConnect c) s = fst (Connect now c s)"
| "inter_step now (ClientLeave cn) s = fst (decrement now False cn s)"

definition inters :: "time \<Rightarrow> inter list \<Rightarrow> session \<Rightarrow> session" where
  "inters now is s = fold (inter_step now) is s"

text \<open>\<^verbatim>\<open>client.Do\<close>: the translated request goes out, and its translated answer or an error comes back.\<close>

definition Do :: "env \<Rightarrow> dap_request \<Rightarrow> session \<Rightarrow> session \<times> (dap_error + dap_response)" where
  "Do E req s =
    (let req' = (case s_pathMap s of Some m \<Rightarrow> Outgoing m req | None \<Rightarrow> req);
         (is, r) = env_adapter E (s_sent s) req';
         s' = inters (env_now E) is (s\<lparr>s_sent := s_sent s @ [req']\<rparr>)
     in (s', map_sum id (\<lambda>resp. case s_pathMap s of Some m \<Rightarrow> Incoming_resp m resp | None \<Rightarrow> resp) r))"

text \<open>\<^verbatim>\<open>dap.Call\<close>: the answer must be of the expected type, which \<open>sel\<close> picks out.\<close>

definition Call :: "env \<Rightarrow> dap_request \<Rightarrow> (dap_response \<Rightarrow> 'a option) \<Rightarrow> session \<Rightarrow> session \<times> 'a result" where
  "Call E req sel s =
    (case Do E req s of
       (s', Inl e) \<Rightarrow> (s', Inl (adapterErr e))
     | (s', Inr resp) \<Rightarrow> (s', case sel resp of
           Some x \<Rightarrow> Inr x
         | None \<Rightarrow> Inl (adapterErr (CtxError ''unexpected response type''))))"

fun sel_breakpoints :: "dap_response \<Rightarrow> dap_breakpoint list option" where
  "sel_breakpoints (BreakpointsResp bs) = Some bs"
| "sel_breakpoints _ = None"

fun sel_stack :: "dap_response \<Rightarrow> dap_frame list option" where
  "sel_stack (StackTraceResp fs) = Some fs"
| "sel_stack _ = None"

fun sel_evaluate :: "dap_response \<Rightarrow> (string \<times> string \<times> int) option" where
  "sel_evaluate (EvaluateResp r t n) = Some (r, t, n)"
| "sel_evaluate _ = None"

definition sel_any :: "dap_response \<Rightarrow> unit option" where
  "sel_any _ = Some ()"

definition disconnect :: "bool \<Rightarrow> bool \<Rightarrow> dap_request" where
  "disconnect term explicit = DisconnectReq (if term \<or> explicit then Some term else None)"

definition shutdownAdapter :: "env \<Rightarrow> bool \<Rightarrow> session \<Rightarrow> session" where
  "shutdownAdapter E term s =
    (if s_ended s \<or> \<not> s_client s then s
     else fst (Do E (disconnect term (s_mode s \<noteq> [])) (s\<lparr>s_ended := True\<rparr>)))"

section \<open>Invariant\<close>

text \<open>
  The breakpoints of a session: one non-empty list per file, of breakpoints of that
  file, with ids given out once each.
\<close>

definition bps_inv :: "int \<Rightarrow> bp_map \<Rightarrow> bool" where
  "bps_inv n m \<longleftrightarrow> 0 \<le> n \<and> distinct (map fst m)
    \<and> list_all (\<lambda>(k, bs). bs \<noteq> [] \<and> list_all (\<lambda>b. bp_File b = k) bs) m
    \<and> distinct (map bp_ID (concat (map snd m)))
    \<and> list_all (\<lambda>b. 1 \<le> bp_ID b \<and> bp_ID b \<le> n) (concat (map snd m))"

definition sess_inv :: "session \<Rightarrow> bool" where
  "sess_inv s \<longleftrightarrow> log_inv (s_log s) \<and> lease_inv (s_lease s) \<and> pres_inv s \<and> bps_inv (s_nextBP s) (s_bps s)"

text \<open>
  What clients set of a breakpoint, and the session's own counters of it: everything
  but where and whether the adapter placed it.
\<close>

definition bp_core :: "breakpoint \<Rightarrow> breakpoint" where
  "bp_core b = b\<lparr>bp_Line := 0, bp_Verified := False, bp_Message := [], bp_Note := [], b_adapterID := 0, b_source := []\<rparr>"

definition bp_view :: "session \<Rightarrow> bp_map" where
  "bp_view s = map (\<lambda>(k, bs). (k, map bp_core bs)) (s_bps s)"

lemma bp_core_sel [simp]:
  "bp_ID (bp_core b) = bp_ID b" "bp_File (bp_core b) = bp_File b" "bp_Owner (bp_core b) = bp_Owner b"
  "bp_Temporary (bp_core b) = bp_Temporary b" "bp_Editor (bp_core b) = bp_Editor b" "bp_key (bp_core b) = bp_key b"
  "bp_Condition (bp_core b) = bp_Condition b" "bp_Hits (bp_core b) = bp_Hits b"
  by (simp_all add: bp_core_def bp_key_def)

lemma bp_core_idem [simp]: "bp_core (bp_core b) = bp_core b"
  by (simp add: bp_core_def)

lemma placed_core [simp]: "bp_core (placed g b) = bp_core b"
  by (simp add: placed_def bp_core_def Let_def split: option.splits)

lemma core_eqD: "bp_core a = bp_core b \<Longrightarrow> bp_ID a = bp_ID b \<and> bp_File a = bp_File b"
  using bp_core_sel by metis

lemma map_bps_view: "(\<And>b. bp_core (f b) = bp_core b) \<Longrightarrow> bp_view (map_bps f s) = bp_view s"
  by (auto simp: bp_view_def map_bps_def)

text \<open>The invariant of the breakpoints only depends on their view.\<close>

lemma bps_inv_view: "bps_inv n (map (\<lambda>(k, bs). (k, map bp_core bs)) m) = bps_inv n m"
proof -
  let ?m = "map (\<lambda>(k, bs). (k, map bp_core bs)) m"
  have c: "concat (map snd ?m) = map bp_core (concat (map snd m))" and f: "map fst ?m = map fst m"
    by (induction m) (simp_all add: case_prod_unfold)
  show ?thesis unfolding bps_inv_def c f
    by (simp add: list.pred_map comp_def case_prod_unfold)
qed

lemma sess_inv_view:
  "sess_inv s \<longleftrightarrow> log_inv (s_log s) \<and> lease_inv (s_lease s) \<and> pres_inv s \<and> bps_inv (s_nextBP s) (bp_view s)"
  by (simp add: sess_inv_def bp_view_def bps_inv_view)

section \<open>What other goroutines leave alone\<close>

text \<open>
  The part of the state that only the requests of this development change: the
  breakpoints up to where the adapter placed them, the exception modes and the
  session's identity. No event, lease call or connection changes it.
\<close>

definition kept :: "session \<Rightarrow> session \<Rightarrow> bool" where
  "kept s s' \<longleftrightarrow> bp_view s' = bp_view s \<and> s_nextBP s' = s_nextBP s \<and> s_excModes s' = s_excModes s
    \<and> s_ID s' = s_ID s \<and> s_mode s' = s_mode s \<and> s_run s' = s_run s \<and> s_pathMap s' = s_pathMap s
    \<and> s_client s' = s_client s \<and> s_excFilters s' = s_excFilters s \<and> s_Lang s' = s_Lang s
    \<and> s_claimKey s' = s_claimKey s \<and> s_group s' = s_group s \<and> s_CreatedAt s' = s_CreatedAt s
    \<and> (s_initialized s \<longrightarrow> s_initialized s')"

lemma kept_refl [simp, intro]: "kept s s"
  by (simp add: kept_def)

lemma kept_trans: "kept s t \<Longrightarrow> kept t u \<Longrightarrow> kept s u"
  by (simp add: kept_def)

text \<open>Keeping both the invariant and the rest: what is proved of each step.\<close>

definition quiet :: "session \<Rightarrow> session \<Rightarrow> bool" where
  "quiet s t \<longleftrightarrow> kept s t \<and> (sess_inv s \<longrightarrow> sess_inv t)"

lemma quiet_refl [simp, intro]: "quiet s s"
  by (simp add: quiet_def)

lemma quiet_trans: "quiet s t \<Longrightarrow> quiet t u \<Longrightarrow> quiet s u"
  by (auto simp: quiet_def intro: kept_trans)

lemma quiet_log_event [simp]: "quiet s t \<Longrightarrow> quiet s (log_event now e t)"
  by (erule quiet_trans) (simp add: quiet_def kept_def bp_view_def sess_inv_def pres_inv_def log_append_inv)

text \<open>Updates of fields that neither the invariant nor \<^const>\<open>kept\<close> reads.\<close>

lemma quiet_fields [simp]:
  "quiet s (t\<lparr>s_lastOutput := x0\<rparr>) = quiet s t"
  "quiet s (t\<lparr>s_stopGen := x1\<rparr>) = quiet s t"
  "quiet s (t\<lparr>s_filters := x2\<rparr>) = quiet s t"
  "quiet s (t\<lparr>s_shutdowns := x3\<rparr>) = quiet s t"
  "quiet s (t\<lparr>s_endReason := x4\<rparr>) = quiet s t"
  "quiet s (t\<lparr>s_pid := x5\<rparr>) = quiet s t"
  "quiet s (t\<lparr>s_container := x6\<rparr>) = quiet s t"
  "quiet s (t\<lparr>s_programExited := x7\<rparr>) = quiet s t"
  "quiet s (t\<lparr>s_exitCode := x8\<rparr>) = quiet s t"
  "quiet s (t\<lparr>s_sent := x9\<rparr>) = quiet s t"
  "quiet s (t\<lparr>s_ended := x10\<rparr>) = quiet s t"
  "quiet s (t\<lparr>s_clients := x11\<rparr>) = quiet s t"
  "quiet s (t\<lparr>s_execInFlight := x12\<rparr>) = quiet s t"
  "quiet s (t\<lparr>s_stepping := x13\<rparr>) = quiet s t"
  "quiet s (t\<lparr>s_pauseRequested := x14\<rparr>) = quiet s t"
  "quiet s (t\<lparr>s_resumedAt := x15\<rparr>) = quiet s t"
  "quiet s (t\<lparr>s_stopping := x16\<rparr>) = quiet s t"
  "quiet s (t\<lparr>s_stopReason := x17\<rparr>) = quiet s t"
  "quiet s (t\<lparr>s_stops := x18\<rparr>) = quiet s t"
  "quiet s (t\<lparr>s_stop := x19\<rparr>) = quiet s t"
  "quiet s (t\<lparr>s_stoppedAt := x20\<rparr>) = quiet s t"
  "quiet s (t\<lparr>s_state := x21\<rparr>) = quiet s t"
  "quiet s (t\<lparr>s_changed := x22\<rparr>) = quiet s t"
  "quiet s (t\<lparr>s_cur := x23\<rparr>) = quiet s t"
  "quiet s (t\<lparr>s_prev := x24\<rparr>) = quiet s t"
  "quiet s (t\<lparr>s_curStale := x25\<rparr>) = quiet s t"
  by (simp_all add: quiet_def kept_def bp_view_def sess_inv_def pres_inv_def presence_of_def)

lemma quiet_initialized [simp]: "quiet s t \<Longrightarrow> quiet s (t\<lparr>s_initialized := True\<rparr>)"
  by (erule quiet_trans) (simp add: quiet_def kept_def bp_view_def sess_inv_def pres_inv_def presence_of_def)

lemma quiet_setState [simp]: "quiet s (setStateLocked st t) = quiet s t" "quiet s (bump t) = quiet s t"
  by (simp_all add: setStateLocked_def bump_def)

lemma quiet_fold: "(\<And>x t. quiet t (f x t)) \<Longrightarrow> quiet s (fold f xs s)"
  by (induction xs arbitrary: s) (auto intro: quiet_trans)

lemma quiet_output [simp]: "quiet s (appendOutputLocked now cat txt s)"
  unfolding appendOutputLocked_def Let_def by (cases "cat = ''telemetry'' \<or> txt = []") simp_all

lemma quiet_applyStop [simp]: "quiet s t \<Longrightarrow> quiet s (applyStopLocked now st t)"
  by (simp add: applyStopLocked_def Let_def)

lemma quiet_publish [simp]: "quiet s (publish now gen st desc s)"
  by (simp add: publish_def)

lemma quiet_onStopped [simp]: "quiet s (onStoppedLocked now reason thread desc txt allStopped s)"
  by (simp add: onStoppedLocked_def Let_def)

lemma quiet_onContinued [simp]: "quiet s (onContinuedLocked now thread s)"
  by (simp add: onContinuedLocked_def Let_def)

lemma quiet_onExited [simp]: "quiet s (onExitedLocked now code s)"
  by (simp add: onExitedLocked_def hostExitedLocked_def)

lemma quiet_endLocked [simp]: "quiet s (endLocked now reason s)"
  by (simp add: endLocked_def Let_def)

lemma quiet_map_bps:
  assumes "\<And>b. bp_core (f b) = bp_core b"
  shows "quiet s (map_bps f s)"
proof -
  have v: "bp_view (map_bps f s) = bp_view s" by (rule map_bps_view[OF assms])
  have "kept s (map_bps f s)" unfolding kept_def v by (simp add: map_bps_def)
  moreover have "sess_inv (map_bps f s) = sess_inv s"
    unfolding sess_inv_view v by (simp add: map_bps_def pres_inv_def presence_of_def)
  ultimately show ?thesis by (simp add: quiet_def)
qed

lemma quiet_logBreakpoint [simp]: "quiet s t \<Longrightarrow> quiet s (logBreakpointLocked now action actor b t)"
  by (simp add: logBreakpointLocked_def)

lemma quiet_updateBreakpoint [simp]: "quiet s (updateBreakpointLocked now g s)"
  unfolding updateBreakpointLocked_def Let_def
  by (simp add: quiet_trans[OF quiet_map_bps quiet_fold[of "logBreakpointLocked now ''changed'' []"]])

lemma log_inv_sink [simp]: "log_inv (l\<lparr>el_sink := r\<rparr>) = log_inv l"
  by (simp add: log_inv_def)

lemma quiet_closeRecording [simp]: "quiet s t \<Longrightarrow> quiet s (closeRecording t)"
  by (erule quiet_trans) (simp add: closeRecording_def quiet_def kept_def bp_view_def sess_inv_def pres_inv_def presence_of_def)

lemma quiet_onEvent [simp]: "quiet s (onEvent now ev s)"
  by (cases ev) (simp_all split: option.splits)

lemma quiet_watchAdapter [simp]: "quiet s (watchAdapter now s)"
  by (simp add: watchAdapter_def)

text \<open>A lease call changes the lease and the log alone.\<close>

definition lease_only :: "session \<Rightarrow> session \<Rightarrow> bool" where
  "lease_only s t \<longleftrightarrow> (\<exists>l lg. t = s\<lparr>s_lease := l, s_log := lg\<rparr> \<and> (log_inv (s_log s) \<longrightarrow> log_inv lg))"

lemma lease_only_refl [simp]: "lease_only s s"
  unfolding lease_only_def by (rule exI[of _ "s_lease s"], rule exI[of _ "s_log s"]) simp

lemma lease_only_set [simp]: "lease_only s t \<Longrightarrow> lease_only s (t\<lparr>s_lease := l\<rparr>)"
proof -
  assume "lease_only s t"
  then obtain k lg where "t = s\<lparr>s_lease := k, s_log := lg\<rparr>" "log_inv (s_log s) \<longrightarrow> log_inv lg" by (auto simp: lease_only_def)
  then show ?thesis unfolding lease_only_def by (intro exI[of _ l] exI[of _ lg]) simp
qed

lemma lease_only_log [simp]: "lease_only s t \<Longrightarrow> lease_only s (log_event now e t)"
proof -
  assume "lease_only s t"
  then obtain k lg where "t = s\<lparr>s_lease := k, s_log := lg\<rparr>" "log_inv (s_log s) \<longrightarrow> log_inv lg" by (auto simp: lease_only_def)
  then show ?thesis unfolding lease_only_def log_event_def
    by (intro exI[of _ k] exI[of _ "log_append now e lg"]) (simp add: log_append_inv)
qed

lemma lease_step_only: "lease_only s (lease_step now call s)"
  by (cases call) (simp_all add: TakeLease_def ReleaseLease_def GrantLease_def SetLeasePolicy_def acquireLocked_def
      RequestLease_def dropRequestLocked_def setHolderLocked_def Let_def split: sum.splits)

lemma quiet_lease_step [simp]: "quiet s (lease_step now call s)"
proof -
  obtain l lg where t: "lease_step now call s = s\<lparr>s_lease := l, s_log := lg\<rparr>" "log_inv (s_log s) \<longrightarrow> log_inv lg"
    using lease_step_only lease_only_def by blast
  have "lease_inv (s_lease s) \<Longrightarrow> lease_inv l" using lease_step_inv[of s now call] t(1) by simp
  then show ?thesis unfolding t(1) using t(2)
    by (simp add: quiet_def kept_def bp_view_def sess_inv_def pres_inv_def presence_of_def)
qed

lemma quiet_touch [simp]: "quiet s (touchLocked now c s)"
  by (simp add: touchLocked_def split: option.splits)

lemma quiet_presence:
  assumes "kept s t" "s_lease t = s_lease s" "s_bps t = s_bps s" "log_inv (s_log s) \<longrightarrow> log_inv (s_log t)"
    "pres_inv s \<longrightarrow> pres_inv t"
  shows "quiet s t"
proof -
  have "s_nextBP t = s_nextBP s" using assms(1) by (simp add: kept_def)
  then show ?thesis using assms unfolding quiet_def sess_inv_def by simp
qed

lemma kept_simps [simp]:
  "kept s (log_event now e t) = kept s t" "kept s (t\<lparr>s_presence := p\<rparr>) = kept s t" "kept s (t\<lparr>s_connGen := g\<rparr>) = kept s t"
  "kept s (set_presence cid q t) = kept s t" "kept s (del_presence cid t) = kept s t"
  by (simp_all add: kept_def bp_view_def set_presence_def del_presence_def)

lemma kept_touch [simp]: "kept s (touchLocked now c s)"
  using quiet_touch quiet_def by blast

lemma touch_log_inv [simp]: "log_inv (s_log s) \<Longrightarrow> log_inv (s_log (touchLocked now c s))"
  by (simp add: touchLocked_def log_append_inv split: option.splits)

lemma quiet_connect [simp]: "quiet s (fst (Connect now c s))"
  by (rule quiet_presence) (simp_all add: Connect_inv, simp_all add: Connect_def Let_def log_append_inv)

lemma quiet_decrement [simp]: "quiet s (fst (decrement now d cn s))"
  by (rule quiet_presence)
    (simp_all add: decrement_inv, simp_all add: decrement_def Let_def log_append_inv split: option.splits)

lemma quiet_inter [simp]: "quiet s (inter_step now i s)"
  by (cases i) (simp_all add: Touch_def)

lemma quiet_inters [simp]: "quiet s (inters now is s)"
  unfolding inters_def by (rule quiet_fold) simp

lemma quiet_Do [simp]: "quiet s (fst (Do E req s))"
proof -
  have "quiet s (inters now is (s\<lparr>s_sent := rs\<rparr>))" for now "is" rs
    by (rule quiet_trans[of s "s\<lparr>s_sent := rs\<rparr>"]) simp_all
  then show ?thesis by (simp add: Do_def Let_def case_prod_unfold)
qed

lemma quiet_Call [simp]: "quiet s (fst (Call E req sel s))"
  using quiet_Do[of s E req] by (cases "Do E req s"; cases "snd (Do E req s)") (simp_all add: Call_def)

lemma quiet_shutdown [simp]: "quiet s (shutdownAdapter E trm s)"
  unfolding shutdownAdapter_def
  using quiet_trans[of s "s\<lparr>s_ended := True\<rparr>" "fst (Do E req (s\<lparr>s_ended := True\<rparr>))" for req] by simp

lemma kept_steps [simp]:
  "kept s (fst (Do E req s))" "kept s (fst (Call E req sel s))" "kept s (inter_step now i s)"
  using quiet_Do quiet_Call quiet_inter quiet_def by blast+

end
