(* ===== verification/Anchor.thy ===== *)
theory Anchor
  imports Path_Map
begin

text \<open>
  Anchors (\<^verbatim>\<open>internal/session/anchor.go\<close>): a breakpoint given by the text of its line.
  The lines of the file, the one line that holds the text, and the score that ranks
  the closest lines (the longest common subsequence of their tokens), with the array
  program of \<^verbatim>\<open>lcs\<close> proved against the definition of a longest common subsequence.
  Which runes are letters and digits (\<^verbatim>\<open>unicode.IsLetter\<close>, \<^verbatim>\<open>unicode.IsDigit\<close>) is a
  parameter of \<open>tokens\<close>: their tables are data of the Unicode version.
\<close>

section \<open>Resolving an anchor\<close>

abbreviation maxAmbiguousLines :: nat where "maxAmbiguousLines \<equiv> 10"
abbreviation maxSourceFileSize :: int where "maxSourceFileSize \<equiv> 4 * 2 ^ 20"

text \<open>\<^verbatim>\<open>strings.Fields\<close>: the parts between runs of whitespace.\<close>

fun fields_loop :: "string \<Rightarrow> (rune \<times> string) list \<Rightarrow> string list" where
  "fields_loop cur [] = (if cur = [] then [] else [cur])"
| "fields_loop cur ((r, b) # cs) =
    (if IsSpace r then (if cur = [] then fields_loop [] cs else cur # fields_loop [] cs)
     else fields_loop (cur @ b) cs)"

definition Fields :: "string \<Rightarrow> string list" where
  "Fields s = fields_loop [] (chunks s)"

definition normalize :: "string \<Rightarrow> string" where
  "normalize s = join_with '' '' (Fields s)"

definition trim_prefix :: "string \<Rightarrow> string \<Rightarrow> string" where
  "trim_prefix p s = (if prefix p s then drop (length p) s else s)"

definition trim_suffix :: "string \<Rightarrow> string \<Rightarrow> string" where
  "trim_suffix p s = (if suffix p s then take (length s - length p) s else s)"

definition sourceLines :: "fs \<Rightarrow> string \<Rightarrow> string list result" where
  "sourceLines F path =
    (let unreadable = Inl (NewError CodeInvalidRequest
           [Lit (''can't read '' @ path @ '' to find the anchor: '' @ fs_ErrText F path)]) in
     case fs_Stat F path of
       None \<Rightarrow> unreadable
     | Some info \<Rightarrow>
         if fi_Size info > maxSourceFileSize
         then Inl (NewError CodeInvalidRequest
           [Lit (path @ '' is too big to search for an anchor ('' @ itoa (fi_Size info)
                 @ '' bytes; the limit is '' @ itoa maxSourceFileSize @ '')'')])
         else case fs_ReadFile F path of
           None \<Rightarrow> unreadable
         | Some d \<Rightarrow> Inr (map (trim_suffix [CHR 13])
             (split_at (CHR 10) (trim_prefix [CHR 0xEF, CHR 0xBB, CHR 0xBF] d))))"

text \<open>The loop over the lines, with the number of the first.\<close>

fun found_lines :: "string \<Rightarrow> int \<Rightarrow> string list \<Rightarrow> int list" where
  "found_lines want i [] = []"
| "found_lines want i (l # ls) =
    (if contains_sub (normalize l) want then i # found_lines want (i + 1) ls else found_lines want (i + 1) ls)"

definition anchor_not_found :: "string \<Rightarrow> string \<Rightarrow> error" where
  "anchor_not_found base want =
    NewError CodeAnchorNotFound [Lit (''no line of '' @ base @ '' holds ''), Quoted want]"

definition anchor_ambiguous :: "string \<Rightarrow> string \<Rightarrow> int list \<Rightarrow> error" where
  "anchor_ambiguous base want found =
    (let shown = take (min (length found) maxAmbiguousLines) found;
         lst = join_with '', '' (map itoa shown);
         lst' = (if length found > length shown
                 then lst @ '' and '' @ itoa (int (length found - length shown)) @ '' more'' else lst)
     in NewError CodeAnchorAmbiguous
          [Quoted want, Lit ('' is on '' @ itoa (int (length found)) @ '' lines of '' @ base @ '': '' @ lst')])"

definition resolveAnchor :: "fs \<Rightarrow> string \<Rightarrow> string \<Rightarrow> int result" where
  "resolveAnchor F path txt =
    (let want = normalize txt in
     if want = [] \<or> list_ex (\<lambda>c. c = CHR 13 \<or> c = CHR 10) txt
     then Inl (NewError CodeInvalidRequest [Lit ''invalid anchor '', Quoted txt])
     else case sourceLines F path of
       Inl e \<Rightarrow> Inl e
     | Inr lines \<Rightarrow>
         let found = found_lines want 1 lines in
         case found of
           [n] \<Rightarrow> Inr n
         | [] \<Rightarrow> Inl (anchor_not_found (Base path) want)
         | _ \<Rightarrow> Inl (anchor_ambiguous (Base path) want found))"

section \<open>Closest lines\<close>

text \<open>
  \<^verbatim>\<open>lcs\<close>: the row of the table for one more token of \<open>a\<close>. The inner loop walks \<open>b\<close>
  with \<open>p\<close> the old row from \<^verbatim>\<open>prev[j]\<close> on and \<open>c\<close> the last value written, \<^verbatim>\<open>cur[j]\<close>.
\<close>

fun lcs_row :: "'a \<Rightarrow> nat list \<Rightarrow> nat \<Rightarrow> 'a list \<Rightarrow> nat list" where
  "lcs_row x p c [] = []"
| "lcs_row x p c (y # b) =
    (let v = (if x = y then p ! 0 + 1 else if p ! 1 \<ge> c then p ! 1 else c)
     in v # lcs_row x (tl p) v b)"

definition lcs :: "'a list \<Rightarrow> 'a list \<Rightarrow> nat" where
  "lcs a b = foldl (\<lambda>prev x. 0 # lcs_row x prev 0 b) (replicate (length b + 1) 0) a ! length b"

text \<open>
  \<^verbatim>\<open>tokens\<close>, on the runes of the text. A token is made of runes again
  (\<^verbatim>\<open>string(rs[i:j])\<close>), so a malformed byte becomes the bytes of U+FFFD.
\<close>

definition rune_bytes :: "rune \<times> string \<Rightarrow> string" where
  "rune_bytes = (\<lambda>(r, b). if r = RuneError then [CHR 0xEF, CHR 0xBF, CHR 0xBD] else b)"

definition token_rest :: "(rune \<Rightarrow> bool) \<Rightarrow> (rune \<Rightarrow> bool) \<Rightarrow> rune \<Rightarrow> rune \<Rightarrow> bool" where
  "token_rest letter digit r q =
    (if r = byte (CHR ''_'') \<or> letter r then q = byte (CHR ''_'') \<or> letter q \<or> digit q
     else if digit r then digit q else False)"

function (sequential) tokens_loop :: "(rune \<Rightarrow> bool) \<Rightarrow> (rune \<Rightarrow> bool) \<Rightarrow> (rune \<times> string) list \<Rightarrow> nat \<Rightarrow> string list" where
  "tokens_loop letter digit [] room = []"
| "tokens_loop letter digit ((r, b) # cs) room =
    (if room = 0 then []
     else if IsSpace r then tokens_loop letter digit cs room
     else concat (map rune_bytes ((r, b) # takeWhile (token_rest letter digit r \<circ> fst) cs))
          # tokens_loop letter digit (dropWhile (token_rest letter digit r \<circ> fst) cs) (room - 1))"
  by pat_completeness auto
termination
  by (relation "measure (\<lambda>(_, _, cs, _). length cs)") (auto simp: less_Suc_eq_le length_dropWhile_le)

definition tokens :: "(rune \<Rightarrow> bool) \<Rightarrow> (rune \<Rightarrow> bool) \<Rightarrow> string \<Rightarrow> nat \<Rightarrow> string list" where
  "tokens letter digit s limit = tokens_loop letter digit (chunks s) limit"

definition isIdentToken :: "(rune \<Rightarrow> bool) \<Rightarrow> string \<Rightarrow> bool" where
  "isIdentToken letter t = (let r = fst (decode_rune t) in r = byte (CHR ''_'') \<or> letter r)"

definition sharesIdent :: "string list \<Rightarrow> string list \<Rightarrow> bool" where
  "sharesIdent lt idents = list_ex (\<lambda>t. t \<in> set idents) lt"

abbreviation maxSuggestions :: nat where "maxSuggestions \<equiv> 3"
abbreviation maxScoredLines :: nat where "maxScoredLines \<equiv> 5000"
abbreviation maxAnchorTokens :: nat where "maxAnchorTokens \<equiv> 64"
abbreviation maxLineTokens :: nat where "maxLineTokens \<equiv> 200"

text \<open>
  The scoring loop: the lines still to score, the number of lines scored. A score is
  \<^verbatim>\<open>lcs / len(wantTokens)\<close> and at least one half; the denominator is the same for all,
  so the model compares the numerators.
\<close>

fun score_lines :: "(rune \<Rightarrow> bool) \<Rightarrow> (rune \<Rightarrow> bool) \<Rightarrow> string list \<Rightarrow> string list \<Rightarrow> int \<Rightarrow> string list \<Rightarrow> nat \<Rightarrow> (int \<times> nat) list" where
  "score_lines letter digit wt idents i [] n = []"
| "score_lines letter digit wt idents i (l # ls) n =
    (if n \<ge> maxScoredLines then []
     else let lt = tokens letter digit l maxLineTokens in
       if \<not> sharesIdent lt idents \<or> 2 * min (length lt) (length wt) < length wt
       then score_lines letter digit wt idents (i + 1) ls n
       else let score = lcs wt lt; rest = score_lines letter digit wt idents (i + 1) ls (n + 1)
            in if 2 * score \<ge> length wt then (i, score) # rest else rest)"

definition closestLines :: "(rune \<Rightarrow> bool) \<Rightarrow> (rune \<Rightarrow> bool) \<Rightarrow> string list \<Rightarrow> string \<Rightarrow> nat \<Rightarrow> int list" where
  "closestLines letter digit lines want n =
    (let wt = tokens letter digit want maxAnchorTokens in
     if wt = [] then []
     else map fst (take n (sort_key (\<lambda>(_, score). - int score)
            (score_lines letter digit wt (filter (isIdentToken letter) wt) 1 lines 0))))"

definition staleNote :: "fs \<Rightarrow> string \<Rightarrow> time \<Rightarrow> string" where
  "staleNote F path since =
    (case fs_Stat F path of
       None \<Rightarrow> []
     | Some info \<Rightarrow> if \<not> fi_ModTime info > since then []
         else Base path @ '' changed after the session started: the program runs the code it was built from, ''
              @ ''so this line may not match it (restart the session to debug the new code)'')"

section \<open>The longest common subsequence\<close>

text \<open>The textbook recursion on the ends of the lists, which the table's rows compute.\<close>

fun llcs :: "'a list \<Rightarrow> 'a list \<Rightarrow> nat" where
  "llcs [] b = 0"
| "llcs (x # a) [] = 0"
| "llcs (x # a) (y # b) = (if x = y then llcs a b + 1 else max (llcs a (y # b)) (llcs (x # a) b))"

lemma llcs_nil [simp]: "llcs a [] = 0"
  by (cases a) auto

lemma llcs_attained: "\<exists>c. subseq c a \<and> subseq c b \<and> length c = llcs a b"
proof (induction a b rule: llcs.induct)
  case (3 x a y b)
  show ?case
  proof (cases "x = y")
    case True
    then obtain c where "subseq c a" "subseq c b" "length c = llcs a b" using 3(1) by blast
    then show ?thesis using True by (intro exI[of _ "x # c"]) simp
  next
    case False
    then obtain c d where "subseq c a" "subseq c (y # b)" "length c = llcs a (y # b)"
      "subseq d (x # a)" "subseq d b" "length d = llcs (x # a) b" using 3(2,3) by blast
    then show ?thesis using False by (cases "llcs a (y # b) \<le> llcs (x # a) b") (auto simp: max_def)
  qed
qed auto

lemma llcs_maximal: "subseq c a \<Longrightarrow> subseq c b \<Longrightarrow> length c \<le> llcs a b"
proof (induction a b arbitrary: c rule: llcs.induct)
  case (3 x a y b)
  show ?case
  proof (cases c)
    case (Cons z c')
    show ?thesis
    proof (cases "x = y")
      case True
      then show ?thesis using 3(1)[of "if z = x then c' else c"] 3(4,5) Cons by (cases "z = x") auto
    next
      case False
      then show ?thesis
        using 3(2,3)[of c] 3(4,5) Cons by (cases "z = x") (auto simp: max_def intro: le_trans)
    qed
  qed simp
qed auto

lemma subseq_revI: "subseq xs ys \<Longrightarrow> subseq (rev xs) (rev ys)"
  by (induction rule: list_emb.induct) (auto intro: list_emb_append_mono)

lemma subseq_rev_iff: "subseq (rev xs) (rev ys) = subseq xs ys"
  using subseq_revI[of xs ys] subseq_revI[of "rev xs" "rev ys"] by auto

text \<open>One row of the table: from the old row's values on, the new row's are the lengths for one more token.\<close>

lemma lcs_row_spec:
  assumes "b = b1 @ b2" "c = llcs (x # rev a) (rev b1)"
    "p = map (\<lambda>j. llcs (rev a) (rev (take j b))) [length b1..<length b + 1]"
  shows "lcs_row x p c b2 = map (\<lambda>j. llcs (x # rev a) (rev (take j b))) [length b1 + 1..<length b + 1]"
  using assms
proof (induction b2 arbitrary: b1 c p)
  case (Cons y b2)
  let ?k = "length b1"
  have up: "[?k..<length b + 1] = ?k # (?k + 1) # [?k + 2..<length b + 1]"
    using Cons.prems(1) by (simp add: upt_conv_Cons del: upt_Suc)
  have p: "p ! 0 = llcs (rev a) (rev b1)" "p ! 1 = llcs (rev a) (y # rev b1)"
    unfolding Cons.prems(3) up using Cons.prems(1) by (simp_all del: upt_Suc)
  have tl: "tl p = map (\<lambda>j. llcs (rev a) (rev (take j b))) [length (b1 @ [y])..<length b + 1]"
    unfolding Cons.prems(3) using Cons.prems(1) by (simp add: upt_conv_Cons[of ?k] del: upt_Suc)
  have v: "(if x = y then p ! 0 + 1 else if p ! 1 \<ge> c then p ! 1 else c) = llcs (x # rev a) (rev (b1 @ [y]))"
    using p Cons.prems(2) by (simp add: max_def)
  have "lcs_row x (tl p) (llcs (x # rev a) (rev (b1 @ [y]))) b2
      = map (\<lambda>j. llcs (x # rev a) (rev (take j b))) [length (b1 @ [y]) + 1..<length b + 1]"
    by (rule Cons.IH) (use Cons.prems(1) tl in simp_all)
  then show ?case using Cons.prems(1) by (simp add: v Let_def upt_conv_Cons del: llcs.simps upt_Suc)
qed simp

lemma lcs_rows:
  "foldl (\<lambda>prev x. 0 # lcs_row x prev 0 b) (replicate (length b + 1) 0) a
    = map (\<lambda>j. llcs (rev a) (rev (take j b))) [0..<length b + 1]"
proof (induction a rule: rev_induct)
  case Nil
  show ?case by (simp add: map_replicate_const)
next
  case (snoc x a)
  have "lcs_row x (map (\<lambda>j. llcs (rev a) (rev (take j b))) [length ([] :: 'a list)..<length b + 1]) 0 b
      = map (\<lambda>j. llcs (x # rev a) (rev (take j b))) [length ([] :: 'a list) + 1..<length b + 1]"
    by (rule lcs_row_spec) simp_all
  then show ?case using snoc.IH by (simp add: upt_conv_Cons del: upt_Suc)
qed

text \<open>
  The array program \<^verbatim>\<open>lcs\<close>, which keeps two rows of the table, computes the length
  of a longest common subsequence of its arguments.
\<close>

theorem lcs_is_longest_common_subsequence:
  "lcs a b = Max (length ` {c. subseq c a \<and> subseq c b})"
proof -
  have l: "lcs a b = llcs (rev a) (rev b)" unfolding lcs_def lcs_rows by (simp del: upt_Suc)
  obtain c where c: "subseq c (rev a)" "subseq c (rev b)" "length c = llcs (rev a) (rev b)" using llcs_attained by blast
  have "{c. subseq c a \<and> subseq c b} \<subseteq> set (subseqs a)" by auto
  then have fin: "finite {c. subseq c a \<and> subseq c b}" using finite_subset by blast
  show ?thesis unfolding l
  proof (rule Max_eqI[symmetric])
    show "finite (length ` {c. subseq c a \<and> subseq c b})" using fin by simp
    show "n \<le> llcs (rev a) (rev b)" if "n \<in> length ` {c. subseq c a \<and> subseq c b}" for n
      using that llcs_maximal[of "rev d" "rev a" "rev b" for d] by (auto simp: subseq_rev_iff)
    show "llcs (rev a) (rev b) \<in> length ` {c. subseq c a \<and> subseq c b}"
      using c subseq_revI[of c "rev a"] subseq_revI[of c "rev b"] by (intro image_eqI[of _ _ "rev c"]) auto
  qed
qed

section \<open>Anchors name one line\<close>

lemma found_lines_iff: "n \<in> set (found_lines want i ls) \<longleftrightarrow>
    (\<exists>k < length ls. n = i + int k \<and> contains_sub (normalize (ls ! k)) want)"
proof (induction ls arbitrary: i)
  case (Cons l ls)
  have ex: "(\<exists>k<length (l # ls). P k) \<longleftrightarrow> P 0 \<or> (\<exists>k<length ls. P (Suc k))" for P
    by (auto simp: less_Suc_eq_0_disj)
  show ?case unfolding ex using Cons.IH[of "i + 1"] by (auto simp: algebra_simps)
qed simp

lemma found_lines_sorted: "sorted_wrt (<) (found_lines want i ls) \<and> (\<forall>n \<in> set (found_lines want i ls). i \<le> n)"
  by (induction ls arbitrary: i) (auto simp: found_lines_iff)

lemma found_lines_distinct: "distinct (found_lines want i ls)"
  using found_lines_sorted strict_sorted_iff by blast

lemma distinct_single: "distinct xs \<Longrightarrow> xs = [x] \<longleftrightarrow> set xs = {x}"
  by (cases xs; cases "tl xs") auto

lemma shifted_single: "(\<lambda>k. 1 + int k) ` K = {n} \<longleftrightarrow> K = {nat (n - 1)} \<and> 1 \<le> n"
proof
  assume "(\<lambda>k. 1 + int k) ` K = {n}"
  then have "K \<noteq> {}" "\<And>k. k \<in> K \<Longrightarrow> 1 + int k = n" by auto
  then show "K = {nat (n - 1)} \<and> 1 \<le> n" by fastforce
qed auto

lemma resolveAnchor_found:
  "resolveAnchor F path txt = Inr n \<longleftrightarrow>
    normalize txt \<noteq> [] \<and> CHR 10 \<notin> set txt \<and> CHR 13 \<notin> set txt
    \<and> (\<exists>lines. sourceLines F path = Inr lines
        \<and> {k. k < length lines \<and> contains_sub (normalize (lines ! k)) (normalize txt)} = {nat (n - 1)} \<and> 1 \<le> n)"
proof (cases "normalize txt = [] \<or> list_ex (\<lambda>c. c = CHR 13 \<or> c = CHR 10) txt")
  case True
  then show ?thesis by (auto simp: resolveAnchor_def Let_def list_ex_iff)
next
  case ok: False
  show ?thesis
  proof (cases "sourceLines F path")
    case (Inr ls)
    let ?f = "found_lines (normalize txt) 1 ls"
    let ?K = "{k. k < length ls \<and> contains_sub (normalize (ls ! k)) (normalize txt)}"
    have set_f: "set ?f = (\<lambda>k. 1 + int k) ` ?K" by (auto simp: found_lines_iff)
    have "resolveAnchor F path txt = Inr n \<longleftrightarrow> ?f = [n]"
      using ok Inr by (auto simp: resolveAnchor_def Let_def split: list.splits)
    also have "\<dots> \<longleftrightarrow> set ?f = {n}" by (rule distinct_single) (rule found_lines_distinct)
    also have "\<dots> \<longleftrightarrow> ?K = {nat (n - 1)} \<and> 1 \<le> n" unfolding set_f by (rule shifted_single)
    finally show ?thesis using ok Inr by (auto simp: list_ex_iff)
  qed (use ok in \<open>auto simp: resolveAnchor_def Let_def\<close>)
qed

section \<open>What an anchor is compared with\<close>

text \<open>
  The words of a text, without a word of the code: runs of runes that are not whitespace,
  each in front of the end of the text or of whitespace. The words with one space between
  two of them are the text with its whitespace runs as one space.
\<close>

inductive words_of :: "(rune \<times> string) list \<Rightarrow> string list \<Rightarrow> bool" where
  words_end: "list_all (IsSpace \<circ> fst) gap \<Longrightarrow> words_of gap []"
| words_more: "list_all (IsSpace \<circ> fst) gap \<Longrightarrow> w \<noteq> [] \<Longrightarrow> list_all (\<lambda>c. \<not> IsSpace (fst c)) w
    \<Longrightarrow> rest = [] \<or> IsSpace (fst (hd rest)) \<Longrightarrow> words_of rest ws
    \<Longrightarrow> words_of (gap @ w @ rest) (concat (map snd w) # ws)"

definition one_spaced :: "string \<Rightarrow> string \<Rightarrow> bool" where
  "one_spaced s t \<longleftrightarrow> (\<exists>ws. words_of (chunks s) ws \<and> t = join_with '' '' ws)"

text \<open>
  The lines of a file's bytes: a byte order mark in front is no part of them, no line holds
  a line feed, the lines with line feeds between them are the file, and a carriage return
  at a line's end is no part of the line.
\<close>

definition line_of :: "string \<Rightarrow> string \<Rightarrow> bool" where
  "line_of r l \<longleftrightarrow> r = l @ [CHR 13] \<or> r = l \<and> \<not> suffix [CHR 13] r"

definition lines_of :: "string \<Rightarrow> string list \<Rightarrow> bool" where
  "lines_of d ls \<longleftrightarrow>
    (\<exists>txt raw. (d = [CHR 0xEF, CHR 0xBB, CHR 0xBF] @ txt \<or> d = txt \<and> \<not> prefix [CHR 0xEF, CHR 0xBB, CHR 0xBF] d)
      \<and> raw \<noteq> [] \<and> list_all (\<lambda>r. CHR 10 \<notin> set r) raw \<and> join_with [CHR 10] raw = txt \<and> list_all2 line_of raw ls)"

lemma fields_gap: "list_all (IsSpace \<circ> fst) gap \<Longrightarrow> fields_loop [] (gap @ cs) = fields_loop [] cs"
  by (induction gap) auto

lemma fields_word:
  assumes "list_all (\<lambda>c. \<not> IsSpace (fst c)) w" "rest = [] \<or> IsSpace (fst (hd rest))" "cur @ concat (map snd w) \<noteq> []"
  shows "fields_loop cur (w @ rest) = (cur @ concat (map snd w)) # fields_loop [] rest"
  using assms
proof (induction w arbitrary: cur)
  case Nil
  then show ?case by (cases rest) auto
next
  case (Cons c w)
  then show ?case using Cons.IH[of "cur @ snd c"] Cons.prems
    by (cases c; cases rest) auto
qed

lemma words_fields: "words_of cs ws \<Longrightarrow> list_all (\<lambda>c. snd c \<noteq> []) cs \<Longrightarrow> fields_loop [] cs = ws"
proof (induction rule: words_of.induct)
  case (words_end gap)
  then show ?case using fields_gap[of gap "[]"] by simp
next
  case (words_more gap w rest ws)
  moreover have "concat (map snd w) \<noteq> []" using words_more by (cases w) auto
  ultimately show ?case by (simp add: fields_gap fields_word)
qed

lemma words_exist: "\<exists>ws. words_of cs ws"
proof (induction cs rule: length_induct)
  case (1 cs)
  let ?p = "IsSpace \<circ> fst"
  let ?gap = "takeWhile ?p cs"
  let ?w = "takeWhile (Not \<circ> ?p) (dropWhile ?p cs)"
  let ?rest = "dropWhile (Not \<circ> ?p) (dropWhile ?p cs)"
  have gap: "list_all ?p ?gap" by (auto simp: list_all_iff dest: set_takeWhileD)
  show ?case
  proof (cases "dropWhile ?p cs")
    case Nil
    then have "?gap = cs" by (metis append.right_neutral takeWhile_dropWhile_id)
    then show ?thesis using gap words_end by metis
  next
    case (Cons c rs)
    then have c: "\<not> ?p c" using hd_dropWhile[of ?p cs] by simp
    then have w: "?w \<noteq> []" using Cons by simp
    have "length ?rest \<le> length rs" using Cons c by (simp add: length_dropWhile_le)
    moreover have "length (dropWhile ?p cs) \<le> length cs" by (rule length_dropWhile_le)
    ultimately have "length ?rest < length cs" using Cons by simp
    then obtain ws where "words_of ?rest ws" using 1 by blast
    moreover have "?rest = [] \<or> IsSpace (fst (hd ?rest))" using hd_dropWhile[of "Not \<circ> ?p" "dropWhile ?p cs"] by fastforce
    moreover have "list_all (\<lambda>c. \<not> IsSpace (fst c)) ?w" by (auto simp: list_all_iff dest: set_takeWhileD)
    ultimately have "words_of (?gap @ ?w @ ?rest) (concat (map snd ?w) # ws)" by (intro words_more gap w)
    then show ?thesis by auto
  qed
qed

lemma one_spaced_iff: "one_spaced s t \<longleftrightarrow> normalize s = t"
proof -
  have bytes: "list_all (\<lambda>c. snd c \<noteq> []) (chunks s)" by (auto simp: list_all_iff dest: chunks_nonempty_parts)
  obtain ws where "words_of (chunks s) ws" using words_exist by blast
  then show ?thesis using words_fields[OF _ bytes] by (auto simp: one_spaced_def normalize_def Fields_def)
qed

lemma line_of_iff: "line_of r l \<longleftrightarrow> trim_suffix [CHR 13] r = l"
  by (auto simp: line_of_def trim_suffix_def suffix_def)

lemma lines_of_iff:
  "lines_of d ls \<longleftrightarrow> map (trim_suffix [CHR 13]) (split_at (CHR 10) (trim_prefix [CHR 0xEF, CHR 0xBB, CHR 0xBF] d)) = ls"
proof -
  let ?B = "[CHR 0xEF, CHR 0xBB, CHR 0xBF]"
  have front: "(d = ?B @ t \<or> d = t \<and> \<not> prefix ?B d) \<longleftrightarrow> trim_prefix ?B d = t" for t
    by (auto simp: trim_prefix_def prefix_def)
  have raw: "raw \<noteq> [] \<and> list_all (\<lambda>r. CHR 10 \<notin> set r) raw \<and> join_with [CHR 10] raw = t \<longleftrightarrow> split_at (CHR 10) t = raw" for raw t
    using split_join join_split split_at_no_sep split_at_nonempty by (fastforce simp: list_all_iff)
  have "list_all2 line_of raw ls \<longleftrightarrow> map (trim_suffix [CHR 13]) raw = ls" for raw
    by (simp add: list_eq_iff_nth_eq list_all2_conv_all_nth line_of_iff)
  then show ?thesis unfolding lines_of_def using front raw by metis
qed

text \<open>A file an anchor can be looked for in, and its bytes.\<close>

definition searchable :: "fs \<Rightarrow> string \<Rightarrow> string \<Rightarrow> bool" where
  "searchable F path d \<longleftrightarrow>
    (\<exists>info. fs_Stat F path = Some info \<and> fi_Size info \<le> 4 * 1024 * 1024) \<and> fs_ReadFile F path = Some d"

lemma sourceLines_iff: "sourceLines F path = Inr ls \<longleftrightarrow> (\<exists>d. searchable F path d \<and> lines_of d ls)"
  by (auto simp: sourceLines_def searchable_def lines_of_iff Let_def split: option.splits)

text \<open>
  C38: an anchor resolves to line \<open>n\<close> exactly if it is a text of one line that is not only
  whitespace, the file can be read and is at most 4 MiB, and line \<open>n\<close> (from 1) is the only
  line of the file that holds the anchor, both with their whitespace runs as one space and
  none at the ends. In particular a resolved line is never one of several.
\<close>

theorem anchor_resolves_iff_unique:
  "resolveAnchor F path txt = Inr n \<longleftrightarrow>
    (\<exists>want d ls. one_spaced txt want \<and> want \<noteq> [] \<and> CHR 10 \<notin> set txt \<and> CHR 13 \<notin> set txt
      \<and> searchable F path d \<and> lines_of d ls \<and> 1 \<le> n
      \<and> {k. k < length ls \<and> (\<exists>before after. one_spaced (ls ! k) (before @ want @ after))} = {nat (n - 1)})"
proof -
  have "resolveAnchor F path txt = Inr n \<longleftrightarrow>
    normalize txt \<noteq> [] \<and> CHR 10 \<notin> set txt \<and> CHR 13 \<notin> set txt
    \<and> (\<exists>ls. sourceLines F path = Inr ls
        \<and> {k. k < length ls \<and> contains_sub (normalize (ls ! k)) (normalize txt)} = {nat (n - 1)} \<and> 1 \<le> n)"
    by (rule resolveAnchor_found)
  then show ?thesis unfolding sourceLines_iff one_spaced_iff contains_sub_iff by auto
qed

end
