(* ===== verification/Breakpoints.thy ===== *)
theory Breakpoints
  imports Adapter Anchor
begin

text \<open>
  Breakpoint requests (\<^verbatim>\<open>breakpoints.go\<close>, \<^verbatim>\<open>replace.go\<close>, \<^verbatim>\<open>funcbps.go\<close> and the checks of
  \<^verbatim>\<open>caps.go\<close> in \<^verbatim>\<open>internal/session\<close>): checking a request, adding, removing and
  replacing breakpoints and sending a file's breakpoints to the adapter.

  A breakpoint pointer is the breakpoint's id. The requests of one client run as the
  source's sequences of critical sections, with the adapter (and everything that may
  happen meanwhile, see \<open>Adapter\<close>) in between.
\<close>

section \<open>Checking a request\<close>

definition no_spec :: breakpoint_spec where
  "no_spec = \<lparr>bs_File = [], bs_Line = 0, bs_Condition = [], bs_Function = [], bs_Anchor = [],
    bs_HitCondition = [], bs_LogMessage = []\<rparr>"

definition realPath :: "fs \<Rightarrow> string \<Rightarrow> string" where
  "realPath F p = (if p = [] then p else case fs_EvalSymlinks F p of Some r \<Rightarrow> r | None \<Rightarrow> p)"

definition checkSourceFile :: "fs \<Rightarrow> string \<Rightarrow> unit result" where
  "checkSourceFile F path =
    (case fs_Stat F path of
       None \<Rightarrow> Inl (NewError CodeInvalidRequest [Lit (''no source file '' @ path)])
     | Some info \<Rightarrow> if fi_IsDir info then Inl (NewError CodeInvalidRequest [Lit (''no source file '' @ path)]) else Inr ())"

definition not_absolute :: "string \<Rightarrow> error" where
  "not_absolute file = NewError CodeInvalidRequest
    [Lit (''invalid breakpoint file '' @ file @ '': want an absolute path'')]"

definition function_spec_error :: "breakpoint_spec \<Rightarrow> bool \<Rightarrow> error option" where
  "function_spec_error spec allowFunction =
    (if \<not> allowFunction then Some (NewError CodeInvalidRequest [Lit ''run-until needs a line, not a function''])
     else if bs_File spec \<noteq> [] \<or> bs_Line spec \<noteq> 0 \<or> bs_Anchor spec \<noteq> []
     then Some (NewError CodeInvalidRequest [Lit ''a function breakpoint has no file, line or anchor''])
     else if bs_HitCondition spec \<noteq> [] \<or> bs_LogMessage spec \<noteq> []
     then Some (NewError CodeInvalidRequest [Lit ''--hit and --log work on line breakpoints only''])
     else None)"

text \<open>\<^verbatim>\<open>resolveSpec\<close> returns the spec as far as it was resolved together with the error.\<close>

definition resolve_line :: "fs \<Rightarrow> breakpoint_spec \<Rightarrow> breakpoint_spec \<times> error option" where
  "resolve_line F spec =
    (case (if bs_Anchor spec \<noteq> [] \<and> bs_Line spec = 0
           then map_sum id (\<lambda>n. spec\<lparr>bs_Line := n\<rparr>) (resolveAnchor F (bs_File spec) (bs_Anchor spec)) else Inr spec) of
       Inl e \<Rightarrow> (spec, Some e)
     | Inr spec' \<Rightarrow>
         if bs_Line spec' < 1
         then (spec', Some (NewError CodeInvalidRequest
                [Lit (''invalid breakpoint '' @ bs_File spec' @ '':'' @ itoa (bs_Line spec'))]))
         else case parseEmulated spec' of Inl e \<Rightarrow> (spec', Some e) | Inr _ \<Rightarrow> (spec', None))"

definition resolveSpec :: "fs \<Rightarrow> breakpoint_spec \<Rightarrow> bool \<Rightarrow> breakpoint_spec \<times> error option" where
  "resolveSpec F spec allowFunction =
    (if bs_Function spec \<noteq> [] then (spec, function_spec_error spec allowFunction)
     else if \<not> IsAbs (bs_File spec) then (spec, Some (not_absolute (bs_File spec)))
     else let spec' = spec\<lparr>bs_File := realPath F (bs_File spec)\<rparr> in
       case checkSourceFile F (bs_File spec') of
         Inl e \<Rightarrow> (spec', Some e)
       | Inr _ \<Rightarrow> resolve_line F spec')"

definition unsupported :: "string \<Rightarrow> session \<Rightarrow> error" where
  "unsupported what s = NewError CodeUnsupported [Lit (''the '' @ s_Lang s @ '' debug adapter can't '' @ what)]"

definition checkBreakpointCapsLocked :: "breakpoint_spec \<Rightarrow> session \<Rightarrow> unit result" where
  "checkBreakpointCapsLocked spec s =
    (if \<not> s_capsKnown s then Inr ()
     else if bs_Function spec \<noteq> [] \<and> \<not> cap_FunctionBreakpoints (s_caps s)
     then Inl (unsupported ''set function breakpoints'' s)
     else if bs_Condition spec \<noteq> [] \<and> \<not> cap_ConditionalBreakpoints (s_caps s)
     then Inl (unsupported ''evaluate breakpoint conditions (--if)'' s)
     else Inr ())"

definition checkMapped :: "breakpoint_spec \<Rightarrow> session \<Rightarrow> unit result" where
  "checkMapped spec s = checkBreakpoint (s_pathMap s) spec"

section \<open>The breakpoints of a session\<close>

definition bps_at :: "string \<Rightarrow> session \<Rightarrow> breakpoint list" where
  "bps_at key s = (case map_of (s_bps s) key of Some bs \<Rightarrow> bs | None \<Rightarrow> [])"

definition findBreakpointLocked :: "int \<Rightarrow> session \<Rightarrow> breakpoint option" where
  "findBreakpointLocked i s = find (\<lambda>b. bp_ID b = i) (all_bps s)"

text \<open>A change through the pointer to breakpoint \<open>i\<close>.\<close>

definition update_bp :: "int \<Rightarrow> (breakpoint \<Rightarrow> breakpoint) \<Rightarrow> session \<Rightarrow> session" where
  "update_bp i f s = map_bps (\<lambda>b. if bp_ID b = i then f b else b) s"

definition setEmulated :: "breakpoint_spec \<Rightarrow> breakpoint \<Rightarrow> breakpoint" where
  "setEmulated spec b =
    (let (hit, logs) = (case parseEmulated spec of Inr p \<Rightarrow> p | Inl _ \<Rightarrow> (None, []))
     in b\<lparr>bp_HitCondition := bs_HitCondition spec, bp_LogMessage := bs_LogMessage spec, bp_Hits := 0,
          b_hit := hit, b_log := logs\<rparr>)"

definition new_bp :: "time \<Rightarrow> int \<Rightarrow> string \<Rightarrow> breakpoint_spec \<Rightarrow> breakpoint" where
  "new_bp now i owner spec = setEmulated spec
    \<lparr>bp_ID = i, bp_File = bs_File spec, bp_RequestedLine = bs_Line spec, bp_Line = bs_Line spec, bp_Verified = False,
     bp_Message = [], bp_Condition = bs_Condition spec, bp_Temporary = False, bp_Owner = owner, bp_CreatedAt = now,
     bp_Note = [], bp_Function = bs_Function spec, bp_Anchor = bs_Anchor spec, bp_HitCondition = [], bp_LogMessage = [],
     bp_Hits = 0, bp_Editor = False, b_adapterID = 0, b_source = [], b_hit = None, b_log = []\<rparr>"

definition addNewLocked :: "time \<Rightarrow> string \<Rightarrow> breakpoint_spec \<Rightarrow> session \<Rightarrow> session \<times> int" where
  "addNewLocked now owner spec s =
    (let i = s_nextBP s + 1 in
     (s\<lparr>s_nextBP := i, s_bps := aput (bs_File spec) (bps_at (bs_File spec) s @ [new_bp now i owner spec]) (s_bps s)\<rparr>, i))"

definition bp_differs :: "breakpoint_spec \<Rightarrow> breakpoint \<Rightarrow> bool" where
  "bp_differs spec b = (bp_Condition b \<noteq> bs_Condition spec \<or> bp_Temporary b \<or> bp_Anchor b \<noteq> bs_Anchor spec
    \<or> bp_HitCondition b \<noteq> bs_HitCondition spec \<or> bp_LogMessage b \<noteq> bs_LogMessage spec)"

definition respec :: "breakpoint_spec \<Rightarrow> breakpoint \<Rightarrow> breakpoint" where
  "respec spec b = setEmulated spec (b\<lparr>bp_Condition := bs_Condition spec, bp_Temporary := False, bp_Anchor := bs_Anchor spec\<rparr>)"

definition spec_key :: "breakpoint_spec \<Rightarrow> slot_key" where
  "spec_key spec = (bs_Function spec, bs_Line spec)"

text \<open>The breakpoint, whether it is new and whether it changed.\<close>

definition addBreakpointLocked :: "time \<Rightarrow> string \<Rightarrow> breakpoint_spec \<Rightarrow> session \<Rightarrow> session \<times> int \<times> bool \<times> bool" where
  "addBreakpointLocked now owner spec s =
    (case find (\<lambda>b. bp_Owner b = owner \<and> bp_key b = spec_key spec) (bps_at (bs_File spec) s) of
       Some b \<Rightarrow> (update_bp (bp_ID b) (respec spec) s, bp_ID b, False, bp_differs spec b)
     | None \<Rightarrow> (case addNewLocked now owner spec s of (s', i) \<Rightarrow> (s', i, True, False)))"

section \<open>Sending breakpoints to the adapter\<close>

definition sharedFunctionNote :: string where
  "sharedFunctionNote = ''shares its function with another client's breakpoint that has a different condition: ''
    @ ''it stops there unconditionally''"

definition answer :: "dap_breakpoint \<Rightarrow> string \<Rightarrow> breakpoint \<Rightarrow> breakpoint" where
  "answer g note b = (placed g b)\<lparr>b_adapterID := db_Id g, bp_Note := note\<rparr>"

definition apply_slot :: "slot \<times> dap_breakpoint \<Rightarrow> session \<Rightarrow> session" where
  "apply_slot = (\<lambda>(sl, g) s.
    let note = (if sl_note sl \<and> fst (sl_key sl) \<noteq> [] then sharedFunctionNote else [])
    in map_bps (\<lambda>b. if bp_ID b \<in> set (map bp_ID (sl_bps sl)) then answer g note b else b) s)"

definition applySlotsLocked :: "slot list \<Rightarrow> dap_breakpoint list \<Rightarrow> session \<Rightarrow> session" where
  "applySlotsLocked slots got s = fold apply_slot (zip slots got) s"

definition send_slots :: "env \<Rightarrow> dap_request \<Rightarrow> slot list \<Rightarrow> session \<Rightarrow> session \<times> unit result" where
  "send_slots E req slots s =
    (case Call E req sel_breakpoints s of
       (s', Inl e) \<Rightarrow> (s', Inl e)
     | (s', Inr got) \<Rightarrow> (applySlotsLocked slots got s', Inr ()))"

definition syncBreakpoints :: "env \<Rightarrow> string \<Rightarrow> session \<Rightarrow> session \<times> unit result" where
  "syncBreakpoints E file s =
    (if \<not> s_initialized s then (s, Inr ())
     else let slots = slotsFor (bps_at file s) in
       case s_pathMap s of
         Some m \<Rightarrow>
           (case ToRemote m file of
              None \<Rightarrow> if slots = [] then (s, Inr ()) else (s, checkMapped (no_spec\<lparr>bs_File := file\<rparr>) s)
            | Some _ \<Rightarrow> send_slots E (SetBreakpointsReq (Source (Base file) file [])
                (map (\<lambda>sl. (snd (sl_key sl), sl_condition sl)) slots)) slots s)
       | None \<Rightarrow> send_slots E (SetBreakpointsReq (Source (Base file) file [])
                (map (\<lambda>sl. (snd (sl_key sl), sl_condition sl)) slots)) slots s)"

definition syncFunctionBreakpoints :: "env \<Rightarrow> session \<Rightarrow> session \<times> unit result" where
  "syncFunctionBreakpoints E s =
    (if \<not> s_initialized s then (s, Inr ())
     else let slots = slotsFor (bps_at funcKey s) in
       send_slots E (SetFunctionBreakpointsReq (map (\<lambda>sl. (fst (sl_key sl), sl_condition sl)) slots)) slots s)"

definition syncKey :: "env \<Rightarrow> string \<Rightarrow> session \<Rightarrow> session \<times> unit result" where
  "syncKey E key s = (if key = funcKey then syncFunctionBreakpoints E s else syncBreakpoints E key s)"

text \<open>The loop over the touched files of \<^verbatim>\<open>removeBreakpoints\<close>, which stops at the first error.\<close>

fun sync_keys :: "env \<Rightarrow> string list \<Rightarrow> session \<Rightarrow> session \<times> error option" where
  "sync_keys E [] s = (s, None)"
| "sync_keys E (k # ks) s =
    (case syncKey E k s of (s', Inl e) \<Rightarrow> (s', Some e) | (s', Inr _) \<Rightarrow> sync_keys E ks s')"

section \<open>Adding and removing\<close>

fun annotate :: "env \<Rightarrow> session \<Rightarrow> api_breakpoint list \<Rightarrow> api_breakpoint list" where
  "annotate E s [] = []"
| "annotate E s (b # bs) =
    (if bp_File b = [] then b
     else let note = staleNote (env_fs E) (bp_File b) (s_CreatedAt s) in
       if note = [] then b
       else if bp_Note b = [] then b\<lparr>bp_Note := note\<rparr>
       else b\<lparr>bp_Note := bp_Note b @ ''; '' @ note\<rparr>) # annotate E s bs"

text \<open>The copy of breakpoint \<open>i\<close> as it is now.\<close>

definition copy_of :: "int \<Rightarrow> session \<Rightarrow> breakpoint" where
  "copy_of i s = (case findBreakpointLocked i s of Some b \<Rightarrow> b | None \<Rightarrow> new_bp 0 i [] no_spec)"

definition AddBreakpoint :: "env \<Rightarrow> client \<Rightarrow> breakpoint_spec \<Rightarrow> session \<Rightarrow> session \<times> api_breakpoint result" where
  "AddBreakpoint E c spec0 s =
    (case resolveSpec (env_fs E) spec0 True of
       (_, Some e) \<Rightarrow> (s, Inl e)
     | (spec, None) \<Rightarrow>
         if s_state s = StateExited then (s, Inl (stateError (s_ID s) (s_state s) ''adding a breakpoint needs a live session''))
         else case checkBreakpointCapsLocked spec s of
           Inl e \<Rightarrow> (s, Inl e)
         | Inr _ \<Rightarrow> (case checkMapped spec s of
             Inl e \<Rightarrow> (s, Inl e)
           | Inr _ \<Rightarrow> (case addBreakpointLocked (env_now E) (cl_ID c) spec s of (s1, i, isNew, changed) \<Rightarrow>
               (case syncKey E (bs_File spec) s1 of
                  (s2, Inl e) \<Rightarrow> (s2, Inl e)
                | (s2, Inr _) \<Rightarrow>
                    let b = copy_of i s2;
                        s3 = (if isNew then logBreakpointLocked (env_now E) ''added'' (cl_ID c) b s2
                              else if changed then logBreakpointLocked (env_now E) ''changed'' (cl_ID c) b s2 else s2)
                    in (s3, Inr (hd (annotate E s3 [api_of b])))))))"

definition drop_bps :: "(breakpoint \<Rightarrow> bool) \<Rightarrow> bp_map \<Rightarrow> bp_map" where
  "drop_bps P m = filter (\<lambda>(k, bs). bs \<noteq> []) (map (\<lambda>(k, bs). (k, delete_func P bs)) m)"

definition touched_keys :: "(breakpoint \<Rightarrow> bool) \<Rightarrow> bp_map \<Rightarrow> string list" where
  "touched_keys P m = map fst (filter (\<lambda>(k, bs). list_ex P bs) m)"

record removal =
  rm_removed :: nat
  rm_left :: nat
  rm_err :: "error option"

definition removeBreakpoints :: "env \<Rightarrow> string \<Rightarrow> (breakpoint \<Rightarrow> bool) \<Rightarrow> session \<Rightarrow> session \<times> removal" where
  "removeBreakpoints E actor match s =
    (let gone = filter match (all_bps s);
         touched = touched_keys match (s_bps s);
         s1 = s\<lparr>s_bps := drop_bps match (s_bps s)\<rparr>;
         (s2, err) = (if s_state s1 \<noteq> StateExited then sync_keys E touched s1 else (s1, None));
         s3 = fold (logBreakpointLocked (env_now E) ''removed'' actor) (sort_key bp_ID gone) s2
     in (s3, \<lparr>rm_removed = length gone, rm_left = length (all_bps s1), rm_err = err\<rparr>))"

definition no_breakpoint :: "int \<Rightarrow> error" where
  "no_breakpoint i = NewError CodeInvalidRequest [Lit (''no breakpoint '' @ itoa i)]"

definition not_owner :: "int \<Rightarrow> string \<Rightarrow> error" where
  "not_owner i owner = NewError CodeNotOwner [Lit (''breakpoint '' @ itoa i @ '' belongs to '' @ owner)]"

definition RemoveBreakpoint :: "env \<Rightarrow> client \<Rightarrow> int \<Rightarrow> bool \<Rightarrow> session \<Rightarrow> session \<times> removal" where
  "RemoveBreakpoint E c i force s =
    (if i = 0 then removeBreakpoints E (cl_ID c) (\<lambda>b. force \<or> bp_Owner b = cl_ID c) s
     else case findBreakpointLocked i s of
       None \<Rightarrow> (s, \<lparr>rm_removed = 0, rm_left = 0, rm_err = Some (no_breakpoint i)\<rparr>)
     | Some t \<Rightarrow>
         if bp_Owner t \<noteq> cl_ID c \<and> \<not> force
         then (s, \<lparr>rm_removed = 0, rm_left = 0, rm_err = Some (not_owner i (bp_Owner t))\<rparr>)
         else (case removeBreakpoints E (cl_ID c) (\<lambda>b. bp_ID b = bp_ID t) s of
                 (s', r) \<Rightarrow> (s', r\<lparr>rm_left := 0\<rparr>)))"

section \<open>Sending changes no breakpoint\<close>

lemma answer_core [simp]: "bp_core (answer g note b) = bp_core b"
  using placed_core[of g b] by (simp add: answer_def bp_core_def)

lemma quiet_apply_slot: "quiet s (apply_slot p s)"
  by (cases p) (simp add: apply_slot_def Let_def quiet_map_bps)

lemma quiet_applySlots [simp]: "quiet s t \<Longrightarrow> quiet s (applySlotsLocked slots got t)"
  unfolding applySlotsLocked_def by (erule quiet_trans) (rule quiet_fold, rule quiet_apply_slot)

lemma quiet_send_slots [simp]: "quiet s (fst (send_slots E req slots s))"
  using quiet_Call[of s E req sel_breakpoints]
  by (cases "Call E req sel_breakpoints s"; cases "snd (Call E req sel_breakpoints s)") (simp_all add: send_slots_def)

lemma quiet_syncKey [simp]: "quiet s (fst (syncKey E key s))"
  by (simp add: syncKey_def syncFunctionBreakpoints_def syncBreakpoints_def Let_def split: option.splits)

lemma quiet_sync_keys [simp]: "quiet s (fst (sync_keys E ks s))"
proof (induction ks arbitrary: s)
  case (Cons k ks)
  show ?case
    using quiet_syncKey[of s E k] Cons.IH[of "fst (syncKey E k s)"]
    by (cases "syncKey E k s"; cases "snd (syncKey E k s)") (auto intro: quiet_trans)
qed simp

lemma quiet_logs: "quiet s (fold (logBreakpointLocked now action actor) bs s)"
  by (rule quiet_fold) simp

lemma quietD: "quiet s t \<Longrightarrow> bp_view t = bp_view s" "quiet s t \<Longrightarrow> sess_inv s \<Longrightarrow> sess_inv t"
  "quiet s t \<Longrightarrow> s_nextBP t = s_nextBP s" "quiet s t \<Longrightarrow> s_excModes t = s_excModes s" "quiet s t \<Longrightarrow> s_ID t = s_ID s"
  by (simp_all add: quiet_def kept_def)

section \<open>The list of breakpoints\<close>

definition view_bps :: "bp_map \<Rightarrow> breakpoint list" where
  "view_bps m = concat (map snd m)"

lemma all_view: "view_bps (bp_view s) = map bp_core (all_bps s)"
proof -
  have "concat (map snd (map (\<lambda>(k, bs). (k, map bp_core bs)) m)) = map bp_core (concat (map snd m))" for m :: bp_map
    by (induction m) (simp_all add: case_prod_unfold)
  then show ?thesis by (simp add: view_bps_def bp_view_def all_bps_def)
qed

lemma drop_bps_simps [simp]:
  "drop_bps P [] = []"
  "drop_bps P ((k, bs) # m) = (if delete_func P bs = [] then drop_bps P m else (k, delete_func P bs) # drop_bps P m)"
  by (simp_all add: drop_bps_def)

lemma view_drop: "view_bps (drop_bps P m) = delete_func P (view_bps m)"
  unfolding view_bps_def
proof (induction m)
  case (Cons p m)
  then show ?case by (cases p) simp
qed simp

lemma keys_drop: "set (map fst (drop_bps P m)) \<subseteq> set (map fst m)"
  by (induction m) (auto simp: drop_bps_def)

lemma distinct_drop: "distinct (map fst m) \<Longrightarrow> distinct (map fst (drop_bps P m))"
proof (induction m)
  case (Cons p m)
  then show ?case using keys_drop[of P m] by (cases p) auto
qed simp

lemma list_all_filter: "list_all P xs \<Longrightarrow> list_all P (filter Q xs)"
  by (simp add: list_all_iff)

lemma drop_bps_inv: "bps_inv n m \<Longrightarrow> bps_inv n (drop_bps P m)"
proof -
  assume inv: "bps_inv n m"
  have "list_all (\<lambda>(k, bs). bs \<noteq> [] \<and> list_all (\<lambda>b. bp_File b = k) bs) m
      \<Longrightarrow> list_all (\<lambda>(k, bs). bs \<noteq> [] \<and> list_all (\<lambda>b. bp_File b = k) bs) (drop_bps P m)"
  proof (induction m)
    case (Cons p m)
    then show ?case by (cases p) (simp add: list_all_iff)
  qed simp
  moreover have "distinct (map bp_ID (view_bps (drop_bps P m)))"
    using inv unfolding view_drop by (simp add: bps_inv_def view_bps_def distinct_map_filter')
  moreover have "list_all (\<lambda>b. 1 \<le> bp_ID b \<and> bp_ID b \<le> n) (view_bps (drop_bps P m))"
    using inv unfolding view_drop by (intro list_all_filter) (simp add: bps_inv_def view_bps_def)
  ultimately show ?thesis using inv distinct_drop by (simp add: bps_inv_def view_bps_def)
qed

text \<open>A choice of breakpoints that does not depend on where the adapter placed them.\<close>

definition by_core :: "(breakpoint \<Rightarrow> bool) \<Rightarrow> bool" where
  "by_core P \<longleftrightarrow> (\<forall>b. P (bp_core b) = P b)"

lemma drop_bps_core:
  assumes "by_core P"
  shows "map (\<lambda>(k, bs). (k, map bp_core bs)) (drop_bps P m) = drop_bps P (map (\<lambda>(k, bs). (k, map bp_core bs)) m)"
proof (induction m)
  case (Cons p m)
  obtain k bs where p: "p = (k, bs)" by fastforce
  have f: "filter (\<lambda>b. \<not> P b) (map bp_core bs) = map bp_core (filter (\<lambda>b. \<not> P b) bs)"
    using assms by (induction bs) (simp_all add: by_core_def)
  show ?case using Cons p by (simp add: f)
qed simp

section \<open>Removing\<close>

lemma removeBreakpoints_step:
  "quiet (s\<lparr>s_bps := drop_bps match (s_bps s)\<rparr>) (fst (removeBreakpoints E actor match s))"
proof -
  let ?s1 = "s\<lparr>s_bps := drop_bps match (s_bps s)\<rparr>"
  let ?r = "if s_state ?s1 \<noteq> StateExited then sync_keys E (touched_keys match (s_bps s)) ?s1 else (?s1, None)"
  have "quiet ?s1 (fst ?r)" by simp
  then show ?thesis
    unfolding removeBreakpoints_def Let_def case_prod_unfold fst_conv by (rule quiet_trans) (rule quiet_logs)
qed

lemma removeBreakpoints_view:
  "by_core match \<Longrightarrow> bp_view (fst (removeBreakpoints E actor match s)) = drop_bps match (bp_view s)"
  using quietD(1)[OF removeBreakpoints_step[where s = s and match = match and E = E and actor = actor]] drop_bps_core[of match "s_bps s"] by (simp add: bp_view_def)

lemma sess_inv_set_bps:
  "sess_inv s \<Longrightarrow> bps_inv n m \<Longrightarrow> sess_inv (s\<lparr>s_bps := m, s_nextBP := n\<rparr>)"
  "sess_inv s \<Longrightarrow> bps_inv (s_nextBP s) m \<Longrightarrow> sess_inv (s\<lparr>s_bps := m\<rparr>)"
  by (simp_all add: sess_inv_def pres_inv_def presence_of_def)

lemma removeBreakpoints_inv: "sess_inv s \<Longrightarrow> sess_inv (fst (removeBreakpoints E actor match s))"
  by (rule quietD(2)[OF removeBreakpoints_step]) (rule sess_inv_set_bps(2), simp, rule drop_bps_inv, simp add: sess_inv_def)

lemma find_bp_Some: "findBreakpointLocked i s = Some b \<Longrightarrow> b \<in> set (all_bps s) \<and> bp_ID b = i"
  by (auto simp: findBreakpointLocked_def find_Some_iff)

lemma RemoveBreakpoint_inv: "sess_inv s \<Longrightarrow> sess_inv (fst (RemoveBreakpoint E c i force s))"
  using removeBreakpoints_inv[of s E "cl_ID c"]
  by (simp add: RemoveBreakpoint_def case_prod_unfold split: option.splits)

section \<open>Adding\<close>

definition list_at :: "string \<Rightarrow> bp_map \<Rightarrow> breakpoint list" where
  "list_at k m = (case map_of m k of Some bs \<Rightarrow> bs | None \<Rightarrow> [])"

definition append_bp :: "string \<Rightarrow> breakpoint \<Rightarrow> bp_map \<Rightarrow> bp_map" where
  "append_bp k b m = aput k (list_at k m @ [b]) m"

lemma append_bp_simps [simp]:
  "append_bp k b [] = [(k, [b])]"
  "append_bp k b ((k', bs) # m) = (if k' = k then (k, bs @ [b]) # m else (k', bs) # append_bp k b m)"
  by (simp_all add: append_bp_def list_at_def)

lemma view_simps [simp]: "view_bps [] = []" "view_bps ((k, bs) # m) = bs @ view_bps m"
  by (simp_all add: view_bps_def)

lemma append_bp_mset: "mset (view_bps (append_bp k b m)) = add_mset b (mset (view_bps m))"
proof (induction m)
  case (Cons p m)
  then show ?case by (cases p; cases "fst p = k") simp_all
qed simp

lemma append_bp_filter: "\<not> P b \<Longrightarrow> filter P (view_bps (append_bp k b m)) = filter P (view_bps m)"
proof (induction m)
  case (Cons p m)
  then show ?case by (cases p; cases "fst p = k") simp_all
qed simp

lemma append_bp_inv:
  assumes "bps_inv n m" "bp_ID b = n + 1" "bp_File b = k"
  shows "bps_inv (n + 1) (append_bp k b m)"
proof -
  have ids: "mset (map bp_ID (view_bps (append_bp k b m))) = add_mset (n + 1) (mset (map bp_ID (view_bps m)))"
    using append_bp_mset[of k b m] assms(2) by simp
  have old: "distinct (map bp_ID (view_bps m))" "list_all (\<lambda>b. 1 \<le> bp_ID b \<and> bp_ID b \<le> n) (view_bps m)" "0 \<le> n"
    using assms(1) by (simp_all add: bps_inv_def view_bps_def)
  have le: "i \<le> n \<and> 1 \<le> i" if "i \<in> set (map bp_ID (view_bps m))" for i using old(2) that by (auto simp: list_all_iff)
  then have "n + 1 \<notin> set (map bp_ID (view_bps m))" by force
  then have "distinct (map bp_ID (view_bps m) @ [n + 1])" using old(1) by simp
  then have "distinct (map bp_ID (view_bps (append_bp k b m)))"
    using ids mset_eq_imp_distinct_iff[of "map bp_ID (view_bps (append_bp k b m))" "map bp_ID (view_bps m) @ [n + 1]"] by simp
  moreover have "set (map bp_ID (view_bps (append_bp k b m))) = insert (n + 1) (set (map bp_ID (view_bps m)))"
    using arg_cong[OF ids, of set_mset] by simp
  then have "list_all (\<lambda>i. 1 \<le> i \<and> i \<le> n + 1) (map bp_ID (view_bps (append_bp k b m)))"
    unfolding list_all_iff using le old(3) by fastforce
  moreover have "list_all (\<lambda>(k, bs). bs \<noteq> [] \<and> list_all (\<lambda>b. bp_File b = k) bs) (append_bp k b m)"
    using assms(1,3) unfolding bps_inv_def
  proof (induction m)
    case (Cons p m)
    then show ?case by (cases p; cases "fst p = k") (simp_all add: bps_inv_def)
  qed (simp)
  ultimately show ?thesis
    using assms(1) old(3) by (simp add: bps_inv_def view_bps_def append_bp_def distinct_aput list.pred_map comp_def)
qed

lemma setEmulated_sel [simp]:
  "bp_ID (setEmulated spec b) = bp_ID b" "bp_File (setEmulated spec b) = bp_File b" "bp_Owner (setEmulated spec b) = bp_Owner b"
  "bp_key (setEmulated spec b) = bp_key b" "bp_Temporary (setEmulated spec b) = bp_Temporary b"
  "bp_Condition (setEmulated spec b) = bp_Condition b" "bp_Editor (setEmulated spec b) = bp_Editor b"
  "bp_Line (setEmulated spec b) = bp_Line b"
  by (simp_all add: setEmulated_def Let_def bp_key_def split: prod.splits sum.splits)

lemma new_bp_sel [simp]:
  "bp_ID (new_bp now i owner spec) = i" "bp_File (new_bp now i owner spec) = bs_File spec"
  "bp_Owner (new_bp now i owner spec) = owner" "bp_key (new_bp now i owner spec) = spec_key spec"
  "\<not> bp_Temporary (new_bp now i owner spec)" "bp_Condition (new_bp now i owner spec) = bs_Condition spec"
  "\<not> bp_Editor (new_bp now i owner spec)"
  by (simp_all add: new_bp_def) (simp add: bp_key_def spec_key_def)

lemma respec_sel [simp]:
  "bp_ID (respec spec b) = bp_ID b" "bp_File (respec spec b) = bp_File b" "bp_Owner (respec spec b) = bp_Owner b"
  "bp_key (respec spec b) = bp_key b" "\<not> bp_Temporary (respec spec b)" "bp_Condition (respec spec b) = bs_Condition spec"
  "bp_Editor (respec spec b) = bp_Editor b"
  by (simp_all add: respec_def) (simp add: bp_key_def)

lemma addNewLocked_bps:
  "s_bps (fst (addNewLocked now owner spec s)) = append_bp (bs_File spec) (new_bp now (s_nextBP s + 1) owner spec) (s_bps s)"
  "snd (addNewLocked now owner spec s) = s_nextBP s + 1" "s_nextBP (fst (addNewLocked now owner spec s)) = s_nextBP s + 1"
  by (simp_all add: addNewLocked_def Let_def append_bp_def list_at_def bps_at_def)

lemma addNewLocked_inv: "sess_inv s \<Longrightarrow> sess_inv (fst (addNewLocked now owner spec s))"
  using append_bp_inv[of "s_nextBP s" "s_bps s" "new_bp now (s_nextBP s + 1) owner spec" "bs_File spec"]
  by (simp add: sess_inv_def addNewLocked_bps) (simp add: addNewLocked_def Let_def pres_inv_def presence_of_def)

text \<open>A change of a breakpoint that keeps its identity.\<close>

lemma map_bps_view_bps: "all_bps (map_bps f s) = map f (all_bps s)"
proof -
  have "concat (map snd (map (\<lambda>(k, bs). (k, map f bs)) m)) = map f (concat (map snd m))" for m :: bp_map
    by (induction m) (simp_all add: case_prod_unfold)
  then show ?thesis by (simp add: all_bps_def map_bps_def)
qed

lemma map_bps_inv:
  assumes "\<And>b. bp_ID (f b) = bp_ID b" "\<And>b. bp_File (f b) = bp_File b" "sess_inv s"
  shows "sess_inv (map_bps f s)"
proof -
  have v: "concat (map snd (s_bps (map_bps f s))) = map f (concat (map snd (s_bps s)))"
    using map_bps_view_bps[of f s] by (simp add: all_bps_def)
  have "map fst (s_bps (map_bps f s)) = map fst (s_bps s)" by (simp add: map_bps_def case_prod_unfold comp_def)
  moreover have "list_all (\<lambda>(k, bs). bs \<noteq> [] \<and> list_all (\<lambda>b. bp_File b = k) bs) (s_bps (map_bps f s))
      = list_all (\<lambda>(k, bs). bs \<noteq> [] \<and> list_all (\<lambda>b. bp_File b = k) bs) (s_bps s)"
    using assms(2) by (simp add: map_bps_def list.pred_map comp_def case_prod_unfold)
  moreover have "s_nextBP (map_bps f s) = s_nextBP s" "s_log (map_bps f s) = s_log s" "s_lease (map_bps f s) = s_lease s"
    "pres_inv (map_bps f s) = pres_inv s"
    by (simp_all add: map_bps_def pres_inv_def presence_of_def)
  ultimately show ?thesis
    using assms(1,3) unfolding sess_inv_def bps_inv_def v by (simp add: list.pred_map comp_def)
qed

lemma update_bp_inv:
  "(\<And>b. bp_ID (f b) = bp_ID b) \<Longrightarrow> (\<And>b. bp_File (f b) = bp_File b) \<Longrightarrow> sess_inv s \<Longrightarrow> sess_inv (update_bp i f s)"
  unfolding update_bp_def by (rule map_bps_inv) simp_all

lemma addBreakpointLocked_inv: "sess_inv s \<Longrightarrow> sess_inv (fst (addBreakpointLocked now owner spec s))"
  by (simp add: addBreakpointLocked_def update_bp_inv addNewLocked_inv case_prod_unfold split: option.splits)

lemma inv_ids: "sess_inv s \<Longrightarrow> distinct (map bp_ID (all_bps s))"
  by (simp add: sess_inv_def bps_inv_def all_bps_def)

lemma same_id: "distinct (map f xs) \<Longrightarrow> x \<in> set xs \<Longrightarrow> y \<in> set xs \<Longrightarrow> f x = f y \<Longrightarrow> x = y"
  by (simp add: distinct_map inj_on_def)

lemma find_by: "distinct (map f xs) \<Longrightarrow> x \<in> set xs \<Longrightarrow> find (\<lambda>y. f y = f x) xs = Some x"
  by (induction xs) auto

lemma bps_at_all: "b \<in> set (bps_at k s) \<Longrightarrow> b \<in> set (all_bps s)"
proof -
  assume b: "b \<in> set (bps_at k s)"
  then obtain bs where "map_of (s_bps s) k = Some bs" "b \<in> set bs" by (cases "map_of (s_bps s) k") (simp_all add: bps_at_def)
  then have "bs \<in> set (map snd (s_bps s))" using map_of_SomeD by force
  then show ?thesis unfolding all_bps_def set_concat using \<open>b \<in> set bs\<close> by (rule UN_I)
qed

lemma all_append:
  "s_bps t = append_bp k b (s_bps s) \<Longrightarrow> set (all_bps t) = insert b (set (all_bps s))"
  using arg_cong[OF append_bp_mset[of k b "s_bps s"], of set_mset] by (simp add: all_bps_def view_bps_def)

text \<open>A copy taken after a quiet step is the breakpoint, up to where the adapter placed it.\<close>

lemma copy_after:
  assumes "quiet s t" "sess_inv s" "b \<in> set (all_bps s)"
  shows "copy_of (bp_ID b) t \<in> set (all_bps t) \<and> bp_core (copy_of (bp_ID b) t) = bp_core b"
proof -
  have v: "map bp_core (all_bps t) = map bp_core (all_bps s)" using quietD(1)[OF assms(1)] by (metis all_view)
  obtain i where i: "i < length (all_bps s)" "all_bps s ! i = b" using assms(3) by (metis in_set_conv_nth)
  then have l: "i < length (all_bps t)" and c: "bp_core (all_bps t ! i) = bp_core b"
    using map_eq_imp_length_eq[OF v] arg_cong[OF v, of "\<lambda>xs. xs ! i"] by simp_all
  have id: "bp_ID b = bp_ID (all_bps t ! i)" using core_eqD[OF c] by simp
  have "findBreakpointLocked (bp_ID b) t = Some (all_bps t ! i)"
    unfolding findBreakpointLocked_def id
    by (rule find_by) (use l quietD(2)[OF assms(1,2)] inv_ids in simp_all)
  then show ?thesis using c l by (simp add: copy_of_def)
qed

definition others :: "string \<Rightarrow> session \<Rightarrow> breakpoint list" where
  "others cid s = filter (\<lambda>b. bp_Owner b \<noteq> cid) (view_bps (bp_view s))"

lemma others_alt: "others cid s = map bp_core (filter (\<lambda>b. bp_Owner b \<noteq> cid) (all_bps s))"
  unfolding others_def all_view by (induction "all_bps s" arbitrary: s) (simp_all add: filter_map comp_def)

lemma others_quiet: "quiet s t \<Longrightarrow> others cid t = others cid s"
  by (simp add: others_def quietD(1))

lemma all_bps_view: "all_bps s = view_bps (s_bps s)"
  by (simp add: all_bps_def view_bps_def)

lemma filter_map_other: "(\<And>x. x \<in> set xs \<Longrightarrow> f x = x \<or> \<not> P x \<and> \<not> P (f x)) \<Longrightarrow> filter P (map f xs) = filter P xs"
proof (induction xs)
  case (Cons x xs)
  then have "f x = x \<or> \<not> P x \<and> \<not> P (f x)" "filter P (map f xs) = filter P xs" by simp_all
  then show ?case by auto
qed simp

lemma find_SomeD: "find P xs = Some x \<Longrightarrow> x \<in> set xs \<and> P x"
  by (auto simp: find_Some_iff)

text \<open>What \<^const>\<open>addBreakpointLocked\<close> does: its breakpoint is there, everybody else's are as they were.\<close>

lemma addBreakpointLocked_spec:
  assumes "sess_inv s" "addBreakpointLocked now owner spec s = (t, i, isNew, changed)"
  shows "others owner t = others owner s
    \<and> (\<exists>b \<in> set (all_bps t). bp_ID b = i \<and> bp_Owner b = owner \<and> bp_key b = spec_key spec
        \<and> bp_Condition b = bs_Condition spec \<and> \<not> bp_Temporary b)"
proof (cases "find (\<lambda>b. bp_Owner b = owner \<and> bp_key b = spec_key spec) (bps_at (bs_File spec) s)")
  case None
  let ?b = "new_bp now (s_nextBP s + 1) owner spec"
  have t: "s_bps t = append_bp (bs_File spec) ?b (s_bps s)" "i = s_nextBP s + 1"
    using assms(2) None addNewLocked_bps(1,2)[of now owner spec s]
    by (auto simp: addBreakpointLocked_def case_prod_unfold)
  then show ?thesis
    using all_append[OF t(1)] by (intro conjI bexI[of _ ?b]) (simp_all add: others_alt all_bps_view append_bp_filter)
next
  case (Some b)
  then have b: "b \<in> set (all_bps s)" "bp_Owner b = owner" "bp_key b = spec_key spec"
    using find_SomeD[OF Some] bps_at_all[of b "bs_File spec" s] by simp_all
  let ?f = "\<lambda>x. if bp_ID x = bp_ID b then respec spec x else x"
  have t: "all_bps t = map ?f (all_bps s)" "i = bp_ID b"
    using assms(2) Some by (auto simp: addBreakpointLocked_def update_bp_def map_bps_view_bps)
  have only: "x = b" if "x \<in> set (all_bps s)" "bp_ID x = bp_ID b" for x
    using same_id[OF inv_ids[OF assms(1)] that(1) b(1)] that(2) .
  have "filter (\<lambda>x. bp_Owner x \<noteq> owner) (map ?f (all_bps s)) = filter (\<lambda>x. bp_Owner x \<noteq> owner) (all_bps s)"
    by (rule filter_map_other) (use only b(2) in fastforce)
  then have "others owner t = others owner s" unfolding others_alt t(1) by (rule arg_cong)
  moreover have "?f b \<in> set (all_bps t)" unfolding t(1) using b(1) by (simp only: set_map image_eqI)
  ultimately show ?thesis using b t(2) by (intro conjI bexI[of _ "?f b"]) simp_all
qed

section \<open>Properties\<close>

lemma filter_drop: "(\<And>x. x \<in> set xs \<Longrightarrow> P x \<Longrightarrow> \<not> Q x) \<Longrightarrow> filter Q (filter (\<lambda>x. \<not> P x) xs) = filter Q xs"
  by (induction xs) auto

lemma others_drop:
  assumes "bp_view t = drop_bps P (bp_view s)" "by_core P" "\<And>b. b \<in> set (all_bps s) \<Longrightarrow> P b \<Longrightarrow> bp_Owner b = cid"
  shows "others cid t = others cid s"
proof -
  have "filter (\<lambda>b. bp_Owner b \<noteq> cid) (filter (\<lambda>x. \<not> P x) (map bp_core (all_bps s))) = filter (\<lambda>b. bp_Owner b \<noteq> cid) (map bp_core (all_bps s))"
  proof (rule filter_drop)
    fix x assume "x \<in> set (map bp_core (all_bps s))" "P x"
    then obtain b where "x = bp_core b" "b \<in> set (all_bps s)" "P b" using assms(2) by (metis by_core_def imageE list.set_map)
    then show "\<not> bp_Owner x \<noteq> cid" using assms(3) by simp
  qed
  then show ?thesis unfolding others_def assms(1) view_drop all_view .
qed

lemma find_bp_None: "findBreakpointLocked i s = None \<longleftrightarrow> \<not> list_ex (\<lambda>b. bp_ID b = i) (all_bps s)"
  by (simp add: findBreakpointLocked_def find_None_iff list_ex_iff Ball_def)

lemma find_bp_ex:
  assumes "sess_inv s" "findBreakpointLocked i s = Some t"
  shows "list_ex (\<lambda>b. bp_ID b = i \<and> Q b) (all_bps s) = Q t"
proof -
  have t: "t \<in> set (all_bps s)" "bp_ID t = i" using find_bp_Some[OF assms(2)] by simp_all
  have "x = t" if "x \<in> set (all_bps s)" "bp_ID x = i" for x
    using same_id[OF inv_ids[OF assms(1)] that(1) t(1)] that(2) t(2) by simp
  then show ?thesis unfolding list_ex_iff using t by metis
qed

text \<open>
  C39: what removing a breakpoint does, whatever the adapter answers and whatever
  happens meanwhile. Id 0 removes exactly the client's breakpoints (with force,
  everybody's); another id removes exactly that breakpoint if it exists and is the
  client's own or force is set, and otherwise nothing is removed. Without force,
  other clients' breakpoints are untouched in every case.
\<close>

theorem remove_breakpoint_spec:
  assumes "sess_inv s" "RemoveBreakpoint E c i force s = (s', r)"
  shows "sess_inv s'
    \<and> bp_view s' = (if i = 0 then drop_bps (\<lambda>b. force \<or> bp_Owner b = cl_ID c) (bp_view s)
        else if list_ex (\<lambda>b. bp_ID b = i \<and> (force \<or> bp_Owner b = cl_ID c)) (all_bps s)
        then drop_bps (\<lambda>b. bp_ID b = i) (bp_view s) else bp_view s)
    \<and> (\<not> force \<longrightarrow> others (cl_ID c) s' = others (cl_ID c) s)"
proof -
  let ?own = "\<lambda>b. force \<or> bp_Owner b = cl_ID c"
  have core: "by_core ?own" "by_core (\<lambda>b. bp_ID b = i)" by (simp_all add: by_core_def)
  have inv: "sess_inv s'" using RemoveBreakpoint_inv[OF assms(1), of E c i force] assms(2) by simp
  consider (all) "i = 0" | (none) "i \<noteq> 0" "findBreakpointLocked i s = None" | (one) t where "i \<noteq> 0" "findBreakpointLocked i s = Some t"
    by (cases "findBreakpointLocked i s") auto
  then show ?thesis
  proof cases
    case all
    then have v: "bp_view s' = drop_bps ?own (bp_view s)"
      using assms(2) removeBreakpoints_view[OF core(1), of E "cl_ID c" s] by (simp add: RemoveBreakpoint_def)
    have "others (cl_ID c) s' = others (cl_ID c) s" if "\<not> force" by (rule others_drop[OF v core(1)]) (use that in simp)
    then show ?thesis using v inv all by simp
  next
    case none
    then have "s' = s" using assms(2) by (simp add: RemoveBreakpoint_def)
    moreover have "\<not> list_ex (\<lambda>b. bp_ID b = i \<and> ?own b) (all_bps s)" using none(2) by (auto simp: find_bp_None list_ex_iff)
    ultimately show ?thesis using inv none(1) by simp
  next
    case one
    have ex: "list_ex (\<lambda>b. bp_ID b = i \<and> ?own b) (all_bps s) = ?own t" by (rule find_bp_ex[OF assms(1) one(2)])
    have id: "bp_ID t = i" using find_bp_Some[OF one(2)] by simp
    show ?thesis
    proof (cases "?own t")
      case True
      then have v: "bp_view s' = drop_bps (\<lambda>b. bp_ID b = i) (bp_view s)"
        using assms(2) one removeBreakpoints_view[OF core(2), of E "cl_ID c" s] id
        by (auto simp: RemoveBreakpoint_def case_prod_unfold)
      have "others (cl_ID c) s' = others (cl_ID c) s" if "\<not> force"
      proof (rule others_drop[OF v core(2)])
        fix b assume b: "b \<in> set (all_bps s)" "bp_ID b = i"
        then have "b = t" using same_id[OF inv_ids[OF assms(1)]] find_bp_Some[OF one(2)] by blast
        then show "bp_Owner b = cl_ID c" using True that by simp
      qed
      then show ?thesis using v inv one(1) ex True by simp
    next
      case False
      then have "s' = s" using assms(2) one by (simp add: RemoveBreakpoint_def)
      then show ?thesis using inv one(1) ex False by simp
    qed
  qed
qed

text \<open>
  Adding a breakpoint changes only the client's own. Whatever the adapter does,
  other clients' breakpoints stay as they were and the session's invariant holds;
  and a success returns a breakpoint that is in the session: the client's, at the
  requested place, with the requested condition and not temporary.
\<close>

theorem add_breakpoint_spec:
  assumes "sess_inv s" "AddBreakpoint E c spec0 s = (s', r)"
  shows "sess_inv s' \<and> others (cl_ID c) s' = others (cl_ID c) s
    \<and> (\<forall>out. r = Inr out \<longrightarrow> (\<exists>spec b. resolveSpec (env_fs E) spec0 True = (spec, None) \<and> b \<in> set (all_bps s')
        \<and> bp_ID b = bp_ID out \<and> bp_Owner b = cl_ID c \<and> bp_key b = spec_key spec
        \<and> bp_Condition b = bs_Condition spec \<and> \<not> bp_Temporary b))"
proof (cases "(\<exists>e. r = Inl e) \<and> s' = s")
  case True
  then show ?thesis using assms(1) by auto
next
  case go: False
  obtain spec err where sp: "resolveSpec (env_fs E) spec0 True = (spec, err)" by fastforce
  obtain t i isNew changed where t: "addBreakpointLocked (env_now E) (cl_ID c) spec s = (t, i, isNew, changed)" by (metis prod_cases4)
  obtain u sr where u: "syncKey E (bs_File spec) t = (u, sr)" by fastforce
  have ok: "err = None" "s_state s \<noteq> StateExited" "checkBreakpointCapsLocked spec s = Inr ()" "checkMapped spec s = Inr ()"
    using go assms(2) sp by (auto simp: AddBreakpoint_def split: option.splits if_splits sum.splits)
  note add = addBreakpointLocked_spec[OF assms(1) t]
  have inv: "sess_inv t" using addBreakpointLocked_inv[OF assms(1)] t by (metis fst_conv)
  have tu: "quiet t u" using quiet_syncKey[of t E "bs_File spec"] u by simp
  have us': "quiet u s'" and out: "\<And>out. r = Inr out \<Longrightarrow> bp_ID out = bp_ID (copy_of i u) \<and> all_bps s' = all_bps u"
    using assms(2) sp ok t u
    by (auto simp: AddBreakpoint_def Let_def api_of_def api_breakpoint.defs logBreakpointLocked_def all_bps_def split: sum.splits if_splits)
  have ts': "quiet t s'" by (rule quiet_trans[OF tu us'])
  have "\<exists>b. b \<in> set (all_bps s') \<and> bp_ID b = bp_ID out \<and> bp_Owner b = cl_ID c \<and> bp_key b = spec_key spec
      \<and> bp_Condition b = bs_Condition spec \<and> \<not> bp_Temporary b" if "r = Inr out" for out
  proof -
    obtain b where b: "b \<in> set (all_bps t)" "bp_ID b = i" "bp_Owner b = cl_ID c" "bp_key b = spec_key spec"
      "bp_Condition b = bs_Condition spec" "\<not> bp_Temporary b" using add by blast
    have "copy_of i u \<in> set (all_bps u)" and c: "bp_core (copy_of i u) = bp_core b"
      using copy_after[OF tu inv b(1)] b(2) by simp_all
    moreover have "bp_Owner (copy_of i u) = bp_Owner b" "bp_key (copy_of i u) = bp_key b"
      "bp_Condition (copy_of i u) = bp_Condition b" "bp_Temporary (copy_of i u) = bp_Temporary b"
      using bp_core_sel[of "copy_of i u"] bp_core_sel[of b] unfolding c by metis+
    ultimately show ?thesis using out[OF that] b by (intro exI[of _ "copy_of i u"]) simp
  qed
  then show ?thesis using quietD(2)[OF ts' inv] others_quiet[OF ts'] add sp ok(1) by auto
qed

section \<open>A concrete session\<close>

text \<open>An adapter that refuses every request, and a file system with source files only.\<close>

definition demo_env :: env where
  "demo_env = \<lparr>env_now = 5,
    env_fs = \<lparr>fs_EvalSymlinks = Some, fs_Stat = (\<lambda>p. Some \<lparr>fi_id = length p, fi_IsDir = False, fi_ModTime = 0, fi_Size = 0\<rparr>),
      fs_ReadFile = (\<lambda>_. None), fs_ErrText = (\<lambda>_. [])\<rparr>,
    env_quote = (\<lambda>s. s), env_sideEffects = (\<lambda>_. None), env_letter = (\<lambda>r. 97 \<le> r \<and> r \<le> 122),
    env_digit = (\<lambda>r. 48 \<le> r \<and> r \<le> 57), env_jsonEvent = (\<lambda>_. 0), env_adapter = (\<lambda>_ _. ([], Inl (RequestError ''no'')))\<rparr>"

definition demo_spec :: breakpoint_spec where
  "demo_spec = no_spec\<lparr>bs_File := ''/a.cs'', bs_Line := 7, bs_Condition := ''x > 1''\<rparr>"

lemma new_session_inv: "sess_inv (newSession now sid lang mode la starter policy)"
  by (simp add: sess_inv_def newSession_def lease_inv_def pres_inv_def presence_of_def bps_inv_def)

lemma demo_session_inv: "sess_inv demo_session"
  unfolding demo_session_def by (rule new_session_inv)

lemma demo_resolve: "resolveSpec (env_fs demo_env) demo_spec True = (demo_spec, None)"
  by (simp add: resolveSpec_def resolve_line_def demo_spec_def no_spec_def demo_env_def checkSourceFile_def realPath_def
      IsAbs_def parseEmulated_def Let_def)

lemma demo_session_more:
  "s_state demo_session = StateStarting" "\<not> s_capsKnown demo_session" "s_pathMap demo_session = None"
  "\<not> s_initialized demo_session" "s_bps demo_session = []" "s_nextBP demo_session = 0" "s_CreatedAt demo_session = 0"
  by (simp_all add: demo_session_def newSession_def demo_launch_def)

definition demo_added :: session where
  "demo_added = fst (AddBreakpoint demo_env (demo_client KindAgent) demo_spec demo_session)"

lemma demo_add: "\<exists>out. AddBreakpoint demo_env (demo_client KindAgent) demo_spec demo_session = (demo_added, Inr out)"
proof -
  have "is_ok (snd (AddBreakpoint demo_env (demo_client KindAgent) demo_spec demo_session))"
    unfolding AddBreakpoint_def demo_resolve
    by (simp add: demo_session_more checkBreakpointCapsLocked_def checkMapped_def checkBreakpoint_def addBreakpointLocked_def
        bps_at_def addNewLocked_def syncKey_def syncBreakpoints_def demo_spec_def no_spec_def Let_def)
  then show ?thesis unfolding demo_added_def by (metis is_okE prod.collapse)
qed

theorem add_breakpoint_spec_witness:
  "sess_inv demo_added \<and> (\<exists>b \<in> set (all_bps demo_added). bp_Owner b = KindAgent \<and> bp_Condition b = ''x > 1'')"
proof -
  obtain out where o: "AddBreakpoint demo_env (demo_client KindAgent) demo_spec demo_session = (demo_added, Inr out)"
    using demo_add by blast
  have c: "bs_Condition demo_spec = ''x > 1''" by (simp add: demo_spec_def)
  show ?thesis using add_breakpoint_spec[OF demo_session_inv o] demo_resolve
    by (auto simp: c demo_client_def)
qed

lemma demo_added_inv: "sess_inv demo_added"
proof -
  have "quiet (fst (addBreakpointLocked 5 KindAgent demo_spec demo_session)) demo_added"
    unfolding demo_added_def AddBreakpoint_def demo_resolve
    by (simp add: demo_session_more checkBreakpointCapsLocked_def checkMapped_def checkBreakpoint_def addBreakpointLocked_def
        bps_at_def addNewLocked_def syncKey_def syncBreakpoints_def demo_spec_def no_spec_def Let_def demo_client_def demo_env_def)
  then show ?thesis using quietD(2) addBreakpointLocked_inv demo_session_inv by blast
qed

theorem remove_breakpoint_spec_witness:
  "sess_inv (fst (RemoveBreakpoint demo_env (demo_client KindHuman) 1 False demo_added))
    \<and> others KindHuman (fst (RemoveBreakpoint demo_env (demo_client KindHuman) 1 False demo_added)) = others KindHuman demo_added"
  using remove_breakpoint_spec[OF demo_added_inv, of demo_env "demo_client KindHuman" 1 False]
  by (simp add: demo_client_def prod_eq_iff)

end
