(* ===== verification/Actions.thy ===== *)
theory Actions
  imports Breakpoints
begin

text \<open>
  Code that makes several adapter requests in a row and returns at the first error,
  as functions from a session to a session and a result. What holds of every single
  request (it leaves other clients' state alone, it is one of certain requests) is a
  relation between the session before and after; the locale \<open>frame_relation\<close> carries
  such a relation from the requests to everything composed of them.
\<close>

section \<open>Composition\<close>

type_synonym 'a action = "session \<Rightarrow> session \<times> 'a result"

definition ret :: "'a \<Rightarrow> 'a action" where
  "ret x s = (s, Inr x)"

definition fail :: "error \<Rightarrow> 'a action" where
  "fail e s = (s, Inl e)"

text \<open>\<^verbatim>\<open>if err != nil { return err }\<close>, and the form in which the error is looked at.\<close>

definition bind_act :: "'a action \<Rightarrow> ('a \<Rightarrow> 'b action) \<Rightarrow> 'b action" where
  "bind_act a f s = (case a s of (s', Inl e) \<Rightarrow> (s', Inl e) | (s', Inr x) \<Rightarrow> f x s')"

definition try_act :: "'a action \<Rightarrow> ('a result \<Rightarrow> 'b action) \<Rightarrow> 'b action" where
  "try_act a f s = (case a s of (s', r) \<Rightarrow> f r s')"

text \<open>Reading the state under the lock, and changing it.\<close>

definition with_state :: "(session \<Rightarrow> 'a action) \<Rightarrow> 'a action" where
  "with_state f s = f s s"

definition change :: "(session \<Rightarrow> session) \<Rightarrow> unit action" where
  "change f s = (f s, Inr ())"

definition check :: "'a result \<Rightarrow> 'a action" where
  "check r s = (s, r)"

fun each :: "('a \<Rightarrow> 'b action) \<Rightarrow> 'a list \<Rightarrow> 'b list action" where
  "each f [] = ret []"
| "each f (x # xs) = bind_act (f x) (\<lambda>y. bind_act (each f xs) (\<lambda>ys. ret (y # ys)))"

lemma bind_act_simps [simp]:
  "bind_act (ret x) f = f x" "bind_act (fail e) f = fail e"
  by (rule ext, simp add: bind_act_def ret_def fail_def)+

lemma bind_actE:
  assumes "bind_act a f s = (t, Inr y)"
  obtains u x where "a s = (u, Inr x)" "f x u = (t, Inr y)"
  using assms unfolding bind_act_def by (auto split: prod.splits sum.splits)

lemma retE: "ret x s = (t, Inr y) \<Longrightarrow> y = x \<and> t = s"
  by (simp add: ret_def)

lemma each_length: "each f xs s = (t, Inr ys) \<Longrightarrow> length ys = length xs"
  by (induction xs arbitrary: s t ys) (auto simp: ret_def elim!: bind_actE)

section \<open>Relations kept by composition\<close>

locale frame_relation =
  fixes R :: "session \<Rightarrow> session \<Rightarrow> bool"
  assumes R_refl: "R s s"
    and R_trans: "R s t \<Longrightarrow> R t u \<Longrightarrow> R s u"
begin

definition act :: "'a action \<Rightarrow> bool" where
  "act a \<longleftrightarrow> (\<forall>s. R s (fst (a s)))"

lemma actD: "act a \<Longrightarrow> R s (fst (a s))"
  by (simp add: act_def)

lemma act_ret: "act (ret x)"
  by (simp add: act_def ret_def R_refl)

lemma act_fail: "act (fail e)"
  by (simp add: act_def fail_def R_refl)

lemma act_check: "act (check r)"
  by (simp add: act_def check_def R_refl)

lemma act_change: "(\<And>s. R s (f s)) \<Longrightarrow> act (change f)"
  by (simp add: act_def change_def)

lemma act_with_state: "(\<And>s. act (f s)) \<Longrightarrow> act (with_state f)"
  by (simp add: act_def with_state_def)

lemma act_try: "act a \<Longrightarrow> (\<And>r. act (f r)) \<Longrightarrow> act (try_act a f)"
  unfolding act_def try_act_def
proof (intro allI)
  fix s assume a: "\<forall>s. R s (fst (a s))" and f: "\<And>r. \<forall>s. R s (fst (f r s))"
  show "R s (fst (case a s of (s', r) \<Rightarrow> f r s'))"
    using R_trans[OF a[rule_format] f[rule_format]] by (cases "a s") (metis fst_conv prod.case)
qed

lemma act_bind: "act a \<Longrightarrow> (\<And>x. act (f x)) \<Longrightarrow> act (bind_act a f)"
proof -
  assume a: "act a" and f: "\<And>x. act (f x)"
  have "bind_act a f = try_act a (\<lambda>r. case r of Inl e \<Rightarrow> fail e | Inr x \<Rightarrow> f x)"
    by (rule ext) (auto simp: bind_act_def try_act_def fail_def split: prod.splits sum.splits)
  then show ?thesis using act_try[OF a, of "\<lambda>r. case r of Inl e \<Rightarrow> fail e | Inr x \<Rightarrow> f x"] f
    by (simp add: act_fail split: sum.splits)
qed

lemma act_each: "(\<And>x. act (f x)) \<Longrightarrow> act (each f xs)"
  by (induction xs) (simp_all add: act_ret act_bind)

lemma act_if: "act a \<Longrightarrow> act b \<Longrightarrow> act (if p then a else b)"
  by simp

lemmas act_rules = act_ret act_fail act_check act_bind act_with_state act_each act_if

end

text \<open>Requests that satisfy \<open>P\<close> were written, and no others.\<close>

definition sends :: "(dap_request \<Rightarrow> bool) \<Rightarrow> session \<Rightarrow> session \<Rightarrow> bool" where
  "sends P s t \<longleftrightarrow> (\<exists>rs. s_sent t = s_sent s @ rs \<and> list_all P rs)"

lemma sends_trans: "sends P s t \<Longrightarrow> sends P t u \<Longrightarrow> sends P s u"
  unfolding sends_def by (metis append.assoc list_all_append)

lemma sends_mono: "(\<And>r. P r \<Longrightarrow> Q r) \<Longrightarrow> sends P s t \<Longrightarrow> sends Q s t"
  unfolding sends_def by (meson list.pred_mono_strong)

lemma sends_same: "s_sent t = s_sent s \<Longrightarrow> sends P s t"
  by (simp add: sends_def)

interpretation silent: frame_relation quiet
  by unfold_locales (simp, erule (1) quiet_trans)

interpretation writes: frame_relation "sends P" for P
  by unfold_locales (simp add: sends_def, erule (1) sends_trans)

text \<open>What happens while a request is at the adapter writes no request itself.\<close>

lemma endLocked_sent [simp]: "s_sent (endLocked now r s) = s_sent s"
  by (simp add: endLocked_def Let_def setStateLocked_def bump_def)

lemma applyStop_sent [simp]: "s_sent (applyStopLocked now st s) = s_sent s"
  by (simp add: applyStopLocked_def Let_def setStateLocked_def bump_def)

lemma output_sent [simp]: "s_sent (appendOutputLocked now cat txt s) = s_sent s"
  by (simp add: appendOutputLocked_def Let_def)

lemma logBreakpoint_sent [simp]: "s_sent (logBreakpointLocked now a c b s) = s_sent s"
  by (simp add: logBreakpointLocked_def)

lemma fold_sent: "(\<And>x t. s_sent (f x t) = s_sent t) \<Longrightarrow> s_sent (fold f xs s) = s_sent s"
  by (induction xs arbitrary: s) simp_all

lemma updateBreakpoint_sent [simp]: "s_sent (updateBreakpointLocked now g s) = s_sent s"
  by (simp add: updateBreakpointLocked_def Let_def fold_sent map_bps_def)

lemma onEvent_sent [simp]: "s_sent (onEvent now ev s) = s_sent s"
  by (cases ev) (simp_all add: onStoppedLocked_def onContinuedLocked_def onExitedLocked_def hostExitedLocked_def
      Let_def setStateLocked_def bump_def split: option.splits)

lemma lease_step_sent [simp]: "s_sent (lease_step now call s) = s_sent s"
  using lease_step_only[of s now call] by (auto simp: lease_only_def)

lemma touch_sent [simp]: "s_sent (touchLocked now c s) = s_sent s"
  by (simp add: touchLocked_def split: option.splits)

lemma connect_sent [simp]: "s_sent (fst (Connect now c s)) = s_sent s"
  by (simp add: Connect_def Let_def set_presence_def)

lemma decrement_sent [simp]: "s_sent (fst (decrement now d cn s)) = s_sent s"
  by (simp add: decrement_def Let_def set_presence_def del_presence_def split: option.splits)

lemma inter_sent [simp]: "s_sent (inter_step now i s) = s_sent s"
  by (cases i) (simp_all add: watchAdapter_def closeRecording_def Touch_def)

lemma inters_sent [simp]: "s_sent (inters now is s) = s_sent s"
  unfolding inters_def by (rule fold_sent) simp

definition sent_form :: "session \<Rightarrow> dap_request \<Rightarrow> dap_request" where
  "sent_form s req = (case s_pathMap s of Some m \<Rightarrow> Outgoing m req | None \<Rightarrow> req)"

lemma Do_sent: "s_sent (fst (Do E req s)) = s_sent s @ [sent_form s req]"
  by (simp add: Do_def Let_def case_prod_unfold sent_form_def)

lemma Call_sent: "s_sent (fst (Call E req sel s)) = s_sent s @ [sent_form s req]"
  using Do_sent[of E req s]
  by (cases "Do E req s"; cases "snd (Do E req s)") (simp_all add: Call_def)

lemma silent_Call: "silent.act (Call E req sel)"
  unfolding silent.act_def by simp

lemma writes_Call: "(\<And>s. P (sent_form s req)) \<Longrightarrow> writes.act P (Call E req sel)"
  unfolding writes.act_def sends_def by (auto simp: Call_sent)

end
