(* ===== verification/Member_Path.thy ===== *)
theory Member_Path
  imports Api_Types
begin

text \<open>
  Variable paths such as \<^verbatim>\<open>order.Items[0].Name\<close>: \<^verbatim>\<open>splitPath\<close> and \<^verbatim>\<open>joinPath\<close> of
  \<^verbatim>\<open>internal/session/inspect.go\<close> and the check of a path that is assigned by evaluating
  text, \<^verbatim>\<open>checkAssignable\<close> of \<^verbatim>\<open>evalset.go\<close>. Unicode's letters and digits are
  parameters.
\<close>

section \<open>Splitting and joining\<close>

abbreviation LBr :: char where "LBr \<equiv> CHR ''[''"
abbreviation RBr :: char where "RBr \<equiv> CHR '']''"
abbreviation DOT :: char where "DOT \<equiv> CHR ''.''"

definition path_error :: "string \<Rightarrow> error" where
  "path_error m = NewError CodeInvalidRequest [Lit m]"

definition is_name_end :: "char \<Rightarrow> bool" where
  "is_name_end c = (c = DOT \<or> c = LBr)"

lemma cut_shorter: "cut_at d s = (b, a, True) \<Longrightarrow> length a < length s"
  using cut_at_cases[of d s b a True] by simp

function (sequential) split_loop :: "string \<Rightarrow> string list \<Rightarrow> string \<Rightarrow> string list result" where
  "split_loop path segs [] = (if segs = [] then Inl (path_error ''empty variable path'') else Inr segs)"
| "split_loop path segs (c # cs) =
    (if c = LBr
     then (case cut_at RBr (c # cs) of
             (b, a, True) \<Rightarrow> split_loop path (segs @ [b @ [RBr]]) a
           | (b, a, False) \<Rightarrow> Inl (path_error (''unclosed [ in '' @ path)))
     else if c = DOT \<and> segs \<noteq> [] then split_loop path segs cs
     else if is_name_end c then Inl (path_error (''empty name in '' @ path))
     else split_loop path (segs @ [c # takeWhile (\<lambda>d. \<not> is_name_end d) cs]) (dropWhile (\<lambda>d. \<not> is_name_end d) cs))"
  by pat_completeness auto
termination
  by (relation "measure (\<lambda>(_, _, rest). length rest)")
    (auto simp: less_Suc_eq_le length_dropWhile_le simp del: cut_at.simps dest: cut_shorter[OF sym])

definition splitPath :: "string \<Rightarrow> string list result" where
  "splitPath path = split_loop path [] path"

fun join_rest :: "string list \<Rightarrow> string" where
  "join_rest [] = []"
| "join_rest (seg # segs) = (if \<not> prefix [LBr] seg then DOT # seg else seg) @ join_rest segs"

definition joinPath :: "string list \<Rightarrow> string" where
  "joinPath segs = (case segs of [] \<Rightarrow> [] | seg # rest \<Rightarrow> seg @ join_rest rest)"

section \<open>Assignable paths\<close>

definition isIdentifier :: "(rune \<Rightarrow> bool) \<Rightarrow> (rune \<Rightarrow> bool) \<Rightarrow> string \<Rightarrow> bool" where
  "isIdentifier letter digit s0 =
    (let s = (if prefix ''@'' s0 then tl s0 else s0);
         start = (\<lambda>r. r = byte (CHR ''_'') \<or> letter r)
     in case runes s of
          [] \<Rightarrow> False
        | r # rs \<Rightarrow> start r \<and> list_all (\<lambda>q. start q \<or> digit q) rs)"

abbreviation QT :: char where "QT \<equiv> CHR 0x22"

definition isIndexLiteral :: "string \<Rightarrow> bool" where
  "isIndexLiteral s =
    (let n = (if prefix ''-'' s then tl s else s) in
     if n \<noteq> [] \<and> list_all is_digit n then True
     else if \<not> prefix [QT] s then False
     else let inner = tl s in
       if \<not> suffix [QT] inner then False
       else \<not> list_ex (\<lambda>r. r = byte QT \<or> r = byte (CHR 0x5C) \<or> IsControl r) (runes (butlast inner)))"

definition seg_assignable :: "(rune \<Rightarrow> bool) \<Rightarrow> (rune \<Rightarrow> bool) \<Rightarrow> string \<Rightarrow> bool" where
  "seg_assignable letter digit seg =
    (if prefix [LBr] seg
     then (let inner = tl seg in isIndexLiteral (if suffix [RBr] inner then butlast inner else inner))
     else isIdentifier letter digit seg)"

fun checkAssignable :: "(rune \<Rightarrow> bool) \<Rightarrow> (rune \<Rightarrow> bool) \<Rightarrow> string list \<Rightarrow> unit result" where
  "checkAssignable letter digit [] = Inr ()"
| "checkAssignable letter digit (seg # segs) =
    (if \<not> seg_assignable letter digit seg
     then Inl (path_error (''with this adapter set takes a name or member path (names, [N] or ['' @ [QT] @ ''key''
       @ [QT] @ ''] indexes); '' @ seg @ '' is not one''))
     else checkAssignable letter digit segs)"

section \<open>Round trip\<close>

text \<open>The segments a path can have: a bracketed index, or a name without dots and opening brackets.\<close>

definition seg_wf :: "string \<Rightarrow> bool" where
  "seg_wf seg \<longleftrightarrow> (\<exists>x. seg = LBr # x @ [RBr] \<and> RBr \<notin> set x) \<or> seg \<noteq> [] \<and> list_all (\<lambda>c. \<not> is_name_end c) seg"

lemma seg_wf_cases:
  assumes "seg_wf seg"
  obtains (index) x where "seg = LBr # x @ [RBr]" "RBr \<notin> set x"
  | (name) c cs where "seg = c # cs" "\<not> is_name_end c" "list_all (\<lambda>c. \<not> is_name_end c) cs"
  using assms unfolding seg_wf_def by (cases seg) auto

text \<open>What follows a segment in a joined path: nothing, or a dot or bracket.\<close>

lemma join_rest_start: "list_all seg_wf segs \<Longrightarrow> join_rest segs = [] \<or> is_name_end (hd (join_rest segs))"
  by (cases segs) (auto simp: is_name_end_def elim!: seg_wf_cases)

lemma split_seg:
  assumes "seg_wf seg" "rest = [] \<or> is_name_end (hd rest)"
  shows "split_loop path segs (seg @ rest) = split_loop path (segs @ [seg]) rest"
  using assms(1)
proof (cases rule: seg_wf_cases)
  case (index x)
  then have "cut_at RBr (seg @ rest) = (LBr # x, rest, True)" using cut_at_found[of RBr "LBr # x" rest] by simp
  then show ?thesis using index by simp
next
  case (name c cs)
  have "takeWhile (\<lambda>d. \<not> is_name_end d) (cs @ rest) = cs" "dropWhile (\<lambda>d. \<not> is_name_end d) (cs @ rest) = rest"
    using name(3) assms(2) by (cases rest; simp add: takeWhile_append dropWhile_append list_all_iff)+
  then show ?thesis using name by (auto simp: is_name_end_def)
qed

lemma split_join_rest:
  "list_all seg_wf segs \<Longrightarrow> done_segs \<noteq> [] \<Longrightarrow> split_loop path done_segs (join_rest segs) = Inr (done_segs @ segs)"
proof (induction segs arbitrary: done_segs)
  case (Cons seg segs)
  have rest: "join_rest segs = [] \<or> is_name_end (hd (join_rest segs))" using Cons.prems(1) by (intro join_rest_start) simp
  have "split_loop path done_segs (seg @ join_rest segs) = Inr (done_segs @ seg # segs)"
    using split_seg[OF _ rest, of seg path done_segs] Cons by simp
  then show ?case using Cons.prems(2) by (auto simp: is_name_end_def)
qed simp

lemma split_sound:
  "split_loop path segs rest = Inr out \<Longrightarrow> list_all seg_wf segs \<Longrightarrow> out \<noteq> [] \<and> list_all seg_wf out"
proof (induction path segs rest rule: split_loop.induct)
  case (2 path segs c cs)
  show ?case
  proof (cases "c = LBr")
    case True
    obtain b a f where cut: "cut_at RBr (c # cs) = (b, a, f)" by (metis prod_cases3)
    then have f: f and "c # cs = b @ RBr # a" "RBr \<notin> set b"
      using 2(4) True cut_at_cases[OF cut] by (auto split: if_splits bool.splits)
    then obtain x where "b = LBr # x" "RBr \<notin> set x" using True by (cases b) auto
    then have "seg_wf (b @ [RBr])" by (auto simp: seg_wf_def)
    then show ?thesis using 2 True cut f by (auto split: bool.splits)
  next
    case False
    have "seg_wf (c # takeWhile (\<lambda>d. \<not> is_name_end d) cs)" if "\<not> is_name_end c"
      using that by (auto simp: seg_wf_def list_all_iff dest: set_takeWhileD)
    then show ?thesis using 2 False by (auto split: if_splits)
  qed
qed (auto split: if_splits)

text \<open>
  Paths and segments are two views of one thing. A joined list of well-formed
  segments splits back into exactly those segments, and every path that splits at
  all splits into a non-empty list of well-formed segments.
\<close>

theorem member_path_roundtrip:
  "(segs \<noteq> [] \<and> list_all seg_wf segs \<longrightarrow> splitPath (joinPath segs) = Inr segs)
    \<and> (\<forall>out. splitPath p = Inr out \<longrightarrow> out \<noteq> [] \<and> list_all seg_wf out)"
proof (intro conjI impI allI)
  assume "segs \<noteq> [] \<and> list_all seg_wf segs"
  then obtain seg rest where s: "segs = seg # rest" "seg_wf seg" "list_all seg_wf rest" by (cases segs) auto
  then show "splitPath (joinPath segs) = Inr segs"
    using split_seg[OF s(2) join_rest_start[OF s(3)]] split_join_rest[OF s(3), of "[seg]"]
    by (simp add: splitPath_def joinPath_def)
qed (use split_sound[of p "[]" p] in \<open>auto simp: splitPath_def\<close>)

theorem member_path_roundtrip_witness:
  "splitPath (joinPath [''order'', ''Items'', ''[0]'', ''Name'']) = Inr [''order'', ''Items'', ''[0]'', ''Name'']"
  using member_path_roundtrip[of "[''order'', ''Items'', ''[0]'', ''Name'']" "[]"]
  by (simp add: seg_wf_def is_name_end_def)

section \<open>Assignable paths cannot call\<close>

text \<open>A byte below 128 is always a rune of its own.\<close>

lemma ascii_rune: "c \<in> set s \<Longrightarrow> byte c < 128 \<Longrightarrow> byte c \<in> set (runes s)"
proof (induction s rule: chunks_induct)
  case (Step d s r w)
  have runes: "set (runes (d # s)) = insert r (set (runes (drop w s)))" by (simp add: runes_def chunks_step[OF Step(1)])
  have "c = d \<or> c \<in> set (take w s) \<or> c \<in> set (drop w s)" using Step(4) by (metis append_take_drop_id set_ConsD set_append UnE)
  moreover have "r = byte c" if "c = d" using decode_rune_ascii[of d s] Step(1,5) that by simp
  moreover have False if "c \<in> set (take w s)"
  proof -
    have "\<not> (r = RuneError \<and> w = 0)" using that by (cases w) auto
    then have "cont c" using decode_rune_shape(2)[OF Step(1)] that by (simp add: list_all_iff)
    then show False using Step(5) by (simp add: cont_def)
  qed
  ultimately show ?case using Step(3,5) runes by auto
qed simp

text \<open>The bytes a plain member path may have outside a string index, and inside one.\<close>

definition plain_name :: "(rune \<Rightarrow> bool) \<Rightarrow> (rune \<Rightarrow> bool) \<Rightarrow> string \<Rightarrow> bool" where
  "plain_name letter digit seg \<longleftrightarrow>
    list_all (\<lambda>c. byte c < 128 \<longrightarrow> c = CHR ''_'' \<or> c = CHR ''@'' \<or> letter (byte c) \<or> digit (byte c)) seg"

definition plain_index :: "string \<Rightarrow> bool" where
  "plain_index i \<longleftrightarrow> list_all (\<lambda>c. is_digit c \<or> c = CHR ''-'') i
    \<or> (\<exists>x. i = QT # x @ [QT] \<and> list_all (\<lambda>c. c \<noteq> QT \<and> c \<noteq> CHR 0x5C \<and> (byte c < 128 \<longrightarrow> \<not> IsControl (byte c))) x)"

lemma identifier_plain: "isIdentifier letter digit seg \<Longrightarrow> plain_name letter digit seg"
proof -
  assume id: "isIdentifier letter digit seg"
  let ?s = "if prefix ''@'' seg then tl seg else seg"
  have "list_all (\<lambda>r. r = byte (CHR ''_'') \<or> letter r \<or> digit r) (runes ?s)"
    using id by (auto simp: isIdentifier_def Let_def list_all_iff split: list.splits)
  then have "c = CHR ''_'' \<or> letter (byte c) \<or> digit (byte c)" if "c \<in> set ?s" "byte c < 128" for c
    using ascii_rune[OF that] byte_eq_iff[of c "CHR ''_''"] by (auto simp: list_all_iff)
  moreover have "set seg \<subseteq> insert (CHR ''@'') (set ?s)" by (cases seg) auto
  ultimately show ?thesis unfolding plain_name_def list_all_iff by blast
qed

lemma index_plain: "isIndexLiteral i \<Longrightarrow> plain_index i"
proof -
  assume lit: "isIndexLiteral i"
  let ?n = "if prefix ''-'' i then tl i else i"
  show ?thesis
  proof (cases "?n \<noteq> [] \<and> list_all is_digit ?n")
    case True
    then have "list_all (\<lambda>c. is_digit c \<or> c = CHR ''-'') i" by (cases i) (auto simp: list_all_iff split: if_splits)
    then show ?thesis by (simp add: plain_index_def)
  next
    case False
    then have "prefix [QT] i" "suffix [QT] (tl i)" and r: "\<not> list_ex (\<lambda>r. r = byte QT \<or> r = byte (CHR 0x5C) \<or> IsControl r) (runes (butlast (tl i)))"
      using lit unfolding isIndexLiteral_def Let_def by (auto split: if_splits)
    then obtain x where i: "i = QT # x @ [QT]" by (cases i) (auto simp: suffix_def)
    have "c \<noteq> QT \<and> c \<noteq> CHR 0x5C \<and> (byte c < 128 \<longrightarrow> \<not> IsControl (byte c))" if "c \<in> set x" for c
      using r i ascii_rune[OF that] by (auto simp: list_ex_iff)
    then show ?thesis unfolding plain_index_def list_all_iff using i by blast
  qed
qed

text \<open>
  A path that is assigned by evaluating text cannot run anything itself. Every
  segment that passes the check is a name of letters, digits, \<open>_\<close> and \<open>@\<close>, or a
  bracketed integer, or a bracketed string without quotes, backslashes or control
  characters inside: no parenthesis, operator, separator or blank of the path is
  outside a string.
\<close>

theorem assignable_path_is_plain:
  assumes "checkAssignable letter digit segs = Inr ()" "splitPath p = Inr segs" "seg \<in> set segs"
  shows "plain_name letter digit seg \<or> (\<exists>i. seg = LBr # i @ [RBr] \<and> plain_index i)"
proof -
  have ok: "seg_assignable letter digit seg"
    using assms(1,3) by (induction segs) (auto split: if_splits)
  have "seg_wf seg" using split_sound[of p "[]" p segs] assms(2,3) by (auto simp: splitPath_def list_all_iff)
  then show ?thesis
  proof (cases rule: seg_wf_cases)
    case (index x)
    then have "isIndexLiteral x" using ok by (simp add: seg_assignable_def Let_def suffix_def butlast_append)
    then show ?thesis using index index_plain by blast
  next
    case (name c cs)
    then have "isIdentifier letter digit seg" using ok by (auto simp: seg_assignable_def is_name_end_def)
    then show ?thesis using identifier_plain by blast
  qed
qed

theorem assignable_path_is_plain_witness:
  "plain_name (\<lambda>r. 97 \<le> r \<and> r \<le> 122) (\<lambda>r. 48 \<le> r \<and> r \<le> 57) ''ab''
    \<or> (\<exists>i. ''ab'' = LBr # i @ [RBr] \<and> plain_index i)"
  by (rule assignable_path_is_plain[where segs = "[''ab'', ''[1]'']" and p = "''ab[1]''"])
    (simp_all add: seg_assignable_def isIdentifier_def isIndexLiteral_def runes_def chunks_ascii splitPath_def
      is_name_end_def is_digit_def Let_def suffix_def)

end
