(* ===== verification/Fitter.thy ===== *)
theory Fitter
  imports Api_Types
begin

text \<open>
  Cutting variable trees to a token budget (\<^verbatim>\<open>internal/present/budget.go\<close>). The source
  works breadth-first over a queue of levels, each with a pointer to the list it
  fills and to the counter of what it leaves out; here the pointer is the path of
  the variable in the result, the empty path for the top level.
\<close>

section \<open>Fitting\<close>

abbreviation CharsPerToken :: int where "CharsPerToken \<equiv> 4"

text \<open>A fitter is the characters left; negative means no budget.\<close>

definition NewFitter :: "int \<Rightarrow> int" where
  "NewFitter tokens = (if tokens \<le> 0 then -1 else tokens * CharsPerToken)"

record level =
  lv_src :: "var list"
  lv_dst :: "nat list"
  lv_extra :: int
  lv_indent :: nat

definition cost :: "var \<Rightarrow> nat \<Rightarrow> int" where
  "cost v indent = 2 * int indent + int (length (v_Name v)) + int (length (v_Type v)) + int (length (v_Value v))
    + int (length (v_Previous v)) + 8"

definition strip :: "var \<Rightarrow> var" where
  "strip v = Var (v_Name v) (v_Type v) (v_Value v) (v_HasChildren v) [] 0 (v_Change v) (v_Previous v)"

definition set_members :: "var list \<Rightarrow> int \<Rightarrow> var \<Rightarrow> var" where
  "set_members vs m v = Var (v_Name v) (v_Type v) (v_Value v) (v_HasChildren v) vs (v_More v + m) (v_Change v) (v_Previous v)"

text \<open>
  One level: what is left of the budget, the variables kept, the levels of their
  members, and the index of the first variable that did not fit.
\<close>

fun fit_level :: "nat list \<Rightarrow> nat \<Rightarrow> nat \<Rightarrow> int \<Rightarrow> var list \<Rightarrow> int \<times> var list \<times> level list \<times> nat option" where
  "fit_level dst indent i left [] = (left, [], [], None)"
| "fit_level dst indent i left (v # vs) =
    (if cost v indent > left then (left, [], [], Some i)
     else case fit_level dst indent (i + 1) (left - cost v indent) vs of
       (left', ks, qs, stopAt) \<Rightarrow>
         (left', strip v # ks,
          (if v_Children v \<noteq> [] then [\<lparr>lv_src = v_Children v, lv_dst = dst @ [i], lv_extra = v_More v, lv_indent = indent + 1\<rparr>] else []) @ qs,
          stopAt))"

fun upd_at :: "nat list \<Rightarrow> (var \<Rightarrow> var) \<Rightarrow> var list \<Rightarrow> var list" where
  "upd_at [] f vs = vs"
| "upd_at [i] f vs = (if i < length vs then vs[i := f (vs ! i)] else vs)"
| "upd_at (i # j # p) f vs =
    (if i < length vs then vs[i := set_members (upd_at (j # p) f (v_Children (vs ! i))) 0 (vs ! i)] else vs)"

text \<open>Writing a finished level through its pointers.\<close>

definition write_level :: "level \<Rightarrow> var list \<Rightarrow> nat option \<Rightarrow> var list \<times> int \<Rightarrow> var list \<times> int" where
  "write_level lv ks stopAt = (\<lambda>(kept, omitted).
    let collapse = (stopAt = Some 0 \<and> lv_indent lv > 0);
        more_by = (case stopAt of
            Some i \<Rightarrow> if collapse then 0 else int (length (lv_src lv)) - int i + lv_extra lv
          | None \<Rightarrow> lv_extra lv);
        members = (if collapse then [] else ks)
    in if lv_dst lv = [] then (members, omitted + more_by)
       else (upd_at (lv_dst lv) (set_members members more_by) kept, omitted))"

function weight :: "var \<Rightarrow> nat" where
  "weight v = 2 + sum_list (map weight (v_Children v))"
  by pat_completeness auto
termination
proof (relation "measure size")
  fix v w assume "w \<in> set (v_Children v)"
  then show "(w, v) \<in> measure size" by (cases v) (auto dest: size_list_estimation'[where f = size, OF _ le_refl])
qed simp

declare weight.simps [simp del]

definition queue_weight :: "level list \<Rightarrow> nat" where
  "queue_weight q = sum_list (map (\<lambda>lv. 1 + sum_list (map weight (lv_src lv))) q)"

lemma fit_level_weight:
  "fit_level dst indent i left vs = (left', ks, qs, stopAt) \<Longrightarrow> queue_weight qs \<le> sum_list (map weight vs)"
proof (induction vs arbitrary: i left left' ks qs stopAt)
  case (Cons v vs)
  then show ?case
    by (fastforce simp: queue_weight_def weight.simps[of v] split: if_splits prod.splits)
qed (simp add: queue_weight_def)

function fit_bfs :: "int \<Rightarrow> level list \<Rightarrow> var list \<times> int \<Rightarrow> int \<times> (var list \<times> int) \<times> bool" where
  "fit_bfs left queue out =
    (case queue of
       [] \<Rightarrow> (left, out, False)
     | lv # q \<Rightarrow>
         (case fit_level (lv_dst lv) (lv_indent lv) 0 left (lv_src lv) of
            (left', ks, qs, stopAt) \<Rightarrow>
              let out' = write_level lv ks stopAt out in
              if stopAt \<noteq> None then (left', out', True) else fit_bfs left' (q @ qs) out'))"
  by pat_completeness auto
termination
proof (relation "measure (\<lambda>(_, q, _). queue_weight q)", goal_cases)
  case (2 left queue out lv q left' y ks z qs stopAt out')
  then have "queue_weight qs \<le> sum_list (map weight (lv_src lv))" using fit_level_weight by metis
  then show ?case using 2 by (simp add: queue_weight_def)
qed simp

declare fit_bfs.simps [simp del]

text \<open>\<^verbatim>\<open>Fit\<close>: the fitter after it, the kept variables, how many were left out and whether anything was cut.\<close>

definition Fit :: "int \<Rightarrow> var list \<Rightarrow> int \<times> var list \<times> int \<times> bool" where
  "Fit left vars =
    (if left < 0 then (left, vars, 0, False)
     else case fit_bfs left [\<lparr>lv_src = vars, lv_dst = [], lv_extra = 0, lv_indent = 0\<rparr>] ([], 0) of
       (left', (kept, omitted), stopAt) \<Rightarrow> (left', kept, omitted, stopAt))"

section \<open>The budget\<close>

text \<open>What a tree of variables costs as text, at an indentation.\<close>

function tree_cost :: "nat \<Rightarrow> var \<Rightarrow> int" where
  "tree_cost indent v = cost v indent + sum_list (map (tree_cost (indent + 1)) (v_Children v))"
  by pat_completeness auto
termination
proof (relation "measure (\<lambda>(_, v). size v)")
  fix indent v w assume "w \<in> set (v_Children v)"
  then show "((indent + 1, w), indent, v) \<in> measure (\<lambda>(_, v). size v)"
    by (cases v) (auto dest: size_list_estimation'[where f = size, OF _ le_refl])
qed simp

declare tree_cost.simps [simp del]

definition list_cost :: "nat \<Rightarrow> var list \<Rightarrow> int" where
  "list_cost indent vs = sum_list (map (tree_cost indent) vs)"

lemma cost_members [simp]: "cost (set_members vs m v) indent = cost v indent" "cost (strip v) indent = cost v indent"
  by (simp_all add: cost_def set_members_def strip_def)

lemma tree_cost_alt: "tree_cost indent v = cost v indent + list_cost (indent + 1) (v_Children v)"
  by (simp add: tree_cost.simps[of indent v] list_cost_def)

lemma members_sel [simp]: "v_Children (set_members vs m v) = vs" "v_Children (strip v) = []"
  by (simp_all add: set_members_def strip_def)

lemma sum_list_replace: "i < length xs \<Longrightarrow> sum_list (xs[i := x]) = sum_list xs - xs ! i + (x :: int)"
proof (induction xs arbitrary: i)
  case (Cons y xs)
  then show ?case by (cases i) simp_all
qed simp

lemma list_cost_update: "i < length vs \<Longrightarrow> list_cost indent (vs[i := v]) = list_cost indent vs - tree_cost indent (vs ! i) + tree_cost indent v"
  unfolding list_cost_def by (simp add: map_update sum_list_replace)

lemma cost_pos: "0 < cost v indent"
  by (simp add: cost_def)

text \<open>The variable at a path of the result.\<close>

fun node_at :: "nat list \<Rightarrow> var list \<Rightarrow> var option" where
  "node_at [] vs = None"
| "node_at [i] vs = (if i < length vs then Some (vs ! i) else None)"
| "node_at (i # j # p) vs = (if i < length vs then node_at (j # p) (v_Children (vs ! i)) else None)"

lemma node_at_nil [simp]: "node_at p [] = None"
  by (cases "(p, [] :: var list)" rule: node_at.cases) auto

lemma upd_at_cost:
  "node_at p vs = Some v \<Longrightarrow> v_Children v = [] \<Longrightarrow>
    list_cost indent (upd_at p (set_members ks m) vs) = list_cost indent vs + list_cost (indent + length p) ks"
proof (induction p "set_members ks m" vs arbitrary: indent rule: upd_at.induct)
  case (2 i vs)
  then show ?case by (auto simp: list_cost_update tree_cost_alt list_cost_def[of _ "[]"] split: if_splits)
next
  case (3 i j p vs)
  then have "i < length vs" "node_at (j # p) (v_Children (vs ! i)) = Some v" by (auto split: if_splits)
  then show ?case using 3(1)[of "indent + 1"] 3(3) by (simp add: list_cost_update tree_cost_alt)
qed simp

lemma node_at_upd_other:
  "node_at p vs = Some v \<Longrightarrow> v_Children v = [] \<Longrightarrow> node_at q vs = Some w \<Longrightarrow> v_Children w = [] \<Longrightarrow> p \<noteq> q \<Longrightarrow>
    node_at q (upd_at p f vs) = Some w"
proof (induction p f vs arbitrary: q rule: upd_at.induct)
  case (2 i f vs)
  obtain j q' where q: "q = j # q'" using 2(3) by (cases q) auto
  show ?case using 2 q by (cases q') (auto split: if_splits simp: nth_list_update)
next
  case (3 i j p f vs)
  obtain k q' where q: "q = k # q'" using 3(4) by (cases q) auto
  show ?case
  proof (cases q')
    case Nil
    then show ?thesis using 3 q by (auto split: if_splits simp: nth_list_update)
  next
    case (Cons l q'')
    then show ?thesis using 3 q by (auto split: if_splits simp: nth_list_update)
  qed
qed simp

lemma node_at_upd_new:
  "node_at p vs = Some v \<Longrightarrow> i < length ks \<Longrightarrow> node_at (p @ [i]) (upd_at p (set_members ks m) vs) = Some (ks ! i)"
proof (induction p "set_members ks m" vs rule: upd_at.induct)
  case (3 k j p vs)
  then show ?case by (auto split: if_splits)
qed (auto split: if_splits)

lemma node_at_below: "node_at p vs = Some w \<Longrightarrow> node_at (p @ [j]) vs = (if j < length (v_Children w) then Some (v_Children w ! j) else None)"
  by (induction p vs rule: node_at.induct) (auto split: if_splits)

lemma fit_level_cut: "fit_level dst indent i left vs = (left', ks, qs, Some j) \<Longrightarrow> i \<le> j"
  by (induction vs arbitrary: i left left' ks qs) (fastforce split: if_splits prod.splits)+

text \<open>A level: what it spends is what it keeps, and its members' levels are at its variables.\<close>

lemma fit_level_spec:
  assumes "fit_level dst indent i left vs = (left', ks, qs, c)"
  shows "list_cost indent ks = left - left' \<and> (0 \<le> left \<longrightarrow> 0 \<le> left') \<and> list_all (\<lambda>v. v_Children v = []) ks
    \<and> list_all (\<lambda>lv. \<exists>j < length ks. lv_dst lv = dst @ [i + j] \<and> lv_indent lv = indent + 1) qs
    \<and> distinct (map lv_dst qs) \<and> (c = Some i \<longrightarrow> ks = [])"
  using assms
proof (induction vs arbitrary: i left left' ks qs c)
  case (Cons v vs)
  show ?case
  proof (cases "cost v indent > left")
    case False
    obtain ks1 qs1 where r: "fit_level dst indent (i + 1) (left - cost v indent) vs = (left', ks1, qs1, c)" "ks = strip v # ks1"
      "qs = (if v_Children v \<noteq> [] then [\<lparr>lv_src = v_Children v, lv_dst = dst @ [i], lv_extra = v_More v, lv_indent = indent + 1\<rparr>] else []) @ qs1"
      using Cons.prems False by (auto split: prod.splits)
    note ih = Cons.IH[OF r(1)]
    have later: "\<exists>j < length ks. lv_dst lv = dst @ [i + j] \<and> lv_indent lv = indent + 1 \<and> j \<noteq> 0" if lv: "lv \<in> set qs1" for lv
    proof -
      obtain j where "j < length ks1" "lv_dst lv = dst @ [i + 1 + j]" "lv_indent lv = indent + 1"
        using ih lv unfolding list_all_iff by blast
      then show ?thesis using r(2) by (intro exI[of _ "j + 1"]) simp
    qed
    then have fresh: "dst @ [i] \<notin> lv_dst ` set qs1" by fastforce
    have "list_all (\<lambda>lv. \<exists>j < length ks. lv_dst lv = dst @ [i + j] \<and> lv_indent lv = indent + 1) qs"
      unfolding list_all_iff r(3) using later r(2) by auto
    moreover have "c \<noteq> Some i" using fit_level_cut[of dst indent "i + 1" "left - cost v indent" vs left' ks1 qs1 i] r(1) by auto
    moreover have "list_cost indent ks = left - left'" using ih r(2) by (simp add: list_cost_def tree_cost_alt)
    ultimately show ?thesis using ih fresh False r(2,3) by simp
  qed (use Cons.prems in \<open>simp add: list_cost_def\<close>)
qed (simp add: list_cost_def)

definition level_ok :: "var list \<Rightarrow> level \<Rightarrow> bool" where
  "level_ok T lv \<longleftrightarrow> lv_dst lv \<noteq> [] \<and> lv_indent lv = length (lv_dst lv)
    \<and> (\<exists>w. node_at (lv_dst lv) T = Some w \<and> v_Children w = [])"

lemma write_level_members:
  assumes "fit_level (lv_dst lv) (lv_indent lv) 0 left (lv_src lv) = (left', ks, qs, c)"
  shows "\<exists>m. write_level lv ks c (T, om) =
    (if lv_dst lv = [] then (ks, om + m) else (upd_at (lv_dst lv) (set_members ks m) T, om))"
proof -
  have "c = Some 0 \<Longrightarrow> ks = []" using fit_level_spec[OF assms] by simp
  then show ?thesis by (cases c) (auto simp: write_level_def Let_def split: if_splits)
qed

lemma fit_bfs_cost:
  assumes "fit_bfs left queue (T, om) = (left', (T', om'), c)" "list_all (level_ok T) queue" "distinct (map lv_dst queue)" "0 \<le> left"
  shows "list_cost 0 T' = list_cost 0 T + left - left' \<and> 0 \<le> left'"
  using assms
proof (induction "queue_weight queue" arbitrary: left queue T om rule: less_induct)
  case less
  show ?case
  proof (cases queue)
    case Nil
    then show ?thesis using less.prems by (simp add: fit_bfs.simps)
  next
    case (Cons lv q)
    let ?p = "lv_dst lv"
    obtain l ks qs ct where f: "fit_level ?p (lv_indent lv) 0 left (lv_src lv) = (l, ks, qs, ct)" by (metis prod_cases4)
    note sp = fit_level_spec[OF f]
    have ok: "level_ok T lv" using less.prems(2) Cons by simp
    then obtain w where w: "node_at ?p T = Some w" "v_Children w = []" "?p \<noteq> []" "lv_indent lv = length ?p" by (auto simp: level_ok_def)
    obtain m where wr: "write_level lv ks ct (T, om) = (upd_at ?p (set_members ks m) T, om)"
      using write_level_members[OF f, of T om] w(3) by auto
    let ?T = "upd_at ?p (set_members ks m) T"
    have cost: "list_cost 0 ?T = list_cost 0 T + (left - l)" using upd_at_cost[OF w(1,2), of 0 ks m] sp w(4) by simp
    have "level_ok ?T lv'" if "lv' \<in> set q" for lv'
    proof -
      have "level_ok T lv'" "?p \<noteq> lv_dst lv'" using less.prems(2,3) Cons that by (auto simp: list_all_iff)
      then show ?thesis using node_at_upd_other[OF w(1,2)] by (auto simp: level_ok_def)
    qed
    moreover have "level_ok ?T lv'" if lv': "lv' \<in> set qs" for lv'
    proof -
      obtain j where j: "j < length ks" "lv_dst lv' = ?p @ [0 + j]" "lv_indent lv' = lv_indent lv + 1"
        using sp lv' unfolding list_all_iff by blast
      have "node_at (?p @ [j]) ?T = Some (ks ! j)" by (rule node_at_upd_new[OF w(1) j(1)])
      moreover have "v_Children (ks ! j) = []" using sp j(1) by (simp add: list_all_length)
      ultimately show ?thesis using j w(4) by (simp add: level_ok_def)
    qed
    ultimately have ok': "list_all (level_ok ?T) (q @ qs)" by (auto simp: list_all_iff)
    have "lv_dst lv' \<noteq> ?p @ [j]" if "lv' \<in> set q" for lv' j
    proof
      assume "lv_dst lv' = ?p @ [j]"
      then have "node_at (?p @ [j]) T \<noteq> None" using less.prems(2) Cons that by (auto simp: list_all_iff level_ok_def)
      then show False using node_at_below[OF w(1), of j] w(2) by simp
    qed
    then have "lv_dst ` set q \<inter> lv_dst ` set qs = {}" using sp by (fastforce simp: list_all_iff)
    then have dist: "distinct (map lv_dst (q @ qs))" using less.prems(3) Cons sp by simp
    show ?thesis
    proof (cases "ct = None")
      case True
      have "queue_weight (q @ qs) < queue_weight queue" using fit_level_weight[OF f] Cons by (simp add: queue_weight_def)
      moreover have "fit_bfs l (q @ qs) (?T, om) = (left', (T', om'), c)"
        using less.prems(1) Cons f wr True by (simp add: fit_bfs.simps[of left "lv # q"])
      ultimately show ?thesis using less.hyps[OF _ _ ok' dist] cost sp less.prems(4) by auto
    next
      case False
      then show ?thesis using less.prems(1,4) Cons f wr cost sp by (simp add: fit_bfs.simps[of left "lv # q"])
    qed
  qed
qed

lemma Fit_cost:
  assumes "0 \<le> left" "Fit left vars = (left', kept, omitted, truncated)"
  shows "list_cost 0 kept + left' = left \<and> 0 \<le> left'"
proof -
  let ?lv = "\<lparr>lv_src = vars, lv_dst = [], lv_extra = 0, lv_indent = 0\<rparr>"
  obtain l ks qs ct where f: "fit_level [] 0 0 left vars = (l, ks, qs, ct)" by (metis prod_cases4)
  note sp = fit_level_spec[OF f]
  obtain m where wr: "write_level ?lv ks ct ([], 0) = (ks, m)" using write_level_members[of ?lv left l ks qs ct "[]" 0] f by auto
  have r: "fit_bfs left [?lv] ([], 0) = (left', (kept, omitted), truncated)"
    using assms by (auto simp: Fit_def split: prod.splits)
  show ?thesis
  proof (cases "ct = None")
    case True
    then have "fit_bfs l qs (ks, m) = (left', (kept, omitted), truncated)" using r f wr by (simp add: fit_bfs.simps[of left "[?lv]"])
    moreover have "list_all (level_ok ks) qs" using sp by (fastforce simp: list_all_iff level_ok_def)
    ultimately show ?thesis using fit_bfs_cost[of l qs ks m] sp assms(1) by auto
  next
    case False
    then show ?thesis using r f wr sp assms(1) by (simp add: fit_bfs.simps[of left "[?lv]"])
  qed
qed

text \<open>
  Fitting stays within its budget. With a budget of \<open>tokens\<close>, the text of everything
  that \<^verbatim>\<open>Fit\<close> keeps costs no more characters than the fitter had left, and what it has
  left afterwards is exactly the rest, so fits that share one fitter share one budget.
\<close>

theorem fit_within_budget:
  assumes "0 \<le> left" "Fit left vars = (left', kept, omitted, truncated)"
  shows "list_cost 0 kept + left' = left \<and> 0 \<le> left'"
  using Fit_cost[OF assms] .

theorem fit_within_budget_witness:
  "list_cost 0 [strip (Var ''x'' ''int'' ''1'' False [] 0 [] [])] + 0 = 13 \<and> (0 :: int) \<le> 0"
  by (rule fit_within_budget[where vars = "[Var ''x'' ''int'' ''1'' False [] 0 [] []]" and omitted = 0 and truncated = False])
    (simp_all add: Fit_def fit_bfs.simps cost_def write_level_def Let_def)

end
