(* ===== verification/Inspect.thy ===== *)
theory Inspect
  imports Actions Member_Path Fitter
begin

text \<open>
  Reading a stopped program (\<^verbatim>\<open>inspect.go\<close>, and the stack and the capture of a stop in
  \<^verbatim>\<open>session.go\<close>): frames, scopes, variables, member paths, what changed since the
  previous stop, and the session's output and events as a client asks for them.
\<close>

section \<open>Frames\<close>

abbreviation maxChildren :: nat where "maxChildren \<equiv> 50"
abbreviation maxValueLength :: nat where "maxValueLength \<equiv> 200"
abbreviation contextWatch :: string where "contextWatch \<equiv> ''watch''"
abbreviation contextRepl :: string where "contextRepl \<equiv> ''repl''"

record frame = api_frame +
  f_id :: int

definition frame_of :: "nat \<Rightarrow> dap_frame \<Rightarrow> frame" where
  "frame_of i f = \<lparr>fr_Index = int i, fr_Name = df_Name f,
     fr_File = (case df_Source f of Some src \<Rightarrow> src_Path src | None \<Rightarrow> []),
     fr_Line = df_Line f, fr_Column = df_Column f, f_id = df_Id f\<rparr>"

definition stack :: "env \<Rightarrow> int \<Rightarrow> int \<Rightarrow> frame list action" where
  "stack E threadID levels =
    bind_act (Call E (StackTraceReq threadID levels) sel_stack) (\<lambda>fs. ret (map2 frame_of [0..<length fs] fs))"

definition Stack :: "env \<Rightarrow> int \<Rightarrow> int \<Rightarrow> api_frame list action" where
  "Stack E threadID levels =
    with_state (\<lambda>s. bind_act (check (requireStopped s)) (\<lambda>stopped.
      bind_act (stack E (if threadID = 0 then stopped else threadID) levels) (\<lambda>fs.
        ret (map api_frame.truncate fs))))"

definition frameID :: "env \<Rightarrow> int \<Rightarrow> int action" where
  "frameID E index =
    with_state (\<lambda>s. bind_act (check (requireStopped s)) (\<lambda>stopped.
      bind_act (stack E stopped (index + 1)) (\<lambda>fs.
        if index < 0 \<or> index \<ge> int (length fs)
        then fail (NewError CodeInvalidRequest
          [Lit (''frame '' @ itoa index @ '' does not exist (the stack has '' @ itoa (int (length fs)) @ '')'')])
        else ret (f_id (fs ! nat index)))))"

definition Breakpoints :: "env \<Rightarrow> string \<Rightarrow> session \<Rightarrow> api_breakpoint list" where
  "Breakpoints E owner s =
    annotate E s (sort_key bp_ID (map api_of (filter (\<lambda>b. owner = [] \<or> bp_Owner b = owner) (all_bps s))))"

section \<open>Variables\<close>

definition truncate_text :: "string \<Rightarrow> string" where
  "truncate_text v = (if RuneCount v \<le> maxValueLength then v
    else take_runes maxValueLength v @ [CHR 0xE2, CHR 0x80, CHR 0xA6])"

fun sel_scopes :: "dap_response \<Rightarrow> dap_scope list option" where
  "sel_scopes (ScopesResp scs) = Some scs"
| "sel_scopes _ = None"

fun sel_variables :: "dap_response \<Rightarrow> dap_variable list option" where
  "sel_variables (VariablesResp vs) = Some vs"
| "sel_variables _ = None"

definition scopes :: "env \<Rightarrow> int \<Rightarrow> dap_scope list action" where
  "scopes E fid = Call E (ScopesReq fid) sel_scopes"

definition children :: "env \<Rightarrow> int \<Rightarrow> dap_variable list action" where
  "children E ref = Call E (VariablesReq ref) sel_variables"

definition evalBody :: "env \<Rightarrow> int \<Rightarrow> string \<Rightarrow> string \<Rightarrow> (string \<times> string \<times> int) action" where
  "evalBody E fid expr evalContext = Call E (EvaluateReq expr fid evalContext) sel_evaluate"

text \<open>
  One variable of \<^verbatim>\<open>variables\<close>: \<open>sub\<close> fetches the members of a reference if the
  depth asks for them.
\<close>

definition var_of :: "(int \<Rightarrow> (var list \<times> int) action) option \<Rightarrow> dap_variable \<Rightarrow> var action" where
  "var_of sub v =
    (let av = (\<lambda>cs m. Var (dv_Name v) (dv_Type v) (truncate_text (dv_Value v)) (dv_VariablesReference v > 0) cs m [] []) in
     case sub of
       Some f \<Rightarrow> if dv_VariablesReference v > 0
                 then bind_act (f (dv_VariablesReference v)) (\<lambda>(cs, m). ret (av cs m)) else ret (av [] 0)
     | None \<Rightarrow> ret (av [] 0))"

definition fetch_level :: "env \<Rightarrow> (int \<Rightarrow> (var list \<times> int) action) option \<Rightarrow> int \<Rightarrow> (var list \<times> int) action" where
  "fetch_level E sub ref =
    bind_act (children E ref) (\<lambda>vs.
      bind_act (each (var_of sub) (take maxChildren vs)) (\<lambda>out.
        ret (out, int (length vs - maxChildren))))"

text \<open>\<open>n\<close> is how many levels below this one are expanded.\<close>

primrec fetch_levels :: "env \<Rightarrow> nat \<Rightarrow> int \<Rightarrow> (var list \<times> int) action" where
  "fetch_levels E 0 = fetch_level E None"
| "fetch_levels E (Suc n) = fetch_level E (Some (fetch_levels E n))"

definition variables :: "env \<Rightarrow> int \<Rightarrow> int \<Rightarrow> (var list \<times> int) action" where
  "variables E ref depth = fetch_levels E (nat (depth - 1)) ref"

record api_scope =
  as_Name :: string
  as_Vars :: "var list"
  as_More :: int
  as_Expensive :: bool
  as_Truncated :: bool

fun vars_loop :: "env \<Rightarrow> int \<Rightarrow> int \<Rightarrow> dap_scope list \<Rightarrow> api_scope list action" where
  "vars_loop E depth left [] = ret []"
| "vars_loop E depth left (sc # scs) =
    (if sc_Expensive sc
     then bind_act (vars_loop E depth left scs) (\<lambda>rest.
       ret (\<lparr>as_Name = sc_Name sc, as_Vars = [], as_More = 0, as_Expensive = True, as_Truncated = False\<rparr> # rest))
     else bind_act (variables E (sc_VariablesReference sc) depth) (\<lambda>(vars, m).
       case Fit left vars of (left', ks, omitted, cutOff) \<Rightarrow>
         bind_act (vars_loop E depth left' scs) (\<lambda>rest.
           ret (\<lparr>as_Name = sc_Name sc, as_Vars = ks, as_More = m + omitted, as_Expensive = False, as_Truncated = cutOff\<rparr> # rest))))"

definition Vars :: "env \<Rightarrow> int \<Rightarrow> int \<Rightarrow> int \<Rightarrow> api_scope list action" where
  "Vars E frameIndex depth budget =
    bind_act (frameID E frameIndex) (\<lambda>fid.
      bind_act (scopes E fid) (\<lambda>scs. vars_loop E depth (NewFitter budget) scs))"

section \<open>Member paths\<close>

definition noMember :: "string list \<Rightarrow> string \<Rightarrow> error" where
  "noMember parent seg = NewError CodeInvalidRequest
    [Lit (''no '' @ seg @ '' in '' @ (if parent \<noteq> [] then joinPath parent else ''the frame's variables''))]"

definition no_members :: "string list \<Rightarrow> error" where
  "no_members path = NewError CodeInvalidRequest [Lit (joinPath path @ '' has no members'')]"

text \<open>\<^verbatim>\<open>walk\<close>; \<open>pre\<close> are the segments followed so far.\<close>

fun walk :: "env \<Rightarrow> string list \<Rightarrow> dap_variable list \<Rightarrow> string list \<Rightarrow> dap_variable action" where
  "walk E pre candidates [] = ret \<lparr>dv_Name = [], dv_Type = [], dv_Value = [], dv_VariablesReference = 0\<rparr>"
| "walk E pre candidates (seg # segs) =
    (case find (\<lambda>c. dv_Name c = seg) candidates of
       None \<Rightarrow> fail (noMember pre seg)
     | Some cur \<Rightarrow>
         if segs = [] then ret cur
         else if dv_VariablesReference cur = 0 then fail (no_members (pre @ [seg]))
         else bind_act (children E (dv_VariablesReference cur)) (\<lambda>cs. walk E (pre @ [seg]) cs segs))"

definition evaluatePath :: "env \<Rightarrow> int \<Rightarrow> string \<Rightarrow> error \<Rightarrow> dap_variable action" where
  "evaluatePath E fid path walkErr =
    (if env_sideEffects E path \<noteq> None then fail walkErr
     else try_act (evalBody E fid path contextWatch) (\<lambda>r. case r of
       Inl _ \<Rightarrow> fail walkErr
     | Inr (res, typ, ref) \<Rightarrow> ret \<lparr>dv_Name = path, dv_Type = typ, dv_Value = res, dv_VariablesReference = ref\<rparr>))"

definition cheap_scopes :: "dap_scope list \<Rightarrow> dap_scope list" where
  "cheap_scopes scs = filter (\<lambda>sc. \<not> sc_Expensive sc) scs"

definition Expand :: "env \<Rightarrow> int \<Rightarrow> string \<Rightarrow> int \<Rightarrow> int \<Rightarrow> api_scope list action" where
  "Expand E frameIndex path depth budget =
    bind_act (check (splitPath path)) (\<lambda>segs.
    bind_act (frameID E frameIndex) (\<lambda>fid.
    bind_act (scopes E fid) (\<lambda>scs.
    bind_act (each (\<lambda>sc. children E (sc_VariablesReference sc)) (cheap_scopes scs)) (\<lambda>vss.
    bind_act (try_act (walk E [] (concat vss) segs) (\<lambda>r. case r of
        Inl walkErr \<Rightarrow> evaluatePath E fid path walkErr
      | Inr v \<Rightarrow> ret v)) (\<lambda>target.
    bind_act (if dv_VariablesReference target > 0 then variables E (dv_VariablesReference target) depth else ret ([], 0)) (\<lambda>(cs, m).
      case Fit (NewFitter budget) [Var (dv_Name target) (dv_Type target) (truncate_text (dv_Value target))
             (dv_VariablesReference target > 0) cs m [] []] of
        (_, ks, omitted, cutOff) \<Rightarrow>
          ret [\<lparr>as_Name = path, as_Vars = ks, as_More = omitted, as_Expensive = False, as_Truncated = cutOff\<rparr>]))))))"

section \<open>What changed since the previous stop\<close>

definition localScopes :: "dap_scope list \<Rightarrow> dap_scope list" where
  "localScopes scs =
    (let marked = filter (\<lambda>sc. sc_PresentationHint sc = ''locals'') scs
     in if marked \<noteq> [] then marked else cheap_scopes scs)"

definition frameLocals :: "env \<Rightarrow> int \<Rightarrow> (var list \<times> int) action" where
  "frameLocals E fid =
    bind_act (scopes E fid) (\<lambda>scs.
      bind_act (each (\<lambda>sc. variables E (sc_VariablesReference sc) 1) (localScopes scs)) (\<lambda>vms.
        ret (concat (map fst vms), sum_list (map snd vms))))"

definition no_frame :: api_frame where
  "no_frame = \<lparr>fr_Index = 0, fr_Name = [], fr_File = [], fr_Line = 0, fr_Column = 0\<rparr>"

text \<open>What \<^verbatim>\<open>capture\<close> reads of the stop with number \<open>stops\<close>, and storing it.\<close>

definition fetch_capture :: "env \<Rightarrow> int \<Rightarrow> int \<Rightarrow> stop_capture action" where
  "fetch_capture E stops thread =
    bind_act (stack E thread 1) (\<lambda>fs.
      if fs = [] then ret \<lparr>cp_stops = stops, cp_frame = no_frame, cp_locals = [], cp_more = 0\<rparr>
      else bind_act (frameLocals E (f_id (hd fs))) (\<lambda>(ls, m).
        ret \<lparr>cp_stops = stops, cp_frame = api_frame.truncate (hd fs), cp_locals = ls, cp_more = m\<rparr>))"

definition store_capture :: "stop_capture \<Rightarrow> session \<Rightarrow> session \<times> (stop_capture \<times> stop_capture option) result" where
  "store_capture c s =
    (if s_stops s \<noteq> cp_stops c then (s, Inr (c, s_cur s))
     else let s1 = (if (case s_cur s of Some c' \<Rightarrow> cp_stops c' \<noteq> cp_stops c | None \<Rightarrow> True) then s\<lparr>s_prev := s_cur s\<rparr> else s);
              s2 = s1\<lparr>s_cur := Some c, s_curStale := False\<rparr>
          in (s2, Inr (c, s_prev s2)))"

definition capture :: "env \<Rightarrow> (stop_capture \<times> stop_capture option) action" where
  "capture E =
    with_state (\<lambda>s.
      case (case s_cur s of Some c \<Rightarrow> if cp_stops c = s_stops s \<and> \<not> s_curStale s then Some c else None | None \<Rightarrow> None) of
        Some c \<Rightarrow> ret (c, s_prev s)
      | None \<Rightarrow>
          if s_state s \<noteq> StateStopped then fail (stateError (s_ID s) (s_state s) ''reading locals needs a stopped program'')
          else bind_act (fetch_capture E (s_stops s) (si_ThreadID (s_stop s))) store_capture)"

definition changes :: "stop_capture \<Rightarrow> stop_capture option \<Rightarrow> bool \<times> var list" where
  "changes cur prev =
    (case prev of
       None \<Rightarrow> (True, Diff [] (cp_locals cur))
     | Some p \<Rightarrow>
         if fr_Name (cp_frame p) \<noteq> fr_Name (cp_frame cur) \<or> fr_File (cp_frame p) \<noteq> fr_File (cp_frame cur)
         then (True, Diff [] (cp_locals cur))
         else (False, Diff (cp_locals p) (cp_locals cur)))"

definition Changes :: "env \<Rightarrow> int \<Rightarrow> api_scope list action" where
  "Changes E budget =
    bind_act (capture E) (\<lambda>(cur, prev).
      case changes cur prev of (newFrame, vs) \<Rightarrow>
        (case Fit (NewFitter budget) vs of (_, ks, omitted, cutOff) \<Rightarrow>
          ret [\<lparr>as_Name = (if newFrame then ''Locals (first stop in this function: all new)'' else ''Changed since the previous stop''),
                as_Vars = ks, as_More = omitted, as_Expensive = False, as_Truncated = cutOff\<rparr>]))"

section \<open>Output and events\<close>

abbreviation snapshotOutput :: nat where "snapshotOutput \<equiv> 20"
abbreviation snapshotOutputBytes :: nat where "snapshotOutputBytes \<equiv> 16 * 2 ^ 10"

definition outputSinceResume :: "session \<Rightarrow> output_line list \<times> nat" where
  "outputSinceResume s =
    (let lines = outputSince (s_resumedAt s) (s_log s);
         omitted = length lines - snapshotOutput;
         (ks, c) = CapOutput (drop omitted lines) snapshotOutputBytes True
     in (ks, omitted + c))"

definition Output :: "int \<Rightarrow> int \<Rightarrow> session \<Rightarrow> output_line list \<times> nat" where
  "Output since tail s =
    (let lines = outputSince since (s_log s);
         lines' = (if tail > 0 \<and> int (length lines) > tail then drop (length lines - nat tail) lines else lines)
     in CapOutput lines' MaxResultBytes (tail > 0))"

definition checkEventKinds :: "event_kind list \<Rightarrow> unit result" where
  "checkEventKinds kinds =
    (case find (\<lambda>k. k \<notin> set EventKinds) kinds of
       Some k \<Rightarrow> Inl (NewError CodeInvalidRequest [Lit ''unknown event kind '', Quoted k])
     | None \<Rightarrow> Inr ())"

text \<open>\<^verbatim>\<open>Events\<close>: \<open>later\<close> are the logs seen while waiting, \<open>final\<close> the one at the deadline.\<close>

definition Events :: "env \<Rightarrow> events_params \<Rightarrow> (event_log list \<times> event_log) option \<Rightarrow> session \<Rightarrow> events_result result" where
  "Events E q waiting s =
    (case checkEventKinds (ep_Kinds q) of
       Inl e \<Rightarrow> Inl e
     | Inr _ \<Rightarrow>
         let res = (case waiting of Some (later, final) \<Rightarrow> log_wait q (s_log s) later final | None \<Rightarrow> queryLocked q (s_log s));
             (evs, omitted) = ShapeEvents (env_jsonEvent E) (er_Events res) (ep_Budget q) (ep_Newest q)
         in Inr (res\<lparr>er_Events := evs, er_More := er_More res + int omitted\<rparr>))"

section \<open>Bounds of what is read\<close>

text \<open>A tree of at most \<open>n\<close> levels below the variable, \<open>K\<close> members each, whose values have at most \<open>L\<close> bytes.\<close>

primrec tree_within :: "nat \<Rightarrow> nat \<Rightarrow> nat \<Rightarrow> var \<Rightarrow> bool" where
  "tree_within K L 0 v = (length (v_Value v) \<le> L \<and> v_Children v = [])"
| "tree_within K L (Suc n) v =
    (length (v_Value v) \<le> L \<and> length (v_Children v) \<le> K \<and> list_all (tree_within K L n) (v_Children v))"

lemma tree_within_leaf: "tree_within K L 0 v \<Longrightarrow> tree_within K L n v"
  by (cases n) simp_all

lemma tree_within_leaves: "list_all (tree_within K L 0) vs \<Longrightarrow> list_all (tree_within K L n) vs"
  by (auto simp: list_all_iff intro: tree_within_leaf)

lemma tree_within_value: "tree_within K L n v \<Longrightarrow> length (v_Value v) \<le> L"
  by (cases n) simp_all

lemma tree_within_strip: "tree_within K L n v \<Longrightarrow> tree_within K L 0 (strip v)"
  using tree_within_value by (simp add: strip_def)

lemma members_value [simp]: "v_Value (set_members vs m v) = v_Value v"
  by (simp add: set_members_def)

lemma list_all_update: "list_all P xs \<Longrightarrow> P x \<Longrightarrow> list_all P (xs[i := x])"
  using set_update_subset_insert[of xs i x] by (auto simp: list_all_iff)

lemma upd_at_within:
  "list_all (tree_within K L n) vs \<Longrightarrow> length p \<le> n \<Longrightarrow> length ks \<le> K \<Longrightarrow> list_all (tree_within K L 0) ks \<Longrightarrow>
    list_all (tree_within K L n) (upd_at p (set_members ks m) vs) \<and> length (upd_at p (set_members ks m) vs) = length vs"
proof (induction p "set_members ks m" vs arbitrary: n rule: upd_at.induct)
  case (2 i vs)
  then obtain k where n: "n = Suc k" by (cases n) auto
  then have "i < length vs \<Longrightarrow> tree_within K L n (set_members ks m (vs ! i))"
    using 2 tree_within_leaves[of K L ks k] by (simp add: list_all_length)
  then show ?case using 2(1) by (simp add: list_all_update)
next
  case (3 i j p vs)
  then obtain k where n: "n = Suc k" by (cases n) auto
  have "tree_within K L n (set_members (upd_at (j # p) (set_members ks m) (v_Children (vs ! i))) 0 (vs ! i))" if i: "i < length vs"
  proof -
    have v: "tree_within K L (Suc k) (vs ! i)" using 3(2) i n by (simp add: list_all_length)
    then show ?thesis using 3(1)[OF i, of k] 3(3,4,5) n by simp
  qed
  then show ?case using 3(2) by (simp add: list_all_update)
qed simp

lemma fit_level_within:
  "fit_level dst indent i left vs = (l, ks, qs, c) \<Longrightarrow> list_all (tree_within K L n) vs \<Longrightarrow>
    list_all (tree_within K L 0) ks \<and> length ks \<le> length vs
    \<and> list_all (\<lambda>lv. length (lv_dst lv) = Suc (length dst) \<and> 0 < n \<and> length (lv_src lv) \<le> K \<and> list_all (tree_within K L (n - 1)) (lv_src lv)) qs"
proof (induction vs arbitrary: i left l ks qs c)
  case (Cons v vs)
  show ?case
  proof (cases "cost v indent > left")
    case False
    obtain ks1 qs1 where r: "fit_level dst indent (i + 1) (left - cost v indent) vs = (l, ks1, qs1, c)" "ks = strip v # ks1"
      "qs = (if v_Children v \<noteq> [] then [\<lparr>lv_src = v_Children v, lv_dst = dst @ [i], lv_extra = v_More v, lv_indent = indent + 1\<rparr>] else []) @ qs1"
      using Cons.prems(1) False by (auto split: prod.splits)
    have v: "tree_within K L n v" using Cons.prems(2) by simp
    have "0 < n \<and> length (v_Children v) \<le> K \<and> list_all (tree_within K L (n - 1)) (v_Children v)" if "v_Children v \<noteq> []"
      using v that by (cases n) simp_all
    then show ?thesis using Cons.IH[OF r(1)] Cons.prems(2) r(2,3) tree_within_strip[OF v] by simp
  qed (use Cons.prems in auto)
qed auto

definition level_within :: "nat \<Rightarrow> nat \<Rightarrow> nat \<Rightarrow> level \<Rightarrow> bool" where
  "level_within K L n lv \<longleftrightarrow> length (lv_dst lv) \<le> n \<and> length (lv_src lv) \<le> K
    \<and> list_all (tree_within K L (n - length (lv_dst lv))) (lv_src lv)"

lemma write_level_within:
  assumes "level_within K L n lv" "fit_level (lv_dst lv) (lv_indent lv) 0 left (lv_src lv) = (l, ks, qs, c)"
    "length T \<le> K" "list_all (tree_within K L n) T"
  shows "length (fst (write_level lv ks c (T, om))) \<le> K \<and> list_all (tree_within K L n) (fst (write_level lv ks c (T, om)))
    \<and> list_all (level_within K L n) qs"
proof -
  note f = fit_level_within[OF assms(2), of K L "n - length (lv_dst lv)"]
  have src: "length (lv_dst lv) \<le> n" "length (lv_src lv) \<le> K" "list_all (tree_within K L (n - length (lv_dst lv))) (lv_src lv)"
    using assms(1) by (simp_all add: level_within_def)
  have ks: "list_all (tree_within K L 0) ks" "length ks \<le> K" using f[OF src(3)] src(2) by auto
  obtain m where wr: "write_level lv ks c (T, om) =
    (if lv_dst lv = [] then (ks, om + m) else (upd_at (lv_dst lv) (set_members ks m) T, om))"
    using write_level_members[OF assms(2)] by blast
  have "list_all (level_within K L n) qs"
    using f[OF src(3)] src(1) unfolding list_all_iff level_within_def by (auto simp: diff_Suc split: nat.splits)
  moreover note upd_at_within[OF assms(4) src(1) ks(2,1), of m]
  ultimately show ?thesis unfolding wr using ks assms(3) tree_within_leaves[OF ks(1), of n] by simp
qed

lemma fit_bfs_within:
  "fit_bfs left queue (T, om) = (left', (T', om'), c) \<Longrightarrow> list_all (level_within K L n) queue \<Longrightarrow> length T \<le> K \<Longrightarrow>
    list_all (tree_within K L n) T \<Longrightarrow> length T' \<le> K \<and> list_all (tree_within K L n) T'"
proof (induction left queue "(T, om)" arbitrary: T om rule: fit_bfs.induct)
  case (1 left queue)
  show ?case
  proof (cases queue)
    case Nil
    then show ?thesis using 1 by (simp add: fit_bfs.simps)
  next
    case (Cons lv q)
    obtain l ks qs ct where f: "fit_level (lv_dst lv) (lv_indent lv) 0 left (lv_src lv) = (l, ks, qs, ct)" by (metis prod_cases4)
    obtain T1 om1 where w: "write_level lv ks ct (T, om) = (T1, om1)" by force
    have "level_within K L n lv" using 1(3) Cons by simp
    note b = write_level_within[OF this f 1(4,5), of om, unfolded w, simplified]
    show ?thesis
    proof (cases "ct = None")
      case True
      then have "fit_bfs l (q @ qs) (T1, om1) = (left', (T', om'), c)"
        using 1(2) Cons f w by (simp add: fit_bfs.simps[of left])
      then show ?thesis using 1(1)[OF Cons f[symmetric] refl refl w[symmetric]] True 1(3) Cons b by simp
    next
      case False
      then show ?thesis using 1(2) Cons f w b by (simp add: fit_bfs.simps[of left])
    qed
  qed
qed

lemma Fit_within:
  assumes "Fit left vs = (left', ks, om, c)" "length vs \<le> K" "list_all (tree_within K L n) vs"
  shows "length ks \<le> K \<and> list_all (tree_within K L n) ks"
proof (cases "left < 0")
  case True
  then show ?thesis using assms by (simp add: Fit_def)
next
  case False
  then have "fit_bfs left [\<lparr>lv_src = vs, lv_dst = [], lv_extra = 0, lv_indent = 0\<rparr>] ([], 0) = (left', (ks, om), c)"
    using assms(1) by (auto simp: Fit_def split: prod.splits)
  then show ?thesis by (rule fit_bfs_within) (simp_all add: level_within_def assms)
qed

lemma decode_rune_max: "snd (decode_rune s) \<le> 4"
  by (cases s) (auto simp: decode_rune.simps Let_def split: list.splits)

lemma chunk_width: "x \<in> set (chunks s) \<Longrightarrow> length (snd x) \<le> 4"
proof (induction s rule: chunks_induct)
  case (Step c s r w)
  have "Suc w \<le> 4" using decode_rune_max[of "c # s"] Step(1) by simp
  then show ?case using Step by (auto simp: chunks_step)
qed simp

lemma concat_width: "(\<And>x. x \<in> set xs \<Longrightarrow> length (f x) \<le> k) \<Longrightarrow> length (concat (map f xs)) \<le> k * length xs"
proof (induction xs)
  case (Cons x xs)
  then have "length (f x) \<le> k" "length (concat (map f xs)) \<le> k * length xs" by simp_all
  then show ?case by (simp add: algebra_simps)
qed simp

lemma truncate_length: "length (truncate_text v) \<le> 803"
proof (cases "RuneCount v \<le> maxValueLength")
  case True
  then show ?thesis using concat_width[of "chunks v" snd 4] chunk_width[of _ v] chunks_concat[of v]
    by (simp add: truncate_text_def RuneCount_def)
next
  case False
  have "length (take_runes 200 v) \<le> 4 * length (take 200 (chunks v))"
    unfolding take_runes_def by (rule concat_width) (auto dest!: in_set_takeD chunk_width)
  then show ?thesis using False by (simp add: truncate_text_def)
qed

lemma var_of_within:
  assumes "var_of sub v s = (t, Inr w)"
    "case sub of None \<Rightarrow> True | Some f \<Rightarrow> 0 < n \<and> (\<forall>r s t cs m. f r s = (t, Inr (cs, m)) \<longrightarrow> length cs \<le> K \<and> list_all (tree_within K 803 (n - 1)) cs)"
  shows "tree_within K 803 n w"
proof -
  let ?leaf = "Var (dv_Name v) (dv_Type v) (truncate_text (dv_Value v)) (dv_VariablesReference v > 0) [] 0 [] []"
  have leaf: "tree_within K 803 n ?leaf" by (cases n) (simp_all add: truncate_length)
  show ?thesis
  proof (cases sub)
    case None
    then show ?thesis using assms(1) leaf by (auto simp: var_of_def ret_def)
  next
    case (Some f)
    obtain k where n: "n = Suc k" using assms(2) Some by (cases n) auto
    have sf: "f r s = (t, Inr (cs, m)) \<Longrightarrow> length cs \<le> K \<and> list_all (tree_within K 803 k) cs" for r s t cs m
      using assms(2)[unfolded Some option.case n, THEN conjunct2, rule_format, of r s t cs m] by simp
    show ?thesis
    proof (cases "dv_VariablesReference v > 0")
      case True
      then obtain cs m where "f (dv_VariablesReference v) s = (t, Inr (cs, m))"
        "w = Var (dv_Name v) (dv_Type v) (truncate_text (dv_Value v)) True cs m [] []"
        using assms(1) Some by (auto simp: var_of_def ret_def elim!: bind_actE)
      then show ?thesis using sf[of _ s t cs m] n by (simp add: truncate_length)
    next
      case False
      then show ?thesis using assms(1) leaf Some by (simp add: var_of_def ret_def)
    qed
  qed
qed

lemma each_all: "each f xs s = (t, Inr ys) \<Longrightarrow> (\<And>x s t y. f x s = (t, Inr y) \<Longrightarrow> P y) \<Longrightarrow> list_all P ys"
proof (induction xs arbitrary: s t ys)
  case (Cons x xs)
  from Cons.prems(1) obtain u y v zs where "f x s = (u, Inr y)" "each f xs u = (v, Inr zs)" "ys = y # zs"
    by (auto simp: ret_def elim!: bind_actE)
  then show ?case using Cons.IH[of u v zs] Cons.prems(2)[of x s u y] Cons.prems(2) by simp
qed (simp add: ret_def)

lemma fetch_levels_within:
  "fetch_levels E n ref s = (t, Inr (vs, m)) \<Longrightarrow> length vs \<le> maxChildren \<and> list_all (tree_within maxChildren 803 n) vs"
proof (induction n arbitrary: ref s t vs m)
  case 0
  then obtain u v us where "each (var_of None) us u = (v, Inr vs)" "length us \<le> maxChildren"
    by (auto simp: fetch_level_def ret_def elim!: bind_actE)
  then show ?case using each_all[of "var_of None" us u v vs "tree_within maxChildren 803 0"] var_of_within[of None _ _ _ _ 0 maxChildren] each_length by fastforce
next
  case (Suc n)
  then obtain u v us where e: "each (var_of (Some (fetch_levels E n))) us u = (v, Inr vs)" "length us \<le> maxChildren"
    by (auto simp: fetch_level_def ret_def elim!: bind_actE)
  have "tree_within maxChildren 803 (Suc n) w" if "var_of (Some (fetch_levels E n)) x a = (b, Inr w)" for x a b w
    by (rule var_of_within[OF that]) (use Suc.IH in auto)
  then show ?case using each_all[OF e(1), of "tree_within maxChildren 803 (Suc n)"] e each_length by metis
qed


definition scope_within :: "nat \<Rightarrow> api_scope \<Rightarrow> bool" where
  "scope_within n sc \<longleftrightarrow> length (as_Vars sc) \<le> maxChildren \<and> list_all (tree_within maxChildren 803 n) (as_Vars sc)"

lemma vars_loop_within:
  "vars_loop E depth left scs s = (t, Inr out) \<Longrightarrow>
    map as_Name out = map sc_Name scs \<and> list_all (scope_within (nat (depth - 1))) out
    \<and> (0 \<le> left \<longrightarrow> sum_list (map (list_cost 0 \<circ> as_Vars) out) \<le> left)"
proof (induction scs arbitrary: left s t out)
  case (Cons sc scs)
  show ?case
  proof (cases "sc_Expensive sc")
    case True
    then obtain u rest where "vars_loop E depth left scs s = (u, Inr rest)"
      "out = \<lparr>as_Name = sc_Name sc, as_Vars = [], as_More = 0, as_Expensive = True, as_Truncated = False\<rparr> # rest"
      using Cons.prems by (auto simp: ret_def elim!: bind_actE)
    then show ?thesis using Cons.IH[of left s u rest] by (simp add: scope_within_def list_cost_def)
  next
    case False
    then obtain u vs m left' ks om c v rest where r: "variables E (sc_VariablesReference sc) depth s = (u, Inr (vs, m))"
      "Fit left vs = (left', ks, om, c)" "vars_loop E depth left' scs u = (v, Inr rest)"
      "out = \<lparr>as_Name = sc_Name sc, as_Vars = ks, as_More = m + om, as_Expensive = False, as_Truncated = c\<rparr> # rest"
      using Cons.prems by (auto simp: ret_def elim!: bind_actE split: prod.splits)
    have "length vs \<le> maxChildren" "list_all (tree_within maxChildren 803 (nat (depth - 1))) vs"
      using fetch_levels_within r(1) unfolding variables_def by blast+
    note f = Fit_within[OF r(2) this]
    then show ?thesis using Cons.IH[OF r(3)] Fit_cost[OF _ r(2)] r(4) by (auto simp: scope_within_def)
  qed
qed (simp add: ret_def)

text \<open>
  C9: what listing variables returns is bounded whatever the adapter answers. A
  scope has at most 50 variables, every level at most 50 members, there are at most
  as many levels as asked for, no value is longer than 803 bytes (200 runes and the
  mark of the cut), and with a budget the text of all scopes together costs at most
  four characters per token.
\<close>

theorem listed_variables_are_bounded:
  assumes "Vars E frameIndex depth budget s = (s', Inr out)"
  shows "list_all (scope_within (nat (depth - 1))) out
    \<and> (0 < budget \<longrightarrow> sum_list (map (list_cost 0 \<circ> as_Vars) out) \<le> 4 * budget)"
proof -
  obtain u scs where "vars_loop E depth (NewFitter budget) scs u = (s', Inr out)"
    using assms unfolding Vars_def by (elim bind_actE)
  note v = vars_loop_within[OF this]
  have "0 < budget \<Longrightarrow> NewFitter budget = 4 * budget" by (simp add: NewFitter_def)
  then show ?thesis using v by auto
qed

text \<open>An adapter with one frame, one scope and one variable.\<close>

fun demo_answer :: "dap_request \<Rightarrow> dap_error + dap_response" where
  "demo_answer (StackTraceReq t n) = Inr (StackTraceResp [\<lparr>df_Id = 7, df_Name = ''main'', df_Line = 3, df_Column = 1, df_Source = Some (Source [] ''/a.cs'' [])\<rparr>])"
| "demo_answer (ScopesReq f) = Inr (ScopesResp [\<lparr>sc_Name = ''Locals'', sc_VariablesReference = 9, sc_Expensive = False, sc_PresentationHint = [], sc_Source = None\<rparr>])"
| "demo_answer (VariablesReq r) = Inr (VariablesResp [\<lparr>dv_Name = ''x'', dv_Type = ''int'', dv_Value = ''1'', dv_VariablesReference = 0\<rparr>])"
| "demo_answer (EvaluateReq e f c) = Inr (EvaluateResp ''1'' ''int'' 0)"
| "demo_answer _ = Inr OtherResp"

definition demo_reader :: env where
  "demo_reader = demo_env\<lparr>env_adapter := (\<lambda>_ req. ([], demo_answer req))\<rparr>"

definition demo_stopped :: session where
  "demo_stopped = demo_session\<lparr>s_state := StateStopped, s_client := True\<rparr>"

theorem listed_variables_are_bounded_witness:
  "\<exists>out. snd (Vars demo_reader 0 1 10 demo_stopped) = Inr out \<and> length out = 1
    \<and> list_all (scope_within 0) out \<and> sum_list (map (list_cost 0 \<circ> as_Vars) out) \<le> 40"
proof -
  have "\<exists>t. Vars demo_reader 0 1 10 demo_stopped = (t, Inr [\<lparr>as_Name = ''Locals'', as_Vars = [Var ''x'' ''int'' ''1'' False [] 0 [] []],
      as_More = 0, as_Expensive = False, as_Truncated = False\<rparr>])"
    by (simp add: Vars_def frameID_def with_state_def bind_act_def check_def requireStopped_def stack_def scopes_def
        variables_def fetch_level_def children_def Call_def Do_def demo_reader_def demo_stopped_def demo_env_def inters_def Let_def
        ret_def frame_of_def var_of_def NewFitter_def Fit_def fit_bfs.simps cost_def write_level_def strip_def truncate_text_def
        RuneCount_def chunks_ascii demo_session_def newSession_def demo_launch_def)
  then obtain t where "Vars demo_reader 0 1 10 demo_stopped = (t, Inr [\<lparr>as_Name = ''Locals'', as_Vars = [Var ''x'' ''int'' ''1'' False [] 0 [] []],
      as_More = 0, as_Expensive = False, as_Truncated = False\<rparr>])" ..
  from listed_variables_are_bounded[OF this] this show ?thesis by simp
qed

section \<open>Inspection only reads\<close>

text \<open>The requests that do not change the program: an evaluation counts if the driver's check finds no side effect.\<close>

fun reads :: "env \<Rightarrow> dap_request \<Rightarrow> bool" where
  "reads E (StackTraceReq t n) = True"
| "reads E (ScopesReq f) = True"
| "reads E (VariablesReq r) = True"
| "reads E (EvaluateReq e f c) = (c = contextWatch \<and> env_sideEffects E e = None)"
| "reads E _ = False"

lemma sent_form_plain [simp]:
  "sent_form s (StackTraceReq t n) = StackTraceReq t n" "sent_form s (ScopesReq f) = ScopesReq f"
  "sent_form s (VariablesReq r) = VariablesReq r" "sent_form s (EvaluateReq e f c) = EvaluateReq e f c"
  by (simp_all add: sent_form_def Outgoing_def split: option.splits)

text \<open>One proof for both relations: what holds of the four read requests holds of every inspection.\<close>

locale reading = frame_relation R for R :: "session \<Rightarrow> session \<Rightarrow> bool" +
  fixes E :: env
  assumes R_stack: "act (Call E (StackTraceReq t n) sel_stack)"
    and R_scopes: "act (Call E (ScopesReq f) sel_scopes)"
    and R_variables: "act (Call E (VariablesReq r) sel_variables)"
    and R_evaluate: "env_sideEffects E e = None \<Longrightarrow> act (Call E (EvaluateReq e f contextWatch) sel_evaluate)"
    and R_captured: "R s (s\<lparr>s_cur := c, s_prev := p, s_curStale := b\<rparr>)"
begin

lemma act_stack: "act (stack E t n)"
  unfolding stack_def by (intro act_bind R_stack act_ret)

lemma act_frameID: "act (frameID E i)"
  unfolding frameID_def by (intro act_with_state act_bind act_check act_stack act_if act_fail act_ret)

lemma act_children: "act (children E r)"
  unfolding children_def by (rule R_variables)

lemma act_scopes: "act (scopes E f)"
  unfolding scopes_def by (rule R_scopes)

lemma act_var_of: "(\<And>f. sub = Some f \<Longrightarrow> (\<And>r. act (f r))) \<Longrightarrow> act (var_of sub v)"
  by (cases sub) (simp_all add: var_of_def Let_def act_ret act_bind split: prod.splits)

lemma act_fetch_level: "(\<And>f. sub = Some f \<Longrightarrow> (\<And>r. act (f r))) \<Longrightarrow> act (fetch_level E sub r)"
  unfolding fetch_level_def by (intro act_bind act_children act_each act_var_of act_ret) simp

lemma act_fetch_levels: "act (fetch_levels E n r)"
  by (induction n arbitrary: r) (auto intro!: act_fetch_level)

lemma act_variables: "act (variables E r d)"
  unfolding variables_def by (rule act_fetch_levels)

lemma act_vars_loop: "act (vars_loop E d left scs)"
  by (induction scs arbitrary: left)
    (simp_all add: act_ret act_bind act_variables split: prod.splits)

lemma act_Stack: "act (Stack E t n)"
  unfolding Stack_def by (intro act_with_state act_bind act_check act_stack act_ret)

lemma act_Vars: "act (Vars E i d b)"
  unfolding Vars_def by (intro act_bind act_frameID act_scopes act_vars_loop)

lemma act_walk: "act (walk E pre cs segs)"
  by (induction segs arbitrary: pre cs)
    (simp_all add: act_ret act_fail act_bind act_children split: option.splits)

lemma act_evaluatePath: "act (evaluatePath E f path e)"
  unfolding evaluatePath_def evalBody_def
  by (cases "env_sideEffects E path") (auto simp: act_fail intro!: act_try R_evaluate act_ret act_fail split: sum.splits)

lemma act_Expand: "act (Expand E i path d b)"
  unfolding Expand_def
  by (intro act_bind act_check act_frameID act_scopes act_each act_children act_try)
    (auto intro!: act_walk act_evaluatePath act_ret act_variables act_bind split: sum.splits prod.splits)

lemma act_frameLocals: "act (frameLocals E f)"
  unfolding frameLocals_def by (intro act_bind act_scopes act_each act_variables act_ret)

lemma act_fetch_capture: "act (fetch_capture E n t)"
  unfolding fetch_capture_def
  by (intro act_bind act_stack act_if act_ret) (auto intro!: act_bind act_frameLocals act_ret split: prod.splits)

lemma act_store_capture: "act (store_capture c)"
  unfolding act_def
proof
  fix s
  have "fst (store_capture c s) = s \<or> (\<exists>d p b. fst (store_capture c s) = s\<lparr>s_cur := d, s_prev := p, s_curStale := b\<rparr>)"
  proof (cases "s_stops s = cp_stops c")
    case True
    show ?thesis
    proof (cases "case s_cur s of Some c' \<Rightarrow> cp_stops c' \<noteq> cp_stops c | None \<Rightarrow> True")
      case True
      then have "fst (store_capture c s) = s\<lparr>s_cur := Some c, s_prev := s_cur s, s_curStale := False\<rparr>"
        using \<open>s_stops s = cp_stops c\<close> by (simp add: store_capture_def Let_def)
      then show ?thesis by blast
    next
      case False
      then have "fst (store_capture c s) = s\<lparr>s_cur := Some c, s_prev := s_prev s, s_curStale := False\<rparr>"
        using \<open>s_stops s = cp_stops c\<close> by (simp add: store_capture_def Let_def)
      then show ?thesis by blast
    qed
  qed (simp add: store_capture_def)
  then show "R s (fst (store_capture c s))" using R_refl R_captured by (elim disjE exE) simp_all
qed

lemma act_capture: "act (capture E)"
  unfolding capture_def
  by (intro act_with_state) (auto intro!: act_ret act_fail act_bind act_fetch_capture act_store_capture split: option.splits)

lemma act_Changes: "act (Changes E b)"
  unfolding Changes_def by (intro act_bind act_capture) (auto intro!: act_ret split: prod.splits)

end

interpretation reading_silent: reading quiet E for E
  by unfold_locales (simp_all add: silent_Call)

interpretation reading_writes: reading "sends (reads E)" E for E
  by unfold_locales (simp_all add: writes_Call sends_same)

text \<open>
  All that an inspection does itself: it writes a request that reads, and while that waits
  for its answer others go on; or it keeps what it read of a stop for later comparison.
\<close>

inductive reading_step :: "env \<Rightarrow> session \<Rightarrow> session \<Rightarrow> bool" for E where
  read_request: "reads E req \<Longrightarrow>
    reading_step E s (inters (env_now E) (fst (env_adapter E (s_sent s) req)) (s\<lparr>s_sent := s_sent s @ [req]\<rparr>))"
| read_kept: "reading_step E s (s\<lparr>s_cur := c, s_prev := p, s_curStale := b\<rparr>)"

abbreviation inspected :: "env \<Rightarrow> session \<Rightarrow> session \<Rightarrow> bool" where "inspected E \<equiv> rtranclp (reading_step E)"

lemma Call_inspected: "reads E (sent_form s req) \<Longrightarrow> inspected E s (fst (Call E req sel s))"
proof -
  assume "reads E (sent_form s req)"
  moreover have "fst (Call E req sel s)
      = inters (env_now E) (fst (env_adapter E (s_sent s) (sent_form s req))) (s\<lparr>s_sent := s_sent s @ [sent_form s req]\<rparr>)"
    by (simp add: Call_def Do_def sent_form_def Let_def split: prod.split sum.split)
  ultimately show ?thesis using read_request by (metis r_into_rtranclp)
qed

interpretation frame_inspected: frame_relation "inspected E" for E
  by unfold_locales (simp, rule rtranclp_trans)

interpretation reading_inspected: reading "inspected E" E for E
proof unfold_locales
  show "inspected E s (s\<lparr>s_cur := c, s_prev := p, s_curStale := b\<rparr>)" for s c p b by (rule r_into_rtranclp) (rule read_kept)
qed (simp_all add: frame_inspected.act_def Call_inspected)

text \<open>Where nobody else does anything, the rest of the session is as it was.\<close>

definition undisturbed :: "env \<Rightarrow> bool" where
  "undisturbed E \<longleftrightarrow> (\<forall>sent req. fst (env_adapter E sent req) = [])"

definition untouched :: "session \<Rightarrow> session \<Rightarrow> bool" where
  "untouched s t \<longleftrightarrow> t = s\<lparr>s_sent := s_sent t, s_cur := s_cur t, s_prev := s_prev t, s_curStale := s_curStale t\<rparr>"

lemma untouched_by:
  "untouched s (s\<lparr>s_sent := r\<rparr>)" "untouched s (s\<lparr>s_cur := c, s_prev := p, s_curStale := b\<rparr>)"
  by (simp_all add: untouched_def)

lemma untouched_trans: "untouched s t \<Longrightarrow> untouched t u \<Longrightarrow> untouched s u"
proof -
  assume s: "untouched s t" and t: "untouched t u"
  have "u = t\<lparr>s_sent := s_sent u, s_cur := s_cur u, s_prev := s_prev u, s_curStale := s_curStale u\<rparr>"
    using t unfolding untouched_def .
  also have "\<dots> = s\<lparr>s_sent := s_sent u, s_cur := s_cur u, s_prev := s_prev u, s_curStale := s_curStale u\<rparr>"
    by (subst s[unfolded untouched_def]) simp
  finally show "untouched s u" unfolding untouched_def .
qed

lemma inspected_alone: "inspected E s t \<Longrightarrow> undisturbed E \<Longrightarrow> untouched s t"
proof (induction rule: rtranclp_induct)
  case base
  then show ?case by (simp add: untouched_def)
next
  case (step t u)
  from step.hyps(2) have "untouched t u"
    using step.prems by cases (simp_all add: undisturbed_def inters_def untouched_by)
  then show ?case using step untouched_trans by blast
qed

lemma not_stopped_refused:
  assumes "s_state s \<noteq> StateStopped"
  shows "Stack E t n s = (s, Inl (stateError (s_ID s) (s_state s) ''inspecting needs a stopped program''))"
    "Vars E i d b s = (s, Inl (stateError (s_ID s) (s_state s) ''inspecting needs a stopped program''))"
  using assms by (simp_all add: Stack_def Vars_def frameID_def with_state_def check_def bind_act_def requireStopped_def)

lemma not_stopped_Expand:
  assumes "s_state s \<noteq> StateStopped"
  shows "fst (Expand E i path d b s) = s \<and> \<not> is_ok (snd (Expand E i path d b s))"
  using assms by (cases "splitPath path") (simp_all add: Expand_def frameID_def with_state_def check_def bind_act_def requireStopped_def)

definition capture_current :: "session \<Rightarrow> bool" where
  "capture_current s \<longleftrightarrow> (\<exists>c. s_cur s = Some c \<and> cp_stops c = s_stops s \<and> \<not> s_curStale s)"

lemma not_stopped_Changes:
  assumes "s_state s \<noteq> StateStopped"
  shows "fst (Changes E b s) = s \<and> (is_ok (snd (Changes E b s)) \<longrightarrow> capture_current s)"
  using assms
  by (auto simp: Changes_def capture_def with_state_def bind_act_def ret_def fail_def capture_current_def split: option.split if_splits prod.split)



end
