(* ===== verification/Exec.thy ===== *)
theory Exec
  imports Inspect
begin

text \<open>
  Execution requests (\<^verbatim>\<open>session.go\<close>, and \<^verbatim>\<open>RunUntil\<close>'s part in \<^verbatim>\<open>breakpoints.go\<close>):
  admitting a request by the adapter's abilities, the state and the lease; removing
  what an earlier run-until left; placing a target; sending; and ending a session.
  Execution requests run one at a time (\<^verbatim>\<open>execMu\<close>).
\<close>

section \<open>Requests\<close>

abbreviation ExecContinue :: string where "ExecContinue \<equiv> ''continue''"
abbreviation ExecNext :: string where "ExecNext \<equiv> ''next''"
abbreviation ExecStepIn :: string where "ExecStepIn \<equiv> ''stepIn''"
abbreviation ExecStepOut :: string where "ExecStepOut \<equiv> ''stepOut''"
abbreviation ExecPause :: string where "ExecPause \<equiv> ''pause''"
abbreviation ExecRunUntil :: string where "ExecRunUntil \<equiv> ''runUntil''"
abbreviation ExecEval :: string where "ExecEval \<equiv> ''eval''"
abbreviation ExecSet :: string where "ExecSet \<equiv> ''set''"

record exec_request =
  xr_client :: client
  xr_kind :: string
  xr_thread :: int
  xr_target :: "breakpoint_spec option"
  xr_text :: string

text \<open>A pointer to the temporary breakpoint is its id.\<close>

record execution =
  ex_before :: int
  ex_target :: breakpoint_spec
  ex_targetID :: int
  ex_temp :: "int option"

section \<open>Admission\<close>

definition admit_error :: "exec_request \<Rightarrow> session \<Rightarrow> error option" where
  "admit_error r s =
    (if xr_kind r = ExecPause \<and> s_pauseUnsupported s \<noteq> []
     then Some (NewError CodeUnsupported [Lit (''the '' @ s_Lang s @ '' debug adapter ('' @ s_adapter s
            @ '') can't pause a running program: it stops it without reporting where'')])
     else if xr_kind r = ExecPause \<and> s_state s \<noteq> StateRunning
     then Some (stateError (s_ID s) (s_state s) ''pause needs a running program'')
     else if xr_kind r = ExecRunUntil \<and> s_state s \<noteq> StateStopped
     then Some (stateError (s_ID s) (s_state s) ''run-until needs a stopped program'')
     else if xr_kind r \<noteq> ExecPause \<and> s_state s \<noteq> StateStopped
     then Some (stateError (s_ID s) (s_state s) (xr_kind r @ '' needs a stopped program''))
     else None)"

definition admit :: "time \<Rightarrow> exec_request \<Rightarrow> int \<Rightarrow> (execution \<times> int) action" where
  "admit now r pauseTh =
    with_state (\<lambda>s. case admit_error r s of
      Some e \<Rightarrow> fail e
    | None \<Rightarrow> bind_act (acquireLocked now (xr_client r)) (\<lambda>_.
        with_state (\<lambda>s.
          let thread = (if xr_thread r \<noteq> 0 then xr_thread r
                        else if xr_kind r = ExecPause \<and> pauseTh \<noteq> 0 then pauseTh else si_ThreadID (s_stop s))
          in bind_act (change (log_event now ((Event EventExec)\<lparr>ev_Client := cl_ID (xr_client r), ev_Action := xr_kind r,
                  ev_ThreadID := xr_thread r, ev_Text := xr_text r\<rparr>))) (\<lambda>_.
               ret (\<lparr>ex_before = s_stops s, ex_target = no_spec, ex_targetID = 0, ex_temp = None\<rparr>, thread)))))"

definition pauseReady :: "client \<Rightarrow> session \<Rightarrow> bool" where
  "pauseReady c s = (s_pauseUnsupported s = [] \<and> s_state s = StateRunning \<and> allows (s_lease s) opExec c False)"

definition sendRequest :: "env \<Rightarrow> dap_request \<Rightarrow> dap_response action" where
  "sendRequest E req =
    with_state (\<lambda>s.
      if \<not> s_client s then fail (NewError CodeSessionExited [Lit ''the session has no debug adapter''])
      else Call E req Some)"

fun threads_of :: "dap_response \<Rightarrow> int list" where
  "threads_of (ThreadsResp ts) = ts"
| "threads_of _ = []"

definition pauseThread :: "env \<Rightarrow> int action" where
  "pauseThread E =
    try_act (sendRequest E ThreadsReq) (\<lambda>r. case r of
      Inl _ \<Rightarrow> ret 0
    | Inr resp \<Rightarrow> (case threads_of resp of
          [] \<Rightarrow> ret 0
        | t # ts \<Rightarrow> with_state (\<lambda>s. ret (if si_ThreadID (s_stop s) \<in> set (t # ts) then si_ThreadID (s_stop s) else t))))"

section \<open>Sending\<close>

definition sendExec :: "env \<Rightarrow> string \<Rightarrow> int \<Rightarrow> unit action" where
  "sendExec E kind thread =
    (if kind \<in> {ExecContinue, ExecNext, ExecStepIn, ExecStepOut, ExecPause}
     then Call E (ExecReq kind thread) sel_any
     else fail (NewError CodeInvalidRequest [Lit (''unknown execution kind '' @ kind)]))"

definition before_send :: "string \<Rightarrow> session \<Rightarrow> session" where
  "before_send kind s =
    (if kind \<noteq> ExecPause
     then s\<lparr>s_resumedAt := latest (s_log s), s_stepping := (kind \<in> {ExecNext, ExecStepIn, ExecStepOut}),
            s_pauseRequested := False, s_execInFlight := True\<rparr>
     else s\<lparr>s_pauseRequested := True, s_execInFlight := True\<rparr>)"

definition after_send :: "string \<Rightarrow> int \<Rightarrow> unit result \<Rightarrow> session \<Rightarrow> session" where
  "after_send kind before r s =
    (let s1 = s\<lparr>s_execInFlight := False\<rparr>;
         s2 = (case r of
             Inr _ \<Rightarrow> s1
           | Inl _ \<Rightarrow> if kind = ExecPause then s1\<lparr>s_pauseRequested := False\<rparr> else s1\<lparr>s_stepping := False\<rparr>)
     in if is_ok r \<and> kind \<noteq> ExecPause \<and> s_state s2 = StateStopped \<and> s_stops s2 = before
        then setStateLocked StateRunning s2 else s2)"

definition send :: "env \<Rightarrow> string \<Rightarrow> int \<Rightarrow> int \<Rightarrow> unit action" where
  "send E kind thread before =
    bind_act (change (before_send kind)) (\<lambda>_.
      try_act (sendExec E (if kind = ExecRunUntil then ExecContinue else kind) thread) (\<lambda>r.
        bind_act (change (after_send kind before r)) (\<lambda>_. check r)))"

section \<open>Run-until's breakpoints\<close>

definition stillTemporary :: "int \<Rightarrow> breakpoint \<Rightarrow> bool" where
  "stillTemporary i b = (bp_ID b = i \<and> bp_Temporary b)"

definition remove_act :: "env \<Rightarrow> string \<Rightarrow> (breakpoint \<Rightarrow> bool) \<Rightarrow> unit action" where
  "remove_act E actor match s =
    (case removeBreakpoints E actor match s of (s', r) \<Rightarrow>
      (s', case rm_err r of Some e \<Rightarrow> Inl e | None \<Rightarrow> Inr ()))"

definition removeTemporary :: "env \<Rightarrow> string \<Rightarrow> unit action" where
  "removeTemporary E actor = remove_act E actor bp_Temporary"

definition addTemporary :: "time \<Rightarrow> string \<Rightarrow> breakpoint_spec \<Rightarrow> session \<Rightarrow> session \<times> int result" where
  "addTemporary now owner spec s =
    (case addNewLocked now owner spec s of (s', i) \<Rightarrow> (update_bp i (\<lambda>b. b\<lparr>bp_Temporary := True\<rparr>) s', Inr i))"

definition own_target :: "string \<Rightarrow> breakpoint_spec \<Rightarrow> session \<Rightarrow> breakpoint option" where
  "own_target owner spec s =
    find (\<lambda>b. bp_Owner b = owner \<and> bp_key b = ([], bs_Line spec) \<and> \<not> emulated b) (rev (bps_at (bs_File spec) s))"

definition target_at :: "int \<Rightarrow> session \<Rightarrow> breakpoint_spec" where
  "target_at i s = (let b = copy_of i s in no_spec\<lparr>bs_File := bp_File b, bs_Line := bp_Line b, bs_Condition := bp_Condition b\<rparr>)"

definition placeTarget :: "env \<Rightarrow> client \<Rightarrow> breakpoint_spec \<Rightarrow> (breakpoint_spec \<times> int \<times> int option) action" where
  "placeTarget E c spec =
    with_state (\<lambda>s. case own_target (cl_ID c) spec s of
      Some b \<Rightarrow> ret (target_at (bp_ID b) s, bp_ID b, None)
    | None \<Rightarrow>
        bind_act (addTemporary (env_now E) (cl_ID c) spec) (\<lambda>i.
        try_act (syncBreakpoints E (bs_File spec)) (\<lambda>r. case r of
          Inl e \<Rightarrow> try_act (remove_act E (cl_ID c) (stillTemporary i)) (\<lambda>_. fail e)
        | Inr _ \<Rightarrow> with_state (\<lambda>s.
            bind_act (change (logBreakpointLocked (env_now E) ''added'' (cl_ID c) (copy_of i s))) (\<lambda>_.
              ret (target_at i s, i, Some i))))))"

section \<open>Execution\<close>

text \<open>\<^verbatim>\<open>execute\<close> up to the send: what was accepted, and the thread to act on.\<close>

definition prepare :: "env \<Rightarrow> exec_request \<Rightarrow> (execution \<times> int) action" where
  "prepare E r =
    with_state (\<lambda>s.
    bind_act (if xr_kind r = ExecPause \<and> xr_thread r = 0 \<and> pauseReady (xr_client r) s then pauseThread E else ret 0) (\<lambda>pth.
    bind_act (admit (env_now E) r pth) (\<lambda>(x, thread).
    bind_act (if xr_kind r \<noteq> ExecPause then removeTemporary E (cl_ID (xr_client r)) else ret ()) (\<lambda>_.
    bind_act (case xr_target r of
        Some spec \<Rightarrow> bind_act (placeTarget E (xr_client r) spec) (\<lambda>(at, i, temp).
          ret (x\<lparr>ex_target := at, ex_targetID := i, ex_temp := temp\<rparr>))
      | None \<Rightarrow> ret x) (\<lambda>x.
    bind_act (if xr_kind r \<noteq> ExecPause then try_act (capture E) (\<lambda>_. ret ()) else ret ()) (\<lambda>_.
      ret (x, thread)))))))"

definition execute :: "env \<Rightarrow> exec_request \<Rightarrow> execution action" where
  "execute E r =
    bind_act (prepare E r) (\<lambda>(x, thread).
      try_act (send E (xr_kind r) thread (ex_before x)) (\<lambda>res. case res of
        Inr _ \<Rightarrow> ret x
      | Inl e \<Rightarrow> (case ex_temp x of
            Some i \<Rightarrow> try_act (remove_act E (cl_ID (xr_client r)) (stillTemporary i)) (\<lambda>_. fail e)
          | None \<Rightarrow> fail e)))"

definition Exec :: "env \<Rightarrow> client \<Rightarrow> string \<Rightarrow> int \<Rightarrow> int action" where
  "Exec E c kind threadID =
    (if kind \<in> {ExecContinue, ExecNext, ExecStepIn, ExecStepOut, ExecPause}
     then bind_act (execute E \<lparr>xr_client = c, xr_kind = kind, xr_thread = threadID, xr_target = None, xr_text = []\<rparr>)
       (\<lambda>x. ret (ex_before x))
     else fail (NewError CodeInvalidRequest [Lit (''unknown execution kind '' @ kind)]))"

text \<open>\<^verbatim>\<open>RunUntil\<close> up to where it starts to wait.\<close>

definition start_run_until :: "env \<Rightarrow> client \<Rightarrow> breakpoint_spec \<Rightarrow> int \<Rightarrow> execution action" where
  "start_run_until E c spec0 threadID =
    (case resolveSpec (env_fs E) spec0 False of
       (_, Some e) \<Rightarrow> fail e
     | (spec', None) \<Rightarrow>
         let spec = spec'\<lparr>bs_HitCondition := [], bs_LogMessage := []\<rparr> in
         with_state (\<lambda>s.
           bind_act (check (checkBreakpointCapsLocked spec s)) (\<lambda>_.
           bind_act (check (checkMapped spec s)) (\<lambda>_.
             execute E \<lparr>xr_client = c, xr_kind = ExecRunUntil, xr_thread = threadID, xr_target = Some spec, xr_text = []\<rparr>))))"

section \<open>Ending a session\<close>

definition endedBy :: "string \<Rightarrow> session \<Rightarrow> string" where
  "endedBy by s =
    (let who = (if by = [] then ''the daemon'' else by)
     in if s_mode s = ModeAttach then ''detached by '' @ who @ '' (the program keeps running)'' else ''stopped by '' @ who)"

text \<open>\<^verbatim>\<open>killRunner\<close>, which \<^verbatim>\<open>terminate\<close> calls in between, kills a process and changes no state.\<close>

definition terminate :: "env \<Rightarrow> string \<Rightarrow> string \<Rightarrow> session \<Rightarrow> session" where
  "terminate E by reason s =
    (let running = (s_state s \<noteq> StateExited);
         s1 = (if running \<and> s_stopReason s = [] then s\<lparr>s_stopping := by, s_stopReason := reason\<rparr> else s);
         s2 = shutdownAdapter E (running \<and> s_mode s \<noteq> ModeAttach) s1
     in endLocked (env_now E) reason s2)"

definition Terminate :: "env \<Rightarrow> client \<Rightarrow> unit action" where
  "Terminate E c =
    with_state (\<lambda>s.
      bind_act (if s_state s \<noteq> StateExited then acquireLocked (env_now E) c else ret ()) (\<lambda>_.
        change (\<lambda>s. terminate E (cl_ID c) (endedBy (cl_ID c) s) s)))"

section \<open>A refused request has no effect\<close>

text \<open>Why a request is refused in a state: by the adapter's abilities and the state, or by the lease.\<close>

definition refusal :: "exec_request \<Rightarrow> session \<Rightarrow> error option" where
  "refusal r s =
    (case admit_error r s of
       Some e \<Rightarrow> Some e
     | None \<Rightarrow> if allows (s_lease s) opExec (xr_client r) False then None else Some (leaseHeldLocked s))"

lemma acquire_refused: "\<not> allows (s_lease s) opExec c False \<Longrightarrow> acquireLocked now c s = (s, Inl (leaseHeldLocked s))"
  by (cases "lease_holder s = cl_ID c") (simp_all add: acquireLocked_def allows_def[of _ opExec])

lemma prepare_refused:
  assumes "refusal r s = Some e"
  shows "prepare E r s = (s, Inl e)"
proof -
  have "\<not> (xr_kind r = ExecPause \<and> pauseReady (xr_client r) s)"
    using assms by (auto simp: refusal_def admit_error_def pauseReady_def split: if_splits)
  moreover have "admit (env_now E) r 0 s = (s, Inl e)"
    using assms acquire_refused[of s "xr_client r"]
    by (auto simp: refusal_def admit_def with_state_def fail_def bind_act_def split: option.splits if_splits)
  ultimately show ?thesis by (auto simp: prepare_def with_state_def bind_act_def ret_def)
qed

text \<open>
  C7: an execution request that the adapter's abilities, the state or the lease
  refuse has no effect at all: nothing is written to the adapter, no event is
  logged, no breakpoint is removed and the lease stays as it is. What is refused,
  and with which error, only depends on the state when the request comes.
\<close>

theorem refused_execution_has_no_effect:
  assumes "refusal r s = Some e"
  shows "execute E r s = (s, Inl e)"
  using prepare_refused[OF assms] by (simp add: execute_def bind_act_def)

definition demo_run :: exec_request where
  "demo_run = \<lparr>xr_client = demo_client KindHuman, xr_kind = ExecContinue, xr_thread = 0, xr_target = None, xr_text = []\<rparr>"

theorem refused_execution_has_no_effect_witness:
  "execute demo_env demo_run demo_session
    = (demo_session, Inl (stateError (s_ID demo_session) StateStarting ''continue needs a stopped program''))"
  by (rule refused_execution_has_no_effect)
    (simp add: refusal_def admit_error_def demo_run_def demo_session_more)

section \<open>What an execution request writes and keeps\<close>

text \<open>
  The invariant is kept and the exception modes stay, whatever happens to breakpoints,
  and so does what the manager knows a session by.
\<close>

definition identity :: "session \<Rightarrow> string \<times> string \<times> string \<times> time \<times> bool" where
  "identity s = (s_ID s, s_claimKey s, s_group s, s_CreatedAt s, s_run s)"

definition fixed :: "session \<Rightarrow> client_exception_mode list \<times> string \<times> string \<times> string \<times> time \<times> bool" where
  "fixed s = (s_excModes s, identity s)"

lemma quiet_fixed: "quiet s t \<Longrightarrow> fixed t = fixed s"
  by (simp add: quiet_def kept_def fixed_def identity_def)

definition keeps_inv :: "session \<Rightarrow> session \<Rightarrow> bool" where
  "keeps_inv s t \<longleftrightarrow> (sess_inv s \<longrightarrow> sess_inv t) \<and> fixed t = fixed s"

interpretation safe: frame_relation keeps_inv
  by unfold_locales (simp_all add: keeps_inv_def)

lemma quiet_keeps: "quiet s t \<Longrightarrow> keeps_inv s t"
  using quiet_fixed by (simp add: keeps_inv_def quiet_def)

lemma silent_safe: "silent.act a \<Longrightarrow> safe.act a"
  by (simp add: silent.act_def safe.act_def quiet_keeps)

fun is_exec :: "dap_request \<Rightarrow> bool" where
  "is_exec (ExecReq k t) = True"
| "is_exec _ = False"

abbreviation no_exec :: "dap_request \<Rightarrow> bool" where
  "no_exec r \<equiv> \<not> is_exec r"

lemma reads_no_exec: "reads E r \<Longrightarrow> no_exec r"
  by (cases r) simp_all

lemma sent_form_exec [simp]: "is_exec (sent_form s r) = is_exec r" "sent_form s (ExecReq k t) = ExecReq k t"
  by (cases r) (simp_all add: sent_form_def Outgoing_def split: option.splits)

lemma sends_append: "sends P s t \<Longrightarrow> \<exists>rs. s_sent t = s_sent s @ rs \<and> list_all P rs"
  by (simp add: sends_def)

lemma acquire_only: "lease_only s (fst (acquireLocked now c s))"
  by (simp add: acquireLocked_def setHolderLocked_def Let_def)

lemma quiet_lease_only: "lease_only s t \<Longrightarrow> (lease_inv (s_lease s) \<longrightarrow> lease_inv (s_lease t)) \<Longrightarrow> quiet s t"
  by (auto simp: lease_only_def quiet_def kept_def bp_view_def sess_inv_def pres_inv_def presence_of_def)

lemma silent_acquire: "silent.act (acquireLocked now c)"
  unfolding silent.act_def
  by (intro allI quiet_lease_only acquire_only) (simp add: acquireLocked_def)

lemma writes_acquire: "writes.act P (acquireLocked now c)"
  unfolding writes.act_def
proof (intro allI sends_same)
  fix s
  obtain l lg where "fst (acquireLocked now c s) = s\<lparr>s_lease := l, s_log := lg\<rparr>"
    using acquire_only[of s now c] unfolding lease_only_def by (elim exE conjE)
  then show "s_sent (fst (acquireLocked now c s)) = s_sent s" by simp
qed

lemma writes_same: "(\<And>s. s_sent (f s) = s_sent s) \<Longrightarrow> writes.act P (change f)"
  by (rule writes.act_change) (simp add: sends_same)

lemma silent_admit: "silent.act (admit now r p)"
  unfolding admit_def
  by (intro silent.act_with_state)
    (auto intro!: silent.act_rules silent.act_change silent_acquire silent.act_with_state simp: Let_def split: option.splits)

lemma writes_admit: "writes.act P (admit now r p)"
  unfolding admit_def
  by (intro writes.act_with_state)
    (auto intro!: writes.act_rules writes_same writes_acquire writes.act_with_state simp: Let_def split: option.splits)

lemma silent_sendRequest: "silent.act (sendRequest E req)"
  unfolding sendRequest_def by (intro silent.act_rules silent_Call)

lemma writes_sendRequest: "(\<And>s. P (sent_form s req)) \<Longrightarrow> writes.act P (sendRequest E req)"
  unfolding sendRequest_def by (intro writes.act_rules writes_Call)

lemma silent_pauseThread: "silent.act (pauseThread E)"
  unfolding pauseThread_def
  by (intro silent.act_try silent_sendRequest) (auto intro!: silent.act_rules split: sum.splits list.splits)

lemma writes_pauseThread: "writes.act no_exec (pauseThread E)"
  unfolding pauseThread_def
  by (intro writes.act_try writes_sendRequest) (auto intro!: writes.act_rules split: sum.splits list.splits)

lemma silent_capture: "silent.act (capture E)"
  by (rule reading_silent.act_capture)

lemma writes_capture: "writes.act no_exec (capture E)"
  unfolding writes.act_def
proof
  fix s show "sends no_exec s (fst (capture E s))"
    by (rule sends_mono[OF _ writes.actD[OF reading_writes.act_capture]]) (rule reads_no_exec)
qed

lemma applySlots_sent: "s_sent (applySlotsLocked slots got s) = s_sent s"
  unfolding applySlotsLocked_def by (rule fold_sent) (auto simp: apply_slot_def Let_def map_bps_def split: prod.splits)

lemma writes_send_slots: "(\<And>s. P (sent_form s req)) \<Longrightarrow> writes.act P (send_slots E req slots)"
proof -
  assume "\<And>s. P (sent_form s req)"
  moreover have "send_slots E req slots = bind_act (Call E req sel_breakpoints) (\<lambda>got. change (applySlotsLocked slots got))"
    by (rule ext) (simp add: send_slots_def bind_act_def change_def split: prod.splits sum.splits)
  ultimately show ?thesis by (simp add: writes.act_bind writes_Call writes_same applySlots_sent)
qed

lemma no_exec_sync [simp]: "no_exec (sent_form s (SetBreakpointsReq src bs))" "no_exec (sent_form s (SetFunctionBreakpointsReq fs))"
  by simp_all

lemma writes_syncBreakpoints: "writes.act no_exec (syncBreakpoints E key)"
  unfolding writes.act_def
proof
  fix s
  have "sends no_exec s (fst (send_slots E (SetBreakpointsReq src bs) slots s))" for src bs slots
    by (rule writes.actD[OF writes_send_slots]) simp
  then show "sends no_exec s (fst (syncBreakpoints E key s))"
    by (simp add: syncBreakpoints_def Let_def sends_same split: option.splits)
qed

lemma writes_syncKey: "sends no_exec s (fst (syncKey E key s))"
proof -
  have "sends no_exec s (fst (send_slots E (SetFunctionBreakpointsReq fs) slots s))" for fs slots
    by (rule writes.actD[OF writes_send_slots]) simp
  then show ?thesis using writes.actD[OF writes_syncBreakpoints, of s E key]
    by (simp add: syncKey_def syncFunctionBreakpoints_def Let_def sends_same)
qed

lemma writes_sync_keys: "sends no_exec s (fst (sync_keys E ks s))"
proof (induction ks arbitrary: s)
  case (Cons k ks)
  obtain u r where u: "syncKey E k s = (u, r)" by force
  then have "sends no_exec s u" using writes_syncKey[of s E k] by simp
  then show ?case using u sends_trans[OF _ Cons.IH[of u]] by (cases r) simp_all
qed (simp add: sends_same)

lemma logs_sent: "s_sent (fold (logBreakpointLocked now a c) bs s) = s_sent s"
  by (rule fold_sent) simp

lemma writes_removeBreakpoints: "sends no_exec s (fst (removeBreakpoints E actor match s))"
proof -
  let ?s1 = "s\<lparr>s_bps := drop_bps match (s_bps s)\<rparr>"
  have "sends no_exec s (fst (sync_keys E ks ?s1))" for ks
    by (rule sends_trans[OF _ writes_sync_keys]) (simp add: sends_same)
  then have "sends no_exec s (fst (if s_state ?s1 \<noteq> StateExited then sync_keys E ks ?s1 else (?s1, None)))" for ks
    by (simp add: sends_same)
  then show ?thesis
    by (simp add: removeBreakpoints_def Let_def case_prod_unfold)
      (auto intro: sends_trans[OF _ sends_same[OF logs_sent]] simp: sends_def logs_sent)
qed

lemma fst_remove_act [simp]: "fst (remove_act E actor match s) = fst (removeBreakpoints E actor match s)"
  by (simp add: remove_act_def split: prod.splits)

lemma writes_remove: "writes.act no_exec (remove_act E actor match)"
  by (simp add: writes.act_def writes_removeBreakpoints)

lemma removeBreakpoints_keeps: "keeps_inv s (fst (removeBreakpoints E actor match s))"
  using removeBreakpoints_inv quiet_fixed[OF removeBreakpoints_step[where s = s and match = match and E = E and actor = actor]]
  by (simp add: keeps_inv_def fixed_def identity_def)

lemma safe_remove: "safe.act (remove_act E actor match)"
  by (simp add: safe.act_def removeBreakpoints_keeps)

lemma safe_addTemporary: "safe.act (addTemporary now owner spec)"
  unfolding safe.act_def keeps_inv_def addTemporary_def
  by (simp add: case_prod_unfold update_bp_inv addNewLocked_inv)
    (simp add: addNewLocked_def update_bp_def map_bps_def fixed_def identity_def Let_def)

lemma writes_addTemporary: "writes.act P (addTemporary now owner spec)"
  unfolding writes.act_def
  by (intro allI sends_same) (simp add: addTemporary_def case_prod_unfold update_bp_def map_bps_def addNewLocked_def Let_def)

lemma silent_syncBreakpoints: "silent.act (syncBreakpoints E file)"
  by (simp add: silent.act_def syncBreakpoints_def Let_def split: option.splits)

lemma safe_placeTarget: "safe.act (placeTarget E c spec)"
  unfolding placeTarget_def
  by (intro safe.act_with_state)
    (auto intro!: safe.act_rules safe.act_try safe_addTemporary safe_remove silent_safe[OF silent_syncBreakpoints]
      silent_safe[OF silent.act_change] split: option.splits sum.splits)

lemma writes_placeTarget: "writes.act no_exec (placeTarget E c spec)"
  unfolding placeTarget_def
  by (intro writes.act_with_state)
    (auto intro!: writes.act_rules writes.act_try writes_addTemporary writes_remove writes_syncBreakpoints
      writes_same split: option.splits sum.splits)

lemma safe_prepare: "safe.act (prepare E r)"
  unfolding prepare_def removeTemporary_def
  by (auto intro!: safe.act_rules safe.act_try safe_remove safe_placeTarget silent_safe[OF silent_pauseThread]
      silent_safe[OF silent_admit] silent_safe[OF silent_capture] split: option.splits prod.splits)

lemma writes_prepare: "writes.act no_exec (prepare E r)"
  unfolding prepare_def removeTemporary_def
  by (auto intro!: writes.act_rules writes.act_try writes_remove writes_placeTarget writes_pauseThread
      writes_admit writes_capture split: option.splits prod.splits)

lemma silent_send: "silent.act (send E kind thread before)"
  unfolding send_def sendExec_def
  by (intro silent.act_bind silent.act_try silent.act_change silent.act_if silent_Call silent.act_fail silent.act_check)
    (auto simp: before_send_def after_send_def Let_def split: sum.splits)

text \<open>The ids of the temporary breakpoints.\<close>

definition temp_ids :: "session \<Rightarrow> int set" where
  "temp_ids s = bp_ID ` set (filter bp_Temporary (all_bps s))"

lemma temp_ids_view: "temp_ids s = bp_ID ` set (filter bp_Temporary (view_bps (bp_view s)))"
proof -
  have "bp_ID ` set (filter bp_Temporary (map bp_core bs)) = bp_ID ` set (filter bp_Temporary bs)" for bs
    by (induction bs) simp_all
  then show ?thesis by (simp only: temp_ids_def all_view)
qed

lemma quiet_temps: "quiet s t \<Longrightarrow> temp_ids t = temp_ids s"
  by (simp add: temp_ids_view quietD(1))

lemma removeTemporary_temps: "temp_ids (fst (removeTemporary E actor s)) = {}"
proof -
  have "by_core bp_Temporary" by (simp add: by_core_def)
  then have "bp_view (fst (removeTemporary E actor s)) = drop_bps bp_Temporary (bp_view s)"
    by (simp add: removeTemporary_def removeBreakpoints_view)
  then show ?thesis by (simp add: temp_ids_view view_drop)
qed

lemma addTemporary_temps:
  assumes "addTemporary now owner spec s = (t, Inr i)"
  shows "temp_ids t \<subseteq> insert i (temp_ids s)"
proof -
  let ?u = "fst (addNewLocked now owner spec s)"
  have t: "t = update_bp i (\<lambda>b. b\<lparr>bp_Temporary := True\<rparr>) ?u"
    using assms by (auto simp: addTemporary_def case_prod_unfold)
  have all: "set (all_bps ?u) = insert (new_bp now (s_nextBP s + 1) owner spec) (set (all_bps s))"
    by (rule all_append[OF addNewLocked_bps(1)])
  have "set (all_bps t) = (\<lambda>b. if bp_ID b = i then b\<lparr>bp_Temporary := True\<rparr> else b) ` set (all_bps ?u)"
    unfolding t update_bp_def map_bps_view_bps by simp
  then show ?thesis unfolding temp_ids_def all by auto
qed

lemma placeTarget_temps:
  assumes "placeTarget E c spec s = (t, Inr (at, i, temp))"
  shows "temp_ids t \<subseteq> temp_ids s \<union> set_option temp"
proof (cases "own_target (cl_ID c) spec s")
  case None
  obtain u j where u: "addTemporary (env_now E) (cl_ID c) spec s = (u, Inr j)"
    by (simp add: addTemporary_def case_prod_unfold)
  obtain v r where v: "syncBreakpoints E (bs_File spec) u = (v, r)" by force
  have uv: "quiet u v" using silent.actD[OF silent_syncBreakpoints, of u E "bs_File spec"] v by simp
  have "temp = Some j" "quiet v t"
    using assms None u v
    by (auto simp: placeTarget_def with_state_def bind_act_def try_act_def change_def ret_def fail_def split: sum.splits prod.splits)
  then show ?thesis using addTemporary_temps[OF u] quiet_temps[OF uv] quiet_temps[of v t] by auto
qed (use assms in \<open>simp add: placeTarget_def with_state_def ret_def\<close>)

lemma prepare_temps:
  assumes "prepare E r s = (t, Inr (x, thread))" "xr_kind r \<noteq> ExecPause"
  shows "temp_ids t \<subseteq> set_option (ex_temp x)"
proof -
  obtain u v w x0 where u: "admit (env_now E) r 0 s = (u, Inr (x0, thread))"
    and rm: "removeTemporary E (cl_ID (xr_client r)) u = (v, Inr ())"
    and w: "(case xr_target r of
        Some spec \<Rightarrow> bind_act (placeTarget E (xr_client r) spec) (\<lambda>(at, i, temp).
          ret (x0\<lparr>ex_target := at, ex_targetID := i, ex_temp := temp\<rparr>))
      | None \<Rightarrow> ret x0) v = (w, Inr x)"
    and cap: "try_act (capture E) (\<lambda>_. ret ()) w = (t, Inr ())"
    using assms unfolding prepare_def with_state_def by (auto elim!: bind_actE dest!: retE split: prod.splits)
  have v: "temp_ids v = {}" using removeTemporary_temps[of E "cl_ID (xr_client r)" u] rm by simp
  have c: "fst (capture E w) = t" using cap by (auto simp: try_act_def ret_def split: prod.splits)
  have "temp_ids t = temp_ids w" using quiet_temps[OF silent.actD[OF silent_capture], of E w] c by simp
  moreover have "temp_ids w \<subseteq> set_option (ex_temp x)"
  proof (cases "xr_target r")
    case None
    then show ?thesis using w v by (simp add: ret_def)
  next
    case (Some spec)
    then obtain at i temp where "placeTarget E (xr_client r) spec v = (w, Inr (at, i, temp))" "ex_temp x = temp"
      using w by (auto simp: ret_def elim!: bind_actE)
    then show ?thesis using placeTarget_temps v by blast
  qed
  ultimately show ?thesis by simp
qed

definition dap_kind :: "string \<Rightarrow> string" where
  "dap_kind kind = (if kind = ExecRunUntil then ExecContinue else kind)"

lemma before_after_sent [simp]:
  "s_sent (before_send kind s) = s_sent s" "s_sent (after_send kind before r s) = s_sent s"
  by (simp_all add: before_send_def after_send_def Let_def setStateLocked_def bump_def split: sum.splits)

lemma send_sent:
  assumes "send E kind thread before s = (t, r)"
  shows "s_sent t = s_sent s @ [ExecReq (dap_kind kind) thread] \<or> (s_sent t = s_sent s \<and> \<not> is_ok r)"
proof -
  let ?u = "before_send kind s"
  obtain v q where v: "sendExec E (dap_kind kind) thread ?u = (v, q)" by force
  have t: "t = after_send kind before q v" "r = q"
    using assms v by (auto simp add: send_def dap_kind_def[symmetric] bind_act_def change_def try_act_def check_def)
  show ?thesis
  proof (cases "dap_kind kind \<in> {ExecContinue, ExecNext, ExecStepIn, ExecStepOut, ExecPause}")
    case True
    then have "fst (Call E (ExecReq (dap_kind kind) thread) sel_any ?u) = v" using v by (simp add: sendExec_def)
    then show ?thesis using t Call_sent[of E "ExecReq (dap_kind kind) thread" sel_any ?u] by simp
  next
    case False
    then show ?thesis using v t by (auto simp: sendExec_def fail_def)
  qed
qed

lemma execute_ok:
  assumes "execute E r s = (t, Inr x)"
  obtains u thread where "prepare E r s = (u, Inr (x, thread))" "send E (xr_kind r) thread (ex_before x) u = (t, Inr ())"
proof -
  obtain u x0 thread where u: "prepare E r s = (u, Inr (x0, thread))"
    "try_act (send E (xr_kind r) thread (ex_before x0)) (\<lambda>res. case res of
        Inr _ \<Rightarrow> ret x0
      | Inl e \<Rightarrow> (case ex_temp x0 of
            Some i \<Rightarrow> try_act (remove_act E (cl_ID (xr_client r)) (stillTemporary i)) (\<lambda>_. fail e)
          | None \<Rightarrow> fail e)) u = (t, Inr x)"
    using assms unfolding execute_def by (auto elim!: bind_actE)
  obtain v res where v: "send E (xr_kind r) thread (ex_before x0) u = (v, res)" by force
  have "\<exists>y. res = Inr y \<and> v = t \<and> x0 = x"
    using u(2) v by (cases res) (auto simp: try_act_def ret_def fail_def split: option.splits prod.splits)
  then show ?thesis using that u(1) v by auto
qed

lemma safe_execute: "safe.act (execute E r)"
  unfolding execute_def
  by (intro safe.act_bind safe_prepare)
    (auto intro!: safe.act_rules safe.act_try safe_remove silent_safe[OF silent_send] split: option.splits sum.splits)

lemma execute_writes_one:
  assumes "execute E r s = (t, res)"
  shows "\<exists>rs. s_sent t = s_sent s @ rs \<and> length (filter is_exec rs) \<le> 1"
proof -
  obtain u q where u: "prepare E r s = (u, q)" by force
  obtain rs where rs: "s_sent u = s_sent s @ rs" "list_all no_exec rs"
    using writes.actD[OF writes_prepare, of s E r] u by (auto simp: sends_def)
  then have f: "filter is_exec rs = []" by (simp add: list_all_iff filter_empty_conv)
  show ?thesis
  proof (cases q)
    case (Inl e)
    then show ?thesis using assms u rs f by (simp add: execute_def bind_act_def)
  next
    case (Inr p)
    obtain x thread where p: "p = (x, thread)" by force
    obtain v w where v: "send E (xr_kind r) thread (ex_before x) u = (v, w)" by force
    obtain rs1 where v1: "s_sent v = s_sent u @ rs1" "length (filter is_exec rs1) \<le> 1" using send_sent[OF v] by auto
    have rm: "remove_act E actor match v = (t', y) \<Longrightarrow> sends no_exec v t'" for actor match t' y
      using writes.actD[OF writes_remove, of v E actor match] by simp
    have "sends no_exec v t"
      using assms u v Inr p
      by (auto dest: rm simp: execute_def bind_act_def try_act_def ret_def fail_def sends_same split: sum.splits option.splits prod.splits)
    then obtain rs2 where "s_sent t = s_sent v @ rs2" "list_all no_exec rs2" by (auto simp: sends_def)
    moreover from this have "filter is_exec rs2 = []" by (simp add: list_all_iff filter_empty_conv)
    ultimately show ?thesis using rs f v1 by (intro exI[of _ "rs @ rs1 @ rs2"]) simp
  qed
qed

text \<open>
  C3: what an execution request does. Whatever the adapter answers and whatever
  happens meanwhile, the session's invariant is kept and at most one execution
  request is written to the adapter. If it succeeds, it was admissible when it
  came, the execution request it wrote is the last one, of the kind asked (a
  run-until continues), and except for a pause no temporary breakpoint of an
  earlier run-until is left: the only temporary breakpoint is its own target.
\<close>

theorem execution_request_spec:
  assumes "sess_inv s" "execute E r s = (s', res)"
  shows "sess_inv s' \<and> (\<exists>rs. s_sent s' = s_sent s @ rs \<and> length (filter is_exec rs) \<le> 1)
    \<and> (\<forall>x. res = Inr x \<longrightarrow> refusal r s = None
        \<and> (\<exists>rs thread. s_sent s' = s_sent s @ rs @ [ExecReq (dap_kind (xr_kind r)) thread] \<and> list_all no_exec rs)
        \<and> (xr_kind r \<noteq> ExecPause \<longrightarrow> temp_ids s' \<subseteq> set_option (ex_temp x)))"
proof (intro conjI allI impI)
  show "sess_inv s'" using safe.actD[OF safe_execute, of s E r] assms by (simp add: keeps_inv_def)
  show "\<exists>rs. s_sent s' = s_sent s @ rs \<and> length (filter is_exec rs) \<le> 1" by (rule execute_writes_one[OF assms(2)])
  fix x assume res: "res = Inr x"
  show "refusal r s = None"
    using prepare_refused[of r s _ E] assms(2) res by (cases "refusal r s") (auto simp: execute_def bind_act_def)
  obtain u thread where u: "prepare E r s = (u, Inr (x, thread))" "send E (xr_kind r) thread (ex_before x) u = (s', Inr ())"
    using assms(2) res by (auto elim: execute_ok)
  obtain rs where rs: "s_sent u = s_sent s @ rs" "list_all no_exec rs"
    using writes.actD[OF writes_prepare, of s E r] u(1) by (auto simp: sends_def)
  then show "\<exists>rs thread. s_sent s' = s_sent s @ rs @ [ExecReq (dap_kind (xr_kind r)) thread] \<and> list_all no_exec rs"
    using send_sent[OF u(2)] by auto
  show "temp_ids s' \<subseteq> set_option (ex_temp x)" if "xr_kind r \<noteq> ExecPause"
    using prepare_temps[OF u(1) that] quiet_temps[OF silent.actD[OF silent_send], of E "xr_kind r" thread "ex_before x" u] u(2)
    by simp
qed

definition demo_step :: exec_request where
  "demo_step = \<lparr>xr_client = demo_client KindAgent, xr_kind = ExecNext, xr_thread = 4, xr_target = None, xr_text = []\<rparr>"

lemma demo_stopped_inv: "sess_inv demo_stopped"
  using demo_session_inv by (simp add: demo_stopped_def sess_inv_def pres_inv_def presence_of_def)

lemma demo_step_ok: "is_ok (snd (execute demo_reader demo_step demo_stopped))"
  by (simp add: execute_def prepare_def admit_def admit_error_def demo_step_def demo_stopped_def demo_session_def newSession_def demo_launch_def
      with_state_def bind_act_def try_act_def ret_def fail_def check_def change_def acquireLocked_def demo_client_def removeTemporary_def remove_act_def
      removeBreakpoints_def touched_keys_def drop_bps_def all_bps_def Let_def capture_def fetch_capture_def
      stack_def Call_def Do_def demo_reader_def demo_env_def inters_def frame_of_def frameLocals_def scopes_def localScopes_def cheap_scopes_def
      variables_def fetch_level_def children_def var_of_def truncate_text_def RuneCount_def chunks_ascii store_capture_def log_event_def
      send_def sendExec_def sel_any_def before_send_def after_send_def)

theorem execution_request_spec_witness:
  "sess_inv (fst (execute demo_reader demo_step demo_stopped))
    \<and> (\<exists>rs thread. s_sent (fst (execute demo_reader demo_step demo_stopped)) = rs @ [ExecReq ''next'' thread] \<and> list_all no_exec rs)"
proof -
  obtain t x where e: "execute demo_reader demo_step demo_stopped = (t, Inr x)"
    using demo_step_ok by (metis is_okE prod.collapse)
  have "s_sent demo_stopped = []" by (simp add: demo_stopped_def demo_session_def newSession_def)
  then show ?thesis using execution_request_spec[OF demo_stopped_inv e] e
    by (simp add: dap_kind_def demo_step_def)
qed

section \<open>Ending a session\<close>

text \<open>Once a reason to stop is set, nothing that happens meanwhile can make the session end with another one.\<close>

definition ends_with :: "string \<Rightarrow> session \<Rightarrow> bool" where
  "ends_with R s \<longleftrightarrow> s_stopReason s = R \<and> (s_state s = StateExited \<longrightarrow> s_endReason s = R)"

lemma ends_with_fields [simp]:
  "ends_with R (log_event now e s) = ends_with R s" "ends_with R (s\<lparr>s_lastOutput := x1\<rparr>) = ends_with R s"
  "ends_with R (s\<lparr>s_stopGen := x2\<rparr>) = ends_with R s" "ends_with R (s\<lparr>s_filters := x3\<rparr>) = ends_with R s"
  "ends_with R (s\<lparr>s_shutdowns := x4\<rparr>) = ends_with R s" "ends_with R (s\<lparr>s_initialized := x5\<rparr>) = ends_with R s"
  "ends_with R (s\<lparr>s_pid := x6\<rparr>) = ends_with R s" "ends_with R (s\<lparr>s_container := x7\<rparr>) = ends_with R s"
  "ends_with R (s\<lparr>s_programExited := x8\<rparr>) = ends_with R s" "ends_with R (s\<lparr>s_exitCode := x9\<rparr>) = ends_with R s"
  "ends_with R (bump s) = ends_with R s" "ends_with R (s\<lparr>s_sent := x10\<rparr>) = ends_with R s"
  "ends_with R (map_bps f s) = ends_with R s" "ends_with R (set_presence cid q s) = ends_with R s"
  "ends_with R (del_presence cid s) = ends_with R s" "ends_with R (s\<lparr>s_connGen := x11\<rparr>) = ends_with R s"
  "ends_with R (s\<lparr>s_clients := x12\<rparr>) = ends_with R s" "ends_with R (s\<lparr>s_presence := x13\<rparr>) = ends_with R s"
  "ends_with R (closeRecording s) = ends_with R s" "ends_with R (s\<lparr>s_ended := x14\<rparr>) = ends_with R s"
  "ends_with R (s\<lparr>s_lease := x15, s_log := x16\<rparr>) = ends_with R s"
  by (simp_all add: ends_with_def bump_def map_bps_def set_presence_def del_presence_def closeRecording_def)

lemma ends_with_live: "ends_with R s \<Longrightarrow> st \<noteq> StateExited \<Longrightarrow> ends_with R (setStateLocked st s)"
  by (simp add: ends_with_def setStateLocked_def bump_def)

lemma ends_with_end: "R \<noteq> [] \<Longrightarrow> ends_with R s \<Longrightarrow> ends_with R (endLocked now r s) \<and> s_state (endLocked now r s) = StateExited"
  by (simp add: endLocked_def Let_def setStateLocked_def bump_def ends_with_def)

lemma ends_with_output: "ends_with R (appendOutputLocked now cat txt s) = ends_with R s"
  by (simp add: appendOutputLocked_def Let_def)

lemma ends_with_stop: "ends_with R s \<Longrightarrow> ends_with R (applyStopLocked now st s)"
  by (simp add: applyStopLocked_def Let_def ends_with_def setStateLocked_def bump_def)

lemma ends_with_update: "ends_with R (updateBreakpointLocked now g s) = ends_with R s"
proof -
  have "ends_with R (fold (logBreakpointLocked now a c) bs t) = ends_with R t" for a c bs t
    by (induction bs arbitrary: t) (simp_all add: logBreakpointLocked_def)
  then show ?thesis by (simp add: updateBreakpointLocked_def Let_def)
qed

lemma ends_with_event: "R \<noteq> [] \<Longrightarrow> ends_with R s \<Longrightarrow> ends_with R (onEvent now ev s)"
  by (cases ev) (simp_all add: onStoppedLocked_def onContinuedLocked_def onExitedLocked_def hostExitedLocked_def Let_def
      ends_with_live ends_with_end ends_with_output ends_with_stop ends_with_update split: option.splits)

lemma ends_with_touch: "ends_with R (touchLocked now c s) = ends_with R s"
  by (simp add: touchLocked_def split: option.splits)

lemma ends_with_lease: "ends_with R (lease_step now call s) = ends_with R s"
proof -
  obtain l lg where "lease_step now call s = s\<lparr>s_lease := l, s_log := lg\<rparr>"
    using lease_step_only[of s now call] unfolding lease_only_def by (elim exE conjE)
  then show ?thesis by simp
qed

lemma ends_with_inter: "R \<noteq> [] \<Longrightarrow> ends_with R s \<Longrightarrow> ends_with R (inter_step now i s)"
  by (cases i) (simp_all add: ends_with_event watchAdapter_def ends_with_end ends_with_lease Touch_def ends_with_touch
      Connect_def decrement_def Let_def split: option.splits)

lemma ends_with_inters: "R \<noteq> [] \<Longrightarrow> ends_with R s \<Longrightarrow> ends_with R (inters now is s)"
  unfolding inters_def by (induction "is" arbitrary: s) (simp_all add: ends_with_inter)

lemma ends_with_shutdown: "R \<noteq> [] \<Longrightarrow> ends_with R s \<Longrightarrow> ends_with R (shutdownAdapter E b s)"
  by (simp add: shutdownAdapter_def Do_def Let_def case_prod_unfold ends_with_inters)

lemma endedBy_nonempty [simp]: "endedBy who s \<noteq> []"
  by (simp add: endedBy_def Let_def)

lemma shutdown_sent:
  "s_sent (shutdownAdapter E b s) = s_sent s @ (if s_ended s \<or> \<not> s_client s then [] else [disconnect b (s_mode s \<noteq> [])])"
  by (simp add: shutdownAdapter_def Do_sent sent_form_def Outgoing_def disconnect_def split: option.splits)

lemma endLocked_exits: "s_state (endLocked now r s) = StateExited"
  by (simp add: endLocked_def Let_def setStateLocked_def bump_def)

lemma terminate_spec:
  "s_state (terminate E who reason s) = StateExited
    \<and> s_sent (terminate E who reason s) = s_sent s
        @ (if s_ended s \<or> \<not> s_client s then [] else [disconnect (s_state s \<noteq> StateExited \<and> s_mode s \<noteq> ModeAttach) (s_mode s \<noteq> [])])"
  by (simp add: terminate_def Let_def endLocked_exits shutdown_sent)

lemma terminate_reason:
  assumes "reason \<noteq> []" "s_state s \<noteq> StateExited"
  shows "s_endReason (terminate E who reason s) = (if s_stopReason s = [] then reason else s_stopReason s)"
proof -
  let ?R = "if s_stopReason s = [] then reason else s_stopReason s"
  let ?s1 = "if s_stopReason s = [] then s\<lparr>s_stopping := who, s_stopReason := reason\<rparr> else s"
  have R: "?R \<noteq> []" using assms(1) by simp
  have "ends_with ?R ?s1" using assms(2) by (simp add: ends_with_def)
  from ends_with_end[OF R ends_with_shutdown[OF R this]]
  have "ends_with ?R (terminate E who reason s) \<and> s_state (terminate E who reason s) = StateExited"
    using assms(2) by (simp add: terminate_def Let_def)
  then show ?thesis by (simp add: ends_with_def)
qed

lemma acquire_keeps:
  "s_state (fst (acquireLocked now c s)) = s_state s" "s_sent (fst (acquireLocked now c s)) = s_sent s"
  "s_ended (fst (acquireLocked now c s)) = s_ended s" "s_client (fst (acquireLocked now c s)) = s_client s"
  "s_mode (fst (acquireLocked now c s)) = s_mode s" "s_stopReason (fst (acquireLocked now c s)) = s_stopReason s"
  by (simp_all add: acquireLocked_def setHolderLocked_def Let_def)

lemma acquire_allowed: "allows (s_lease s) opExec c False \<Longrightarrow> snd (acquireLocked now c s) = Inr ()"
  by (simp add: acquireLocked_def)

text \<open>
  C5: terminating ends the session. For a client the lease admits, and for everybody
  once the session has exited, it always succeeds and the session is exited when it
  returns, whatever the adapter answers and whatever happens meanwhile; exactly one
  disconnect request is written unless the adapter was disconnected before, and it
  asks to kill the program only if the session did not attach to it. A live session
  then ends with the reason that names who stopped it. Any other client is refused
  and nothing changes.
\<close>

theorem terminate_ends_session:
  "if s_state s = StateExited \<or> allows (s_lease s) opExec c False
   then snd (Terminate E c s) = Inr () \<and> s_state (fst (Terminate E c s)) = StateExited
      \<and> s_sent (fst (Terminate E c s)) = s_sent s
          @ (if s_ended s \<or> \<not> s_client s then []
             else [DisconnectReq (if s_state s = StateExited \<or> s_mode s = ModeAttach
                                  then (if s_mode s = [] then None else Some False) else Some True)])
      \<and> (if s_state s = StateExited then True
         else s_endReason (fst (Terminate E c s)) = (if s_stopReason s = [] then endedBy (cl_ID c) s else s_stopReason s))
   else Terminate E c s = (s, Inl (leaseHeldLocked s))"
proof (cases "s_state s = StateExited")
  case True
  then show ?thesis using terminate_spec[of E "cl_ID c" "endedBy (cl_ID c) s" s]
    by (simp add: Terminate_def with_state_def change_def disconnect_def)
next
  case False
  show ?thesis
  proof (cases "allows (s_lease s) opExec c False")
    case True
    let ?u = "fst (acquireLocked (env_now E) c s)"
    have "Terminate E c s = (terminate E (cl_ID c) (endedBy (cl_ID c) ?u) ?u, Inr ())"
      using False acquire_allowed[OF True, of "env_now E"]
      by (cases "acquireLocked (env_now E) c s") (simp add: Terminate_def with_state_def change_def bind_act_def)
    moreover have "endedBy (cl_ID c) ?u = endedBy (cl_ID c) s" by (simp add: endedBy_def acquire_keeps)
    ultimately show ?thesis
      using True False terminate_spec[of E "cl_ID c" "endedBy (cl_ID c) s" ?u] terminate_reason[of "endedBy (cl_ID c) s" ?u E "cl_ID c"]
      by (simp add: acquire_keeps disconnect_def)
  next
    case refused: False
    then show ?thesis using False acquire_refused[OF refused] by (simp add: Terminate_def with_state_def bind_act_def)
  qed
qed

theorem terminate_ends_session_witness:
  "s_state (fst (Terminate demo_reader (demo_client KindAgent) demo_stopped)) = StateExited
    \<and> s_sent (fst (Terminate demo_reader (demo_client KindAgent) demo_stopped)) = [DisconnectReq (Some True)]
    \<and> s_endReason (fst (Terminate demo_reader (demo_client KindAgent) demo_stopped)) = ''stopped by agent''"
proof -
  have "allows (s_lease demo_stopped) opExec (demo_client KindAgent) False" "s_state demo_stopped = StateStopped"
    "s_sent demo_stopped = []" "\<not> s_ended demo_stopped" "s_client demo_stopped" "s_mode demo_stopped = []" "s_stopReason demo_stopped = []"
    by (simp_all add: demo_stopped_def demo_session_def newSession_def allows_def)
  then show ?thesis using terminate_ends_session[of demo_stopped "demo_client KindAgent" demo_reader]
    by (simp add: endedBy_def demo_client_def)
qed

text \<open>
  The end is not final: an adapter that reports a stop after it ended the session
  makes the session stopped again, although \<^verbatim>\<open>endLocked\<close> is meant to move it to exited once.
\<close>

lemma late_stop_revives_session:
  "s_state (onEvent now (StoppedEvent ''step'' t d x a) (endLocked now' r s)) = StateStopped"
  by (simp add: onStoppedLocked_def stop_of_def pauseSignal_def applyStopLocked_def setStateLocked_def bump_def Let_def)

end
