(* ===== verification/Exceptions.thy ===== *)
theory Exceptions
  imports Exec
begin

text \<open>
  Exception stops (\<^verbatim>\<open>exceptions.go\<close>, with \<^verbatim>\<open>caps.go\<close> and \<^verbatim>\<open>join.go\<close>): each client has its own
  mode, the adapter is sent the union of their filters. Also the description of an
  exception, cut to size, and what an editor reads when it joins a session.
\<close>

section \<open>Modes and filters\<close>

fun replace_mode :: "string \<Rightarrow> exception_mode \<Rightarrow> client_exception_mode list \<Rightarrow> client_exception_mode list" where
  "replace_mode client mode [] = []"
| "replace_mode client mode (m # ms) =
    (if cem_Client m \<noteq> client then m # replace_mode client mode ms
     else if mode \<noteq> ExceptionsNone then \<lparr>cem_Client = client, cem_Mode = mode\<rparr> # replace_mode client mode ms
     else replace_mode client mode ms)"

definition withMode :: "client_exception_mode list \<Rightarrow> string \<Rightarrow> exception_mode \<Rightarrow> bool \<Rightarrow> client_exception_mode list" where
  "withMode modes client mode force =
    (if force then (if mode = ExceptionsNone then [] else [\<lparr>cem_Client = client, cem_Mode = mode\<rparr>])
     else let out = replace_mode client mode modes;
              found = contains_func (\<lambda>m. cem_Client m = client) modes
          in if \<not> found \<and> mode \<noteq> ExceptionsNone then out @ [\<lparr>cem_Client = client, cem_Mode = mode\<rparr>] else out)"

definition mode_filters :: "session \<Rightarrow> exception_mode \<Rightarrow> string list" where
  "mode_filters s mode = (case map_of (s_excFilters s) mode of Some ids \<Rightarrow> ids | None \<Rightarrow> [mode])"

fun add_filters :: "string list \<Rightarrow> string list \<Rightarrow> string list" where
  "add_filters [] filters = filters"
| "add_filters (i # ids) filters = add_filters ids (if i \<in> set filters then filters else filters @ [i])"

definition filtersFor :: "client_exception_mode list \<Rightarrow> session \<Rightarrow> string list" where
  "filtersFor modes s = fold (\<lambda>m. add_filters (mode_filters s (cem_Mode m))) modes []"

record exceptions_result =
  xr_SessionID :: string
  xr_Modes :: "client_exception_mode list"
  xr_Filters :: "string list"

definition exceptionsResultLocked :: "session \<Rightarrow> exceptions_result" where
  "exceptionsResultLocked s = \<lparr>xr_SessionID = s_ID s, xr_Modes = s_excModes s, xr_Filters = filtersFor (s_excModes s) s\<rparr>"

definition no_filter :: "string \<Rightarrow> string list \<Rightarrow> session \<Rightarrow> error" where
  "no_filter f ids s =
    (if ids = [] then unsupported ''stop at exceptions'' s
     else NewError CodeUnsupported [Lit (''the '' @ s_Lang s @ '' debug adapter has no exception filter '' @ f
            @ '' (its filters: '' @ join_with '', '' ids @ '')'')])"

definition checkFiltersLocked :: "string list \<Rightarrow> session \<Rightarrow> unit result" where
  "checkFiltersLocked filters s =
    (if \<not> s_capsKnown s then Inr ()
     else let ids = cap_Filters (s_caps s) in
       case find (\<lambda>f. f \<notin> set ids) filters of
         Some f \<Rightarrow> Inl (no_filter f ids s)
       | None \<Rightarrow> Inr ())"

section \<open>Setting a mode\<close>

definition sendFilters :: "env \<Rightarrow> string list \<Rightarrow> unit action" where
  "sendFilters E filters =
    with_state (\<lambda>s. if \<not> s_initialized s then ret () else Call E (SetExceptionBreakpointsReq filters) sel_any)"

definition store_modes :: "time \<Rightarrow> client \<Rightarrow> exception_mode \<Rightarrow> bool \<Rightarrow> client_exception_mode list \<Rightarrow> session \<Rightarrow> session" where
  "store_modes now c mode force modes s =
    log_event now ((Event EventExceptions)\<lparr>ev_Client := cl_ID c, ev_Action := mode, ev_Reason := (if force then ''force'' else [])\<rparr>)
      (s\<lparr>s_excModes := modes\<rparr>)"

definition setExceptionMode :: "env \<Rightarrow> client \<Rightarrow> exception_mode \<Rightarrow> bool \<Rightarrow> (session \<Rightarrow> bool) option \<Rightarrow> exceptions_result action" where
  "setExceptionMode E c mode force guard =
    with_state (\<lambda>s.
      if s_state s = StateExited then fail (stateError (s_ID s) (s_state s) ''setting exception stops needs a live session'')
      else if (case guard of Some g \<Rightarrow> \<not> g s | None \<Rightarrow> False) then ret (exceptionsResultLocked s)
      else let modes = withMode (s_excModes s) (cl_ID c) mode force;
               filters = filtersFor modes s
           in bind_act (check (checkFiltersLocked filters s)) (\<lambda>_.
              bind_act (sendFilters E filters) (\<lambda>_.
              bind_act (change (store_modes (env_now E) c mode force modes)) (\<lambda>_.
                with_state (\<lambda>s. ret (exceptionsResultLocked s))))))"

definition Exceptions :: "env \<Rightarrow> client \<Rightarrow> string \<Rightarrow> bool \<Rightarrow> exceptions_result action" where
  "Exceptions E c mode force =
    (if mode = []
     then if force then fail (NewError CodeInvalidRequest [Lit ''--force needs a mode''])
          else with_state (\<lambda>s. ret (exceptionsResultLocked s))
     else bind_act (check (ParseExceptionMode mode)) (\<lambda>m. setExceptionMode E c m force None))"

definition configureExceptions :: "env \<Rightarrow> unit action" where
  "configureExceptions E =
    with_state (\<lambda>s. let filters = filtersFor (s_excModes s) s in
      bind_act (check (checkFiltersLocked filters s)) (\<lambda>_. sendFilters E filters))"

definition SupportedExceptionModes :: "session \<Rightarrow> exception_mode list" where
  "SupportedExceptionModes s =
    (if \<not> s_capsKnown s \<or> cap_Filters (s_caps s) = [] then []
     else filter (\<lambda>m. let filters = filtersFor [\<lparr>cem_Client = [], cem_Mode = m\<rparr>] s
                      in filters \<noteq> [] \<and> is_ok (checkFiltersLocked filters s)) [ExceptionsAll, ExceptionsUncaught])"

section \<open>Describing an exception\<close>

abbreviation maxExceptionMessage :: nat where "maxExceptionMessage \<equiv> 1000"
abbreviation maxStackTraceLines :: nat where "maxStackTraceLines \<equiv> 20"
abbreviation maxStackTraceBytes :: nat where "maxStackTraceBytes \<equiv> 4000"
abbreviation maxInnerDepth :: nat where "maxInnerDepth \<equiv> 3"

datatype exception_details = ExceptionDetails (xd_FullTypeName: string) (xd_TypeName: string) (xd_Message: string)
  (xd_StackTrace: string) (xd_Inner: "exception_details list")

datatype exception_info = ExceptionInfo (xi_ID: string) (xi_Description: string) (xi_BreakMode: string) (xi_Type: string)
  (xi_Message: string) (xi_StackTrace: string) (xi_Inner: "exception_info list") (xi_Truncated: bool)

definition cut_text :: "string \<Rightarrow> nat \<Rightarrow> string \<times> bool" where
  "cut_text s n = (let c = CutText s n False in (c, length c < length s))"

definition cutStackTrace :: "string \<Rightarrow> string \<times> bool" where
  "cutStackTrace st =
    (let lines = split_at (CHR 10) (rev (dropWhile (\<lambda>c. c = CHR 13 \<or> c = CHR 10) (rev st)));
         (out, cutBytes) = cut_text (join_with [CHR 10] (take maxStackTraceLines lines)) maxStackTraceBytes
     in (out, length lines > maxStackTraceLines \<or> cutBytes))"

definition without_stack :: "exception_info \<Rightarrow> exception_info" where
  "without_stack i = ExceptionInfo (xi_ID i) (xi_Description i) (xi_BreakMode i) (xi_Type i) (xi_Message i) [] (xi_Inner i) (xi_Truncated i)"

definition convert_one :: "exception_details \<Rightarrow> exception_info list \<Rightarrow> bool \<Rightarrow> exception_info" where
  "convert_one d inner lost =
    (let (msg, cutMsg) = cut_text (xd_Message d) maxExceptionMessage;
         (st, cutSt) = cutStackTrace (xd_StackTrace d)
     in ExceptionInfo [] [] [] (if xd_FullTypeName d = [] then xd_TypeName d else xd_FullTypeName d) msg st inner
          (cutMsg \<or> cutSt \<or> list_ex xi_Truncated inner \<or> lost))"

primrec convertDetails :: "nat \<Rightarrow> exception_details \<Rightarrow> exception_info" where
  "convertDetails 0 = (\<lambda>d. convert_one d [] (xd_Inner d \<noteq> []))"
| "convertDetails (Suc n) = (\<lambda>d. convert_one d (map (\<lambda>i. without_stack (convertDetails n i)) (xd_Inner d)) False)"

definition convertException :: "string \<Rightarrow> string \<Rightarrow> string \<Rightarrow> exception_details option \<Rightarrow> exception_info" where
  "convertException eid desc breakMode details =
    (let (ds, cutDesc) = cut_text desc maxExceptionMessage in
     case details of
       None \<Rightarrow> ExceptionInfo eid ds breakMode [] [] [] [] cutDesc
     | Some det \<Rightarrow> (let d = convertDetails maxInnerDepth det in
         ExceptionInfo eid ds breakMode (xi_Type d) (xi_Message d) (xi_StackTrace d) (xi_Inner d) (cutDesc \<or> xi_Truncated d)))"

section \<open>Joining a session\<close>

definition Follow :: "int \<Rightarrow> event_log list \<Rightarrow> event_log \<Rightarrow> session \<Rightarrow> events_result" where
  "Follow since later final s =
    log_wait \<lparr>ep_Since = max since 0, ep_Newest = False, ep_Limit = MaxEventsLimit, ep_Kinds = [], ep_Budget = 0\<rparr> (s_log s) later final"

definition OutputBefore :: "int \<Rightarrow> int \<Rightarrow> nat \<Rightarrow> session \<Rightarrow> output_line list \<times> nat" where
  "OutputBefore sq maxChunks maxBytes s =
    (let lines = outputUntil sq (s_log s) in
     if lines = [] then ([], 0)
     else let newest = drop (nat (max (int (length lines) - maxChunks) 0)) lines;
              (kept_lines, omitted) = CapOutput newest maxBytes True
          in (kept_lines, omitted + length lines - length newest))"

text \<open>\<^verbatim>\<open>Ready\<close> once the wait for the start is over: \<open>s\<close> is the state then.\<close>

definition Ready :: "session \<Rightarrow> capabilities result" where
  "Ready s =
    (if s_state s = StateStarting then Inl (stateError (s_ID s) (s_state s) ''joining needs a session that finished starting'')
     else if \<not> s_capsKnown s then Inl (stateError (s_ID s) StateExited ''joining needs a live session'')
     else Inr (s_caps s))"

section \<open>One mode per client, and the union of their filters\<close>

definition modes_inv :: "client_exception_mode list \<Rightarrow> bool" where
  "modes_inv ms \<longleftrightarrow> distinct (map cem_Client ms) \<and> list_all (\<lambda>m. cem_Mode m \<noteq> ExceptionsNone) ms"

definition mode_of :: "string \<Rightarrow> client_exception_mode list \<Rightarrow> exception_mode" where
  "mode_of client ms = (case find (\<lambda>m. cem_Client m = client) ms of Some m \<Rightarrow> cem_Mode m | None \<Rightarrow> ExceptionsNone)"

lemma add_filters_set: "set (add_filters ids fs) = set ids \<union> set fs"
  by (induction ids fs rule: add_filters.induct) auto

lemma add_filters_distinct: "distinct fs \<Longrightarrow> distinct (add_filters ids fs)"
  by (induction ids fs rule: add_filters.induct) auto

lemma filtersFor_union: "set (filtersFor ms s) = (\<Union>m \<in> set ms. set (mode_filters s (cem_Mode m))) \<and> distinct (filtersFor ms s)"
proof -
  have "set (fold (\<lambda>m. add_filters (mode_filters s (cem_Mode m))) ms fs) = set fs \<union> (\<Union>m \<in> set ms. set (mode_filters s (cem_Mode m)))
      \<and> (distinct fs \<longrightarrow> distinct (fold (\<lambda>m. add_filters (mode_filters s (cem_Mode m))) ms fs))" for fs
    by (induction ms arbitrary: fs) (auto simp: add_filters_set add_filters_distinct)
  then show ?thesis by (simp add: filtersFor_def)
qed

lemma replace_mode_clients: "cem_Client ` set (replace_mode c mode ms) \<subseteq> cem_Client ` set ms"
  by (induction ms) auto

lemma replace_mode_inv: "modes_inv ms \<Longrightarrow> modes_inv (replace_mode c mode ms)"
proof (induction ms)
  case (Cons m ms)
  then show ?case using replace_mode_clients[of c mode ms] by (auto simp: modes_inv_def)
qed (simp add: modes_inv_def)

lemma replace_mode_absent: "c \<notin> cem_Client ` set ms \<Longrightarrow> replace_mode c mode ms = ms"
  by (induction ms) auto

lemma withMode_inv: "modes_inv ms \<Longrightarrow> modes_inv (withMode ms c mode force)"
proof -
  assume inv: "modes_inv ms"
  have "contains_func (\<lambda>m. cem_Client m = c) ms \<or> c \<notin> cem_Client ` set ms" by (auto simp: list_ex_iff)
  then show ?thesis using inv replace_mode_inv[OF inv, of c mode] replace_mode_absent[of c ms mode]
    by (auto simp: withMode_def Let_def) (auto simp: modes_inv_def)
qed

lemma mode_of_simps [simp]:
  "mode_of c [] = ExceptionsNone" "mode_of c (m # ms) = (if cem_Client m = c then cem_Mode m else mode_of c ms)"
  by (simp_all add: mode_of_def)

lemma mode_of_append: "mode_of c (ms @ ns) = (if c \<in> cem_Client ` set ms then mode_of c ms else mode_of c ns)"
  by (induction ms) auto

lemma mode_of_absent: "c \<notin> cem_Client ` set ms \<Longrightarrow> mode_of c ms = ExceptionsNone"
  by (induction ms) auto

lemma replace_mode_of:
  "distinct (map cem_Client ms) \<Longrightarrow> mode_of d (replace_mode c mode ms)
    = (if d = c then (if c \<in> cem_Client ` set ms then mode else ExceptionsNone) else mode_of d ms)"
proof (induction ms)
  case (Cons m ms)
  show ?case
  proof (cases "cem_Client m = c")
    case True
    then have "c \<notin> cem_Client ` set ms" using Cons.prems by auto
    then show ?thesis using True by (simp add: replace_mode_absent mode_of_absent)
  next
    case False
    then show ?thesis using Cons by auto
  qed
qed simp

lemma withMode_of:
  assumes "modes_inv ms"
  shows "mode_of d (withMode ms c mode force) = (if d = c then mode else if force then ExceptionsNone else mode_of d ms)"
proof (cases force)
  case False
  have d: "distinct (map cem_Client ms)" using assms by (simp add: modes_inv_def)
  show ?thesis
  proof (cases "contains_func (\<lambda>m. cem_Client m = c) ms")
    case True
    then have "c \<in> cem_Client ` set ms" by (auto simp: list_ex_iff)
    then show ?thesis using False True replace_mode_of[OF d, of d c mode] by (simp add: withMode_def)
  next
    case absent: False
    then have "c \<notin> cem_Client ` set ms" by (auto simp: list_ex_iff)
    then show ?thesis using False absent replace_mode_absent[of c ms mode] mode_of_absent[of c ms] mode_of_absent[of d ms]
      by (auto simp: withMode_def Let_def mode_of_append)
  qed
qed (simp add: withMode_def)

lemma sendFilters_sent:
  "s_sent (fst (sendFilters E fs s)) = s_sent s @ (if s_initialized s then [SetExceptionBreakpointsReq fs] else [])"
  by (simp add: sendFilters_def with_state_def ret_def Call_sent sent_form_def Outgoing_def split: option.splits)

lemma silent_sendFilters: "silent.act (sendFilters E fs)"
  unfolding sendFilters_def by (intro silent.act_rules silent_Call)

lemma setExceptionMode_cases:
  assumes "setExceptionMode E c mode force None s = (s', r)" "s_state s \<noteq> StateExited"
  obtains (refused) e where "checkFiltersLocked (filtersFor (withMode (s_excModes s) (cl_ID c) mode force) s) s = Inl e" "s' = s" "r = Inl e"
  | (failed) e where "sendFilters E (filtersFor (withMode (s_excModes s) (cl_ID c) mode force) s) s = (s', Inl e)" "r = Inl e"
  | (stored) u where "sendFilters E (filtersFor (withMode (s_excModes s) (cl_ID c) mode force) s) s = (u, Inr ())"
      "s' = store_modes (env_now E) c mode force (withMode (s_excModes s) (cl_ID c) mode force) u" "r = Inr (exceptionsResultLocked s')"
proof -
  let ?ms = "withMode (s_excModes s) (cl_ID c) mode force"
  let ?fs = "filtersFor ?ms s"
  have eq: "setExceptionMode E c mode force None s = bind_act (check (checkFiltersLocked ?fs s)) (\<lambda>_.
      bind_act (sendFilters E ?fs) (\<lambda>_. bind_act (change (store_modes (env_now E) c mode force ?ms)) (\<lambda>_.
        with_state (\<lambda>s. ret (exceptionsResultLocked s))))) s"
    using assms(2) by (simp add: setExceptionMode_def with_state_def Let_def)
  show ?thesis
  proof (cases "checkFiltersLocked ?fs s")
    case (Inl e)
    then have "s' = s \<and> r = Inl e" using assms(1) eq by (simp add: bind_act_def check_def)
    then show ?thesis using Inl by (intro refused) simp_all
  next
    case (Inr x)
    obtain u q where u: "sendFilters E ?fs s = (u, q)" by force
    show ?thesis
    proof (cases q)
      case (Inl e)
      then have "s' = u \<and> r = Inl e" using assms(1) eq \<open>checkFiltersLocked ?fs s = Inr x\<close> u by (simp add: bind_act_def check_def)
      then show ?thesis using Inl u by (intro failed) simp_all
    next
      case q: (Inr y)
      then have "s' = store_modes (env_now E) c mode force ?ms u \<and> r = Inr (exceptionsResultLocked s')"
        using assms(1) eq Inr u by (auto simp: bind_act_def check_def change_def with_state_def ret_def)
      then show ?thesis using u q by (intro stored) simp_all
    qed
  qed
qed

text \<open>
  Exception modes are each client's own. Setting a client's mode keeps one mode
  per client and stores no \<open>none\<close>; if it succeeds the client has the mode, every
  other client has its old mode (none if the caller forced it), an initialized
  adapter was sent one request with each filter once, exactly the union of the
  filters of all the modes, and the result lists those modes and filters. If it
  fails no mode changes.
\<close>

theorem exception_modes_spec:
  assumes "modes_inv (s_excModes s)" "setExceptionMode E c mode force None s = (s', r)"
  shows "modes_inv (s_excModes s')
    \<and> (\<forall>e. r = Inl e \<longrightarrow> s_excModes s' = s_excModes s)
    \<and> (\<forall>res. r = Inr res \<longrightarrow>
        mode_of (cl_ID c) (s_excModes s') = mode
        \<and> (\<forall>d. d \<noteq> cl_ID c \<longrightarrow> mode_of d (s_excModes s') = (if force then ExceptionsNone else mode_of d (s_excModes s)))
        \<and> xr_Modes res = s_excModes s' \<and> distinct (xr_Filters res)
        \<and> set (xr_Filters res) = (\<Union>m \<in> set (s_excModes s'). set (mode_filters s (cem_Mode m)))
        \<and> s_sent s' = s_sent s @ (if s_initialized s then [SetExceptionBreakpointsReq (xr_Filters res)] else []))"
proof (cases "s_state s = StateExited")
  case True
  then show ?thesis using assms by (auto simp: setExceptionMode_def with_state_def fail_def)
next
  case False
  let ?ms = "withMode (s_excModes s) (cl_ID c) mode force"
  from assms(2) False show ?thesis
  proof (cases rule: setExceptionMode_cases)
    case (refused e)
    then show ?thesis using assms(1) by simp
  next
    case (failed e)
    then have "s_excModes s' = s_excModes s"
      using quietD(4)[OF silent.actD[OF silent_sendFilters, of s E]] by (metis fst_conv)
    then show ?thesis using assms(1) failed(2) by simp
  next
    case (stored u)
    have su: "quiet s u" using silent.actD[OF silent_sendFilters, of s E] stored(1) by (metis fst_conv)
    have ms: "s_excModes s' = ?ms" using stored(2) by (simp add: store_modes_def)
    have "s_excFilters s' = s_excFilters u" "s_ID s' = s_ID u" using stored(2) by (simp_all add: store_modes_def)
    moreover have "s_excFilters u = s_excFilters s" using su by (simp add: quiet_def kept_def)
    ultimately have mf: "mode_filters s' = mode_filters s" by (simp add: mode_filters_def fun_eq_iff)
    then have fs: "filtersFor ?ms s' = filtersFor ?ms s" by (simp add: filtersFor_def)
    have "s_sent s' = s_sent s @ (if s_initialized s then [SetExceptionBreakpointsReq (filtersFor ?ms s)] else [])"
      using sendFilters_sent[of E "filtersFor ?ms s" s] stored(1,2) by (simp add: store_modes_def)
    then show ?thesis
      using stored(3) ms fs withMode_inv[OF assms(1)] withMode_of[OF assms(1)] filtersFor_union[of ?ms s]
      by (simp add: exceptionsResultLocked_def)
  qed
qed

theorem exception_modes_spec_witness:
  "mode_of KindAgent (s_excModes (fst (setExceptionMode demo_env (demo_client KindAgent) ExceptionsAll False None demo_session))) = ExceptionsAll"
proof -
  obtain t r where e: "setExceptionMode demo_env (demo_client KindAgent) ExceptionsAll False None demo_session = (t, r)" by force
  have "modes_inv (s_excModes demo_session)" by (simp add: modes_inv_def demo_session_def newSession_def)
  note spec = exception_modes_spec[OF this e]
  have "is_ok r"
    using e by (auto simp: setExceptionMode_def with_state_def demo_session_more checkFiltersLocked_def sendFilters_def
        bind_act_def check_def change_def ret_def Let_def)
  then show ?thesis using spec e by (auto simp: demo_client_def elim: is_okE)
qed

end
