(* ===== verification/Leaving.thy ===== *)
theory Leaving
  imports Exceptions
begin

text \<open>
  What happens when an editor's last connection closes (\<^verbatim>\<open>Presence.Leave\<close> and
  \<^verbatim>\<open>Session.leave\<close> in \<^verbatim>\<open>presence.go\<close>), and the configuration of a starting session
  (\<^verbatim>\<open>initialize\<close>, \<^verbatim>\<open>configurationPhase\<close> and \<^verbatim>\<open>configurationDone\<close> in \<^verbatim>\<open>session.go\<close>).
\<close>

section \<open>Leaving\<close>

definition leaves_bp :: "client \<Rightarrow> int \<Rightarrow> session \<Rightarrow> breakpoint \<Rightarrow> bool" where
  "leaves_bp c gen s b = (bp_Owner b = cl_ID c \<and> bp_Editor b \<and> \<not> bp_Temporary b \<and> leftLocked (cl_ID c) gen s)"

definition resets_mode :: "client \<Rightarrow> int \<Rightarrow> session \<Rightarrow> bool" where
  "resets_mode c gen s =
    (leftLocked (cl_ID c) gen s \<and> (case presence_of (cl_ID c) s of Some e \<Rightarrow> pr_excSet e | None \<Rightarrow> False)
     \<and> contains_func (\<lambda>m. cem_Client m = cl_ID c) (s_excModes s))"

definition give_up_lease :: "time \<Rightarrow> client \<Rightarrow> int \<Rightarrow> session \<Rightarrow> session" where
  "give_up_lease now c gen s =
    (if \<not> leftLocked (cl_ID c) gen s then s
     else let s1 = dropRequestLocked (cl_ID c) s;
              s2 = (if cl_ID (le_holder (s_lease s1)) = cl_ID c
                    then setHolderLocked now no_client (cl_ID c) ''release'' ''disconnected'' s1 else s1)
          in del_presence (cl_ID c) s2)"

definition leave :: "env \<Rightarrow> client \<Rightarrow> int \<Rightarrow> session \<Rightarrow> session" where
  "leave E c gen s =
    (let s1 = fst (removeBreakpoints E (cl_ID c) (leaves_bp c gen s) s);
         s2 = (if resets_mode c gen s1
               then fst (setExceptionMode E c ExceptionsNone False (Some (leftLocked (cl_ID c) gen)) s1) else s1)
     in give_up_lease (env_now E) c gen s2)"

text \<open>\<^verbatim>\<open>Leave\<close> with \<open>between\<close>, what happens before the cleanup runs (nothing without grace).\<close>

definition Leave :: "env \<Rightarrow> bool \<Rightarrow> connection \<Rightarrow> inter list \<Rightarrow> session \<Rightarrow> session \<times> connection" where
  "Leave E ctx_done cn between s =
    (case decrement (env_now E) ctx_done cn s of
       (s', cn', None) \<Rightarrow> (s', cn')
     | (s', cn', Some gen) \<Rightarrow> (leave E (cn_client cn) gen (inters (env_now E) between s'), cn'))"

section \<open>Configuring a new session\<close>

fun sel_initialize :: "dap_response \<Rightarrow> capabilities option" where
  "sel_initialize (InitializeResp caps) = Some caps"
| "sel_initialize _ = None"

definition initialize :: "env \<Rightarrow> string \<Rightarrow> bool \<Rightarrow> unit action" where
  "initialize E adapterID terminal =
    bind_act (Call E (InitializeReq adapterID terminal) sel_initialize) (\<lambda>caps. change (setCaps caps))"

text \<open>The starter's breakpoints under the lock: the ids of the new ones.\<close>

fun add_specs :: "time \<Rightarrow> breakpoint_spec list \<Rightarrow> session \<Rightarrow> session \<times> int list result" where
  "add_specs now [] s = (s, Inr [])"
| "add_specs now (spec # specs) s =
    (case checkBreakpointCapsLocked spec s of
       Inl e \<Rightarrow> (s, Inl e)
     | Inr _ \<Rightarrow> (case checkMapped spec s of
         Inl e \<Rightarrow> (s, Inl e)
       | Inr _ \<Rightarrow> (case addBreakpointLocked now (cl_ID (s_starter s)) spec s of (s', i, isNew, changed) \<Rightarrow>
           bind_act (add_specs now specs) (\<lambda>is. ret (if isNew then i # is else is)) s')))"

definition configurationPhase :: "env \<Rightarrow> breakpoint_spec list \<Rightarrow> unit action" where
  "configurationPhase E specs =
    bind_act (add_specs (env_now E) specs) (\<lambda>added.
    bind_act (\<lambda>s. case sync_keys E (map fst (s_bps s)) s of (s', Some e) \<Rightarrow> (s', Inl e) | (s', None) \<Rightarrow> (s', Inr ())) (\<lambda>_.
    bind_act (change (\<lambda>s. fold (\<lambda>i s. logBreakpointLocked (env_now E) ''added'' (cl_ID (s_starter s)) (copy_of i s) s) added s)) (\<lambda>_.
      configureExceptions E)))"

definition configurationDone :: "env \<Rightarrow> unit action" where
  "configurationDone E =
    with_state (\<lambda>s. if \<not> cap_ConfigurationDone (s_caps s) then ret () else Call E ConfigurationDoneReq sel_any)"

definition startErr :: "(string \<Rightarrow> string) \<Rightarrow> launch \<Rightarrow> error \<Rightarrow> error" where
  "startErr quote la e =
    (if la_Request la \<noteq> ''attach'' \<or> CodeOf e \<noteq> Some CodeAdapterFailed then e
     else NewError CodeAttachFailed [Lit (''attach to pid '' @ itoa (la_PID la) @ '' failed: '' @ message_text quote (err_message e))])"

definition configured :: "session \<Rightarrow> session" where
  "configured s = (if s_state s = StateStarting then setStateLocked StateRunning s else s)"

end
