(* ===== verification/Group_Events.thy ===== *)
theory Group_Events
  imports Inspect Member_Path "HOL-Library.List_Lexorder" "HOL-Library.Char_ord" "HOL-Library.Product_Lexorder"
    "HOL-Library.Multiset"
begin

text \<open>
  Reading the events of a group of sessions (\<^verbatim>\<open>group.go\<close> and \<^verbatim>\<open>ShapeGroupEvents\<close> of
  \<^verbatim>\<open>present/events.go\<close>): a query of every member's log, the merge by time, the cursor
  that names each member's position, and its text form. Go compares strings byte by
  byte, which is the lexicographic order on lists of characters. The size of an event
  as JSON is a parameter.
\<close>

section \<open>Types\<close>

abbreviation MaxGroupCursor :: nat where "MaxGroupCursor \<equiv> 64"
abbreviation maxCursorID :: nat where "maxCursorID \<equiv> 32"

record group_event =
  ge_SessionID :: string
  ge_Service :: string
  ge_Event :: event

record group_events_params =
  gp_Group :: string
  gp_Since :: string
  gp_Newest :: bool
  gp_Limit :: int
  gp_Kinds :: "event_kind list"
  gp_Budget :: int

record group_events_result =
  gr_Events :: "group_event list"
  gr_Cursor :: string
  gr_More :: int
  gr_Dropped :: int
  gr_TimedOut :: bool

record member_events =
  me_s :: session
  me_events :: "event list"
  me_latest :: int
  me_more :: int

type_synonym cursor = "string \<rightharpoonup> int"

text \<open>Reading a Go map of integers: 0 for a missing key.\<close>

definition at_key :: "('k \<rightharpoonup> int) \<Rightarrow> 'k \<Rightarrow> int" where
  "at_key m k = (case m k of None \<Rightarrow> 0 | Some n \<Rightarrow> n)"

definition service :: "session \<Rightarrow> string" where
  "service s = (case s_container s of None \<Rightarrow> [] | Some c \<Rightarrow> co_Service c)"

section \<open>Merging\<close>

definition mergeBefore :: "event \<Rightarrow> string \<Rightarrow> event \<Rightarrow> string \<Rightarrow> bool" where
  "mergeBefore a aID b bID = (if ev_Time a \<noteq> ev_Time b then ev_Time a < ev_Time b else aID < bID)"

text \<open>The loop over the parts: the index of the part whose head merges first.\<close>

definition better_head :: "member_events list \<Rightarrow> nat list \<Rightarrow> nat \<Rightarrow> nat option \<Rightarrow> nat option" where
  "better_head parts heads i best =
    (if heads ! i = length (me_events (parts ! i)) then best
     else case best of None \<Rightarrow> Some i
     | Some b \<Rightarrow>
         if mergeBefore (me_events (parts ! i) ! (heads ! i)) (s_ID (me_s (parts ! i)))
              (me_events (parts ! b) ! (heads ! b)) (s_ID (me_s (parts ! b)))
         then Some i else best)"

definition best_head :: "member_events list \<Rightarrow> nat list \<Rightarrow> nat option" where
  "best_head parts heads = fold (better_head parts heads) [0..<length parts] None"

definition group_event_of :: "member_events \<Rightarrow> event \<Rightarrow> group_event" where
  "group_event_of pt e = \<lparr>ge_SessionID = s_ID (me_s pt), ge_Service = service (me_s pt), ge_Event = e\<rparr>"

text \<open>
  The outer loop runs while \<open>len(out) < total\<close> and appends one event each time: its first
  argument is the difference. There is always a head left then (\<open>best_head_None\<close>).
\<close>

fun merge_loop :: "nat \<Rightarrow> member_events list \<Rightarrow> nat list \<Rightarrow> group_event list \<Rightarrow> group_event list" where
  "merge_loop 0 parts heads out = out"
| "merge_loop (Suc n) parts heads out =
    (case best_head parts heads of None \<Rightarrow> out
     | Some b \<Rightarrow> merge_loop n parts (heads[b := heads ! b + 1])
                  (out @ [group_event_of (parts ! b) (me_events (parts ! b) ! (heads ! b))]))"

definition mergeEvents :: "member_events list \<Rightarrow> group_event list" where
  "mergeEvents parts =
    merge_loop (sum_list (map (\<lambda>pt. length (me_events pt)) parts)) parts (map (\<lambda>_. 0) parts) []"

section \<open>Cursors\<close>

definition cursorError :: "message \<Rightarrow> error" where
  "cursorError why = NewError CodeInvalidRequest (Lit ''invalid group events cursor: '' # why)"

definition validCursorID :: "string \<Rightarrow> bool" where
  "validCursorID i =
    (take 2 i = ''s-'' \<and> drop 2 i \<noteq> [] \<and> length i \<le> maxCursorID
     \<and> list_all isLowerAlnum (runes (drop 2 i)))"

definition allDigits :: "string \<Rightarrow> bool" where
  "allDigits s = (s \<noteq> [] \<and> list_all (\<lambda>r. 48 \<le> r \<and> r \<le> 57) (runes s))"

fun parse_entries :: "string list \<Rightarrow> cursor \<Rightarrow> cursor result" where
  "parse_entries [] cur = Inr cur"
| "parse_entries (e # es) cur =
    (let (i, seq, ok) = cut_at CHR '':'' e in
     if \<not> ok \<or> \<not> validCursorID i \<or> \<not> allDigits seq
     then Inl (cursorError [Lit ''entry '', Quoted (CutText e 40 False), Lit '' is not SESSION:SEQ''])
     else case Atoi seq of
       None \<Rightarrow> Inl (cursorError [Lit ''entry '', Quoted (CutText e 40 False),
                 Lit '': strconv.Atoi: parsing '', Quoted seq, Lit '': value out of range''])
     | Some n \<Rightarrow>
         if cur i \<noteq> None then Inl (cursorError [Lit (''it names '' @ i @ '' twice'')])
         else parse_entries es (cur(i \<mapsto> n)))"

definition parseGroupCursor :: "string \<Rightarrow> cursor result" where
  "parseGroupCursor s =
    (if s = [] then Inr Map.empty
     else let entries = split_at CHR '','' s in
       if length entries > MaxGroupCursor
       then Inl (cursorError [Lit (''it has '' @ nat_dec (length entries) @ '' entries, at most '' @ nat_dec MaxGroupCursor)])
       else parse_entries entries Map.empty)"

definition formatGroupCursor :: "session list \<Rightarrow> cursor \<Rightarrow> string" where
  "formatGroupCursor members at =
    join_with '','' (map (\<lambda>s. s_ID s @ '':'' @ itoa (at_key at (s_ID s))) members)"

definition count_returned :: "group_event \<Rightarrow> cursor \<times> cursor \<Rightarrow> cursor \<times> cursor" where
  "count_returned g rl =
    (let i = ge_SessionID g in
     ((fst rl)(i \<mapsto> at_key (fst rl) i + 1), (snd rl)(i \<mapsto> ev_Seq (ge_Event g))))"

definition next_at :: "cursor \<Rightarrow> cursor \<Rightarrow> cursor \<Rightarrow> bool \<Rightarrow> member_events \<Rightarrow> int" where
  "next_at returned lst cur newest pt =
    (let i = s_ID (me_s pt); at = at_key cur i in
     if me_more pt = 0 \<and> at_key returned i = int (length (me_events pt)) then max at (me_latest pt)
     else if \<not> newest \<and> at_key returned i > 0 then max at (at_key lst i)
     else at)"

definition nextCursor :: "member_events list \<Rightarrow> group_event list \<Rightarrow> cursor \<Rightarrow> bool \<Rightarrow> cursor" where
  "nextCursor parts kp cur newest =
    (let (returned, lst) = fold count_returned kp (Map.empty, Map.empty)
     in fold (\<lambda>pt nxt. nxt(s_ID (me_s pt) \<mapsto> next_at returned lst cur newest pt)) parts Map.empty)"

section \<open>The query\<close>

definition shape_group_event :: "group_event \<Rightarrow> group_event" where
  "shape_group_event g = g\<lparr>ge_Event := shape_event (ge_Event g)\<rparr>"

definition ShapeGroupEvents :: "(group_event \<Rightarrow> nat) \<Rightarrow> group_event list \<Rightarrow> int \<Rightarrow> bool \<Rightarrow> group_event list \<times> nat" where
  "ShapeGroupEvents jsonSize events budget newest =
    (let out = map shape_group_event events;
         n = fit out (shape_limit budget) newest jsonSize
     in ((if newest then drop (length out - n) out else take n out), length out - n))"

definition query_member :: "cursor \<Rightarrow> group_events_params \<Rightarrow> session \<Rightarrow> events_result" where
  "query_member cur p s =
    queryLocked \<lparr>ep_Since = at_key cur (s_ID s), ep_Newest = gp_Newest p, ep_Limit = eventLimit (gp_Limit p),
      ep_Kinds = gp_Kinds p, ep_Budget = 0\<rparr> (s_log s)"

definition member_part :: "cursor \<Rightarrow> group_events_params \<Rightarrow> session \<Rightarrow> member_events" where
  "member_part cur p s =
    (let r = query_member cur p s
     in \<lparr>me_s = s, me_events = er_Events r, me_latest = er_Latest r, me_more = er_More r\<rparr>)"

definition groupEventsOnce ::
    "(group_event \<Rightarrow> nat) \<Rightarrow> session list \<Rightarrow> cursor \<Rightarrow> group_events_params \<Rightarrow> group_events_result \<times> cursor" where
  "groupEventsOnce jsonSize members cur p =
    (let limit = nat (eventLimit (gp_Limit p));
         parts = map (member_part cur p) members;
         merged = mergeEvents parts;
         cut = (if length merged > limit
                then if gp_Newest p then drop (length merged - limit) merged else take limit merged
                else merged);
         (kp, _) = ShapeGroupEvents jsonSize cut (gp_Budget p) (gp_Newest p);
         nxt = nextCursor parts kp cur (gp_Newest p)
     in (\<lparr>gr_Events = kp, gr_Cursor = formatGroupCursor members nxt,
          gr_More = sum_list (map (\<lambda>s. er_More (query_member cur p s)) members) + int (length merged - length kp),
          gr_Dropped = sum_list (map (\<lambda>s. er_Dropped (query_member cur p s)) members),
          gr_TimedOut = False\<rparr>, nxt))"

text \<open>
  \<^verbatim>\<open>groupEvents\<close>: the members as they are at each wake-up of \<^verbatim>\<open>anyClosed\<close>, oldest first;
  the last one is what the ended wait finds.
\<close>

fun group_wait_loop ::
    "(group_event \<Rightarrow> nat) \<Rightarrow> group_events_params \<Rightarrow> int \<Rightarrow> cursor \<Rightarrow> session list list \<Rightarrow> session list \<Rightarrow> group_events_result" where
  "group_wait_loop sz p dropped nxt [] done_ms =
    (let (res, _) = groupEventsOnce sz done_ms nxt p
     in res\<lparr>gr_Dropped := gr_Dropped res + dropped, gr_TimedOut := (gr_Events res = [])\<rparr>)"
| "group_wait_loop sz p dropped nxt (ms # mss) done_ms =
    (let (res, nxt') = groupEventsOnce sz ms nxt p; dropped' = dropped + gr_Dropped res
     in if gr_Events res \<noteq> [] then res\<lparr>gr_Dropped := dropped'\<rparr>
        else group_wait_loop sz p dropped' nxt' mss done_ms)"

definition groupEvents ::
    "(group_event \<Rightarrow> nat) \<Rightarrow> session list \<Rightarrow> session list list \<Rightarrow> session list \<Rightarrow> cursor \<Rightarrow> group_events_params \<Rightarrow> int
     \<Rightarrow> group_events_result" where
  "groupEvents sz members wakes done_ms cur p wait =
    (let (res, nxt) = groupEventsOnce sz members cur p
     in if gr_Events res \<noteq> [] \<or> wait \<le> 0 then res
        else group_wait_loop sz p (gr_Dropped res) nxt wakes done_ms)"

section \<open>What the merge returns\<close>

text \<open>The position of an event in the merge: its time, then its session's id.\<close>

definition merges_before_or_with :: "event \<Rightarrow> string \<Rightarrow> event \<Rightarrow> string \<Rightarrow> bool" where
  "merges_before_or_with a aID b bID \<longleftrightarrow> \<not> mergeBefore b bID a aID"

lemma merges_before_or_with_trans:
  "merges_before_or_with a aID b bID \<Longrightarrow> merges_before_or_with b bID c cID \<Longrightarrow> merges_before_or_with a aID c cID"
  by (auto simp: merges_before_or_with_def mergeBefore_def split: if_splits)

lemma merges_before_or_with_refl [simp]: "merges_before_or_with a aID a aID"
  by (simp add: merges_before_or_with_def mergeBefore_def)

definition exhausted :: "member_events list \<Rightarrow> nat list \<Rightarrow> nat \<Rightarrow> bool" where
  "exhausted parts heads i \<longleftrightarrow> heads ! i = length (me_events (parts ! i))"

abbreviation head_before :: "member_events list \<Rightarrow> nat list \<Rightarrow> nat \<Rightarrow> nat \<Rightarrow> bool" where
  "head_before parts heads b i \<equiv>
    merges_before_or_with (me_events (parts ! b) ! (heads ! b)) (s_ID (me_s (parts ! b)))
      (me_events (parts ! i) ! (heads ! i)) (s_ID (me_s (parts ! i)))"

lemma best_head_upto:
  "case fold (better_head parts heads) [0..<k] None of
     None \<Rightarrow> \<forall>i<k. exhausted parts heads i
   | Some b \<Rightarrow> b < k \<and> \<not> exhausted parts heads b
       \<and> (\<forall>i<k. \<not> exhausted parts heads i \<longrightarrow> head_before parts heads b i)"
proof (induction k)
  case 0
  then show ?case by simp
next
  case (Suc k)
  then show ?case
    by (auto simp: better_head_def exhausted_def[symmetric] less_Suc_eq split: option.splits
        intro: merges_before_or_with_trans)
      (auto simp: merges_before_or_with_def mergeBefore_def split: if_splits)
qed

lemma best_head_spec:
  "case best_head parts heads of
     None \<Rightarrow> \<forall>i<length parts. exhausted parts heads i
   | Some b \<Rightarrow> b < length parts \<and> \<not> exhausted parts heads b
       \<and> (\<forall>i<length parts. \<not> exhausted parts heads i \<longrightarrow> head_before parts heads b i)"
  unfolding best_head_def by (rule best_head_upto)

text \<open>What is left to merge.\<close>

definition left :: "member_events list \<Rightarrow> nat list \<Rightarrow> nat" where
  "left parts heads = (\<Sum>i<length parts. length (me_events (parts ! i)) - heads ! i)"

definition heads_ok :: "member_events list \<Rightarrow> nat list \<Rightarrow> bool" where
  "heads_ok parts heads \<longleftrightarrow> length heads = length parts
    \<and> (\<forall>i<length parts. heads ! i \<le> length (me_events (parts ! i)))"

lemma best_head_left:
  assumes "heads_ok parts heads" "left parts heads = Suc n"
  obtains b where "best_head parts heads = Some b" "b < length parts"
    "heads ! b < length (me_events (parts ! b))"
    "\<And>i. i < length parts \<Longrightarrow> heads ! i < length (me_events (parts ! i)) \<Longrightarrow> head_before parts heads b i"
    "heads_ok parts (heads[b := heads ! b + 1])" "left parts (heads[b := heads ! b + 1]) = n"
proof -
  have "\<exists>i<length parts. \<not> exhausted parts heads i"
  proof (rule ccontr)
    assume "\<not> (\<exists>i<length parts. \<not> exhausted parts heads i)"
    then have "left parts heads = 0" by (simp add: left_def exhausted_def)
    then show False using assms(2) by simp
  qed
  then obtain b where b: "best_head parts heads = Some b" "b < length parts" "\<not> exhausted parts heads b"
    "\<forall>i<length parts. \<not> exhausted parts heads i \<longrightarrow> head_before parts heads b i"
    using best_head_spec[of parts heads] by (auto split: option.splits)
  then have lt: "heads ! b < length (me_events (parts ! b))"
    using assms(1) by (auto simp: heads_ok_def exhausted_def le_less)
  let ?h = "heads[b := heads ! b + 1]" and ?f = "\<lambda>h i. length (me_events (parts ! i)) - h ! i"
  have "left parts heads = ?f heads b + (\<Sum>i\<in>{..<length parts} - {b}. ?f heads i)"
    unfolding left_def using b(2) by (intro sum.remove) auto
  moreover have "left parts ?h = ?f ?h b + (\<Sum>i\<in>{..<length parts} - {b}. ?f ?h i)"
    unfolding left_def using b(2) by (intro sum.remove) auto
  moreover have "(\<Sum>i\<in>{..<length parts} - {b}. ?f ?h i) = (\<Sum>i\<in>{..<length parts} - {b}. ?f heads i)"
    by (intro sum.cong) auto
  ultimately have "left parts ?h = n"
    using assms lt b(2) by (simp add: heads_ok_def)
  moreover have "?h ! i \<le> length (me_events (parts ! i))" if "i < length parts" for i
    using assms(1) lt that b(2) by (cases "i = b") (auto simp: heads_ok_def)
  then have "heads_ok parts ?h" using assms(1) by (simp add: heads_ok_def)
  moreover have "head_before parts heads b i" if "i < length parts" "heads ! i < length (me_events (parts ! i))" for i
    using b(4) that by (simp add: exhausted_def)
  ultimately show ?thesis using that[OF b(1,2) lt] by blast
qed

abbreviation of_session :: "string \<Rightarrow> group_event list \<Rightarrow> group_event list" where
  "of_session i \<equiv> filter (\<lambda>g. ge_SessionID g = i)"

abbreviation part_ids :: "member_events list \<Rightarrow> string list" where
  "part_ids parts \<equiv> map (\<lambda>pt. s_ID (me_s pt)) parts"

lemma group_event_of_sel [simp]:
  "ge_SessionID (group_event_of pt e) = s_ID (me_s pt)" "ge_Event (group_event_of pt e) = e"
  "ge_Service (group_event_of pt e) = service (me_s pt)"
  by (simp_all add: group_event_of_def)

lemma merge_loop_members:
  assumes "distinct (part_ids parts)"
  shows "heads_ok parts heads \<Longrightarrow> left parts heads = n
    \<Longrightarrow> \<forall>i<length parts. of_session (s_ID (me_s (parts ! i))) out
          = map (group_event_of (parts ! i)) (take (heads ! i) (me_events (parts ! i)))
    \<Longrightarrow> i < length parts
    \<Longrightarrow> of_session (s_ID (me_s (parts ! i))) (merge_loop n parts heads out)
          = map (group_event_of (parts ! i)) (me_events (parts ! i))"
proof (induction n arbitrary: heads out)
  case 0
  then have "length (me_events (parts ! i)) \<le> heads ! i" by (simp add: left_def)
  then show ?case using 0 by simp
next
  case (Suc n)
  obtain b where b: "best_head parts heads = Some b" "b < length parts" "heads ! b < length (me_events (parts ! b))"
    "heads_ok parts (heads[b := heads ! b + 1])" "left parts (heads[b := heads ! b + 1]) = n"
    using best_head_left[OF Suc.prems(1,2)] by metis
  have same: "s_ID (me_s (parts ! b)) = s_ID (me_s (parts ! j)) \<longleftrightarrow> b = j" if "j < length parts" for j
    using nth_eq_iff_index_eq[OF assms, of b j] b(2) that by simp
  have "of_session (s_ID (me_s (parts ! j))) (out @ [group_event_of (parts ! b) (me_events (parts ! b) ! (heads ! b))])
      = map (group_event_of (parts ! j)) (take (heads[b := heads ! b + 1] ! j) (me_events (parts ! j)))"
    if j: "j < length parts" for j
    using Suc.prems(1,3) b(2,3) same[OF j] j
    by (cases "b = j") (auto simp: heads_ok_def take_Suc_conv_app_nth)
  then show ?case using Suc.IH[OF b(4,5) _ Suc.prems(4)] b(1) by simp
qed

lemma left_start: "left parts (map (\<lambda>_. 0) parts) = sum_list (map (\<lambda>pt. length (me_events pt)) parts)"
  by (simp add: left_def sum_list_sum_nth atLeast0LessThan)

lemma heads_ok_start: "heads_ok parts (map (\<lambda>_. 0) parts)"
  by (simp add: heads_ok_def)

text \<open>Each member's events appear once each, in the member's own order, whatever their times.\<close>

lemma mergeEvents_members:
  assumes "distinct (part_ids parts)" "pt \<in> set parts"
  shows "of_session (s_ID (me_s pt)) (mergeEvents parts) = map (group_event_of pt) (me_events pt)"
proof -
  obtain i where i: "i < length parts" "pt = parts ! i" using assms(2) by (auto simp: in_set_conv_nth)
  show ?thesis
    unfolding mergeEvents_def i(2)
    by (rule merge_loop_members[OF assms(1) heads_ok_start left_start _ i(1)]) simp
qed

lemma length_merge_loop:
  "heads_ok parts heads \<Longrightarrow> left parts heads = n \<Longrightarrow> length (merge_loop n parts heads out) = length out + n"
proof (induction n arbitrary: heads out)
  case (Suc n)
  then obtain b where b: "best_head parts heads = Some b"
    "heads_ok parts (heads[b := heads ! b + 1])" "left parts (heads[b := heads ! b + 1]) = n"
    using best_head_left[OF Suc.prems(1,2)] by metis
  show ?case using Suc.IH[OF b(2,3)] b(1) by simp
qed simp

text \<open>If every member's times never go back, the merge is in the order of time, then session id.\<close>

definition event_key :: "group_event \<Rightarrow> time \<times> string" where
  "event_key g = (ev_Time (ge_Event g), ge_SessionID g)"

lemma merges_before_or_with_key:
  "merges_before_or_with (ge_Event g) (ge_SessionID g) (ge_Event h) (ge_SessionID h) \<longleftrightarrow> event_key g \<le> event_key h"
  by (auto simp: merges_before_or_with_def mergeBefore_def event_key_def less_eq_prod_def)

definition head_key :: "member_events list \<Rightarrow> nat list \<Rightarrow> nat \<Rightarrow> time \<times> string" where
  "head_key parts heads i = event_key (group_event_of (parts ! i) (me_events (parts ! i) ! (heads ! i)))"

lemma head_before_key: "head_before parts heads b i \<longleftrightarrow> head_key parts heads b \<le> head_key parts heads i"
  using merges_before_or_with_key[of "group_event_of (parts ! b) (me_events (parts ! b) ! (heads ! b))"
      "group_event_of (parts ! i) (me_events (parts ! i) ! (heads ! i))"]
  by (simp add: head_key_def)

lemma merge_loop_sorted:
  assumes times: "\<And>pt. pt \<in> set parts \<Longrightarrow> sorted (map ev_Time (me_events pt))"
  shows "heads_ok parts heads \<Longrightarrow> left parts heads = n \<Longrightarrow> sorted (map event_key out)
    \<Longrightarrow> \<forall>g \<in> set out. \<forall>i<length parts. heads ! i < length (me_events (parts ! i))
          \<longrightarrow> event_key g \<le> head_key parts heads i
    \<Longrightarrow> sorted (map event_key (merge_loop n parts heads out))"
proof (induction n arbitrary: heads out)
  case (Suc n)
  obtain b where b: "best_head parts heads = Some b" "b < length parts" "heads ! b < length (me_events (parts ! b))"
    "\<And>i. i < length parts \<Longrightarrow> heads ! i < length (me_events (parts ! i)) \<Longrightarrow> head_before parts heads b i"
    "heads_ok parts (heads[b := heads ! b + 1])" "left parts (heads[b := heads ! b + 1]) = n"
    using best_head_left[OF Suc.prems(1,2)] by metis
  let ?h = "heads[b := heads ! b + 1]" and ?g = "group_event_of (parts ! b) (me_events (parts ! b) ! (heads ! b))"
  have g: "event_key ?g = head_key parts heads b" by (simp add: head_key_def)
  have len: "length heads = length parts" using Suc.prems(1) by (simp add: heads_ok_def)
  have next_head: "head_key parts heads b \<le> head_key parts ?h i"
    if i: "i < length parts" "?h ! i < length (me_events (parts ! i))" for i
  proof (cases "i = b")
    case True
    have "ev_Time (me_events (parts ! b) ! (heads ! b)) \<le> ev_Time (me_events (parts ! b) ! Suc (heads ! b))"
      using sorted_nth_mono[OF times[OF nth_mem[OF b(2)]], of "heads ! b" "Suc (heads ! b)"] i True b(2) len by simp
    then show ?thesis using True b(2) len by (simp add: head_key_def event_key_def less_eq_prod_def le_less)
  next
    case False
    then have "head_key parts ?h i = head_key parts heads i" by (simp add: head_key_def)
    then show ?thesis using b(4)[of i] i False by (simp add: head_before_key)
  qed
  have old: "\<forall>x \<in> set out. event_key x \<le> head_key parts heads b" using Suc.prems(4) b(2,3) by blast
  have "sorted (map event_key (out @ [?g]))" using Suc.prems(3) old g by (simp add: sorted_append)
  moreover have "\<forall>x \<in> set (out @ [?g]). \<forall>i<length parts. ?h ! i < length (me_events (parts ! i))
      \<longrightarrow> event_key x \<le> head_key parts ?h i"
    using next_head old g by (auto intro: order_trans)
  ultimately show ?case using Suc.IH[OF b(5,6)] b(1) by simp
qed simp

lemma mergeEvents_sorted:
  assumes "\<And>pt. pt \<in> set parts \<Longrightarrow> sorted (map ev_Time (me_events pt))"
  shows "sorted (map event_key (mergeEvents parts))"
  unfolding mergeEvents_def using assms by (rule merge_loop_sorted[OF _ heads_ok_start left_start]) simp_all

lemma merge_loop_ids:
  "heads_ok parts heads \<Longrightarrow> left parts heads = n \<Longrightarrow> ge_SessionID ` set (merge_loop n parts heads out)
     \<subseteq> ge_SessionID ` set out \<union> set (part_ids parts)"
proof (induction n arbitrary: heads out)
  case (Suc n)
  then obtain b where b: "best_head parts heads = Some b" "b < length parts"
    "heads_ok parts (heads[b := heads ! b + 1])" "left parts (heads[b := heads ! b + 1]) = n"
    using best_head_left[OF Suc.prems(1,2)] by metis
  have "s_ID (me_s (parts ! b)) \<in> set (part_ids parts)" using b(2) by simp
  then show ?case
    using Suc.IH[OF b(3,4), of "out @ [group_event_of (parts ! b) (me_events (parts ! b) ! (heads ! b))]"] b(1) by auto
qed simp

lemma mergeEvents_ids: "g \<in> set (mergeEvents parts) \<Longrightarrow> ge_SessionID g \<in> set (part_ids parts)"
  using merge_loop_ids[OF heads_ok_start left_start, of parts "[]"] by (auto simp: mergeEvents_def)

definition all_events :: "member_events list \<Rightarrow> group_event list" where
  "all_events parts = concat (map (\<lambda>pt. map (group_event_of pt) (me_events pt)) parts)"

lemma all_events_members:
  assumes "distinct (part_ids parts)" "pt \<in> set parts"
  shows "of_session (s_ID (me_s pt)) (all_events parts) = map (group_event_of pt) (me_events pt)"
proof -
  have none: "of_session i (all_events ps) = []" if "i \<notin> set (part_ids ps)" for i ps
    using that by (auto simp: all_events_def filter_empty_conv)
  from assms show ?thesis
  proof (induction parts)
    case (Cons q qs)
    show ?case
    proof (cases "pt = q")
      case True
      then show ?thesis using none[of "s_ID (me_s q)" qs] Cons.prems by (simp add: all_events_def filter_id_conv)
    next
      case False
      then have pt: "pt \<in> set qs" using Cons.prems by simp
      then have "s_ID (me_s q) \<noteq> s_ID (me_s pt)" using Cons.prems by auto
      then have "of_session (s_ID (me_s pt)) (map (group_event_of q) (me_events q)) = []" by (simp add: filter_empty_conv)
      then show ?thesis using Cons pt by (simp add: all_events_def)
    qed
  qed simp
qed

lemma all_events_ids: "g \<in> set (all_events parts) \<Longrightarrow> ge_SessionID g \<in> set (part_ids parts)"
  by (auto simp: all_events_def)

lemma merge_same_members:
  assumes "distinct (part_ids parts)"
  shows "of_session i (mergeEvents parts) = of_session i (all_events parts)"
proof (cases "i \<in> set (part_ids parts)")
  case True
  then show ?thesis using mergeEvents_members[OF assms] all_events_members[OF assms] by auto
next
  case False
  then have "of_session i (mergeEvents parts) = []" "of_session i (all_events parts) = []"
    using mergeEvents_ids all_events_ids by (auto simp: filter_empty_conv)
  then show ?thesis by simp
qed

lemma mset_by_session:
  assumes "\<And>i. of_session i xs = of_session i ys"
  shows "mset xs = mset ys"
proof (rule multiset_eqI)
  fix g
  have "count (mset zs) g = count (mset (of_session (ge_SessionID g) zs)) g" for zs
    by (simp add: mset_filter)
  then show "count (mset xs) g = count (mset ys) g" using assms by metis
qed

text \<open>
  C27: the k-way merge of a group's events is the stable sort, by time and then session
  id, of all the members' events: every event appears exactly once and a member's
  events keep their order. (The members have distinct ids, and the times within one
  member's log never go back.)
\<close>

theorem group_merge_is_stable_sort:
  assumes "distinct (part_ids parts)"
    and "\<And>pt. pt \<in> set parts \<Longrightarrow> sorted (map ev_Time (me_events pt))"
  shows "mergeEvents parts = sort_key event_key (all_events parts)"
proof (rule properties_for_sort_key[symmetric])
  show "mset (mergeEvents parts) = mset (all_events parts)"
    using merge_same_members[OF assms(1)] by (rule mset_by_session)
  show "filter (\<lambda>x. event_key g = event_key x) (mergeEvents parts)
      = filter (\<lambda>x. event_key g = event_key x) (all_events parts)" for g
  proof -
    have "filter (\<lambda>x. event_key g = event_key x) zs
        = filter (\<lambda>x. event_key g = event_key x) (of_session (ge_SessionID g) zs)" for zs
      by (auto simp: event_key_def intro: filter_cong)
    then show ?thesis using merge_same_members[OF assms(1)] by metis
  qed
  show "sorted (map event_key (mergeEvents parts))" using assms(2) by (rule mergeEvents_sorted)
qed

definition demo_member :: "string \<Rightarrow> (time \<times> event) list \<Rightarrow> session" where
  "demo_member i xs =
    (newSession 0 i ''go'' [] \<lparr>la_Program = [], la_Request = [], la_PID = 0, la_AdapterID = [], la_Arguments = [],
       la_ExceptionFilters = [], la_AdapterName = [], la_PauseUnsupported = [], la_SetByEval = False,
       la_ExitCodeUnknown = [], la_PathMap = None, la_Container = None\<rparr> no_client LeaseFree)
      \<lparr>s_log := fold append_at xs (newEventLog 10 10000)\<rparr>"

lemma demo_member_sel [simp]:
  "s_ID (demo_member i xs) = i" "s_log (demo_member i xs) = fold append_at xs (newEventLog 10 10000)"
  "s_container (demo_member i xs) = None"
  by (simp_all add: demo_member_def newSession_def)

definition demo_part :: "string \<Rightarrow> time list \<Rightarrow> member_events" where
  "demo_part i ts = \<lparr>me_s = demo_member i [], me_events = map (\<lambda>t. (Event EventOutput)\<lparr>ev_Time := t\<rparr>) ts,
     me_latest = int (length ts), me_more = 0\<rparr>"

theorem group_merge_is_stable_sort_witness:
  "mergeEvents [demo_part ''s-b'' [1, 4], demo_part ''s-a'' [1, 3]]
    = sort_key event_key (all_events [demo_part ''s-b'' [1, 4], demo_part ''s-a'' [1, 3]])"
  by (rule group_merge_is_stable_sort) (auto simp: demo_part_def)

section \<open>Cursors\<close>

lemma returned_spec:
  "at_key (fst (fold count_returned gs (r, l))) i = at_key r i + int (length (of_session i gs))"
  by (induction gs arbitrary: r l) (simp_all add: count_returned_def Let_def at_key_def)

lemma last_spec:
  "of_session i gs \<noteq> [] \<Longrightarrow> at_key (snd (fold count_returned gs (r, l))) i = ev_Seq (ge_Event (last (of_session i gs)))"
proof (induction gs rule: rev_induct)
  case (snoc g gs)
  then show ?case by (cases "ge_SessionID g = i") (simp_all add: count_returned_def Let_def at_key_def)
qed simp

lemma nextCursor_fold:
  assumes "distinct (part_ids parts)" "pt \<in> set parts"
  shows "fold (\<lambda>pt nxt. nxt(s_ID (me_s pt) \<mapsto> f pt)) parts m (s_ID (me_s pt)) = Some (f pt)"
  using assms
proof (induction parts rule: rev_induct)
  case (snoc q qs)
  show ?case
  proof (cases "pt = q")
    case False
    then have pt: "pt \<in> set qs" using snoc.prems by simp
    then have "s_ID (me_s pt) \<noteq> s_ID (me_s q)" using snoc.prems(1) by (auto simp: image_iff)
    then show ?thesis using snoc pt by simp
  qed simp
qed simp

text \<open>Where the next query of a member starts.\<close>

lemma nextCursor_spec:
  assumes "distinct (part_ids parts)" "pt \<in> set parts"
    and "i = s_ID (me_s pt)" "mine = of_session i kp" "at = at_key cur i"
  shows "at_key (nextCursor parts kp cur newest) i =
    (if me_more pt = 0 \<and> length mine = length (me_events pt) then max at (me_latest pt)
     else if \<not> newest \<and> mine \<noteq> [] then max at (ev_Seq (ge_Event (last mine)))
     else at)"
proof -
  define rl where "rl = fold count_returned kp (Map.empty, Map.empty)"
  have "nextCursor parts kp cur newest i = Some (next_at (fst rl) (snd rl) cur newest pt)"
    unfolding nextCursor_def rl_def[symmetric] assms(3)
    by (simp add: case_prod_beta nextCursor_fold[OF assms(1,2)])
  then have "at_key (nextCursor parts kp cur newest) i = next_at (fst rl) (snd rl) cur newest pt"
    by (simp add: at_key_def)
  moreover have "at_key (fst rl) i = int (length mine)"
    unfolding rl_def assms(4) by (simp add: returned_spec) (simp add: at_key_def)
  moreover have "mine \<noteq> [] \<Longrightarrow> at_key (snd rl) i = ev_Seq (ge_Event (last mine))"
    unfolding rl_def assms(4) by (rule last_spec)
  ultimately show ?thesis using assms(3,5) by (simp add: next_at_def Let_def)
qed

lemma length_kept_part [simp]: "n \<le> length xs \<Longrightarrow> length (kept_part newest n xs) = n"
  by (simp add: kept_part_def)

lemma kept_part_kept_part: "m \<le> length xs \<Longrightarrow> n \<le> m \<Longrightarrow> kept_part newest n (kept_part newest m xs) = kept_part newest n xs"
  by (simp add: kept_part_def)

lemma filter_take_prefix: "filter P (take k xs) = take (length (filter P (take k xs))) (filter P xs)"
proof -
  have "filter P xs = filter P (take k xs) @ filter P (drop k xs)" by (metis append_take_drop_id filter_append)
  then show ?thesis by simp
qed

lemma filter_drop_suffix:
  "filter P (drop k xs) = drop (length (filter P xs) - length (filter P (drop k xs))) (filter P xs)"
proof -
  have "filter P xs = filter P (take k xs) @ filter P (drop k xs)" by (metis append_take_drop_id filter_append)
  then show ?thesis by simp
qed

lemma filter_kept_part:
  "filter P (kept_part newest k xs) = kept_part newest (length (filter P (kept_part newest k xs))) (filter P xs)"
  unfolding kept_part_def using filter_take_prefix[of P k xs] filter_drop_suffix[of P "length xs - k" xs] by simp

lemma shape_group_event_sel [simp]:
  "ge_SessionID (shape_group_event g) = ge_SessionID g" "ge_Event (shape_group_event g) = shape_event (ge_Event g)"
  by (simp_all add: shape_group_event_def)

lemma shape_event_Seq [simp]: "ev_Seq (shape_event e) = ev_Seq e"
  by (simp add: shape_event_def)

text \<open>The events returned are the oldest, or the newest, of the merged ones, cut to the text limit.\<close>

lemma groupEventsOnce_kept:
  assumes "groupEventsOnce sz members cur p = (res, nxt)" "parts = map (member_part cur p) members"
  shows "gr_Events res = kept_part (gp_Newest p) (length (gr_Events res)) (map shape_group_event (mergeEvents parts))"
    and "nxt = nextCursor parts (gr_Events res) cur (gp_Newest p)"
proof -
  let ?m = "mergeEvents parts" and ?lim = "nat (eventLimit (gp_Limit p))" and ?nw = "gp_Newest p"
  define k where "k = min ?lim (length ?m)"
  let ?out = "map shape_group_event (kept_part ?nw k ?m)"
  define n where "n = fit ?out (shape_limit (gp_Budget p)) ?nw sz"
  have "(if length ?m > ?lim then if ?nw then drop (length ?m - ?lim) ?m else take ?lim ?m else ?m) = kept_part ?nw k ?m"
    by (simp add: k_def kept_part_def)
  then have kp: "gr_Events res = kept_part ?nw n ?out" and nx: "nxt = nextCursor parts (gr_Events res) cur ?nw"
    using assms by (auto simp: groupEventsOnce_def Let_def ShapeGroupEvents_def n_def kept_part_def)
  have n: "n \<le> length ?out" using fit_kept(1)[OF n_def] by simp
  have out: "?out = kept_part ?nw k (map shape_group_event ?m)" by (simp add: kept_part_def drop_map take_map)
  have len: "length (gr_Events res) = n" using n by (simp only: kp length_kept_part)
  have "k \<le> length ?m" by (simp add: k_def)
  moreover from this have "n \<le> k" using n by simp
  ultimately show "gr_Events res = kept_part ?nw (length (gr_Events res)) (map shape_group_event ?m)"
    unfolding len unfolding kp out by (simp add: kept_part_kept_part)
  show "nxt = nextCursor parts (gr_Events res) cur ?nw" by (rule nx)
qed

lemma map_kept_part: "map f (kept_part newest n xs) = kept_part newest n (map f xs)"
  by (simp add: kept_part_def drop_map take_map)

lemma member_part_sel [simp]:
  "me_s (member_part cur p s) = s" "me_events (member_part cur p s) = er_Events (query_member cur p s)"
  "me_latest (member_part cur p s) = er_Latest (query_member cur p s)"
  "me_more (member_part cur p s) = er_More (query_member cur p s)"
  by (simp_all add: member_part_def Let_def)

lemma member_events_kept:
  assumes "distinct (map s_ID members)" "s \<in> set members"
    and "groupEventsOnce sz members cur p = (res, nxt)"
    and "mine = map ge_Event (of_session (s_ID s) (gr_Events res))"
  shows "mine = kept_part (gp_Newest p) (length mine) (map shape_event (er_Events (query_member cur p s)))"
proof -
  let ?parts = "map (member_part cur p) members" and ?nw = "gp_Newest p" and ?pt = "member_part cur p s"
  have ids: "distinct (part_ids ?parts)" using assms(1) by (simp add: comp_def)
  note kp = groupEventsOnce_kept(1)[OF assms(3) refl]
  have "of_session (s_ID s) (gr_Events res) = kept_part ?nw (length (of_session (s_ID s) (gr_Events res)))
      (of_session (s_ID s) (map shape_group_event (mergeEvents ?parts)))"
    by (subst (1 2) kp) (rule filter_kept_part)
  moreover have "of_session (s_ID s) (map shape_group_event (mergeEvents ?parts))
      = map shape_group_event (map (group_event_of ?pt) (me_events ?pt))"
    using mergeEvents_members[OF ids, of ?pt] assms(2) by (simp add: filter_map comp_def)
  ultimately have "of_session (s_ID s) (gr_Events res) = kept_part ?nw (length mine)
      (map shape_group_event (map (group_event_of ?pt) (me_events ?pt)))" using assms(4) by simp
  then have "mine = map ge_Event (kept_part ?nw (length mine) (map shape_group_event (map (group_event_of ?pt) (me_events ?pt))))"
    using assms(4) by simp
  then show ?thesis by (simp add: map_kept_part comp_def)
qed

section \<open>Paging through a group\<close>

context cursor_log
begin

lemma follow_newest:
  assumes l: "ok l" and s: "s \<le> newest l" and kept: "oldest (fold add xs l) \<le> s + 1"
  shows "after s (fold add xs l) = after s l @ after (newest l) (fold add xs l)"
proof -
  let ?l' = "fold add xs l"
  obtain ys where ys: "length ys = length xs" "after s ?l' = after s l @ ys" using follow[OF l s kept] by blast
  have l': "ok ?l'" "newest ?l' = newest l + int (length xs)" using adds_spec[OF l] by simp_all
  have "nat (newest l - s) + nat (s + 1 - oldest ?l') = nat (newest l + 1 - oldest ?l')" using s kept by simp
  then have "after (newest l) ?l' = drop (nat (newest l - s)) (after s ?l')" by (simp add: after_drop[OF l'(1)])
  moreover have "length (after (newest l) ?l') = length ys"
    using length_after[OF l'(1), of "newest l"] l'(2) kept s ys(1) by simp
  ultimately show ?thesis
    using ys(2) length_append[of "after s l" ys] by (metis append_eq_append_conv append_take_drop_id)
qed

end

lemma query_member_events:
  assumes "0 \<le> at_key cur (s_ID s)" and "log_inv (s_log s)"
    and "M = filter (kind_matches (gp_Kinds p)) (elog.after (at_key cur (s_ID s)) (s_log s))"
    and "n = nat (eventLimit (eventLimit (gp_Limit p)))"
  shows "er_Events (query_member cur p s) = kept_part (gp_Newest p) n M"
    and "er_More (query_member cur p s) = int (length M - n)"
    and "er_Latest (query_member cur p s) = latest (s_log s)"
proof -
  note lim = eventLimit_bounds[of "eventLimit (gp_Limit p)"]
  have h: "held_after (at_key cur (s_ID s)) (s_log s) = elog.after (at_key cur (s_ID s)) (s_log s)"
    by (rule held_after_eq[OF assms(2)])
  show "er_Events (query_member cur p s) = kept_part (gp_Newest p) n M"
    using assms(1,3,4) lim h
    by (simp add: query_member_def queryLocked_def Let_def select_loop_spec filter_rev_take kept_part_def)
  show "er_More (query_member cur p s) = int (length M - n)"
    using assms(1,3,4) lim h
    by (simp add: query_member_def queryLocked_def Let_def select_loop_spec rev_filter[symmetric])
  show "er_Latest (query_member cur p s) = latest (s_log s)"
    by (simp add: query_member_def queryLocked_def Let_def case_prod_beta)
qed

text \<open>
  C26: reading a group's events by its cursor loses nothing of a member whose log has
  dropped nothing after the cursor and, oldest first, repeats nothing, while the members'
  logs grow. For every such member: its matching events after the old cursor are those of the
  result followed by those after the new cursor; with \<open>Newest\<close> an event that is not in
  the result is still after the new cursor. A cursor never moves back.
\<close>

theorem group_paging_loses_nothing:
  assumes members: "distinct (map s_ID members)" "s \<in> set members" "log_inv (s_log s)"
    and cur: "c = at_key cur (s_ID s)" "0 \<le> c" "c \<le> latest (s_log s)"
    and res: "groupEventsOnce sz members cur p = (res, nxt)"
    and l': "l' = fold append_at xs (s_log s)" "elog.oldest l' \<le> c + 1"
    and mine: "mine = map ge_Event (of_session (s_ID s) (gr_Events res))"
    and matching: "matching = (\<lambda>i. map shape_event (filter (kind_matches (gp_Kinds p)) (held_after i l')))"
  shows "(\<not> gp_Newest p \<longrightarrow> matching c = mine @ matching (at_key nxt (s_ID s)))
    \<and> set (matching c) \<subseteq> set mine \<union> set (matching (at_key nxt (s_ID s)))
    \<and> c \<le> at_key nxt (s_ID s)"
proof -
  let ?parts = "map (member_part cur p) members" and ?P = "kind_matches (gp_Kinds p)" and ?l = "s_log s"
  define n where "n = nat (eventLimit (eventLimit (gp_Limit p)))"
  define M where "M = filter ?P (elog.after c ?l)"
  note q = query_member_events[OF cur(2)[unfolded cur(1)] members(3) M_def[unfolded cur(1)] n_def]
  have ids: "distinct (part_ids ?parts)" using members(1) by (simp add: comp_def)
  have inv': "log_inv l'" using elog.adds_spec[OF members(3)] l'(1) by simp
  have m: "matching i = map shape_event (filter ?P (elog.after i l'))" for i
    by (simp add: matching held_after_eq[OF inv'])
  have grown: "filter ?P (elog.after c l') = M @ filter ?P (elog.after (latest ?l) l')"
    using elog.follow_newest[OF members(3) cur(3)] l' by (simp add: M_def)
  note kp = member_events_kept[OF members(1,2) res mine, unfolded q(1)]
  have nx: "at_key nxt (s_ID s) = (if length M \<le> n \<and> length mine = length (er_Events (query_member cur p s))
      then max c (latest ?l) else if \<not> gp_Newest p \<and> mine \<noteq> [] then max c (ev_Seq (last mine)) else c)"
  proof -
    let ?mine = "of_session (s_ID s) (gr_Events res)" and ?pt = "member_part cur p s"
    have "at_key nxt (s_ID s) = (if me_more ?pt = 0 \<and> length ?mine = length (me_events ?pt) then max c (me_latest ?pt)
        else if \<not> gp_Newest p \<and> ?mine \<noteq> [] then max c (ev_Seq (ge_Event (last ?mine))) else c)"
      unfolding groupEventsOnce_kept(2)[OF res refl]
      by (rule nextCursor_spec[OF ids _ _ refl cur(1)]) (simp_all add: members(2))
    moreover have "length mine = length ?mine" "mine \<noteq> [] \<longleftrightarrow> ?mine \<noteq> []" by (simp_all add: mine)
    moreover have "ev_Seq (last mine) = ev_Seq (ge_Event (last ?mine))" if "?mine \<noteq> []"
      using that by (simp add: mine last_map)
    moreover have "me_more ?pt = 0 \<longleftrightarrow> length M \<le> n" by (simp add: q(2))
    ultimately show ?thesis by (simp add: q(3))
  qed
  show ?thesis
  proof (cases "length M \<le> n \<and> length mine = length (er_Events (query_member cur p s))")
    case all: True
    then have "mine = map shape_event M" using kp by (simp add: q(1) kept_part_def)
    moreover have "at_key nxt (s_ID s) = latest ?l" using nx all cur(3) by simp
    ultimately show ?thesis using grown cur(3) by (simp add: m)
  next
    case not_all: False
    show ?thesis
    proof (cases "\<not> gp_Newest p \<and> mine \<noteq> []")
    case some: True
    define page where "page = take (length mine) (take n M)"
    have pg: "mine = map shape_event page" using kp some by (simp add: page_def kept_part_def take_map)
    then have "page \<noteq> []" using some by simp
    moreover have "page = take (length page) (filter ?P (elog.after c l'))" by (simp add: grown page_def min_def)
    ultimately have resume: "filter ?P (elog.after c l') = page @ filter ?P (elog.after (ev_Seq (last page)) l')"
      using elog.take_filter_resume[OF inv'] by blast
    have "last page \<in> set (filter ?P (elog.after c l'))" using resume \<open>page \<noteq> []\<close> by simp
    then have "c < ev_Seq (last page)" by (simp add: elog.after_def)
    moreover have "ev_Seq (last mine) = ev_Seq (last page)" using pg \<open>page \<noteq> []\<close> by (simp add: last_map)
    ultimately have "at_key nxt (s_ID s) = ev_Seq (last page)" "c \<le> ev_Seq (last page)" using nx not_all some by simp_all
    then show ?thesis using resume pg by (simp add: m)
    next
      case False
      then have "at_key nxt (s_ID s) = c" using nx not_all by presburger
      then show ?thesis using False by auto
    qed
  qed
qed

definition demo_group :: "session list" where
  "demo_group = [demo_member ''s-a'' [(1, Event EventStarted), (3, Event EventOutput), (5, Event EventExited)],
                 demo_member ''s-b'' [(2, Event EventStarted)]]"

definition demo_group_query :: group_events_params where
  "demo_group_query = \<lparr>gp_Group = ''g'', gp_Since = [], gp_Newest = False, gp_Limit = 2, gp_Kinds = [], gp_Budget = 0\<rparr>"

theorem group_paging_loses_nothing_witness:
  "let s = hd demo_group; r = groupEventsOnce (\<lambda>_. 1) demo_group Map.empty demo_group_query;
       l' = fold append_at [(7, Event EventEnded)] (s_log s);
       matching = (\<lambda>i. map shape_event (filter (kind_matches (gp_Kinds demo_group_query)) (held_after i l')))
   in matching 0 = map ge_Event (of_session (s_ID s) (gr_Events (fst r))) @ matching (at_key (snd r) (s_ID s))"
proof -
  let ?s = "hd demo_group" and ?r = "groupEventsOnce (\<lambda>_. 1) demo_group Map.empty demo_group_query"
  let ?l' = "fold append_at [(7, Event EventEnded)] (s_log ?s)"
  have "distinct (map s_ID demo_group)" "?s \<in> set demo_group" by (simp_all add: demo_group_def)
  moreover have "log_inv (s_log ?s)" "0 \<le> latest (s_log ?s)" "elog.oldest ?l' \<le> 0 + 1"
    by (simp_all add: demo_group_def append_at_def log_append_def newEventLog_def eventSize_def Let_def log_inv_def
        elog.oldest_def upto_rec1)
  moreover have "0 = at_key Map.empty (s_ID ?s)" "?r = (fst ?r, snd ?r)" by (simp_all add: at_key_def)
  ultimately show ?thesis
    using group_paging_loses_nothing[of demo_group ?s 0 Map.empty "\<lambda>_. 1" demo_group_query "fst ?r" "snd ?r" ?l'
        "[(7, Event EventEnded)]", OF _ _ _ _ _ _ _ refl _ refl refl]
    unfolding Let_def by (simp add: demo_group_query_def)
qed

section \<open>The cursor as text\<close>

lemma runes_ascii: "list_all (\<lambda>c. byte c < 128) s \<Longrightarrow> runes s = map byte s"
  by (induction s) (simp_all add: runes_def chunks_ascii)

lemma validCursorID_chars:
  assumes "validCursorID i"
  shows "CHR '':'' \<notin> set i" "CHR '','' \<notin> set i"
proof -
  have i: "i = ''s-'' @ drop 2 i" using assms unfolding validCursorID_def by (metis append_take_drop_id)
  have no: "c \<notin> set (drop 2 i)" if "byte c < 128" "\<not> isLowerAlnum (byte c)" for c
  proof
    assume "c \<in> set (drop 2 i)"
    then have "byte c \<in> set (runes (drop 2 i))" using ascii_rune that(1) by blast
    then show False using assms that(2) by (auto simp: validCursorID_def list_all_iff)
  qed
  have "set i = {CHR ''s'', CHR ''-''} \<union> set (drop 2 i)" by (subst i) simp
  moreover have "CHR '':'' \<notin> set (drop 2 i)" "CHR '','' \<notin> set (drop 2 i)"
    by (rule no; simp add: isLowerAlnum_def)+
  ultimately show "CHR '':'' \<notin> set i" "CHR '','' \<notin> set i" by auto
qed

lemma nat_dec_chars: "c \<in> set (nat_dec n) \<Longrightarrow> 48 \<le> byte c \<and> byte c \<le> 57"
  using nat_dec_digits[of n] by (auto simp: list_all_iff is_digit_def)

lemma allDigits_nat_dec: "allDigits (nat_dec n)"
proof -
  have "list_all (\<lambda>c. byte c < 128) (nat_dec n)" using nat_dec_chars by (force simp: list_all_iff)
  then show ?thesis using nat_dec_chars by (auto simp: allDigits_def runes_ascii list_all_iff)
qed

definition cursor_entry :: "cursor \<Rightarrow> string \<Rightarrow> string" where
  "cursor_entry at i = i @ '':'' @ itoa (at_key at i)"

definition entry_ok :: "cursor \<Rightarrow> string \<Rightarrow> bool" where
  "entry_ok at i \<longleftrightarrow> validCursorID i \<and> 0 \<le> at_key at i \<and> at_key at i < 2 ^ 63"

lemma parse_entries_format:
  "list_all (entry_ok at) is \<Longrightarrow> distinct is \<Longrightarrow> dom cur \<inter> set is = {}
    \<Longrightarrow> parse_entries (map (cursor_entry at) is) cur
      = Inr (\<lambda>i. if i \<in> set is then Some (at_key at i) else cur i)"
proof (induction "is" arbitrary: cur)
  case (Cons i js)
  define n where "n = nat (at_key at i)"
  have n: "itoa (at_key at i) = nat_dec n" "at_key at i = int n" "int n < 2 ^ 63"
    using Cons.prems(1) by (simp_all add: entry_ok_def itoa_def n_def)
  have v: "validCursorID i" using Cons.prems(1) by (simp add: entry_ok_def)
  have cut: "cut_at CHR '':'' (cursor_entry at i) = (i, nat_dec n, True)"
    using cut_at_found[OF validCursorID_chars(1)[OF v]] by (simp add: cursor_entry_def n(1))
  have "cur i = None" using Cons.prems(3) by auto
  then have "parse_entries (map (cursor_entry at) (i # js)) cur = parse_entries (map (cursor_entry at) js) (cur(i \<mapsto> int n))"
    using cut v allDigits_nat_dec[of n] Atoi_nat_dec[OF n(3)] by simp
  also have "\<dots> = Inr (\<lambda>j. if j \<in> set js then Some (at_key at j) else (cur(i \<mapsto> int n)) j)"
    using Cons.prems by (intro Cons.IH) (auto simp: dom_def)
  also have "\<dots> = Inr (\<lambda>j. if j \<in> set (i # js) then Some (at_key at j) else cur j)"
    using n(2) by (auto intro!: ext)
  finally show ?case .
qed simp

text \<open>
  C29: the cursor a group query returns, passed back as text, is read as the positions
  of exactly the members it names. (Session ids have the form the manager gives them,
  a group read by cursor has at most 64 members, and sequence numbers fit an int.)
\<close>

theorem group_cursor_roundtrip:
  assumes "distinct (map s_ID members)" "length members \<le> MaxGroupCursor"
    and "\<And>s. s \<in> set members \<Longrightarrow> validCursorID (s_ID s) \<and> 0 \<le> at_key at (s_ID s) \<and> at_key at (s_ID s) < 2 ^ 63"
  shows "parseGroupCursor (formatGroupCursor members at)
    = Inr (\<lambda>i. if i \<in> s_ID ` set members then Some (at_key at i) else None)"
proof (cases "members = []")
  case True
  then show ?thesis by (simp add: parseGroupCursor_def formatGroupCursor_def)
next
  case False
  let ?es = "map (cursor_entry at) (map s_ID members)"
  have ok: "list_all (entry_ok at) (map s_ID members)" using assms(3) by (auto simp: list_all_iff entry_ok_def)
  have fmt: "formatGroupCursor members at = join_with '','' ?es"
    by (simp add: formatGroupCursor_def cursor_entry_def comp_def)
  have "CHR '','' \<notin> set e" if e: "e \<in> set ?es" for e
  proof -
    obtain i where i: "e = cursor_entry at i" "entry_ok at i" using e ok by (auto simp: list_all_iff)
    have "CHR '','' \<notin> set (nat_dec (nat (at_key at i)))" using nat_dec_chars[of "CHR '',''"] by auto
    then show ?thesis using i validCursorID_chars(2)[of i] by (simp add: cursor_entry_def entry_ok_def itoa_def)
  qed
  then have "split_at CHR '','' (formatGroupCursor members at) = ?es"
    unfolding fmt using False by (intro split_join) auto
  moreover have "formatGroupCursor members at \<noteq> []"
  proof
    assume "formatGroupCursor members at = []"
    then have "?es = [[]]" using calculation by simp
    then show False by (auto simp: cursor_entry_def)
  qed
  moreover have "parse_entries ?es Map.empty = Inr (\<lambda>i. if i \<in> set (map s_ID members) then Some (at_key at i) else None)"
    using parse_entries_format[OF ok assms(1), of Map.empty] by simp
  ultimately show ?thesis using assms(2) by (simp add: parseGroupCursor_def)
qed

theorem group_cursor_roundtrip_witness:
  "parseGroupCursor (formatGroupCursor demo_group [''s-a'' \<mapsto> 12, ''s-b'' \<mapsto> 0])
    = Inr (\<lambda>i. if i \<in> s_ID ` set demo_group then Some (at_key [''s-a'' \<mapsto> 12, ''s-b'' \<mapsto> 0] i) else None)"
  by (rule group_cursor_roundtrip)
    (auto simp: demo_group_def validCursorID_def runes_def chunks_ascii isLowerAlnum_def at_key_def)

end
