(* ===== verification/Group_Wait.thy ===== *)
theory Group_Wait
  imports Group_Events
begin

text \<open>
  Waiting for any member of a group to stop or end (\<^verbatim>\<open>GroupWait\<close> in \<^verbatim>\<open>group.go\<close>). The
  members are seen at several moments: when the wait begins, at each wake-up, when the
  deadline has passed, and while the answer is put together; each moment is the list of
  the members' sessions then, in the same order. The snapshot of the answering member
  is a parameter.
\<close>

section \<open>Definitions\<close>

record member_state =
  ms_s :: session
  ms_state :: session_state
  ms_stops :: int
  ms_reason :: string
  ms_threadID :: int
  ms_stoppedAt :: time

definition memberState :: "session \<Rightarrow> member_state" where
  "memberState s = \<lparr>ms_s = s, ms_state = s_state s, ms_stops = s_stops s, ms_reason = si_Reason (s_stop s),
     ms_threadID = si_ThreadID (s_stop s), ms_stoppedAt = s_stoppedAt s\<rparr>"

definition statesOf :: "session list \<Rightarrow> member_state list" where
  "statesOf members = map memberState members"

text \<open>The order of \<^verbatim>\<open>stoppedFirst\<close>; \<^verbatim>\<open>slices.MinFunc\<close> is \<^const>\<open>arg_min_list\<close> (the first minimum).\<close>

definition stoppedFirst :: "member_state \<Rightarrow> time \<times> string" where
  "stoppedFirst ms = (ms_stoppedAt ms, s_ID (ms_s ms))"

record group_stop =
  gs_SessionID :: string
  gs_Service :: string
  gs_Reason :: string
  gs_ThreadID :: int
  gs_StoppedAt :: time

record 'snap group_wait_result =
  gw_Session :: "'snap option"
  gw_Service :: string
  gw_Stopped :: "group_stop list"
  gw_Ended :: bool
  gw_TimedOut :: bool

definition answer_step ::
    "member_state \<times> member_state \<Rightarrow> member_state list \<times> session option \<Rightarrow> member_state list \<times> session option" where
  "answer_step p acc =
    (let (mark, ms) = p; (stopped, ended) = acc in
     if ms_state mark = StateExited then acc
     else if ms_stops ms > ms_stops mark then (stopped @ [ms], ended)
     else if ms_state ms = StateExited \<and> ended = None then (stopped, Some (ms_s ms))
     else acc)"

definition answered :: "member_state list \<Rightarrow> member_state list \<Rightarrow> session option" where
  "answered marks states =
    (let (stopped, ended) = fold answer_step (zip marks states) ([], None)
     in if stopped \<noteq> [] then Some (ms_s (arg_min_list stoppedFirst stopped)) else ended)"

definition group_stop_of :: "member_state \<Rightarrow> group_stop" where
  "group_stop_of ms = \<lparr>gs_SessionID = s_ID (ms_s ms), gs_Service = service (ms_s ms), gs_Reason = ms_reason ms,
     gs_ThreadID = ms_threadID ms, gs_StoppedAt = ms_stoppedAt ms\<rparr>"

text \<open>\<open>skip\<close> is a member, compared as a pointer: by its id, which no two members share.\<close>

definition stoppedMembers :: "session list \<Rightarrow> session option \<Rightarrow> group_stop list" where
  "stoppedMembers members skip =
    map group_stop_of (sort_key stoppedFirst
      (filter (\<lambda>ms. ms_state ms = StateStopped \<and> Some (s_ID (ms_s ms)) \<noteq> map_option s_ID skip) (statesOf members)))"

definition all_ended :: "member_state list \<Rightarrow> bool" where
  "all_ended states = (\<not> contains_func (\<lambda>ms. ms_state ms \<noteq> StateExited) states)"

text \<open>The members as \<^verbatim>\<open>stoppedMembers\<close> and then the test for the end read them.\<close>

definition groupReport ::
    "(session \<Rightarrow> 'snap) \<Rightarrow> session list \<Rightarrow> session list \<Rightarrow> session \<Rightarrow> 'snap group_wait_result" where
  "groupReport snapshot now1 now2 s = \<lparr>gw_Session = Some (snapshot s), gw_Service = service s,
     gw_Stopped = stoppedMembers now1 (Some s), gw_Ended = all_ended (statesOf now2), gw_TimedOut = False\<rparr>"

fun first_answer :: "member_state list \<Rightarrow> session list list \<Rightarrow> session option" where
  "first_answer marks [] = None"
| "first_answer marks (ms # mss) =
    (case answered marks (statesOf ms) of Some s \<Rightarrow> Some s | None \<Rightarrow> first_answer marks mss)"

definition groupWaitFrom ::
    "(session \<Rightarrow> 'snap) \<Rightarrow> member_state list \<Rightarrow> bool \<Rightarrow> session list list \<Rightarrow> session list \<Rightarrow> session list \<Rightarrow> session list
     \<Rightarrow> 'snap group_wait_result" where
  "groupWaitFrom snapshot marks newOnly wakes deadline now1 now2 =
    (let stopped = filter (\<lambda>ms. ms_state ms = StateStopped) marks in
     if all_ended marks
     then \<lparr>gw_Session = None, gw_Service = [], gw_Stopped = [], gw_Ended = True, gw_TimedOut = False\<rparr>
     else if \<not> newOnly \<and> stopped \<noteq> []
     then groupReport snapshot now1 now2 (ms_s (arg_min_list stoppedFirst stopped))
     else case first_answer marks (wakes @ [deadline]) of
       Some s \<Rightarrow> groupReport snapshot now1 now2 s
     | None \<Rightarrow> \<lparr>gw_Session = None, gw_Service = [], gw_Stopped = stoppedMembers now1 None, gw_Ended = False,
                gw_TimedOut = True\<rparr>)"

definition groupWait ::
    "(session \<Rightarrow> 'snap) \<Rightarrow> session list \<Rightarrow> bool \<Rightarrow> session list list \<Rightarrow> session list \<Rightarrow> session list \<Rightarrow> session list
     \<Rightarrow> 'snap group_wait_result" where
  "groupWait snapshot members newOnly wakes deadline now1 now2 =
    groupWaitFrom snapshot (statesOf members) newOnly wakes deadline now1 now2"

section \<open>Who answers\<close>

lemma memberState_sel [simp]:
  "ms_s (memberState s) = s" "ms_state (memberState s) = s_state s" "ms_stops (memberState s) = s_stops s"
  "ms_stoppedAt (memberState s) = s_stoppedAt s"
  by (simp_all add: memberState_def)

text \<open>What a member has done since the wait began: stopped again, or only ended.\<close>

definition stopped_since :: "session \<Rightarrow> session \<Rightarrow> bool" where
  "stopped_since before s \<longleftrightarrow> s_state before \<noteq> StateExited \<and> s_stops s > s_stops before"

definition ended_since :: "session \<Rightarrow> session \<Rightarrow> bool" where
  "ended_since before s \<longleftrightarrow> s_state before \<noteq> StateExited \<and> s_stops s \<le> s_stops before \<and> s_state s = StateExited"

lemma answer_fold:
  "fold answer_step (zip (statesOf ms) (statesOf ms')) (st, en) =
    (st @ map (memberState \<circ> snd) (filter (\<lambda>(b, s). stopped_since b s) (zip ms ms')),
     case en of Some s \<Rightarrow> Some s | None \<Rightarrow> map_option snd (find (\<lambda>(b, s). ended_since b s) (zip ms ms')))"
proof (induction ms arbitrary: ms' st en)
  case Nil
  then show ?case by (simp add: statesOf_def split: option.splits)
next
  case (Cons m ms)
  show ?case
  proof (cases ms')
    case Nil
    then show ?thesis by (simp add: statesOf_def split: option.splits)
  next
    case (Cons m' ms'')
    then show ?thesis
      using Cons.IH[of ms'']
      by (auto simp: statesOf_def answer_step_def stopped_since_def ended_since_def split: option.splits)
  qed
qed

text \<open>
  Member \<open>s\<close> answers a wait begun at \<open>ms\<close> that sees \<open>ms'\<close>: it stopped since, before every
  other that did, or none stopped and it ended.
\<close>

definition answers :: "session list \<Rightarrow> session list \<Rightarrow> session \<Rightarrow> bool" where
  "answers ms ms' s \<longleftrightarrow>
    (\<exists>b. (b, s) \<in> set (zip ms ms') \<and> stopped_since b s
      \<and> (\<forall>(b', t) \<in> set (zip ms ms'). stopped_since b' t \<longrightarrow> (s_stoppedAt s, s_ID s) \<le> (s_stoppedAt t, s_ID t)))
    \<or> (\<exists>b. (b, s) \<in> set (zip ms ms') \<and> ended_since b s)
      \<and> (\<forall>(b', t) \<in> set (zip ms ms'). \<not> stopped_since b' t)"

definition quiet_since :: "session list \<Rightarrow> session list \<Rightarrow> bool" where
  "quiet_since ms ms' \<longleftrightarrow> (\<forall>(b, t) \<in> set (zip ms ms'). \<not> stopped_since b t \<and> \<not> ended_since b t)"

lemma answered_spec:
  assumes "answered (statesOf ms) (statesOf ms') = Some s"
  shows "answers ms ms' s"
proof -
  let ?st = "filter (\<lambda>(b, s). stopped_since b s) (zip ms ms')"
  let ?xs = "map (memberState \<circ> snd) ?st"
  have ans: "answered (statesOf ms) (statesOf ms') = (if ?st \<noteq> [] then Some (ms_s (arg_min_list stoppedFirst ?xs))
      else map_option snd (find (\<lambda>(b, s). ended_since b s) (zip ms ms')))"
    unfolding answered_def by (simp add: answer_fold)
  show ?thesis
  proof (cases "?st = []")
    case True
    then have "\<forall>(b', t) \<in> set (zip ms ms'). \<not> stopped_since b' t" by (auto simp: filter_empty_conv)
    moreover have "\<exists>b. (b, s) \<in> set (zip ms ms') \<and> ended_since b s"
      using assms True by (auto simp: ans find_Some_iff set_conv_nth)
    ultimately show ?thesis unfolding answers_def by blast
  next
    case False
    let ?m = "arg_min_list stoppedFirst ?xs"
    have "?m \<in> set ?xs" using False by (intro arg_min_list_in) simp
    then obtain b t where t: "(b, t) \<in> set ?st" "?m = memberState t" by auto
    then have s: "s = t" using assms False by (simp add: ans)
    have "stoppedFirst ?m \<le> stoppedFirst x" if "x \<in> set ?xs" for x
      using f_arg_min_list_f[of ?xs stoppedFirst] that False by auto
    then have "\<forall>(b', u) \<in> set (zip ms ms'). stopped_since b' u \<longrightarrow> stoppedFirst ?m \<le> stoppedFirst (memberState u)"
      by force
    then show ?thesis unfolding answers_def using t s by (auto simp: stoppedFirst_def)
  qed
qed

lemma answered_None:
  "answered (statesOf ms) (statesOf ms') = None \<longleftrightarrow> quiet_since ms ms'"
  unfolding answered_def quiet_since_def by (auto simp: answer_fold find_None_iff filter_empty_conv)

lemma first_answer_None: "first_answer (statesOf ms) obs = None \<longleftrightarrow> list_all (quiet_since ms) obs"
  by (induction obs) (auto simp: answered_None[symmetric] split: option.splits)

lemma first_answer_Some:
  "first_answer (statesOf ms) obs = Some s \<Longrightarrow>
    \<exists>xs x ys. obs = xs @ x # ys \<and> list_all (quiet_since ms) xs \<and> answers ms x s"
proof (induction obs)
  case (Cons x obs)
  show ?case
  proof (cases "answered (statesOf ms) (statesOf x)")
    case None
    then obtain xs y ys where "obs = xs @ y # ys" "list_all (quiet_since ms) xs" "answers ms y s"
      using Cons by auto
    then have "x # obs = (x # xs) @ y # ys \<and> list_all (quiet_since ms) (x # xs) \<and> answers ms y s"
      using None by (simp add: answered_None)
    then show ?thesis by blast
  next
    case (Some t)
    then have "answers ms x s" using Cons.prems answered_spec by simp
    then have "x # obs = [] @ x # obs \<and> list_all (quiet_since ms) [] \<and> answers ms x s" by simp
    then show ?thesis by blast
  qed
qed simp

lemma all_ended_iff: "all_ended (statesOf ms) \<longleftrightarrow> (\<forall>s \<in> set ms. s_state s = StateExited)"
  by (auto simp: all_ended_def statesOf_def list_ex_iff)

text \<open>The first of the members stopped now, by the time of the stop and the id.\<close>

definition first_stopped :: "session list \<Rightarrow> session \<Rightarrow> bool" where
  "first_stopped ms s \<longleftrightarrow> s \<in> set ms \<and> s_state s = StateStopped
    \<and> (\<forall>t \<in> set ms. s_state t = StateStopped \<longrightarrow> (s_stoppedAt s, s_ID s) \<le> (s_stoppedAt t, s_ID t))"

lemma arg_min_stopped:
  assumes "\<exists>s \<in> set ms. s_state s = StateStopped"
  shows "first_stopped ms (ms_s (arg_min_list stoppedFirst (filter (\<lambda>ms. ms_state ms = StateStopped) (statesOf ms))))"
proof -
  let ?xs = "filter (\<lambda>ms. ms_state ms = StateStopped) (statesOf ms)"
  let ?m = "arg_min_list stoppedFirst ?xs"
  have ne: "?xs \<noteq> []" using assms by (auto simp: statesOf_def filter_empty_conv)
  have "?m \<in> set ?xs" using ne by (intro arg_min_list_in)
  then obtain t where t: "t \<in> set ms" "s_state t = StateStopped" "?m = memberState t" by (auto simp: statesOf_def)
  have least: "stoppedFirst ?m \<le> stoppedFirst x" if "x \<in> set ?xs" for x
    using f_arg_min_list_f[OF ne, of stoppedFirst] that by simp
  have "stoppedFirst ?m \<le> stoppedFirst (memberState u)" if "u \<in> set ms" "s_state u = StateStopped" for u
    by (rule least) (use that in \<open>simp add: statesOf_def\<close>)
  then show ?thesis using t by (auto simp: first_stopped_def stoppedFirst_def)
qed

text \<open>
  C28: waiting for any member of a group. If every member has ended, the wait says so at
  once. If it is not for a new stop and a member is stopped when it begins, it answers at
  once with the member that stopped first. Otherwise it times out exactly if at no moment
  it looked a member had stopped or ended since it began; else it answers at the first
  such moment, with the member that stopped first, or, if none stopped, with one that
  ended.
\<close>

theorem group_wait_answers:
  "let res = groupWait snapshot members newOnly wakes deadline now1 now2;
       obs = wakes @ [deadline]
   in (if \<forall>s \<in> set members. s_state s = StateExited
       then gw_Session res = None \<and> gw_Ended res \<and> \<not> gw_TimedOut res
       else if \<not> newOnly \<and> (\<exists>s \<in> set members. s_state s = StateStopped)
       then \<not> gw_TimedOut res
         \<and> (\<exists>s. first_stopped members s \<and> gw_Session res = Some (snapshot s) \<and> gw_Service res = service s)
       else if list_all (quiet_since members) obs then gw_TimedOut res \<and> gw_Session res = None
       else \<not> gw_TimedOut res
         \<and> (\<exists>xs x ys s. obs = xs @ x # ys \<and> list_all (quiet_since members) xs
              \<and> answers members x s \<and> gw_Session res = Some (snapshot s) \<and> gw_Service res = service s))"
proof -
  let ?res = "groupWait snapshot members newOnly wakes deadline now1 now2"
  let ?stopped = "filter (\<lambda>ms. ms_state ms = StateStopped) (statesOf members)"
  consider (ended) "\<forall>s \<in> set members. s_state s = StateExited"
    | (stopped) "\<not> (\<forall>s \<in> set members. s_state s = StateExited)" "\<not> newOnly \<and> (\<exists>s \<in> set members. s_state s = StateStopped)"
    | (new) "\<not> (\<forall>s \<in> set members. s_state s = StateExited)" "\<not> (\<not> newOnly \<and> (\<exists>s \<in> set members. s_state s = StateStopped))"
    by blast
  then show ?thesis
  proof cases
    case ended
    then have "all_ended (statesOf members)" by (simp add: all_ended_iff)
    then show ?thesis using ended by (simp add: groupWait_def groupWaitFrom_def Let_def)
  next
    case stopped
    then have "\<not> all_ended (statesOf members)" by (simp add: all_ended_iff)
    moreover have "?stopped \<noteq> []" using stopped by (auto simp: statesOf_def filter_empty_conv)
    ultimately have "?res = groupReport snapshot now1 now2 (ms_s (arg_min_list stoppedFirst ?stopped))"
      using stopped by (simp add: groupWait_def groupWaitFrom_def Let_def)
    moreover have "first_stopped members (ms_s (arg_min_list stoppedFirst ?stopped))"
      by (rule arg_min_stopped) (use stopped in blast)
    ultimately show ?thesis using stopped unfolding Let_def groupReport_def by auto
  next
    case new
    then have "\<not> all_ended (statesOf members)" by (simp add: all_ended_iff)
    moreover have "newOnly \<or> ?stopped = []" using new by (auto simp: statesOf_def filter_empty_conv)
    ultimately have res: "?res = (case first_answer (statesOf members) (wakes @ [deadline]) of
         Some s \<Rightarrow> groupReport snapshot now1 now2 s
       | None \<Rightarrow> \<lparr>gw_Session = None, gw_Service = [], gw_Stopped = stoppedMembers now1 None, gw_Ended = False,
                  gw_TimedOut = True\<rparr>)"
      by (auto simp: groupWait_def groupWaitFrom_def Let_def)
    show ?thesis
      unfolding Let_def if_not_P[OF new(1)] if_not_P[OF new(2)]
      using first_answer_None[of members "wakes @ [deadline]"] first_answer_Some[of members "wakes @ [deadline]"]
      by (cases "first_answer (statesOf members) (wakes @ [deadline])") (auto simp: groupReport_def res simp del: list_all_append)
  qed
qed

theorem group_wait_answers_witness:
  "let a = demo_member ''s-a'' []; b = demo_member ''s-b'' [];
       a' = a\<lparr>s_state := StateStopped, s_stops := 1, s_stoppedAt := 9\<rparr>;
       b' = b\<lparr>s_state := StateStopped, s_stops := 1, s_stoppedAt := 8\<rparr>
   in gw_Session (groupWait s_ID [a', b'] False [] [] [] []) = Some ''s-b''
     \<and> gw_Session (groupWait s_ID [a, b] True [] [a', b'] [a', b'] [a', b']) = Some ''s-b''"
proof -
  let ?a = "demo_member ''s-a'' []" and ?b = "demo_member ''s-b'' []"
  let ?a' = "?a\<lparr>s_state := StateStopped, s_stops := 1, s_stoppedAt := 9\<rparr>"
  let ?b' = "?b\<lparr>s_state := StateStopped, s_stops := 1, s_stoppedAt := 8\<rparr>"
  have st: "s_state ?a = StateStarting" "s_state ?b = StateStarting" "s_stops ?a = 0" "s_stops ?b = 0"
    by (simp_all add: demo_member_def newSession_def)
  have "gw_Session (groupWait s_ID [?a', ?b'] False [] [] [] []) = Some ''s-b''"
    using group_wait_answers[of s_ID "[?a', ?b']" False "[]" "[]" "[]" "[]"]
    by (auto simp: Let_def first_stopped_def less_eq_prod_def)
  moreover have "gw_Session (groupWait s_ID [?a, ?b] True [] [?a', ?b'] [?a', ?b'] [?a', ?b']) = Some ''s-b''"
    using group_wait_answers[of s_ID "[?a, ?b]" True "[]" "[?a', ?b']" "[?a', ?b']" "[?a', ?b']"]
    by (auto simp: Let_def quiet_since_def stopped_since_def ended_since_def st answers_def
        append_eq_Cons_conv Cons_eq_append_conv less_eq_prod_def)
  ultimately show ?thesis by (simp add: Let_def)
qed

end
