(* ===== verification/Starting.thy ===== *)
theory Starting
  imports Leaving Group_Wait
begin

text \<open>
  A session's part in its own start: how the manager makes it (\<^verbatim>\<open>create\<close> in \<^verbatim>\<open>manager.go\<close>),
  the start-up sequence with the adapter (\<^verbatim>\<open>configure\<close> in \<^verbatim>\<open>session.go\<close>) and a test run's
  runner (\<^verbatim>\<open>testrun.go\<close>). What the world answers is a parameter of each step: the adapter
  process, the order in which channels become ready, the runner's output.
\<close>

section \<open>Parameters of a start\<close>

record launch_spec =
  ls_Project :: string
  ls_Program :: string
  ls_Args :: "string list"
  ls_Cwd :: string
  ls_Env :: "(string \<times> string) list"
  ls_NoBuild :: bool
  ls_StopOnEntry :: bool
  ls_Options :: "(string \<times> string) list"
  ls_ClientDir :: string
  ls_VirtualEnv :: string

record container_spec =
  cs_Ref :: string
  cs_PID :: int
  cs_Map :: "path_pair list"
  cs_Service :: string
  cs_Project :: string
  cs_RequireDotnet :: bool

record attach_spec =
  as_PID :: int
  as_Container :: "container_spec option"

record test_spec =
  ts_Filter :: string
  ts_Framework :: string

record container_launch_spec =
  cls_Ref :: string
  cls_Service :: string
  cls_Project :: string
  cls_Map :: "path_pair list"
  cls_StopOnEntry :: bool

record start_params = launch_spec +
  sp_Lang :: string
  sp_Breakpoints :: "breakpoint_spec list"
  sp_LeasePolicy :: string
  sp_NoRecord :: bool
  sp_Exceptions :: string
  sp_Attach :: "attach_spec option"
  sp_Test :: "test_spec option"
  sp_ContainerLaunch :: "container_launch_spec option"
  sp_Adapter :: string
  sp_Group :: string

definition spec_of :: "start_params \<Rightarrow> launch_spec" where
  "spec_of p = launch_spec.truncate p"

section \<open>Making a session\<close>

definition logStarted :: "time \<Rightarrow> session \<Rightarrow> session" where
  "logStarted now s =
    log_event now ((Event EventStarted)\<lparr>ev_Client := cl_ID (s_starter s), ev_Program := s_Program s,
      ev_Lease := Some (lease_view (s_lease s)), ev_Action := s_mode s\<rparr>) s"

text \<open>\<open>recording\<close> is what the store's \<^verbatim>\<open>Record\<close> returns: none without a store or when it fails.\<close>

definition created ::
    "time \<Rightarrow> string \<Rightarrow> client \<Rightarrow> start_params \<Rightarrow> lease_policy \<Rightarrow> launch \<Rightarrow> string \<Rightarrow> (recorder \<times> string) option \<Rightarrow> session" where
  "created now sid c p policy la mode recording =
    (let s0 = (newSession now sid (sp_Lang p) mode la c policy)\<lparr>s_group := sp_Group p,
           s_excModes := withMode [] (cl_ID c) (sp_Exceptions p) False\<rparr>;
         s1 = (case recording of Some (r, path) \<Rightarrow> if sp_NoRecord p then s0 else attachRecorder r path s0 | None \<Rightarrow> s0);
         s2 = logStarted now s1
     in if sp_Exceptions p \<noteq> ExceptionsNone
        then log_event now ((Event EventExceptions)\<lparr>ev_Client := cl_ID c, ev_Action := sp_Exceptions p\<rparr>) s2
        else s2)"

section \<open>Configuration\<close>

text \<open>\<^verbatim>\<open>startAdapter\<close>, once its process runs and the client is connected.\<close>

definition adapterStarted :: "session \<Rightarrow> session" where
  "adapterStarted s = s\<lparr>s_client := True\<rparr>"

text \<open>
  The launch (or attach) request is sent without waiting for its answer, which is kept for
  later. The events that precede the answer are the adapter's to choose, as with any request.
\<close>

definition start_request :: "launch \<Rightarrow> dap_request" where
  "start_request la = (if la_Request la = ''attach'' then AttachReq (la_Arguments la) else LaunchReq (la_Arguments la))"

text \<open>
  Which channel \<^verbatim>\<open>waitInitialized\<close> hears from first: launch's answer, the end of the
  connection, or neither (then the initialized event or the deadline decides).
\<close>

datatype first_heard = LaunchAnswered | ConnectionEnded | NeitherHeard

definition waitInitialized ::
    "time \<Rightarrow> inter list \<Rightarrow> first_heard \<Rightarrow> string \<Rightarrow> (dap_error + dap_response) \<Rightarrow> unit action" where
  "waitInitialized now meanwhile heard ctxErr resp s =
    (let s' = inters now meanwhile s;
         wait = (if s_initialized s' then Inr ()
                 else Inl (PlainError [Lit (''wait for the adapter to initialize: '' @ ctxErr)]))
     in (s', case heard of
          LaunchAnswered \<Rightarrow> (case resp of Inl e \<Rightarrow> Inl (adapterErr e) | Inr _ \<Rightarrow> wait)
        | ConnectionEnded \<Rightarrow> Inl (NewError CodeAdapterFailed [Lit ''the debug adapter exited during start-up''])
        | NeitherHeard \<Rightarrow> wait))"

text \<open>
  How a start's time passes: what happens while it waits for the initialized event, what is
  heard first, the text of the context's error, and whether the context has ended after the
  hook and before launch's answer. The hook is a client of the session.
\<close>

record course =
  cr_meanwhile :: "inter list"
  cr_heard :: first_heard
  cr_ctxErr :: string
  cr_hook :: "unit action option"
  cr_endedInHook :: bool
  cr_endedWaiting :: bool
  cr_terminal :: bool

definition map_err :: "(error \<Rightarrow> error) \<Rightarrow> 'a action \<Rightarrow> 'a action" where
  "map_err f a s = (case a s of (s', Inl e) \<Rightarrow> (s', Inl (f e)) | (s', Inr x) \<Rightarrow> (s', Inr x))"

definition run_hook :: "course \<Rightarrow> unit action" where
  "run_hook C =
    (case cr_hook C of None \<Rightarrow> ret ()
     | Some h \<Rightarrow> bind_act h (\<lambda>_.
         if cr_endedInHook C then fail (PlainError [Lit (''configure the session: '' @ cr_ctxErr C)]) else ret ()))"

definition await_launch :: "env \<Rightarrow> launch \<Rightarrow> course \<Rightarrow> (dap_error + dap_response) \<Rightarrow> unit action" where
  "await_launch E la C resp =
    (if cr_endedWaiting C
     then fail (PlainError [Lit (''wait for '' @ (if la_Request la = ''attach'' then ''attach'' else ''launch'') @ '': '' @ cr_ctxErr C)])
     else case resp of Inl e \<Rightarrow> fail (startErr (env_quote E) la (adapterErr e)) | Inr _ \<Rightarrow> ret ())"

definition configure :: "env \<Rightarrow> launch \<Rightarrow> breakpoint_spec list \<Rightarrow> course \<Rightarrow> unit action" where
  "configure E la bps C =
    bind_act (initialize E (la_AdapterID la) (cr_terminal C)) (\<lambda>_.
    bind_act (\<lambda>s. case Do E (start_request la) s of (s', r) \<Rightarrow> (s', Inr r)) (\<lambda>resp.
    bind_act (map_err (startErr (env_quote E) la)
      (waitInitialized (env_now E) (cr_meanwhile C) (cr_heard C) (cr_ctxErr C) resp)) (\<lambda>_.
    bind_act (configurationPhase E bps) (\<lambda>_.
    bind_act (run_hook C) (\<lambda>_.
    bind_act (map_err (startErr (env_quote E) la) (configurationDone E)) (\<lambda>_.
    bind_act (await_launch E la C resp) (\<lambda>_.
      change configured)))))))"

text \<open>What the adapter printed before a start failed.\<close>

abbreviation maxFailedStartLines :: nat where "maxFailedStartLines \<equiv> 20"
abbreviation maxFailedStartBytes :: nat where "maxFailedStartBytes \<equiv> 4096"

definition failedStartOutput :: "session \<Rightarrow> string" where
  "failedStartOutput s =
    (let written = concat (map ol_Text (filter (\<lambda>l. ol_Category l = ''stderr'' \<or> ol_Category l = ''important'') (outputSince 0 (s_log s))));
         trimmed = rev (dropWhile (\<lambda>c. c = CHR 0x0A) (rev written));
         lines = split_at (CHR 0x0A) trimmed
     in if trimmed = [] then []
        else CutText (join_with [CHR 0x0A] (drop (length lines - maxFailedStartLines) lines)) maxFailedStartBytes True)"

section \<open>Test runs\<close>

abbreviation runnerTailLines :: nat where "runnerTailLines \<equiv> 100"

record test_run =
  tr_name :: string
  tr_code :: "int option"
  tr_tail :: "string list"
  tr_started :: bool
  tr_hostPIDs :: "int list"

record test_command =
  tc_Path :: string
  tc_Args :: "string list"
  tc_Program :: string
  tc_HostPID :: "string \<Rightarrow> int option"
  tc_Failure :: "int \<Rightarrow> string \<Rightarrow> error"
  tc_Launch :: "launch option"

definition runnerName :: "test_command \<Rightarrow> string" where
  "runnerName tc =
    (let base = Base (tc_Path tc);
         name = (if drop (length base - 4) base = ''.exe'' \<and> 4 \<le> length base then take (length base - 4) base else base)
     in if tc_Args tc \<noteq> [] then name @ '' '' @ hd (tc_Args tc) else name)"

definition envList :: "(string \<times> string) list \<Rightarrow> string list" where
  "envList env = map (\<lambda>k. k @ ''='' @ the (map_of env k)) (sort (remdups (map fst env)))"

definition new_run :: "test_command \<Rightarrow> test_run" where
  "new_run tc = \<lparr>tr_name = runnerName tc, tr_code = None, tr_tail = [], tr_started = False, tr_hostPIDs = []\<rparr>"

text \<open>
  One line of the runner's output. \<open>first\<close> is the test host named first (0: none yet); what
  goes to the channel of host ids is appended to \<open>tr_hostPIDs\<close>.
\<close>

definition pump_line :: "time \<Rightarrow> string \<Rightarrow> (string \<Rightarrow> int option) option \<Rightarrow> string \<Rightarrow> session \<times> test_run \<times> int \<Rightarrow> session \<times> test_run \<times> int" where
  "pump_line now category host line st =
    (case st of (s, run, first) \<Rightarrow>
       let s1 = appendOutputLocked now category (line @ [CHR 0x0A]) s;
           t = tr_tail run @ [line];
           run1 = run\<lparr>tr_tail := (if length t > runnerTailLines then drop (length t - runnerTailLines) t else t)\<rparr>
       in case host of None \<Rightarrow> (s1, run1, first)
          | Some f \<Rightarrow> (case f line of None \<Rightarrow> (s1, run1, first)
            | Some pid \<Rightarrow>
                if pid = first then (s1, run1, first)
                else if first = 0 then (s1, run1\<lparr>tr_hostPIDs := tr_hostPIDs run1 @ [pid]\<rparr>, pid)
                else (appendOutputLocked now ''stderr'' (''eyedbg: test host '' @ itoa pid @ '' is not debugged (only the first one, ''
                        @ itoa first @ '', is): to debug one target framework, pass --framework'' @ [CHR 0x0A]) s1, run1, first)))"

definition pump :: "time \<Rightarrow> string \<Rightarrow> (string \<Rightarrow> int option) option \<Rightarrow> string list \<Rightarrow> session \<Rightarrow> test_run \<Rightarrow> session \<times> test_run \<times> int" where
  "pump now category host lines s run = fold (pump_line now category host) lines (s, run, 0)"

definition finishRun :: "time \<Rightarrow> test_run \<Rightarrow> session \<Rightarrow> session" where
  "finishRun now run s =
    (case tr_code run of None \<Rightarrow> s
     | Some code \<Rightarrow>
         if s_state s = StateExited then s
         else endLocked now (''the test run finished: '' @ tr_name run @ '' exited with code '' @ itoa code)
           (log_event now ((Event EventExited)\<lparr>ev_ExitCode := Some code\<rparr>) (s\<lparr>s_exitCode := Some code\<rparr>)))"

text \<open>\<^verbatim>\<open>watchRunner\<close>, once the runner exited with \<open>code\<close>; \<open>meanwhile\<close> is the wait for the adapter.\<close>

definition watchRunner :: "time \<Rightarrow> inter list \<Rightarrow> int \<Rightarrow> test_run \<Rightarrow> session \<Rightarrow> session \<times> test_run" where
  "watchRunner now meanwhile code run s =
    (let run' = run\<lparr>tr_code := Some code\<rparr>
     in (if tr_started run then closeRecording (finishRun now run' (inters now meanwhile s)) else s, run'))"

definition stoppedWhileStarting :: "session \<Rightarrow> error" where
  "stoppedWhileStarting s = NewError CodeSessionExited [Lit (''session '' @ s_ID s @ '' was stopped while starting'')]"

definition noTestHost :: error where
  "noTestHost = NewError CodeNoTestHost [Lit ''no test host waited for the debugger within 5m0s'']"

text \<open>
  What \<^verbatim>\<open>waitHostPID\<close> hears while the session is live. Without a host in its channel, waiting
  for one ends with the deadline.
\<close>

datatype host_heard = HostNamed | RunnerDone int | DeadlineExceeded | Canceled string

definition waitHostPID :: "test_command \<Rightarrow> host_heard \<Rightarrow> test_run \<Rightarrow> session \<Rightarrow> int result" where
  "waitHostPID tc heard run s =
    (if s_state s = StateExited then Inl (stoppedWhileStarting s)
     else case heard of
       HostNamed \<Rightarrow> (case tr_hostPIDs run of pid # _ \<Rightarrow> Inr pid | [] \<Rightarrow> Inl noTestHost)
     | RunnerDone code \<Rightarrow>
         if s_stopReason s \<noteq> [] then Inl (stoppedWhileStarting s)
         else Inl (tc_Failure tc code (join_with [CHR 0x0A] (tr_tail run)))
     | DeadlineExceeded \<Rightarrow> Inl noTestHost
     | Canceled e \<Rightarrow> Inl (PlainError [Lit (''wait for the test host: '' @ e)]))"

text \<open>\<^verbatim>\<open>prepareHost\<close>: the session takes the driver's settings for its test host.\<close>

definition take_host :: "int \<Rightarrow> launch \<Rightarrow> session \<Rightarrow> session" where
  "take_host pid la s = s\<lparr>s_pid := pid, s_excFilters := la_ExceptionFilters la, s_adapter := la_AdapterName la,
     s_pauseUnsupported := la_PauseUnsupported la, s_setByEval := la_SetByEval la, s_exitCodeUnknown := la_ExitCodeUnknown la\<rparr>"

section \<open>What the runner's output leaves behind\<close>

definition last_lines :: "nat \<Rightarrow> 'a list \<Rightarrow> 'a list" where
  "last_lines n xs = drop (length xs - n) xs"

lemma last_lines_snoc: "last_lines n (last_lines n xs @ [x]) = last_lines n (xs @ [x])"
  by (cases "n \<le> length xs") (simp_all add: last_lines_def Suc_diff_le)

lemma last_lines_append:
  "last_lines n (last_lines n xs @ ys) = last_lines n (xs @ ys)"
proof (induction ys rule: rev_induct)
  case Nil
  then show ?case by (simp add: last_lines_def)
next
  case (snoc y ys)
  then show ?case
    using last_lines_snoc[of n "last_lines n xs @ ys" y] last_lines_snoc[of n "xs @ ys" y] by simp
qed

text \<open>The test hosts a runner's lines name, and which of them the session is told of.\<close>

definition named_hosts :: "(string \<Rightarrow> int option) option \<Rightarrow> string list \<Rightarrow> int list" where
  "named_hosts host lines =
    (case host of None \<Rightarrow> [] | Some f \<Rightarrow> filter (\<lambda>p. p \<noteq> 0) (List.map_filter f lines))"

lemma pump_line_tail:
  "tr_tail (fst (snd (pump_line now cat host line (s, run, first)))) = last_lines runnerTailLines (tr_tail run @ [line])"
  by (simp add: pump_line_def Let_def last_lines_def split: option.split)

lemma pump_tail:
  "tr_tail (fst (snd (fold (pump_line now cat host) lines (s, run, first))))
    = (if lines = [] then tr_tail run else last_lines runnerTailLines (tr_tail run @ lines))"
proof (induction lines arbitrary: s run first)
  case (Cons line lines)
  obtain s' run' first' where l: "pump_line now cat host line (s, run, first) = (s', run', first')"
    by (cases "pump_line now cat host line (s, run, first)") auto
  have "tr_tail run' = last_lines runnerTailLines (tr_tail run @ [line])"
    using pump_line_tail[of now cat host line s run first] l by simp
  then show ?case using Cons.IH[of s' run' first'] l last_lines_append[of runnerTailLines "tr_tail run @ [line]" lines] by simp
qed simp

lemma pump_hosts:
  "(case fold (pump_line now cat host) lines (s, run, first) of (s', run', first') \<Rightarrow>
     tr_hostPIDs run' = tr_hostPIDs run @ (if first = 0 then take 1 (named_hosts host lines) else [])
     \<and> (first' = (if first = 0 then hd (named_hosts host lines @ [0]) else first)))"
proof (induction lines arbitrary: s run first)
  case (Cons line lines)
  obtain s' run' first' where l: "pump_line now cat host line (s, run, first) = (s', run', first')"
    by (cases "pump_line now cat host line (s, run, first)") auto
  show ?case using Cons.IH[where s = s' and run = run' and first = first'] l
    by (auto simp: pump_line_def Let_def named_hosts_def map_filter_simps split: option.splits if_splits prod.splits)
qed (simp add: named_hosts_def split: option.split)

end
