(* ===== verification/Manager.thy ===== *)
theory Manager
  imports Starting
begin

text \<open>
  The manager of a daemon's sessions (\<^verbatim>\<open>manager.go\<close>, \<^verbatim>\<open>claims.go\<close> and the manager's part
  of \<^verbatim>\<open>group.go\<close> and \<^verbatim>\<open>modes.go\<close>): the map of sessions, the sessions an earlier daemon
  lost, the claims on containers, and ending sessions.

  Sessions are shared and compared as pointers, and an id may be used again once its
  session is forgotten. So the manager has a heap: a pointer is a position in \<open>mg_heap\<close>,
  and a session keeps its position for good. The store of metadata is the list of the
  calls made to it (\<open>mg_store\<close>, none without a store); a failing call is only logged. \<open>mg_live\<close>
  holds the counts reported to \<^verbatim>\<open>onLive\<close>. Go's maps are association lists.
\<close>

section \<open>State\<close>

type_synonym ptr = nat

record session_info =
  sn_ID :: string
  sn_Lang :: string
  sn_Program :: string
  sn_State :: session_state
  sn_PID :: int
  sn_CreatedAt :: time
  sn_Stop :: "stop_info option"
  sn_ExitCode :: "int option"
  sn_EndReason :: string
  sn_Lease :: "lease_info option"
  sn_Clients :: "client_info list"
  sn_Recording :: string
  sn_Mode :: string
  sn_Adapter :: string
  sn_Group :: string
  sn_Container :: "container_info option"
  sn_StoppedAt :: "time option"

datatype store_op = StoreSave session_info | StoreRemove string

record manager =
  mg_heap :: "session list"
  mg_sessions :: "(string \<times> ptr) list"
  mg_lost :: "(string \<times> session_info) list"
  mg_claims :: "(string \<times> ptr) list"
  mg_store :: "store_op list option"
  mg_live :: "nat list"

definition sess :: "manager \<Rightarrow> ptr \<Rightarrow> session" where
  "sess m p = mg_heap m ! p"

definition on_session :: "ptr \<Rightarrow> (session \<Rightarrow> session) \<Rightarrow> manager \<Rightarrow> manager" where
  "on_session p f m = m\<lparr>mg_heap := (mg_heap m)[p := f (sess m p)]\<rparr>"

definition infoLocked :: "session \<Rightarrow> session_info" where
  "infoLocked s = \<lparr>sn_ID = s_ID s, sn_Lang = s_Lang s, sn_Program = s_Program s, sn_State = s_state s,
     sn_PID = s_pid s, sn_CreatedAt = s_CreatedAt s,
     sn_Stop = (if s_state s = StateStopped then Some (s_stop s) else None),
     sn_ExitCode = s_exitCode s, sn_EndReason = (if s_state s = StateExited then s_endReason s else []),
     sn_Lease = Some (lease_view (s_lease s)), sn_Clients = clientsLocked s, sn_Recording = s_recPath s,
     sn_Mode = s_mode s, sn_Adapter = s_adapter s, sn_Group = s_group s, sn_Container = s_container s,
     sn_StoppedAt = (if s_state s = StateStopped then Some (s_stoppedAt s) else None)\<rparr>"

text \<open>\<^verbatim>\<open>NewManager\<close>: the metadata an earlier daemon left in the store (none without a store).\<close>

definition NewManager :: "session_info list option \<Rightarrow> manager" where
  "NewManager left_behind = \<lparr>mg_heap = [], mg_sessions = [],
     mg_lost = (case left_behind of None \<Rightarrow> []
       | Some is \<Rightarrow> fold (\<lambda>i l. aput (sn_ID i) (i\<lparr>sn_State := StateLost\<rparr>) l) is []),
     mg_claims = [], mg_store = map_option (\<lambda>_. []) left_behind, mg_live = []\<rparr>"

section \<open>The session map\<close>

definition exited :: "manager \<Rightarrow> ptr \<Rightarrow> bool" where
  "exited m p = (s_state (sess m p) = StateExited)"

definition Live :: "manager \<Rightarrow> nat" where
  "Live m = length (filter (\<lambda>p. \<not> exited m p) (map snd (mg_sessions m)))"

definition notify :: "manager \<Rightarrow> manager" where
  "notify m = m\<lparr>mg_live := mg_live m @ [Live m]\<rparr>"

definition names :: "manager \<Rightarrow> ptr \<Rightarrow> bool" where
  "names m p = (map_of (mg_sessions m) (s_ID (sess m p)) = Some p)"

definition mgr_add :: "ptr \<Rightarrow> manager \<Rightarrow> manager" where
  "mgr_add p m = notify (m\<lparr>mg_sessions := aput (s_ID (sess m p)) p (mg_sessions m)\<rparr>)"

definition mgr_remove :: "string \<Rightarrow> manager \<Rightarrow> manager" where
  "mgr_remove i m = notify (m\<lparr>mg_sessions := adel i (mg_sessions m)\<rparr>)"

definition removeSession :: "ptr \<Rightarrow> manager \<Rightarrow> manager \<times> bool" where
  "removeSession p m =
    (if names m p then (notify (m\<lparr>mg_sessions := adel (s_ID (sess m p)) (mg_sessions m)\<rparr>), True) else (m, False))"

definition saveIfLive :: "ptr \<Rightarrow> manager \<Rightarrow> manager" where
  "saveIfLive p m =
    (case mg_store m of None \<Rightarrow> m
     | Some ops \<Rightarrow> if \<not> names m p then m
         else m\<lparr>mg_store := Some (ops @ [StoreSave (infoLocked (sess m p))])\<rparr>)"

definition forget :: "string \<Rightarrow> manager \<Rightarrow> manager" where
  "forget i m = m\<lparr>mg_store := map_option (\<lambda>ops. ops @ [StoreRemove i]) (mg_store m)\<rparr>"

definition only_session :: "manager \<Rightarrow> ptr result" where
  "only_session m =
    (let all = map snd (mg_sessions m); live = filter (\<lambda>p. \<not> exited m p) all in
     if all = [] then Inl (NewError CodeNoSession [Lit ''there are no debug sessions''])
     else if length live = 1 then Inr (live ! 0)
     else if length all = 1 then Inr (all ! 0)
     else let shown = (if live = [] then all else live) in
       Inl (NewError CodeNoSession
         [Lit (''several sessions exist: '' @ join_with '', '' (sort (map (\<lambda>p. s_ID (sess m p)) shown)))]))"

definition mgr_Get :: "string \<Rightarrow> manager \<Rightarrow> ptr result" where
  "mgr_Get i m =
    (if i = [] then only_session m
     else case map_of (mg_sessions m) i of
       Some p \<Rightarrow> Inr p
     | None \<Rightarrow>
         if map_of (mg_lost m) i \<noteq> None
         then Inl (NewError CodeNoSession [Lit (''session '' @ i @ '' was lost: eyedbgd exited while it was live'')])
         else Inl (NewError CodeNoSession [Lit (''no session '' @ i)]))"

definition mgr_List :: "manager \<Rightarrow> session_info list" where
  "mgr_List m = sort_key sn_CreatedAt (map snd (mg_lost m) @ map (\<lambda>(i, p). infoLocked (sess m p)) (mg_sessions m))"

text \<open>\<^verbatim>\<open>newID\<close>: \<open>texts\<close> are the random texts drawn, one after another, from the base32 alphabet.\<close>

definition lower_char :: "char \<Rightarrow> char" where
  "lower_char c = (if is_upper c then char_of (byte c + 32) else c)"

definition newID :: "string list \<Rightarrow> manager \<Rightarrow> string option" where
  "newID texts m =
    find (\<lambda>i. map_of (mg_sessions m) i = None \<and> map_of (mg_lost m) i = None)
      (map (\<lambda>t. ''s-'' @ map lower_char (take 4 t)) texts)"

section \<open>Claims\<close>

abbreviation launchClaimSuffix :: string where "launchClaimSuffix \<equiv> ''launch''"

definition claimKey :: "string \<Rightarrow> int \<Rightarrow> string" where
  "claimKey containerID pid = containerID @ [SL] @ itoa pid"

definition launchClaimKey :: "string \<Rightarrow> string" where
  "launchClaimKey containerID = containerID @ [SL] @ launchClaimSuffix"

definition shortID :: "string \<Rightarrow> string" where
  "shortID i = (if length i > 12 then take 12 i else i)"

definition has_prefix :: "string \<Rightarrow> string \<Rightarrow> bool" where
  "has_prefix s p = (take (length p) s = p)"

text \<open>
  The two critical sections of \<^verbatim>\<open>take\<close>: looking for claims in the way and, if there are
  none, claiming; and taking over what ended sessions still hold.
\<close>

definition take_scan :: "ptr \<Rightarrow> string \<Rightarrow> string \<Rightarrow> (string \<Rightarrow> bool) \<Rightarrow> manager \<Rightarrow> manager \<times> (string \<times> ptr) list" where
  "take_scan p containerID key conflicts m =
    (let found = filter (\<lambda>(k, h). has_prefix k (containerID @ [SL]) \<and> conflicts k) (mg_claims m) in
     if found = []
     then (on_session p (\<lambda>s. s\<lparr>s_claimKey := key\<rparr>) (m\<lparr>mg_claims := aput key p (mg_claims m)\<rparr>), [])
     else (m, found))"

definition drop_claim :: "string \<times> ptr \<Rightarrow> (string \<times> ptr) list \<Rightarrow> (string \<times> ptr) list" where
  "drop_claim c claims = (if map_of claims (fst c) = Some (snd c) then adel (fst c) claims else claims)"

definition take_over :: "(string \<times> ptr) list \<Rightarrow> manager \<Rightarrow> manager" where
  "take_over found m = m\<lparr>mg_claims := fold drop_claim found (mg_claims m)\<rparr>"

lemma length_drop_claim: "length (drop_claim c claims) \<le> length claims"
  by (simp add: drop_claim_def adel_def)

lemma length_drop_claims: "length (fold drop_claim found claims) \<le> length claims"
  by (induction found arbitrary: claims) (auto intro: order_trans[OF _ length_drop_claim])

lemma filter_key_first:
  assumes "filter (\<lambda>(k, h). P k) xs = (k, h) # ys"
  shows "map_of xs k = Some h"
proof -
  have "(k, h) \<in> set (filter (\<lambda>(k, h). P k) xs)" by (simp add: assms)
  then have "P k" by simp
  with assms show ?thesis by (induction xs) (auto split: if_splits)
qed

lemma drop_first_claim: "map_of claims k = Some h \<Longrightarrow> length (drop_claim (k, h) claims) < length claims"
  by (auto simp: drop_claim_def adel_def dest!: map_of_SomeD intro: length_filter_less)

lemma take_over_shrinks:
  assumes "take_scan p cid key conflicts m = (m', c # cs)"
  shows "length (mg_claims (take_over (c # cs) m')) < length (mg_claims m)"
proof -
  obtain k h where c: "c = (k, h)" by (cases c)
  have m: "m' = m" and f: "filter (\<lambda>(k, h). has_prefix k (cid @ [SL]) \<and> conflicts k) (mg_claims m) = (k, h) # cs"
    using assms by (auto simp: take_scan_def Let_def c split: if_splits)
  show ?thesis
    using length_drop_claims[of cs "drop_claim (k, h) (mg_claims m)"] drop_first_claim[OF filter_key_first[OF f]]
    by (simp add: take_over_def m c)
qed

text \<open>
  \<^verbatim>\<open>take\<close> itself, with nothing else between its critical sections. It ends because taking
  over removes at least one claim.
\<close>

function take_claim ::
    "ptr \<Rightarrow> string \<Rightarrow> string \<Rightarrow> (string \<Rightarrow> bool) \<Rightarrow> (string \<times> ptr \<Rightarrow> error) \<Rightarrow> manager \<Rightarrow> manager \<times> unit result" where
  "take_claim p containerID key conflicts refuse m =
    (case take_scan p containerID key conflicts m of
       (m', []) \<Rightarrow> (m', Inr ())
     | (m', c # cs) \<Rightarrow>
         (case find (\<lambda>(k, h). \<not> exited m' h) (c # cs) of
            Some c' \<Rightarrow> (m', Inl (refuse c'))
          | None \<Rightarrow> take_claim p containerID key conflicts refuse (take_over (c # cs) m')))"
  by pat_completeness auto
termination
  by (relation "measure (\<lambda>(p, cid, key, conflicts, refuse, m). length (mg_claims m))")
    (auto dest: take_over_shrinks[OF sym])

declare take_claim.simps [simp del]

definition attach_conflicts :: "string \<Rightarrow> int \<Rightarrow> string \<Rightarrow> bool" where
  "attach_conflicts containerID pid k = (k = claimKey containerID pid \<or> k = launchClaimKey containerID)"

definition claim :: "ptr \<Rightarrow> string \<Rightarrow> int \<Rightarrow> manager \<Rightarrow> manager \<times> unit result" where
  "claim p containerID pid m =
    take_claim p containerID (claimKey containerID pid) (attach_conflicts containerID pid)
      (\<lambda>(k, h).
        if k = claimKey containerID pid
        then NewError CodeInvalidRequest [Lit (''process '' @ itoa pid @ '' of container '' @ shortID containerID
               @ '' is already debugged by session '' @ s_ID (sess m h))]
        else NewError CodeInvalidRequest [Lit (''container '' @ shortID containerID @ '' runs an app launched by session ''
               @ s_ID (sess m h) @ '': attaching to it would fight that debugger'')]) m"

definition claimLaunch :: "ptr \<Rightarrow> string \<Rightarrow> manager \<Rightarrow> manager \<times> unit result" where
  "claimLaunch p containerID m =
    take_claim p containerID (launchClaimKey containerID) (\<lambda>_. True)
      (\<lambda>(k, h). NewError CodeInvalidRequest [Lit (''container '' @ shortID containerID
         @ '' is already debugged by session '' @ s_ID (sess m h))]) m"

definition release :: "ptr \<Rightarrow> manager \<Rightarrow> manager" where
  "release p m =
    (let k = s_claimKey (sess m p) in
     if k \<noteq> [] \<and> map_of (mg_claims m) k = Some p then m\<lparr>mg_claims := adel k (mg_claims m)\<rparr> else m)"

definition liveClaimOn :: "string \<Rightarrow> manager \<Rightarrow> ptr option" where
  "liveClaimOn ref m =
    find (\<lambda>h. \<not> exited m h)
      (filter (\<lambda>h. case s_container (sess m h) of None \<Rightarrow> False
         | Some c \<Rightarrow> co_Name c = ref \<or> (length ref \<ge> 12 \<and> has_prefix (co_ID c) ref)) (map snd (mg_claims m)))"

section \<open>Ending sessions\<close>

text \<open>\<^verbatim>\<open>watch\<close>, once its session has exited.\<close>

definition mgr_watch :: "ptr \<Rightarrow> manager \<Rightarrow> manager" where
  "mgr_watch p m = notify (saveIfLive p (release p m))"

definition mgr_stop :: "env \<Rightarrow> client \<Rightarrow> ptr \<Rightarrow> manager \<Rightarrow> manager \<times> session_info result" where
  "mgr_stop E c p m =
    (case Terminate E c (sess m p) of
       (s', Inl e) \<Rightarrow> (on_session p (\<lambda>_. s') m, Inl e)
     | (s', Inr _) \<Rightarrow>
         let (m1, removed) = removeSession p (release p (on_session p (\<lambda>_. s') m));
             m2 = (if removed then forget (s_ID s') m1 else m1)
         in (m2, Inr (infoLocked (sess m2 p))))"

definition mgr_Stop :: "env \<Rightarrow> client \<Rightarrow> string \<Rightarrow> manager \<Rightarrow> manager \<times> session_info result" where
  "mgr_Stop E c i m =
    (case map_of (mg_lost m) i of
       Some info \<Rightarrow> (forget i (m\<lparr>mg_lost := adel i (mg_lost m)\<rparr>), Inr info)
     | None \<Rightarrow> (case mgr_Get i m of Inl e \<Rightarrow> (m, Inl e) | Inr p \<Rightarrow> mgr_stop E c p m))"

definition StopSession :: "env \<Rightarrow> client \<Rightarrow> ptr \<Rightarrow> manager \<Rightarrow> manager \<times> session_info result" where
  "StopSession E c p m =
    (if \<not> names m p then (m, Inl (NewError CodeNoSession [Lit (''no session '' @ s_ID (sess m p))]))
     else mgr_stop E c p m)"

text \<open>\<^verbatim>\<open>Session.Detach\<close>.\<close>

definition sess_Detach :: "env \<Rightarrow> client \<Rightarrow> unit action" where
  "sess_Detach E c =
    with_state (\<lambda>s.
      if s_mode s = ModeAttach then Terminate E c
      else if s_mode s = ModeTest
      then fail (NewError CodeInvalidRequest [Lit (''a test run can'' @ [CHR 0x27] @ ''t be detached: '' @ [CHR 0x27]
        @ ''eyedbg stop'' @ [CHR 0x27] @ '' ends it'')])
      else fail (NewError CodeInvalidRequest [Lit (''session '' @ s_ID s @ '' was started, not attached: '' @ [CHR 0x27]
        @ ''eyedbg stop'' @ [CHR 0x27] @ '' ends it'')]))"

definition mgr_Detach :: "env \<Rightarrow> client \<Rightarrow> string \<Rightarrow> manager \<Rightarrow> manager \<times> session_info result" where
  "mgr_Detach E c i m =
    (case mgr_Get i m of Inl e \<Rightarrow> (m, Inl e)
     | Inr p \<Rightarrow> (case sess_Detach E c (sess m p) of
         (s', Inl e) \<Rightarrow> (on_session p (\<lambda>_. s') m, Inl e)
       | (s', Inr _) \<Rightarrow>
           let m' = forget (s_ID s') (mgr_remove (s_ID s') (release p (on_session p (\<lambda>_. s') m)))
           in (m', Inr (infoLocked (sess m' p)))))"

definition stop_one :: "env \<Rightarrow> ptr \<Rightarrow> manager \<Rightarrow> manager" where
  "stop_one E p m =
    (let m1 = on_session p (\<lambda>s. terminate E [] (endedBy [] s) s) m
     in forget (s_ID (sess m1 p)) (release p m1))"

definition StopAll :: "env \<Rightarrow> manager \<Rightarrow> manager \<times> nat" where
  "StopAll E m =
    (let all = map snd (mg_sessions m)
     in (fold (stop_one E) all (notify (m\<lparr>mg_sessions := []\<rparr>)), length all))"

section \<open>Groups\<close>

definition mgr_members :: "string \<Rightarrow> manager \<Rightarrow> ptr list" where
  "mgr_members g m =
    sort_key (\<lambda>p. (s_CreatedAt (sess m p), s_ID (sess m p)))
      (filter (\<lambda>p. s_group (sess m p) = g) (map snd (mg_sessions m)))"

definition groupMembers :: "time \<Rightarrow> client \<Rightarrow> string \<Rightarrow> manager \<Rightarrow> manager \<times> ptr list result" where
  "groupMembers now c g m =
    (if g = [] then (m, Inl (NewError CodeInvalidRequest [Lit ''a group is required'']))
     else case CheckGroup g of
       Inl e \<Rightarrow> (m, Inl e)
     | Inr _ \<Rightarrow>
         let ms = mgr_members g m in
         if ms = [] then (m, Inl (NewError CodeNoSession [Lit (''no group '' @ g)]))
         else (fold (\<lambda>p. on_session p (Touch now c)) ms m, Inr ms))"

text \<open>
  \<open>later\<close> is what happens to the members while the request waits: how they look at each
  wake-up and at the end.
\<close>

definition GroupEvents ::
    "(group_event \<Rightarrow> nat) \<Rightarrow> time \<Rightarrow> client \<Rightarrow> group_events_params \<Rightarrow> int \<Rightarrow> (session list \<Rightarrow> session list list \<times> session list)
     \<Rightarrow> manager \<Rightarrow> manager \<times> group_events_result result" where
  "GroupEvents sz now c p wait later m =
    (case checkEventKinds (gp_Kinds p) of Inl e \<Rightarrow> (m, Inl e)
     | Inr _ \<Rightarrow> (case parseGroupCursor (gp_Since p) of Inl e \<Rightarrow> (m, Inl e)
     | Inr cur \<Rightarrow> (case groupMembers now c (gp_Group p) m of
         (m', Inl e) \<Rightarrow> (m', Inl e)
       | (m', Inr ps) \<Rightarrow>
           if length ps > MaxGroupCursor
           then (m', Inl (NewError CodeInvalidRequest [Lit (''group '' @ gp_Group p @ '' has '' @ nat_dec (length ps)
                  @ '' sessions: its events are read for at most '' @ nat_dec MaxGroupCursor)]))
           else let members = map (sess m') ps; (wakes, done_ms) = later members
                in (m', Inr (groupEvents sz members wakes done_ms cur p wait)))))"

definition GroupWait ::
    "(session \<Rightarrow> 'snap) \<Rightarrow> time \<Rightarrow> client \<Rightarrow> string \<Rightarrow> bool
     \<Rightarrow> (session list \<Rightarrow> session list list \<times> session list \<times> session list \<times> session list)
     \<Rightarrow> manager \<Rightarrow> manager \<times> 'snap group_wait_result result" where
  "GroupWait snapshot now c g newOnly later m =
    (case groupMembers now c g m of
       (m', Inl e) \<Rightarrow> (m', Inl e)
     | (m', Inr ps) \<Rightarrow>
         let members = map (sess m') ps; (wakes, deadline, now1, now2) = later members
         in (m', Inr (groupWait snapshot members newOnly wakes deadline now1 now2)))"

end
