(* ===== verification/Replace.thy ===== *)
theory Replace
  imports Breakpoints
begin

text \<open>
  Replacing an editor's breakpoints in one file or its function breakpoints
  (\<^verbatim>\<open>internal/session/replace.go\<close>): the requests an editor sends with its whole list.
  An item is one breakpoint of the list; \<open>it_b\<close> is the pointer to the breakpoint that
  serves it, as its id.
\<close>

section \<open>Items\<close>

record replace_item =
  it_spec :: breakpoint_spec
  it_refused :: "error option"
  it_b :: "int option"
  it_isNew :: bool
  it_changed :: bool

definition item :: "breakpoint_spec \<Rightarrow> error option \<Rightarrow> replace_item" where
  "item spec refused = \<lparr>it_spec = spec, it_refused = refused, it_b = None, it_isNew = False, it_changed = False\<rparr>"

text \<open>\<^verbatim>\<open>filepath.Dir\<close>.\<close>

definition Dir :: "string \<Rightarrow> string" where
  "Dir p = Clean (rev (dropWhile (\<lambda>c. c \<noteq> SL) (rev p)))"

definition FileKey :: "fs \<Rightarrow> string \<Rightarrow> string result" where
  "FileKey F file =
    (if file = [] then Inl (NewError CodeInvalidRequest [Lit ''breakpoints need a file on disk''])
     else if \<not> IsAbs file then Inl (not_absolute file)
     else case fs_EvalSymlinks F file of
       Some r \<Rightarrow> Inr r
     | None \<Rightarrow> Inr (Join2 (realPath F (Dir file)) (Base file)))"

definition same_line_error :: error where
  "same_line_error = NewError CodeInvalidRequest
    [Lit ''another breakpoint of this request is on the same line: eyedbg keeps one per line per client (columns are ignored)'']"

fun refuseLocked :: "session \<Rightarrow> slot_key list \<Rightarrow> replace_item list \<Rightarrow> replace_item list" where
  "refuseLocked s seen [] = []"
| "refuseLocked s seen (it # its) =
    (if it_refused it \<noteq> None then it # refuseLocked s seen its
     else case checkBreakpointCapsLocked (it_spec it) s of
       Inl e \<Rightarrow> it\<lparr>it_refused := Some e\<rparr> # refuseLocked s seen its
     | Inr _ \<Rightarrow> (case checkMapped (it_spec it) s of
         Inl e \<Rightarrow> it\<lparr>it_refused := Some e\<rparr> # refuseLocked s seen its
       | Inr _ \<Rightarrow>
           if spec_key (it_spec it) \<in> set seen then it\<lparr>it_refused := Some same_line_error\<rparr> # refuseLocked s seen its
           else it # refuseLocked s (spec_key (it_spec it) # seen) its))"

section \<open>Matching\<close>

text \<open>\<^verbatim>\<open>update\<close>: whether it changed, and the breakpoint after it.\<close>

definition unchanged :: "breakpoint_spec \<Rightarrow> breakpoint \<Rightarrow> bool" where
  "unchanged spec b = (bp_Condition b = bs_Condition spec \<and> bp_HitCondition b = bs_HitCondition spec
    \<and> bp_LogMessage b = bs_LogMessage spec \<and> bp_Anchor b = [])"

definition bp_update :: "breakpoint_spec \<Rightarrow> breakpoint \<Rightarrow> breakpoint" where
  "bp_update spec b =
    (if unchanged spec b then b else setEmulated spec (b\<lparr>bp_Condition := bs_Condition spec, bp_Anchor := []\<rparr>))"

definition byRequested :: "breakpoint \<Rightarrow> breakpoint_spec \<Rightarrow> bool" where
  "byRequested b spec = (bp_key b = spec_key spec)"

definition byPlaced :: "breakpoint \<Rightarrow> breakpoint_spec \<Rightarrow> bool" where
  "byPlaced b spec = (bs_Function spec = [] \<and> bp_Line b = bs_Line spec)"

text \<open>
  One pass over the items with the breakpoints that are not matched yet: a matched
  breakpoint leaves the list (the source sets its place to nil) and is updated.
\<close>

fun match_pass :: "(breakpoint \<Rightarrow> breakpoint_spec \<Rightarrow> bool) \<Rightarrow> breakpoint list \<Rightarrow> replace_item list \<Rightarrow> session
    \<Rightarrow> breakpoint list \<times> replace_item list \<times> session" where
  "match_pass same old [] s = (old, [], s)"
| "match_pass same old (it # its) s =
    (if it_refused it \<noteq> None \<or> it_b it \<noteq> None
     then (case match_pass same old its s of (old', its', s') \<Rightarrow> (old', it # its', s'))
     else case find (\<lambda>b. same b (it_spec it)) old of
       None \<Rightarrow> (case match_pass same old its s of (old', its', s') \<Rightarrow> (old', it # its', s'))
     | Some b \<Rightarrow>
         (case match_pass same (remove1 b old) its (update_bp (bp_ID b) (bp_update (it_spec it)) s) of
            (old', its', s') \<Rightarrow> (old', it\<lparr>it_b := Some (bp_ID b), it_changed := \<not> unchanged (it_spec it) b\<rparr> # its', s')))"

definition matchItems :: "breakpoint list \<Rightarrow> replace_item list \<Rightarrow> session \<Rightarrow> breakpoint list \<times> replace_item list \<times> session" where
  "matchItems old its s =
    (case match_pass byRequested old its s of (old1, its1, s1) \<Rightarrow>
     (case match_pass byPlaced old1 its1 s1 of (old2, its2, s2) \<Rightarrow> (sort_key bp_ID old2, its2, s2)))"

text \<open>The last loop of \<^verbatim>\<open>matchLocked\<close>: unmatched items become new breakpoints, and all served ones are the editor's.\<close>

fun place_items :: "time \<Rightarrow> string \<Rightarrow> replace_item list \<Rightarrow> session \<Rightarrow> replace_item list \<times> session" where
  "place_items now owner [] s = ([], s)"
| "place_items now owner (it # its) s =
    (if it_refused it \<noteq> None then (case place_items now owner its s of (its', s') \<Rightarrow> (it # its', s'))
     else let (it1, i, s1) = (case it_b it of
            None \<Rightarrow> (case addNewLocked now owner (it_spec it) s of (t, i) \<Rightarrow> (it\<lparr>it_b := Some i, it_isNew := True\<rparr>, i, t))
          | Some i \<Rightarrow> (if \<not> bp_Editor (copy_of i s) then it\<lparr>it_changed := True\<rparr> else it, i, s));
          s2 = update_bp i (\<lambda>b. b\<lparr>bp_Editor := True\<rparr>) s1
       in (case place_items now owner its s2 of (its', s') \<Rightarrow> (it1 # its', s')))"

text \<open>The deletion step: the gone breakpoints leave the list of \<^verbatim>\<open>key\<close>.\<close>

definition drop_gone :: "string \<Rightarrow> int list \<Rightarrow> session \<Rightarrow> session" where
  "drop_gone key ids s =
    (let kept = delete_func (\<lambda>b. bp_ID b \<in> set ids) (bps_at key s)
     in if kept = [] then s\<lparr>s_bps := adel key (s_bps s)\<rparr> else s\<lparr>s_bps := aput key kept (s_bps s)\<rparr>)"

definition matchLocked :: "time \<Rightarrow> string \<Rightarrow> string \<Rightarrow> replace_item list \<Rightarrow> int list \<Rightarrow> session
    \<Rightarrow> breakpoint list \<times> replace_item list \<times> session" where
  "matchLocked now owner key its keep s =
    (let old = filter (\<lambda>b. bp_Owner b = owner \<and> \<not> bp_Temporary b) (bps_at key s);
         (left, its1, s1) = matchItems old its s;
         gone = delete_func (\<lambda>b. \<not> bp_Editor b \<or> bp_ID b \<in> set keep) left;
         s2 = (if gone \<noteq> [] then drop_gone key (map bp_ID gone) s1 else s1);
         (its2, s3) = place_items now owner its1 s2
     in (gone, its2, s3))"

section \<open>The requests\<close>

definition refusalText :: "env \<Rightarrow> error \<Rightarrow> string" where
  "refusalText E e = message_text (env_quote E) (err_message e)"

definition item_result :: "env \<Rightarrow> session \<Rightarrow> replace_item \<Rightarrow> api_breakpoint" where
  "item_result E s it =
    (case it_b it of
       Some i \<Rightarrow> api_of (copy_of i s)
     | None \<Rightarrow> (api_of (new_bp 0 0 [] no_spec))\<lparr>bp_RequestedLine := bs_Line (it_spec it), bp_Line := bs_Line (it_spec it),
         bp_Function := bs_Function (it_spec it),
         bp_Message := (case it_refused it of Some e \<Rightarrow> refusalText E e | None \<Rightarrow> [])\<rparr>)"

definition replaceResults :: "env \<Rightarrow> replace_item list \<Rightarrow> session \<Rightarrow> api_breakpoint list" where
  "replaceResults E its s = annotate E s (map (item_result E s) its)"

definition log_item :: "time \<Rightarrow> string \<Rightarrow> replace_item \<Rightarrow> session \<Rightarrow> session" where
  "log_item now actor it s =
    (case it_b it of
       None \<Rightarrow> s
     | Some i \<Rightarrow> if it_isNew it then logBreakpointLocked now ''added'' actor (copy_of i s) s
                 else if it_changed it then logBreakpointLocked now ''changed'' actor (copy_of i s) s else s)"

definition replace_bps :: "env \<Rightarrow> client \<Rightarrow> string \<Rightarrow> replace_item list \<Rightarrow> int list \<Rightarrow> session
    \<Rightarrow> session \<times> api_breakpoint list \<times> error option" where
  "replace_bps E c key its keep s =
    (if s_state s = StateExited
     then (s, [], Some (stateError (s_ID s) (s_state s) ''setting breakpoints needs a live session''))
     else let (gone, its2, s1) = matchLocked (env_now E) (cl_ID c) key (refuseLocked s [] its) keep s;
              (s2, r) = syncKey E key s1;
              s3 = fold (logBreakpointLocked (env_now E) ''removed'' (cl_ID c)) gone s2;
              s4 = fold (log_item (env_now E) (cl_ID c)) its2 s3
          in (s4, replaceResults E its2 s4, case r of Inl e \<Rightarrow> Some e | Inr _ \<Rightarrow> None))"

definition ReplaceBreakpoints :: "env \<Rightarrow> client \<Rightarrow> string \<Rightarrow> breakpoint_spec list \<Rightarrow> int list \<Rightarrow> session
    \<Rightarrow> session \<times> api_breakpoint list \<times> error option" where
  "ReplaceBreakpoints E c file specs keep s =
    (let own = map (\<lambda>sp. sp\<lparr>bs_File := file, bs_Function := [], bs_Anchor := []\<rparr>) specs in
     case FileKey (env_fs E) file of
       Inl e \<Rightarrow> (s, replaceResults E (map (\<lambda>sp. item sp (Some e)) own) s,
                 case requireLive ''setting breakpoints needs a live session'' s of Inl x \<Rightarrow> Some x | Inr _ \<Rightarrow> None)
     | Inr key \<Rightarrow> replace_bps E c key
         (map (\<lambda>sp. case resolveSpec (env_fs E) sp False of (sp', e) \<Rightarrow> item sp' e) own) keep s)"

definition function_item :: "env \<Rightarrow> breakpoint_spec \<Rightarrow> replace_item" where
  "function_item E sp0 =
    (let sp = sp0\<lparr>bs_File := [], bs_Line := 0, bs_Anchor := [], bs_LogMessage := []\<rparr> in
     if bs_Function sp = []
     then item sp (Some (NewError CodeInvalidRequest [Lit ''a function breakpoint needs a function name'']))
     else if bs_HitCondition sp \<noteq> []
     then item sp (Some (NewError CodeInvalidRequest [Lit ''hit counts work on line breakpoints only'']))
     else (case resolveSpec (env_fs E) sp True of (sp', e) \<Rightarrow> item sp' e))"

definition ReplaceFunctionBreakpoints :: "env \<Rightarrow> client \<Rightarrow> breakpoint_spec list \<Rightarrow> session
    \<Rightarrow> session \<times> api_breakpoint list \<times> error option" where
  "ReplaceFunctionBreakpoints E c specs s = replace_bps E c funcKey (map (function_item E) specs) [] s"

section \<open>What replacing protects\<close>

text \<open>The breakpoints a replace request of client \<open>cid\<close> must not touch: other clients' and temporary ones.\<close>

definition prot :: "string \<Rightarrow> breakpoint \<Rightarrow> bool" where
  "prot cid b \<longleftrightarrow> bp_Owner b \<noteq> cid \<or> bp_Temporary b"

text \<open>A breakpoint's identity, which matching never changes.\<close>

definition ident :: "breakpoint \<Rightarrow> int \<times> string \<times> string \<times> bool \<times> bool" where
  "ident b = (bp_ID b, bp_Owner b, bp_File b, bp_Temporary b, bp_Editor b)"

lemma ident_eq: "ident a = ident b \<Longrightarrow> bp_ID a = bp_ID b \<and> bp_Owner a = bp_Owner b \<and> bp_File a = bp_File b
    \<and> bp_Temporary a = bp_Temporary b \<and> bp_Editor a = bp_Editor b"
  by (simp add: ident_def)

lemma bp_update_ident [simp]: "ident (bp_update spec b) = ident b"
  by (simp add: bp_update_def ident_def)

definition safe :: "string \<Rightarrow> session \<Rightarrow> session \<Rightarrow> bool" where
  "safe cid s t \<longleftrightarrow> sess_inv t \<and> filter (prot cid) (all_bps t) = filter (prot cid) (all_bps s)"

lemma safe_refl: "sess_inv s \<Longrightarrow> safe cid s s"
  by (simp add: safe_def)

lemma safe_trans: "safe cid s t \<Longrightarrow> safe cid t u \<Longrightarrow> safe cid s u"
  by (simp add: safe_def)

lemma update_all: "all_bps (update_bp i f s) = map (\<lambda>b. if bp_ID b = i then f b else b) (all_bps s)"
  by (simp add: update_bp_def map_bps_view_bps)

lemma update_safe:
  assumes "sess_inv s" "b \<in> set (all_bps s)" "\<not> prot cid b"
    and "\<And>x. bp_ID (f x) = bp_ID x" "\<And>x. bp_File (f x) = bp_File x" "\<And>x. prot cid (f x) = prot cid x"
  shows "safe cid s (update_bp (bp_ID b) f s)"
proof -
  have only: "x = b" if "x \<in> set (all_bps s)" "bp_ID x = bp_ID b" for x
    using same_id[OF inv_ids[OF assms(1)] that(1) assms(2)] that(2) .
  have "filter (prot cid) (map (\<lambda>x. if bp_ID x = bp_ID b then f x else x) (all_bps s)) = filter (prot cid) (all_bps s)"
  proof (rule filter_map_other)
    fix x assume "x \<in> set (all_bps s)"
    then show "(if bp_ID x = bp_ID b then f x else x) = x
        \<or> \<not> prot cid x \<and> \<not> prot cid (if bp_ID x = bp_ID b then f x else x)"
      using only[of x] assms(3,6) by (cases "bp_ID x = bp_ID b") simp_all
  qed
  then show ?thesis using update_bp_inv[OF assms(4,5,1)] by (simp add: safe_def update_all)
qed

lemma update_ident: "(\<And>x. ident (f x) = ident x) \<Longrightarrow> map ident (all_bps (update_bp i f s)) = map ident (all_bps s)"
  by (simp add: update_all)

definition served :: "replace_item list \<Rightarrow> int set" where
  "served its = {i. \<exists>it \<in> set its. it_b it = Some i}"

lemma served_simps [simp]:
  "served [] = {}" "served (it # its) = (case it_b it of Some i \<Rightarrow> insert i (served its) | None \<Rightarrow> served its)"
  by (auto simp: served_def split: option.splits)

text \<open>
  A pass only updates breakpoints it matches: identities stay, protected breakpoints
  are untouched, every old breakpoint stays unmatched or serves an item, and items
  are only ever given a breakpoint.
\<close>

definition mine :: "string \<Rightarrow> session \<Rightarrow> breakpoint \<Rightarrow> bool" where
  "mine cid s b \<longleftrightarrow> \<not> prot cid b \<and> ident b \<in> ident ` set (all_bps s)"

lemma mineE:
  assumes "mine cid s b"
  obtains b0 where "b0 \<in> set (all_bps s)" "ident b0 = ident b" "\<not> prot cid b0" "bp_ID b0 = bp_ID b"
proof -
  obtain b0 where "b0 \<in> set (all_bps s)" "ident b = ident b0" "\<not> prot cid b" using assms unfolding mine_def by (elim conjE imageE)
  then show ?thesis using that[of b0] ident_eq[of b b0] by (simp add: prot_def)
qed

lemma mine_cong: "map ident (all_bps t) = map ident (all_bps s) \<Longrightarrow> mine cid t b = mine cid s b"
  unfolding mine_def by (metis list.set_map)

lemma match_pass_spec:
  assumes "match_pass same old its s = (old', its', t)" "sess_inv s" "list_all (mine cid s) old" "distinct (map bp_ID old)"
  shows "safe cid s t \<and> map ident (all_bps t) = map ident (all_bps s)
    \<and> set old' \<subseteq> set old \<and> distinct (map bp_ID old')
    \<and> bp_ID ` set old \<subseteq> bp_ID ` set old' \<union> served its'
    \<and> served its \<subseteq> served its' \<and> served its' \<subseteq> served its \<union> bp_ID ` set old \<and> length its' = length its
    \<and> map it_spec its' = map it_spec its \<and> map it_refused its' = map it_refused its
    \<and> (served its \<inter> bp_ID ` set old = {} \<longrightarrow> served its' \<inter> bp_ID ` set old' = {})"
  using assms
proof (induction same old its s arbitrary: old' its' t rule: match_pass.induct)
  case (1 same old s)
  then show ?case by (simp add: safe_refl)
next
  case (2 same old it its s)
  show ?case
  proof (cases "it_refused it \<noteq> None \<or> it_b it \<noteq> None \<or> find (\<lambda>b. same b (it_spec it)) old = None")
    case True
    then obtain its1 where r: "match_pass same old its s = (old', its1, t)" "its' = it # its1"
      using 2(4) by (auto split: prod.splits option.splits if_splits)
    note ih = 2(1)[OF _ r(1) 2(5-7)] 2(2)[OF _ _ r(1) 2(5-7)]
    have "it_refused it \<noteq> None \<or> it_b it \<noteq> None \<or> \<not> (it_refused it \<noteq> None \<or> it_b it \<noteq> None) \<and> find (\<lambda>b. same b (it_spec it)) old = None"
      using True by blast
    then have ih1: "safe cid s t \<and> map ident (all_bps t) = map ident (all_bps s)
    \<and> set old' \<subseteq> set old \<and> distinct (map bp_ID old')
    \<and> bp_ID ` set old \<subseteq> bp_ID ` set old' \<union> served its1
    \<and> served its \<subseteq> served its1 \<and> served its1 \<subseteq> served its \<union> bp_ID ` set old \<and> length its1 = length its
    \<and> map it_spec its1 = map it_spec its \<and> map it_refused its1 = map it_refused its
    \<and> (served its \<inter> bp_ID ` set old = {} \<longrightarrow> served its1 \<inter> bp_ID ` set old' = {})"
      using ih by blast
    then have "bp_ID ` set old' \<subseteq> bp_ID ` set old" by (intro image_mono) simp
    then show ?thesis using ih1 r(2) by (cases "it_b it") auto
  next
    case False
    then obtain b where b: "find (\<lambda>b. same b (it_spec it)) old = Some b" by auto
    have bo: "b \<in> set old" using find_SomeD[OF b] by simp
    let ?s = "update_bp (bp_ID b) (bp_update (it_spec it)) s"
    obtain its1 where r: "match_pass same (remove1 b old) its ?s = (old', its1, t)"
      "its' = it\<lparr>it_b := Some (bp_ID b), it_changed := \<not> unchanged (it_spec it) b\<rparr> # its1"
      using 2(4) False b by (auto split: prod.splits)
    obtain b0 where b0: "b0 \<in> set (all_bps s)" "ident b0 = ident b" "\<not> prot cid b0" "bp_ID b0 = bp_ID b"
      using mineE 2(6) bo unfolding list_all_iff by blast
    have up: "safe cid s ?s"
      using update_safe[OF 2(5) b0(1,3), of "bp_update (it_spec it)"] b0(4) ident_eq[OF bp_update_ident] by (simp add: prot_def)
    have idn: "map ident (all_bps ?s) = map ident (all_bps s)" by (rule update_ident) simp
    have "set (remove1 b old) \<subseteq> set old" by (rule set_remove1_subset)
    then have m: "list_all (mine cid ?s) (remove1 b old)" using 2(6) mine_cong[OF idn] by (auto simp: list_all_iff)
    have d: "distinct (map bp_ID (remove1 b old))"
      using 2(7) by (metis distinct_map distinct_remove1 inj_on_subset set_remove1_subset)
    have old: "bp_ID ` set old = insert (bp_ID b) (bp_ID ` set (remove1 b old))"
      using bo 2(7) by (auto simp: distinct_map)
    have f: "\<not> (it_refused it \<noteq> None \<or> it_b it \<noteq> None)" using False by blast
    have "sess_inv ?s" using up by (simp add: safe_def)
    note ih = 2(3)[OF f b r(1) this m d]
    have out: "bp_ID b \<notin> bp_ID ` set (remove1 b old)" using bo 2(7) by (auto simp: distinct_map inj_on_def)
    have "bp_ID ` set old' \<subseteq> bp_ID ` set (remove1 b old)" using ih by (intro image_mono) simp
    then show ?thesis using ih up idn r(2) f old out safe_trans[OF up] set_remove1_subset[of b old] by auto
  qed
qed

lemma cover_trans: "A \<subseteq> B \<union> X \<Longrightarrow> B \<subseteq> C \<union> Y \<Longrightarrow> X \<subseteq> Y \<Longrightarrow> A \<subseteq> C \<union> Y"
  by blast

lemma cover_both: "A \<subseteq> X \<union> B \<Longrightarrow> B \<subseteq> D \<Longrightarrow> X \<subseteq> Y \<union> D \<Longrightarrow> A \<subseteq> Y \<union> D"
  by blast

lemma matchItems_spec:
  assumes "matchItems old its s = (left, its', t)" "sess_inv s" "list_all (mine cid s) old" "distinct (map bp_ID old)"
  shows "safe cid s t \<and> map ident (all_bps t) = map ident (all_bps s) \<and> set left \<subseteq> set old
    \<and> bp_ID ` set old \<subseteq> bp_ID ` set left \<union> served its' \<and> served its' \<subseteq> served its \<union> bp_ID ` set old
    \<and> length its' = length its \<and> map it_spec its' = map it_spec its \<and> map it_refused its' = map it_refused its
    \<and> (served its = {} \<longrightarrow> served its' \<inter> bp_ID ` set left = {})"
proof -
  obtain old1 its1 s1 where 1: "match_pass byRequested old its s = (old1, its1, s1)" by (metis prod_cases3)
  obtain old2 where 2: "match_pass byPlaced old1 its1 s1 = (old2, its', t)" "left = sort_key bp_ID old2"
    using assms(1) 1 by (auto simp: matchItems_def split: prod.splits)
  from match_pass_spec[OF 1 assms(2-4)] have a: "safe cid s s1" "map ident (all_bps s1) = map ident (all_bps s)"
    "set old1 \<subseteq> set old" "distinct (map bp_ID old1)" "bp_ID ` set old \<subseteq> bp_ID ` set old1 \<union> served its1"
    "served its1 \<subseteq> served its \<union> bp_ID ` set old" "length its1 = length its" "map it_spec its1 = map it_spec its"
    "map it_refused its1 = map it_refused its"
    "served its \<inter> bp_ID ` set old = {} \<longrightarrow> served its1 \<inter> bp_ID ` set old1 = {}" by - (elim conjE, assumption)+
  have "list_all (mine cid s1) old1" using a(3) assms(3) mine_cong[OF a(2), of cid] by (auto simp: list_all_iff)
  moreover have "sess_inv s1" using a(1) by (simp add: safe_def)
  ultimately have "safe cid s1 t \<and> map ident (all_bps t) = map ident (all_bps s1)
    \<and> set old2 \<subseteq> set old1 \<and> distinct (map bp_ID old2)
    \<and> bp_ID ` set old1 \<subseteq> bp_ID ` set old2 \<union> served its'
    \<and> served its1 \<subseteq> served its' \<and> served its' \<subseteq> served its1 \<union> bp_ID ` set old1 \<and> length its' = length its1
    \<and> map it_spec its' = map it_spec its1 \<and> map it_refused its' = map it_refused its1
    \<and> (served its1 \<inter> bp_ID ` set old1 = {} \<longrightarrow> served its' \<inter> bp_ID ` set old2 = {})"
    using match_pass_spec[OF 2(1)] a(4) by blast
  then have b: "safe cid s1 t" "map ident (all_bps t) = map ident (all_bps s1)" "set old2 \<subseteq> set old1"
    "bp_ID ` set old1 \<subseteq> bp_ID ` set old2 \<union> served its'" "served its1 \<subseteq> served its'"
    "served its' \<subseteq> served its1 \<union> bp_ID ` set old1" "length its' = length its1" "map it_spec its' = map it_spec its1"
    "map it_refused its' = map it_refused its1"
    "served its1 \<inter> bp_ID ` set old1 = {} \<longrightarrow> served its' \<inter> bp_ID ` set old2 = {}" by - (elim conjE, assumption)+
  have l: "set left = set old2" using 2(2) by simp
  have d: "served its = {} \<longrightarrow> served its' \<inter> bp_ID ` set old2 = {}" using a(10) b(10) by simp
  show ?thesis unfolding l
    using safe_trans[OF a(1) b(1)] trans[OF b(2) a(2)] subset_trans[OF b(3) a(3)] cover_trans[OF a(5) b(4,5)]
      cover_both[OF b(6) image_mono[OF a(3)] a(6)] trans[OF b(7) a(7)] trans[OF b(8) a(8)] trans[OF b(9) a(9)] d
    by (intro conjI)
qed

text \<open>Taking the gone breakpoints out of the one list of \<^verbatim>\<open>key\<close> is taking them out everywhere.\<close>

lemma drop_bps_none:
  "list_all (\<lambda>(k, bs). bs \<noteq> [] \<and> list_all (\<lambda>b. bp_File b = k) bs) m \<Longrightarrow> list_all (\<lambda>b. \<not> P b) (view_bps m) \<Longrightarrow> drop_bps P m = m"
proof (induction m)
  case (Cons p m)
  obtain k bs where p: "p = (k, bs)" by fastforce
  have "filter (\<lambda>b. \<not> P b) bs = bs" using Cons.prems(2) p by (intro filter_True) (simp add: list_all_iff)
  then show ?case using Cons p by simp
qed simp

lemma adel_absent: "key \<notin> set (map fst m) \<Longrightarrow> adel key m = m"
  by (induction m) (auto simp: adel_def)

lemma no_key_no_hit:
  "list_all (\<lambda>(k, bs). bs \<noteq> [] \<and> list_all (\<lambda>b. bp_File b = k) bs) m \<Longrightarrow> key \<notin> set (map fst m)
    \<Longrightarrow> list_all (\<lambda>b. P b \<longrightarrow> bp_File b = key) (view_bps m) \<Longrightarrow> list_all (\<lambda>b. \<not> P b) (view_bps m)"
proof (induction m)
  case (Cons p m)
  obtain k bs where p: "p = (k, bs)" by fastforce
  have "list_all (\<lambda>b. bp_File b = k) bs" "list_all (\<lambda>b. P b \<longrightarrow> bp_File b = key) bs" "key \<noteq> k" using Cons.prems p by simp_all
  then have "list_all (\<lambda>b. \<not> P b) bs" by (simp add: list_all_iff)
  then show ?case using Cons p by simp
qed simp

lemma drop_at_key:
  assumes "distinct (map fst m)" "list_all (\<lambda>(k, bs). bs \<noteq> [] \<and> list_all (\<lambda>b. bp_File b = k) bs) m"
    "list_all (\<lambda>b. P b \<longrightarrow> bp_File b = key) (view_bps m)"
  shows "(let kept = delete_func P (list_at key m) in if kept = [] then adel key m else aput key kept m) = drop_bps P m"
  using assms
proof (induction m)
  case Nil
  then show ?case by (simp add: list_at_def adel_def)
next
  case (Cons p m)
  obtain k bs where p: "p = (k, bs)" by fastforce
  have wf: "list_all (\<lambda>(k, bs). bs \<noteq> [] \<and> list_all (\<lambda>b. bp_File b = k) bs) m" using Cons.prems(2) by simp
  show ?case
  proof (cases "k = key")
    case True
    have "list_all (\<lambda>b. \<not> P b) (view_bps m)" using Cons.prems p True
      by (intro no_key_no_hit) auto
    then have "drop_bps P m = m" using drop_bps_none[OF wf] by simp
    moreover have "adel key m = m" using Cons.prems(1) p True by (intro adel_absent) auto
    ultimately show ?thesis using p True by (simp add: list_at_def Let_def adel_def)
  next
    case False
    have "list_all (\<lambda>b. bp_File b = k) bs" "list_all (\<lambda>b. P b \<longrightarrow> bp_File b = key) bs" "bs \<noteq> []"
      using Cons.prems(2,3) p by simp_all
    then have "filter (\<lambda>b. \<not> P b) bs = bs" "bs \<noteq> []" using False by (simp_all add: list_all_iff filter_id_conv)
    moreover have "list_at key (p # m) = list_at key m" using p False by (simp add: list_at_def)
    moreover have "adel key (p # m) = p # adel key m" using p False by (simp add: adel_def)
    ultimately show ?thesis using Cons p False by (simp add: Let_def split: if_splits)
  qed
qed

text \<open>Breakpoint \<open>i\<close> of the session belongs to the client and is not temporary.\<close>

definition owned :: "string \<Rightarrow> session \<Rightarrow> int \<Rightarrow> bool" where
  "owned cid s i \<longleftrightarrow> (\<exists>b. b \<in> set (all_bps s) \<and> bp_ID b = i \<and> \<not> prot cid b)"

definition grows :: "string \<Rightarrow> int set \<Rightarrow> session \<Rightarrow> session \<Rightarrow> bool" where
  "grows cid I s t \<longleftrightarrow> safe cid s t \<and> bp_ID ` set (all_bps s) \<subseteq> bp_ID ` set (all_bps t)
    \<and> (\<forall>i. owned cid s i \<longrightarrow> owned cid t i)
    \<and> (\<forall>b. b \<in> set (all_bps t) \<longrightarrow> bp_ID b \<in> I \<or> ident b \<in> ident ` set (all_bps s))"

lemma grows_refl: "sess_inv s \<Longrightarrow> grows cid I s s"
  by (simp add: grows_def safe_refl)

lemma grows_trans:
  assumes "grows cid I s t" "grows cid J t u"
  shows "grows cid (I \<union> J) s u"
proof -
  have "bp_ID b \<in> I \<union> J \<or> ident b \<in> ident ` set (all_bps s)" if "b \<in> set (all_bps u)" for b
  proof (cases "bp_ID b \<in> J")
    case False
    then have "ident b \<in> ident ` set (all_bps t)" using assms(2) that unfolding grows_def by blast
    then obtain c where c: "c \<in> set (all_bps t)" "ident b = ident c" by (rule imageE)
    then have "bp_ID c \<in> I \<or> ident c \<in> ident ` set (all_bps s)" using assms(1) unfolding grows_def by blast
    then show ?thesis using c(2) ident_eq[OF c(2)] by auto
  qed simp
  moreover have "safe cid s u" using assms safe_trans[of cid s t u] by (simp add: grows_def)
  moreover have "bp_ID ` set (all_bps s) \<subseteq> bp_ID ` set (all_bps u)"
    using assms subset_trans[of "bp_ID ` set (all_bps s)" "bp_ID ` set (all_bps t)"] by (simp add: grows_def)
  ultimately show ?thesis using assms by (simp add: grows_def)
qed

lemma grows_new:
  assumes "sess_inv s" "addNewLocked now cid spec s = (t, i)"
  shows "grows cid {i} s t \<and> owned cid t i"
proof -
  let ?b = "new_bp now (s_nextBP s + 1) cid spec"
  have t: "s_bps t = append_bp (bs_File spec) ?b (s_bps s)" "i = bp_ID ?b"
    using addNewLocked_bps(1,2)[of now cid spec s] assms(2) by simp_all
  have inv: "sess_inv t" using addNewLocked_inv[OF assms(1), of now cid spec] assms(2) by simp
  have p: "\<not> prot cid ?b" by (simp add: prot_def)
  have "filter (prot cid) (all_bps t) = filter (prot cid) (all_bps s)"
    unfolding all_bps_view t(1) by (rule append_bp_filter) (rule p)
  then have "safe cid s t" using inv by (simp add: safe_def)
  moreover have "set (all_bps t) = insert ?b (set (all_bps s))" by (rule all_append[OF t(1)])
  ultimately show ?thesis using t(2) p unfolding grows_def owned_def by (auto simp del: new_bp_sel)
qed

lemma grows_editor:
  assumes "sess_inv s" "owned cid s i"
  shows "grows cid {i} s (update_bp i (\<lambda>b. b\<lparr>bp_Editor := True\<rparr>) s)"
proof -
  let ?f = "\<lambda>b :: breakpoint. b\<lparr>bp_Editor := True\<rparr>"
  have f: "bp_ID (?f b) = bp_ID b" "bp_File (?f b) = bp_File b" "prot cid (?f b) = prot cid b" for b :: breakpoint
    by (simp_all add: prot_def)
  obtain b where b: "b \<in> set (all_bps s)" "bp_ID b = i" "\<not> prot cid b" using assms(2) unfolding owned_def by (elim exE conjE)
  have "safe cid s (update_bp i ?f s)" using update_safe[OF assms(1) b(1,3), of ?f] f b(2) by simp
  moreover have "map bp_ID (all_bps (update_bp i ?f s)) = map bp_ID (all_bps s)" by (simp add: update_all)
  then have "bp_ID ` set (all_bps (update_bp i ?f s)) = bp_ID ` set (all_bps s)" by (metis set_map)
  moreover have "owned cid (update_bp i ?f s) j" if o: "owned cid s j" for j
  proof -
    obtain x where x: "x \<in> set (all_bps s)" "bp_ID x = j" "\<not> prot cid x" using o unfolding owned_def by (elim exE conjE)
    let ?g = "\<lambda>y. if bp_ID y = i then ?f y else y"
    have "?g x \<in> ?g ` set (all_bps s)" using x(1) by (rule imageI)
    moreover have "bp_ID (?g x) = j" "\<not> prot cid (?g x)" using x(2,3) f by (cases "bp_ID x = i"; simp)+
    ultimately show ?thesis unfolding owned_def update_all set_map by (intro exI conjI)
  qed
  moreover have "bp_ID x \<in> {i} \<or> ident x \<in> ident ` set (all_bps s)" if x: "x \<in> set (all_bps (update_bp i ?f s))" for x
  proof -
    obtain y where "y \<in> set (all_bps s)" "x = (if bp_ID y = i then ?f y else y)" using x unfolding update_all set_map by (rule imageE)
    then show ?thesis by (cases "bp_ID y = i") simp_all
  qed
  ultimately show ?thesis by (simp add: grows_def)
qed

lemma place_items_spec:
  assumes "place_items now cid its s = (its', t)" "sess_inv s" "\<forall>i \<in> served its. owned cid s i"
  shows "grows cid (served its') s t \<and> served its \<subseteq> served its' \<and> length its' = length its
    \<and> (\<forall>i \<in> served its'. owned cid t i)"
  using assms
proof (induction now cid its s arbitrary: its' t rule: place_items.induct)
  case (1 now cid s)
  then show ?case by (simp add: grows_refl)
next
  case (2 now cid it its s)
  show ?case
  proof (cases "it_refused it \<noteq> None")
    case True
    obtain its1 t1 where r1: "place_items now cid its s = (its1, t1)" by fastforce
    have r: "place_items now cid its s = (its1, t)" "its' = it # its1" using 2(3) True r1 by simp_all
    have sub: "\<forall>i \<in> served its. owned cid s i" using 2(5) by (auto split: option.splits)
    note ih = 2(1)[OF True r(1) 2(4) sub]
    show ?thesis
    proof (cases "it_b it")
      case (Some i)
      then have "owned cid s i" using 2(5) by simp
      then have "owned cid t i" using ih by (simp add: grows_def)
      then show ?thesis using ih r(2) Some by (auto simp: grows_def)
    qed (use ih r(2) in simp)
  next
    case False
    obtain it1 i s1 where st: "(case it_b it of
            None \<Rightarrow> (case addNewLocked now cid (it_spec it) s of (t, i) \<Rightarrow> (it\<lparr>it_b := Some i, it_isNew := True\<rparr>, i, t))
          | Some i \<Rightarrow> (if \<not> bp_Editor (copy_of i s) then it\<lparr>it_changed := True\<rparr> else it, i, s)) = (it1, i, s1)"
      by (rule prod_cases3)
    let ?s2 = "update_bp i (\<lambda>b. b\<lparr>bp_Editor := True\<rparr>) s1"
    obtain its1 t1 where r1: "place_items now cid its ?s2 = (its1, t1)" by fastforce
    have r: "place_items now cid its ?s2 = (its1, t)" "its' = it1 # its1"
      using 2(3) False st r1 by (simp_all add: Let_def)
    have g1: "grows cid {i} s s1 \<and> owned cid s1 i \<and> it_b it1 = Some i \<and> (\<forall>j. it_b it = Some j \<longrightarrow> j = i)"
    proof (cases "it_b it")
      case None
      obtain t i' where a: "addNewLocked now cid (it_spec it) s = (t, i')" by fastforce
      then have "s1 = t" "i = i'" "it_b it1 = Some i" using st None by auto
      then show ?thesis using grows_new[OF 2(4) a] None by simp
    next
      case (Some j)
      then have "s1 = s" "i = j" "it_b it1 = Some i" using st by (auto split: if_splits)
      then show ?thesis using Some 2(4,5) grows_refl by simp
    qed
    have inv1: "sess_inv s1" using g1 by (simp add: grows_def safe_def)
    have g2: "grows cid {i} s ?s2" using grows_trans[of cid "{i}" s s1 "{i}" ?s2] g1 grows_editor[OF inv1, of cid i] by simp
    have o2: "owned cid ?s2 i" using grows_editor[OF inv1, of cid i] g1 by (simp add: grows_def)
    have inv2: "sess_inv ?s2" using g2 by (simp add: grows_def safe_def)
    have sub: "\<forall>i \<in> served its. owned cid ?s2 i" using 2(5) g2 by (auto simp: grows_def split: option.splits)
    have ih: "grows cid (served its1) ?s2 t \<and> served its \<subseteq> served its1 \<and> length its1 = length its \<and> (\<forall>i \<in> served its1. owned cid t i)"
      by (rule 2(2)[OF False st[symmetric] refl refl refl r(1) inv2 sub])
    have "owned cid t i" using ih o2 by (simp add: grows_def)
    moreover have "served its' = insert i (served its1)" using r(2) g1 by simp
    moreover have "grows cid ({i} \<union> served its1) s t" using grows_trans[OF g2] ih by blast
    moreover have "served (it # its) \<subseteq> insert i (served its)" using g1 by (cases "it_b it") auto
    ultimately show ?thesis using ih r(2) by auto
  qed
qed

lemma in_bps_at:
  assumes "sess_inv s" "b \<in> set (all_bps s)"
  shows "b \<in> set (bps_at (bp_File b) s)"
proof -
  obtain bs where bs: "bs \<in> set (map snd (s_bps s))" "b \<in> set bs" using assms(2) unfolding all_bps_def set_concat by (rule UN_E)
  obtain k where k: "(k, bs) \<in> set (s_bps s)" using bs(1) by auto
  have inv: "distinct (map fst (s_bps s))" "list_all (\<lambda>(k, bs). bs \<noteq> [] \<and> list_all (\<lambda>b. bp_File b = k) bs) (s_bps s)"
    using assms(1) by (simp_all add: sess_inv_def bps_inv_def)
  have "case (k, bs) of (k, bs) \<Rightarrow> bs \<noteq> [] \<and> list_all (\<lambda>b. bp_File b = k) bs" using inv(2) k unfolding list_all_iff by (rule bspec)
  then have "bp_File b = k" using bs(2) by (simp add: list_all_iff)
  moreover have "map_of (s_bps s) k = Some bs" using inv(1) k by simp
  ultimately show ?thesis using bs(2) by (simp add: bps_at_def)
qed

lemma bps_at_file:
  assumes "sess_inv s" "b \<in> set (bps_at key s)"
  shows "bp_File b = key"
proof -
  obtain bs where bs: "map_of (s_bps s) key = Some bs" "b \<in> set bs"
    using assms(2) by (cases "map_of (s_bps s) key") (simp_all add: bps_at_def)
  have "list_all (\<lambda>(k, bs). bs \<noteq> [] \<and> list_all (\<lambda>b. bp_File b = k) bs) (s_bps s)"
    using assms(1) by (simp add: sess_inv_def bps_inv_def)
  then have "case (key, bs) of (k, bs) \<Rightarrow> bs \<noteq> [] \<and> list_all (\<lambda>b. bp_File b = k) bs"
    using map_of_SomeD[OF bs(1)] unfolding list_all_iff by (rule bspec)
  then show ?thesis using bs(2) by (simp add: list_all_iff)
qed

lemma bps_at_distinct:
  assumes "sess_inv s"
  shows "distinct (map bp_ID (bps_at key s))"
proof (cases "map_of (s_bps s) key")
  case (Some bs)
  obtain xs ys where "s_bps s = xs @ (key, bs) # ys" using map_of_SomeD[OF Some] by (meson split_list)
  then have "all_bps s = view_bps xs @ bs @ view_bps ys" by (simp add: all_bps_def view_bps_def)
  then show ?thesis using inv_ids[OF assms] Some by (simp add: bps_at_def)
qed (simp add: bps_at_def)

lemma drop_gone_spec:
  assumes "sess_inv s" "\<And>b. b \<in> set (all_bps s) \<Longrightarrow> bp_ID b \<in> set ids \<Longrightarrow> bp_File b = key \<and> \<not> prot cid b"
  shows "safe cid s (drop_gone key ids s) \<and> all_bps (drop_gone key ids s) = delete_func (\<lambda>b. bp_ID b \<in> set ids) (all_bps s)"
proof -
  let ?P = "\<lambda>b. bp_ID b \<in> set ids"
  have inv: "distinct (map fst (s_bps s))" "list_all (\<lambda>(k, bs). bs \<noteq> [] \<and> list_all (\<lambda>b. bp_File b = k) bs) (s_bps s)"
    using assms(1) by (simp_all add: sess_inv_def bps_inv_def)
  have hit: "list_all (\<lambda>b. ?P b \<longrightarrow> bp_File b = key) (view_bps (s_bps s))"
    unfolding list_all_iff all_bps_view[symmetric] using assms(2) by simp
  have "drop_gone key ids s = s\<lparr>s_bps := drop_bps ?P (s_bps s)\<rparr>"
    using drop_at_key[OF inv hit] by (simp add: drop_gone_def bps_at_def list_at_def Let_def split: if_splits)
  moreover have "sess_inv (s\<lparr>s_bps := drop_bps ?P (s_bps s)\<rparr>)"
    using assms(1) by (intro sess_inv_set_bps(2)) (simp_all add: sess_inv_def drop_bps_inv)
  moreover have "filter (prot cid) (delete_func ?P (all_bps s)) = filter (prot cid) (all_bps s)"
    by (rule filter_drop) (use assms(2) in simp)
  ultimately show ?thesis by (simp add: safe_def all_bps_view view_drop)
qed

lemma ident_in: "map ident (all_bps t) = map ident (all_bps s) \<Longrightarrow> b \<in> set (all_bps t) \<Longrightarrow> ident b \<in> ident ` set (all_bps s)"
  by (metis imageI list.set_map)

lemma ids_same: "map ident (all_bps t) = map ident (all_bps s) \<Longrightarrow> bp_ID ` set (all_bps t) = bp_ID ` set (all_bps s)"
proof -
  assume "map ident (all_bps t) = map ident (all_bps s)"
  then have "map fst (map ident (all_bps t)) = map fst (map ident (all_bps s))" by simp
  then have "map bp_ID (all_bps t) = map bp_ID (all_bps s)" by (simp add: comp_def ident_def)
  then show ?thesis by (metis list.set_map)
qed

lemma matchLocked_spec:
  assumes "matchLocked now cid key its keep s = (gone, its', t)" "sess_inv s" "served its = {}"
  shows "safe cid s t
    \<and> (\<forall>b. b \<in> set (all_bps s) \<longrightarrow> bp_ID b \<notin> bp_ID ` set (all_bps t)
        \<longrightarrow> bp_Owner b = cid \<and> \<not> bp_Temporary b \<and> bp_Editor b \<and> bp_File b = key \<and> bp_ID b \<notin> set keep)
    \<and> (\<forall>b. b \<in> set (all_bps t) \<longrightarrow> \<not> prot cid b \<and> bp_Editor b \<and> bp_File b = key
        \<longrightarrow> bp_ID b \<in> set keep \<or> bp_ID b \<in> served its')
    \<and> length its' = length its \<and> (\<forall>i \<in> served its'. owned cid t i)"
proof -
  let ?old = "filter (\<lambda>b. bp_Owner b = cid \<and> \<not> bp_Temporary b) (bps_at key s)"
  obtain left its1 s1 where m: "matchItems ?old its s = (left, its1, s1)" by (rule prod_cases3)
  define s2 where "s2 = (if gone \<noteq> [] then drop_gone key (map bp_ID gone) s1 else s1)"
  have g: "gone = delete_func (\<lambda>b. \<not> bp_Editor b \<or> bp_ID b \<in> set keep) left"
    using assms(1) m unfolding matchLocked_def Let_def by (simp split: prod.splits)
  have "place_items now cid its1 s2 = (its', t)"
    using assms(1) m unfolding matchLocked_def Let_def s2_def g by (simp only: prod.case) (simp split: prod.splits)
  note r = g this
  have old_s: "b \<in> set (all_bps s) \<and> \<not> prot cid b \<and> bp_File b = key" if "b \<in> set ?old" for b
    using that bps_at_all[of b key s] bps_at_file[OF assms(2), of b key] by (simp add: prot_def)
  have "mine cid s b" if "b \<in> set ?old" for b using old_s[OF that] by (simp add: mine_def)
  then have mine: "list_all (mine cid s) ?old" unfolding list_all_iff by blast
  have "distinct (map bp_ID ?old)" by (intro distinct_map_filter' bps_at_distinct assms(2))
  from matchItems_spec[OF m assms(2) mine this] have mi: "safe cid s s1" "map ident (all_bps s1) = map ident (all_bps s)"
    "set left \<subseteq> set ?old" "bp_ID ` set ?old \<subseteq> bp_ID ` set left \<union> served its1" "served its1 \<subseteq> served its \<union> bp_ID ` set ?old"
    "length its1 = length its" "served its = {} \<longrightarrow> served its1 \<inter> bp_ID ` set left = {}" by - (elim conjE, assumption)+
  let ?ids = "set (map bp_ID gone)"
  have inv1: "sess_inv s1" using mi(1) by (simp add: safe_def)
  have gone_s: "g \<in> set (all_bps s) \<and> \<not> prot cid g \<and> bp_File g = key \<and> bp_Editor g \<and> bp_ID g \<notin> set keep" if "g \<in> set gone" for g
    using that r(1) old_s[OF subsetD[OF mi(3), of g]] by simp
  have gone_left: "?ids \<subseteq> bp_ID ` set left" unfolding r(1) by (simp add: image_mono)
  have same_s: "b = g" if "b \<in> set (all_bps s)" "g \<in> set (all_bps s)" "bp_ID b = bp_ID g" for b g
    using same_id[OF inv_ids[OF assms(2)] that] .
  have hit1: "bp_File b = key \<and> \<not> prot cid b" if h: "b \<in> set (all_bps s1)" "bp_ID b \<in> ?ids" for b
  proof -
    obtain d where d: "d \<in> set (all_bps s)" "ident b = ident d" using ident_in[OF mi(2) h(1)] by (rule imageE)
    obtain g where g: "g \<in> set gone" "bp_ID b = bp_ID g" using h(2) unfolding set_map by (rule imageE)
    have "d = g" by (rule same_s) (use d g gone_s ident_eq[OF d(2)] in simp_all)
    then show ?thesis using gone_s[OF g(1)] ident_eq[OF d(2)] by (simp add: prot_def)
  qed
  have s2: "safe cid s1 s2 \<and> all_bps s2 = delete_func (\<lambda>b. bp_ID b \<in> ?ids) (all_bps s1)"
    using drop_gone_spec[OF inv1 hit1, of "map bp_ID gone"] safe_refl[OF inv1] by (simp add: s2_def)
  have own2: "\<forall>i \<in> served its1. owned cid s2 i"
  proof
    fix i assume i: "i \<in> served its1"
    then obtain q where q: "q \<in> set ?old" "i = bp_ID q" using mi(5) assms(3) by auto
    have "ident q \<in> ident ` set (all_bps s1)" using ident_in[OF mi(2)[symmetric]] old_s[OF q(1)] by simp
    then obtain c where c: "c \<in> set (all_bps s1)" "ident q = ident c" by (rule imageE)
    have "served its1 \<inter> bp_ID ` set left = {}" using mi(7) assms(3) by simp
    then have "i \<notin> ?ids" using i gone_left by blast
    then show "owned cid s2 i" unfolding owned_def
      using c q old_s[OF q(1)] ident_eq[OF c(2)] s2 by (intro exI[of _ c]) (simp add: prot_def)
  qed
  have inv2: "sess_inv s2" using s2 by (simp add: safe_def)
  from place_items_spec[OF r(2) inv2 own2] have pl: "grows cid (served its') s2 t" "served its1 \<subseteq> served its'"
    "length its' = length its1" "\<forall>i \<in> served its'. owned cid t i" by - (elim conjE, assumption)+
  have "safe cid s t" using safe_trans[OF mi(1) conjunct1[OF s2]] pl(1) safe_trans by (auto simp: grows_def)
  moreover have "bp_Owner b = cid \<and> \<not> bp_Temporary b \<and> bp_Editor b \<and> bp_File b = key \<and> bp_ID b \<notin> set keep"
    if b: "b \<in> set (all_bps s)" "bp_ID b \<notin> bp_ID ` set (all_bps t)" for b
  proof -
    have "bp_ID b \<notin> bp_ID ` set (all_bps s2)" using b(2) pl(1) unfolding grows_def by blast
    moreover have "bp_ID b \<in> bp_ID ` set (all_bps s1)" using ids_same[OF mi(2)] b(1) by (simp add: imageI)
    then obtain c where "c \<in> set (all_bps s1)" "bp_ID b = bp_ID c" by (rule imageE)
    ultimately have "bp_ID b \<in> ?ids" using s2 by (cases "bp_ID c \<in> ?ids") (simp_all add: imageI)
    then obtain g where "g \<in> set gone" "bp_ID b = bp_ID g" unfolding set_map by (rule imageE)
    then show ?thesis using gone_s[of g] same_s[OF b(1), of g] by (simp add: prot_def)
  qed
  moreover have "bp_ID b \<in> set keep \<or> bp_ID b \<in> served its'"
    if b: "b \<in> set (all_bps t)" "\<not> prot cid b \<and> bp_Editor b \<and> bp_File b = key" for b
  proof (cases "bp_ID b \<in> served its'")
    case False
    then have "ident b \<in> ident ` set (all_bps s2)" using pl(1) b(1) unfolding grows_def by blast
    then obtain c where c: "c \<in> set (all_bps s2)" "ident b = ident c" by (rule imageE)
    then have c1: "c \<in> set (all_bps s1)" "bp_ID c \<notin> ?ids" using s2 by simp_all
    obtain d where d: "d \<in> set (all_bps s)" "ident c = ident d" using ident_in[OF mi(2) c1(1)] by (rule imageE)
    note e = ident_eq[OF c(2)] ident_eq[OF d(2)]
    have "d \<in> set ?old" using in_bps_at[OF assms(2) d(1)] b(2) e by (simp add: prot_def)
    then have "bp_ID d \<in> bp_ID ` set left" using mi(4) pl(2) False e by auto
    then obtain l where l: "l \<in> set left" "bp_ID d = bp_ID l" by (rule imageE)
    have "d = l" by (rule same_s[OF d(1) _ l(2)]) (use old_s[OF subsetD[OF mi(3) l(1)]] in simp)
    moreover have "d \<notin> set gone" using c1(2) e by (auto simp del: bp_core_sel)
    ultimately show ?thesis using r(1) l(1) b(2) e by simp
  qed simp
  ultimately show ?thesis using pl(3,4) mi(6) by simp
qed

section \<open>The whole request\<close>

lemma quiet_log_item [simp]: "quiet s t \<Longrightarrow> quiet s (log_item now actor it t)"
  by (simp add: log_item_def split: option.splits)

lemma prot_core [simp]: "prot cid (bp_core b) = prot cid b"
  by (simp add: prot_def)

lemma view_prot: "filter (prot cid) (view_bps (bp_view s)) = map bp_core (filter (prot cid) (all_bps s))"
  unfolding all_view by (simp add: filter_map comp_def)

lemma annotate_ids: "map bp_ID (annotate E s bs) = map bp_ID bs"
  by (induction bs) (simp_all add: Let_def)

lemma refuse_served: "served (refuseLocked s seen its) = served its \<and> length (refuseLocked s seen its) = length its"
  by (induction s seen its rule: refuseLocked.induct) (simp_all split: option.splits sum.splits)

text \<open>Every breakpoint after a quiet step is one from before it, up to its place at the adapter, and conversely.\<close>

lemma quiet_origin:
  assumes "quiet s t" "b \<in> set (all_bps t)"
  obtains c where "c \<in> set (all_bps s)" "bp_core b = bp_core c"
proof -
  have "map bp_core (all_bps t) = map bp_core (all_bps s)" using quietD(1)[OF assms(1)] by (metis all_view)
  then have "bp_core b \<in> bp_core ` set (all_bps s)" using assms(2) by (metis imageI list.set_map)
  then show ?thesis using that by (rule imageE)
qed

lemma quiet_ids: "quiet s t \<Longrightarrow> bp_ID ` set (all_bps t) = bp_ID ` set (all_bps s)"
proof -
  assume "quiet s t"
  then have "map bp_ID (map bp_core (all_bps t)) = map bp_ID (map bp_core (all_bps s))" using quietD(1) by (metis all_view)
  then have "map bp_ID (all_bps t) = map bp_ID (all_bps s)" by (simp add: comp_def)
  then show ?thesis by (metis list.set_map)
qed

lemma item_ids:
  assumes "quiet t u" "sess_inv t" "\<forall>i \<in> served its. owned cid t i"
  shows "served its \<subseteq> bp_ID ` set (replaceResults E its u)"
proof
  fix i assume i: "i \<in> served its"
  then obtain it where it: "it \<in> set its" "it_b it = Some i" unfolding served_def by blast
  obtain b where b: "b \<in> set (all_bps t)" "bp_ID b = i" using assms(3) i unfolding owned_def by blast
  have "bp_ID (item_result E u it) = i"
    using core_eqD[OF conjunct2[OF copy_after[OF assms(1,2) b(1)]]] b(2) it(2)
    by (simp add: item_result_def api_of_def api_breakpoint.defs)
  then have "i \<in> bp_ID ` item_result E u ` set its" using it(1) by (metis imageI)
  then have "i \<in> set (map bp_ID (map (item_result E u) its))" unfolding set_map .
  then have "i \<in> set (map bp_ID (replaceResults E its u))" unfolding replaceResults_def annotate_ids .
  then show "i \<in> bp_ID ` set (replaceResults E its u)" by simp
qed

lemma replace_bps_spec:
  assumes "replace_bps E c key its keep s = (s', out, err)" "sess_inv s" "served its = {}" "s_state s \<noteq> StateExited"
  shows "sess_inv s' \<and> filter (prot (cl_ID c)) (view_bps (bp_view s')) = filter (prot (cl_ID c)) (view_bps (bp_view s))
    \<and> (\<forall>b. b \<in> set (all_bps s) \<longrightarrow> bp_ID b \<notin> bp_ID ` set (all_bps s')
        \<longrightarrow> bp_Owner b = cl_ID c \<and> \<not> bp_Temporary b \<and> bp_Editor b \<and> bp_File b = key \<and> bp_ID b \<notin> set keep)
    \<and> (\<forall>b. b \<in> set (all_bps s') \<longrightarrow> \<not> prot (cl_ID c) b \<and> bp_Editor b \<and> bp_File b = key
        \<longrightarrow> bp_ID b \<in> set keep \<or> bp_ID b \<in> bp_ID ` set out)
    \<and> length out = length its"
proof -
  obtain gone its2 t where m: "matchLocked (env_now E) (cl_ID c) key (refuseLocked s [] its) keep s = (gone, its2, t)" by (rule prod_cases3)
  let ?u = "fst (syncKey E key t)"
  let ?v = "fold (logBreakpointLocked (env_now E) ''removed'' (cl_ID c)) gone ?u"
  have r: "s' = fold (log_item (env_now E) (cl_ID c)) its2 ?v" "out = replaceResults E its2 s'"
    using assms(1,4) m by (auto simp: replace_bps_def Let_def case_prod_unfold)
  have "quiet ?v s'" unfolding r(1) by (rule quiet_fold) simp
  then have q: "quiet t s'" using quiet_trans[OF quiet_trans[OF quiet_syncKey quiet_logs]] by blast
  have "served (refuseLocked s [] its) = {}" using refuse_served[of s "[]" its] assms(3) by simp
  note ml = matchLocked_spec[OF m assms(2) this]
  then have safe: "safe (cl_ID c) s t" and gone: "\<forall>b. b \<in> set (all_bps s) \<longrightarrow> bp_ID b \<notin> bp_ID ` set (all_bps t)
        \<longrightarrow> bp_Owner b = cl_ID c \<and> \<not> bp_Temporary b \<and> bp_Editor b \<and> bp_File b = key \<and> bp_ID b \<notin> set keep"
    and ed: "\<forall>b. b \<in> set (all_bps t) \<longrightarrow> \<not> prot (cl_ID c) b \<and> bp_Editor b \<and> bp_File b = key
        \<longrightarrow> bp_ID b \<in> set keep \<or> bp_ID b \<in> served its2"
    and len: "length its2 = length (refuseLocked s [] its)" and own: "\<forall>i \<in> served its2. owned (cl_ID c) t i" by - (elim conjE, assumption)+
  have inv: "sess_inv t" using safe by (simp add: safe_def)
  have sub: "served its2 \<subseteq> bp_ID ` set out" unfolding r(2) by (rule item_ids[OF q inv own])
  have "bp_ID b \<in> set keep \<or> bp_ID b \<in> bp_ID ` set out"
    if b: "b \<in> set (all_bps s')" "\<not> prot (cl_ID c) b \<and> bp_Editor b \<and> bp_File b = key" for b
  proof -
    obtain d where d: "d \<in> set (all_bps t)" "bp_core b = bp_core d" using quiet_origin[OF q b(1)] by blast
    have "bp_Editor b = bp_Editor d" "prot (cl_ID c) b = prot (cl_ID c) d" "bp_ID b = bp_ID d" "bp_File b = bp_File d"
      using bp_core_sel(5) prot_core bp_core_sel(1,2) d(2) by metis+
    then show ?thesis using ed d(1) b(2) sub by auto
  qed
  moreover have "filter (prot (cl_ID c)) (view_bps (bp_view s')) = filter (prot (cl_ID c)) (view_bps (bp_view s))"
    using quietD(1)[OF q] safe by (simp add: view_prot safe_def)
  moreover have "length out = length its"
    using arg_cong[OF annotate_ids, of length] len refuse_served[of s "[]" its] r(2) by (simp add: replaceResults_def)
  ultimately show ?thesis using quietD(2)[OF q inv] gone unfolding quiet_ids[OF q] by blast
qed

lemma item_served: "served (map (\<lambda>sp. item (f sp) (g sp)) specs) = {}"
  by (induction specs) (simp_all add: item_def)

lemma ReplaceBreakpoints_facts:
  assumes "sess_inv s" "ReplaceBreakpoints E c file specs keep s = (s', out, err)"
    "FileKey (env_fs E) file = Inr key" "s_state s \<noteq> StateExited"
  shows "sess_inv s' \<and> filter (prot (cl_ID c)) (view_bps (bp_view s')) = filter (prot (cl_ID c)) (view_bps (bp_view s))
    \<and> (\<forall>b. b \<in> set (all_bps s) \<longrightarrow> bp_ID b \<notin> bp_ID ` set (all_bps s')
        \<longrightarrow> bp_Owner b = cl_ID c \<and> \<not> bp_Temporary b \<and> bp_Editor b \<and> bp_File b = key \<and> bp_ID b \<notin> set keep)
    \<and> (\<forall>b. b \<in> set (all_bps s') \<longrightarrow> \<not> prot (cl_ID c) b \<and> bp_Editor b \<and> bp_File b = key
        \<longrightarrow> bp_ID b \<in> set keep \<or> bp_ID b \<in> bp_ID ` set out)
    \<and> length out = length specs"
proof -
  let ?own = "map (\<lambda>sp. sp\<lparr>bs_File := file, bs_Function := [], bs_Anchor := []\<rparr>) specs"
  let ?r = "\<lambda>sp. resolveSpec (env_fs E) sp False"
  have "replace_bps E c key (map (\<lambda>sp. item (fst (?r sp)) (snd (?r sp))) ?own) keep s = (s', out, err)"
    using assms(2,3) by (simp add: ReplaceBreakpoints_def case_prod_unfold)
  from replace_bps_spec[OF this assms(1) item_served assms(4)] show ?thesis unfolding length_map .
qed

text \<open>
  C40: an editor's replace touches only what it may, and is exact. Whatever the adapter
  answers, other clients' breakpoints and run-until's temporary ones stay exactly as
  they were; a breakpoint disappears only if it was the client's own, set by its
  editor, in that file and not among the ids to keep; and afterwards every editor
  breakpoint of the client in the file is one the request kept or one of its results.
\<close>

theorem replace_breakpoints_spec:
  assumes "sess_inv s" "ReplaceBreakpoints E c file specs keep s = (s', out, err)"
    "FileKey (env_fs E) file = Inr key" "s_state s \<noteq> StateExited"
  shows "sess_inv s' \<and> filter (prot (cl_ID c)) (view_bps (bp_view s')) = filter (prot (cl_ID c)) (view_bps (bp_view s))
    \<and> (\<forall>b. b \<in> set (all_bps s) \<longrightarrow> bp_ID b \<notin> bp_ID ` set (all_bps s')
        \<longrightarrow> bp_Owner b = cl_ID c \<and> \<not> bp_Temporary b \<and> bp_Editor b \<and> bp_File b = key \<and> bp_ID b \<notin> set keep)
    \<and> (\<forall>b. b \<in> set (all_bps s') \<longrightarrow> \<not> prot (cl_ID c) b \<and> bp_Editor b \<and> bp_File b = key
        \<longrightarrow> bp_ID b \<in> set keep \<or> bp_ID b \<in> bp_ID ` set out)
    \<and> length out = length specs"
  by (rule ReplaceBreakpoints_facts[OF assms])

theorem replace_breakpoints_spec_witness:
  "sess_inv (fst (ReplaceBreakpoints demo_env (demo_client KindHuman) ''/a.cs'' [demo_spec] [] demo_added))
    \<and> length (fst (snd (ReplaceBreakpoints demo_env (demo_client KindHuman) ''/a.cs'' [demo_spec] [] demo_added))) = 1"
proof -
  let ?x = "ReplaceBreakpoints demo_env (demo_client KindHuman) ''/a.cs'' [demo_spec] [] demo_added"
  have key: "FileKey (env_fs demo_env) ''/a.cs'' = Inr ''/a.cs''" by (simp add: FileKey_def demo_env_def IsAbs_def)
  have st: "s_state demo_added \<noteq> StateExited"
    unfolding demo_added_def AddBreakpoint_def demo_resolve
    by (simp add: demo_session_more checkBreakpointCapsLocked_def checkMapped_def checkBreakpoint_def addBreakpointLocked_def
        bps_at_def addNewLocked_def syncKey_def syncBreakpoints_def demo_spec_def no_spec_def Let_def logBreakpointLocked_def)
  have eq: "?x = (fst ?x, fst (snd ?x), snd (snd ?x))" by simp
  show ?thesis using replace_breakpoints_spec[OF demo_added_inv eq key st] by simp
qed

end
