(* ===== verification/Go_Number.thy ===== *)
theory Go_Number
  imports Go_Base
begin

text \<open>
  What the stop filter uses of \<^verbatim>\<open>strconv\<close> and \<^verbatim>\<open>strings\<close> to read an evaluated value:
  \<^verbatim>\<open>ParseInt\<close> with base 0, whether \<^verbatim>\<open>ParseFloat\<close> reads zero, and comparing with
  \<^verbatim>\<open>ToLower\<close>.
\<close>

section \<open>Digits and underscores\<close>

definition letter_val :: "char \<Rightarrow> nat option" where
  "letter_val c = (if is_lower c then Some (byte c - 97) else if is_upper c then Some (byte c - 65) else None)"

definition digit36 :: "char \<Rightarrow> nat option" where
  "digit36 c = (if is_digit c then Some (digit_val c) else map_option (\<lambda>v. v + 10) (letter_val c))"

definition is_letter :: "char \<Rightarrow> char \<Rightarrow> bool" where
  "is_letter c l = (letter_val c \<noteq> None \<and> letter_val c = letter_val l)"

definition drop_sign :: "string \<Rightarrow> string" where
  "drop_sign s = (case s of c # t \<Rightarrow> if c = CHR ''-'' \<or> c = CHR ''+'' then t else s | [] \<Rightarrow> [])"

definition hex_digit :: "char \<Rightarrow> bool" where
  "hex_digit c = (is_digit c \<or> (case letter_val c of Some v \<Rightarrow> v < 6 | None \<Rightarrow> False))"

text \<open>\<^verbatim>\<open>underscoreOK\<close>: an underscore stands only after a digit or base prefix and before a digit.\<close>

fun underscore_loop :: "bool \<Rightarrow> char \<Rightarrow> string \<Rightarrow> bool" where
  "underscore_loop hex saw [] = (saw \<noteq> CHR ''_'')"
| "underscore_loop hex saw (c # s) =
    (if is_digit c \<or> (hex \<and> hex_digit c) then underscore_loop hex (CHR ''0'') s
     else if c = CHR ''_'' then saw = CHR ''0'' \<and> underscore_loop hex (CHR ''_'') s
     else saw \<noteq> CHR ''_'' \<and> underscore_loop hex (CHR ''!'') s)"

definition underscoreOK :: "string \<Rightarrow> bool" where
  "underscoreOK s =
    (case drop_sign s of
       z # p # t \<Rightarrow>
         if z = CHR ''0'' \<and> (is_letter p (CHR ''b'') \<or> is_letter p (CHR ''o'') \<or> is_letter p (CHR ''x''))
         then underscore_loop (is_letter p (CHR ''x'')) (CHR ''0'') t
         else underscore_loop False (CHR 0x5E) (z # p # t)
     | t \<Rightarrow> underscore_loop False (CHR 0x5E) t)"

section \<open>Integers\<close>

definition base_of :: "string \<Rightarrow> nat \<times> string" where
  "base_of s =
    (case s of
       z # p # d # t \<Rightarrow>
         if z \<noteq> CHR ''0'' then (10, s)
         else if is_letter p (CHR ''b'') then (2, d # t)
         else if is_letter p (CHR ''o'') then (8, d # t)
         else if is_letter p (CHR ''x'') then (16, d # t)
         else (8, p # d # t)
     | z # t \<Rightarrow> if z = CHR ''0'' then (8, t) else (10, s)
     | [] \<Rightarrow> (10, []))"

fun digits_in :: "nat \<Rightarrow> nat \<Rightarrow> string \<Rightarrow> nat option" where
  "digits_in base n [] = Some n"
| "digits_in base n (c # s) =
    (if c = CHR ''_'' then digits_in base n s
     else case digit36 c of
       None \<Rightarrow> None
     | Some d \<Rightarrow> if d < base then digits_in base (n * base + d) s else None)"

text \<open>\<^verbatim>\<open>ParseInt(s, 0, 64)\<close>; every error, a value out of range included, is \<open>None\<close>.\<close>

definition ParseInt0 :: "string \<Rightarrow> int option" where
  "ParseInt0 s =
    (let u = drop_sign s; (base, ds) = base_of u in
     if u = [] then None
     else case digits_in base 0 ds of
       None \<Rightarrow> None
     | Some n \<Rightarrow>
         if CHR ''_'' \<in> set ds \<and> \<not> underscoreOK u then None
         else let i = (if hd s = CHR ''-'' then - int n else int n)
              in if int64_ok i then Some i else None)"

section \<open>Floats\<close>

text \<open>The digits of a mantissa with at most one point: its value, how many digits follow the point, whether there are digits, and the rest.\<close>

fun mantissa :: "bool \<Rightarrow> bool \<Rightarrow> bool \<Rightarrow> nat \<Rightarrow> nat \<Rightarrow> string \<Rightarrow> nat \<times> nat \<times> bool \<times> string" where
  "mantissa hex dot digs m frac [] = (m, frac, digs, [])"
| "mantissa hex dot digs m frac (c # s) =
    (if c = CHR ''_'' then mantissa hex dot digs m frac s
     else if c = CHR ''.'' then (if dot then (m, frac, digs, c # s) else mantissa hex True digs m frac s)
     else if is_digit c \<or> (hex \<and> hex_digit c)
     then mantissa hex dot True (m * (if hex then 16 else 10) + (case digit36 c of Some d \<Rightarrow> d | None \<Rightarrow> 0))
       (if dot then frac + 1 else frac) s
     else (m, frac, digs, c # s))"

text \<open>The digits of an exponent, which stops growing at five digits.\<close>

fun exp_digits :: "nat \<Rightarrow> string \<Rightarrow> nat \<times> string" where
  "exp_digits e [] = (e, [])"
| "exp_digits e (c # s) =
    (if c = CHR ''_'' then exp_digits e s
     else if is_digit c then exp_digits (if e < 10000 then e * 10 + digit_val c else e) s
     else (e, c # s))"

definition exponent :: "bool \<Rightarrow> string \<Rightarrow> (int \<times> string) option" where
  "exponent hex s =
    (case s of
       c # t \<Rightarrow>
         if is_letter c (if hex then CHR ''p'' else CHR ''e'')
         then (let u = drop_sign t in
               if u = [] \<or> \<not> is_digit (hd u) then None
               else let (e, rest) = exp_digits 0 u in Some (if hd t = CHR ''-'' then - int e else int e, rest))
         else if hex then None else Some (0, s)
     | [] \<Rightarrow> if hex then None else Some (0, []))"

text \<open>
  \<^verbatim>\<open>ParseFloat\<close> succeeds on the whole text and its value is zero: the mantissa is, or
  the number is at most half the smallest positive double (the tie rounds to even).
  Infinities and NaN are not zero.
\<close>

definition rounds_to_zero :: "bool \<Rightarrow> nat \<Rightarrow> int \<Rightarrow> bool" where
  "rounds_to_zero hex m x =
    (m = 0 \<or> (if hex then x + 1075 \<le> 0 \<and> m \<le> 2 ^ nat (- x - 1075)
               else x < 0 \<and> m * 2 ^ 1075 \<le> 10 ^ nat (- x)))"

definition ParseFloat_zero :: "string \<Rightarrow> bool" where
  "ParseFloat_zero s =
    (let u = drop_sign s;
         hex = (case u of z # p # d # t \<Rightarrow> z = CHR ''0'' \<and> is_letter p (CHR ''x'') | _ \<Rightarrow> False);
         (m, frac, digs, rest) = mantissa hex False False 0 0 (if hex then drop 2 u else u)
     in digs \<and> (case exponent hex rest of
         None \<Rightarrow> False
       | Some (e, rest') \<Rightarrow>
           rest' = [] \<and> (CHR ''_'' \<notin> set s \<or> underscoreOK s)
           \<and> rounds_to_zero hex m (e - int (if hex then 4 * frac else frac))))"

section \<open>Lower case\<close>

text \<open>
  The runes of \<^verbatim>\<open>strings.ToLower\<close> as far as they are ASCII: besides A to Z only U+0130
  and the Kelvin sign have an ASCII lower case.
\<close>

definition lower_rune :: "rune \<Rightarrow> rune" where
  "lower_rune r = (if 65 \<le> r \<and> r \<le> 90 then r + 32 else if r = 0x130 then 105 else if r = 0x212A then 107 else r)"

definition lower_is :: "string \<Rightarrow> string \<Rightarrow> bool" where
  "lower_is s w = (map lower_rune (runes s) = map byte w)"

end
