(* ===== verification/Stop_Filter.thy ===== *)
theory Stop_Filter
  imports Exec Go_Number
begin

text \<open>
  The stop filter (\<^verbatim>\<open>emulate.go\<close>): when the adapter stops at a place where some
  breakpoint has a hit condition, a log message or a condition the adapter did not
  check, the filter decides whether the stop is published or the program continues.
\<close>

section \<open>The rule\<close>

text \<open>A breakpoint at the stop's place; the pointer to it is its id, and its owner never changes.\<close>

record plan_record =
  pl_ID :: int
  pl_Owner :: string
  pl_condition :: string
  pl_hits :: int
  pl_hit :: "hit_condition option"
  pl_log :: "log_part list"

record decision =
  d_stop :: bool
  d_stopFor :: "plan_record list"
  d_hit :: "plan_record list"
  d_logs :: "plan_record list"

fun decide_loop :: "(plan_record \<times> bool) list \<Rightarrow> decision \<Rightarrow> decision" where
  "decide_loop [] d = d"
| "decide_loop ((r, h) # rs) d =
    (if \<not> h then decide_loop rs d
     else if pl_hit r = None \<and> pl_log r = [] then decide_loop rs (d\<lparr>d_stopFor := d_stopFor d @ [r]\<rparr>)
     else let d1 = d\<lparr>d_hit := d_hit d @ [r]\<rparr> in
       if (case pl_hit r of Some hc \<Rightarrow> \<not> hit_holds hc (pl_hits r + 1) | None \<Rightarrow> False) then decide_loop rs d1
       else if pl_log r \<noteq> [] then decide_loop rs (d1\<lparr>d_logs := d_logs d1 @ [r]\<rparr>)
       else decide_loop rs (d1\<lparr>d_stopFor := d_stopFor d1 @ [r]\<rparr>))"

definition decide :: "plan_record list \<Rightarrow> bool list \<Rightarrow> decision" where
  "decide records hs =
    (let d = decide_loop (zip records hs) \<lparr>d_stop = False, d_stopFor = [], d_hit = [], d_logs = []\<rparr>
     in d\<lparr>d_stop := d_stopFor d \<noteq> []\<rparr>)"

fun toEvaluate_loop :: "plan_record list \<Rightarrow> string list \<Rightarrow> string list" where
  "toEvaluate_loop [] conds = conds"
| "toEvaluate_loop (r # rs) conds =
    toEvaluate_loop rs (if pl_condition r \<noteq> [] \<and> pl_condition r \<notin> set conds then conds @ [pl_condition r] else conds)"

definition toEvaluate :: "plan_record list \<Rightarrow> string list" where
  "toEvaluate records = toEvaluate_loop records []"

definition attribution :: "plan_record list \<Rightarrow> stop_breakpoint list" where
  "attribution records = sort_key sb_ID (map (\<lambda>r. \<lparr>sb_ID = pl_ID r, sb_Owner = pl_Owner r\<rparr>) records)"

section \<open>Breakpoints at a place\<close>

definition samePath :: "string \<Rightarrow> string \<Rightarrow> bool" where
  "samePath a b = (a \<noteq> [] \<and> b \<noteq> [] \<and> (a = b \<or> Clean a = Clean b))"

definition sameFile :: "fs \<Rightarrow> string \<Rightarrow> string \<Rightarrow> bool" where
  "sameFile F a b =
    (samePath a b \<or> (a \<noteq> [] \<and> b \<noteq> [] \<and>
      (case (fs_Stat F a, fs_Stat F b) of (Some ia, Some ib) \<Rightarrow> SameFile ia ib | _ \<Rightarrow> False)))"

definition plan_of :: "breakpoint \<Rightarrow> plan_record" where
  "plan_of b = \<lparr>pl_ID = bp_ID b, pl_Owner = bp_Owner b, pl_condition = bp_Condition b, pl_hits = bp_Hits b,
    pl_hit = b_hit b, pl_log = b_log b\<rparr>"

text \<open>One file's breakpoints at the line: if all have the same condition, the adapter checked it.\<close>

definition plan_group :: "plan_record list \<Rightarrow> plan_record list" where
  "plan_group g =
    (if \<not> contains_func (\<lambda>r. pl_condition r \<noteq> pl_condition (hd g)) g then map (\<lambda>r. r\<lparr>pl_condition := []\<rparr>) g else g)"

definition planLocked :: "api_frame \<Rightarrow> (breakpoint \<Rightarrow> bool) \<Rightarrow> session \<Rightarrow> plan_record list \<times> string list" where
  "planLocked fr at s =
    (let files = filter (\<lambda>(k, bs). k \<noteq> funcKey) (s_bps s)
     in (concat (map (\<lambda>(k, bs). plan_group (map plan_of (filter (\<lambda>b. bp_Line b = fr_Line fr \<and> at b) bs))) files), map fst files))"

definition planStop :: "fs \<Rightarrow> api_frame \<Rightarrow> session \<Rightarrow> plan_record list" where
  "planStop F fr s =
    (let (records, keys) = planLocked fr (\<lambda>b. samePath (b_source b) (fr_File fr) \<or> samePath (bp_File b) (fr_File fr)) s in
     if records \<noteq> [] \<or> fr_File fr = [] then records
     else case fs_Stat F (fr_File fr) of
       None \<Rightarrow> []
     | Some target \<Rightarrow>
         (case find (\<lambda>k. Base k = Base (fr_File fr) \<and> (case fs_Stat F k of Some i \<Rightarrow> SameFile i target | None \<Rightarrow> False)) keys of
            None \<Rightarrow> []
          | Some same \<Rightarrow> if same = [] then [] else fst (planLocked fr (\<lambda>b. bp_File b = same) s)))"

section \<open>Conditions and log messages\<close>

definition falsy_words :: "string list" where
  "falsy_words = [''false'', ''none'', ''null'', ''nil'', [CHR 0x27, CHR 0x27], [CHR 0x22, CHR 0x22], ''[]'', ''{}'', ''()'', ''set()'']"

definition truthy :: "string \<Rightarrow> bool" where
  "truthy v =
    (let t = TrimSpace v in
     if list_ex (lower_is t) falsy_words then False
     else case ParseInt0 t of
       Some n \<Rightarrow> n \<noteq> 0
     | None \<Rightarrow> \<not> ParseFloat_zero t)"

definition evalRaw :: "env \<Rightarrow> int \<Rightarrow> string \<Rightarrow> string action" where
  "evalRaw E fid expr = bind_act (evalBody E fid expr contextWatch) (\<lambda>(res, typ, ref). ret res)"

definition conditionHolds :: "env \<Rightarrow> int \<Rightarrow> string \<Rightarrow> bool action" where
  "conditionHolds E fid cond =
    try_act (evalRaw E fid cond) (\<lambda>r. case r of Inl _ \<Rightarrow> ret True | Inr v \<Rightarrow> ret (truthy v))"

definition held :: "env \<Rightarrow> int \<Rightarrow> plan_record list \<Rightarrow> bool list action" where
  "held E fid records =
    (let conds = toEvaluate records in
     bind_act (each (conditionHolds E fid) conds) (\<lambda>vs.
       ret (map (\<lambda>r. pl_condition r = [] \<or> map_of (zip conds vs) (pl_condition r) = Some True) records)))"

definition cutValue :: "string \<Rightarrow> nat \<Rightarrow> string" where
  "cutValue s n = (if RuneCount s \<le> n then s else take_runes n s @ [CHR 0xE2, CHR 0x80, CHR 0xA6])"

abbreviation maxLogValue :: nat where "maxLogValue \<equiv> 200"
abbreviation maxLogMessage :: nat where "maxLogMessage \<equiv> 1000"

definition render_part :: "env \<Rightarrow> int \<Rightarrow> log_part \<Rightarrow> string action" where
  "render_part E fid p =
    (if lp_expr p = [] then ret (lp_text p)
     else try_act (evalRaw E fid (lp_expr p)) (\<lambda>r.
       ret (cutValue (case r of Inr v \<Rightarrow> v | Inl e \<Rightarrow> ''<error: '' @ message_text (env_quote E) (err_message e) @ ''>'') maxLogValue)))"

definition renderLog :: "env \<Rightarrow> int \<Rightarrow> log_part list \<Rightarrow> string action" where
  "renderLog E fid parts = bind_act (each (render_part E fid) parts) (\<lambda>ts. ret (cutValue (concat ts) maxLogMessage))"

section \<open>The filter\<close>

definition stepEndedDescription :: string where
  "stepEndedDescription = ''the step ended at a breakpoint that doesn't stop here (a logpoint, an unmet hit count or a condition that doesn't hold)''"

definition pausedDescription :: string where
  "pausedDescription = ''paused at a breakpoint that doesn't stop here (a logpoint, an unmet hit count or a condition that doesn't hold)''"

definition publishReasonLocked :: "bool \<Rightarrow> session \<Rightarrow> string" where
  "publishReasonLocked stp s =
    (if stp then [] else if s_stepping s then stepEndedDescription else if s_pauseRequested s then pausedDescription else [])"

definition autoContinue :: "env \<Rightarrow> int \<Rightarrow> stop_info \<Rightarrow> unit action" where
  "autoContinue E gen st =
    with_state (\<lambda>s.
      if \<not> pendingLocked gen s then ret ()
      else bind_act (change (\<lambda>s. s\<lparr>s_execInFlight := True\<rparr>)) (\<lambda>_.
        try_act (sendExec E ExecContinue (si_ThreadID st)) (\<lambda>r.
          bind_act (change (\<lambda>s. s\<lparr>s_execInFlight := False\<rparr>)) (\<lambda>_.
            case r of Inr _ \<Rightarrow> ret () | Inl _ \<Rightarrow> change (publish (env_now E) gen st [])))))"

text \<open>Counting the hits and printing the logpoints' messages, under the lock.\<close>

definition count_hits :: "time \<Rightarrow> plan_record list \<Rightarrow> string list \<Rightarrow> session \<Rightarrow> session" where
  "count_hits now hits msgs s =
    fold (\<lambda>m. appendOutputLocked now ''logpoint'' (m @ [CHR 10])) msgs
      (fold (\<lambda>r. update_bp (pl_ID r) (\<lambda>b. b\<lparr>bp_Hits := bp_Hits b + 1\<rparr>)) hits s)"

definition settle :: "env \<Rightarrow> int \<Rightarrow> stop_info \<Rightarrow> decision \<Rightarrow> unit action" where
  "settle E gen st d =
    with_state (\<lambda>s.
      let desc = publishReasonLocked (d_stop d) s;
          st' = (if d_stop d then st\<lparr>si_Breakpoints := attribution (d_stopFor d)\<rparr> else st)
      in if d_stop d \<or> desc \<noteq> [] then change (publish (env_now E) gen st' desc)
         else autoContinue E gen st')"

definition filter_at :: "env \<Rightarrow> int \<Rightarrow> stop_info \<Rightarrow> frame \<Rightarrow> plan_record list \<Rightarrow> unit action" where
  "filter_at E gen st f records =
    bind_act (held E (f_id f) records) (\<lambda>hs.
      let d = decide records hs in
      bind_act (each (\<lambda>r. renderLog E (f_id f) (pl_log r)) (d_logs d)) (\<lambda>msgs.
        bind_act (change (count_hits (env_now E) (d_hit d) msgs)) (\<lambda>_. settle E gen st d)))"

definition filterStop :: "env \<Rightarrow> int \<Rightarrow> stop_info \<Rightarrow> unit action" where
  "filterStop E gen st =
    with_state (\<lambda>s.
      if \<not> pendingLocked gen s then ret ()
      else try_act (stack E (si_ThreadID st) 1) (\<lambda>r. case r of
        Inr (f # _) \<Rightarrow> with_state (\<lambda>s.
          let records = planStop (env_fs E) (api_frame.truncate f) s in
          if records = [] then change (publish (env_now E) gen st []) else filter_at E gen st f records)
      | _ \<Rightarrow> change (publish (env_now E) gen st [])))"

section \<open>The rule decides for every owner\<close>

definition reached :: "plan_record \<Rightarrow> bool" where
  "reached r = (case pl_hit r of Some hc \<Rightarrow> hit_holds hc (pl_hits r + 1) | None \<Rightarrow> True)"

definition wants_stop :: "plan_record \<Rightarrow> bool" where
  "wants_stop r = (pl_log r = [] \<and> reached r)"

lemma decide_loop_spec:
  "d_stopFor (decide_loop zs d) = d_stopFor d @ map fst (filter (\<lambda>(r, h). h \<and> wants_stop r) zs)
    \<and> d_hit (decide_loop zs d) = d_hit d @ map fst (filter (\<lambda>(r, h). h \<and> (pl_hit r \<noteq> None \<or> pl_log r \<noteq> [])) zs)
    \<and> d_logs (decide_loop zs d) = d_logs d @ map fst (filter (\<lambda>(r, h). h \<and> pl_log r \<noteq> [] \<and> reached r) zs)"
proof (induction zs d rule: decide_loop.induct)
  case (2 r h rs d)
  let ?hit = "case pl_hit r of Some hc \<Rightarrow> \<not> hit_holds hc (pl_hits r + 1) | None \<Rightarrow> False"
  have hit: "reached r = (\<not> ?hit)" by (simp add: reached_def split: option.splits)
  consider "\<not> h" | "h" "pl_hit r = None" "pl_log r = []" | "h" "pl_hit r \<noteq> None \<or> pl_log r \<noteq> []" "?hit"
    | "h" "pl_hit r \<noteq> None \<or> pl_log r \<noteq> []" "\<not> ?hit" "pl_log r \<noteq> []"
    | "h" "pl_hit r \<noteq> None \<or> pl_log r \<noteq> []" "\<not> ?hit" "pl_log r = []" by blast
  then show ?case
  proof cases
    case 1
    then show ?thesis using 2(1) by simp
  next
    case c: 2
    then show ?thesis using 2(2) hit by (simp add: wants_stop_def)
  next
    case c: 3
    then show ?thesis using 2(3) hit by (auto simp: wants_stop_def Let_def)
  next
    case c: 4
    then show ?thesis using 2(4) hit by (auto simp: wants_stop_def Let_def)
  next
    case c: 5
    then show ?thesis using 2(5) hit by (auto simp: wants_stop_def Let_def)
  qed
qed simp

lemma zip_map_self: "zip xs (map f xs) = map (\<lambda>x. (x, f x)) xs"
  by (induction xs) simp_all

lemma decide_spec:
  fixes h :: "plan_record \<Rightarrow> bool"
  shows "d_stop (decide rs (map h rs)) = list_ex (\<lambda>r. h r \<and> wants_stop r) rs"
    "d_stopFor (decide rs (map h rs)) = filter (\<lambda>r. h r \<and> wants_stop r) rs"
    "d_hit (decide rs (map h rs)) = filter (\<lambda>r. h r \<and> (pl_hit r \<noteq> None \<or> pl_log r \<noteq> [])) rs"
    "d_logs (decide rs (map h rs)) = filter (\<lambda>r. h r \<and> pl_log r \<noteq> [] \<and> reached r) rs"
  using decide_loop_spec[of "zip rs (map h rs)" "\<lparr>d_stop = False, d_stopFor = [], d_hit = [], d_logs = []\<rparr>"]
  by (simp_all add: decide_def Let_def zip_map_self filter_map comp_def filter_empty_conv list_ex_iff)

text \<open>
  A breakpoint on its own, with \<open>ev\<close> telling which conditions hold at this stop: would
  it stop the program here, and does it count a hit?
\<close>

definition alone_stops :: "(string \<Rightarrow> bool) \<Rightarrow> breakpoint \<Rightarrow> bool" where
  "alone_stops ev b = (ev (bp_Condition b) \<and> b_log b = []
    \<and> (case b_hit b of Some hc \<Rightarrow> hit_holds hc (bp_Hits b + 1) | None \<Rightarrow> True))"

definition alone_counts :: "(string \<Rightarrow> bool) \<Rightarrow> breakpoint \<Rightarrow> bool" where
  "alone_counts ev b = (ev (bp_Condition b) \<and> emulated b)"

definition place_groups :: "api_frame \<Rightarrow> (breakpoint \<Rightarrow> bool) \<Rightarrow> session \<Rightarrow> breakpoint list list" where
  "place_groups fr at s =
    map (\<lambda>(k, bs). filter (\<lambda>b. bp_Line b = fr_Line fr \<and> at b) bs) (filter (\<lambda>(k, bs). k \<noteq> funcKey) (s_bps s))"

text \<open>
  What the adapter promises: it stopped at a place whose breakpoints share one
  condition only because that condition holds.
\<close>

definition adapter_checked :: "(string \<Rightarrow> bool) \<Rightarrow> breakpoint list \<Rightarrow> bool" where
  "adapter_checked ev g = (\<forall>c. g \<noteq> [] \<and> list_all (\<lambda>b. bp_Condition b = c) g \<longrightarrow> ev c)"

abbreviation holds_at :: "(string \<Rightarrow> bool) \<Rightarrow> plan_record \<Rightarrow> bool" where
  "holds_at ev r \<equiv> pl_condition r = [] \<or> ev (pl_condition r)"

lemma group_filter:
  assumes "adapter_checked ev g" "ev []"
    "\<And>b. P (plan_of b) = Q b" "\<And>b. P ((plan_of b)\<lparr>pl_condition := []\<rparr>) = Q b"
  shows "map pl_ID (filter (\<lambda>r. holds_at ev r \<and> P r) (plan_group (map plan_of g)))
    = map bp_ID (filter (\<lambda>b. ev (bp_Condition b) \<and> Q b) g)"
proof (cases "\<not> contains_func (\<lambda>r. pl_condition r \<noteq> pl_condition (hd (map plan_of g))) (map plan_of g)")
  case True
  have "list_all (\<lambda>b. ev (bp_Condition b)) g"
  proof (cases g)
    case (Cons b g')
    have "list_all (\<lambda>x. bp_Condition x = bp_Condition b) g"
      using True Cons by (simp add: list_ex_iff list_all_iff plan_of_def)
    then show ?thesis using assms(1) Cons by (auto simp: adapter_checked_def list_all_iff)
  qed simp
  then have "filter (\<lambda>b. ev (bp_Condition b) \<and> Q b) g = filter Q g"
    by (simp add: list_all_iff cong: filter_cong)
  moreover have "map pl_ID (filter P (map (\<lambda>b. (plan_of b)\<lparr>pl_condition := []\<rparr>) g)) = map bp_ID (filter Q g)"
    using assms(4) by (simp add: filter_map comp_def plan_of_def)
  ultimately show ?thesis using True by (simp add: plan_group_def filter_map comp_def)
next
  case False
  then have "plan_group (map plan_of g) = map plan_of g" by (simp only: plan_group_def if_False)
  moreover have "holds_at ev (plan_of b) = ev (bp_Condition b)" for b using assms(2) by (auto simp: plan_of_def)
  ultimately show ?thesis using assms(3) by (simp add: filter_map comp_def) (simp add: plan_of_def)
qed

lemma concat_group_filter:
  assumes "\<And>g. g \<in> set gs \<Longrightarrow> adapter_checked ev g" "ev []"
    "\<And>b. P (plan_of b) = Q b" "\<And>b. P ((plan_of b)\<lparr>pl_condition := []\<rparr>) = Q b"
  shows "map pl_ID (filter (\<lambda>r. holds_at ev r \<and> P r) (concat (map (\<lambda>g. plan_group (map plan_of g)) gs)))
    = map bp_ID (filter (\<lambda>b. ev (bp_Condition b) \<and> Q b) (concat gs))"
  using assms(1)
proof (induction gs)
  case (Cons g gs)
  then have "adapter_checked ev g" by simp
  from group_filter[OF this assms(2-4)] show ?case using Cons by simp
qed simp

lemma planLocked_groups: "fst (planLocked fr at s) = concat (map (\<lambda>g. plan_group (map plan_of g)) (place_groups fr at s))"
  by (simp add: planLocked_def place_groups_def Let_def comp_def case_prod_unfold)

text \<open>
  C4: the filter's rule gives every owner what it would have had alone. At breakpoints of
  one place, with \<open>ev\<close> the truth of the conditions there and the adapter having checked
  the ones it was sent, the rule decides for a stop exactly if some breakpoint at the
  place, on its own, would have stopped the program; the breakpoints it decides for are
  exactly those; and exactly the breakpoints with a hit condition or a message whose
  condition holds count a hit. (What the filter does with the decision, and when it
  publishes a stop without one, is the last theorem of this theory.)
\<close>

theorem filter_decides_for_every_owner:
  assumes "fst (planLocked fr at s) = records" "ev []" "\<forall>g \<in> set (place_groups fr at s). adapter_checked ev g"
    "d = decide records (map (holds_at ev) records)"
  shows "d_stop d = list_ex (alone_stops ev) (concat (place_groups fr at s))
    \<and> map sb_ID (attribution (d_stopFor d)) = sort (map bp_ID (filter (alone_stops ev) (concat (place_groups fr at s))))
    \<and> map pl_ID (d_hit d) = map bp_ID (filter (alone_counts ev) (concat (place_groups fr at s)))"
proof -
  let ?gs = "place_groups fr at s"
  have r: "records = concat (map (\<lambda>g. plan_group (map plan_of g)) ?gs)" using assms(1) planLocked_groups by simp
  have checked: "g \<in> set ?gs \<Longrightarrow> adapter_checked ev g" for g using assms(3) by blast
  note f = concat_group_filter[of ?gs ev, OF checked assms(2)]
  have s: "map pl_ID (filter (\<lambda>r. holds_at ev r \<and> wants_stop r) records) = map bp_ID (filter (alone_stops ev) (concat ?gs))"
    unfolding r alone_stops_def[abs_def] by (rule f) (simp_all add: wants_stop_def reached_def plan_of_def split: option.splits)
  have h: "map pl_ID (filter (\<lambda>r. holds_at ev r \<and> (pl_hit r \<noteq> None \<or> pl_log r \<noteq> [])) records)
      = map bp_ID (filter (alone_counts ev) (concat ?gs))"
    unfolding r alone_counts_def[abs_def] by (rule f) (simp_all add: plan_of_def emulated_def)
  have "d_stop d = (filter (\<lambda>r. holds_at ev r \<and> wants_stop r) records \<noteq> [])"
    unfolding assms(4) decide_spec(1) by (auto simp: list_ex_iff filter_empty_conv)
  also have "\<dots> = (filter (alone_stops ev) (concat ?gs) \<noteq> [])" using arg_cong[OF s, of "\<lambda>xs. xs = []"] by simp
  finally have stop: "d_stop d = list_ex (alone_stops ev) (concat ?gs)" by (auto simp: list_ex_iff filter_empty_conv)
  have "map sb_ID (attribution rs) = sort (map pl_ID rs)" for rs
  proof -
    have "map f (sort_key f xs) = sort (map f xs)" for f :: "stop_breakpoint \<Rightarrow> int" and xs
      by (rule properties_for_sort[symmetric]) simp_all
    then show ?thesis by (simp add: attribution_def comp_def)
  qed
  then show ?thesis using stop s h unfolding assms(4) decide_spec by simp
qed

text \<open>Two breakpoints on one line: a human's with a condition that does not hold, an agent's without one.\<close>

definition demo_shared :: session where
  "demo_shared = demo_session\<lparr>s_bps := [(''/a.cs'', [new_bp 0 1 KindHuman demo_spec, new_bp 0 2 KindAgent (demo_spec\<lparr>bs_Condition := []\<rparr>)])]\<rparr>"

definition demo_here :: api_frame where
  "demo_here = no_frame\<lparr>fr_File := ''/a.cs'', fr_Line := 7\<rparr>"

definition demo_decision :: decision where
  "demo_decision = (let rs = fst (planLocked demo_here (\<lambda>b. bp_File b = ''/a.cs'') demo_shared) in decide rs (map (holds_at (\<lambda>c. c = [])) rs))"

theorem filter_decides_for_every_owner_witness:
  "d_stop demo_decision \<and> map sb_ID (attribution (d_stopFor demo_decision)) = [2] \<and> d_hit demo_decision = []"
proof -
  have g: "place_groups demo_here (\<lambda>b. bp_File b = ''/a.cs'') demo_shared
      = [[new_bp 0 1 KindHuman demo_spec, new_bp 0 2 KindAgent (demo_spec\<lparr>bs_Condition := []\<rparr>)]]"
    by (simp add: place_groups_def demo_shared_def demo_here_def new_bp_def setEmulated_def demo_spec_def no_spec_def parseEmulated_def Let_def)
  have b: "b_log (new_bp 0 i o' sp) = [] \<and> b_hit (new_bp 0 i o' sp) = None"
    if "bs_HitCondition sp = []" "bs_LogMessage sp = []" for i o' sp
    using that by (simp add: new_bp_def setEmulated_def parseEmulated_def)
  have d: "bs_HitCondition demo_spec = []" "bs_LogMessage demo_spec = []" "bs_Condition demo_spec = ''x > 1''"
    by (simp_all add: demo_spec_def no_spec_def)
  have "demo_decision = decide (fst (planLocked demo_here (\<lambda>b. bp_File b = ''/a.cs'') demo_shared))
      (map (holds_at (\<lambda>c. c = [])) (fst (planLocked demo_here (\<lambda>b. bp_File b = ''/a.cs'') demo_shared)))"
    by (simp add: demo_decision_def Let_def)
  from filter_decides_for_every_owner[OF refl _ _ this] show ?thesis
    by (simp add: g adapter_checked_def alone_stops_def alone_counts_def emulated_def b d)
qed

section \<open>A stop is swallowed only if nobody wants it\<close>

lemma toEvaluate_loop_set: "set (toEvaluate_loop rs conds) = set conds \<union> (pl_condition ` set rs - {[]})"
  by (induction rs conds rule: toEvaluate_loop.induct) auto

lemma toEvaluate_loop_distinct: "distinct conds \<Longrightarrow> distinct (toEvaluate_loop rs conds)"
  by (induction rs conds rule: toEvaluate_loop.induct) auto

text \<open>
  Finding out which conditions hold, one after the other: what the adapter answers to
  each, or that it cannot be evaluated, which counts as true.
\<close>

inductive finds :: "env \<Rightarrow> int \<Rightarrow> string list \<Rightarrow> session \<Rightarrow> (string \<times> bool) list \<Rightarrow> session \<Rightarrow> bool" for E fid where
  finds_none: "finds E fid [] a [] a"
| finds_value: "evalRaw E fid c a = (b, Inr v) \<Longrightarrow> finds E fid cs b found t \<Longrightarrow> finds E fid (c # cs) a ((c, truthy v) # found) t"
| finds_error: "evalRaw E fid c a = (b, Inl e) \<Longrightarrow> finds E fid cs b found t \<Longrightarrow> finds E fid (c # cs) a ((c, True) # found) t"

lemma each_finds:
  "\<exists>found t. each (conditionHolds E fid) cs a = (t, Inr (map snd found)) \<and> finds E fid cs a found t \<and> map fst found = cs"
proof (induction cs arbitrary: a)
  case Nil
  then show ?case by (intro exI[of _ "[]"] exI[of _ a]) (simp add: ret_def finds_none)
next
  case (Cons c cs)
  obtain b r where b: "evalRaw E fid c a = (b, r)" by force
  obtain found t where t: "each (conditionHolds E fid) cs b = (t, Inr (map snd found))" "finds E fid cs b found t" "map fst found = cs"
    using Cons by blast
  let ?h = "case r of Inl e \<Rightarrow> True | Inr v \<Rightarrow> truthy v"
  have "conditionHolds E fid c a = (b, Inr ?h)" using b by (simp add: conditionHolds_def try_act_def ret_def split: sum.split)
  then have "each (conditionHolds E fid) (c # cs) a = (t, Inr (map snd ((c, ?h) # found)))"
    using t(1) by (simp add: bind_act_def ret_def)
  moreover have "finds E fid (c # cs) a ((c, ?h) # found) t" using b t(2) by (cases r) (auto intro: finds_value finds_error)
  moreover have "map fst ((c, ?h) # found) = c # cs" using t(3) by simp
  ultimately show ?case by (intro exI[of _ "(c, ?h) # found"] exI[of _ t] conjI)
qed

abbreviation found_true :: "(string \<times> bool) list \<Rightarrow> plan_record \<Rightarrow> bool" where
  "found_true found r \<equiv> pl_condition r = [] \<or> (pl_condition r, True) \<in> set found"

lemma held_finds:
  "\<exists>conds found t. held E fid records a = (t, Inr (map (found_true found) records)) \<and> finds E fid conds a found t
    \<and> distinct conds \<and> set conds = pl_condition ` set records - {[]}"
proof -
  obtain found t where t: "each (conditionHolds E fid) (toEvaluate records) a = (t, Inr (map snd found))"
      "finds E fid (toEvaluate records) a found t" "map fst found = toEvaluate records"
    using each_finds by blast
  have d: "distinct (toEvaluate records)" by (simp add: toEvaluate_def toEvaluate_loop_distinct)
  have "zip (toEvaluate records) (map snd found) = found" unfolding t(3)[symmetric] by (simp add: zip_map_fst_snd)
  moreover have "map_of found c = Some True \<longleftrightarrow> (c, True) \<in> set found" for c
    using d t(3) by (metis map_of_eq_Some_iff)
  ultimately have "held E fid records a = (t, Inr (map (found_true found) records))"
    using t(1) by (simp add: held_def Let_def bind_act_def ret_def)
  then show ?thesis using t(2) d by (intro exI[of _ "toEvaluate records"]) (auto simp: toEvaluate_def toEvaluate_loop_set)
qed

lemma renderLog_text: "\<exists>t m. renderLog E fid ps a = (t, Inr m)"
proof -
  have part: "\<exists>t m. render_part E fid p b = (t, Inr m)" for p b
    by (auto simp: render_part_def try_act_def ret_def split: prod.splits)
  have "\<exists>t ms. each (render_part E fid) ps b = (t, Inr ms)" for b
  proof (induction ps arbitrary: b)
    case (Cons p ps)
    obtain t m where "render_part E fid p b = (t, Inr m)" using part by blast
    moreover obtain u ms where "each (render_part E fid) ps t = (u, Inr ms)" using Cons by blast
    ultimately show ?case by (simp add: bind_act_def ret_def)
  qed (simp add: ret_def)
  then show ?thesis unfolding renderLog_def bind_act_def ret_def by (metis (no_types, lifting) case_prod_conv sum.case(2))
qed

lemma each_renderLog: "\<exists>t ms. each (\<lambda>r. renderLog E fid (pl_log r)) rs a = (t, Inr ms)"
proof (induction rs arbitrary: a)
  case (Cons r rs)
  obtain t m where "renderLog E fid (pl_log r) a = (t, Inr m)" using renderLog_text by blast
  moreover obtain u ms where "each (\<lambda>r. renderLog E fid (pl_log r)) rs t = (u, Inr ms)" using Cons by blast
  ultimately show ?case by (simp add: bind_act_def ret_def)
qed (simp add: ret_def)

lemma publish_sent [simp]: "s_sent (publish now gen st desc s) = s_sent s"
  by (simp add: publish_def)

lemma writes_publish: "writes.act P (change (publish now gen st desc))"
  by (rule writes_same) simp

lemma writes_evalRaw: "writes.act no_exec (evalRaw E fid e)"
  unfolding evalRaw_def evalBody_def by (intro writes.act_bind writes_Call) (auto intro: writes.act_ret split: prod.splits)

lemma writes_held: "writes.act no_exec (held E fid rs)"
  unfolding held_def Let_def conditionHolds_def
  by (intro writes.act_bind writes.act_each writes.act_try writes_evalRaw writes.act_ret) (auto intro: writes.act_ret split: sum.splits)

lemma writes_renderLog: "writes.act no_exec (renderLog E fid ps)"
  unfolding renderLog_def render_part_def
  by (intro writes.act_bind writes.act_each writes.act_if writes.act_try writes_evalRaw writes.act_ret)

lemma count_hits_sent [simp]: "s_sent (count_hits now hs ms s) = s_sent s"
  by (simp add: count_hits_def fold_sent update_bp_def map_bps_def)

lemma writes_stack: "writes.act no_exec (stack E t n)"
  unfolding stack_def by (intro writes.act_bind writes_Call writes.act_ret) simp

lemma autoContinue_sent:
  "s_sent (fst (autoContinue E gen st s)) = s_sent s \<or> s_sent (fst (autoContinue E gen st s)) = s_sent s @ [ExecReq ExecContinue (si_ThreadID st)]"
proof (cases "pendingLocked gen s")
  case True
  let ?u = "s\<lparr>s_execInFlight := True\<rparr>"
  obtain v r where v: "sendExec E ExecContinue (si_ThreadID st) ?u = (v, r)" by force
  have "s_sent v = s_sent s @ [ExecReq ExecContinue (si_ThreadID st)]"
    using v Call_sent[of E "ExecReq ExecContinue (si_ThreadID st)" sel_any ?u] by (simp add: sendExec_def)
  then show ?thesis using True v
    by (simp add: autoContinue_def with_state_def bind_act_def change_def try_act_def ret_def split: sum.splits)
qed (simp add: autoContinue_def with_state_def ret_def)

text \<open>
  What the filter does with the stop \<open>st\<close> of generation \<open>gen\<close> in the session as it is at that
  moment: the stop is published, unless a later stop, a resume or the end of the program
  has overtaken it; or the program is continued, and a continue that fails publishes it.
\<close>

definition shows_stop :: "int \<Rightarrow> stop_info \<Rightarrow> session \<Rightarrow> session \<Rightarrow> bool" where
  "shows_stop gen st w t \<longleftrightarrow>
    (if s_stopGen w = gen \<and> s_state w \<noteq> StateExited
     then s_state t = StateStopped \<and> s_stop t = st \<and> s_stops t = s_stops w + 1 \<and> \<not> s_stepping t \<and> \<not> s_pauseRequested t \<and> s_sent t = s_sent w
     else t = w)"

definition continues :: "env \<Rightarrow> int \<Rightarrow> stop_info \<Rightarrow> session \<Rightarrow> session \<Rightarrow> bool" where
  "continues E gen st w t \<longleftrightarrow>
    (if s_stopGen w = gen \<and> s_state w \<noteq> StateExited
     then \<exists>x r. Call E (ExecReq ExecContinue (si_ThreadID st)) sel_any (w\<lparr>s_execInFlight := True\<rparr>) = (x, r)
       \<and> (if is_ok r then t = x\<lparr>s_execInFlight := False\<rparr> else shows_stop gen st (x\<lparr>s_execInFlight := False\<rparr>) t)
     else t = w)"

text \<open>
  The filter at breakpoints \<open>records\<close>, from the session \<open>u\<close> in which it found them to \<open>t\<close>: with
  what it found of their conditions, those that want the stop decide.
\<close>

definition decides :: "env \<Rightarrow> int \<Rightarrow> stop_info \<Rightarrow> int \<Rightarrow> plan_record list \<Rightarrow> session \<Rightarrow> session \<Rightarrow> bool" where
  "decides E gen st fid records u t \<longleftrightarrow>
    (\<exists>conds found v msgs v' w wanted. finds E fid conds u found v \<and> distinct conds \<and> set conds = pl_condition ` set records - {[]}
      \<and> each (\<lambda>r. renderLog E fid (pl_log r)) (filter (\<lambda>r. found_true found r \<and> pl_log r \<noteq> [] \<and> reached r) records) v = (v', Inr msgs)
      \<and> w = count_hits (env_now E) (filter (\<lambda>r. found_true found r \<and> (pl_hit r \<noteq> None \<or> pl_log r \<noteq> [])) records) msgs v'
      \<and> wanted = filter (\<lambda>r. found_true found r \<and> wants_stop r) records
      \<and> (if wanted \<noteq> [] then shows_stop gen (st\<lparr>si_Breakpoints := attribution wanted\<rparr>) w t
         else if s_stepping w then shows_stop gen (st\<lparr>si_Description := stepEndedDescription\<rparr>) w t
         else if s_pauseRequested w then shows_stop gen (st\<lparr>si_Description := pausedDescription\<rparr>) w t
         else continues E gen st w t))"

lemma publish_shows: "shows_stop gen (if desc \<noteq> [] then st\<lparr>si_Description := desc\<rparr> else st) w (publish now gen st desc w)"
  by (simp add: shows_stop_def publish_def pendingLocked_def applyStopLocked_def setStateLocked_def log_event_def bump_def Let_def)

lemma publish_plain: "shows_stop gen st w (publish now gen st [] w)"
  using publish_shows[of gen "[]"] by simp

lemma autoContinue_continues: "continues E gen st w (fst (autoContinue E gen st w))"
proof (cases "pendingLocked gen w")
  case True
  obtain x r where x: "Call E (ExecReq ExecContinue (si_ThreadID st)) sel_any (w\<lparr>s_execInFlight := True\<rparr>) = (x, r)" by force
  have "fst (autoContinue E gen st w) = (if is_ok r then x\<lparr>s_execInFlight := False\<rparr>
      else publish (env_now E) gen st [] (x\<lparr>s_execInFlight := False\<rparr>))"
    using True x by (cases r) (simp_all add: autoContinue_def sendExec_def with_state_def bind_act_def change_def try_act_def ret_def)
  then show ?thesis using True x publish_plain[of gen st "x\<lparr>s_execInFlight := False\<rparr>" "env_now E"]
    by (auto simp: continues_def pendingLocked_def)
qed (auto simp: autoContinue_def with_state_def ret_def continues_def pendingLocked_def)

lemma descriptions_said: "stepEndedDescription \<noteq> []" "pausedDescription \<noteq> []"
  by (simp_all add: stepEndedDescription_def pausedDescription_def)

lemma filter_at_decides:
  "decides E gen st (f_id f) records u (fst (filter_at E gen st f records u))"
proof -
  obtain conds found v where v: "held E (f_id f) records u = (v, Inr (map (found_true found) records))" "finds E (f_id f) conds u found v"
      "distinct conds" "set conds = pl_condition ` set records - {[]}"
    using held_finds by blast
  let ?d = "decide records (map (found_true found) records)"
  let ?wanted = "filter (\<lambda>r. found_true found r \<and> wants_stop r) records"
  let ?due = "filter (\<lambda>r. found_true found r \<and> pl_log r \<noteq> [] \<and> reached r) records"
  note D = decide_spec[of records "found_true found"]
  obtain v' msgs where v': "each (\<lambda>r. renderLog E (f_id f) (pl_log r)) ?due v = (v', Inr msgs)" using each_renderLog by blast
  define w where "w = count_hits (env_now E) (filter (\<lambda>r. found_true found r \<and> (pl_hit r \<noteq> None \<or> pl_log r \<noteq> [])) records) msgs v'"
  have t: "fst (filter_at E gen st f records u) = fst (settle E gen st ?d w)"
    using v(1) v' by (simp add: filter_at_def bind_act_def Let_def change_def D(3,4) w_def)
  have stop: "d_stop ?d \<longleftrightarrow> ?wanted \<noteq> []" by (auto simp: D(1) list_ex_iff filter_empty_conv)
  have dec: "if ?wanted \<noteq> [] then shows_stop gen (st\<lparr>si_Breakpoints := attribution ?wanted\<rparr>) w (fst (settle E gen st ?d w))
      else if s_stepping w then shows_stop gen (st\<lparr>si_Description := stepEndedDescription\<rparr>) w (fst (settle E gen st ?d w))
      else if s_pauseRequested w then shows_stop gen (st\<lparr>si_Description := pausedDescription\<rparr>) w (fst (settle E gen st ?d w))
      else continues E gen st w (fst (settle E gen st ?d w))"
  proof (cases "?wanted = []")
    case True
    then have "\<not> d_stop ?d" using stop by simp
    then show ?thesis unfolding True
      using publish_shows[of gen stepEndedDescription st w "env_now E"] publish_shows[of gen pausedDescription st w "env_now E"]
        autoContinue_continues[of E gen st w]
      by (simp add: settle_def with_state_def Let_def change_def publishReasonLocked_def descriptions_said)
  next
    case False
    then have "d_stop ?d" using stop by simp
    then have "fst (settle E gen st ?d w) = publish (env_now E) gen (st\<lparr>si_Breakpoints := attribution ?wanted\<rparr>) [] w"
      by (simp add: settle_def with_state_def Let_def change_def publishReasonLocked_def D(2))
    then show ?thesis using False publish_plain[of gen "st\<lparr>si_Breakpoints := attribution ?wanted\<rparr>" w "env_now E"] by simp
  qed
  show ?thesis
    unfolding decides_def t
    by (rule exI[of _ conds], rule exI[of _ found], rule exI[of _ v], rule exI[of _ msgs], rule exI[of _ v'], rule exI[of _ w],
        rule exI[of _ ?wanted]) (intro conjI v(2-4) v' w_def refl dec)
qed

text \<open>The filter writes requests that only read, and at most one continue after them.\<close>

definition reads_then_continues :: "stop_info \<Rightarrow> session \<Rightarrow> session \<Rightarrow> bool" where
  "reads_then_continues st s t \<longleftrightarrow>
    (\<exists>rs. list_all no_exec rs \<and> s_sent t \<in> {s_sent s @ rs, s_sent s @ rs @ [ExecReq ExecContinue (si_ThreadID st)]})"

lemma settle_sent: "reads_then_continues st w (fst (settle E gen st d w))"
  using autoContinue_sent[of E gen st w]
  by (auto simp: settle_def with_state_def Let_def change_def reads_then_continues_def intro!: exI[of _ "[]"])

lemma sends_reads: "sends no_exec s t \<Longrightarrow> reads_then_continues st s t"
  by (auto simp: sends_def reads_then_continues_def)

lemma reads_after: "sends no_exec s u \<Longrightarrow> reads_then_continues st u t \<Longrightarrow> reads_then_continues st s t"
  by (auto simp: sends_def reads_then_continues_def) (metis append.assoc list_all_append)+

lemma filter_at_sent: "reads_then_continues st s (fst (filter_at E gen st f records s))"
proof -
  obtain u q where u: "held E (f_id f) records s = (u, q)" by force
  have su: "sends no_exec s u" using writes.actD[OF writes_held, of s E "f_id f" records] u by simp
  show ?thesis
  proof (cases q)
    case (Inl e)
    then show ?thesis using u su sends_reads by (simp add: filter_at_def bind_act_def)
  next
    case (Inr hs)
    let ?d = "decide records hs"
    let ?logs = "each (\<lambda>r. renderLog E (f_id f) (pl_log r)) (d_logs ?d)"
    obtain v p where v: "?logs u = (v, p)" by force
    have "writes.act no_exec ?logs" by (intro writes.act_each writes_renderLog)
    then have sv: "sends no_exec s v" using su v sends_trans writes.actD[of no_exec ?logs u] by (metis fst_conv)
    show ?thesis
    proof (cases p)
      case (Inl e)
      then show ?thesis using u v sv Inr sends_reads by (simp add: filter_at_def bind_act_def Let_def)
    next
      case (Inr msgs)
      let ?w = "count_hits (env_now E) (d_hit ?d) msgs v"
      have "fst (filter_at E gen st f records s) = fst (settle E gen st ?d ?w)"
        using u v Inr \<open>q = Inr hs\<close> by (simp add: filter_at_def bind_act_def Let_def change_def)
      moreover have "sends no_exec s ?w" using sv by (simp add: sends_def)
      ultimately show ?thesis using reads_after settle_sent by metis
    qed
  qed
qed

text \<open>
  C6: what becomes of a stop. A stop that was overtaken before the filter looks changes
  nothing. If the adapter does not tell where the program is, or no breakpoint is there,
  the stop is published. Else the filter asks the adapter once for each condition that
  it has to find out, in this run and at the stop's own frame; one that cannot be
  evaluated counts as true. If some breakpoint there whose condition was found true wants
  the stop (no logpoint, its hit count due), the stop is published with exactly those
  breakpoints; if none does but a step or a pause ended there, it is published as that;
  only else is the program continued, and a continue that fails publishes the stop. The
  filter writes nothing that runs the program but that one continue, as its last request.
\<close>

theorem swallowed_stop_was_unwanted:
  "let t = fst (filterStop E gen st s) in
    reads_then_continues st s t
    \<and> (if \<not> (s_stopGen s = gen \<and> s_state s \<noteq> StateExited) then t = s
       else case stack E (si_ThreadID st) 1 s of
         (u, Inl e) \<Rightarrow> shows_stop gen st u t
       | (u, Inr []) \<Rightarrow> shows_stop gen st u t
       | (u, Inr (f # fs)) \<Rightarrow>
           let records = planStop (env_fs E) (api_frame.truncate f) u in
           if records = [] then shows_stop gen st u t else decides E gen st (f_id f) records u t)"
proof (cases "pendingLocked gen s")
  case True
  then have pend: "s_stopGen s = gen \<and> s_state s \<noteq> StateExited" by (simp add: pendingLocked_def)
  obtain u r where u: "stack E (si_ThreadID st) 1 s = (u, r)" by force
  have su: "sends no_exec s u" using writes.actD[OF writes_stack, of s E "si_ThreadID st" 1] u by simp
  let ?t = "fst (filterStop E gen st s)"
  have pub: "reads_then_continues st s (publish (env_now E) gen st [] u)" using su by (intro sends_reads) (simp add: sends_def)
  show ?thesis
  proof (cases "\<exists>f fs. r = Inr (f # fs)")
    case False
    then have t: "?t = publish (env_now E) gen st [] u"
      using True u by (auto simp: filterStop_def with_state_def try_act_def change_def split: sum.splits list.splits)
    have "shows_stop gen st u ?t" unfolding t by (rule publish_plain)
    then show ?thesis using pub pend False u unfolding Let_def t by (auto split: sum.split list.split)
  next
    case ex: True
    then obtain f fs where r: "r = Inr (f # fs)" by blast
    let ?rs = "planStop (env_fs E) (api_frame.truncate f) u"
    have t: "?t = (if ?rs = [] then publish (env_now E) gen st [] u else fst (filter_at E gen st f ?rs u))"
      using True u r by (simp add: filterStop_def with_state_def try_act_def change_def Let_def)
    have "reads_then_continues st s ?t" unfolding t using pub reads_after[OF su filter_at_sent] by simp
    moreover have "if ?rs = [] then shows_stop gen st u ?t else decides E gen st (f_id f) ?rs u ?t"
      unfolding t using publish_plain filter_at_decides by simp
    ultimately show ?thesis using pend u r by (simp add: Let_def)
  qed
next
  case False
  then have "fst (filterStop E gen st s) = s" by (simp add: filterStop_def with_state_def ret_def)
  then show ?thesis using False by (simp add: pendingLocked_def sends_reads sends_same)
qed

end
