(* ===== verification/Eval_Set.thy ===== *)
theory Eval_Set
  imports Exec
begin

text \<open>
  Evaluating expressions and setting variables (\<^verbatim>\<open>evalset.go\<close>). What may change the
  program is an execution request of the client: it needs a stopped program and the
  lease, and logs an exec event.
\<close>

record eval_params =
  pe_Expression :: string
  pe_Frame :: int
  pe_AllowSideEffects :: bool
  pe_Depth :: int
  pe_Budget :: int

record eval_result =
  vr_Expression :: string
  vr_Value :: string
  vr_Type :: string
  vr_HasChildren :: bool
  vr_Children :: "var list"
  vr_More :: int
  vr_Truncated :: bool

record set_params =
  ps_Variable :: string
  ps_Value :: string
  ps_Frame :: int

record set_result =
  sr_Variable :: string
  sr_Value :: string
  sr_Type :: string

section \<open>Evaluating\<close>

definition sideEffectsOf :: "env \<Rightarrow> string \<Rightarrow> string option" where
  "sideEffectsOf E expr = env_sideEffects E expr"

definition evaluate :: "env \<Rightarrow> eval_params \<Rightarrow> string \<Rightarrow> eval_result action" where
  "evaluate E p evalContext =
    bind_act (frameID E (pe_Frame p)) (\<lambda>fid.
    bind_act (evalBody E fid (pe_Expression p) evalContext) (\<lambda>(res, typ, ref).
      let r = (\<lambda>cs m tr. \<lparr>vr_Expression = pe_Expression p, vr_Value = truncate_text res, vr_Type = typ,
                vr_HasChildren = ref > 0, vr_Children = cs, vr_More = m, vr_Truncated = tr\<rparr>) in
      if pe_Depth p > 1 \<and> ref > 0
      then bind_act (variables E ref (pe_Depth p - 1)) (\<lambda>(cs, m).
        case Fit (NewFitter (pe_Budget p)) cs of (_, ks, omitted, cutOff) \<Rightarrow> ret (r ks (m + omitted) cutOff))
      else ret (r [] 0 False)))"

definition markStale :: "session \<Rightarrow> session" where
  "markStale s = s\<lparr>s_curStale := True\<rparr>"

text \<open>\<^verbatim>\<open>defer s.markStale()\<close>: after the call, whether it failed or not.\<close>

definition then_stale :: "'a action \<Rightarrow> 'a action" where
  "then_stale a = try_act a (\<lambda>r. bind_act (change markStale) (\<lambda>_. check r))"

definition admit_change :: "env \<Rightarrow> client \<Rightarrow> string \<Rightarrow> string \<Rightarrow> unit action" where
  "admit_change E c kind txt =
    bind_act (admit (env_now E) \<lparr>xr_client = c, xr_kind = kind, xr_thread = 0, xr_target = None, xr_text = txt\<rparr> 0) (\<lambda>_. ret ())"

definition Eval :: "env \<Rightarrow> client \<Rightarrow> eval_params \<Rightarrow> eval_result action" where
  "Eval E c p =
    (if \<not> pe_AllowSideEffects p
     then case sideEffectsOf E (pe_Expression p) of
         Some reason \<Rightarrow> fail (NewError CodeSideEffects [Lit (''eval would '' @ reason @ '', which can change the program'')])
       | None \<Rightarrow> evaluate E p contextWatch
     else bind_act (admit_change E c ExecEval (pe_Expression p)) (\<lambda>_. then_stale (evaluate E p contextRepl)))"

section \<open>Setting\<close>

definition setByEvaluate :: "env \<Rightarrow> int \<Rightarrow> string \<Rightarrow> set_params \<Rightarrow> set_result action" where
  "setByEvaluate E fid path p =
    bind_act (evalBody E fid (path @ '' = '' @ ps_Value p) contextRepl) (\<lambda>(res, typ, ref).
      ret \<lparr>sr_Variable = ps_Variable p, sr_Value = truncate_text res, sr_Type = typ\<rparr>)"

fun sel_setVariable :: "dap_response \<Rightarrow> (string \<times> string) option" where
  "sel_setVariable (SetVariableResp v t) = Some (v, t)"
| "sel_setVariable _ = None"

fun sel_setExpression :: "dap_response \<Rightarrow> (string \<times> string) option" where
  "sel_setExpression (SetExpressionResp v t) = Some (v, t)"
| "sel_setExpression _ = None"

definition setVariableResult :: "env \<Rightarrow> int \<Rightarrow> string \<Rightarrow> string \<Rightarrow> string \<times> string \<Rightarrow> set_result action" where
  "setVariableResult E parent name variable body =
    (let res = \<lparr>sr_Variable = variable, sr_Value = truncate_text (fst body), sr_Type = snd body\<rparr> in
     if sr_Value res \<noteq> [] then ret res
     else try_act (children E parent) (\<lambda>r. case r of
       Inl _ \<Rightarrow> ret res
     | Inr vs \<Rightarrow> (case find (\<lambda>v. dv_Name v = name) vs of
           None \<Rightarrow> ret res
         | Some v \<Rightarrow> ret (res\<lparr>sr_Value := truncate_text (dv_Value v), sr_Type := (if sr_Type res = [] then dv_Type v else sr_Type res)\<rparr>))))"

text \<open>The first cheap scope that holds a name.\<close>

definition scope_of :: "string \<Rightarrow> (int \<times> dap_variable list) list \<Rightarrow> int option" where
  "scope_of name svs = map_option fst (find (\<lambda>(ref, vs). name \<in> dv_Name ` set vs) svs)"

definition setVariable :: "env \<Rightarrow> int \<Rightarrow> string list \<Rightarrow> set_params \<Rightarrow> set_result action" where
  "setVariable E fid segs p =
    bind_act (scopes E fid) (\<lambda>scs.
    bind_act (each (\<lambda>sc. bind_act (children E (sc_VariablesReference sc)) (\<lambda>vs. ret (sc_VariablesReference sc, vs))) (cheap_scopes scs)) (\<lambda>svs.
      let candidates = concat (map snd svs) in
      case scope_of (hd segs) svs of
        None \<Rightarrow> fail (noMember [] (hd segs))
      | Some scope \<Rightarrow>
          bind_act (if length segs > 1
            then bind_act (walk E [] candidates (butlast segs)) (\<lambda>v.
              if dv_VariablesReference v = 0 then fail (no_members (butlast segs)) else ret (dv_VariablesReference v))
            else ret scope) (\<lambda>parent.
          bind_act (Call E (SetVariableReq parent (last segs) (ps_Value p)) sel_setVariable) (\<lambda>body.
            setVariableResult E parent (last segs) (ps_Variable p) body))))"

definition byEval :: "session \<Rightarrow> bool" where
  "byEval s = (s_setByEval s \<and> \<not> cap_SetExpression (s_caps s) \<and> \<not> cap_SetVariable (s_caps s))"

definition set_admissible :: "env \<Rightarrow> string list \<Rightarrow> session \<Rightarrow> unit result" where
  "set_admissible E segs s =
    (if byEval s then checkAssignable (env_letter E) (env_digit E) segs
     else if \<not> cap_SetExpression (s_caps s) \<and> \<not> cap_SetVariable (s_caps s) then Inl (unsupported ''set variables'' s)
     else Inr ())"

definition set_at :: "env \<Rightarrow> session \<Rightarrow> string list \<Rightarrow> set_params \<Rightarrow> set_result action" where
  "set_at E s0 segs p =
    bind_act (frameID E (ps_Frame p)) (\<lambda>fid.
      if byEval s0 then setByEvaluate E fid (joinPath segs) p
      else if cap_SetExpression (s_caps s0)
      then bind_act (Call E (SetExpressionReq (ps_Variable p) (ps_Value p) fid) sel_setExpression) (\<lambda>(v, t).
        ret \<lparr>sr_Variable = ps_Variable p, sr_Value = truncate_text v, sr_Type = t\<rparr>)
      else setVariable E fid segs p)"

definition Set :: "env \<Rightarrow> client \<Rightarrow> set_params \<Rightarrow> set_result action" where
  "Set E c p =
    bind_act (check (splitPath (ps_Variable p))) (\<lambda>segs.
      with_state (\<lambda>s.
        bind_act (check (set_admissible E segs s)) (\<lambda>_.
        bind_act (admit_change E c ExecSet (ps_Variable p)) (\<lambda>_.
          then_stale (set_at E s segs p)))))"

end
