(* ===== verification/Forward.thy ===== *)
theory Forward
  imports Eval_Set
begin

text \<open>
  Requests that an editor sends through the DAP facade (\<^verbatim>\<open>forward.go\<close>): which are
  refused, which only read and which are execution requests of the client. The copy
  of a request (\<^verbatim>\<open>outgoing\<close>) is the request itself, with the evaluation context the
  policy decided on: encoding it to JSON and back loses only fields that the
  protocol library does not know.
\<close>

section \<open>The policy\<close>

datatype forward_class = classRefused | classRead | classStoppedRead | classGuardedRead | classExecution

definition eval_policy :: "string \<Rightarrow> forward_class \<times> string" where
  "eval_policy c =
    (if c \<in> {contextWatch, ''hover'', ''variables''} then (classGuardedRead, c)
     else if c = ''clipboard'' then (classGuardedRead, contextWatch)
     else if c = contextRepl \<or> c = [] then (classExecution, contextRepl)
     else (classRefused, []))"

fun forwardPolicy :: "dap_request \<Rightarrow> forward_class \<times> string" where
  "forwardPolicy ThreadsReq = (classRead, [])"
| "forwardPolicy (SourceReq src) = (classRead, [])"
| "forwardPolicy LoadedSourcesReq = (classRead, [])"
| "forwardPolicy ModulesReq = (classRead, [])"
| "forwardPolicy (BreakpointLocationsReq src) = (classRead, [])"
| "forwardPolicy ReadMemoryReq = (classRead, [])"
| "forwardPolicy DisassembleReq = (classRead, [])"
| "forwardPolicy (StackTraceReq t n) = (classStoppedRead, [])"
| "forwardPolicy (ScopesReq f) = (classStoppedRead, [])"
| "forwardPolicy (VariablesReq r) = (classStoppedRead, [])"
| "forwardPolicy (ExceptionInfoReq t) = (classStoppedRead, [])"
| "forwardPolicy (CompletionsReq txt col) = (classStoppedRead, [])"
| "forwardPolicy (EvaluateReq e f c) = eval_policy c"
| "forwardPolicy (SetVariableReq r n v) = (classExecution, [])"
| "forwardPolicy (SetExpressionReq e v f) = (classExecution, [])"
| "forwardPolicy _ = (classRefused, [])"

definition ForwardsAsExecution :: "dap_request \<Rightarrow> bool" where
  "ForwardsAsExecution req = (fst (forwardPolicy req) = classExecution)"

fun declares :: "capabilities \<Rightarrow> dap_request \<Rightarrow> bool" where
  "declares caps LoadedSourcesReq = cap_LoadedSources caps"
| "declares caps ModulesReq = cap_Modules caps"
| "declares caps (BreakpointLocationsReq src) = cap_BreakpointLocations caps"
| "declares caps ReadMemoryReq = cap_ReadMemory caps"
| "declares caps DisassembleReq = cap_Disassemble caps"
| "declares caps (ExceptionInfoReq t) = cap_ExceptionInfo caps"
| "declares caps (CompletionsReq txt col) = cap_Completions caps"
| "declares caps _ = True"

fun command_of :: "dap_request \<Rightarrow> string" where
  "command_of (InitializeReq a b) = ''initialize''"
| "command_of (LaunchReq a) = ''launch''"
| "command_of (AttachReq a) = ''attach''"
| "command_of ConfigurationDoneReq = ''configurationDone''"
| "command_of (DisconnectReq b) = ''disconnect''"
| "command_of (SetBreakpointsReq s b) = ''setBreakpoints''"
| "command_of (SetFunctionBreakpointsReq b) = ''setFunctionBreakpoints''"
| "command_of (SetExceptionBreakpointsReq f) = ''setExceptionBreakpoints''"
| "command_of (ExecReq k t) = k"
| "command_of ThreadsReq = ''threads''"
| "command_of (StackTraceReq t n) = ''stackTrace''"
| "command_of (ScopesReq f) = ''scopes''"
| "command_of (VariablesReq r) = ''variables''"
| "command_of (EvaluateReq e f c) = ''evaluate''"
| "command_of (SetVariableReq r n v) = ''setVariable''"
| "command_of (SetExpressionReq e v f) = ''setExpression''"
| "command_of (ExceptionInfoReq t) = ''exceptionInfo''"
| "command_of (SourceReq s) = ''source''"
| "command_of LoadedSourcesReq = ''loadedSources''"
| "command_of ModulesReq = ''modules''"
| "command_of (BreakpointLocationsReq s) = ''breakpointLocations''"
| "command_of ReadMemoryReq = ''readMemory''"
| "command_of DisassembleReq = ''disassemble''"
| "command_of (CompletionsReq t c) = ''completions''"
| "command_of (GotoTargetsReq s) = ''gotoTargets''"
| "command_of (OtherReq c) = c"

fun refusedRequest :: "dap_request \<Rightarrow> error" where
  "refusedRequest (EvaluateReq e f c) = NewError CodeInvalidRequest [Lit ''evaluate context '', Quoted c, Lit '' is not supported'']"
| "refusedRequest req = NewError CodeInvalidRequest [Lit (''eyedbg's DAP facade does not support '' @ command_of req)]"

fun outgoing :: "dap_request \<Rightarrow> string \<Rightarrow> dap_request" where
  "outgoing (EvaluateReq e f c) evalContext = EvaluateReq e f (if evalContext \<noteq> [] then evalContext else c)"
| "outgoing req evalContext = req"

section \<open>Forwarding\<close>

fun forwardGuarded :: "env \<Rightarrow> dap_request \<Rightarrow> dap_response action" where
  "forwardGuarded E (EvaluateReq e f c) =
    (if f = 0 then fail (NewError CodeInvalidRequest [Lit ''evaluate in a read context (watch, hover, variables, clipboard) needs a frameId''])
     else with_state (\<lambda>s. bind_act (check (requireStopped s)) (\<lambda>_.
       case sideEffectsOf E e of
         Some reason \<Rightarrow> fail (NewError CodeSideEffects [Lit (''evaluating would '' @ reason @ '', which can change the program'')])
       | None \<Rightarrow> sendRequest E (EvaluateReq e f c))))"
| "forwardGuarded E req = fail (refusedRequest req)"

text \<open>The kind and text of the exec event of an execution request.\<close>

fun exec_of :: "session \<Rightarrow> dap_request \<Rightarrow> (string \<times> string) result" where
  "exec_of s (EvaluateReq e f c) = Inr (ExecEval, e)"
| "exec_of s (SetVariableReq r n v) =
    (if cap_SetVariable (s_caps s) then Inr (ExecSet, n) else Inl (unsupported ''set variables'' s))"
| "exec_of s (SetExpressionReq e v f) =
    (if cap_SetExpression (s_caps s) then Inr (ExecSet, e) else Inl (unsupported ''set expressions'' s))"
| "exec_of s req = Inl (refusedRequest req)"

definition forwardExecution :: "env \<Rightarrow> client \<Rightarrow> dap_request \<Rightarrow> dap_response action" where
  "forwardExecution E c req =
    with_state (\<lambda>s. bind_act (check (exec_of s req)) (\<lambda>(kind, txt).
      bind_act (admit_change E c kind txt) (\<lambda>_. then_stale (sendRequest E req))))"

fun bad_completions :: "dap_request \<Rightarrow> bool" where
  "bad_completions (CompletionsReq txt col) = (col < 1)"
| "bad_completions _ = False"

definition Forward :: "env \<Rightarrow> client \<Rightarrow> dap_request \<Rightarrow> dap_response action" where
  "Forward E c req =
    (case forwardPolicy req of (cls, evalContext) \<Rightarrow>
      if cls = classRefused then fail (refusedRequest req)
      else with_state (\<lambda>s.
        if \<not> declares (s_caps s) req
        then fail (NewError CodeUnsupported [Lit (''the '' @ s_Lang s @ '' debug adapter doesn't support '' @ command_of req)])
        else let out = outgoing req evalContext in
          (case cls of
             classRead \<Rightarrow> sendRequest E out
           | classStoppedRead \<Rightarrow>
               if bad_completions out then fail (NewError CodeInvalidRequest [Lit ''completions needs a 1-based column''])
               else bind_act (check (requireStopped s)) (\<lambda>_. sendRequest E out)
           | classGuardedRead \<Rightarrow> forwardGuarded E out
           | classExecution \<Rightarrow> forwardExecution E c out
           | classRefused \<Rightarrow> fail (refusedRequest req))))"

section \<open>What changes the program needs the lease\<close>

text \<open>
  Requests that do not change the program, as the policy sees them: an evaluation
  must be in a read context and free of side effects, and completions need a column.
\<close>

fun harmless :: "env \<Rightarrow> dap_request \<Rightarrow> bool" where
  "harmless E (EvaluateReq e f c) = (c \<in> {contextWatch, ''hover'', ''variables''} \<and> env_sideEffects E e = None)"
| "harmless E (CompletionsReq txt col) = (1 \<le> col)"
| "harmless E ThreadsReq = True"
| "harmless E (SourceReq s) = True"
| "harmless E LoadedSourcesReq = True"
| "harmless E ModulesReq = True"
| "harmless E (BreakpointLocationsReq s) = True"
| "harmless E ReadMemoryReq = True"
| "harmless E DisassembleReq = True"
| "harmless E (StackTraceReq t n) = True"
| "harmless E (ScopesReq f) = True"
| "harmless E (VariablesReq r) = True"
| "harmless E (ExceptionInfoReq t) = True"
| "harmless E _ = False"

lemma harmless_sent_form [simp]: "harmless E (sent_form s req) = harmless E req"
  by (cases req) (simp_all add: sent_form_def Outgoing_def split: option.splits)

lemma reads_harmless: "reads E r \<Longrightarrow> harmless E r"
  by (cases r) simp_all

lemma writes_mono: "(\<And>r. P r \<Longrightarrow> Q r) \<Longrightarrow> writes.act P a \<Longrightarrow> writes.act Q a"
  unfolding writes.act_def using sends_mono[of P Q] by blast

text \<open>The client may change the program now: it is stopped and the lease admits the client.\<close>

definition may_change :: "client \<Rightarrow> session \<Rightarrow> bool" where
  "may_change c s \<longleftrightarrow> s_state s = StateStopped \<and> allows (s_lease s) opExec c False"

lemma admit_change_refused:
  assumes "\<not> may_change c s" "kind \<noteq> ExecPause"
  shows "fst (admit_change E c kind txt s) = s \<and> \<not> is_ok (snd (admit_change E c kind txt s))"
proof -
  let ?r = "\<lparr>xr_client = c, xr_kind = kind, xr_thread = 0, xr_target = None, xr_text = txt\<rparr>"
  have "refusal ?r s \<noteq> None"
    using assms by (auto simp: may_change_def refusal_def admit_error_def split: option.splits)
  then obtain e where e: "refusal ?r s = Some e" by blast
  have "admit (env_now E) ?r 0 s = (s, Inl e)"
    using e acquire_refused[of s c]
    by (auto simp: refusal_def admit_def with_state_def fail_def bind_act_def split: option.splits if_splits)
  then show ?thesis by (simp add: admit_change_def bind_act_def)
qed

lemma admitted_refused:
  assumes "\<not> may_change c s" "kind \<noteq> ExecPause"
  shows "fst (bind_act (admit_change E c kind txt) f s) = s"
  using admit_change_refused[OF assms, of E "txt"]
  by (cases "admit_change E c kind txt s"; cases "snd (admit_change E c kind txt s)") (simp_all add: bind_act_def)

lemma writes_evaluate_watch: "env_sideEffects E (pe_Expression p) = None \<Longrightarrow> writes.act (reads E) (evaluate E p contextWatch)"
  unfolding evaluate_def evalBody_def
  by (intro writes.act_bind reading_writes.act_frameID reading_writes.R_evaluate)
    (auto intro!: writes.act_bind writes.act_ret reading_writes.act_variables simp: Let_def split: prod.splits)

lemma Eval_harmless: "sends (harmless E) s (fst (Eval E c p s)) \<or> may_change c s"
proof (cases "pe_AllowSideEffects p")
  case True
  then have "\<not> may_change c s \<Longrightarrow> fst (Eval E c p s) = s" by (simp add: Eval_def admitted_refused)
  then show ?thesis by (cases "may_change c s") (simp_all add: sends_same)
next
  case False
  then have "writes.act (reads E) (Eval E c p)"
    by (auto simp: Eval_def sideEffectsOf_def writes.act_fail intro: writes_evaluate_watch split: option.splits)
  then have "sends (harmless E) s (fst (Eval E c p s))" 
    by (intro writes.actD writes_mono[where P = "reads E", OF reads_harmless])
  then show ?thesis ..
qed

lemma Set_harmless: "sends (harmless E) s (fst (Set E c p s)) \<or> may_change c s"
proof (rule disjCI)
  assume n: "\<not> may_change c s"
  have "fst (Set E c p s) = s"
    using admitted_refused[OF n, of ExecSet E] by (auto simp: Set_def check_def bind_act_def with_state_def split: sum.splits)
  then show "sends (harmless E) s (fst (Set E c p s))" by (simp add: sends_same)
qed

lemma forwardExecution_refused:
  assumes "\<not> may_change c s"
  shows "fst (forwardExecution E c req s) = s"
proof (cases "exec_of s req")
  case (Inr p)
  then have "fst p \<noteq> ExecPause" by (cases req) (auto split: if_splits)
  then show ?thesis using Inr admitted_refused[OF assms, of "fst p" E]
    by (cases p) (simp add: forwardExecution_def with_state_def check_def bind_act_def)
qed (simp add: forwardExecution_def with_state_def check_def bind_act_def)

lemma writes_forwardGuarded:
  "forwardPolicy req = (classGuardedRead, ctx) \<Longrightarrow> writes.act (harmless E) (forwardGuarded E (outgoing req ctx))"
proof (cases req)
  case (EvaluateReq e f c)
  moreover assume "forwardPolicy req = (classGuardedRead, ctx)"
  ultimately have "ctx \<in> {contextWatch, ''hover'', ''variables''}" by (auto simp: eval_policy_def split: if_splits)
  then show ?thesis using EvaluateReq
    by (auto intro!: writes.act_rules writes_sendRequest simp: sideEffectsOf_def split: option.splits)
qed (auto simp: eval_policy_def)

text \<open>
  C2: nothing but an admitted execution request changes the program. Whatever an
  editor or a client sends through evaluating, setting a variable or forwarding a
  protocol request, and whatever the adapter answers: either every request written
  to the adapter is harmless (a read, an evaluation in a read context that the
  driver found free of side effects, completions with a column), or the program is
  stopped and the lease admits the client. A request of a refused class or without
  its capability is never written.
\<close>

theorem changes_need_the_lease:
  "(sends (harmless E) s (fst (Eval E c p s)) \<or> may_change c s)
    \<and> (sends (harmless E) s (fst (Set E c q s)) \<or> may_change c s)
    \<and> (sends (harmless E) s (fst (Forward E c req s)) \<or> may_change c s)
    \<and> (s_sent (fst (Forward E c req s)) = s_sent s \<or> fst (forwardPolicy req) \<noteq> classRefused \<and> declares (s_caps s) req)"
proof (intro conjI Eval_harmless Set_harmless)
  obtain cls ctx where pol: "forwardPolicy req = (cls, ctx)" by force
  show "s_sent (fst (Forward E c req s)) = s_sent s \<or> fst (forwardPolicy req) \<noteq> classRefused \<and> declares (s_caps s) req"
    using pol by (auto simp: Forward_def fail_def with_state_def)
  have refused: "declares (s_caps s) req \<or> fst (Forward E c req s) = s"
    using pol by (auto simp: Forward_def fail_def with_state_def)
  have F: "Forward E c req s = (case cls of
      classRead \<Rightarrow> sendRequest E (outgoing req ctx) s
    | classStoppedRead \<Rightarrow>
        (if bad_completions (outgoing req ctx) then fail (NewError CodeInvalidRequest [Lit ''completions needs a 1-based column'']) s
         else bind_act (check (requireStopped s)) (\<lambda>_. sendRequest E (outgoing req ctx)) s)
    | classGuardedRead \<Rightarrow> forwardGuarded E (outgoing req ctx) s
    | classExecution \<Rightarrow> forwardExecution E c (outgoing req ctx) s
    | classRefused \<Rightarrow> fail (refusedRequest req) s)" if "declares (s_caps s) req"
    using pol that by (simp add: Forward_def with_state_def Let_def split: forward_class.splits)
  show "sends (harmless E) s (fst (Forward E c req s)) \<or> may_change c s"
  proof (cases "declares (s_caps s) req")
    case False
    then show ?thesis using refused by (simp add: sends_same)
  next
    case True
    note F = F[OF True]
    show ?thesis
    proof (cases cls)
      case classRefused
      then show ?thesis using F by (simp add: fail_def sends_same)
    next
      case classRead
      then have "harmless E (outgoing req ctx)" using pol by (cases req) (auto simp: eval_policy_def split: if_splits)
      then have "writes.act (harmless E) (sendRequest E (outgoing req ctx))" by (intro writes_sendRequest) simp
      from writes.actD[OF this, of s] show ?thesis using F classRead by simp
    next
      case classStoppedRead
      then have c: "bad_completions (outgoing req ctx) \<or> harmless E (outgoing req ctx)"
        using pol by (cases req) (auto simp: eval_policy_def split: if_splits)
      have "harmless E (outgoing req ctx) \<Longrightarrow> writes.act (harmless E) (bind_act (check r) (\<lambda>_. sendRequest E (outgoing req ctx)))" for r :: "int result"
        by (intro writes.act_bind writes.act_check writes_sendRequest) simp
      note stopped = this[of "requireStopped s", THEN writes.actD, of s]
      show ?thesis using F classStoppedRead
      proof (cases "bad_completions (outgoing req ctx)")
        case False
        then show ?thesis using F classStoppedRead stopped c by simp
      qed (simp add: fail_def sends_same)
    next
      case classGuardedRead
      then show ?thesis using F pol writes.actD[OF writes_forwardGuarded[of req ctx E]] by simp
    next
      case classExecution
      then show ?thesis using F forwardExecution_refused[of c s E "outgoing req ctx"]
        by (cases "may_change c s") (simp_all add: sends_same)
    qed
  qed
qed

end
