(* ===== verification/Session_Steps.thy ===== *)
theory Session_Steps
  imports Replace Stop_Filter Forward Starting
begin

text \<open>
  A session as a state machine of whole calls: every operation a client can call, every
  event of the adapter, every connection that opens or closes, and the goroutines that
  handlers started (stop filters and adapter shutdowns), in any order, each with any
  environment: any time, file system and adapter. While a call waits for the adapter,
  the environment may do what an \<open>inter\<close> step does (events, lease calls, connections),
  but no other call runs inside it; \<open>Interleaving\<close> takes the calls apart and lets their
  critical sections alternate. The invariant holds in every reachable state.
\<close>

section \<open>Steps\<close>

inductive session_step :: "session \<Rightarrow> session \<Rightarrow> bool" where
  Inter: "session_step s (inter_step now i s)"
| Add: "session_step s (fst (AddBreakpoint E c spec s))"
| Remove: "session_step s (fst (RemoveBreakpoint E c i force s))"
| Replace: "session_step s (fst (ReplaceBreakpoints E c file specs keep s))"
| ReplaceFunctions: "session_step s (fst (ReplaceFunctionBreakpoints E c specs s))"
| Execute: "session_step s (fst (execute E r s))"
| RemoveTarget: "session_step s (fst (remove_act E actor (stillTemporary i) s))"
| End: "session_step s (fst (Terminate E c s))"
| EndByDaemon: "session_step s (terminate E [] reason s)"
| Evaluate: "session_step s (fst (Eval E c p s))"
| SetValue: "session_step s (fst (Set E c q s))"
| ForwardRequest: "session_step s (fst (Forward E c req s))"
| ExceptionMode: "session_step s (fst (Exceptions E c mode force s))"
| ExceptionSet: "session_step s (ExceptionsSet cn mode s)"
| Departure: "session_step s (leave E c gen s)"
| Frames: "session_step s (fst (Stack E t n s))"
| ListVars: "session_step s (fst (Vars E i d b s))"
| ExpandPath: "session_step s (fst (Expand E i path d b s))"
| ListChanges: "session_step s (fst (Changes E b s))"
| Initialize: "session_step s (fst (initialize E adapterID terminal s))"
| Configure: "session_step s (fst (configurationPhase E specs s))"
| ConfigureDone: "session_step s (fst (configurationDone E s))"
| Configured: "session_step s (configured s)"
| AdapterStart: "session_step s (adapterStarted s)"
| StartRequest: "session_step s (fst (Do E (start_request la) s))"
| WaitInitialized: "session_step s (fst (waitInitialized now meanwhile heard ctxErr resp s))"
| RunnerLine: "session_step s (fst (pump_line now category host line (s, run, first)))"
| TestHost: "session_step s (take_host pid la s)"
| RunFinished: "session_step s (finishRun now run s)"
| RunnerGone: "session_step s (fst (watchRunner now meanwhile code run s))"
| RecordingEnd: "session_step s (closeRecording s)"
| Filter: "(gen, st) \<in> set (s_filters s) \<Longrightarrow>
    session_step s (fst (filterStop E gen st (s\<lparr>s_filters := remove1 (gen, st) (s_filters s)\<rparr>)))"
| Shutdown: "b \<in> set (s_shutdowns s) \<Longrightarrow>
    session_step s (shutdownAdapter E b (s\<lparr>s_shutdowns := remove1 b (s_shutdowns s)\<rparr>))"

inductive reachable :: "session \<Rightarrow> bool" where
  Start: "reachable (newSession now sid lang mode la starter policy)"
| Created: "reachable (created now sid c p policy la mode recording)"
| TestRun: "reachable ((created now sid c p policy la mode recording)\<lparr>s_run := True\<rparr>)"
| Step: "reachable s \<Longrightarrow> session_step s t \<Longrightarrow> reachable t"

section \<open>Every step keeps the invariant\<close>

text \<open>The invariant of a session with identity \<open>I\<close>.\<close>

definition full_inv :: "string \<times> string \<times> string \<times> time \<times> bool \<Rightarrow> session \<Rightarrow> bool" where
  "full_inv I s \<longleftrightarrow> sess_inv s \<and> modes_inv (s_excModes s) \<and> identity s = I"

lemma keeps_full: "keeps_inv s t \<Longrightarrow> full_inv I s \<Longrightarrow> full_inv I t"
  by (simp add: keeps_inv_def full_inv_def fixed_def)

lemma quiet_full: "quiet s t \<Longrightarrow> full_inv I s \<Longrightarrow> full_inv I t"
  by (rule keeps_full[OF quiet_keeps])

lemma silent_full: "silent.act a \<Longrightarrow> full_inv I s \<Longrightarrow> full_inv I (fst (a s))"
  by (rule quiet_full[OF silent.actD])

lemma keeps_trans: "keeps_inv s t \<Longrightarrow> keeps_inv t u \<Longrightarrow> keeps_inv s u"
  by (simp add: keeps_inv_def)

lemma addBreakpointLocked_fixed: "fixed (fst (addBreakpointLocked now owner spec s)) = fixed s"
  by (simp add: addBreakpointLocked_def update_bp_def map_bps_def addNewLocked_def fixed_def identity_def Let_def split: option.splits)

lemma addBreakpointLocked_keeps: "keeps_inv s (fst (addBreakpointLocked now owner spec s))"
  by (simp add: keeps_inv_def addBreakpointLocked_inv addBreakpointLocked_fixed)

lemma AddBreakpoint_keeps: "keeps_inv s (fst (AddBreakpoint E c spec0 s))"
proof -
  obtain spec err where sp: "resolveSpec (env_fs E) spec0 True = (spec, err)" by force
  obtain t i isNew changed where t: "addBreakpointLocked (env_now E) (cl_ID c) spec s = (t, i, isNew, changed)" by (metis prod_cases4)
  obtain u r where u: "syncKey E (bs_File spec) t = (u, r)" by force
  have "keeps_inv s t" using addBreakpointLocked_keeps[of s "env_now E" "cl_ID c" spec] t by simp
  moreover have "quiet t u" using quiet_syncKey[of t E "bs_File spec"] u by simp
  ultimately have su: "keeps_inv s u" using quiet_keeps keeps_trans by blast
  have "quiet u (fst (AddBreakpoint E c spec0 s)) \<or> fst (AddBreakpoint E c spec0 s) = s"
    using sp t u by (auto simp: AddBreakpoint_def Let_def split: option.splits sum.splits)
  then show ?thesis
  proof
    assume "quiet u (fst (AddBreakpoint E c spec0 s))"
    then show ?thesis by (rule keeps_trans[OF su quiet_keeps])
  next
    assume "fst (AddBreakpoint E c spec0 s) = s"
    then show ?thesis by (simp add: keeps_inv_def)
  qed
qed

lemma RemoveBreakpoint_keeps: "keeps_inv s (fst (RemoveBreakpoint E c i force s))"
proof -
  have "keeps_inv s s" by (simp add: keeps_inv_def)
  then show ?thesis using removeBreakpoints_keeps[of s E "cl_ID c"]
    by (cases "findBreakpointLocked i s") (simp_all add: RemoveBreakpoint_def case_prod_unfold)
qed

lemma match_pass_fixed: "fixed (snd (snd (match_pass same old its s))) = fixed s"
  by (induction same old its s rule: match_pass.induct)
    (auto simp: update_bp_def map_bps_def fixed_def identity_def split: prod.splits option.splits)

lemma bps_fixed [simp]:
  "fixed (update_bp i f s) = fixed s" "fixed (fst (addNewLocked now owner spec s)) = fixed s"
  by (simp_all add: update_bp_def map_bps_def addNewLocked_def fixed_def identity_def Let_def)

lemma place_items_fixed: "fixed (snd (place_items now owner its s)) = fixed s"
proof (induction its arbitrary: s)
  case (Cons it its)
  then show ?case
    by (cases "it_refused it"; cases "it_b it") (simp_all add: case_prod_unfold Let_def)
qed simp

lemma matchLocked_fixed: "fixed (snd (snd (matchLocked now owner key its keep s))) = fixed s"
  using match_pass_fixed[of byRequested] match_pass_fixed[of byPlaced] place_items_fixed[of now owner]
  by (simp add: matchLocked_def matchItems_def drop_gone_def fixed_def identity_def Let_def case_prod_unfold)

lemma replace_bps_keeps:
  assumes "served its = {}"
  shows "keeps_inv s (fst (replace_bps E c key its keep s))"
proof (cases "s_state s = StateExited")
  case True
  then show ?thesis by (simp add: replace_bps_def quiet_keeps)
next
  case False
  obtain s' out err where r: "replace_bps E c key its keep s = (s', out, err)" by (rule prod_cases3)
  have inv: "sess_inv s \<Longrightarrow> sess_inv s'" using replace_bps_spec[OF r _ assms False] by blast
  obtain gone its2 t where m: "matchLocked (env_now E) (cl_ID c) key (refuseLocked s [] its) keep s = (gone, its2, t)" by (rule prod_cases3)
  let ?v = "fold (logBreakpointLocked (env_now E) ''removed'' (cl_ID c)) gone (fst (syncKey E key t))"
  have "s' = fold (log_item (env_now E) (cl_ID c)) its2 ?v"
    using r False m by (auto simp: replace_bps_def Let_def case_prod_unfold)
  moreover have "quiet ?v (fold (log_item (env_now E) (cl_ID c)) its2 ?v)" by (rule quiet_fold) simp
  ultimately have "quiet t s'" using quiet_trans[OF quiet_trans[OF quiet_syncKey quiet_logs]] by simp
  then have "fixed s' = fixed s"
    using quiet_fixed matchLocked_fixed[of "env_now E" "cl_ID c" key "refuseLocked s [] its" keep s] m by (metis snd_conv)
  then show ?thesis using inv r by (simp add: keeps_inv_def)
qed

lemma ReplaceBreakpoints_keeps: "keeps_inv s (fst (ReplaceBreakpoints E c file specs keep s))"
proof (cases "FileKey (env_fs E) file")
  case (Inr key)
  let ?own = "map (\<lambda>sp. sp\<lparr>bs_File := file, bs_Function := [], bs_Anchor := []\<rparr>) specs"
  let ?r = "\<lambda>sp. resolveSpec (env_fs E) sp False"
  have "ReplaceBreakpoints E c file specs keep s = replace_bps E c key (map (\<lambda>sp. item (fst (?r sp)) (snd (?r sp))) ?own) keep s"
    using Inr by (simp add: ReplaceBreakpoints_def Let_def case_prod_unfold)
  then show ?thesis using replace_bps_keeps[OF item_served, of s E c key] by (simp only:)
qed (simp add: ReplaceBreakpoints_def Let_def quiet_keeps)

lemma function_items_served: "served (map (function_item E) specs) = {}"
  by (induction specs) (auto simp: function_item_def item_def Let_def split: prod.splits)

lemma ReplaceFunction_keeps: "keeps_inv s (fst (ReplaceFunctionBreakpoints E c specs s))"
  unfolding ReplaceFunctionBreakpoints_def by (rule replace_bps_keeps) (rule function_items_served)

lemma quiet_terminate: "quiet s (terminate E who reason s)"
proof -
  let ?s1 = "if s_state s \<noteq> StateExited \<and> s_stopReason s = [] then s\<lparr>s_stopping := who, s_stopReason := reason\<rparr> else s"
  have "quiet s ?s1" by simp
  then show ?thesis unfolding terminate_def Let_def
    using quiet_trans[OF quiet_trans[OF _ quiet_shutdown] quiet_endLocked] by blast
qed

lemma silent_Terminate: "silent.act (Terminate E c)"
  unfolding Terminate_def by (intro silent.act_rules silent_acquire silent.act_change quiet_terminate)

lemma silent_evaluate: "silent.act (evaluate E p ctx)"
  unfolding evaluate_def evalBody_def
  by (intro silent.act_bind reading_silent.act_frameID silent_Call)
    (auto intro!: silent.act_bind silent.act_ret reading_silent.act_variables simp: Let_def split: prod.splits)

lemma silent_then_stale: "silent.act a \<Longrightarrow> silent.act (then_stale a)"
  unfolding then_stale_def
  by (intro silent.act_try silent.act_bind silent.act_change silent.act_check) (simp_all add: markStale_def)

lemma silent_admit_change: "silent.act (admit_change E c kind x)"
  unfolding admit_change_def by (intro silent.act_bind silent_admit silent.act_ret)

lemma silent_Eval: "silent.act (Eval E c p)"
  unfolding Eval_def
  by (auto intro!: silent.act_fail silent_evaluate silent.act_bind silent_admit_change silent_then_stale split: option.splits)

lemma silent_setVariable: "silent.act (setVariable E fid segs p)"
  unfolding setVariable_def setVariableResult_def Let_def
  by (intro silent.act_bind reading_silent.act_scopes silent.act_each reading_silent.act_children silent.act_ret)
    (auto intro!: silent.act_fail silent.act_bind silent.act_if reading_silent.act_walk silent.act_ret silent_Call silent.act_try
      reading_silent.act_children split: option.splits sum.splits)

lemma silent_Set: "silent.act (Set E c p)"
  unfolding Set_def set_at_def setByEvaluate_def evalBody_def
  by (intro silent.act_bind silent.act_check silent.act_with_state silent_admit_change silent_then_stale silent.act_if
      reading_silent.act_frameID silent_setVariable silent_Call)
    (auto intro!: silent.act_ret split: prod.splits)

lemma silent_forwardGuarded: "silent.act (forwardGuarded E req)"
  by (cases req)
    (auto intro!: silent.act_fail silent.act_if silent.act_with_state silent.act_bind silent.act_check silent_sendRequest split: option.splits)

lemma silent_Forward: "silent.act (Forward E c req)"
  unfolding Forward_def forwardExecution_def Let_def
  by (auto intro!: silent.act_fail silent.act_if silent.act_with_state silent.act_bind silent.act_check silent_sendRequest
      silent_forwardGuarded silent_admit_change silent_then_stale split: prod.splits forward_class.splits)

lemma setExceptionMode_full:
  assumes "full_inv I s"
  shows "full_inv I (fst (setExceptionMode E c mode force guard s))"
proof -
  let ?ms = "withMode (s_excModes s) (cl_ID c) mode force"
  let ?u = "fst (sendFilters E (filtersFor ?ms s) s)"
  have u: "full_inv I ?u" by (rule silent_full[OF silent_sendFilters assms])
  have "modes_inv ?ms" using assms withMode_inv by (simp add: full_inv_def)
  then have "full_inv I (store_modes (env_now E) c mode force ?ms ?u)"
    using u by (simp add: full_inv_def store_modes_def identity_def sess_inv_def pres_inv_def presence_of_def log_append_inv)
  then show ?thesis using u assms
    by (auto simp: setExceptionMode_def with_state_def fail_def ret_def bind_act_def check_def change_def Let_def
        split: option.splits sum.splits prod.splits)
qed

lemma Exceptions_full: "full_inv I s \<Longrightarrow> full_inv I (fst (Exceptions E c mode force s))"
  using setExceptionMode_full[of I s E c _ force None]
  by (auto simp: Exceptions_def fail_def with_state_def ret_def bind_act_def check_def split: sum.splits)

lemma quiet_del_presence: "quiet s (del_presence cid s)"
  by (rule quiet_presence) (simp_all add: pres_inv_def)

lemma quiet_give_up: "quiet s (give_up_lease now c gen s)"
proof -
  let ?s1 = "dropRequestLocked (cl_ID c) s"
  let ?s2 = "if cl_ID (le_holder (s_lease ?s1)) = cl_ID c then setHolderLocked now no_client (cl_ID c) ''release'' ''disconnected'' ?s1 else ?s1"
  have 1: "quiet s ?s1" using quiet_lease_step[of s now "CallDrop (cl_ID c)"] by simp
  have "lease_only ?s1 ?s2" by (simp add: setHolderLocked_def Let_def)
  then have "quiet ?s1 ?s2" by (rule quiet_lease_only) simp
  then have "quiet s (del_presence (cl_ID c) ?s2)" using quiet_trans[OF quiet_trans[OF 1] quiet_del_presence] by blast
  then show ?thesis by (simp add: give_up_lease_def Let_def)
qed

lemma leave_full: "full_inv I s \<Longrightarrow> full_inv I (leave E c gen s)"
proof -
  assume "full_inv I s"
  then have 1: "full_inv I (fst (removeBreakpoints E (cl_ID c) (leaves_bp c gen s) s))" by (rule keeps_full[OF removeBreakpoints_keeps])
  then show ?thesis unfolding leave_def Let_def
    using quiet_full[OF quiet_give_up] setExceptionMode_full[OF 1] by simp
qed

lemma quiet_ExceptionsSet: "quiet s (ExceptionsSet cn mode s)"
  by (rule quiet_presence) (auto simp: ExceptionsSet_def pres_inv_def split: option.splits)

lemma quiet_setCaps: "quiet s (setCaps caps s)"
  by (simp add: setCaps_def) (simp add: quiet_def kept_def bp_view_def sess_inv_def pres_inv_def presence_of_def)

lemma silent_initialize: "silent.act (initialize E a b)"
  unfolding initialize_def by (intro silent.act_bind silent_Call silent.act_change quiet_setCaps)

lemma safe_add_specs: "safe.act (add_specs now specs)"
proof (induction specs)
  case (Cons spec specs)
  show ?case unfolding safe.act_def
  proof
    fix s
    obtain t i isNew changed where t: "addBreakpointLocked now (cl_ID (s_starter s)) spec s = (t, i, isNew, changed)" by (metis prod_cases4)
    have "keeps_inv s t" using addBreakpointLocked_keeps[of s now "cl_ID (s_starter s)" spec] t by simp
    moreover have "safe.act (bind_act (add_specs now specs) (\<lambda>is. ret (if isNew then i # is else is)))"
      by (intro safe.act_bind Cons.IH safe.act_ret)
    ultimately have "keeps_inv s (fst (bind_act (add_specs now specs) (\<lambda>is. ret (if isNew then i # is else is)) t))"
      using keeps_trans safe.actD by blast
    then show "keeps_inv s (fst (add_specs now (spec # specs) s))"
      using t by (auto simp: keeps_inv_def split: sum.splits)
  qed
next
  case Nil
  have "add_specs now [] = ret []" by (rule ext) (simp add: ret_def)
  then show ?case by (simp add: safe.act_ret)
qed

lemma silent_configureExceptions: "silent.act (configureExceptions E)"
  unfolding configureExceptions_def Let_def by (intro silent.act_with_state silent.act_bind silent.act_check silent_sendFilters)

lemma silent_sync_all: "silent.act (\<lambda>s. case sync_keys E (map fst (s_bps s)) s of (s', Some e) \<Rightarrow> (s', Inl e) | (s', None) \<Rightarrow> (s', Inr ()))"
  unfolding silent.act_def
proof
  fix s
  show "quiet s (fst (case sync_keys E (map fst (s_bps s)) s of (s', Some e) \<Rightarrow> (s', Inl e) | (s', None) \<Rightarrow> (s', Inr ())))"
    using quiet_sync_keys[of s E "map fst (s_bps s)"]
    by (cases "sync_keys E (map fst (s_bps s)) s"; cases "snd (sync_keys E (map fst (s_bps s)) s)") simp_all
qed

lemma safe_configurationPhase: "safe.act (configurationPhase E specs)"
  unfolding configurationPhase_def
  by (intro safe.act_bind safe_add_specs silent_safe[OF silent_sync_all] silent_safe[OF silent_configureExceptions]
      silent_safe[OF silent.act_change] quiet_fold) simp

lemma silent_configurationDone: "silent.act (configurationDone E)"
  unfolding configurationDone_def by (intro silent.act_with_state silent.act_if silent.act_ret silent_Call)

lemma quiet_configured: "quiet s (configured s)"
  by (simp add: configured_def)

lemma count_hits_keeps: "keeps_inv s (count_hits now hs ms s)"
proof -
  have "keeps_inv t (fold (\<lambda>r. update_bp (pl_ID r) (\<lambda>b. b\<lparr>bp_Hits := bp_Hits b + 1\<rparr>)) hs t)" for t
  proof (induction hs arbitrary: t)
    case (Cons h hs)
    have "keeps_inv t (update_bp (pl_ID h) (\<lambda>b. b\<lparr>bp_Hits := bp_Hits b + 1\<rparr>) t)"
      by (simp add: keeps_inv_def update_bp_inv)
    from keeps_trans[OF this Cons.IH] show ?case by simp
  qed (simp add: keeps_inv_def)
  moreover have "quiet t (fold (\<lambda>m. appendOutputLocked now ''logpoint'' (m @ [CHR 10])) ms t)" for t
    by (rule quiet_fold) simp
  ultimately show ?thesis unfolding count_hits_def using keeps_trans quiet_keeps by blast
qed

lemma silent_evalRaw: "silent.act (evalRaw E fid e)"
  unfolding evalRaw_def evalBody_def by (intro silent.act_bind silent_Call) (auto intro: silent.act_ret split: prod.splits)

lemma silent_held: "silent.act (held E fid rs)"
  unfolding held_def Let_def conditionHolds_def
  by (intro silent.act_bind silent.act_each silent.act_try silent_evalRaw silent.act_ret) (auto intro: silent.act_ret split: sum.splits)

lemma silent_renderLog: "silent.act (renderLog E fid ps)"
  unfolding renderLog_def render_part_def
  by (intro silent.act_bind silent.act_each silent.act_if silent.act_try silent_evalRaw silent.act_ret)

lemma silent_settle: "silent.act (settle E gen st d)"
  unfolding settle_def autoContinue_def sendExec_def Let_def
  by (auto intro!: silent.act_with_state silent.act_if silent.act_change silent.act_bind silent.act_try silent_Call silent.act_fail silent.act_ret
      split: sum.splits)

lemma safe_filter_at: "safe.act (filter_at E gen st f records)"
  unfolding filter_at_def Let_def
  by (intro safe.act_bind safe.act_each silent_safe[OF silent_held] silent_safe[OF silent_renderLog] safe.act_change count_hits_keeps
      silent_safe[OF silent_settle])

lemma safe_filterStop: "safe.act (filterStop E gen st)"
  unfolding filterStop_def Let_def
  by (auto intro!: safe.act_with_state safe.act_if safe.act_ret safe.act_try silent_safe[OF reading_silent.act_stack]
      silent_safe[OF silent.act_change] safe_filter_at split: sum.splits list.splits)

lemma quiet_own: "quiet s t \<Longrightarrow> full_inv (identity s) s \<Longrightarrow> full_inv (identity t) t"
  using quiet_full[of s t "identity s"] by (simp add: full_inv_def)

lemma start_steps_keep:
  "keeps_inv s (adapterStarted s)" "keeps_inv s (take_host pid la s)"
  by (simp_all add: keeps_inv_def fixed_def identity_def sess_inv_def pres_inv_def presence_of_def adapterStarted_def take_host_def)

lemma quiet_finishRun: "quiet s t \<Longrightarrow> quiet s (finishRun now run t)"
  unfolding finishRun_def by (cases "tr_code run") (simp_all add: quiet_trans[OF _ quiet_endLocked])

lemma quiet_pump_line: "quiet s (fst (pump_line now category host line (s, run, first)))"
  by (simp add: pump_line_def Let_def quiet_trans[OF quiet_output quiet_output] split: option.split)

lemma quiet_watchRunner: "quiet s (fst (watchRunner now meanwhile code run s))"
  by (simp add: watchRunner_def Let_def quiet_finishRun)

lemma quiet_waitInitialized: "quiet s (fst (waitInitialized now meanwhile heard ctxErr resp s))"
  by (simp add: waitInitialized_def Let_def)

lemma created_full: "full_inv (identity (created now sid c p policy la mode recording)) (created now sid c p policy la mode recording)"
proof -
  define s0 where "s0 = (newSession now sid (sp_Lang p) mode la c policy)\<lparr>s_group := sp_Group p,
           s_excModes := withMode [] (cl_ID c) (sp_Exceptions p) False\<rparr>"
  have inv: "sess_inv s0" using new_session_inv[of now sid "sp_Lang p" mode la c policy]
    by (simp add: s0_def sess_inv_def pres_inv_def presence_of_def)
  have modes: "modes_inv (s_excModes s0)" using withMode_inv[of "[]"] by (simp add: s0_def modes_inv_def)
  have rec: "sess_inv (attachRecorder r path s0)" for r path
    using inv by (auto simp: attachRecorder_def setSink_def sess_inv_def pres_inv_def presence_of_def log_inv_def)
  define s1 where "s1 = (case recording of Some (r, path) \<Rightarrow> if sp_NoRecord p then s0 else attachRecorder r path s0 | None \<Rightarrow> s0)"
  have "full_inv (identity s1) s1"
    using inv modes rec by (simp add: s1_def full_inv_def attachRecorder_def split: option.split prod.split)
  moreover have "quiet s1 (created now sid c p policy la mode recording)"
    unfolding created_def Let_def s0_def[symmetric] s1_def[symmetric] by (simp add: logStarted_def)
  ultimately show ?thesis by (rule quiet_own[rotated])
qed

lemma step_full: "session_step s t \<Longrightarrow> full_inv I s \<Longrightarrow> full_inv I t"
proof (induction rule: session_step.induct)
  case (Filter gen st s E)
  have "full_inv I (s\<lparr>s_filters := remove1 (gen, st) (s_filters s)\<rparr>)" by (rule quiet_full[OF _ Filter(2)]) simp
  then show ?case by (rule keeps_full[OF safe.actD[OF safe_filterStop]])
next
  case (Shutdown b s E)
  have "full_inv I (s\<lparr>s_shutdowns := remove1 b (s_shutdowns s)\<rparr>)" by (rule quiet_full[OF _ Shutdown(2)]) simp
  then show ?case by (rule quiet_full[OF quiet_shutdown])
qed (rule quiet_full[OF quiet_inter] keeps_full[OF AddBreakpoint_keeps] keeps_full[OF RemoveBreakpoint_keeps]
    keeps_full[OF ReplaceBreakpoints_keeps] keeps_full[OF ReplaceFunction_keeps] keeps_full[OF safe.actD[OF safe_execute]]
    keeps_full[OF safe.actD[OF safe_remove]] silent_full[OF silent_Terminate] quiet_full[OF quiet_terminate] silent_full[OF silent_Eval]
    silent_full[OF silent_Set] silent_full[OF silent_Forward] Exceptions_full quiet_full[OF quiet_ExceptionsSet] leave_full
    silent_full[OF reading_silent.act_Stack] silent_full[OF reading_silent.act_Vars] silent_full[OF reading_silent.act_Expand]
    silent_full[OF reading_silent.act_Changes] silent_full[OF silent_initialize] keeps_full[OF safe.actD[OF safe_configurationPhase]]
    silent_full[OF silent_configurationDone] quiet_full[OF quiet_configured] keeps_full[OF start_steps_keep(1)]
    keeps_full[OF start_steps_keep(2)] quiet_full[OF quiet_Do] quiet_full[OF quiet_waitInitialized]
    quiet_full[OF quiet_pump_line] quiet_full[OF quiet_finishRun[OF quiet_refl]] quiet_full[OF quiet_watchRunner]
    quiet_full[OF quiet_closeRecording[OF quiet_refl]], assumption)+

lemma reachable_full: "reachable s \<Longrightarrow> full_inv (identity s) s"
proof (induction rule: reachable.induct)
  case (Start now sid lang mode la starter policy)
  show ?case by (simp add: full_inv_def new_session_inv) (simp add: newSession_def modes_inv_def)
next
  case (Created now sid c p policy la mode recording)
  show ?case by (rule created_full)
next
  case (TestRun now sid c p policy la mode recording)
  show ?case using created_full[of now sid c p policy la mode recording]
    by (simp add: full_inv_def sess_inv_def pres_inv_def presence_of_def)
next
  case (Step s t)
  have "full_inv (identity s) t" by (rule step_full[OF Step.hyps(2) Step.IH])
  then show ?case by (simp add: full_inv_def)
qed

lemma step_identity: "reachable s \<Longrightarrow> session_step s t \<Longrightarrow> identity t = identity s"
  using step_full[of s t "identity s", OF _ reachable_full] by (simp add: full_inv_def)

end
