(* ===== verification/Manager_Spec.thy ===== *)
theory Manager_Spec
  imports Manager Session_Steps
begin

text \<open>
  What the manager guarantees: claims on containers exclude each other in every
  interleaving of the goroutines that take, take over and release them; taking a claim
  ends after at most two looks; and ending a session leaves every other one alone, also
  one that has been given the same id meanwhile.
\<close>

section \<open>Taking a claim ends\<close>

definition in_the_way :: "string \<Rightarrow> (string \<Rightarrow> bool) \<Rightarrow> manager \<Rightarrow> (string \<times> ptr) list" where
  "in_the_way cid conflicts m = filter (\<lambda>(k, h). has_prefix k (cid @ [SL]) \<and> conflicts k) (mg_claims m)"

definition claimed :: "ptr \<Rightarrow> string \<Rightarrow> manager \<Rightarrow> manager" where
  "claimed p key m = on_session p (\<lambda>s. s\<lparr>s_claimKey := key\<rparr>) (m\<lparr>mg_claims := aput key p (mg_claims m)\<rparr>)"

lemma take_scan_alt:
  "take_scan p cid key conflicts m =
    (if in_the_way cid conflicts m = [] then (claimed p key m, []) else (m, in_the_way cid conflicts m))"
  by (simp add: take_scan_def in_the_way_def claimed_def Let_def)

lemma drop_claim_filter:
  assumes "distinct (map fst claims)" "c \<in> set claims"
  shows "drop_claim c claims = filter (\<lambda>d. d \<noteq> c) claims"
proof -
  have "map_of claims (fst c) = Some (snd c)" using assms by simp
  moreover have "(a \<noteq> fst c) = ((a, b) \<noteq> c)" if "(a, b) \<in> set claims" for a b
    using eq_key_imp_eq_value[OF assms(1), of "fst c" b "snd c"] assms(2) that by (cases c) auto
  then have "filter (\<lambda>(k, _). k \<noteq> fst c) claims = filter (\<lambda>d. d \<noteq> c) claims"
    by (intro filter_cong refl) (simp only: split_paired_all prod.case)
  ultimately show ?thesis by (simp add: drop_claim_def adel_def)
qed

lemma drop_claims_filter:
  "distinct (map fst claims) \<Longrightarrow> set found \<subseteq> set claims \<Longrightarrow> distinct found
    \<Longrightarrow> fold drop_claim found claims = filter (\<lambda>d. d \<notin> set found) claims"
proof (induction found arbitrary: claims)
  case (Cons c found)
  have c: "drop_claim c claims = filter (\<lambda>d. d \<noteq> c) claims"
    using Cons.prems by (intro drop_claim_filter) simp_all
  have "fold drop_claim found (filter (\<lambda>d. d \<noteq> c) claims) = filter (\<lambda>d. d \<notin> set found) (filter (\<lambda>d. d \<noteq> c) claims)"
    using Cons.prems by (intro Cons.IH) (auto simp: distinct_map_filter')
  then show ?case by (simp add: c conj_commute)
qed simp

lemma take_claim_outcome:
  assumes "distinct (map fst (mg_claims m))" and "found = in_the_way cid conflicts m"
  shows "take_claim p cid key conflicts refuse m =
    (case find (\<lambda>(k, h). \<not> exited m h) found of
       Some c \<Rightarrow> (m, Inl (refuse c))
     | None \<Rightarrow> (claimed p key (m\<lparr>mg_claims := filter (\<lambda>d. d \<notin> set found) (mg_claims m)\<rparr>), Inr ()))"
proof (cases found)
  case Nil
  then show ?thesis using assms(2) by (simp add: take_claim.simps[of p] take_scan_alt)
next
  case (Cons c cs)
  let ?m = "m\<lparr>mg_claims := filter (\<lambda>d. d \<notin> set found) (mg_claims m)\<rparr>"
  have scan: "take_scan p cid key conflicts m = (m, c # cs)" using assms(2)[symmetric] Cons by (simp add: take_scan_alt)
  show ?thesis
  proof (cases "find (\<lambda>(k, h). \<not> exited m h) found")
    case (Some d)
    then show ?thesis using scan Cons by (simp add: take_claim.simps[of p])
  next
    case None
    have "set found \<subseteq> set (mg_claims m)" "distinct found"
      using assms by (auto simp: in_the_way_def distinct_map)
    then have over: "take_over (c # cs) m = ?m"
      using drop_claims_filter[OF assms(1), of found] Cons by (simp add: take_over_def)
    have "in_the_way cid conflicts ?m = []"
      unfolding assms(2) by (auto simp: in_the_way_def filter_empty_conv)
    then have "take_claim p cid key conflicts refuse ?m = (claimed p key ?m, Inr ())"
      by (simp add: take_claim.simps[of p] take_scan_alt)
    then show ?thesis using scan None Cons over by (simp add: take_claim.simps[of p cid key conflicts refuse m])
  qed
qed

text \<open>
  \<^verbatim>\<open>take\<close> with anything else between its critical sections: it looks, asks each holder it
  found whether it has ended, one after the other, and if all have takes over and looks
  again. \<open>L\<close> counts its looks, \<open>N\<close> the claims that others added meanwhile; whatever else
  others do adds none.
\<close>

datatype taking_state = Looking | Checking "(string \<times> ptr) list" "(string \<times> ptr) list" | Taken | Refused error

inductive taking ::
    "ptr \<Rightarrow> string \<Rightarrow> string \<Rightarrow> (string \<Rightarrow> bool) \<Rightarrow> (string \<times> ptr \<Rightarrow> error) \<Rightarrow> manager \<Rightarrow> nat \<Rightarrow> nat \<Rightarrow> taking_state \<Rightarrow> manager \<Rightarrow> bool"
  for p cid key conflicts refuse m0 where
  taking_start: "taking p cid key conflicts refuse m0 0 0 Looking m0"
| taking_look: "taking p cid key conflicts refuse m0 L N Looking m \<Longrightarrow> take_scan p cid key conflicts m = (m', found)
    \<Longrightarrow> taking p cid key conflicts refuse m0 (L + 1) N (if found = [] then Taken else Checking found found) m'"
| taking_live: "taking p cid key conflicts refuse m0 L N (Checking found (c # cs)) m \<Longrightarrow> \<not> exited m (snd c)
    \<Longrightarrow> taking p cid key conflicts refuse m0 L N (Refused (refuse c)) m"
| taking_ended: "taking p cid key conflicts refuse m0 L N (Checking found (c # cs)) m \<Longrightarrow> exited m (snd c)
    \<Longrightarrow> taking p cid key conflicts refuse m0 L N (Checking found cs) m"
| taking_over: "taking p cid key conflicts refuse m0 L N (Checking found []) m
    \<Longrightarrow> taking p cid key conflicts refuse m0 L N Looking (take_over found m)"
| others_claim: "taking p cid key conflicts refuse m0 L N t m \<Longrightarrow> distinct (map fst (mg_claims m'))
    \<Longrightarrow> set (mg_claims m') \<subseteq> insert c (set (mg_claims m)) \<Longrightarrow> taking p cid key conflicts refuse m0 L (N + 1) t m'"
| others_step: "taking p cid key conflicts refuse m0 L N t m \<Longrightarrow> distinct (map fst (mg_claims m'))
    \<Longrightarrow> set (mg_claims m') \<subseteq> set (mg_claims m) \<Longrightarrow> taking p cid key conflicts refuse m0 L N t m'"

lemma drop_claims_gone:
  "distinct (map fst claims) \<Longrightarrow>
    distinct (map fst (fold drop_claim found claims)) \<and> set (fold drop_claim found claims) \<subseteq> set claims - set found"
proof (induction found arbitrary: claims)
  case (Cons c found)
  have "c \<notin> set (drop_claim c claims)"
    using Cons.prems by (cases c) (auto simp: drop_claim_def adel_def dest: map_of_is_SomeI)
  moreover have "set (drop_claim c claims) \<subseteq> set claims" "distinct (map fst (drop_claim c claims))"
    using Cons.prems by (auto simp: drop_claim_def adel_def distinct_map_filter')
  ultimately show ?case using Cons.IH[of "drop_claim c claims"] by auto
qed simp

lemma take_over_way:
  assumes "distinct (map fst (mg_claims m))"
  shows "set (in_the_way cid conflicts (take_over found m)) \<subseteq> set (in_the_way cid conflicts m) - set found"
    "distinct (map fst (mg_claims (take_over found m)))"
  using drop_claims_gone[OF assms, of found] by (auto simp: in_the_way_def take_over_def)

lemma in_the_way_mono: "set (mg_claims m') \<subseteq> set (mg_claims m) \<Longrightarrow> set (in_the_way cid conflicts m') \<subseteq> set (in_the_way cid conflicts m)"
  by (auto simp: in_the_way_def)

definition looks_bound :: "string \<Rightarrow> (string \<Rightarrow> bool) \<Rightarrow> taking_state \<Rightarrow> manager \<Rightarrow> nat" where
  "looks_bound cid conflicts t m =
    (case t of
       Looking \<Rightarrow> if in_the_way cid conflicts m = [] then 1 else 0
     | Checking found rest \<Rightarrow> if set (in_the_way cid conflicts m) \<subseteq> set found then 1 else 0
     | Taken \<Rightarrow> 2
     | Refused e \<Rightarrow> 1)"

lemma looks_bound_mono:
  assumes "set (mg_claims m') \<subseteq> set (mg_claims m)"
  shows "looks_bound cid conflicts t m \<le> looks_bound cid conflicts t m'"
  using in_the_way_mono[OF assms, of cid conflicts] by (cases t) (auto simp: looks_bound_def)

lemma looks_bound_any: "looks_bound cid conflicts t m \<le> looks_bound cid conflicts t m' + 1"
  by (cases t) (simp_all add: looks_bound_def)

lemma taking_looks:
  assumes "taking p cid key conflicts refuse m0 L N t m" "distinct (map fst (mg_claims m0))"
  shows "distinct (map fst (mg_claims m)) \<and> L \<le> N + looks_bound cid conflicts t m"
  using assms
proof (induction rule: taking.induct)
  case (taking_look L N m m' found)
  then have IH: "distinct (map fst (mg_claims m))" "L \<le> N + looks_bound cid conflicts Looking m" by blast+
  show ?case
  proof (cases "in_the_way cid conflicts m = []")
    case True
    then have "m' = claimed p key m" "found = []" using taking_look.hyps(2) by (simp_all add: take_scan_alt)
    then show ?thesis using IH True by (simp add: looks_bound_def claimed_def on_session_def distinct_aput)
  next
    case False
    then have "m' = m" "found = in_the_way cid conflicts m" using taking_look.hyps(2) by (auto simp: take_scan_alt)
    then show ?thesis using IH False by (simp add: looks_bound_def)
  qed
next
  case (taking_over L N found m)
  then have IH: "distinct (map fst (mg_claims m))" "L \<le> N + looks_bound cid conflicts (Checking found []) m" by blast+
  have way: "set (in_the_way cid conflicts (take_over found m)) \<subseteq> set (in_the_way cid conflicts m) - set found"
    "distinct (map fst (mg_claims (take_over found m)))"
    by (rule take_over_way[OF IH(1)])+
  have "looks_bound cid conflicts (Checking found []) m \<le> looks_bound cid conflicts Looking (take_over found m)"
  proof -
    have "in_the_way cid conflicts (take_over found m) = []" if "set (in_the_way cid conflicts m) \<subseteq> set found"
    proof -
      have "set (in_the_way cid conflicts (take_over found m)) \<subseteq> {}" using way(1) that by blast
      then show ?thesis by simp
    qed
    then show ?thesis by (simp add: looks_bound_def)
  qed
  then show ?case using IH(2) way(2) by linarith
next
  case (others_claim L N t m m' c)
  then show ?case using looks_bound_any[of cid conflicts t m m'] by auto
next
  case (others_step L N t m m')
  then show ?case using looks_bound_mono[OF others_step.hyps(3), of cid conflicts t] by auto
qed (auto simp: looks_bound_def split: if_splits)

lemma taking_check:
  "taking p cid key conflicts refuse m0 L N (Checking found rest) m \<Longrightarrow>
    (case find (\<lambda>(k, h). \<not> exited m h) rest of
       Some c \<Rightarrow> taking p cid key conflicts refuse m0 L N (Refused (refuse c)) m
     | None \<Rightarrow> taking p cid key conflicts refuse m0 L N (Checking found []) m)"
proof (induction rest)
  case (Cons c rest)
  show ?case
  proof (cases "exited m (snd c)")
    case True
    then show ?thesis using Cons.IH[OF taking_ended[OF Cons.prems True]] by (simp add: case_prod_unfold)
  next
    case False
    then show ?thesis using taking_live[OF Cons.prems False] by (simp add: case_prod_unfold)
  qed
qed simp

lemma take_claim_taking:
  "taking p cid key conflicts refuse m0 L N Looking m \<Longrightarrow> take_claim p cid key conflicts refuse m = (m', r)
    \<Longrightarrow> \<exists>L'. taking p cid key conflicts refuse m0 L' N (case r of Inr _ \<Rightarrow> Taken | Inl e \<Rightarrow> Refused e) m'"
proof (induction "length (mg_claims m)" arbitrary: m L rule: less_induct)
  case less
  obtain m1 found where scan: "take_scan p cid key conflicts m = (m1, found)" by fastforce
  note look = taking_look[OF less.prems(1) scan]
  show ?case
  proof (cases found)
    case Nil
    then show ?thesis using look less.prems(2) scan by (auto simp: take_claim.simps[of p cid key conflicts refuse m])
  next
    case (Cons x xs)
    then have m1: "m1 = m" using scan by (auto simp: take_scan_def Let_def split: if_splits)
    have chk: "taking p cid key conflicts refuse m0 (L + 1) N (Checking found found) m" using look Cons m1 by simp
    show ?thesis
    proof (cases "find (\<lambda>(k, h). \<not> exited m h) found")
      case (Some c)
      then have "m' = m" "r = Inl (refuse c)"
        using less.prems(2) scan Cons m1 by (simp_all add: take_claim.simps[of p cid key conflicts refuse m])
      then show ?thesis using taking_check[OF chk] Some by auto
    next
      case None
      have "take_claim p cid key conflicts refuse (take_over found m) = (m', r)"
        using less.prems(2) scan Cons m1 None by (simp add: take_claim.simps[of p cid key conflicts refuse m])
      moreover have "taking p cid key conflicts refuse m0 (L + 1) N Looking (take_over found m)"
        using taking_over taking_check[OF chk] None by simp
      moreover have "length (mg_claims (take_over found m)) < length (mg_claims m)"
        using take_over_shrinks scan Cons m1 by metis
      ultimately show ?thesis using less.hyps by blast
    qed
  qed
qed

text \<open>
  C18: taking a claim ends. Whatever other goroutines do between its critical sections, it
  looks at most twice, and once more for each claim that others added meanwhile. With
  nothing in between it thus ends after at most two looks: if a live session holds a claim
  in the way, the first of them is named and nothing changes; otherwise every claim in the
  way belongs to an ended session: they are dropped, all others stay, and the claim is
  taken.
\<close>

theorem taking_a_claim_ends:
  assumes "distinct (map fst (mg_claims m))" and "found = in_the_way cid conflicts m"
  shows "(\<forall>L N t m'. taking p cid key conflicts refuse m L N t m' \<longrightarrow> L \<le> N + 2)
    \<and> (case take_claim p cid key conflicts refuse m of (m', r) \<Rightarrow>
         (\<exists>L \<le> 2. taking p cid key conflicts refuse m L 0 (case r of Inr _ \<Rightarrow> Taken | Inl e \<Rightarrow> Refused e) m')
         \<and> (m', r) = (case find (\<lambda>(k, h). \<not> exited m h) found of
              Some c \<Rightarrow> (m, Inl (refuse c))
            | None \<Rightarrow> (claimed p key (m\<lparr>mg_claims := filter (\<lambda>d. d \<notin> set found) (mg_claims m)\<rparr>), Inr ())))"
proof -
  have bound: "L \<le> N + 2" if "taking p cid key conflicts refuse m L N t m'" for L N t m'
  proof -
    have "looks_bound cid conflicts t m' \<le> 2" by (cases t) (simp_all add: looks_bound_def)
    then show ?thesis using taking_looks[OF that assms(1)] by linarith
  qed
  obtain m' r where t: "take_claim p cid key conflicts refuse m = (m', r)" by fastforce
  obtain L where L: "taking p cid key conflicts refuse m L 0 (case r of Inr _ \<Rightarrow> Taken | Inl e \<Rightarrow> Refused e) m'"
    using take_claim_taking[OF taking_start t] by blast
  then have "L \<le> 2" using bound by fastforce
  then show ?thesis using L bound t take_claim_outcome[OF assms, of p key refuse] by auto
qed

definition demo_manager :: manager where
  "demo_manager = (NewManager None)\<lparr>
     mg_heap := [demo_member ''s-a'' [], (demo_member ''s-b'' [])\<lparr>s_state := StateExited\<rparr>],
     mg_claims := [(claimKey ''c1'' 7, 1), (claimKey ''c2'' 1, 0)]\<rparr>"

lemma demo_manager_sel [simp]:
  "mg_claims demo_manager = [(claimKey ''c1'' 7, 1), (claimKey ''c2'' 1, 0)]"
  "sess demo_manager 0 = demo_member ''s-a'' []" "exited demo_manager (Suc 0)"
  "mg_sessions demo_manager = []"
  by (simp_all add: demo_manager_def sess_def exited_def NewManager_def)

lemma claim_keys_eval:
  "claimKey ''c1'' 7 = ''c1/7''" "claimKey ''c2'' 1 = ''c2/1''" "launchClaimKey ''c1'' = ''c1/launch''"
  by (simp_all add: claimKey_def launchClaimKey_def itoa_def nat_dec.simps[of 7] nat_dec.simps[of "Suc 0"] digit_char_def char_of_def bit_nat_def)

theorem taking_a_claim_ends_witness:
  "snd (take_claim 0 ''c1'' (launchClaimKey ''c1'') (\<lambda>_. True) (\<lambda>_. NewError CodeInternal []) demo_manager) = Inr ()
    \<and> map fst (mg_claims (fst (take_claim 0 ''c1'' (launchClaimKey ''c1'') (\<lambda>_. True) (\<lambda>_. NewError CodeInternal []) demo_manager)))
      = [''c2/1'', ''c1/launch'']"
proof -
  have way: "in_the_way ''c1'' (\<lambda>_. True) demo_manager = [(''c1/7'', 1)]"
    by (simp add: in_the_way_def claim_keys_eval has_prefix_def)
  have "distinct (map fst (mg_claims demo_manager))" by (simp add: claim_keys_eval)
  from taking_a_claim_ends[OF this way[symmetric], of 0 "launchClaimKey ''c1''" "\<lambda>_. NewError CodeInternal []"]
  have "take_claim 0 ''c1'' (launchClaimKey ''c1'') (\<lambda>_. True) (\<lambda>_. NewError CodeInternal []) demo_manager
      = (claimed 0 (launchClaimKey ''c1'') (demo_manager\<lparr>mg_claims := filter (\<lambda>d. d \<notin> set [(''c1/7'', 1)]) (mg_claims demo_manager)\<rparr>), Inr ())"
    by (simp split: prod.splits)
  then show ?thesis by (simp add: claim_keys_eval claimed_def on_session_def)
qed

section \<open>Claims exclude each other\<close>

text \<open>
  The critical sections of all the goroutines that touch the claims, and anything that
  does not touch them. A container id has no slash (it is made of hexadecimal digits).
\<close>

inductive claim_step :: "manager \<Rightarrow> manager \<Rightarrow> bool" where
  attach_scan: "SL \<notin> set cid \<Longrightarrow> claim_step m (fst (take_scan p cid (claimKey cid pid) (attach_conflicts cid pid) m))"
| launch_scan: "SL \<notin> set cid \<Longrightarrow> claim_step m (fst (take_scan p cid (launchClaimKey cid) (\<lambda>_. True) m))"
| over: "claim_step m (take_over found m)"
| released: "claim_step m (release p m)"
| other: "mg_claims m' = mg_claims m \<Longrightarrow> claim_step m m'"

abbreviation claim_keys :: "manager \<Rightarrow> string set" where
  "claim_keys m \<equiv> set (map fst (mg_claims m))"

definition claims_exclusive :: "string set \<Rightarrow> bool" where
  "claims_exclusive ks \<longleftrightarrow> (\<forall>cid k. SL \<notin> set cid \<longrightarrow> launchClaimKey cid \<in> ks \<longrightarrow> k \<in> ks
    \<longrightarrow> has_prefix k (cid @ [SL]) \<longrightarrow> k = launchClaimKey cid)"

lemma claims_exclusive_mono: "claims_exclusive ks \<Longrightarrow> ks' \<subseteq> ks \<Longrightarrow> claims_exclusive ks'"
  unfolding claims_exclusive_def by blast

lemma same_container:
  "SL \<notin> set cid \<Longrightarrow> SL \<notin> set cid' \<Longrightarrow> has_prefix (cid' @ SL # x) (cid @ [SL]) \<longleftrightarrow> cid' = cid"
proof (induction cid arbitrary: cid')
  case Nil
  then show ?case by (cases cid') (auto simp: has_prefix_def)
next
  case (Cons c cid)
  show ?case
  proof (cases cid')
    case Nil
    then show ?thesis using Cons.prems by (simp add: has_prefix_def)
  next
    case (Cons d ds)
    then show ?thesis using Cons.IH[of ds] Cons.prems by (auto simp: has_prefix_def)
  qed
qed

lemma itoa_not_launch: "itoa n \<noteq> launchClaimSuffix"
proof
  assume n: "itoa n = launchClaimSuffix"
  have "c = CHR ''-'' \<or> is_digit c" if "c \<in> set (itoa n)" for c
    using that nat_dec_digits by (auto simp: itoa_def list_all_iff split: if_splits)
  from this[of "CHR ''l''"] have "CHR ''l'' = CHR ''-'' \<or> is_digit CHR ''l''" using n by simp
  then show False by (simp add: is_digit_def)
qed

lemma attach_claim_exclusive:
  assumes "claims_exclusive ks" "SL \<notin> set cid" "launchClaimKey cid \<notin> ks"
  shows "claims_exclusive (insert (claimKey cid pid) ks)"
  unfolding claims_exclusive_def
proof (intro allI impI)
  fix d k
  assume d: "SL \<notin> set d" "launchClaimKey d \<in> insert (claimKey cid pid) ks"
    and k: "k \<in> insert (claimKey cid pid) ks" "has_prefix k (d @ [SL])"
  have "launchClaimKey d \<noteq> claimKey cid pid"
    using itoa_not_launch[of pid] d(1) assms(2) append_eq_append_conv2[of d "SL # launchClaimSuffix" cid "SL # itoa pid"]
    by (auto simp: launchClaimKey_def claimKey_def Cons_eq_append_conv append_eq_Cons_conv)
  then have ld: "launchClaimKey d \<in> ks" using d(2) by simp
  moreover have "k \<noteq> claimKey cid pid"
  proof
    assume "k = claimKey cid pid"
    then have "cid = d" using k(2) same_container[OF d(1) assms(2)] by (simp add: claimKey_def)
    then show False using ld assms(3) by simp
  qed
  ultimately show "k = launchClaimKey d" using assms(1) d(1) k unfolding claims_exclusive_def by blast
qed

lemma launch_claim_exclusive:
  assumes "claims_exclusive ks" "SL \<notin> set cid" "\<And>k. k \<in> ks \<Longrightarrow> \<not> has_prefix k (cid @ [SL])"
  shows "claims_exclusive (insert (launchClaimKey cid) ks)"
  unfolding claims_exclusive_def
proof (intro allI impI)
  fix d k
  assume d: "SL \<notin> set d" "launchClaimKey d \<in> insert (launchClaimKey cid) ks"
    and k: "k \<in> insert (launchClaimKey cid) ks" "has_prefix k (d @ [SL])"
  show "k = launchClaimKey d"
  proof (cases "d = cid")
    case True
    then show ?thesis using k assms(3) by auto
  next
    case False
    then have "k \<noteq> launchClaimKey cid" "launchClaimKey d \<noteq> launchClaimKey cid"
      using k(2) same_container[OF d(1) assms(2)] by (auto simp: launchClaimKey_def)
    then show ?thesis using assms(1) d k unfolding claims_exclusive_def by blast
  qed
qed

lemma take_scan_keys:
  "claim_keys (fst (take_scan p cid key conflicts m)) =
    (if in_the_way cid conflicts m = [] then insert key (claim_keys m) else claim_keys m)"
  by (simp add: take_scan_alt claimed_def on_session_def set_keys_aput[unfolded list.set_map])

lemma drop_claims_keys: "set (fold drop_claim found claims) \<subseteq> set claims"
proof (induction found arbitrary: claims)
  case (Cons c found)
  have "set (drop_claim c claims) \<subseteq> set claims" by (auto simp: drop_claim_def adel_def)
  then show ?case using Cons.IH[of "drop_claim c claims"] by auto
qed simp

lemma claim_step_exclusive:
  assumes "claim_step m m'" "claims_exclusive (claim_keys m)"
  shows "claims_exclusive (claim_keys m')"
  using assms
proof cases
  case (attach_scan cid p pid)
  show ?thesis
  proof (cases "in_the_way cid (attach_conflicts cid pid) m = []")
    case True
    have "has_prefix (launchClaimKey cid) (cid @ [SL])" by (simp add: launchClaimKey_def has_prefix_def)
    then have "launchClaimKey cid \<notin> claim_keys m"
      using True by (auto simp: in_the_way_def filter_empty_conv attach_conflicts_def)
    then show ?thesis
      using attach_claim_exclusive[OF assms(2) attach_scan(2)] True attach_scan(1) by (simp only: take_scan_keys if_True simp_thms)
  next
    case False
    then show ?thesis using assms(2) attach_scan(1) by (simp only: take_scan_keys if_False)
  qed
next
  case (launch_scan cid p)
  show ?thesis
  proof (cases "in_the_way cid (\<lambda>_. True) m = []")
    case True
    then have "\<And>k. k \<in> claim_keys m \<Longrightarrow> \<not> has_prefix k (cid @ [SL])"
      by (auto simp: in_the_way_def filter_empty_conv)
    then show ?thesis
      using launch_claim_exclusive[OF assms(2) launch_scan(2)] True launch_scan(1) by (simp only: take_scan_keys if_True simp_thms)
  next
    case False
    then show ?thesis using assms(2) launch_scan(1) by (simp only: take_scan_keys if_False)
  qed
next
  case (over found)
  have "claim_keys m' \<subseteq> claim_keys m" using drop_claims_keys[of found] over by (auto simp: take_over_def)
  then show ?thesis using claims_exclusive_mono assms(2) by blast
next
  case (released p)
  have "claim_keys m' \<subseteq> claim_keys m" using released by (auto simp: release_def Let_def adel_def)
  then show ?thesis using claims_exclusive_mono assms(2) by blast
next
  case other
  then show ?thesis using assms(2) by simp
qed

lemma claims_exclusive_reached:
  "claim_step\<^sup>*\<^sup>* (NewManager left_behind) m \<Longrightarrow> claims_exclusive (claim_keys m)"
proof (induction rule: rtranclp_induct)
  case base
  then show ?case by (simp add: NewManager_def claims_exclusive_def)
next
  case (step m m')
  then show ?case using claim_step_exclusive by blast
qed

text \<open>
  C14: two sessions never debug one container against each other, in whatever order the
  goroutines of concurrent starts and ends run: while a session has launched a
  container's app, the claim of that launch is the only claim on the container. (A
  claim is a key of a map, so no process is claimed twice.)
\<close>

theorem launch_claim_is_alone:
  assumes "claim_step\<^sup>*\<^sup>* (NewManager left_behind) m" and "SL \<notin> set cid"
    and "map_of (mg_claims m) (launchClaimKey cid) = Some p"
    and "map_of (mg_claims m) k = Some q" "has_prefix k (cid @ [SL])"
  shows "k = launchClaimKey cid \<and> q = p"
proof -
  have "launchClaimKey cid \<in> claim_keys m" "k \<in> claim_keys m"
    using assms(3,4) by (auto dest: map_of_SomeD simp: image_iff intro: bexI[rotated])
  then have "k = launchClaimKey cid"
    using claims_exclusive_reached[OF assms(1)] assms(2,5) unfolding claims_exclusive_def by blast
  then show ?thesis using assms(3,4) by simp
qed

theorem launch_claim_is_alone_witness:
  "''c1/launch'' = launchClaimKey ''c1'' \<and> (0 :: ptr) = 0"
proof -
  let ?m = "fst (take_scan 0 ''c1'' (launchClaimKey ''c1'') (\<lambda>_. True) (NewManager None))"
  have "claim_step (NewManager None) ?m" by (rule launch_scan) simp
  then have "claim_step\<^sup>*\<^sup>* (NewManager None) ?m" by blast
  moreover have "map_of (mg_claims ?m) (launchClaimKey ''c1'') = Some 0"
    by (simp add: take_scan_def NewManager_def on_session_def)
  ultimately show ?thesis
    by (intro launch_claim_is_alone[of None ?m "''c1''" 0 "''c1/launch''" 0]) (simp_all add: claim_keys_eval has_prefix_def)
qed

section \<open>The manager and its sessions\<close>

text \<open>
  What happens in a daemon: a session is made; a session takes any of its own steps; it
  is listed, removed, saved and forgotten; claims are taken (by a session that has none
  yet), taken over and released.
\<close>

inductive manager_step :: "manager \<Rightarrow> manager \<Rightarrow> bool" where
  Make: "reachable s \<Longrightarrow> s_claimKey s = [] \<Longrightarrow> manager_step m (m\<lparr>mg_heap := mg_heap m @ [s]\<rparr>)"
| Session: "p < length (mg_heap m) \<Longrightarrow> session_step (sess m p) t \<Longrightarrow> manager_step m (on_session p (\<lambda>_. t) m)"
| ListIt: "p < length (mg_heap m) \<Longrightarrow> manager_step m (mgr_add p m)"
| Unlist: "manager_step m (mgr_remove i m)"
| UnlistSession: "manager_step m (fst (removeSession p m))"
| SaveIt: "manager_step m (saveIfLive p m)"
| Forget: "manager_step m (forget i m)"
| Attach: "p < length (mg_heap m) \<Longrightarrow> s_claimKey (sess m p) = [] \<Longrightarrow>
    manager_step m (fst (take_scan p cid (claimKey cid pid) (attach_conflicts cid pid) m))"
| Launch: "p < length (mg_heap m) \<Longrightarrow> s_claimKey (sess m p) = [] \<Longrightarrow>
    manager_step m (fst (take_scan p cid (launchClaimKey cid) (\<lambda>_. True) m))"
| TakeOver: "manager_step m (take_over found m)"
| Release: "manager_step m (release p m)"

text \<open>
  Every listed session is listed under its own id, every claim belongs to a session that
  knows it, and every session keeps its own invariant.
\<close>

definition mgr_inv :: "manager \<Rightarrow> bool" where
  "mgr_inv m \<longleftrightarrow> distinct (map fst (mg_sessions m)) \<and> distinct (map fst (mg_claims m))
    \<and> (\<forall>(i, p) \<in> set (mg_sessions m). p < length (mg_heap m) \<and> s_ID (sess m p) = i)
    \<and> (\<forall>(k, p) \<in> set (mg_claims m). p < length (mg_heap m) \<and> s_claimKey (sess m p) = k \<and> k \<noteq> [])
    \<and> (\<forall>p < length (mg_heap m). full_inv (identity (sess m p)) (sess m p))"

lemma sess_on_session:
  "p < length (mg_heap m) \<Longrightarrow> sess (on_session p f m) q = (if q = p then f (sess m p) else sess m q)"
  by (simp add: sess_def on_session_def nth_list_update)

lemma on_session_sel [simp]:
  "mg_sessions (on_session p f m) = mg_sessions m" "mg_claims (on_session p f m) = mg_claims m"
  "mg_lost (on_session p f m) = mg_lost m" "mg_store (on_session p f m) = mg_store m"
  "length (mg_heap (on_session p f m)) = length (mg_heap m)"
  by (simp_all add: on_session_def)

lemma sess_update [simp]:
  "sess (m\<lparr>mg_sessions := a\<rparr>) p = sess m p" "sess (m\<lparr>mg_claims := b\<rparr>) p = sess m p"
  "sess (m\<lparr>mg_store := c\<rparr>) p = sess m p" "sess (m\<lparr>mg_live := d\<rparr>) p = sess m p" "sess (m\<lparr>mg_lost := e\<rparr>) p = sess m p"
  by (simp_all add: sess_def)

lemma mgr_inv_irrelevant [simp]:
  "mgr_inv (m\<lparr>mg_store := c\<rparr>) = mgr_inv m" "mgr_inv (m\<lparr>mg_live := d\<rparr>) = mgr_inv m" "mgr_inv (m\<lparr>mg_lost := e\<rparr>) = mgr_inv m"
  by (simp_all add: mgr_inv_def)

lemma mgr_inv_fewer_sessions: "mgr_inv m \<Longrightarrow> mgr_inv (m\<lparr>mg_sessions := adel i (mg_sessions m)\<rparr>)"
  by (auto simp: mgr_inv_def distinct_adel set_adel)

lemma mgr_inv_fewer_claims:
  "mgr_inv m \<Longrightarrow> distinct (map fst cl) \<Longrightarrow> set cl \<subseteq> set (mg_claims m) \<Longrightarrow> mgr_inv (m\<lparr>mg_claims := cl\<rparr>)"
  unfolding mgr_inv_def by (simp; blast)

lemma set_aput_cases: "x \<in> set (aput k v al) \<Longrightarrow> x = (k, v) \<or> x \<in> set al"
  by (induction al) (auto split: if_splits)

lemma drop_claims_distinct: "distinct (map fst cl) \<Longrightarrow> distinct (map fst (fold drop_claim found cl))"
  by (induction found arbitrary: cl) (simp_all add: drop_claim_def distinct_adel)

lemma mgr_inv_session:
  assumes "mgr_inv m" "p < length (mg_heap m)" "full_inv (identity (sess m p)) t"
  shows "mgr_inv (on_session p (\<lambda>_. t) m)"
proof -
  have t: "s_ID t = s_ID (sess m p)" "s_claimKey t = s_claimKey (sess m p)" "identity t = identity (sess m p)"
    using assms(3) by (auto simp: full_inv_def identity_def)
  show ?thesis using assms unfolding mgr_inv_def
    by (auto simp: sess_on_session t(1,2) t(3)[symmetric] split: prod.splits)
qed

lemma mgr_inv_add: "mgr_inv m \<Longrightarrow> p < length (mg_heap m) \<Longrightarrow> mgr_inv (mgr_add p m)"
  unfolding mgr_add_def notify_def
  by (auto simp: mgr_inv_def distinct_aput dest!: set_aput_cases)

lemma full_inv_claimKey: "full_inv (identity s) s \<Longrightarrow> full_inv (identity (s\<lparr>s_claimKey := k\<rparr>)) (s\<lparr>s_claimKey := k\<rparr>)"
  by (simp add: full_inv_def sess_inv_def pres_inv_def presence_of_def)

lemma mgr_inv_claimed:
  assumes "mgr_inv m" "p < length (mg_heap m)" "s_claimKey (sess m p) = []" "key \<noteq> []"
  shows "mgr_inv (claimed p key m)"
proof -
  let ?m = "m\<lparr>mg_claims := aput key p (mg_claims m)\<rparr>"
  have p: "p < length (mg_heap ?m)" using assms(2) by simp
  have free: "(k, p) \<notin> set (mg_claims m)" for k using assms(1,3) by (auto simp: mgr_inv_def)
  have "full_inv (identity (sess m q)) (sess m q)" if "q < length (mg_heap m)" for q
    using assms(1) that by (simp add: mgr_inv_def)
  then have full: "\<forall>q < length (mg_heap m). full_inv (identity (sess (claimed p key m) q)) (sess (claimed p key m) q)"
    by (simp add: claimed_def sess_on_session[OF p] full_inv_claimKey)
  have names: "\<forall>(i, q) \<in> set (mg_sessions m). q < length (mg_heap m) \<and> s_ID (sess (claimed p key m) q) = i"
    using assms(1) by (auto simp: mgr_inv_def claimed_def sess_on_session[OF p])
  have claims: "q < length (mg_heap m) \<and> s_claimKey (sess (claimed p key m) q) = k \<and> k \<noteq> []"
    if "(k, q) \<in> set (aput key p (mg_claims m))" for k q
    using set_aput_cases[OF that] assms free[of k] by (auto simp: mgr_inv_def claimed_def sess_on_session[OF p])
  have d: "distinct (map fst (mg_sessions m))" "distinct (map fst (aput key p (mg_claims m)))"
    using assms(1) by (simp_all add: mgr_inv_def distinct_aput)
  have "mg_sessions (claimed p key m) = mg_sessions m" "mg_claims (claimed p key m) = aput key p (mg_claims m)"
    "length (mg_heap (claimed p key m)) = length (mg_heap m)" by (simp_all add: claimed_def)
  moreover have "\<forall>(k, q) \<in> set (aput key p (mg_claims m)).
      q < length (mg_heap m) \<and> s_claimKey (sess (claimed p key m) q) = k \<and> k \<noteq> []" using claims by blast
  ultimately show ?thesis unfolding mgr_inv_def using full names d by (simp only: simp_thms)
qed

lemma claim_keys_nonempty: "claimKey cid pid \<noteq> []" "launchClaimKey cid \<noteq> []"
  by (simp_all add: claimKey_def launchClaimKey_def)

lemma mgr_inv_make:
  assumes "mgr_inv m" "reachable s"
  shows "mgr_inv (m\<lparr>mg_heap := mg_heap m @ [s]\<rparr>)"
proof -
  have "sess (m\<lparr>mg_heap := mg_heap m @ [s]\<rparr>) q = (if q < length (mg_heap m) then sess m q else s)"
    if "q \<le> length (mg_heap m)" for q using that by (simp add: sess_def nth_append)
  then show ?thesis using assms(1) reachable_full[OF assms(2)] unfolding mgr_inv_def
    by (auto simp: less_Suc_eq split: prod.splits)
qed

lemma mgr_inv_release: "mgr_inv m \<Longrightarrow> mgr_inv (release p m)"
  unfolding release_def Let_def
  by (auto intro!: mgr_inv_fewer_claims simp: distinct_adel set_adel mgr_inv_def)

lemma mgr_inv_take_over: "mgr_inv m \<Longrightarrow> mgr_inv (take_over found m)"
  unfolding take_over_def
  by (intro mgr_inv_fewer_claims drop_claims_distinct drop_claims_keys) (simp_all add: mgr_inv_def)

lemma manager_step_inv: "manager_step m m' \<Longrightarrow> mgr_inv m \<Longrightarrow> mgr_inv m'"
proof (induction rule: manager_step.induct)
  case (Session p m t)
  have "full_inv (identity (sess m p)) (sess m p)" using Session by (simp add: mgr_inv_def)
  then show ?case by (intro mgr_inv_session Session step_full[OF Session.hyps(2)])
next
  case (UnlistSession m p)
  then show ?case by (simp add: removeSession_def notify_def mgr_inv_fewer_sessions)
next
  case (SaveIt m p)
  then show ?case by (simp add: saveIfLive_def split: option.splits)
qed (simp_all add: mgr_inv_make mgr_inv_add mgr_remove_def notify_def mgr_inv_fewer_sessions forget_def take_scan_alt
    mgr_inv_claimed claim_keys_nonempty mgr_inv_release mgr_inv_take_over)

lemma manager_reached_inv: "manager_step\<^sup>*\<^sup>* (NewManager left_behind) m \<Longrightarrow> mgr_inv m"
proof (induction rule: rtranclp_induct)
  case base
  then show ?case by (simp add: NewManager_def mgr_inv_def)
next
  case (step m m')
  then show ?case using manager_step_inv by blast
qed

lemma mgr_inv_listed:
  assumes "mgr_inv m" "map_of (mg_sessions m) i = Some p"
  shows "p < length (mg_heap m)" "s_ID (sess m p) = i" "full_inv (identity (sess m p)) (sess m p)"
  using assms map_of_SomeD[OF assms(2)] by (auto simp: mgr_inv_def)

lemma mgr_inv_claim:
  assumes "mgr_inv m" "map_of (mg_claims m) k = Some p"
  shows "s_claimKey (sess m p) = k" "k \<noteq> []"
  using assms(1) map_of_SomeD[OF assms(2)] by (auto simp: mgr_inv_def)

text \<open>
  C13: the daemon's sessions together. Whatever its sessions do and in whatever order
  sessions are made, listed, ended, saved and claim containers: a session is listed
  under its own id and keeps the invariant of a session, and no session holds two claims.
\<close>

theorem manager_invariant:
  assumes "manager_step\<^sup>*\<^sup>* (NewManager left_behind) m"
  shows "(map_of (mg_sessions m) i = Some p \<longrightarrow> s_ID (sess m p) = i \<and> sess_inv (sess m p) \<and> modes_inv (s_excModes (sess m p)))
    \<and> (map_of (mg_claims m) k = Some q \<and> map_of (mg_claims m) k' = Some q \<longrightarrow> k = k')"
  using mgr_inv_listed[OF manager_reached_inv[OF assms], of i p]
    mgr_inv_claim(1)[OF manager_reached_inv[OF assms], of k q] mgr_inv_claim(1)[OF manager_reached_inv[OF assms], of k' q]
  by (auto simp: full_inv_def)

definition demo_daemon :: manager where
  "demo_daemon = mgr_add 0 ((NewManager None)\<lparr>mg_heap := [demo_session]\<rparr>)"

lemma demo_daemon_reached: "manager_step\<^sup>*\<^sup>* (NewManager None) demo_daemon"
proof -
  have "reachable demo_session" by (simp add: demo_session_def reachable.Start)
  moreover have "s_claimKey demo_session = []" by (simp add: demo_session_def newSession_def)
  ultimately have "manager_step (NewManager None) ((NewManager None)\<lparr>mg_heap := mg_heap (NewManager None) @ [demo_session]\<rparr>)"
    by (rule Make)
  moreover have "manager_step ((NewManager None)\<lparr>mg_heap := [demo_session]\<rparr>) demo_daemon"
    unfolding demo_daemon_def by (rule ListIt) simp
  ultimately show ?thesis by (simp add: NewManager_def)
qed

lemma demo_daemon_sel:
  "mg_sessions demo_daemon = [(s_ID demo_session, 0)]" "sess demo_daemon 0 = demo_session" "mg_claims demo_daemon = []"
  "length (mg_heap demo_daemon) = 1"
  by (simp_all add: demo_daemon_def mgr_add_def notify_def sess_def NewManager_def)

theorem manager_invariant_witness: "sess_inv (sess demo_daemon 0) \<and> s_ID (sess demo_daemon 0) = s_ID demo_session"
  using manager_invariant[OF demo_daemon_reached, of "s_ID demo_session" 0] by (simp add: demo_daemon_sel(1))

section \<open>Ending one session\<close>

lemma Terminate_cases:
  obtains (ended) s' where "Terminate E c s = (s', Inr ())" "s_state s' = StateExited" "identity s' = identity s"
  | (refused) "Terminate E c s = (s, Inl (leaseHeldLocked s))" "s_state s \<noteq> StateExited" "\<not> allows (s_lease s) opExec c False"
proof (cases "s_state s = StateExited \<or> allows (s_lease s) opExec c False")
  case True
  let ?u = "if s_state s \<noteq> StateExited then fst (acquireLocked (env_now E) c s) else s"
  have "Terminate E c s = (terminate E (cl_ID c) (endedBy (cl_ID c) ?u) ?u, Inr ())"
    using True acquire_allowed[of s c "env_now E"]
    by (cases "acquireLocked (env_now E) c s") (auto simp: Terminate_def with_state_def change_def bind_act_def ret_def)
  moreover have "identity (fst (Terminate E c s)) = identity s"
    using quiet_fixed[OF silent.actD[OF silent_Terminate[of E c], of s]] by (simp add: fixed_def)
  moreover have "s_state (fst (Terminate E c s)) = StateExited" using calculation(1) by (simp add: terminate_spec)
  ultimately show ?thesis by (intro ended[of "fst (Terminate E c s)"]) simp_all
next
  case False
  then show ?thesis using refused acquire_refused[of s c] by (simp add: Terminate_def with_state_def bind_act_def)
qed

lemma release_claims:
  assumes "mgr_inv m"
  shows "map_of (mg_claims (release p m)) k = (if map_of (mg_claims m) k = Some p then None else map_of (mg_claims m) k)"
proof (cases "map_of (mg_claims m) k = Some p")
  case True
  then show ?thesis using mgr_inv_claim[OF assms True] by (simp add: release_def Let_def)
next
  case False
  then show ?thesis by (auto simp: release_def Let_def)
qed

text \<open>
  C15: stopping a session is exact. It is refused, and then nothing at all changes, if
  the program is live and the lease does not admit the client. Otherwise the session is
  exited, holds no claim any more and is not listed any more; every other session, every
  other claim and every other entry of the list stays as it was, also the entry of a
  newer session that was given the same id.
\<close>

theorem stopping_is_exact:
  assumes "mgr_inv m" "p < length (mg_heap m)" "mgr_stop E c p m = (m', r)"
  shows "if \<not> exited m p \<and> \<not> allows (s_lease (sess m p)) opExec c False
    then m' = m \<and> r = Inl (leaseHeldLocked (sess m p))
    else is_ok r \<and> exited m' p
      \<and> (q \<noteq> p \<longrightarrow> sess m' q = sess m q)
      \<and> map_of (mg_sessions m') i = (if map_of (mg_sessions m) i = Some p then None else map_of (mg_sessions m) i)
      \<and> map_of (mg_claims m') k = (if map_of (mg_claims m) k = Some p then None else map_of (mg_claims m) k)"
proof (cases rule: Terminate_cases[of E c "sess m p"])
  case (ended s')
  let ?m1 = "on_session p (\<lambda>_. s') m"
  let ?m2 = "release p ?m1"
  have full: "full_inv (identity (sess m p)) s'"
    using step_full[OF session_step.End[of "sess m p" E c], of "identity (sess m p)"] assms(1,2) ended(1)
    by (simp add: mgr_inv_def)
  then have inv1: "mgr_inv ?m1" by (rule mgr_inv_session[OF assms(1,2)])
  have at: "sess ?m1 q = (if q = p then s' else sess m q)" for q using sess_on_session[OF assms(2)] by simp
  have m2: "sess ?m2 q = sess ?m1 q" "mg_sessions ?m2 = mg_sessions m" for q by (simp_all add: release_def Let_def)
  have "mgr_stop E c p m =
      (let m3 = (if names ?m2 p then forget (s_ID s') (notify (?m2\<lparr>mg_sessions := adel (s_ID s') (mg_sessions m)\<rparr>)) else ?m2)
       in (m3, Inr (infoLocked (sess m3 p))))"
    using ended(1) by (simp add: mgr_stop_def removeSession_def m2 at Let_def)
  then have m': "m' = (if names ?m2 p then forget (s_ID s') (notify (?m2\<lparr>mg_sessions := adel (s_ID s') (mg_sessions m)\<rparr>)) else ?m2)"
    and r: "is_ok r"
    using assms(3) unfolding Let_def by auto
  have "sess m' q = sess ?m1 q" for q by (simp add: m' forget_def notify_def m2(1))
  moreover have "mg_claims m' = mg_claims ?m2" by (simp add: m' forget_def notify_def)
  moreover have named: "names ?m2 p \<longleftrightarrow> map_of (mg_sessions m) (s_ID s') = Some p" by (simp add: names_def m2 at)
  have "map_of (mg_sessions m') i = (if map_of (mg_sessions m) i = Some p then None else map_of (mg_sessions m) i)"
  proof (cases "map_of (mg_sessions m) i = Some p")
    case True
    then have "i = s_ID s'" using mgr_inv_listed(2)[OF assms(1), of i p] ended(3) by (simp add: identity_def)
    then show ?thesis using True by (simp add: m' named forget_def notify_def)
  next
    case False
    then show ?thesis by (auto simp: m' named forget_def notify_def m2(2))
  qed
  moreover have live: "\<not> (\<not> exited m p \<and> \<not> allows (s_lease (sess m p)) opExec c False)"
  proof
    assume "\<not> exited m p \<and> \<not> allows (s_lease (sess m p)) opExec c False"
    then have "Terminate E c (sess m p) = (sess m p, Inl (leaseHeldLocked (sess m p)))"
      using acquire_refused[of "sess m p" c] by (simp add: exited_def Terminate_def with_state_def bind_act_def)
    then show False using ended(1) by simp
  qed
  ultimately show ?thesis
    using r ended(2) at release_claims[OF inv1, of p k] unfolding if_not_P[OF live] by (simp add: exited_def)
next
  case refused
  have "on_session p (\<lambda>_. sess m p) m = m" by (simp add: on_session_def sess_def)
  then show ?thesis using refused assms(3) by (auto simp: mgr_stop_def exited_def)
qed

theorem stopping_is_exact_witness:
  "exited (fst (mgr_stop demo_reader (demo_client KindAgent) 0 demo_daemon)) 0
    \<and> map_of (mg_sessions (fst (mgr_stop demo_reader (demo_client KindAgent) 0 demo_daemon))) (s_ID demo_session) = None"
proof -
  have "allows (s_lease demo_session) opExec (demo_client KindAgent) False"
    by (simp add: demo_session_def newSession_def allows_def demo_client_def)
  then show ?thesis
    using stopping_is_exact[OF manager_reached_inv[OF demo_daemon_reached], of 0 demo_reader "demo_client KindAgent"
        "fst (mgr_stop demo_reader (demo_client KindAgent) 0 demo_daemon)" "snd (mgr_stop demo_reader (demo_client KindAgent) 0 demo_daemon)"
        0 "s_ID demo_session"]
    by (simp add: demo_daemon_sel)
qed

text \<open>
  Detaching removes by id (\<^verbatim>\<open>m.remove(s.ID)\<close>), without the test that stopping makes: if the
  session was forgotten meanwhile and its id given to a newer one, the newer one is
  removed.
\<close>

lemma remove_by_id_hits_newer:
  assumes "map_of (mg_sessions m) (s_ID (sess m p)) = Some q" "q \<noteq> p"
  shows "\<not> names m p \<and> map_of (mg_sessions (mgr_remove (s_ID (sess m p)) m)) (s_ID (sess m p)) = None
    \<and> fst (removeSession p m) = m"
  using assms by (simp add: names_def mgr_remove_def notify_def removeSession_def)

section \<open>Ids\<close>

definition base32 :: "char \<Rightarrow> bool" where
  "base32 c \<longleftrightarrow> is_upper c \<or> c \<in> {CHR ''2'', CHR ''3'', CHR ''4'', CHR ''5'', CHR ''6'', CHR ''7''}"

lemma byte_lower_char: "base32 c \<Longrightarrow> isLowerAlnum (byte (lower_char c)) \<and> byte (lower_char c) < 128"
  by (auto simp: base32_def lower_char_def is_upper_def isLowerAlnum_def)

text \<open>A new id is one that a group cursor accepts, and no session has it.\<close>

lemma newID_valid:
  assumes "newID texts m = Some i" and "\<And>t. t \<in> set texts \<Longrightarrow> 4 \<le> length t \<and> list_all base32 t"
  shows "validCursorID i \<and> map_of (mg_sessions m) i = None \<and> map_of (mg_lost m) i = None"
proof -
  have free: "map_of (mg_sessions m) i = None" "map_of (mg_lost m) i = None"
    using assms(1) by (auto simp: newID_def find_Some_iff)
  have "i \<in> set (map (\<lambda>t. ''s-'' @ map lower_char (take 4 t)) texts)"
    using assms(1) unfolding newID_def find_Some_iff by (metis nth_mem)
  then obtain t where t: "t \<in> set texts" "i = ''s-'' @ map lower_char (take 4 t)" by auto
  have b: "list_all base32 (take 4 t)" using assms(2)[OF t(1)] by (auto simp: list_all_iff dest: in_set_takeD)
  then have "list_all (\<lambda>c. byte c < 128) (map lower_char (take 4 t))" using byte_lower_char by (simp add: list_all_iff)
  then have "list_all isLowerAlnum (runes (map lower_char (take 4 t)))"
    using b byte_lower_char by (simp add: runes_ascii list_all_iff)
  moreover have "take 4 t \<noteq> []" using assms(2)[OF t(1)] by auto
  ultimately show ?thesis using t(2) free by (simp add: validCursorID_def)
qed

end
