(* ===== verification/Start.thy ===== *)
theory Start
  imports Manager_Spec
begin

text \<open>
  Starting sessions (\<^verbatim>\<open>Manager.Start\<close> and \<^verbatim>\<open>Manager.Launch\<close> with \<^verbatim>\<open>modes.go\<close>,
  \<^verbatim>\<open>containerlaunch.go\<close>, \<^verbatim>\<open>testrun.go\<close> and \<^verbatim>\<open>launch.go\<close>): the checks every start makes, the
  driver's preparation, the claim on a container, the adapter's start-up and what undoes a
  start that failed.

  A driver is any implementation of the interface \<^verbatim>\<open>Driver\<close>; the interfaces it may implement
  besides are optional fields. One start's view of the rest of the world is the record
  \<open>world\<close>. Of other clients' requests during the start, those on a test run that is listed
  before its adapter starts are modelled (\<open>w_during\<close>), and those the session's own
  requests allow for while they are at the adapter.
\<close>

section \<open>Drivers and the world\<close>

datatype driver = Driver
  (dr_Prepare: "launch_spec \<Rightarrow> launch result")
  (dr_PrepareWith: "(launch_spec \<Rightarrow> bool \<Rightarrow> bool \<Rightarrow> launch result) option")
  (dr_WithAdapter: "(string \<Rightarrow> error + driver) option")
  (dr_PrepareAttach: "(attach_spec \<Rightarrow> launch result) option")
  (dr_PrepareContainerAttach: "(attach_spec \<Rightarrow> launch result) option")
  (dr_PrepareContainerLaunch: "(container_launch_spec \<Rightarrow> launch result) option")
  (dr_TestCommand: "(launch_spec \<Rightarrow> test_spec \<Rightarrow> test_command result) option")

record proc_info =
  pi_PID :: int
  pi_Name :: string
  pi_Owner :: string
  pi_SameUser :: bool

datatype lookup = NoProcess | LookupFailed string | Found proc_info

text \<open>
  The new session's id (\<^verbatim>\<open>newID\<close>), its recording, the process table, whether the adapter
  process starts, the course of the configuration; for a test run, whether the runner starts,
  what it prints, what is heard of it and its exit code if it is over when the start is.
\<close>

record world =
  w_env :: env
  w_drivers :: "string \<Rightarrow> driver option"
  w_id :: string
  w_recording :: "(recorder \<times> string) option"
  w_lookup :: "int \<Rightarrow> lookup"
  w_adapter :: "launch \<Rightarrow> unit result"
  w_course :: course
  w_during :: "session \<Rightarrow> session"
  w_runner :: "error option"
  w_stdout :: "string list"
  w_stderr :: "string list"
  w_heard :: host_heard
  w_code :: "int option"

section \<open>Checks\<close>

text \<open>\<^verbatim>\<open>checkStart\<close>: the breakpoints are resolved one after another.\<close>

fun resolve_specs :: "fs \<Rightarrow> breakpoint_spec list \<Rightarrow> breakpoint_spec list result" where
  "resolve_specs F [] = Inr []"
| "resolve_specs F (spec # specs) =
    (case resolveSpec F spec True of
       (_, Some e) \<Rightarrow> Inl e
     | (spec', None) \<Rightarrow> map_sum id ((#) spec') (resolve_specs F specs))"

definition checkStart :: "fs \<Rightarrow> start_params \<Rightarrow> start_params result" where
  "checkStart F p0 =
    (let p = (if sp_Exceptions p0 = [] then p0\<lparr>sp_Exceptions := ExceptionsNone\<rparr> else p0) in
     case ParseExceptionMode (sp_Exceptions p) of
       Inl e \<Rightarrow> Inl e
     | Inr _ \<Rightarrow>
         let p1 = p\<lparr>ls_Project := realPath F (ls_Project p), ls_Program := realPath F (ls_Program p),
                    ls_Cwd := realPath F (ls_Cwd p), ls_ClientDir := realPath F (ls_ClientDir p)\<rparr>
         in map_sum id (\<lambda>bps. p1\<lparr>sp_Breakpoints := bps\<rparr>) (resolve_specs F (sp_Breakpoints p1)))"

definition withAdapter :: "driver \<Rightarrow> start_params \<Rightarrow> driver result" where
  "withAdapter drv p =
    (if sp_Adapter p = [] then Inr drv
     else case dr_WithAdapter drv of
       None \<Rightarrow> Inl (NewError CodeInvalidRequest
         [Lit (''--adapter '' @ sp_Adapter p @ '': '' @ sp_Lang p @ '' has only its own adapter'')])
     | Some f \<Rightarrow> f (sp_Adapter p))"

definition checkedStart :: "world \<Rightarrow> start_params \<Rightarrow> (driver \<times> lease_policy \<times> start_params) result" where
  "checkedStart W p =
    (case w_drivers W (sp_Lang p) of
       None \<Rightarrow> Inl (NewError CodeInvalidRequest [Lit (''unknown language '' @ sp_Lang p)])
     | Some drv \<Rightarrow> (case ParseLeasePolicy (sp_LeasePolicy p) of
         Inl e \<Rightarrow> Inl e
       | Inr policy \<Rightarrow>
           if sp_Attach p \<noteq> None \<and> sp_Test p \<noteq> None
           then Inl (NewError CodeInvalidRequest [Lit ''a session either attaches or runs tests, not both''])
           else if sp_ContainerLaunch p \<noteq> None \<and> (sp_Attach p \<noteq> None \<or> sp_Test p \<noteq> None)
           then Inl (NewError CodeInvalidRequest
             [Lit ''a session either launches in a container, attaches or runs tests, not several''])
           else case (if sp_Group p \<noteq> [] then CheckGroup (sp_Group p) else Inr ()) of
             Inl e \<Rightarrow> Inl e
           | Inr _ \<Rightarrow> (case checkStart (env_fs (w_env W)) p of
               Inl e \<Rightarrow> Inl e
             | Inr p' \<Rightarrow> map_sum id (\<lambda>d. (d, policy, p')) (withAdapter drv p'))))"

definition launchOptions :: "launch_spec \<Rightarrow> (string \<times> bool) list" where
  "launchOptions spec =
    [(''--program'', ls_Program spec \<noteq> []), (''--project'', ls_Project spec \<noteq> []),
     (''program arguments'', ls_Args spec \<noteq> []), (''--cwd'', ls_Cwd spec \<noteq> []), (''--env'', ls_Env spec \<noteq> []),
     (''--stop-on-entry'', ls_StopOnEntry spec), (''--no-build'', ls_NoBuild spec)]"

definition refuseOptions :: "launch_spec \<Rightarrow> string list option \<Rightarrow> string \<Rightarrow> error option" where
  "refuseOptions spec only msg =
    (let set_options = map fst (filter (\<lambda>(name, b). b \<and> (case only of None \<Rightarrow> True | Some ns \<Rightarrow> name \<in> set ns)) (launchOptions spec))
     in if set_options = [] then None else Some (NewError CodeInvalidRequest [Lit (msg @ join_with '', '' set_options)]))"

definition launchOnly :: "launch_spec \<Rightarrow> error option" where
  "launchOnly spec = refuseOptions spec None ''attaching takes no launch options: ''"

definition testOnly :: "launch_spec \<Rightarrow> error option" where
  "testOnly spec = refuseOptions spec (Some [''--program'', ''--cwd'', ''--stop-on-entry'']) ''a test run takes no ''"

definition containerLaunchOnly :: "launch_spec \<Rightarrow> error option" where
  "containerLaunchOnly spec =
    (case refuseOptions spec None ''launching in a container takes no host launch options: '' of
       Some e \<Rightarrow> Some e
     | None \<Rightarrow> if ls_Options spec \<noteq> []
         then Some (NewError CodeInvalidRequest [Lit ''launching in a container takes no --opt options'']) else None)"

definition checkProcess :: "(int \<Rightarrow> lookup) \<Rightarrow> int \<Rightarrow> proc_info result" where
  "checkProcess look pid =
    (case look pid of
       NoProcess \<Rightarrow> Inl (NewError CodeInvalidRequest [Lit (''no process '' @ itoa pid)])
     | LookupFailed e \<Rightarrow> Inl (NewError CodeAttachFailed [Lit (''can't check process '' @ itoa pid @ '': '' @ e)])
     | Found info \<Rightarrow>
         if pi_SameUser info then Inr info
         else Inl (NewError CodeAttachFailed [Lit (''process '' @ itoa pid @ '' belongs to another user (''
                @ (if pi_Owner info = [] then ''unknown'' else pi_Owner info) @ '')'')]))"

definition processName :: "proc_info \<Rightarrow> string" where
  "processName info =
    ''pid '' @ itoa (pi_PID info) @ (if pi_Name info \<noteq> [] then '' ('' @ pi_Name info @ '')'' else [])"

definition checkContainerLaunch :: "string \<Rightarrow> launch \<Rightarrow> launch result" where
  "checkContainerLaunch lang la =
    (case la_Container la of
       None \<Rightarrow> Inl (NewError CodeInternal [Lit (lang @ [CHR 0x27] @ ''s driver returned no container to launch in'')])
     | Some c \<Rightarrow>
         if co_ID c = [] then Inl (NewError CodeInternal [Lit (lang @ [CHR 0x27] @ ''s driver returned no container to launch in'')])
         else if la_Request la \<noteq> [] \<and> la_Request la \<noteq> ''launch''
         then Inl (NewError CodeInternal [Lit (lang @ [CHR 0x27] @ ''s driver returned an attach for a container launch'')])
         else Inr (la\<lparr>la_Container := Some (c\<lparr>co_Launched := True\<rparr>), la_Request := ''launch'', la_PID := 0\<rparr>))"

section \<open>Running a start\<close>

text \<open>\<^verbatim>\<open>create\<close>: the new session, and where it is. A test run's runner is set before anyone sees the session.\<close>

definition new_of :: "world \<Rightarrow> client \<Rightarrow> start_params \<Rightarrow> lease_policy \<Rightarrow> launch \<Rightarrow> string \<Rightarrow> session" where
  "new_of W c p policy la mode = created (env_now (w_env W)) (w_id W) c p policy la mode (w_recording W)"

definition mgr_create ::
    "world \<Rightarrow> client \<Rightarrow> start_params \<Rightarrow> lease_policy \<Rightarrow> launch \<Rightarrow> string \<Rightarrow> bool \<Rightarrow> manager \<Rightarrow> manager \<times> ptr" where
  "mgr_create W c p policy la mode run m =
    (m\<lparr>mg_heap := mg_heap m @ [(new_of W c p policy la mode)\<lparr>s_run := run\<rparr>]\<rparr>, length (mg_heap m))"

text \<open>\<^verbatim>\<open>fail\<close>; killing the launched process tree is I/O.\<close>

definition mgr_fail :: "env \<Rightarrow> ptr \<Rightarrow> manager \<Rightarrow> manager" where
  "mgr_fail E p m =
    (let m1 = on_session p (terminate E [] ''its start failed'') m
     in forget (s_ID (sess m1 p)) (mgr_remove (s_ID (sess m1 p)) m1))"

text \<open>A start that fails before its adapter runs: a test run is listed already, any other session is not.\<close>

definition abandon :: "env \<Rightarrow> ptr \<Rightarrow> manager \<Rightarrow> manager" where
  "abandon E p m = (if s_run (sess m p) then mgr_fail E p m else on_session p closeRecording m)"

definition mgr_run :: "world \<Rightarrow> course \<Rightarrow> ptr \<Rightarrow> launch \<Rightarrow> breakpoint_spec list \<Rightarrow> manager \<Rightarrow> manager \<times> ptr result" where
  "mgr_run W C p la bps m =
    (case find (\<lambda>r. \<not> is_ok r) (map (checkBreakpoint (la_PathMap la)) bps) of
       Some (Inl e) \<Rightarrow> (abandon (w_env W) p m, Inl e)
     | _ \<Rightarrow> (case w_adapter W la of
         Inl e \<Rightarrow> (abandon (w_env W) p m, Inl e)
       | Inr _ \<Rightarrow>
           let m1 = on_session p (\<lambda>s. adapterStarted (if s_run s then w_during W s else s)) m in
           if exited m1 p then (mgr_fail (w_env W) p m1, Inl (stoppedWhileStarting (sess m1 p)))
           else let m2 = saveIfLive p (mgr_add p m1) in
             case configure (w_env W) la bps C (sess m2 p) of
               (s', Inl e) \<Rightarrow> (mgr_fail (w_env W) p (on_session p (\<lambda>_. s') m2), Inl e)
             | (s', Inr _) \<Rightarrow> (on_session p (\<lambda>_. s') m2, Inr p)))"

definition create_and_run ::
    "world \<Rightarrow> client \<Rightarrow> start_params \<Rightarrow> lease_policy \<Rightarrow> launch \<Rightarrow> string \<Rightarrow> manager \<Rightarrow> manager \<times> ptr result" where
  "create_and_run W c p policy la mode m =
    (let (m', q) = mgr_create W c p policy la mode False m in mgr_run W (w_course W) q la (sp_Breakpoints p) m')"

text \<open>A claimed start gives its claim back when it fails.\<close>

definition claim_and_run ::
    "world \<Rightarrow> client \<Rightarrow> start_params \<Rightarrow> lease_policy \<Rightarrow> launch \<Rightarrow> string \<Rightarrow> (ptr \<Rightarrow> manager \<Rightarrow> manager \<times> unit result)
     \<Rightarrow> manager \<Rightarrow> manager \<times> ptr result" where
  "claim_and_run W c p policy la mode claiming m =
    (let (m0, q) = mgr_create W c p policy la mode False m in
     case claiming q m0 of
       (m1, Inl e) \<Rightarrow> (on_session q closeRecording m1, Inl e)
     | (m1, Inr _) \<Rightarrow> (case mgr_run W (w_course W) q la (sp_Breakpoints p) m1 of
         (m2, Inl e) \<Rightarrow> (release q m2, Inl e)
       | (m2, Inr r) \<Rightarrow> (m2, Inr r)))"

definition startContainerAttach ::
    "world \<Rightarrow> client \<Rightarrow> driver \<Rightarrow> start_params \<Rightarrow> attach_spec \<Rightarrow> container_spec \<Rightarrow> lease_policy \<Rightarrow> manager \<Rightarrow> manager \<times> ptr result" where
  "startContainerAttach W c drv p att con policy m =
    (case dr_PrepareContainerAttach drv of
       None \<Rightarrow> (m, Inl (NewError CodeInvalidRequest [Lit (sp_Lang p @ '' can't attach inside a container'')]))
     | Some prep \<Rightarrow> (case launchOnly (spec_of p) of Some e \<Rightarrow> (m, Inl e)
     | None \<Rightarrow>
         if as_PID att \<noteq> 0
         then (m, Inl (NewError CodeInvalidRequest
           [Lit ''a container attach names its process in the container spec, not as a host pid'']))
         else (case NewPathMap (env_fs (w_env W)) (cs_Map con) of Inl e \<Rightarrow> (m, Inl e)
     | Inr _ \<Rightarrow> (case prep att of Inl e \<Rightarrow> (m, Inl e)
     | Inr la \<Rightarrow> (case la_Container la of
         None \<Rightarrow> (m, Inl (NewError CodeInternal [Lit (sp_Lang p @ [CHR 0x27] @ ''s driver returned no container to attach to'')]))
       | Some cinfo \<Rightarrow>
           if co_ID cinfo = [] \<or> la_PID la < 1
           then (m, Inl (NewError CodeInternal [Lit (sp_Lang p @ [CHR 0x27] @ ''s driver returned no container to attach to'')]))
           else claim_and_run W c p policy (la\<lparr>la_Request := ''attach''\<rparr>) ModeAttach (\<lambda>q. claim q (co_ID cinfo) (la_PID la)) m)))))"

definition startAttach :: "world \<Rightarrow> client \<Rightarrow> driver \<Rightarrow> start_params \<Rightarrow> attach_spec \<Rightarrow> lease_policy \<Rightarrow> manager \<Rightarrow> manager \<times> ptr result" where
  "startAttach W c drv p att policy m =
    (case as_Container att of Some con \<Rightarrow> startContainerAttach W c drv p att con policy m
     | None \<Rightarrow> (case dr_PrepareAttach drv of
         None \<Rightarrow> (m, Inl (NewError CodeInvalidRequest [Lit (sp_Lang p @ '' can't attach to a running process'')]))
       | Some prep \<Rightarrow> (case launchOnly (spec_of p) of Some e \<Rightarrow> (m, Inl e)
       | None \<Rightarrow> (case checkProcess (w_lookup W) (as_PID att) of Inl e \<Rightarrow> (m, Inl e)
       | Inr info \<Rightarrow> (case prep att of Inl e \<Rightarrow> (m, Inl e)
       | Inr la \<Rightarrow> create_and_run W c p policy
           (la\<lparr>la_Request := ''attach'', la_PID := pi_PID info, la_Program := processName info\<rparr>) ModeAttach m)))))"

definition startContainerLaunch ::
    "world \<Rightarrow> client \<Rightarrow> driver \<Rightarrow> start_params \<Rightarrow> container_launch_spec \<Rightarrow> lease_policy \<Rightarrow> manager \<Rightarrow> manager \<times> ptr result" where
  "startContainerLaunch W c drv p spec policy m =
    (case dr_PrepareContainerLaunch drv of
       None \<Rightarrow> (m, Inl (NewError CodeInvalidRequest [Lit (sp_Lang p @ '' can't launch inside a container'')]))
     | Some prep \<Rightarrow> (case containerLaunchOnly (spec_of p) of Some e \<Rightarrow> (m, Inl e)
     | None \<Rightarrow> (case NewPathMap (env_fs (w_env W)) (cls_Map spec) of Inl e \<Rightarrow> (m, Inl e)
     | Inr _ \<Rightarrow> (case liveClaimOn (cls_Ref spec) m of
         Some h \<Rightarrow> (m, Inl (NewError CodeInvalidRequest
           [Lit (''container '' @ cls_Ref spec @ '' is already debugged by session '' @ s_ID (sess m h))]))
     | None \<Rightarrow> (case prep spec of Inl e \<Rightarrow> (m, Inl e)
     | Inr la0 \<Rightarrow> (case checkContainerLaunch (sp_Lang p) la0 of Inl e \<Rightarrow> (m, Inl e)
     | Inr la \<Rightarrow> claim_and_run W c p policy la [] (\<lambda>q. claimLaunch q (co_ID (the (la_Container la)))) m))))))"

section \<open>Test runs\<close>

definition no_launch :: launch where
  "no_launch = \<lparr>la_Program = [], la_Request = [], la_PID = 0, la_AdapterID = [], la_Arguments = [], la_ExceptionFilters = [],
     la_AdapterName = [], la_PauseUnsupported = [], la_SetByEval = False, la_ExitCodeUnknown = [], la_PathMap = None, la_Container = None\<rparr>"

definition prepareHost :: "world \<Rightarrow> (attach_spec \<Rightarrow> launch result) \<Rightarrow> int \<Rightarrow> launch result" where
  "prepareHost W att pid =
    (case checkProcess (w_lookup W) pid of Inl e \<Rightarrow> Inl e
     | Inr _ \<Rightarrow> map_sum id (\<lambda>la. la\<lparr>la_Request := ''attach'', la_PID := pid\<rparr>) (att \<lparr>as_PID = pid, as_Container = None\<rparr>))"

text \<open>The runner's output up to the moment its host is named or it is given up.\<close>

definition runner_output :: "world \<Rightarrow> test_command \<Rightarrow> session \<Rightarrow> session \<times> test_run" where
  "runner_output W tc s =
    (let (s1, run1, _) = pump (env_now (w_env W)) ''stderr'' None (w_stderr W) s (new_run tc);
         (s2, run2, _) = pump (env_now (w_env W)) ''stdout'' (Some (tc_HostPID tc)) (w_stdout W) s1 run1
     in (s2, run2))"

definition startTestRunner ::
    "world \<Rightarrow> client \<Rightarrow> (attach_spec \<Rightarrow> launch result) \<Rightarrow> start_params \<Rightarrow> lease_policy \<Rightarrow> test_command \<Rightarrow> manager \<Rightarrow> manager \<times> ptr result" where
  "startTestRunner W c att p policy tc m =
    (let (m0, q) = mgr_create W c p policy (no_launch\<lparr>la_Program := tc_Program tc\<rparr>) ModeTest True m;
         m1 = saveIfLive q (mgr_add q m0);
         m2 = on_session q (w_during W) m1
     in case w_runner W of Some e \<Rightarrow> (mgr_fail (w_env W) q m2, Inl e)
        | None \<Rightarrow>
            if exited m2 q then (mgr_fail (w_env W) q m2, Inl (stoppedWhileStarting (sess m2 q)))
            else let (s3, run) = runner_output W tc (sess m2 q); m3 = on_session q (\<lambda>_. s3) m2 in
              case waitHostPID tc (w_heard W) run s3 of Inl e \<Rightarrow> (mgr_fail (w_env W) q m3, Inl e)
              | Inr pid \<Rightarrow> (case prepareHost W att pid of Inl e \<Rightarrow> (mgr_fail (w_env W) q m3, Inl e)
              | Inr la \<Rightarrow> (case mgr_run W (w_course W) q la (sp_Breakpoints p) (on_session q (take_host pid la) m3) of
                  (m4, Inl e) \<Rightarrow> (m4, Inl e)
                | (m4, Inr _) \<Rightarrow> (on_session q (finishRun (env_now (w_env W)) (run\<lparr>tr_started := True, tr_code := w_code W\<rparr>)) m4, Inr q))))"

definition startTest :: "world \<Rightarrow> client \<Rightarrow> driver \<Rightarrow> start_params \<Rightarrow> test_spec \<Rightarrow> lease_policy \<Rightarrow> manager \<Rightarrow> manager \<times> ptr result" where
  "startTest W c drv p ts policy m =
    (case (dr_TestCommand drv, dr_PrepareAttach drv) of
       (Some tester, Some att) \<Rightarrow> (case testOnly (spec_of p) of Some e \<Rightarrow> (m, Inl e)
         | None \<Rightarrow> (case tester (spec_of p) ts of Inl e \<Rightarrow> (m, Inl e)
         | Inr tc \<Rightarrow> (case tc_Launch tc of
             Some la \<Rightarrow> create_and_run W c p policy (la\<lparr>la_Program := tc_Program tc\<rparr>) ModeTest m
           | None \<Rightarrow>
               if ls_Args p \<noteq> []
               then (m, Inl (NewError CodeInvalidRequest [Lit (''a test run takes no arguments after '' @ [CHR 0x22] @ ''--''
                      @ [CHR 0x22] @ '': '' @ join_with '' '' (ls_Args p))]))
               else startTestRunner W c att p policy tc m)))
     | _ \<Rightarrow> (m, Inl (NewError CodeInvalidRequest [Lit (sp_Lang p @ '' can't debug test runs'')])))"

section \<open>The two ways to start\<close>

definition Start :: "world \<Rightarrow> client \<Rightarrow> start_params \<Rightarrow> manager \<Rightarrow> manager \<times> ptr result" where
  "Start W c p0 m =
    (case checkedStart W p0 of Inl e \<Rightarrow> (m, Inl e)
     | Inr (drv, policy, p) \<Rightarrow>
         (case sp_ContainerLaunch p of Some spec \<Rightarrow> startContainerLaunch W c drv p spec policy m
          | None \<Rightarrow> (case sp_Attach p of Some att \<Rightarrow> startAttach W c drv p att policy m
          | None \<Rightarrow> (case sp_Test p of Some ts \<Rightarrow> startTest W c drv p ts policy m
          | None \<Rightarrow> (case dr_Prepare drv (spec_of p) of Inl e \<Rightarrow> (m, Inl e)
              | Inr la \<Rightarrow> create_and_run W c p policy la [] m)))))"

text \<open>
  \<^verbatim>\<open>serveTerminal\<close>: what a terminal's answer makes of the start (none: it goes on).
  \<open>TerminalError\<close> carries whether the error came with the hook's own deadline.
\<close>

datatype terminal_answer = TerminalPID int | TerminalError error bool

definition serveTerminal :: "(string \<Rightarrow> string) \<Rightarrow> terminal_answer \<Rightarrow> error option" where
  "serveTerminal quote a =
    (case a of
       TerminalPID pid \<Rightarrow> if pid < 1 then Some (NewError CodeAdapterFailed [Lit ''the terminal reported no process id'']) else None
     | TerminalError (Error code msg) _ \<Rightarrow> Some (Error code msg)
     | TerminalError (PlainError msg) timedOut \<Rightarrow>
         Some (NewError CodeAdapterFailed [Lit (if timedOut then ''the terminal didn't start the program within 30s''
           else message_text quote msg)]))"

text \<open>\<^verbatim>\<open>runWithTerminal\<close>; \<open>asked\<close> is the answer to the one request the adapter may make, if it made it.\<close>

definition runWithTerminal ::
    "world \<Rightarrow> terminal_answer option \<Rightarrow> ptr \<Rightarrow> launch \<Rightarrow> breakpoint_spec list \<Rightarrow> manager \<Rightarrow> manager \<times> ptr result" where
  "runWithTerminal W asked q la bps m =
    (case mgr_run W ((w_course W)\<lparr>cr_terminal := True\<rparr>) q la bps m of (m', r) \<Rightarrow>
       (case Option.bind asked (serveTerminal (env_quote (w_env W))) of
          None \<Rightarrow> (m', r)
        | Some e \<Rightarrow> (case r of Inr _ \<Rightarrow> (mgr_fail (w_env W) q m', Inl e) | Inl _ \<Rightarrow> (m', Inl e))))"

definition Launch ::
    "world \<Rightarrow> bool \<Rightarrow> terminal_answer option option \<Rightarrow> client \<Rightarrow> start_params \<Rightarrow> manager \<Rightarrow> manager \<times> ptr result" where
  "Launch W stream terminal c p0 m =
    (if sp_Attach p0 \<noteq> None \<or> sp_Test p0 \<noteq> None
     then (m, Inl (NewError CodeInvalidRequest [Lit ''a launch neither attaches nor runs tests'']))
     else case checkedStart W p0 of Inl e \<Rightarrow> (m, Inl e)
     | Inr (drv, policy, p) \<Rightarrow>
         (case (case dr_PrepareWith drv of
                  Some prep \<Rightarrow> prep (spec_of p) stream (terminal \<noteq> None)
                | None \<Rightarrow>
                    if terminal \<noteq> None
                    then Inl (NewError CodeUnsupported [Lit (''the '' @ sp_Lang p @ '' debug adapter can't run the program in a terminal'')])
                    else dr_Prepare drv (spec_of p)) of
            Inl e \<Rightarrow> (m, Inl e)
          | Inr la \<Rightarrow>
              (case terminal of None \<Rightarrow> create_and_run W c p policy la [] m
               | Some asked \<Rightarrow>
                   let (m', q) = mgr_create W c p policy la [] False m in runWithTerminal W asked q la (sp_Breakpoints p) m')))"

end
