(* ===== verification/Start_Spec.thy ===== *)
theory Start_Spec
  imports Start
begin

text \<open>
  What a start guarantees. It is composed of the manager's and the sessions' steps, so every
  invariant of theirs covers it; a start that fails leaves no session listed, no claim and no
  adapter behind; and one that succeeds returns the new session, listed and past its
  configuration.
\<close>

section \<open>A start is made of steps\<close>

interpretation reached: frame_relation "session_step\<^sup>*\<^sup>*"
  by unfold_locales (rule rtranclp.rtrancl_refl, erule (1) rtranclp_trans)

lemma reached_step: "(\<And>s. session_step s (fst (a s))) \<Longrightarrow> reached.act a"
  by (simp add: reached.act_def r_into_rtranclp)

lemma reached_map_err: "reached.act a \<Longrightarrow> reached.act (map_err f a)"
  unfolding reached.act_def map_err_def by (simp add: case_prod_beta split: sum.split)

lemma steps_full: "session_step\<^sup>*\<^sup>* s t \<Longrightarrow> full_inv I s \<Longrightarrow> full_inv I t"
  by (induction rule: rtranclp_induct) (auto intro: step_full)

text \<open>What other clients do to the session meanwhile are steps of it.\<close>

definition clients_step :: "world \<Rightarrow> bool" where
  "clients_step W \<longleftrightarrow> (\<forall>s. session_step\<^sup>*\<^sup>* s (w_during W s)) \<and> (\<forall>h. cr_hook (w_course W) = Some h \<longrightarrow> reached.act h)"

lemma reached_start_request: "reached.act (\<lambda>s. case Do E (start_request la) s of (s', r) \<Rightarrow> (s', Inr r))"
  using session_step.StartRequest by (intro reached_step) (simp add: case_prod_beta)

lemma reached_configure:
  assumes "\<And>h. cr_hook C = Some h \<Longrightarrow> reached.act h"
  shows "reached.act (configure E la bps C)"
proof -
  have "reached.act (run_hook C)"
    unfolding run_hook_def
    by (cases "cr_hook C") (simp_all add: reached.act_ret reached.act_fail reached.act_bind reached.act_if assms)
  moreover have "reached.act (await_launch E la C r)" for r
    unfolding await_launch_def by (cases r) (auto intro!: reached.act_fail reached.act_ret)
  ultimately show ?thesis
    unfolding configure_def
    by (intro reached.act_bind reached_map_err reached_start_request)
      (auto intro!: reached_step session_step.Initialize session_step.WaitInitialized session_step.Configure
        session_step.ConfigureDone reached.act_change r_into_rtranclp session_step.Configured)
qed

lemma configure_ok_state:
  assumes "configure E la bps C s = (t, Inr u)"
  shows "s_state t \<noteq> StateStarting"
proof -
  obtain u' where "change configured u' = (t, Inr u)" using assms unfolding configure_def by (elim bind_actE)
  then have "t = configured u'" by (simp add: change_def)
  then show ?thesis by (simp add: configured_def setStateLocked_def bump_def)
qed

lemma manager_session_steps:
  assumes "session_step\<^sup>*\<^sup>* (sess m p) t" "p < length (mg_heap m)"
  shows "manager_step\<^sup>*\<^sup>* m (on_session p (\<lambda>_. t) m)"
  using assms(1)
proof (induction rule: rtranclp_induct)
  case base
  then show ?case by (simp add: on_session_def sess_def)
next
  case (step t u)
  let ?m = "on_session p (\<lambda>_. t) m"
  have "manager_step ?m (on_session p (\<lambda>_. u) ?m)"
    using assms(2) step.hyps(2) by (intro Session) (simp_all add: sess_on_session)
  moreover have "on_session p (\<lambda>_. u) ?m = on_session p (\<lambda>_. u) m" by (simp add: on_session_def)
  ultimately show ?case using step.IH by simp
qed

section \<open>One session of the manager\<close>

text \<open>Only the session at \<open>p\<close> changes, by its own steps, and no claim does.\<close>

definition only_at :: "ptr \<Rightarrow> manager \<Rightarrow> manager \<Rightarrow> bool" where
  "only_at p m m' \<longleftrightarrow> length (mg_heap m') = length (mg_heap m) \<and> (\<forall>q. q \<noteq> p \<longrightarrow> sess m' q = sess m q)
    \<and> mg_claims m' = mg_claims m \<and> mg_lost m' = mg_lost m \<and> session_step\<^sup>*\<^sup>* (sess m p) (sess m' p) \<and> manager_step\<^sup>*\<^sup>* m m'"

lemma only_at_refl [simp]: "only_at p m m"
  by (simp add: only_at_def)

lemma only_at_trans: "only_at p m m' \<Longrightarrow> only_at p m' m'' \<Longrightarrow> only_at p m m''"
  unfolding only_at_def by (auto intro: rtranclp_trans)

lemma only_at_length: "only_at p m m' \<Longrightarrow> p < length (mg_heap m) \<Longrightarrow> p < length (mg_heap m')"
  by (simp add: only_at_def)

lemma on_session_const: "on_session p f m = on_session p (\<lambda>_. f (sess m p)) m"
  by (simp add: on_session_def)

lemma only_at_session:
  assumes "p < length (mg_heap m)" "session_step\<^sup>*\<^sup>* (sess m p) (f (sess m p))"
  shows "only_at p m (on_session p f m)"
proof -
  have "manager_step\<^sup>*\<^sup>* m (on_session p f m)"
    using manager_session_steps[OF assms(2,1)] by (subst on_session_const)
  then show ?thesis using assms by (simp add: only_at_def sess_on_session)
qed

lemma only_at_step:
  "manager_step m m' \<Longrightarrow> mg_heap m' = mg_heap m \<Longrightarrow> mg_claims m' = mg_claims m \<Longrightarrow> mg_lost m' = mg_lost m \<Longrightarrow> only_at p m m'"
  by (simp add: only_at_def sess_def r_into_rtranclp)

lemma only_at_listing:
  "p < length (mg_heap m) \<Longrightarrow> only_at p m (mgr_add p m)" "only_at p m (saveIfLive q m)"
  "only_at p m (mgr_remove i m)" "only_at p m (forget i m)"
     apply (rule only_at_step[OF ListIt]; simp add: mgr_add_def notify_def)
    apply (rule only_at_step[OF SaveIt]; simp add: saveIfLive_def split: option.split)
   apply (rule only_at_step[OF Unlist]; simp add: mgr_remove_def notify_def)
  apply (rule only_at_step[OF Forget]; simp add: forget_def)
  done

lemma listing_sessions [simp]:
  "mg_sessions (saveIfLive q m) = mg_sessions m" "mg_sessions (mgr_remove i m) = adel i (mg_sessions m)"
  "mg_sessions (forget i m) = mg_sessions m" "mg_sessions (mgr_add p m) = aput (s_ID (sess m p)) p (mg_sessions m)"
  "sess (saveIfLive q m) r = sess m r" "sess (mgr_remove i m) r = sess m r" "sess (forget i m) r = sess m r"
  "sess (mgr_add p m) r = sess m r"
  by (simp_all add: saveIfLive_def mgr_remove_def forget_def mgr_add_def notify_def sess_def split: option.split)

lemma steps_identity: "session_step\<^sup>*\<^sup>* s t \<Longrightarrow> full_inv (identity s) s \<Longrightarrow> identity t = identity s"
  using steps_full[of s t "identity s"] by (simp add: full_inv_def)

lemma mgr_fail_spec:
  assumes "p < length (mg_heap m)"
  shows "only_at p m (mgr_fail E p m) \<and> mg_sessions (mgr_fail E p m) = adel (s_ID (sess m p)) (mg_sessions m)
    \<and> exited (mgr_fail E p m) p"
proof -
  let ?m = "on_session p (terminate E [] ''its start failed'') m"
  have t: "sess ?m p = terminate E [] ''its start failed'' (sess m p)" using assms by (simp add: sess_on_session)
  have "s_ID (sess ?m p) = s_ID (sess m p)"
    using quiet_terminate[of "sess m p" E "[]" "''its start failed''"] by (simp add: t quiet_def kept_def)
  moreover have "only_at p m ?m" by (intro only_at_session[OF assms] r_into_rtranclp session_step.EndByDaemon)
  then have "only_at p m (mgr_fail E p m)"
    unfolding mgr_fail_def Let_def by (rule only_at_trans[OF only_at_trans[OF _ only_at_listing(3)] only_at_listing(4)])
  ultimately show ?thesis by (simp add: mgr_fail_def Let_def exited_def t terminate_spec)
qed

lemma abandon_spec:
  assumes "p < length (mg_heap m)" "s_client (sess m p) \<Longrightarrow> s_run (sess m p)"
  shows "only_at p m (abandon E p m)
    \<and> mg_sessions (abandon E p m) = (if s_run (sess m p) then adel (s_ID (sess m p)) (mg_sessions m) else mg_sessions m)
    \<and> (exited (abandon E p m) p \<or> \<not> s_client (sess (abandon E p m) p))"
proof (cases "s_run (sess m p)")
  case True
  then show ?thesis using mgr_fail_spec[OF assms(1), of E] by (simp add: abandon_def)
next
  case False
  have "only_at p m (on_session p closeRecording m)"
    by (intro only_at_session[OF assms(1)] r_into_rtranclp session_step.RecordingEnd)
  moreover have "\<not> s_client (sess m p)" using False assms(2) by blast
  ultimately show ?thesis using False assms(1) by (simp add: abandon_def sess_on_session closeRecording_def)
qed

lemma find_not_ok: "find (\<lambda>r. \<not> is_ok r) rs = Some r \<Longrightarrow> \<exists>e. r = Inl e"
proof -
  assume "find (\<lambda>r. \<not> is_ok r) rs = Some r"
  then have "\<not> is_ok r" by (auto simp: find_Some_iff)
  then show ?thesis by (cases r) (simp_all add: is_ok_def)
qed

text \<open>A run: what it leaves of the session list and of the session itself.\<close>

lemma mgr_run_spec:
  assumes p: "p < length (mg_heap m)" and fresh: "s_client (sess m p) \<Longrightarrow> s_run (sess m p)" and inv: "full_inv (identity (sess m p)) (sess m p)"
    and clients: "clients_step W" and hook: "cr_hook C = cr_hook (w_course W)"
    and run: "mgr_run W C p la bps m = (m', r)"
  shows "only_at p m m' \<and> (case r of
      Inl e \<Rightarrow> (mg_sessions m' = adel (s_ID (sess m p)) (mg_sessions m) \<or> \<not> s_run (sess m p) \<and> mg_sessions m' = mg_sessions m)
        \<and> (exited m' p \<or> \<not> s_client (sess m' p))
    | Inr q \<Rightarrow> q = p \<and> mg_sessions m' = aput (s_ID (sess m p)) p (mg_sessions m) \<and> s_state (sess m' p) \<noteq> StateStarting)"
    (is "?only \<and> ?rest")
proof -
  have abandoned: ?thesis if "(abandon (w_env W) p m, Inl e) = (m', r)" for e
    using abandon_spec[OF p fresh, of "w_env W"] that by (auto split: if_splits)
  show ?thesis
  proof (cases "find (\<lambda>r. \<not> is_ok r) (map (checkBreakpoint (la_PathMap la)) bps)")
    case (Some x)
    then show ?thesis using find_not_ok[OF Some] run abandoned by (auto simp: mgr_run_def)
  next
    case None
    show ?thesis
    proof (cases "w_adapter W la")
      case (Inl e)
      then show ?thesis using None run abandoned[of e] by (simp add: mgr_run_def)
    next
      case (Inr u)
      define m1 where "m1 = on_session p (\<lambda>s. adapterStarted (if s_run s then w_during W s else s)) m"
      have "session_step\<^sup>*\<^sup>* s (adapterStarted (if s_run s then w_during W s else s))" for s
        using clients session_step.AdapterStart unfolding clients_step_def by (auto intro: rtranclp.rtrancl_into_rtrancl)
      then have only1: "only_at p m m1" unfolding m1_def by (intro only_at_session[OF p])
      have p1: "p < length (mg_heap m1)" by (rule only_at_length[OF only1 p])
      have id1: "s_ID (sess m1 p) = s_ID (sess m p)"
        using steps_identity[OF _ inv, of "sess m1 p"] only1 by (simp add: only_at_def identity_def)
      have s1: "mg_sessions m1 = mg_sessions m" by (simp add: m1_def)
      show ?thesis
      proof (cases "exited m1 p")
        case True
        then have "m' = mgr_fail (w_env W) p m1" "r = Inl (stoppedWhileStarting (sess m1 p))"
          using run None Inr by (simp_all add: mgr_run_def m1_def[symmetric] Let_def)
        then show ?thesis using mgr_fail_spec[OF p1, of "w_env W"] only1 id1 s1 by (auto intro: only_at_trans)
      next
        case False
        define m2 where "m2 = saveIfLive p (mgr_add p m1)"
        have only2: "only_at p m m2" unfolding m2_def
          by (rule only_at_trans[OF only_at_trans[OF only1 only_at_listing(1)[OF p1]] only_at_listing(2)])
        have p2: "p < length (mg_heap m2)" by (rule only_at_length[OF only2 p])
        have s2: "mg_sessions m2 = aput (s_ID (sess m p)) p (mg_sessions m)" "s_ID (sess m2 p) = s_ID (sess m p)"
          by (simp_all add: m2_def s1 id1)
        obtain t res where c: "configure (w_env W) la bps C (sess m2 p) = (t, res)" by fastforce
        have "reached.act (configure (w_env W) la bps C)"
          using clients hook by (intro reached_configure) (simp add: clients_step_def)
        then have steps: "session_step\<^sup>*\<^sup>* (sess m2 p) t" using reached.actD[of _ "sess m2 p"] c by fastforce
        define m3 where "m3 = on_session p (\<lambda>_. t) m2"
        have only3: "only_at p m m3"
          unfolding m3_def by (rule only_at_trans[OF only2 only_at_session[OF p2]]) (rule steps)
        have p3: "p < length (mg_heap m3)" by (rule only_at_length[OF only3 p])
        have s3: "mg_sessions m3 = aput (s_ID (sess m p)) p (mg_sessions m)" "sess m3 p = t"
          using p2 by (simp_all add: m3_def s2 sess_on_session)
        have id3: "s_ID (sess m3 p) = s_ID (sess m p)"
          using steps_identity[OF _ inv, of "sess m3 p"] only3 by (simp add: only_at_def identity_def)
        have out: "(m', r) = (case res of Inl e \<Rightarrow> (mgr_fail (w_env W) p m3, Inl e) | Inr _ \<Rightarrow> (m3, Inr p))"
          using run None Inr False c by (simp add: mgr_run_def m1_def[symmetric] m2_def[symmetric] m3_def Let_def split: sum.splits)
        show ?thesis
        proof (cases res)
          case (Inl e)
          then show ?thesis using mgr_fail_spec[OF p3, of "w_env W"] only3 out s3 id3 by (auto simp: adel_aput intro: only_at_trans)
        next
          case (Inr v)
          then show ?thesis using only3 out s3 configure_ok_state[of "w_env W" la bps C "sess m2 p" t v] c by simp
        qed
      qed
    qed
  qed
qed

section \<open>A new session\<close>

lemma created_sel:
  "s_ID (created now sid c p policy la mode rec) = sid" "s_client (created now sid c p policy la mode rec) = False"
  "s_claimKey (created now sid c p policy la mode rec) = []" "s_group (created now sid c p policy la mode rec) = sp_Group p"
  "s_run (created now sid c p policy la mode rec) = False"
  by (simp_all add: created_def Let_def newSession_def logStarted_def attachRecorder_def log_event_def split: option.split prod.split)

lemma new_of_sel [simp]:
  "s_ID (new_of W c p policy la mode) = w_id W" "s_client (new_of W c p policy la mode) = False"
  "s_claimKey (new_of W c p policy la mode) = []" "s_group (new_of W c p policy la mode) = sp_Group p"
  by (simp_all add: new_of_def created_sel)

lemma new_of_reachable: "reachable ((new_of W c p policy la mode)\<lparr>s_run := run\<rparr>)"
proof (cases run)
  case True
  then show ?thesis by (simp add: new_of_def reachable.TestRun)
next
  case False
  have "(new_of W c p policy la mode)\<lparr>s_run := False\<rparr> = new_of W c p policy la mode"
    using created_sel(5) by (simp add: new_of_def)
  then show ?thesis using False by (simp add: new_of_def reachable.Created)
qed

lemma mgr_create_spec:
  assumes "mgr_create W c p policy la mode run m = (m', q)"
  shows "q = length (mg_heap m)" "length (mg_heap m') = Suc q" "sess m' q = (new_of W c p policy la mode)\<lparr>s_run := run\<rparr>"
    "\<forall>r < q. sess m' r = sess m r" "mg_sessions m' = mg_sessions m" "mg_claims m' = mg_claims m" "manager_step m m'"
  using assms Make[OF new_of_reachable[where W = W and c = c and p = p and policy = policy and la = la and mode = mode and run = run], of m] by (auto simp: mgr_create_def sess_def nth_append)

text \<open>
  The outcome of a start. A failed one lists nothing, takes no claim from a live session, and
  its session, if it got that far, is over or has no adapter. A successful one has listed the
  new session under its id, past its configuration and in its group.
\<close>

definition claims_kept :: "manager \<Rightarrow> manager \<Rightarrow> bool" where
  "claims_kept m m' \<longleftrightarrow> (\<forall>(k, h) \<in> set (mg_claims m). \<not> exited m h \<longrightarrow> (k, h) \<in> set (mg_claims m'))"

definition undone :: "manager \<Rightarrow> manager \<Rightarrow> bool" where
  "undone m m' \<longleftrightarrow> mg_sessions m' = mg_sessions m \<and> set (mg_claims m') \<subseteq> set (mg_claims m)
    \<and> (\<forall>q. length (mg_heap m) \<le> q \<and> q < length (mg_heap m') \<longrightarrow> exited m' q \<or> \<not> s_client (sess m' q))"

definition started :: "string \<Rightarrow> string \<Rightarrow> bool \<Rightarrow> ptr \<Rightarrow> manager \<Rightarrow> manager \<Rightarrow> bool" where
  "started i g claims q m m' \<longleftrightarrow> q = length (mg_heap m) \<and> length (mg_heap m') = Suc q \<and> mg_sessions m' = mg_sessions m @ [(i, q)]
    \<and> s_ID (sess m' q) = i \<and> s_group (sess m' q) = g \<and> s_state (sess m' q) \<noteq> StateStarting
    \<and> full_inv (identity (sess m' q)) (sess m' q)
    \<and> (if claims then s_claimKey (sess m' q) \<noteq> [] \<and> map_of (mg_claims m') (s_claimKey (sess m' q)) = Some q
       else mg_claims m' = mg_claims m)"

definition outcome :: "string \<Rightarrow> string \<Rightarrow> bool \<Rightarrow> manager \<Rightarrow> manager \<times> ptr result \<Rightarrow> bool" where
  "outcome i g claims m res \<longleftrightarrow> (case res of (m', r) \<Rightarrow>
    manager_step\<^sup>*\<^sup>* m m' \<and> (\<forall>q < length (mg_heap m). sess m' q = sess m q) \<and> claims_kept m m'
    \<and> (case r of Inl e \<Rightarrow> undone m m' | Inr q \<Rightarrow> started i g claims q m m'))"

lemma refused_outcome [simp]: "outcome i g claims m (m, Inl e)"
  by (auto simp: outcome_def undone_def claims_kept_def)

lemma reached_new:
  assumes "sess m q = (new_of W c p policy la mode)\<lparr>s_run := run\<rparr>" "session_step\<^sup>*\<^sup>* (sess m q) t"
  shows "s_ID t = w_id W" "s_group t = sp_Group p" "s_claimKey t = []" "s_run t = run" "full_inv (identity t) t"
proof -
  have inv: "full_inv (identity (sess m q)) (sess m q)"
    unfolding assms(1) by (rule reachable_full[OF new_of_reachable])
  have "full_inv (identity (sess m q)) t" by (rule steps_full[OF assms(2) inv])
  then show "s_ID t = w_id W" "s_group t = sp_Group p" "s_claimKey t = []" "s_run t = run" "full_inv (identity t) t"
    using assms(1) by (simp_all add: full_inv_def identity_def)
qed

lemma create_and_run_outcome:
  assumes "map_of (mg_sessions m) (w_id W) = None" "clients_step W"
  shows "outcome (w_id W) (sp_Group p) False m (create_and_run W c p policy la mode m)"
proof -
  obtain m0 q where c: "mgr_create W c p policy la mode False m = (m0, q)" by fastforce
  note new = mgr_create_spec[OF c]
  obtain m' r where run: "mgr_run W (w_course W) q la (sp_Breakpoints p) m0 = (m', r)" by fastforce
  have inv: "full_inv (identity (sess m0 q)) (sess m0 q)" unfolding new(3) by (rule reachable_full[OF new_of_reachable])
  have "q < length (mg_heap m0)" "s_client (sess m0 q) \<Longrightarrow> s_run (sess m0 q)" using new by simp_all
  note spec = mgr_run_spec[OF this inv assms(2) refl run]
  have only: "only_at q m0 m'" using spec by blast
  have t: "s_ID (sess m' q) = w_id W" "s_group (sess m' q) = sp_Group p" "full_inv (identity (sess m' q)) (sess m' q)"
    using reached_new[OF new(3), of "sess m' q"] only by (simp_all add: only_at_def)
  have "manager_step\<^sup>*\<^sup>* m m'" using r_into_rtranclp[of manager_step, OF new(7)] only by (auto simp: only_at_def)
  moreover have "create_and_run W c p policy la mode m = (m', r)" by (simp add: create_and_run_def c run)
  ultimately show ?thesis using spec only new t assms(1)
    by (cases r) (auto simp: outcome_def undone_def started_def claims_kept_def only_at_def adel_none aput_absent less_Suc_eq)
qed

section \<open>Starts with a claim\<close>

lemma take_claim_steps:
  assumes "\<And>m. q < length (mg_heap m) \<Longrightarrow> s_claimKey (sess m q) = [] \<Longrightarrow> manager_step m (fst (take_scan q cid key conflicts m))"
  shows "q < length (mg_heap m) \<Longrightarrow> s_claimKey (sess m q) = [] \<Longrightarrow> manager_step\<^sup>*\<^sup>* m (fst (take_claim q cid key conflicts refuse m))"
proof (induction "length (mg_claims m)" arbitrary: m rule: less_induct)
  case less
  obtain m' found where scan: "take_scan q cid key conflicts m = (m', found)" by fastforce
  have step: "manager_step m m'" using assms[OF less.prems] scan by simp
  show ?case
  proof (cases found)
    case Nil
    then show ?thesis using step scan by (simp add: take_claim.simps[of q cid key conflicts refuse m] r_into_rtranclp)
  next
    case (Cons x xs)
    then have m: "m' = m" using scan by (auto simp: take_scan_def Let_def split: if_splits)
    let ?m = "take_over (x # xs) m"
    have "length (mg_claims ?m) < length (mg_claims m)" using take_over_shrinks scan Cons m by metis
    then have "manager_step\<^sup>*\<^sup>* ?m (fst (take_claim q cid key conflicts refuse ?m))"
      using less.hyps[of ?m] less.prems by (simp add: take_over_def)
    then have "manager_step\<^sup>*\<^sup>* m (fst (take_claim q cid key conflicts refuse ?m))"
      using TakeOver[of m "x # xs"] by (meson converse_rtranclp_into_rtranclp)
    then show ?thesis using scan Cons m
      by (simp add: take_claim.simps[of q cid key conflicts refuse m] split: option.split)
  qed
qed

lemma take_claim_kept:
  assumes "distinct (map fst (mg_claims m))" "take_claim q cid key conflicts refuse m = (m', r)"
    and key: "conflicts key" "has_prefix key (cid @ [SL])"
  obtains (refused) e where "r = Inl e" "m' = m"
  | (taken) F where "r = Inr ()" "m' = claimed q key (m\<lparr>mg_claims := F\<rparr>)" "set F \<subseteq> set (mg_claims m)"
      "key \<notin> fst ` set F" "\<And>k h. (k, h) \<in> set (mg_claims m) \<Longrightarrow> \<not> exited m h \<Longrightarrow> (k, h) \<in> set F"
proof (cases "find (\<lambda>(k, h). \<not> exited m h) (in_the_way cid conflicts m)")
  case (Some c)
  have "r = Inl (refuse c)" "m' = m"
    using take_claim_outcome[OF assms(1) refl, of q cid key conflicts refuse] assms(2) Some by simp_all
  then show ?thesis by (rule refused)
next
  case None
  let ?F = "filter (\<lambda>d. d \<notin> set (in_the_way cid conflicts m)) (mg_claims m)"
  have "r = Inr ()" "m' = claimed q key (m\<lparr>mg_claims := ?F\<rparr>)"
    using take_claim_outcome[OF assms(1) refl, of q cid key conflicts refuse] assms(2) None by simp_all
  moreover have "key \<notin> fst ` set ?F" using key by (auto simp: in_the_way_def)
  moreover have "exited m h" if "(k, h) \<in> set (in_the_way cid conflicts m)" for k h
    using None that by (auto simp: find_None_iff)
  ultimately show ?thesis by (intro taken[of ?F]) auto
qed

lemma sess_claimed:
  "q < length (mg_heap m) \<Longrightarrow> sess (claimed q key m) r = (if r = q then (sess m q)\<lparr>s_claimKey := key\<rparr> else sess m r)"
  "mg_sessions (claimed q key m) = mg_sessions m" "mg_claims (claimed q key m) = aput key q (mg_claims m)"
  "length (mg_heap (claimed q key m)) = length (mg_heap m)"
  using sess_on_session[of q "m\<lparr>mg_claims := aput key q (mg_claims m)\<rparr>" "\<lambda>s. s\<lparr>s_claimKey := key\<rparr>" r]
  by (simp_all add: claimed_def)

lemma claim_and_run_outcome:
  assumes fresh: "map_of (mg_sessions m) (w_id W) = None" and clients: "clients_step W" and inv: "mgr_inv m"
    and claiming: "\<And>q m. claiming q m = take_claim q cid key conflicts (refuse m) m"
    and key: "conflicts key" "has_prefix key (cid @ [SL])" "key \<noteq> []"
    and scan: "\<And>q m. q < length (mg_heap m) \<Longrightarrow> s_claimKey (sess m q) = [] \<Longrightarrow> manager_step m (fst (take_scan q cid key conflicts m))"
  shows "outcome (w_id W) (sp_Group p) True m (claim_and_run W c p policy la mode claiming m)"
proof -
  obtain m0 q where c: "mgr_create W c p policy la mode False m = (m0, q)" by fastforce
  note new = mgr_create_spec[OF c]
  have d: "distinct (map fst (mg_claims m0))" using inv new(6) by (simp add: mgr_inv_def)
  have q: "q < length (mg_heap m0)" using new(2) by simp
  obtain m1 r1 where t: "claiming q m0 = (m1, r1)" by fastforce
  have steps1: "manager_step\<^sup>*\<^sup>* m m1"
  proof -
    have "manager_step\<^sup>*\<^sup>* m0 m1" using take_claim_steps[OF scan q, of "refuse m0"] new(3) t claiming[of q m0] by simp
    then show ?thesis using converse_rtranclp_into_rtranclp[of manager_step m m0 m1] new(7) by blast
  qed
  show ?thesis
    using d t[unfolded claiming] key(1,2)
  proof (cases rule: take_claim_kept)
    case (refused e)
    have "manager_step\<^sup>*\<^sup>* m0 (on_session q closeRecording m0)"
      using only_at_session[OF q, of closeRecording] session_step.RecordingEnd by (auto simp: only_at_def)
    then have "manager_step\<^sup>*\<^sup>* m (on_session q closeRecording m0)"
      using converse_rtranclp_into_rtranclp[of manager_step m m0] new(7) by blast
    then show ?thesis using refused t c new q
      by (auto simp: claim_and_run_def outcome_def undone_def claims_kept_def sess_on_session closeRecording_def less_Suc_eq)
  next
    case (taken F)
    have m1: "mg_sessions m1 = mg_sessions m" "length (mg_heap m1) = Suc q" "mg_claims m1 = F @ [(key, q)]"
      "sess m1 q = (sess m0 q)\<lparr>s_claimKey := key\<rparr>" "\<forall>r < q. sess m1 r = sess m r"
      using taken new q aput_absent[of F key q] by (simp_all add: sess_claimed map_of_eq_None_iff)
    have q1: "q < length (mg_heap m1)" "s_client (sess m1 q) \<Longrightarrow> s_run (sess m1 q)" using m1 new(3) by simp_all
    have inv1: "full_inv (identity (sess m1 q)) (sess m1 q)"
      unfolding m1(4) new(3) by (rule full_inv_claimKey[OF reachable_full[OF new_of_reachable]])
    obtain m2 r where run: "mgr_run W (w_course W) q la (sp_Breakpoints p) m1 = (m2, r)" by fastforce
    note spec = mgr_run_spec[OF q1 inv1 clients refl run]
    have only: "only_at q m1 m2" using spec by blast
    have id2: "identity (sess m2 q) = identity (sess m1 q)" "full_inv (identity (sess m2 q)) (sess m2 q)"
      using steps_full[OF _ inv1, of "sess m2 q"] only by (simp_all add: only_at_def full_inv_def)
    then have t2: "s_ID (sess m2 q) = w_id W" "s_group (sess m2 q) = sp_Group p" "s_claimKey (sess m2 q) = key"
      using m1(4) new(3) by (simp_all add: identity_def)
    have steps2: "manager_step\<^sup>*\<^sup>* m m2" using steps1 only by (auto simp: only_at_def intro: rtranclp_trans)
    have claims2: "mg_claims m2 = F @ [(key, q)]" using only m1(3) by (simp add: only_at_def)
    have old: "\<forall>r < length (mg_heap m). sess m2 r = sess m r" using only m1(5) new(1) by (simp add: only_at_def)
    have live: "(k, h) \<in> set F" if "(k, h) \<in> set (mg_claims m)" "\<not> exited m h" for k h
      using taken(5)[of k h] that new inv by (auto simp: exited_def mgr_inv_def)
    have len2: "length (mg_heap m2) = Suc q" using only m1(2) by (simp add: only_at_def)
    have mine: "map_of (mg_claims m2) key = Some q"
      using claims2 taken(4) by (simp add: map_add_Some_iff map_of_eq_None_iff)
    show ?thesis
    proof (cases r)
      case (Inl e)
      have rel: "release q m2 = m2\<lparr>mg_claims := F\<rparr>"
        using mine t2(3) key(3) claims2 taken(4) adel_none[of F key] by (simp add: release_def Let_def adel_def map_of_eq_None_iff)
      then have "manager_step\<^sup>*\<^sup>* m (m2\<lparr>mg_claims := F\<rparr>)" using Release[of m2 q] steps2 by (simp add: rtranclp.rtrancl_into_rtrancl)
      moreover have "mg_sessions m2 = mg_sessions m" "exited m2 q \<or> \<not> s_client (sess m2 q)"
        using spec Inl m1(1,4) new(3) fresh by (auto simp: adel_none)
      moreover have "set F \<subseteq> set (mg_claims m)" using taken(3) new(6) by simp
      moreover have "claim_and_run W c p policy la mode claiming m = (m2\<lparr>mg_claims := F\<rparr>, Inl e)"
        using Inl t taken(1) run c rel by (simp add: claim_and_run_def)
      ultimately show ?thesis using old live len2 new(1)
        by (auto simp: outcome_def undone_def claims_kept_def exited_def less_Suc_eq)
    next
      case (Inr x)
      have "x = q" "mg_sessions m2 = mg_sessions m @ [(w_id W, q)]" "s_state (sess m2 q) \<noteq> StateStarting"
        using spec Inr m1(1,4) new(3) fresh by (simp_all add: aput_absent)
      moreover have "claim_and_run W c p policy la mode claiming m = (m2, Inr x)"
        using Inr t taken(1) run c by (simp add: claim_and_run_def)
      ultimately show ?thesis using old live len2 new(1) steps2 id2(2) t2 mine key(3) claims2
        by (auto simp: outcome_def started_def claims_kept_def)
    qed
  qed
qed

section \<open>Test runs\<close>

lemma runner_output_steps: "session_step\<^sup>*\<^sup>* s (fst (runner_output W tc s))"
proof -
  have lines: "session_step\<^sup>*\<^sup>* (fst st) (fst (fold (pump_line now cat host) ls st))" for now cat host ls and st :: "session \<times> test_run \<times> int"
  proof (induction ls arbitrary: st)
    case (Cons l ls)
    obtain t run first where st: "st = (t, run, first)" by (cases st)
    have "session_step (fst st) (fst (pump_line now cat host l st))" unfolding st using session_step.RunnerLine by simp
    then show ?case using Cons.IH[of "pump_line now cat host l st"] by (simp add: converse_rtranclp_into_rtranclp)
  qed simp
  have one: "session_step\<^sup>*\<^sup>* t (fst (pump n ct h ls t run))" for n ct h ls t run
    using lines[of "(t, run, 0)"] by (simp add: pump_def)
  obtain s1 run1 f1 where p1: "pump (env_now (w_env W)) ''stderr'' None (w_stderr W) s (new_run tc) = (s1, run1, f1)"
    by (rule prod_cases3)
  have "session_step\<^sup>*\<^sup>* s s1" using one[of s] p1 by (metis fst_conv)
  moreover have "fst (runner_output W tc s) = fst (pump (env_now (w_env W)) ''stdout'' (Some (tc_HostPID tc)) (w_stdout W) s1 run1)"
    unfolding runner_output_def p1 Let_def by (simp add: split_beta)
  ultimately show ?thesis using one[of s1] by (metis rtranclp_trans)
qed

text \<open>The new test run at \<open>q\<close> is listed, and nothing else has changed.\<close>

definition listed_run :: "world \<Rightarrow> start_params \<Rightarrow> ptr \<Rightarrow> manager \<Rightarrow> manager \<Rightarrow> bool" where
  "listed_run W p q m m' \<longleftrightarrow> q = length (mg_heap m) \<and> length (mg_heap m') = Suc q \<and> (\<forall>r < q. sess m' r = sess m r)
    \<and> mg_claims m' = mg_claims m \<and> mg_sessions m' = mg_sessions m @ [(w_id W, q)] \<and> manager_step\<^sup>*\<^sup>* m m'
    \<and> full_inv (identity (sess m' q)) (sess m' q) \<and> s_ID (sess m' q) = w_id W \<and> s_group (sess m' q) = sp_Group p \<and> s_run (sess m' q)"

lemma listed_runD:
  assumes "listed_run W p q m m'"
  shows "q < length (mg_heap m')" "full_inv (identity (sess m' q)) (sess m' q)" "s_run (sess m' q)" "s_ID (sess m' q) = w_id W"
    "s_group (sess m' q) = sp_Group p" "mg_sessions m' = mg_sessions m @ [(w_id W, q)]"
  using assms unfolding listed_run_def by auto

lemma listed_run_only:
  assumes "listed_run W p q m m'" "only_at q m' m''" "mg_sessions m'' = mg_sessions m'"
  shows "listed_run W p q m m''"
proof -
  have "session_step\<^sup>*\<^sup>* (sess m' q) (sess m'' q)" using assms(2) by (simp add: only_at_def)
  then have "full_inv (identity (sess m' q)) (sess m'' q)" using listed_runD(2)[OF assms(1)] by (rule steps_full)
  then show ?thesis using assms by (auto simp: listed_run_def only_at_def full_inv_def identity_def intro: rtranclp_trans)
qed

lemma listed_run_session:
  "listed_run W p q m m' \<Longrightarrow> session_step\<^sup>*\<^sup>* (sess m' q) (f (sess m' q)) \<Longrightarrow> listed_run W p q m (on_session q f m')"
  by (rule listed_run_only[OF _ only_at_session[OF listed_runD(1)]]) simp_all

lemma listed_run_failed:
  assumes "listed_run W p q m m'" "map_of (mg_sessions m) (w_id W) = None"
  shows "outcome i g cl m (mgr_fail E q m', Inl e)"
proof -
  note q = listed_runD(1)[OF assms(1)]
  have "adel (w_id W) (mg_sessions m @ [(w_id W, q)]) = mg_sessions m"
    using adel_none[OF assms(2)] by (simp add: adel_def)
  then show ?thesis using mgr_fail_spec[OF q, of E] assms(1)
    by (auto simp: outcome_def undone_def claims_kept_def listed_run_def only_at_def less_Suc_eq intro: rtranclp_trans)
qed

lemma listed_run_run:
  assumes l: "listed_run W p q m m'" and fresh: "map_of (mg_sessions m) (w_id W) = None" and clients: "clients_step W"
    and run: "mgr_run W (w_course W) q la bps m' = (m'', r)"
  shows "case r of Inl e \<Rightarrow> outcome (w_id W) (sp_Group p) False m (m'', Inl e)
    | Inr x \<Rightarrow> x = q \<and> listed_run W p q m m'' \<and> s_state (sess m'' q) \<noteq> StateStarting"
proof -
  have q: "q < length (mg_heap m')" "s_client (sess m' q) \<Longrightarrow> s_run (sess m' q)" "full_inv (identity (sess m' q)) (sess m' q)"
    using listed_runD[OF l] by simp_all
  note spec = mgr_run_spec[OF q clients refl run]
  have gone: "adel (w_id W) (mg_sessions m @ [(w_id W, q)]) = mg_sessions m"
    using adel_none[OF fresh] by (simp add: adel_def)
  show ?thesis
  proof (cases r)
    case (Inl e)
    then show ?thesis using spec l gone
      by (auto simp: outcome_def undone_def claims_kept_def listed_run_def only_at_def less_Suc_eq intro: rtranclp_trans)
  next
    case (Inr x)
    have "map_of (mg_sessions m') (w_id W) = Some q" using listed_runD(6)[OF l] fresh by (simp add: map_add_Some_iff)
    then have "mg_sessions m'' = mg_sessions m'" using spec Inr listed_runD(4)[OF l] aput_same[of "mg_sessions m'"] by simp
    then show ?thesis using spec Inr listed_run_only[OF l] by simp
  qed
qed

lemma finishRun_state: "s_state s \<noteq> StateStarting \<Longrightarrow> s_state (finishRun now run s) \<noteq> StateStarting"
  using endLocked_exits unfolding finishRun_def by (cases "tr_code run") simp_all

lemma startTestRunner_outcome:
  assumes fresh: "map_of (mg_sessions m) (w_id W) = None" and clients: "clients_step W"
  shows "outcome (w_id W) (sp_Group p) False m (startTestRunner W c att p policy tc m)"
proof -
  obtain m0 q where c: "mgr_create W c p policy (no_launch\<lparr>la_Program := tc_Program tc\<rparr>) ModeTest True m = (m0, q)" by fastforce
  note new = mgr_create_spec[OF c]
  define m1 where "m1 = saveIfLive q (mgr_add q m0)"
  have q0: "q < length (mg_heap m0)" using new(2) by simp
  have only1: "only_at q m0 m1" unfolding m1_def by (rule only_at_trans[OF only_at_listing(1)[OF q0] only_at_listing(2)])
  have inv0: "full_inv (identity (sess m0 q)) (sess m0 q)" unfolding new(3) by (rule reachable_full[OF new_of_reachable])
  have s1: "sess m1 r = sess m0 r" "mg_sessions m1 = mg_sessions m @ [(w_id W, q)]" for r
    using new(3,5) fresh by (simp_all add: m1_def aput_absent)
  have "manager_step\<^sup>*\<^sup>* m m1" using only1 new(7) by (auto simp: only_at_def intro: converse_rtranclp_into_rtranclp)
  then have l1: "listed_run W p q m m1"
    using only1 new inv0 s1 by (simp add: listed_run_def only_at_def)
  define m2 where "m2 = on_session q (w_during W) m1"
  have l2: "listed_run W p q m m2"
    using clients unfolding m2_def clients_step_def by (intro listed_run_session[OF l1]) blast
  obtain s3 run where out: "runner_output W tc (sess m2 q) = (s3, run)" by fastforce
  define m3 where "m3 = on_session q (\<lambda>_. s3) m2"
  have l3: "listed_run W p q m m3"
    using runner_output_steps[of "sess m2 q" W tc] out unfolding m3_def by (intro listed_run_session[OF l2]) simp
  have l4: "listed_run W p q m (on_session q (take_host pid la) m3)" for pid la
    by (intro listed_run_session[OF l3] r_into_rtranclp session_step.TestHost)
  have finished: "outcome (w_id W) (sp_Group p) False m (on_session q (finishRun now run') m4, Inr q)"
    if "listed_run W p q m m4" "s_state (sess m4 q) \<noteq> StateStarting" for now run' m4
  proof -
    let ?m = "on_session q (finishRun now run') m4"
    have "listed_run W p q m ?m"
      by (intro listed_run_session[OF that(1)] r_into_rtranclp session_step.RunFinished)
    moreover have "s_state (sess ?m q) \<noteq> StateStarting"
      using finishRun_state[OF that(2)] listed_runD(1)[OF that(1)] by (simp add: sess_on_session)
    ultimately show ?thesis by (auto simp: outcome_def started_def claims_kept_def listed_run_def)
  qed
  have ran: "outcome (w_id W) (sp_Group p) False m
      (case mgr_run W (w_course W) q la bps (on_session q (take_host pid la) m3) of
         (m4, Inl e) \<Rightarrow> (m4, Inl e)
       | (m4, Inr _) \<Rightarrow> (on_session q (finishRun now run') m4, Inr q))" for la bps pid now run'
    using listed_run_run[OF l4[of pid la] fresh clients, of la bps] finished
    by (cases "mgr_run W (w_course W) q la bps (on_session q (take_host pid la) m3)") (auto split: sum.splits)
  show ?thesis
    unfolding startTestRunner_def c Let_def prod.case m1_def[symmetric] m2_def[symmetric] out m3_def[symmetric]
    using listed_run_failed[OF l2 fresh] listed_run_failed[OF l3 fresh] ran
    by (simp split: option.split sum.split)
qed

lemma startTest_outcome:
  assumes "map_of (mg_sessions m) (w_id W) = None" "clients_step W"
  shows "outcome (w_id W) (sp_Group p) False m (startTest W c drv p ts policy m)"
  using create_and_run_outcome[OF assms] startTestRunner_outcome[OF assms]
  by (simp add: startTest_def split: option.split sum.split)

section \<open>Every start\<close>

definition wants_claim :: "start_params \<Rightarrow> bool" where
  "wants_claim p \<longleftrightarrow> sp_ContainerLaunch p \<noteq> None \<or> (\<exists>a. sp_Attach p = Some a \<and> as_Container a \<noteq> None)"

lemma has_prefix_append [simp]: "has_prefix (p @ x) p"
  by (simp add: has_prefix_def)

lemma claim_key_prefix: "has_prefix (claimKey cid pid) (cid @ [SL])" "has_prefix (launchClaimKey cid) (cid @ [SL])"
  by (simp_all add: claimKey_def launchClaimKey_def has_prefix_def)

lemma claimed_start_outcomes:
  assumes "map_of (mg_sessions m) (w_id W) = None" "clients_step W" "mgr_inv m"
  shows "outcome (w_id W) (sp_Group p) True m (claim_and_run W c p policy la mode (\<lambda>q. claim q cid pid) m)"
    "outcome (w_id W) (sp_Group p) True m (claim_and_run W c p policy la mode (\<lambda>q. claimLaunch q cid) m)"
proof -
  show "outcome (w_id W) (sp_Group p) True m (claim_and_run W c p policy la mode (\<lambda>q. claim q cid pid) m)"
    by (rule claim_and_run_outcome[OF assms claim_def])
      (simp_all add: attach_conflicts_def claim_key_prefix claim_keys_nonempty manager_step.Attach)
  show "outcome (w_id W) (sp_Group p) True m (claim_and_run W c p policy la mode (\<lambda>q. claimLaunch q cid) m)"
    by (rule claim_and_run_outcome[OF assms claimLaunch_def])
      (simp_all add: claim_key_prefix claim_keys_nonempty manager_step.Launch)
qed

lemma startAttach_outcome:
  assumes "map_of (mg_sessions m) (w_id W) = None" "clients_step W" "mgr_inv m"
  shows "outcome (w_id W) (sp_Group p) (as_Container att \<noteq> None) m (startAttach W c drv p att policy m)"
  using create_and_run_outcome[OF assms(1,2)] claimed_start_outcomes(1)[OF assms]
  by (simp add: startAttach_def startContainerAttach_def split: option.split sum.split)

lemma startContainerLaunch_outcome:
  assumes "map_of (mg_sessions m) (w_id W) = None" "clients_step W" "mgr_inv m"
  shows "outcome (w_id W) (sp_Group p) True m (startContainerLaunch W c drv p spec policy m)"
  using claimed_start_outcomes(2)[OF assms] by (simp add: startContainerLaunch_def split: option.split sum.split)

lemma checked_same:
  assumes "checkedStart W p0 = Inr (drv, policy, p)"
  shows "sp_Group p = sp_Group p0" "wants_claim p = wants_claim p0" "sp_ContainerLaunch p = sp_ContainerLaunch p0"
    "sp_Attach p = sp_Attach p0" "sp_Test p = sp_Test p0"
proof -
  have "checkStart F p0 = Inr p \<Longrightarrow> sp_Group p = sp_Group p0 \<and> sp_ContainerLaunch p = sp_ContainerLaunch p0
      \<and> sp_Attach p = sp_Attach p0 \<and> sp_Test p = sp_Test p0" for F
    by (auto simp: checkStart_def Let_def map_sum_def split: sum.splits if_splits)
  then have "sp_Group p = sp_Group p0 \<and> sp_ContainerLaunch p = sp_ContainerLaunch p0 \<and> sp_Attach p = sp_Attach p0 \<and> sp_Test p = sp_Test p0"
    using assms by (auto simp: checkedStart_def map_sum_def split: sum.splits if_splits option.splits)
  then show "sp_Group p = sp_Group p0" "wants_claim p = wants_claim p0" "sp_ContainerLaunch p = sp_ContainerLaunch p0"
    "sp_Attach p = sp_Attach p0" "sp_Test p = sp_Test p0" by (simp_all add: wants_claim_def)
qed

lemma Start_outcome:
  assumes "map_of (mg_sessions m) (w_id W) = None" "clients_step W" "mgr_inv m"
  shows "outcome (w_id W) (sp_Group p0) (wants_claim p0) m (Start W c p0 m)"
proof (cases "checkedStart W p0")
  case (Inl e)
  then show ?thesis by (simp add: Start_def)
next
  case (Inr x)
  obtain drv policy p where x: "x = (drv, policy, p)" by (cases x)
  note same = checked_same[OF Inr[unfolded x]]
  have "outcome (w_id W) (sp_Group p) (wants_claim p) m (Start W c p0 m)"
    using startContainerLaunch_outcome[OF assms] startAttach_outcome[OF assms] startTest_outcome[OF assms(1,2)]
      create_and_run_outcome[OF assms(1,2)]
    by (simp add: Start_def Inr x wants_claim_def split: option.split sum.split)
  then show ?thesis using same by simp
qed

text \<open>A launch with a terminal: the terminal may still end a session that runs.\<close>

lemma started_then_failed:
  assumes "outcome i g False m (m', Inr q)" "map_of (mg_sessions m) i = None"
  shows "outcome i g False m (mgr_fail E q m', Inl e)"
proof -
  have s: "started i g False q m m'" using assms(1) by (simp add: outcome_def)
  then have q: "q < length (mg_heap m')" by (simp add: started_def)
  have "adel i (mg_sessions m @ [(i, q)]) = mg_sessions m" using adel_none[OF assms(2)] by (simp add: adel_def)
  then show ?thesis using mgr_fail_spec[OF q, of E] assms(1) s
    by (auto simp: outcome_def undone_def claims_kept_def started_def only_at_def less_Suc_eq intro: rtranclp_trans)
qed

lemma Launch_outcome:
  assumes fresh: "map_of (mg_sessions m) (w_id W) = None" and clients: "clients_step W"
  shows "outcome (w_id W) (sp_Group p0) False m (Launch W stream terminal c p0 m)"
proof -
  define T where "T = W\<lparr>w_course := (w_course W)\<lparr>cr_terminal := True\<rparr>\<rparr>"
  have T: "w_id T = w_id W" "clients_step T" "map_of (mg_sessions m) (w_id T) = None"
    using assms by (simp_all add: T_def clients_step_def)
  have sel: "w_env T = w_env W" "w_adapter T = w_adapter W" "w_during T = w_during W" "w_recording T = w_recording W"
    "w_course T = (w_course W)\<lparr>cr_terminal := True\<rparr>" by (simp_all add: T_def)
  have run: "mgr_run W ((w_course W)\<lparr>cr_terminal := True\<rparr>) q la bps m0 = mgr_run T (w_course T) q la bps m0"
    and new: "mgr_create W c p policy la [] False m = mgr_create T c p policy la [] False m" for q la bps m0 p policy
    by (simp_all only: mgr_run_def mgr_create_def new_of_def sel T(1))
  have in_terminal: "outcome (w_id W) (sp_Group p) False m
      (case mgr_create W c p policy la [] False m of (m', q) \<Rightarrow> runWithTerminal W asked q la (sp_Breakpoints p) m')" for p policy la asked
  proof -
    obtain m0 q where c: "mgr_create W c p policy la [] False m = (m0, q)" by fastforce
    obtain m' r where r: "mgr_run T (w_course T) q la (sp_Breakpoints p) m0 = (m', r)" by fastforce
    have "create_and_run T c p policy la [] m = (m', r)" using c r by (simp add: create_and_run_def new[symmetric])
    then have oc: "outcome (w_id W) (sp_Group p) False m (m', r)" using create_and_run_outcome[OF T(3,2), of p c policy la "[]"] T(1) by simp
    have "q = x" if "r = Inr x" for x using oc that mgr_create_spec(1)[OF c] by (simp add: outcome_def started_def)
    then show ?thesis
      using oc started_then_failed[OF _ fresh, of "sp_Group p" m' q] unfolding c runWithTerminal_def run r prod.case
      by (auto simp: outcome_def split: option.split sum.split)
  qed
  show ?thesis
  proof (cases "checkedStart W p0")
    case (Inl e)
    then show ?thesis by (simp add: Launch_def)
  next
    case (Inr x)
    obtain drv policy p where x: "x = (drv, policy, p)" by (cases x)
    have "outcome (w_id W) (sp_Group p) False m (Launch W stream terminal c p0 m)"
      using create_and_run_outcome[OF fresh clients] in_terminal by (simp add: Launch_def Inr x split: option.split sum.split)
    then show ?thesis using checked_same(1)[OF Inr[unfolded x]] by simp
  qed
qed

lemma newID_fresh: "newID texts m = Some i \<Longrightarrow> map_of (mg_sessions m) i = None"
  by (auto simp: newID_def find_Some_iff)

text \<open>
  C16: a start that fails leaves nothing behind. Whichever way it was asked for and wherever
  it failed, no session is listed that was not before, every other session is as it was, no
  claim was added and none taken from a live session, and the session it made, if any, is
  over or never had an adapter.
\<close>

theorem failed_start_leaves_nothing:
  assumes "manager_step\<^sup>*\<^sup>* (NewManager left_behind) m" "newID texts m = Some (w_id W)" "clients_step W"
    and "Start W c p m = (m', Inl e) \<or> Launch W stream terminal c p m = (m', Inl e)"
  shows "mg_sessions m' = mg_sessions m \<and> (\<forall>q < length (mg_heap m). sess m' q = sess m q)
    \<and> set (mg_claims m') \<subseteq> set (mg_claims m) \<and> (\<forall>(k, h) \<in> set (mg_claims m). \<not> exited m h \<longrightarrow> (k, h) \<in> set (mg_claims m'))
    \<and> (\<forall>q. length (mg_heap m) \<le> q \<and> q < length (mg_heap m') \<longrightarrow> exited m' q \<or> \<not> s_client (sess m' q))"
proof -
  obtain cl where "outcome (w_id W) (sp_Group p) cl m (m', Inl e)"
    using Start_outcome[OF newID_fresh[OF assms(2)] assms(3) manager_reached_inv[OF assms(1)], of p c]
      Launch_outcome[OF newID_fresh[OF assms(2)] assms(3), of p stream terminal c] assms(4) by (elim disjE) (simp_all only:)
  then show ?thesis
    unfolding outcome_def undone_def claims_kept_def by auto
qed

text \<open>A daemon with one session, asked to launch a program whose adapter starts or does not.\<close>

definition demo_driver :: driver where
  "demo_driver = Driver (\<lambda>_. Inr demo_launch) None None None None None None"

definition demo_params :: start_params where
  "demo_params = \<lparr>ls_Project = [], ls_Program = ''app'', ls_Args = [], ls_Cwd = [], ls_Env = [], ls_NoBuild = False, ls_StopOnEntry = False,
     ls_Options = [], ls_ClientDir = [], ls_VirtualEnv = [], sp_Lang = ''go'', sp_Breakpoints = [], sp_LeasePolicy = [], sp_NoRecord = True,
     sp_Exceptions = [], sp_Attach = None, sp_Test = None, sp_ContainerLaunch = None, sp_Adapter = [], sp_Group = ''web''\<rparr>"

definition answering_env :: env where
  "answering_env = demo_env\<lparr>env_adapter := (\<lambda>_ req. ([], Inr (case req of InitializeReq _ _ \<Rightarrow> InitializeResp no_caps | _ \<Rightarrow> OtherResp)))\<rparr>"

definition demo_world :: "unit result \<Rightarrow> world" where
  "demo_world adapter = \<lparr>w_env = answering_env, w_drivers = (\<lambda>_. Some demo_driver), w_id = ''s-2345'', w_recording = None,
     w_lookup = (\<lambda>_. NoProcess), w_adapter = (\<lambda>_. adapter),
     w_course = \<lparr>cr_meanwhile = [AdapterEvent InitializedEvent], cr_heard = NeitherHeard, cr_ctxErr = [], cr_hook = None,
       cr_endedInHook = False, cr_endedWaiting = False, cr_terminal = False\<rparr>,
     w_during = (\<lambda>s. s), w_runner = None, w_stdout = [], w_stderr = [], w_heard = HostNamed, w_code = None\<rparr>"

lemma demo_world_ok:
  "clients_step (demo_world a)" "newID [''2345''] demo_daemon = Some (w_id (demo_world a))"
  by (simp_all add: clients_step_def demo_world_def newID_def demo_daemon_sel lower_char_def is_upper_def demo_daemon_def
      mgr_add_def notify_def NewManager_def demo_session_def newSession_def sess_def)

definition demo_params_checked :: start_params where
  "demo_params_checked = demo_params\<lparr>sp_Exceptions := ExceptionsNone\<rparr>"

lemma demo_checked: "checkedStart (demo_world a) demo_params = Inr (demo_driver, LeaseFree, demo_params_checked)"
proof -
  have "fst (decode_rune ''w'') = 119" by code_simp
  then have g: "CheckGroup ''web'' = Inr ()" by (simp add: CheckGroup_def isLowerAlnum_def)
  have "checkStart (env_fs (w_env (demo_world a))) demo_params = Inr demo_params_checked"
    by (simp add: checkStart_def demo_params_def demo_params_checked_def Let_def demo_world_def answering_env_def demo_env_def
        realPath_def ParseExceptionMode_def ExceptionModes_def)
  moreover have "withAdapter demo_driver demo_params_checked = Inr demo_driver"
    by (simp add: withAdapter_def demo_params_checked_def demo_params_def)
  moreover have "ParseLeasePolicy (sp_LeasePolicy demo_params) = Inr LeaseFree" by (simp add: ParseLeasePolicy_def demo_params_def)
  moreover have "sp_Group demo_params = ''web''" "sp_Attach demo_params = None" "sp_Test demo_params = None"
    "sp_ContainerLaunch demo_params = None" by (simp_all add: demo_params_def)
  moreover have "w_drivers (demo_world a) (sp_Lang demo_params) = Some demo_driver" by (simp add: demo_world_def)
  ultimately show ?thesis by (simp add: checkedStart_def g)
qed

lemma demo_params_sel:
  "sp_ContainerLaunch demo_params_checked = None" "sp_Attach demo_params_checked = None" "sp_Test demo_params_checked = None"
  "sp_Breakpoints demo_params_checked = []" "sp_Exceptions demo_params_checked = ExceptionsNone"
  by (simp_all add: demo_params_checked_def demo_params_def)

lemma demo_failed: "\<exists>m'. Start (demo_world (Inl e)) (demo_client KindAgent) demo_params demo_daemon = (m', Inl e)"
proof -
  have "w_adapter (demo_world (Inl e)) la = Inl e" for la by (simp add: demo_world_def)
  then show ?thesis
    by (simp add: Start_def demo_checked demo_params_sel demo_driver_def create_and_run_def mgr_create_def mgr_run_def)
qed

theorem failed_start_leaves_nothing_witness:
  "mg_sessions (fst (Start (demo_world (Inl (NewError CodeInternal []))) (demo_client KindAgent) demo_params demo_daemon))
    = [(s_ID demo_session, 0)]"
proof -
  obtain m' where m': "Start (demo_world (Inl (NewError CodeInternal []))) (demo_client KindAgent) demo_params demo_daemon
      = (m', Inl (NewError CodeInternal []))" using demo_failed by blast
  show ?thesis using failed_start_leaves_nothing[OF demo_daemon_reached demo_world_ok(2,1) disjI1[OF m']]
    by (simp add: m' demo_daemon_sel)
qed

text \<open>
  C17: a start that succeeds returns a new session, listed under its id after all others and
  in the group it was asked for, past its configuration and keeping the invariant of a
  session. In a container it holds a claim; no live session lost one; no other session
  changed; and all of it was done by the manager's own steps.
\<close>

theorem started_session_is_listed:
  assumes "manager_step\<^sup>*\<^sup>* (NewManager left_behind) m" "newID texts m = Some (w_id W)" "clients_step W"
    and "Start W c p m = (m', Inr q)"
  shows "mgr_Get (w_id W) m' = Inr q \<and> mg_sessions m' = mg_sessions m @ [(w_id W, q)] \<and> q = length (mg_heap m)
    \<and> s_ID (sess m' q) = w_id W \<and> s_group (sess m' q) = sp_Group p \<and> s_state (sess m' q) \<noteq> StateStarting \<and> sess_inv (sess m' q)
    \<and> (wants_claim p \<longrightarrow> map_of (mg_claims m') (s_claimKey (sess m' q)) = Some q)
    \<and> (\<forall>(k, h) \<in> set (mg_claims m). \<not> exited m h \<longrightarrow> (k, h) \<in> set (mg_claims m'))
    \<and> (\<forall>r < length (mg_heap m). sess m' r = sess m r) \<and> manager_step\<^sup>*\<^sup>* m m'"
proof -
  have oc: "outcome (w_id W) (sp_Group p) (wants_claim p) m (m', Inr q)"
    using Start_outcome[OF newID_fresh[OF assms(2)] assms(3) manager_reached_inv[OF assms(1)], of p c] assms(4) by simp
  have "w_id W \<noteq> []" using assms(2) by (auto simp: newID_def find_Some_iff)
  then have "mgr_Get (w_id W) m' = Inr q" using oc newID_fresh[OF assms(2)]
    by (simp add: mgr_Get_def outcome_def started_def map_add_Some_iff split: option.split)
  then show ?thesis using oc by (auto simp: outcome_def started_def claims_kept_def full_inv_def)
qed

lemma bind_ok: "a s = (s', Inr x) \<Longrightarrow> bind_act a f s = f x s'"
  by (simp add: bind_act_def)

text \<open>A session with nothing to send is configured by an adapter that answers everything.\<close>

definition bare :: "session \<Rightarrow> bool" where
  "bare s \<longleftrightarrow> s_bps s = [] \<and> s_pathMap s = None \<and> s_excModes s = [] \<and> \<not> cap_ConfigurationDone (s_caps s)"

lemma answering_Do:
  "bare s \<Longrightarrow> \<exists>t. Do answering_env req s = (t, Inr (case req of InitializeReq _ _ \<Rightarrow> InitializeResp no_caps | _ \<Rightarrow> OtherResp)) \<and> bare t
     \<and> s_initialized t = s_initialized s"
  by (cases req) (simp_all add: Do_def Let_def bare_def answering_env_def inters_def)

lemma bare_initialize: "bare s \<Longrightarrow> \<exists>t. initialize answering_env a b s = (t, Inr ()) \<and> bare t"
  using answering_Do[of s "InitializeReq a b"]
  by (auto simp: initialize_def bind_act_def Call_def change_def setCaps_def bump_def bare_def no_caps_def)

lemma bare_phase: "bare s \<Longrightarrow> s_initialized s \<Longrightarrow> \<exists>t. configurationPhase answering_env [] s = (t, Inr ()) \<and> bare t"
  using answering_Do[of s "SetExceptionBreakpointsReq []"]
  by (auto simp: configurationPhase_def bind_act_def ret_def change_def configureExceptions_def with_state_def Let_def bare_def
      filtersFor_def checkFiltersLocked_def check_def sendFilters_def Call_def sel_any_def)

lemma demo_configured:
  assumes "bare s"
  shows "\<exists>t. configure answering_env demo_launch [] (w_course (demo_world a)) s = (t, Inr ())"
proof -
  let ?C = "w_course (demo_world a)"
  obtain t1 where t1: "initialize answering_env (la_AdapterID demo_launch) (cr_terminal ?C) s = (t1, Inr ())" "bare t1"
    using bare_initialize[OF assms] by blast
  obtain t2 where t2: "Do answering_env (start_request demo_launch) t1 = (t2, Inr OtherResp)" "bare t2"
    using answering_Do[OF t1(2), of "start_request demo_launch"] by (auto simp: start_request_def split: if_splits)
  define t3 where "t3 = t2\<lparr>s_initialized := True\<rparr>"
  have wait: "waitInitialized (env_now answering_env) (cr_meanwhile ?C) (cr_heard ?C) (cr_ctxErr ?C) (Inr OtherResp) t2 = (t3, Inr ())"
    using t2(2) by (simp add: waitInitialized_def demo_world_def inters_def bare_def t3_def Let_def)
  have b3: "bare t3" "s_initialized t3" using t2(2) by (simp_all add: t3_def bare_def)
  obtain t4 where t4: "configurationPhase answering_env [] t3 = (t4, Inr ())" "bare t4" using bare_phase[OF b3] by blast
  have hook: "run_hook ?C = ret ()" "await_launch answering_env demo_launch ?C (Inr OtherResp) = ret ()"
    by (simp_all add: run_hook_def await_launch_def demo_world_def)
  have conf_done: "configurationDone answering_env t4 = (t4, Inr ())"
    using t4(2) by (simp add: configurationDone_def with_state_def bare_def ret_def)
  show ?thesis
    unfolding configure_def bind_ok[where a = "initialize answering_env (la_AdapterID demo_launch) (cr_terminal ?C)", OF t1(1)]
    by (simp add: bind_act_def map_err_def t2(1) wait t4(1) hook ret_def conf_done change_def)
qed

lemma new_of_bare:
  "bare ((new_of (demo_world a) c demo_params_checked policy demo_launch mode)\<lparr>s_run := False, s_client := True\<rparr>)"
  by (simp add: bare_def new_of_def created_def demo_params_checked_def demo_params_def Let_def newSession_def logStarted_def
      log_event_def demo_launch_def withMode_def demo_world_def no_caps_def)

lemma demo_started: "\<exists>m' q. Start (demo_world (Inr ())) (demo_client KindAgent) demo_params demo_daemon = (m', Inr q)"
proof -
  let ?W = "demo_world (Inr ())" and ?q = "length (mg_heap demo_daemon)"
  let ?s = "(new_of ?W (demo_client KindAgent) demo_params_checked LeaseFree demo_launch [])\<lparr>s_run := False\<rparr>"
  define m0 where "m0 = demo_daemon\<lparr>mg_heap := mg_heap demo_daemon @ [?s]\<rparr>"
  define m1 where "m1 = on_session ?q (\<lambda>s. adapterStarted (if s_run s then w_during ?W s else s)) m0"
  have s1: "sess m1 ?q = ?s\<lparr>s_client := True\<rparr>"
    by (simp add: m1_def sess_on_session m0_def) (simp add: sess_def adapterStarted_def)
  have live: "\<not> exited m1 ?q"
    unfolding exited_def s1
    by (simp add: new_of_def created_def demo_params_checked_def demo_params_def Let_def newSession_def logStarted_def log_event_def demo_world_def)
  obtain t where t: "configure answering_env demo_launch [] (w_course ?W) (sess (saveIfLive ?q (mgr_add ?q m1)) ?q) = (t, Inr ())"
    using demo_configured[OF new_of_bare, of "Inr ()" "Inr ()" "demo_client KindAgent" LeaseFree "[]"] s1 by auto
  have W: "w_env ?W = answering_env" "w_adapter ?W la = Inr ()" for la by (simp_all add: demo_world_def)
  have "mgr_run ?W (w_course ?W) ?q demo_launch [] m0 = (on_session ?q (\<lambda>_. t) (saveIfLive ?q (mgr_add ?q m1)), Inr ?q)"
    using live t by (simp add: mgr_run_def m1_def[symmetric] W Let_def)
  then show ?thesis
    by (simp add: Start_def demo_checked demo_params_sel demo_driver_def create_and_run_def mgr_create_def m0_def)
qed

theorem started_session_is_listed_witness:
  "s_group (sess (fst (Start (demo_world (Inr ())) (demo_client KindAgent) demo_params demo_daemon)) 1) = ''web''"
proof -
  obtain m' q where st: "Start (demo_world (Inr ())) (demo_client KindAgent) demo_params demo_daemon = (m', Inr q)"
    using demo_started by blast
  have "q = 1" "s_group (sess m' q) = ''web''"
    using started_session_is_listed[OF demo_daemon_reached demo_world_ok(2,1) st] by (auto simp: demo_daemon_sel demo_params_def)
  then show ?thesis using st by simp
qed

end
