(* ===== verification/Interleaving.thy ===== *)
theory Interleaving
  imports Session_Steps
begin

text \<open>
  A session shared by goroutines. A request to the adapter is made without the session's
  lock, so the calls of different clients overlap: between two critical sections of one
  call, sections of any other call may run. Here a step is one critical section (what the
  source does to the session between taking and releasing its lock, or a part of it), with
  any values for what the call computed before it took the lock: what it read of the
  session earlier, the adapter's answer, its client's arguments. So every order in which
  the source's goroutines can take the lock is a run of these steps. That no section of
  the modelled calls is missing is shown at the end: every whole call is such a run.
\<close>

section \<open>Critical sections\<close>

inductive critical :: "session \<Rightarrow> session \<Rightarrow> bool" where
  adapter_or_client: "critical s (inter_step now i s)"
| request_written: "critical s (s\<lparr>s_sent := s_sent s @ [req]\<rparr>)"
| breakpoint_added: "critical s (fst (addBreakpointLocked now owner spec s))"
| target_added: "critical s (fst (addTemporary now owner spec s))"
| breakpoints_dropped: "critical s (s\<lparr>s_bps := drop_bps P (s_bps s)\<rparr>)"
| breakpoints_matched:
    "critical s (snd (snd (matchLocked now owner key (refuseLocked s [] (map (\<lambda>(spec, e). item spec e) specs)) keep s)))"
| slots_applied: "critical s (applySlotsLocked slots got s)"
| breakpoint_logged: "critical s (logBreakpointLocked now action actor b s)"
| lease_acquired: "critical s (fst (acquireLocked now c s))"
| exec_logged: "critical s (log_event now ((Event EventExec)\<lparr>ev_Client := cid, ev_Action := kind, ev_ThreadID := thread, ev_Text := txt\<rparr>) s)"
| exec_begun: "critical s (before_send kind s)"
| exec_returned: "critical s (after_send kind before r s)"
| capture_kept: "critical s (s\<lparr>s_cur := c, s_prev := p, s_curStale := b\<rparr>)"
| hits_counted: "critical s (count_hits now hs ms s)"
| stop_published: "critical s (publish now gen st desc s)"
| filter_started: "critical s (s\<lparr>s_filters := remove1 f (s_filters s)\<rparr>)"
| continue_in_flight: "critical s (s\<lparr>s_execInFlight := b\<rparr>)"
| stop_reason_set: "s_stopReason s = [] \<Longrightarrow> critical s (s\<lparr>s_stopping := who, s_stopReason := reason\<rparr>)"
| shutdown_started: "critical s (s\<lparr>s_shutdowns := remove1 b (s_shutdowns s)\<rparr>)"
| adapter_disconnected: "critical s (s\<lparr>s_ended := True\<rparr>)"
| session_ended: "critical s (endLocked now reason s)"
| exceptions_noted: "critical s (ExceptionsSet cn mode s)"
| lease_given_up: "critical s (give_up_lease now c gen s)"
| capabilities_known: "critical s (setCaps caps s)"
| start_finished: "critical s (configured s)"
| adapter_started: "critical s (adapterStarted s)"
| host_taken: "critical s (take_host pid la s)"
| output_logged: "critical s (appendOutputLocked now category txt s)"
| run_finished: "critical s (finishRun now run s)"
| recording_closed: "critical s (closeRecording s)"

text \<open>
  The states a session can be in. An exception mode is set from the modes as they were
  before the filters went to the adapter, that is in an earlier state.
\<close>

inductive live :: "session \<Rightarrow> bool" where
  new: "live (newSession now sid lang mode la starter policy)"
| created: "live (created now sid c p policy la mode recording)"
| test_run: "live ((created now sid c p policy la mode recording)\<lparr>s_run := True\<rparr>)"
| one_section: "live s \<Longrightarrow> critical s t \<Longrightarrow> live t"
| modes_stored: "live s \<Longrightarrow> live earlier \<Longrightarrow>
    live (store_modes now c mode force (withMode (s_excModes earlier) (cl_ID c) mode force) s)"

section \<open>Every section keeps the invariant\<close>

lemma matched_keeps:
  "keeps_inv s (snd (snd (matchLocked now owner key (refuseLocked s [] (map (\<lambda>(spec, e). item spec e) specs)) keep s)))"
proof -
  let ?its = "map (\<lambda>(spec, e). item spec e) specs"
  obtain gone its t where m: "matchLocked now owner key (refuseLocked s [] ?its) keep s = (gone, its, t)" by (rule prod_cases3)
  have "served ?its = {}" using item_served[of fst snd specs] by (simp add: case_prod_unfold)
  then have "served (refuseLocked s [] ?its) = {}" using refuse_served[of s "[]" ?its] by simp
  then have "sess_inv s \<Longrightarrow> sess_inv t" using matchLocked_spec[OF m] by (simp add: safe_def)
  then show ?thesis using matchLocked_fixed[of now owner key "refuseLocked s [] ?its" keep s] m by (simp add: keeps_inv_def)
qed

lemma dropped_keeps: "keeps_inv s (s\<lparr>s_bps := drop_bps P (s_bps s)\<rparr>)"
  using sess_inv_set_bps(2)[of s "drop_bps P (s_bps s)"] drop_bps_inv[of "s_nextBP s" "s_bps s" P]
  by (simp add: keeps_inv_def sess_inv_def fixed_def identity_def)

lemma plain_keeps:
  "keeps_inv s (s\<lparr>s_sent := x\<rparr>)" "keeps_inv s (s\<lparr>s_cur := c, s_prev := p, s_curStale := b\<rparr>)"
  "keeps_inv s (s\<lparr>s_filters := f\<rparr>)" "keeps_inv s (s\<lparr>s_execInFlight := b\<rparr>)" "keeps_inv s (s\<lparr>s_stopping := who, s_stopReason := reason\<rparr>)"
  "keeps_inv s (s\<lparr>s_shutdowns := h\<rparr>)" "keeps_inv s (s\<lparr>s_ended := b\<rparr>)"
  by (simp_all add: keeps_inv_def fixed_def identity_def sess_inv_def pres_inv_def presence_of_def)

lemma exec_keeps: "keeps_inv s (before_send kind s)" "keeps_inv s (after_send kind before r s)"
proof -
  have "quiet s (before_send kind s)" by (simp add: before_send_def)
  then show "keeps_inv s (before_send kind s)" by (rule quiet_keeps)
  have "quiet s (after_send kind before r s)" by (auto simp: after_send_def Let_def split: sum.splits)
  then show "keeps_inv s (after_send kind before r s)" by (rule quiet_keeps)
qed

lemma temporary_keeps: "keeps_inv s (fst (addTemporary now owner spec s))"
  by (rule safe.actD[OF safe_addTemporary])

lemma acquired_keeps: "keeps_inv s (fst (acquireLocked now c s))"
  by (rule quiet_keeps[OF silent.actD[OF silent_acquire]])

lemma published_keeps: "keeps_inv s (publish now gen st desc s)"
  by (rule quiet_keeps) simp

lemma critical_keeps: "critical s t \<Longrightarrow> keeps_inv s t"
  by (induction rule: critical.induct)
    (rule quiet_keeps[OF quiet_inter] plain_keeps addBreakpointLocked_keeps temporary_keeps dropped_keeps matched_keeps
      quiet_keeps[OF quiet_applySlots[OF quiet_refl]] quiet_keeps[OF quiet_log_event[OF quiet_refl]] acquired_keeps exec_keeps
      count_hits_keeps published_keeps quiet_keeps[OF quiet_ExceptionsSet] quiet_keeps[OF quiet_give_up] quiet_keeps[OF quiet_setCaps]
      quiet_keeps[OF quiet_configured] start_steps_keep quiet_keeps[OF quiet_finishRun[OF quiet_refl]]
      quiet_keeps[OF quiet_closeRecording[OF quiet_refl]] | (rule quiet_keeps, simp))+

lemma stored_full:
  assumes "full_inv I s" "modes_inv ms"
  shows "full_inv I (store_modes now c mode force ms s)"
  using assms by (simp add: full_inv_def store_modes_def identity_def sess_inv_def pres_inv_def presence_of_def log_append_inv)

lemma live_full: "live s \<Longrightarrow> full_inv (identity s) s"
proof (induction rule: live.induct)
  case (new now sid lang mode la starter policy)
  show ?case by (rule reachable_full[OF reachable.Start])
next
  case (created now sid c p policy la mode recording)
  show ?case by (rule reachable_full[OF reachable.Created])
next
  case (test_run now sid c p policy la mode recording)
  show ?case by (rule reachable_full[OF reachable.TestRun])
next
  case (one_section s t)
  have "full_inv (identity s) t" by (rule keeps_full[OF critical_keeps[OF one_section.hyps(2)] one_section.IH])
  then show ?case by (simp add: full_inv_def)
next
  case (modes_stored s earlier now c mode force)
  have "modes_inv (withMode (s_excModes earlier) (cl_ID c) mode force)"
    using modes_stored.IH(2) withMode_inv by (simp add: full_inv_def)
  from stored_full[OF modes_stored.IH(1) this] show ?case by (simp add: full_inv_def)
qed

section \<open>Every call is made of these sections\<close>

definition onward :: "session \<Rightarrow> session \<Rightarrow> bool" where
  "onward s t \<longleftrightarrow> (live s \<longrightarrow> live t)"

lemma onward_refl [simp]: "onward s s"
  by (simp add: onward_def)

lemma onward_trans: "onward s t \<Longrightarrow> onward t u \<Longrightarrow> onward s u"
  by (simp add: onward_def)

lemma onward_section: "critical s t \<Longrightarrow> onward s t"
  using live.one_section by (simp add: onward_def)

lemmas onward_sections = critical.intros[THEN onward_section]

lemma onward_fold: "(\<And>x s. onward s (f x s)) \<Longrightarrow> onward s (fold f xs s)"
proof (induction xs arbitrary: s)
  case (Cons x xs)
  show ?case using onward_trans[OF Cons.prems Cons.IH[OF Cons.prems]] by simp
qed simp

interpretation alive: frame_relation onward
  by unfold_locales (simp, erule (1) onward_trans)

lemma onward_inters: "onward s (inters now xs s)"
  unfolding inters_def by (rule onward_fold) (rule onward_sections)

lemma onward_Do: "onward s (fst (Do E req s))"
proof -
  have "onward (s\<lparr>s_sent := s_sent s @ [r]\<rparr>) (inters now xs (s\<lparr>s_sent := s_sent s @ [r]\<rparr>))" for now xs r by (rule onward_inters)
  then have "onward s (inters now xs (s\<lparr>s_sent := s_sent s @ [r]\<rparr>))" for now xs r
    using onward_trans onward_section[OF critical.request_written] by blast
  then show ?thesis by (simp add: Do_def Let_def case_prod_unfold)
qed

lemma alive_Call: "alive.act (Call E req sel)"
  unfolding alive.act_def
proof
  fix s show "onward s (fst (Call E req sel s))"
    using onward_Do[of s E req] by (cases "Do E req s"; cases "snd (Do E req s)") (simp_all add: Call_def)
qed

interpretation reading_alive: reading onward E for E
  by unfold_locales (rule alive_Call onward_sections)+

lemma alive_change: "(\<And>s. critical s (f s)) \<Longrightarrow> alive.act (change f)"
  by (rule alive.act_change) (rule onward_section)

lemma onward_logs: "onward s (fold (logBreakpointLocked now action actor) bs s)"
  by (rule onward_fold) (rule onward_sections)

lemma alive_send_slots: "alive.act (send_slots E req slots)"
proof -
  have "send_slots E req slots = bind_act (Call E req sel_breakpoints) (\<lambda>got. change (applySlotsLocked slots got))"
    by (rule ext) (simp add: send_slots_def bind_act_def change_def split: prod.splits sum.splits)
  then show ?thesis by (simp add: alive.act_bind alive_Call alive_change critical.slots_applied)
qed

lemma alive_syncBreakpoints: "alive.act (syncBreakpoints E file)"
  using alive.actD[OF alive_send_slots]
  by (simp add: alive.act_def syncBreakpoints_def Let_def split: option.splits)

lemma onward_syncKey: "onward s (fst (syncKey E key s))"
  using alive.actD[OF alive_send_slots] alive.actD[OF alive_syncBreakpoints]
  by (simp add: syncKey_def syncFunctionBreakpoints_def Let_def)

lemma onward_sync_keys: "onward s (fst (sync_keys E ks s))"
proof (induction ks arbitrary: s)
  case (Cons k ks)
  show ?case using onward_syncKey[of s E k] Cons.IH[of "fst (syncKey E k s)"]
    by (cases "syncKey E k s"; cases "snd (syncKey E k s)") (auto intro: onward_trans)
qed simp

lemma onward_removeBreakpoints: "onward s (fst (removeBreakpoints E actor match s))"
proof -
  let ?s1 = "s\<lparr>s_bps := drop_bps match (s_bps s)\<rparr>"
  have "onward s ?s1" by (rule onward_sections)
  moreover have "onward ?s1 (fst (if s_state ?s1 \<noteq> StateExited then sync_keys E (touched_keys match (s_bps s)) ?s1 else (?s1, None)))"
    using onward_sync_keys by simp
  ultimately show ?thesis unfolding removeBreakpoints_def Let_def case_prod_unfold fst_conv
    by (rule onward_trans[OF onward_trans]) (rule onward_logs)
qed

lemma alive_remove: "alive.act (remove_act E actor match)"
  by (simp add: alive.act_def onward_removeBreakpoints)

lemma onward_AddBreakpoint: "onward s (fst (AddBreakpoint E c spec0 s))"
proof -
  obtain spec err where sp: "resolveSpec (env_fs E) spec0 True = (spec, err)" by force
  obtain t i isNew changed where t: "addBreakpointLocked (env_now E) (cl_ID c) spec s = (t, i, isNew, changed)" by (metis prod_cases4)
  obtain u r where u: "syncKey E (bs_File spec) t = (u, r)" by force
  have "onward s t" using onward_section[OF critical.breakpoint_added, of s "env_now E" "cl_ID c" spec] t by simp
  moreover have "onward t u" using onward_syncKey[of t E "bs_File spec"] u by simp
  ultimately have su: "onward s u" by (rule onward_trans)
  have log: "onward u (logBreakpointLocked now a x b u)" for now a x b by (rule onward_sections)
  have "onward u (fst (AddBreakpoint E c spec0 s)) \<or> fst (AddBreakpoint E c spec0 s) = s"
    using sp t u log by (auto simp: AddBreakpoint_def Let_def split: option.splits sum.splits)
  then show ?thesis using onward_trans[OF su] by auto
qed

lemma onward_RemoveBreakpoint: "onward s (fst (RemoveBreakpoint E c i force s))"
  using onward_removeBreakpoints[of s E "cl_ID c"]
  by (cases "findBreakpointLocked i s") (simp_all add: RemoveBreakpoint_def case_prod_unfold)

lemma onward_log_item: "onward s (log_item now actor it s)"
  by (cases "it_b it") (simp_all add: log_item_def onward_sections)

lemma onward_replace_bps:
  "onward s (fst (replace_bps E c key (map (\<lambda>(spec, e). item spec e) specs) keep s))"
proof -
  let ?its = "map (\<lambda>(spec, e). item spec e) specs"
  obtain gone its2 t where m: "matchLocked (env_now E) (cl_ID c) key (refuseLocked s [] ?its) keep s = (gone, its2, t)" by (rule prod_cases3)
  have "onward s t" using onward_section[OF critical.breakpoints_matched[of s "env_now E" "cl_ID c" key specs keep]] m by simp
  moreover have "onward t (fst (syncKey E key t))" by (rule onward_syncKey)
  ultimately have "onward s (fold (log_item (env_now E) (cl_ID c)) its2
      (fold (logBreakpointLocked (env_now E) ''removed'' (cl_ID c)) gone (fst (syncKey E key t))))"
    using onward_trans[OF onward_trans[OF onward_trans[OF _ _] onward_logs] onward_fold[of "log_item (env_now E) (cl_ID c)", OF onward_log_item]]
    by blast
  then show ?thesis using m by (simp add: replace_bps_def Let_def case_prod_unfold)
qed

lemma onward_Replace: "onward s (fst (ReplaceBreakpoints E c file specs keep s))"
proof (cases "FileKey (env_fs E) file")
  case (Inr key)
  let ?own = "map (\<lambda>sp. sp\<lparr>bs_File := file, bs_Function := [], bs_Anchor := []\<rparr>) specs"
  show ?thesis using Inr onward_replace_bps[of s E c key "map (\<lambda>sp. resolveSpec (env_fs E) sp False) ?own" keep]
    by (simp add: ReplaceBreakpoints_def Let_def comp_def case_prod_unfold)
qed (simp add: ReplaceBreakpoints_def Let_def)

lemma function_item_pair: "\<exists>p. function_item E sp = (case p of (spec, e) \<Rightarrow> item spec e)"
  unfolding function_item_def Let_def case_prod_unfold by (metis fst_conv snd_conv)

lemma onward_ReplaceFunction: "onward s (fst (ReplaceFunctionBreakpoints E c specs s))"
proof -
  have "\<exists>ps. map (function_item E) specs = map (\<lambda>(spec, e). item spec e) ps"
  proof (induction specs)
    case (Cons sp specs)
    then obtain ps where "map (function_item E) specs = map (\<lambda>(spec, e). item spec e) ps" by blast
    moreover obtain p where "function_item E sp = (case p of (spec, e) \<Rightarrow> item spec e)" using function_item_pair by blast
    ultimately have "map (function_item E) (sp # specs) = map (\<lambda>(spec, e). item spec e) (p # ps)" by simp
    then show ?case by blast
  qed simp
  then show ?thesis using onward_replace_bps unfolding ReplaceFunctionBreakpoints_def by metis
qed

lemma alive_admit: "alive.act (admit now r p)"
proof -
  have "alive.act (acquireLocked now c)" for c by (simp add: alive.act_def onward_sections)
  then show ?thesis unfolding admit_def
    by (intro alive.act_with_state)
      (auto intro!: alive.act_rules alive.act_with_state alive_change critical.exec_logged simp: Let_def split: option.splits)
qed

lemma alive_sendRequest: "alive.act (sendRequest E req)"
  unfolding sendRequest_def by (intro alive.act_rules alive_Call)

lemma alive_pauseThread: "alive.act (pauseThread E)"
  unfolding pauseThread_def
  by (intro alive.act_try alive_sendRequest) (auto intro!: alive.act_rules split: sum.splits list.splits)

lemma alive_placeTarget: "alive.act (placeTarget E c spec)"
proof -
  have "alive.act (addTemporary now owner sp)" for now owner sp by (simp add: alive.act_def onward_sections)
  then show ?thesis unfolding placeTarget_def
    by (intro alive.act_with_state)
      (auto intro!: alive.act_rules alive.act_try alive_remove alive_syncBreakpoints alive_change critical.breakpoint_logged
        split: option.splits sum.splits)
qed

lemma alive_prepare: "alive.act (prepare E r)"
  unfolding prepare_def removeTemporary_def
  by (auto intro!: alive.act_rules alive.act_try alive_remove alive_placeTarget alive_pauseThread
      alive_admit reading_alive.act_capture split: option.splits prod.splits)

lemma alive_sendExec: "alive.act (sendExec E kind thread)"
  unfolding sendExec_def by (intro alive.act_if alive_Call alive.act_fail)

lemma alive_send: "alive.act (send E kind thread before)"
  unfolding send_def
  by (intro alive.act_bind alive.act_try alive_change alive_sendExec alive.act_check critical.intros)

lemma alive_execute: "alive.act (execute E r)"
  unfolding execute_def
  by (intro alive.act_bind alive_prepare)
    (auto intro!: alive.act_rules alive.act_try alive_remove alive_send split: option.splits sum.splits)

lemma onward_shutdown: "onward s (shutdownAdapter E b s)"
  using onward_trans[OF onward_section[OF critical.adapter_disconnected] onward_Do] by (simp add: shutdownAdapter_def)

lemma onward_terminate: "onward s (terminate E who reason s)"
proof -
  let ?s1 = "if s_state s \<noteq> StateExited \<and> s_stopReason s = [] then s\<lparr>s_stopping := who, s_stopReason := reason\<rparr> else s"
  have "onward s ?s1" by (simp add: onward_sections)
  then show ?thesis unfolding terminate_def Let_def
    using onward_trans[OF onward_trans[OF _ onward_shutdown] onward_section[OF critical.session_ended]] by blast
qed

lemma alive_Terminate: "alive.act (Terminate E c)"
proof -
  have "alive.act (acquireLocked now c)" for now by (simp add: alive.act_def onward_sections)
  then show ?thesis unfolding Terminate_def
    by (intro alive.act_rules alive.act_change onward_terminate)
qed

lemma alive_evaluate: "alive.act (evaluate E p ctx)"
  unfolding evaluate_def evalBody_def
  by (intro alive.act_bind reading_alive.act_frameID alive_Call)
    (auto intro!: alive.act_bind alive.act_ret reading_alive.act_variables simp: Let_def split: prod.splits)

lemma critical_markStale: "critical s (markStale s)"
proof -
  have "markStale s = s\<lparr>s_cur := s_cur s, s_prev := s_prev s, s_curStale := True\<rparr>" by (simp add: markStale_def)
  then show ?thesis using critical.capture_kept by metis
qed

lemma alive_then_stale: "alive.act a \<Longrightarrow> alive.act (then_stale a)"
  unfolding then_stale_def by (intro alive.act_try alive.act_bind alive_change alive.act_check critical_markStale)

lemma alive_admit_change: "alive.act (admit_change E c kind x)"
  unfolding admit_change_def by (intro alive.act_bind alive_admit alive.act_ret)

lemma alive_Eval: "alive.act (Eval E c p)"
  unfolding Eval_def
  by (auto intro!: alive.act_fail alive_evaluate alive.act_bind alive_admit_change alive_then_stale split: option.splits)

lemma alive_setVariable: "alive.act (setVariable E fid segs p)"
  unfolding setVariable_def setVariableResult_def Let_def
  by (intro alive.act_bind reading_alive.act_scopes alive.act_each reading_alive.act_children alive.act_ret)
    (auto intro!: alive.act_fail alive.act_bind alive.act_if reading_alive.act_walk alive.act_ret alive_Call alive.act_try
      reading_alive.act_children split: option.splits sum.splits)

lemma alive_Set: "alive.act (Set E c p)"
  unfolding Set_def set_at_def setByEvaluate_def evalBody_def
  by (intro alive.act_bind alive.act_check alive.act_with_state alive_admit_change alive_then_stale alive.act_if
      reading_alive.act_frameID alive_setVariable alive_Call)
    (auto intro!: alive.act_ret split: prod.splits)

lemma alive_forwardGuarded: "alive.act (forwardGuarded E req)"
  by (cases req)
    (auto intro!: alive.act_fail alive.act_if alive.act_with_state alive.act_bind alive.act_check alive_sendRequest split: option.splits)

lemma alive_Forward: "alive.act (Forward E c req)"
  unfolding Forward_def forwardExecution_def Let_def
  by (auto intro!: alive.act_fail alive.act_if alive.act_with_state alive.act_bind alive.act_check alive_sendRequest
      alive_forwardGuarded alive_admit_change alive_then_stale split: prod.splits forward_class.splits)

lemma alive_sendFilters: "alive.act (sendFilters E fs)"
  unfolding sendFilters_def by (intro alive.act_rules alive_Call)

lemma onward_setExceptionMode: "onward s (fst (setExceptionMode E c mode force guard s))"
  unfolding onward_def
proof
  assume s: "live s"
  let ?ms = "withMode (s_excModes s) (cl_ID c) mode force"
  let ?u = "fst (sendFilters E (filtersFor ?ms s) s)"
  have u: "live ?u" using alive.actD[OF alive_sendFilters] s by (simp add: onward_def)
  have "live (store_modes (env_now E) c mode force ?ms ?u)" by (rule live.modes_stored[OF u s])
  then show "live (fst (setExceptionMode E c mode force guard s))" using u s
    by (auto simp: setExceptionMode_def with_state_def fail_def ret_def bind_act_def check_def change_def Let_def
        split: option.splits sum.splits prod.splits)
qed

lemma onward_Exceptions: "onward s (fst (Exceptions E c mode force s))"
  using onward_setExceptionMode[of s E c _ force None]
  by (auto simp: Exceptions_def fail_def with_state_def ret_def bind_act_def check_def split: sum.splits)

lemma onward_leave: "onward s (leave E c gen s)"
proof -
  let ?s1 = "fst (removeBreakpoints E (cl_ID c) (leaves_bp c gen s) s)"
  let ?s2 = "if resets_mode c gen ?s1
     then fst (setExceptionMode E c ExceptionsNone False (Some (leftLocked (cl_ID c) gen)) ?s1) else ?s1"
  have "onward ?s1 ?s2" using onward_setExceptionMode by simp
  then show ?thesis unfolding leave_def Let_def
    by (rule onward_trans[OF onward_trans[OF onward_removeBreakpoints] onward_section[OF critical.lease_given_up]])
qed

lemma alive_initialize: "alive.act (initialize E a b)"
  unfolding initialize_def by (intro alive.act_bind alive_Call alive_change critical.capabilities_known)

lemma alive_add_specs: "alive.act (add_specs now specs)"
proof (induction specs)
  case (Cons spec specs)
  show ?case unfolding alive.act_def
  proof
    fix s
    obtain t i isNew changed where t: "addBreakpointLocked now (cl_ID (s_starter s)) spec s = (t, i, isNew, changed)" by (metis prod_cases4)
    have "onward s t" using onward_section[OF critical.breakpoint_added, of s now "cl_ID (s_starter s)" spec] t by simp
    moreover have "alive.act (bind_act (add_specs now specs) (\<lambda>xs. ret (if isNew then i # xs else xs)))"
      by (intro alive.act_bind Cons.IH alive.act_ret)
    ultimately have "onward s (fst (bind_act (add_specs now specs) (\<lambda>xs. ret (if isNew then i # xs else xs)) t))"
      using onward_trans alive.actD by blast
    then show "onward s (fst (add_specs now (spec # specs) s))"
      using t by (auto split: sum.splits)
  qed
next
  case Nil
  have "add_specs now [] = ret []" by (rule ext) (simp add: ret_def)
  then show ?case by (simp add: alive.act_ret)
qed

lemma alive_configurationPhase: "alive.act (configurationPhase E specs)"
proof -
  have "onward s (fst (case sync_keys E (map fst (s_bps s)) s of (s', Some e) \<Rightarrow> (s', Inl e) | (s', None) \<Rightarrow> (s', Inr ())))" for s
    using onward_sync_keys[of s E "map fst (s_bps s)"]
    by (cases "sync_keys E (map fst (s_bps s)) s"; cases "snd (sync_keys E (map fst (s_bps s)) s)") simp_all
  then have sync: "alive.act (\<lambda>s. case sync_keys E (map fst (s_bps s)) s of (s', Some e) \<Rightarrow> (s', Inl e) | (s', None) \<Rightarrow> (s', Inr ()))"
    by (simp add: alive.act_def)
  have exc: "alive.act (configureExceptions E)"
    unfolding configureExceptions_def Let_def by (intro alive.act_with_state alive.act_bind alive.act_check alive_sendFilters)
  have "onward s (fold (\<lambda>i s. logBreakpointLocked now ''added'' (cl_ID (s_starter s)) (copy_of i s) s) xs s)" for now xs s
    by (rule onward_fold) (rule onward_sections)
  then show ?thesis unfolding configurationPhase_def
    by (intro alive.act_bind alive_add_specs sync exc alive.act_change)
qed

lemma alive_configurationDone: "alive.act (configurationDone E)"
  unfolding configurationDone_def by (intro alive.act_with_state alive.act_if alive.act_ret alive_Call)

lemma onward_waitInitialized: "onward s (fst (waitInitialized now meanwhile heard ctxErr resp s))"
  by (simp add: waitInitialized_def Let_def onward_inters)

lemma onward_pump_line: "onward s (fst (pump_line now category host line (s, run, first)))"
  using onward_trans[OF onward_section[OF critical.output_logged] onward_section[OF critical.output_logged]]
  by (simp add: pump_line_def Let_def onward_sections split: option.split)

lemma onward_watchRunner: "onward s (fst (watchRunner now meanwhile code run s))"
  using onward_trans[OF onward_trans[OF onward_inters onward_section[OF critical.run_finished]] onward_section[OF critical.recording_closed]]
  by (simp add: watchRunner_def Let_def)

lemma alive_evalRaw: "alive.act (evalRaw E fid e)"
  unfolding evalRaw_def evalBody_def by (intro alive.act_bind alive_Call) (auto intro: alive.act_ret split: prod.splits)

lemma alive_held: "alive.act (held E fid rs)"
  unfolding held_def Let_def conditionHolds_def
  by (intro alive.act_bind alive.act_each alive.act_try alive_evalRaw alive.act_ret) (auto intro: alive.act_ret split: sum.splits)

lemma alive_renderLog: "alive.act (renderLog E fid ps)"
  unfolding renderLog_def render_part_def
  by (intro alive.act_bind alive.act_each alive.act_if alive.act_try alive_evalRaw alive.act_ret)

lemma alive_settle: "alive.act (settle E gen st d)"
  unfolding settle_def autoContinue_def Let_def
  by (auto intro!: alive.act_with_state alive.act_if alive_change critical.stop_published critical.continue_in_flight alive.act_bind
      alive.act_try alive_sendExec alive.act_ret split: sum.splits)

lemma alive_filterStop: "alive.act (filterStop E gen st)"
proof -
  have "alive.act (filter_at E gen st f records)" for f records
    unfolding filter_at_def Let_def
    by (intro alive.act_bind alive.act_each alive_held alive_renderLog alive_change critical.hits_counted alive_settle)
  then show ?thesis unfolding filterStop_def Let_def
    by (auto intro!: alive.act_with_state alive.act_if alive.act_ret alive.act_try reading_alive.act_stack
        alive_change critical.stop_published split: sum.splits list.splits)
qed

lemma call_is_sections: "session_step s t \<Longrightarrow> onward s t"
proof (induction rule: session_step.induct)
  case (Filter gen st s E)
  show ?case by (rule onward_trans[OF onward_section[OF critical.filter_started] alive.actD[OF alive_filterStop]])
next
  case (Shutdown b s E)
  show ?case by (rule onward_trans[OF onward_section[OF critical.shutdown_started] onward_shutdown])
qed (rule onward_sections onward_AddBreakpoint onward_RemoveBreakpoint onward_Replace onward_ReplaceFunction alive.actD[OF alive_execute]
    alive.actD[OF alive_remove] alive.actD[OF alive_Terminate] onward_terminate alive.actD[OF alive_Eval] alive.actD[OF alive_Set]
    alive.actD[OF alive_Forward] onward_Exceptions onward_leave alive.actD[OF reading_alive.act_Stack] alive.actD[OF reading_alive.act_Vars]
    alive.actD[OF reading_alive.act_Expand] alive.actD[OF reading_alive.act_Changes] alive.actD[OF alive_initialize]
    alive.actD[OF alive_configurationPhase] alive.actD[OF alive_configurationDone] onward_Do onward_waitInitialized onward_pump_line
    onward_watchRunner)+

lemma call_keeps_live: "live s \<Longrightarrow> session_step s t \<Longrightarrow> live t"
  using call_is_sections by (simp add: onward_def)

section \<open>The invariant of a session\<close>

text \<open>
  C1: the invariant of a session holds in every state it can reach, in whatever order its
  lock is taken: the critical sections of all clients' calls, of the adapter's events, of
  connections and of the goroutines they start may alternate in any way, also inside a
  call that waits for the adapter, and each with any values read before. The event log is
  an unbroken window within its bounds, pending lease requests are bounded, one per client
  and none of the holder's, every connection generation was given out, breakpoint ids are
  unique and never reused, every breakpoint is filed under its own file with no empty
  list, and each client has at most one exception mode. And no call leads anywhere else:
  a whole call of any client, with whatever happens while it waits, is one of these runs.
\<close>

theorem session_invariant:
  assumes "live s"
  shows "log_inv (s_log s) \<and> lease_inv (s_lease s) \<and> pres_inv s \<and> bps_inv (s_nextBP s) (s_bps s) \<and> modes_inv (s_excModes s)
    \<and> (\<forall>t. session_step s t \<longrightarrow> live t)"
  using live_full[OF assms] call_keeps_live[OF assms] by (simp add: full_inv_def sess_inv_def)

text \<open>
  The witness overlaps two calls: one client's breakpoint request waits for the adapter
  while another client's breakpoint is added, and only then its answer is applied.
\<close>

definition demo_overlap :: session where
  "demo_overlap =
    (let s1 = fst (addBreakpointLocked 0 ''one'' demo_spec demo_session);
         s2 = fst (addBreakpointLocked 0 ''two'' demo_spec s1)
     in applySlotsLocked (slotsFor (bps_at (bs_File demo_spec) s1))
          [\<lparr>db_Id = 7, db_Verified = True, db_Message = [], db_Line = 0, db_Source = None\<rparr>] s2)"

theorem session_invariant_witness:
  "bps_inv (s_nextBP demo_overlap) (s_bps demo_overlap) \<and> map (\<lambda>b. (bp_Owner b, bp_Verified b)) (all_bps demo_overlap) = [(''one'', True), (''two'', False)]"
proof -
  have "live demo_session" unfolding demo_session_def by (rule live.new)
  then have "live demo_overlap" unfolding demo_overlap_def Let_def
    by (intro live.one_section[OF _ critical.slots_applied] live.one_section[OF _ critical.breakpoint_added])
  moreover have "map (\<lambda>b. (bp_Owner b, bp_Verified b)) (all_bps demo_overlap) = [(''one'', True), (''two'', False)]"
    by (simp add: demo_overlap_def Let_def addBreakpointLocked_def applySlotsLocked_def demo_session_def newSession_def bps_at_def
        addNewLocked_def new_bp_def setEmulated_def all_bps_def demo_spec_def no_spec_def spec_key_def bp_key_def slotsFor_def slot_merge_def apply_slot_def map_bps_def answer_def placed_def split: prod.split sum.split)
  ultimately show ?thesis using session_invariant[of demo_overlap] by blast
qed

end
