(* ===== verification/Eval_Guard.thy ===== *)
theory Eval_Guard
  imports Go_Base
begin

text \<open>
  The side-effect check of the generic driver (\<^verbatim>\<open>drivers/generic/guard.go\<close>): a scan of an
  expression's text for calls, assignments and interpolated strings, by the words and
  operators of an adapter's manifest. The scanner's position is the rest of the runes.
  Lower-casing a string is a parameter (its tables are data of the Unicode version);
  letters and digits are not, because every rune from \<open>0x80\<close> on counts as a letter.

  The scanner decides rune by rune with a little state. It is compared with the rules as
  the manifest's documentation states them, over the list of the expression's tokens.
\<close>

section \<open>Text\<close>

text \<open>Converting runes to a string.\<close>

definition encode_rune :: "rune \<Rightarrow> string" where
  "encode_rune r =
    (if r < 128 then [char_of r]
     else if r < 2048 then [char_of (192 + r div 64), char_of (128 + r mod 64)]
     else if r < 65536 then [char_of (224 + r div 4096), char_of (128 + r div 64 mod 64), char_of (128 + r mod 64)]
     else [char_of (240 + r div 262144), char_of (128 + r div 4096 mod 64), char_of (128 + r div 64 mod 64),
           char_of (128 + r mod 64)])"

definition string_of_runes :: "rune list \<Rightarrow> string" where
  "string_of_runes rs = concat (map encode_rune rs)"

abbreviation ascii :: "char \<Rightarrow> rune" where "ascii c \<equiv> byte c"

definition opChars :: "rune list" where
  "opChars = map byte ''=<>!:+-*/%&|^~@''"

definition isIdentStart :: "rune \<Rightarrow> bool" where
  "isIdentStart c = (c = 95 \<or> c \<ge> 128 \<or> (97 \<le> c \<and> c \<le> 122) \<or> (65 \<le> c \<and> c \<le> 90))"

definition isIdentPart :: "rune \<Rightarrow> bool" where
  "isIdentPart c = (isIdentStart c \<or> (48 \<le> c \<and> c \<le> 57))"

section \<open>The scanner\<close>

record guard =
  g_quotes :: "rune list"
  g_prefixes :: "string list"
  g_nonCall :: "string list"
  g_safe :: "string list"
  g_assign :: "string list"

record eval_guard =
  eg_Quotes :: "string list"
  eg_InterpolatedPrefixes :: "string list"
  eg_NonCallWords :: "string list"
  eg_SafeCalls :: "string list"
  eg_AssignOps :: "string list"

datatype token_kind = tokOther | tokName | tokCloser

record scanner =
  sc_rest :: "rune list"
  sc_prev :: token_kind
  sc_name :: string
  sc_dotted :: bool
  sc_last :: rune

definition closes :: "rune \<Rightarrow> nat \<Rightarrow> rune list \<Rightarrow> bool" where
  "closes q n rs = (n \<le> length rs \<and> take n rs = replicate n q)"

function skip_loop :: "rune \<Rightarrow> nat \<Rightarrow> rune list \<Rightarrow> rune list option" where
  "skip_loop q n [] = None"
| "skip_loop q n (c # cs) =
    (if c = 92 then skip_loop q n (drop 1 cs)
     else if closes q n (c # cs) then Some (drop n (c # cs))
     else skip_loop q n cs)"
  by pat_completeness auto
termination by (relation "measure (\<lambda>(q, n, rs). length rs)") auto

text \<open>The number of quotes that start the string: three, or one.\<close>

definition quote_count :: "rune list \<Rightarrow> nat" where
  "quote_count rs = (if 2 < length rs \<and> rs ! 1 = rs ! 0 \<and> rs ! 2 = rs ! 0 then 3 else 1)"

text \<open>\<^verbatim>\<open>skipString\<close> at a non-empty rest: what follows the string, if it ends.\<close>

definition skip_string :: "rune list \<Rightarrow> rune list option" where
  "skip_string rs = skip_loop (hd rs) (quote_count rs) (drop (quote_count rs) rs)"

definition unterminated :: string where
  "unterminated = ''use an unterminated string (the rest can'' @ [CHR 0x27] @ ''t be checked)''"

definition interpolated :: string where
  "interpolated = ''use an interpolated string (it can run code)''"

definition assignment :: "guard \<Rightarrow> string \<Rightarrow> string option" where
  "assignment g run = find (\<lambda>op. run = op \<or> (length op < length run \<and> take (length op) run = op \<and> run ! length op \<noteq> CHR ''='')) (g_assign g)"

definition call :: "guard \<Rightarrow> scanner \<Rightarrow> string option" where
  "call g s =
    (case sc_prev s of
       tokName \<Rightarrow>
         if sc_name s \<in> set (g_nonCall g) \<or> (sc_name s \<in> set (g_safe g) \<and> \<not> sc_dotted s) then None
         else Some (''call a function ('' @ sc_name s @ '')'')
     | tokCloser \<Rightarrow> Some ''call a function''
     | tokOther \<Rightarrow> None)"

text \<open>A step returns the scanner with the reason, whether something was found and whether to stop.\<close>

definition scan_identifier :: "(string \<Rightarrow> string) \<Rightarrow> guard \<Rightarrow> scanner \<Rightarrow> scanner \<times> string \<times> bool \<times> bool" where
  "scan_identifier lower g s =
    (let word = takeWhile isIdentPart (sc_rest s); rest = dropWhile isIdentPart (sc_rest s) in
     if rest \<noteq> [] \<and> hd rest \<in> set (g_quotes g)
     then if lower (string_of_runes word) \<in> set (g_prefixes g) then (s, interpolated, True, False)
          else case skip_string rest of
            None \<Rightarrow> (s, unterminated, True, True)
          | Some rest' \<Rightarrow> (s\<lparr>sc_rest := rest', sc_prev := tokOther, sc_last := hd rest\<rparr>, [], False, False)
     else (s\<lparr>sc_rest := rest, sc_prev := tokName, sc_name := string_of_runes word, sc_dotted := (sc_last s = ascii CHR ''.''),
             sc_last := last word\<rparr>, [], False, False))"

definition step :: "(string \<Rightarrow> string) \<Rightarrow> guard \<Rightarrow> scanner \<Rightarrow> scanner \<times> string \<times> bool \<times> bool" where
  "step lower g s =
    (case sc_rest s of [] \<Rightarrow> (s, [], False, True)
     | c # cs \<Rightarrow>
       if IsSpace c then (s\<lparr>sc_rest := cs\<rparr>, [], False, False)
       else if c \<in> set (g_quotes g) then
         (case skip_string (c # cs) of
            None \<Rightarrow> (s, unterminated, True, True)
          | Some rest \<Rightarrow> (s\<lparr>sc_rest := rest, sc_prev := tokOther, sc_last := c\<rparr>, [], False, False))
       else if isIdentStart c then scan_identifier lower g s
       else if ascii CHR ''0'' \<le> c \<and> c \<le> ascii CHR ''9'' then
         (s\<lparr>sc_rest := dropWhile (\<lambda>r. isIdentPart r \<or> r = ascii CHR ''.'') (c # cs), sc_prev := tokOther, sc_last := c\<rparr>, [], False, False)
       else if c = ascii CHR ''('' then
         (case call g s of
            Some reason \<Rightarrow> (s, reason, True, False)
          | None \<Rightarrow> (s\<lparr>sc_rest := cs, sc_prev := tokOther, sc_last := c\<rparr>, [], False, False))
       else if c = ascii CHR '')'' \<or> c = ascii CHR '']'' then
         (s\<lparr>sc_rest := cs, sc_prev := tokCloser, sc_last := c\<rparr>, [], False, False)
       else if c \<in> set opChars then
         (case assignment g (string_of_runes (takeWhile (\<lambda>r. r \<in> set opChars) (c # cs))) of
            Some op \<Rightarrow> (s, ''assign ('' @ op @ '')'', True, False)
          | None \<Rightarrow> (s\<lparr>sc_rest := dropWhile (\<lambda>r. r \<in> set opChars) (c # cs), sc_prev := tokOther, sc_last := c\<rparr>, [], False, False))
       else (s\<lparr>sc_rest := cs, sc_prev := tokOther, sc_last := c\<rparr>, [], False, False))"

text \<open>Every step that goes on consumes something, so the scan ends.\<close>

lemma skip_loop_shorter: "skip_loop q n rs = Some rest \<Longrightarrow> length rest \<le> length rs"
  by (induction q n rs rule: skip_loop.induct) (fastforce split: if_splits)+

lemma skip_string_shorter:
  assumes "skip_string rs = Some rest" "rs \<noteq> []"
  shows "length rest < length rs"
proof -
  have "length rest \<le> length (drop (quote_count rs) rs)"
    using assms(1) skip_loop_shorter unfolding skip_string_def by blast
  moreover have "0 < quote_count rs" by (simp add: quote_count_def)
  ultimately show ?thesis using assms(2) by (cases rs) auto
qed

lemma dropWhile_shorter: "rs \<noteq> [] \<Longrightarrow> P (hd rs) \<Longrightarrow> length (dropWhile P rs) < length rs"
  by (cases rs) (auto intro: le_imp_less_Suc length_dropWhile_le)

lemma scan_identifier_consumes:
  assumes "scan_identifier lower g s = (s', reason, False, False)" "sc_rest s \<noteq> []" "isIdentPart (hd (sc_rest s))"
  shows "length (sc_rest s') < length (sc_rest s)"
  using assms dropWhile_shorter[OF assms(2), of isIdentPart]
  by (auto simp: scan_identifier_def Let_def split: if_splits option.splits dest!: skip_string_shorter)

lemma step_consumes:
  assumes "step lower g s = (s', reason, False, False)"
  shows "length (sc_rest s') < length (sc_rest s)"
proof (cases "sc_rest s")
  case Nil
  then show ?thesis using assms by (simp add: step_def)
next
  case (Cons c cs)
  have "isIdentStart c \<Longrightarrow> isIdentPart (hd (sc_rest s))" using Cons by (simp add: isIdentPart_def)
  moreover have digit: "ascii CHR ''0'' \<le> c \<and> c \<le> ascii CHR ''9'' \<Longrightarrow> isIdentPart c" by (simp add: isIdentPart_def)
  have "length (dropWhile P cs) < Suc (length cs)" for P :: "rune \<Rightarrow> bool" by (simp add: length_dropWhile_le le_imp_less_Suc)
  ultimately show ?thesis
    using assms Cons digit scan_identifier_consumes[of lower g s s' reason]
    by (auto simp: step_def split: if_splits option.splits dest!: skip_string_shorter)
qed

function check_loop :: "(string \<Rightarrow> string) \<Rightarrow> guard \<Rightarrow> scanner \<Rightarrow> string \<times> bool" where
  "check_loop lower g s =
    (if sc_rest s = [] then ([], False)
     else case step lower g s of (s', reason, found, stop) \<Rightarrow>
       if found \<or> stop then (reason, found) else check_loop lower g s')"
  by pat_completeness auto
termination
  by (relation "measure (\<lambda>(lower, g, s). length (sc_rest s))") (auto dest: step_consumes[OF sym])

declare check_loop.simps [simp del]

definition new_scanner :: "rune list \<Rightarrow> scanner" where
  "new_scanner rs = \<lparr>sc_rest = rs, sc_prev = tokOther, sc_name = [], sc_dotted = False, sc_last = 0\<rparr>"

definition guard_check :: "(string \<Rightarrow> string) \<Rightarrow> guard \<Rightarrow> string \<Rightarrow> string \<times> bool" where
  "guard_check lower g expr = check_loop lower g (new_scanner (runes expr))"

text \<open>\<^verbatim>\<open>sideEffects\<close>: the check a manifest's guard describes, none without one.\<close>

definition sideEffects :: "(string \<Rightarrow> string) \<Rightarrow> eval_guard option \<Rightarrow> (string \<Rightarrow> string \<times> bool) option" where
  "sideEffects lower eg =
    map_option (\<lambda>e. guard_check lower \<lparr>g_quotes = runes (concat (eg_Quotes e)), g_prefixes = map lower (eg_InterpolatedPrefixes e),
      g_nonCall = eg_NonCallWords e, g_safe = eg_SafeCalls e, g_assign = eg_AssignOps e\<rparr>) eg"

section \<open>The rules over tokens\<close>

text \<open>
  The tokens of an expression, and the first one of the rest, with what follows it. A
  string that does not end, or one that runs code, ends the list.
\<close>

datatype token = Str rune | Interpolated | Unterminated | Name "rune list" | Number rune | Open | Closer rune
  | Operator "rune list" | Other rune

definition lex1 :: "(string \<Rightarrow> string) \<Rightarrow> guard \<Rightarrow> rune \<Rightarrow> rune list \<Rightarrow> token option \<times> rune list" where
  "lex1 lower g c cs =
    (if IsSpace c then (None, cs)
     else if c \<in> set (g_quotes g) then
       (case skip_string (c # cs) of None \<Rightarrow> (Some Unterminated, []) | Some rest \<Rightarrow> (Some (Str c), rest))
     else if isIdentStart c then
       (let word = takeWhile isIdentPart (c # cs); rest = dropWhile isIdentPart (c # cs) in
        if rest \<noteq> [] \<and> hd rest \<in> set (g_quotes g)
        then if lower (string_of_runes word) \<in> set (g_prefixes g) then (Some Interpolated, [])
             else (case skip_string rest of None \<Rightarrow> (Some Unterminated, []) | Some rest' \<Rightarrow> (Some (Str (hd rest)), rest'))
        else (Some (Name word), rest))
     else if ascii CHR ''0'' \<le> c \<and> c \<le> ascii CHR ''9''
       then (Some (Number c), dropWhile (\<lambda>r. isIdentPart r \<or> r = ascii CHR ''.'') (c # cs))
     else if c = ascii CHR ''('' then (Some Open, cs)
     else if c = ascii CHR '')'' \<or> c = ascii CHR '']'' then (Some (Closer c), cs)
     else if c \<in> set opChars
       then (Some (Operator (takeWhile (\<lambda>r. r \<in> set opChars) (c # cs))), dropWhile (\<lambda>r. r \<in> set opChars) (c # cs))
     else (Some (Other c), cs))"

text \<open>
  The rules: after \<open>before\<close>, a string must end and must not run code, an operator must not
  assign, and a parenthesis must not call: it must not follow a closing one, nor a name,
  unless the name takes parentheses without a call or is a safe function that does not
  follow a dot.
\<close>

fun last_rune :: "token list \<Rightarrow> rune" where
  "last_rune [] = 0"
| "last_rune (t # ts) =
    (if ts \<noteq> [] then last_rune ts
     else case t of Str q \<Rightarrow> q | Name w \<Rightarrow> last w | Number c \<Rightarrow> c | Open \<Rightarrow> ascii CHR ''('' | Closer c \<Rightarrow> c
       | Operator run \<Rightarrow> hd run | Other c \<Rightarrow> c | Interpolated \<Rightarrow> 0 | Unterminated \<Rightarrow> 0)"

definition calls :: "guard \<Rightarrow> token list \<Rightarrow> bool" where
  "calls g before =
    (before \<noteq> [] \<and>
     (case last before of
        Closer _ \<Rightarrow> True
      | Name w \<Rightarrow> string_of_runes w \<notin> set (g_nonCall g)
          \<and> (string_of_runes w \<notin> set (g_safe g) \<or> last_rune (butlast before) = ascii CHR ''.'')
      | _ \<Rightarrow> False))"

text \<open>An operator assigns if it is an assigning operator, or starts with one that an equals sign does not follow.\<close>

definition assigns :: "guard \<Rightarrow> string \<Rightarrow> bool" where
  "assigns g run \<longleftrightarrow> (\<exists>op \<in> set (g_assign g). \<exists>more. run = op @ more \<and> (more = [] \<or> hd more \<noteq> CHR ''=''))"

definition ok_token :: "guard \<Rightarrow> token list \<Rightarrow> token \<Rightarrow> bool" where
  "ok_token g before t =
    (case t of Unterminated \<Rightarrow> False | Interpolated \<Rightarrow> False
     | Operator run \<Rightarrow> \<not> assigns g (string_of_runes run)
     | Open \<Rightarrow> \<not> calls g before
     | _ \<Rightarrow> True)"

definition harmless :: "guard \<Rightarrow> token list \<Rightarrow> bool" where
  "harmless g ts \<longleftrightarrow> (\<forall>i < length ts. ok_token g (take i ts) (ts ! i))"

lemma assignment_iff: "assignment g run = None \<longleftrightarrow> \<not> assigns g run"
proof -
  have eq: "(run = op \<or> (length op < length run \<and> take (length op) run = op \<and> run ! length op \<noteq> CHR ''=''))
      \<longleftrightarrow> (\<exists>more. run = op @ more \<and> (more = [] \<or> hd more \<noteq> CHR ''=''))" for op
  proof
    assume "run = op \<or> (length op < length run \<and> take (length op) run = op \<and> run ! length op \<noteq> CHR ''='')"
    then show "\<exists>more. run = op @ more \<and> (more = [] \<or> hd more \<noteq> CHR ''='')"
    proof
      assume r: "length op < length run \<and> take (length op) run = op \<and> run ! length op \<noteq> CHR ''=''"
      then have "run = op @ drop (length op) run" by (metis append_take_drop_id)
      moreover have "hd (drop (length op) run) \<noteq> CHR ''=''" using r by (simp add: hd_drop_conv_nth)
      ultimately show ?thesis by blast
    qed simp
  next
    assume "\<exists>more. run = op @ more \<and> (more = [] \<or> hd more \<noteq> CHR ''='')"
    then obtain more where "run = op @ more" "more = [] \<or> hd more \<noteq> CHR ''=''" by blast
    then show "run = op \<or> (length op < length run \<and> take (length op) run = op \<and> run ! length op \<noteq> CHR ''='')"
      by (cases more) (auto simp: nth_append)
  qed
  show ?thesis unfolding assignment_def find_None_iff assigns_def eq by blast
qed

lemma harmless_snoc: "harmless g (ts @ [t]) \<longleftrightarrow> harmless g ts \<and> ok_token g ts t"
  by (auto simp: harmless_def nth_append less_Suc_eq)

lemma harmless_prefix: "harmless g (ts @ us) \<Longrightarrow> harmless g ts"
proof (induction us rule: rev_induct)
  case (snoc u us)
  then show ?case by (simp add: append_assoc[symmetric] harmless_snoc del: append_assoc)
qed simp

text \<open>What the scanner remembers of the tokens before its position.\<close>

definition kind_of :: "token \<Rightarrow> token_kind" where
  "kind_of t = (case t of Name _ \<Rightarrow> tokName | Closer _ \<Rightarrow> tokCloser | _ \<Rightarrow> tokOther)"

definition remembers :: "scanner \<Rightarrow> token list \<Rightarrow> bool" where
  "remembers s before \<longleftrightarrow> sc_last s = last_rune before
    \<and> sc_prev s = (if before = [] then tokOther else kind_of (last before))
    \<and> (\<forall>w. before \<noteq> [] \<longrightarrow> last before = Name w \<longrightarrow>
         sc_name s = string_of_runes w \<and> sc_dotted s = (last_rune (butlast before) = ascii CHR ''.''))"

lemma last_rune_snoc [simp]: "last_rune (ts @ [t]) = last_rune [t]"
  by (induction ts) auto

lemma call_iff: "remembers s before \<Longrightarrow> call g s = None \<longleftrightarrow> \<not> calls g before"
  by (cases before rule: rev_cases) (auto simp: remembers_def call_def calls_def kind_of_def split: token.splits)

lemma remembers_snoc:
  "remembers s (before @ [t]) \<longleftrightarrow> sc_last s = last_rune [t] \<and> sc_prev s = kind_of t
    \<and> (\<forall>w. t = Name w \<longrightarrow> sc_name s = string_of_runes w \<and> sc_dotted s = (last_rune before = ascii CHR ''.''))"
  by (simp add: remembers_def)

lemma remembers_rest: "remembers (s\<lparr>sc_rest := r\<rparr>) before = remembers s before"
  by (simp add: remembers_def)

text \<open>One step is one token, or one space.\<close>

lemma step_space:
  "sc_rest s = c # cs \<Longrightarrow> lex1 lower g c cs = (None, rest) \<Longrightarrow> step lower g s = (s\<lparr>sc_rest := rest\<rparr>, [], False, False)"
  by (auto simp: lex1_def step_def Let_def split: if_splits option.splits)

definition follows :: "guard \<Rightarrow> token list \<Rightarrow> token \<Rightarrow> rune list \<Rightarrow> scanner \<times> string \<times> bool \<times> bool \<Rightarrow> bool" where
  "follows g before t rest r = (case r of (s', reason, found, stop) \<Rightarrow>
    found = (\<not> ok_token g before t) \<and> (\<not> found \<longrightarrow> \<not> stop \<and> sc_rest s' = rest \<and> remembers s' (before @ [t])))"

lemmas token_simps = follows_def ok_token_def remembers_snoc kind_of_def

lemma identifier_token:
  assumes "sc_rest s = c # cs" "isIdentStart c" "\<not> IsSpace c" "c \<notin> set (g_quotes g)"
    "lex1 lower g c cs = (Some t, rest)" "remembers s before"
  shows "follows g before t rest (scan_identifier lower g s)"
proof -
  have last: "sc_last s = last_rune before" using assms(6) by (simp add: remembers_def)
  define word where "word = takeWhile isIdentPart (c # cs)"
  define r where "r = dropWhile isIdentPart (c # cs)"
  have l: "(if r \<noteq> [] \<and> hd r \<in> set (g_quotes g)
        then if lower (string_of_runes word) \<in> set (g_prefixes g) then (Some Interpolated, [])
             else (case skip_string r of None \<Rightarrow> (Some Unterminated, []) | Some rest' \<Rightarrow> (Some (Str (hd r)), rest'))
        else (Some (Name word), r)) = (Some t, rest)"
    using assms(2-5) unfolding lex1_def Let_def word_def[symmetric] r_def[symmetric] by simp
  show ?thesis
    unfolding scan_identifier_def assms(1) Let_def word_def[symmetric] r_def[symmetric]
    using l last by (cases "skip_string r") (auto simp: token_simps split: if_splits)
qed

lemma operator_token:
  assumes "c \<in> set opChars" "run = takeWhile (\<lambda>r. r \<in> set opChars) (c # cs)"
  shows "follows g before (Operator run) rest
    (case assignment g (string_of_runes run) of
       Some op \<Rightarrow> (s, ''assign ('' @ op @ '')'', True, False)
     | None \<Rightarrow> (s\<lparr>sc_rest := rest, sc_prev := tokOther, sc_last := c\<rparr>, [], False, False))"
  using assignment_iff[of g "string_of_runes run"] assms
  by (cases "assignment g (string_of_runes run)") (simp_all add: token_simps)

lemma open_token:
  assumes "remembers s before"
  shows "follows g before Open cs
    (case call g s of
       Some reason \<Rightarrow> (s, reason, True, False)
     | None \<Rightarrow> (s\<lparr>sc_rest := cs, sc_prev := tokOther, sc_last := 40\<rparr>, [], False, False))"
  using call_iff[OF assms, of g] by (cases "call g s") (simp_all add: token_simps)

lemma step_token:
  assumes "sc_rest s = c # cs" "lex1 lower g c cs = (Some t, rest)" "remembers s before"
  shows "follows g before t rest (step lower g s)"
proof -
  have nospace: "\<not> IsSpace c" using assms(2) by (auto simp: lex1_def)
  consider (quote) "c \<in> set (g_quotes g)" | (ident) "c \<notin> set (g_quotes g)" "isIdentStart c"
    | (digit) "c \<notin> set (g_quotes g)" "\<not> isIdentStart c" "ascii CHR ''0'' \<le> c \<and> c \<le> ascii CHR ''9''"
    | (opens) "c \<notin> set (g_quotes g)" "\<not> isIdentStart c" "c = ascii CHR ''(''"
    | (shuts) "c \<notin> set (g_quotes g)" "\<not> isIdentStart c" "c = ascii CHR '')'' \<or> c = ascii CHR '']''"
    | (op) "c \<notin> set (g_quotes g)" "\<not> isIdentStart c" "\<not> (ascii CHR ''0'' \<le> c \<and> c \<le> ascii CHR ''9'')"
        "c \<noteq> ascii CHR ''(''" "\<not> (c = ascii CHR '')'' \<or> c = ascii CHR '']'')" "c \<in> set opChars"
    | (other) "c \<notin> set (g_quotes g)" "\<not> isIdentStart c" "\<not> (ascii CHR ''0'' \<le> c \<and> c \<le> ascii CHR ''9'')"
        "c \<noteq> ascii CHR ''(''" "\<not> (c = ascii CHR '')'' \<or> c = ascii CHR '']'')" "c \<notin> set opChars"
    by blast
  then show ?thesis
  proof cases
    case quote
    then show ?thesis using assms nospace
      by (cases "skip_string (c # cs)") (auto simp: lex1_def step_def token_simps)
  next
    case ident
    have "step lower g s = scan_identifier lower g s" using ident nospace assms(1) by (simp add: step_def)
    then show ?thesis using identifier_token[OF assms(1) ident(2) nospace ident(1) assms(2,3)] by simp
  next
    case digit
    then show ?thesis using assms nospace by (auto simp: lex1_def step_def token_simps)
  next
    case opens
    have "lex1 lower g c cs = (Some Open, cs)" using opens nospace by (simp add: lex1_def)
    moreover have "step lower g s = (case call g s of
       Some reason \<Rightarrow> (s, reason, True, False)
     | None \<Rightarrow> (s\<lparr>sc_rest := cs, sc_prev := tokOther, sc_last := 40\<rparr>, [], False, False))"
      using opens nospace assms(1) by (simp add: step_def cong: option.case_cong)
    ultimately show ?thesis using assms(2) open_token[OF assms(3), of g cs] by simp
  next
    case shuts
    then show ?thesis using assms nospace by (auto simp: lex1_def step_def token_simps)
  next
    case op
    let ?run = "takeWhile (\<lambda>r. r \<in> set opChars) (c # cs)" and ?r = "dropWhile (\<lambda>r. r \<in> set opChars) (c # cs)"
    have "lex1 lower g c cs = (Some (Operator ?run), ?r)" unfolding lex1_def using op nospace by (simp only: if_False if_True)
    moreover have "step lower g s = (case assignment g (string_of_runes ?run) of
       Some op \<Rightarrow> (s, ''assign ('' @ op @ '')'', True, False)
     | None \<Rightarrow> (s\<lparr>sc_rest := ?r, sc_prev := tokOther, sc_last := c\<rparr>, [], False, False))"
      unfolding step_def assms(1) list.case using op nospace by (simp only: if_False if_True)
    ultimately show ?thesis using assms(2) operator_token[OF op(6), of ?run cs g before ?r s] by simp
  next
    case other
    then show ?thesis using assms nospace by (simp add: lex1_def step_def) (auto simp: token_simps)
  qed
qed

text \<open>The tokens of the rest of an expression.\<close>

lemma shorter_if:
  "(b \<Longrightarrow> length (snd x) < n) \<Longrightarrow> (\<not> b \<Longrightarrow> length (snd y) < n) \<Longrightarrow> length (snd (if b then x else y)) < n"
  by simp

lemma lex1_shorter: "length (snd (lex1 lower g c cs)) < Suc (length cs)"
proof -
  have shorter: "length (dropWhile P (c # cs)) < Suc (length cs)" if "P c" for P
    using that dropWhile_shorter[of "c # cs" P] by simp
  have str: "length (snd (case skip_string (c # cs) of None \<Rightarrow> (Some Unterminated, []) | Some r \<Rightarrow> (Some (Str c), r)))
      < Suc (length cs)"
    using skip_string_shorter[of "c # cs"] by (cases "skip_string (c # cs)") auto
  have word: "length (snd (if dropWhile isIdentPart (c # cs) \<noteq> [] \<and> hd (dropWhile isIdentPart (c # cs)) \<in> set (g_quotes g)
        then if b then (Some Interpolated, [])
             else (case skip_string (dropWhile isIdentPart (c # cs)) of None \<Rightarrow> (Some Unterminated, [])
               | Some rest' \<Rightarrow> (Some (Str q), rest'))
        else (Some (Name w), dropWhile isIdentPart (c # cs)))) < Suc (length cs)" if "isIdentPart c" for b q w
    using skip_string_shorter[of "dropWhile isIdentPart (c # cs)"] shorter[of isIdentPart] that
    by (cases "skip_string (dropWhile isIdentPart (c # cs))") (auto intro: less_trans)
  have part: "isIdentPart c" if "isIdentStart c" using that by (simp add: isIdentPart_def)
  have digit: "isIdentPart c \<or> c = ascii CHR ''.''" if "ascii CHR ''0'' \<le> c \<and> c \<le> ascii CHR ''9''"
    using that by (simp add: isIdentPart_def)
  show ?thesis
    unfolding lex1_def Let_def
    apply (rule shorter_if, simp, rule shorter_if, rule str, rule shorter_if, rule word, erule part)
    using digit shorter[of "\<lambda>r. isIdentPart r \<or> r = ascii CHR ''.''"] shorter[of "\<lambda>r. r \<in> set opChars"]
    apply (simp del: dropWhile.simps)
    done
qed

function lex :: "(string \<Rightarrow> string) \<Rightarrow> guard \<Rightarrow> rune list \<Rightarrow> token list" where
  "lex lower g [] = []"
| "lex lower g (c # cs) =
    (case fst (lex1 lower g c cs) of
       None \<Rightarrow> lex lower g (snd (lex1 lower g c cs))
     | Some t \<Rightarrow> t # lex lower g (snd (lex1 lower g c cs)))"
  by pat_completeness auto
termination by (relation "measure (\<lambda>(lower, g, rs). length rs)") (simp_all add: lex1_shorter)

text \<open>The loop decides the rest of the tokens.\<close>

lemma ended_not_ok: "t = Unterminated \<or> t = Interpolated \<Longrightarrow> \<not> ok_token g before t"
  by (auto simp: ok_token_def)

lemma check_loop_decides:
  "remembers s before \<Longrightarrow> harmless g before \<Longrightarrow>
    snd (check_loop lower g s) = (\<not> harmless g (before @ lex lower g (sc_rest s)))"
proof (induction "length (sc_rest s)" arbitrary: s before rule: less_induct)
  case less
  show ?case
  proof (cases "sc_rest s")
    case Nil
    then show ?thesis using less.prems by (simp add: check_loop.simps)
  next
    case (Cons c cs)
    obtain t rest where l: "lex1 lower g c cs = (t, rest)" by (cases "lex1 lower g c cs")
    show ?thesis
    proof (cases t)
      case None
      have st: "step lower g s = (s\<lparr>sc_rest := rest\<rparr>, [], False, False)" using step_space[OF Cons] l None by simp
      have "snd (check_loop lower g (s\<lparr>sc_rest := rest\<rparr>)) = (\<not> harmless g (before @ lex lower g rest))"
        using less.hyps[of "s\<lparr>sc_rest := rest\<rparr>" before] step_consumes[OF st] less.prems by (simp add: remembers_rest)
      then show ?thesis using Cons st l None by (simp add: check_loop.simps[of lower g s])
    next
      case (Some tok)
      obtain s' reason found stop where st: "step lower g s = (s', reason, found, stop)" by (cases "step lower g s")
      have f: "follows g before tok rest (s', reason, found, stop)"
        using step_token[OF Cons _ less.prems(1), of lower g tok rest] l Some st by simp
      have lex: "lex lower g (sc_rest s) = tok # lex lower g rest" using Cons l Some by simp
      show ?thesis
      proof (cases found)
        case True
        then have "\<not> harmless g (before @ [tok])" using f by (simp add: follows_def harmless_snoc)
        then have "\<not> harmless g (before @ tok # lex lower g rest)"
          using harmless_prefix[of g "before @ [tok]" "lex lower g rest"] by auto
        then show ?thesis using True Cons st lex by (simp add: check_loop.simps[of lower g s])
      next
        case False
        then have ok: "\<not> stop" "sc_rest s' = rest" "remembers s' (before @ [tok])" "harmless g (before @ [tok])"
          using f less.prems(2) by (simp_all add: follows_def harmless_snoc)
        have "snd (check_loop lower g s') = (\<not> harmless g ((before @ [tok]) @ lex lower g rest))"
          using less.hyps[OF _ ok(3,4)] step_consumes[of lower g s s' reason] st False ok(1,2) by simp
        then show ?thesis using False ok(1) Cons st lex by (simp add: check_loop.simps[of lower g s])
      qed
    qed
  qed
qed

section \<open>The tokens of an expression, as the rules say\<close>

text \<open>
  What follows a string whose inside \<open>rs\<close> starts with, opened by \<open>n\<close> quotes \<open>q\<close>: it ends at the first
  \<open>n\<close> quotes that no backslash is in front of. Three quotes open a string up to the next
  three, otherwise one does up to the next one.
\<close>

inductive inside :: "rune \<Rightarrow> nat \<Rightarrow> rune list \<Rightarrow> rune list \<Rightarrow> bool" for q n where
  inside_end: "q \<noteq> 92 \<Longrightarrow> inside q n (replicate n q @ rest) rest"
| inside_escape: "inside q n rs rest \<Longrightarrow> inside q n (92 # c # rs) rest"
| inside_more: "c \<noteq> 92 \<Longrightarrow> \<nexists>r. c # rs = replicate n q @ r \<Longrightarrow> inside q n rs rest \<Longrightarrow> inside q n (c # rs) rest"

inductive string_at :: "rune list \<Rightarrow> rune list \<Rightarrow> bool" where
  string_tripled: "inside q 3 rs rest \<Longrightarrow> string_at (q # q # q # rs) rest"
| string_single: "inside q 1 rs rest \<Longrightarrow> \<nexists>r. rs = q # q # r \<Longrightarrow> string_at (q # rs) rest"

definition letter_like :: "rune \<Rightarrow> bool" where
  "letter_like r \<longleftrightarrow> r = 95 \<or> r \<in> {65..90} \<or> r \<in> {97..122} \<or> 128 \<le> r"

definition digit_like :: "rune \<Rightarrow> bool" where
  "digit_like r \<longleftrightarrow> r \<in> {48..57}"

text \<open>The characters of operators: \<^verbatim>\<open>=<>!:+-*/%&|^~@\<close>.\<close>

definition operator_like :: "rune \<Rightarrow> bool" where
  "operator_like r \<longleftrightarrow> r \<in> {61, 60, 62, 33, 58, 43, 45, 42, 47, 37, 38, 124, 94, 126, 64}"

text \<open>\<open>w\<close> is the longest part in front of \<open>rest\<close> whose runes are all \<open>P\<close>.\<close>

definition longest :: "(rune \<Rightarrow> bool) \<Rightarrow> rune list \<Rightarrow> rune list \<Rightarrow> bool" where
  "longest P w rest \<longleftrightarrow> list_all P w \<and> (rest = [] \<or> \<not> P (hd rest))"

text \<open>
  The tokens of a text. A name is a letter with letters and digits; a number is a digit
  with all letters, digits and dots that follow it; an operator is a run of operator
  characters; a name in front of a quote is the prefix of the string.
\<close>

inductive tokens_of :: "(string \<Rightarrow> string) \<Rightarrow> guard \<Rightarrow> rune list \<Rightarrow> token list \<Rightarrow> bool" for lower g where
  tokens_end: "tokens_of lower g [] []"
| tokens_space: "IsSpace c \<Longrightarrow> tokens_of lower g rs ts \<Longrightarrow> tokens_of lower g (c # rs) ts"
| tokens_string: "\<not> IsSpace q \<Longrightarrow> q \<in> set (g_quotes g) \<Longrightarrow> string_at (q # rs) rest
    \<Longrightarrow> tokens_of lower g rest ts \<Longrightarrow> tokens_of lower g (q # rs) (Str q # ts)"
| tokens_unterminated: "\<not> IsSpace q \<Longrightarrow> q \<in> set (g_quotes g) \<Longrightarrow> \<nexists>rest. string_at (q # rs) rest
    \<Longrightarrow> tokens_of lower g (q # rs) [Unterminated]"
| tokens_name: "\<not> IsSpace c \<Longrightarrow> c \<notin> set (g_quotes g) \<Longrightarrow> letter_like c
    \<Longrightarrow> longest (\<lambda>r. letter_like r \<or> digit_like r) (c # w) rest \<Longrightarrow> rest = [] \<or> hd rest \<notin> set (g_quotes g)
    \<Longrightarrow> tokens_of lower g rest ts \<Longrightarrow> tokens_of lower g (c # w @ rest) (Name (c # w) # ts)"
| tokens_interpolated: "\<not> IsSpace c \<Longrightarrow> c \<notin> set (g_quotes g) \<Longrightarrow> letter_like c
    \<Longrightarrow> longest (\<lambda>r. letter_like r \<or> digit_like r) (c # w) (q # rest) \<Longrightarrow> q \<in> set (g_quotes g)
    \<Longrightarrow> lower (string_of_runes (c # w)) \<in> set (g_prefixes g)
    \<Longrightarrow> tokens_of lower g (c # w @ q # rest) [Interpolated]"
| tokens_prefixed: "\<not> IsSpace c \<Longrightarrow> c \<notin> set (g_quotes g) \<Longrightarrow> letter_like c
    \<Longrightarrow> longest (\<lambda>r. letter_like r \<or> digit_like r) (c # w) (q # rs) \<Longrightarrow> q \<in> set (g_quotes g)
    \<Longrightarrow> lower (string_of_runes (c # w)) \<notin> set (g_prefixes g) \<Longrightarrow> string_at (q # rs) rest
    \<Longrightarrow> tokens_of lower g rest ts \<Longrightarrow> tokens_of lower g (c # w @ q # rs) (Str q # ts)"
| tokens_prefixed_unterminated: "\<not> IsSpace c \<Longrightarrow> c \<notin> set (g_quotes g) \<Longrightarrow> letter_like c
    \<Longrightarrow> longest (\<lambda>r. letter_like r \<or> digit_like r) (c # w) (q # rs) \<Longrightarrow> q \<in> set (g_quotes g)
    \<Longrightarrow> lower (string_of_runes (c # w)) \<notin> set (g_prefixes g) \<Longrightarrow> \<nexists>rest. string_at (q # rs) rest
    \<Longrightarrow> tokens_of lower g (c # w @ q # rs) [Unterminated]"
| tokens_number: "\<not> IsSpace c \<Longrightarrow> c \<notin> set (g_quotes g) \<Longrightarrow> digit_like c
    \<Longrightarrow> longest (\<lambda>r. letter_like r \<or> digit_like r \<or> r = 46) (c # w) rest
    \<Longrightarrow> tokens_of lower g rest ts \<Longrightarrow> tokens_of lower g (c # w @ rest) (Number c # ts)"
| tokens_open: "40 \<notin> set (g_quotes g) \<Longrightarrow> tokens_of lower g rs ts \<Longrightarrow> tokens_of lower g (40 # rs) (Open # ts)"
| tokens_closer: "c \<in> {41, 93} \<Longrightarrow> c \<notin> set (g_quotes g) \<Longrightarrow> tokens_of lower g rs ts \<Longrightarrow> tokens_of lower g (c # rs) (Closer c # ts)"
| tokens_operator: "c \<notin> set (g_quotes g) \<Longrightarrow> operator_like c \<Longrightarrow> longest operator_like (c # w) rest
    \<Longrightarrow> tokens_of lower g rest ts \<Longrightarrow> tokens_of lower g (c # w @ rest) (Operator (c # w) # ts)"
| tokens_other: "\<not> IsSpace c \<Longrightarrow> c \<notin> set (g_quotes g) \<Longrightarrow> \<not> letter_like c \<Longrightarrow> \<not> digit_like c \<Longrightarrow> \<not> operator_like c
    \<Longrightarrow> c \<notin> {40, 41, 93} \<Longrightarrow> tokens_of lower g rs ts \<Longrightarrow> tokens_of lower g (c # rs) (Other c # ts)"

lemma closes_iff: "closes q n rs \<longleftrightarrow> (\<exists>r. rs = replicate n q @ r)"
proof
  assume "closes q n rs"
  then have "rs = replicate n q @ drop n rs" unfolding closes_def by (metis append_take_drop_id)
  then show "\<exists>r. rs = replicate n q @ r" by blast
qed (auto simp: closes_def)

lemma inside_iff: "0 < n \<Longrightarrow> inside q n rs rest \<longleftrightarrow> skip_loop q n rs = Some rest"
proof
  assume "inside q n rs rest" "0 < n"
  then show "skip_loop q n rs = Some rest"
  proof (induction rule: inside.induct)
    case (inside_end rest)
    then obtain m where "n = Suc m" by (cases n) auto
    moreover have "closes q n (replicate n q @ rest)" by (simp add: closes_iff)
    ultimately show ?case using inside_end by simp
  next
    case (inside_more c rs rest)
    then have "\<not> closes q n (c # rs)" by (simp add: closes_iff)
    then show ?case using inside_more by simp
  qed simp
next
  assume "0 < n" "skip_loop q n rs = Some rest"
  then show "inside q n rs rest"
  proof (induction q n rs rule: skip_loop.induct)
    case (2 q n c cs)
    consider (escape) "c = 92" | (close) "c \<noteq> 92" "closes q n (c # cs)" | (more) "c \<noteq> 92" "\<not> closes q n (c # cs)" by blast
    then show ?case
    proof cases
      case escape
      then show ?thesis using 2 by (cases cs) (auto intro: inside_escape)
    next
      case close
      then obtain r where r: "c # cs = replicate n q @ r" by (auto simp: closes_iff)
      moreover have "q = c" using r 2(3) by (cases n) auto
      moreover have "rest = r" using 2(4) close r by (cases n) auto
      ultimately show ?thesis using inside_end[of q n r] close(1) by simp
    next
      case more
      then show ?thesis using 2 by (auto simp: closes_iff intro: inside_more)
    qed
  qed simp
qed

lemma string_at_iff: "string_at (q # rs) rest \<longleftrightarrow> skip_string (q # rs) = Some rest"
proof (cases "\<exists>r. rs = q # q # r")
  case True
  then obtain r where "rs = q # q # r" by blast
  then show ?thesis
    by (auto simp: string_at.simps skip_string_def quote_count_def inside_iff)
next
  case False
  then have "quote_count (q # rs) = 1" by (cases rs; cases "tl rs") (auto simp: quote_count_def)
  then show ?thesis using False by (auto simp: string_at.simps skip_string_def inside_iff)
qed

lemma like_code:
  "isIdentStart = letter_like" "isIdentPart = (\<lambda>r. letter_like r \<or> digit_like r)" "(\<lambda>r. r \<in> set opChars) = operator_like"
  "(ascii CHR ''0'' \<le> c \<and> c \<le> ascii CHR ''9'') = digit_like c"
  by (auto simp: fun_eq_iff isIdentStart_def isIdentPart_def opChars_def letter_like_def digit_like_def operator_like_def)

lemma longest_while: "longest P w rest \<longleftrightarrow> takeWhile P (w @ rest) = w \<and> dropWhile P (w @ rest) = rest"
proof
  assume "longest P w rest"
  then show "takeWhile P (w @ rest) = w \<and> dropWhile P (w @ rest) = rest"
    unfolding longest_def by (cases rest) (auto simp: takeWhile_append2 dropWhile_append2 list_all_iff)
next
  assume w: "takeWhile P (w @ rest) = w \<and> dropWhile P (w @ rest) = rest"
  then have "list_all P w" unfolding list_all_iff by (metis set_takeWhileD)
  moreover have "rest = [] \<or> \<not> P (hd rest)" using w hd_dropWhile[of P "w @ rest"] by auto
  ultimately show "longest P w rest" by (simp add: longest_def)
qed

lemma like_apart:
  "letter_like c \<Longrightarrow> \<not> digit_like c" "operator_like c \<Longrightarrow> \<not> letter_like c \<and> \<not> digit_like c \<and> \<not> IsSpace c \<and> c \<notin> {40, 41, 93}"
  "c \<in> {40, 41, 93} \<Longrightarrow> \<not> letter_like c \<and> \<not> digit_like c \<and> \<not> IsSpace c \<and> \<not> operator_like c"
  by (auto simp: letter_like_def digit_like_def operator_like_def IsSpace_def)

text \<open>The first token where the rest starts with a name, and the other cases of the function.\<close>

abbreviation part_like :: "rune \<Rightarrow> bool" where "part_like r \<equiv> letter_like r \<or> digit_like r"

lemma lex1_name:
  assumes "\<not> IsSpace c" "c \<notin> set (g_quotes g)" "letter_like c" "longest part_like (c # w) rest"
  shows "lex1 lower g c (w @ rest) =
    (if rest \<noteq> [] \<and> hd rest \<in> set (g_quotes g)
     then if lower (string_of_runes (c # w)) \<in> set (g_prefixes g) then (Some Interpolated, [])
          else (case skip_string rest of None \<Rightarrow> (Some Unterminated, []) | Some rest' \<Rightarrow> (Some (Str (hd rest)), rest'))
     else (Some (Name (c # w)), rest))"
proof -
  have "takeWhile part_like (c # w @ rest) = c # w" "dropWhile part_like (c # w @ rest) = rest"
    using assms(4) unfolding longest_while by simp_all
  then show ?thesis using assms(1-3) unfolding lex1_def like_code Let_def by (simp only: if_False if_True)
qed

lemma lex1_number:
  assumes "\<not> IsSpace c" "c \<notin> set (g_quotes g)" "digit_like c" "longest (\<lambda>r. letter_like r \<or> digit_like r \<or> r = 46) (c # w) rest"
  shows "lex1 lower g c (w @ rest) = (Some (Number c), rest)"
proof -
  have "dropWhile (\<lambda>r. letter_like r \<or> digit_like r \<or> r = 46) (c # w @ rest) = rest"
    using assms(4) unfolding longest_while by simp
  then have "dropWhile (\<lambda>r. part_like r \<or> r = ascii CHR ''.'') (c # w @ rest) = rest" by (simp only: disj_assoc) simp
  moreover have "\<not> letter_like c" using assms(3) like_apart(1) by blast
  ultimately show ?thesis using assms(1-3) unfolding lex1_def like_code Let_def by (simp only: if_False if_True)
qed

lemma lex1_operator:
  assumes "c \<notin> set (g_quotes g)" "operator_like c" "longest operator_like (c # w) rest"
  shows "lex1 lower g c (w @ rest) = (Some (Operator (c # w)), rest)"
proof -
  have "takeWhile operator_like (c # w @ rest) = c # w" "dropWhile operator_like (c # w @ rest) = rest"
    using assms(3) unfolding longest_while by simp_all
  moreover have "c \<in> set opChars" using assms(2) like_code(3) by metis
  moreover have "\<not> IsSpace c" "\<not> letter_like c" "\<not> digit_like c" "c \<noteq> ascii CHR ''(''" "\<not> (c = ascii CHR '')'' \<or> c = ascii CHR '']'')"
    using like_apart(2)[OF assms(2)] by auto
  ultimately show ?thesis using assms(1) unfolding lex1_def like_code Let_def by (simp only: if_False if_True)
qed

lemma lex1_single:
  "\<not> IsSpace c \<Longrightarrow> c \<in> set (g_quotes g) \<Longrightarrow>
    lex1 lower g c cs = (case skip_string (c # cs) of None \<Rightarrow> (Some Unterminated, []) | Some rest \<Rightarrow> (Some (Str c), rest))"
  "IsSpace c \<Longrightarrow> lex1 lower g c cs = (None, cs)"
  "40 \<notin> set (g_quotes g) \<Longrightarrow> lex1 lower g 40 cs = (Some Open, cs)"
  "c \<in> {41, 93} \<Longrightarrow> c \<notin> set (g_quotes g) \<Longrightarrow> lex1 lower g c cs = (Some (Closer c), cs)"
  "\<not> IsSpace c \<Longrightarrow> c \<notin> set (g_quotes g) \<Longrightarrow> \<not> letter_like c \<Longrightarrow> \<not> digit_like c \<Longrightarrow> \<not> operator_like c
    \<Longrightarrow> c \<notin> {40, 41, 93} \<Longrightarrow> lex1 lower g c cs = (Some (Other c), cs)"
proof -
  have op: "c \<in> set opChars \<longleftrightarrow> operator_like c" for c using like_code(3) by metis
  show "40 \<notin> set (g_quotes g) \<Longrightarrow> lex1 lower g 40 cs = (Some Open, cs)"
    using like_apart(3)[of 40] unfolding lex1_def like_code by simp
  show "c \<in> {41, 93} \<Longrightarrow> c \<notin> set (g_quotes g) \<Longrightarrow> lex1 lower g c cs = (Some (Closer c), cs)"
    using like_apart(3)[of c] unfolding lex1_def like_code by auto
  show "\<not> IsSpace c \<Longrightarrow> c \<notin> set (g_quotes g) \<Longrightarrow> \<not> letter_like c \<Longrightarrow> \<not> digit_like c \<Longrightarrow> \<not> operator_like c
    \<Longrightarrow> c \<notin> {40, 41, 93} \<Longrightarrow> lex1 lower g c cs = (Some (Other c), cs)"
    unfolding lex1_def like_code op by simp
qed (simp_all add: lex1_def)

lemma lex_cons: "lex1 lower g c cs = (t, rest) \<Longrightarrow> lex lower g (c # cs) = (case t of None \<Rightarrow> [] | Some tok \<Rightarrow> [tok]) @ lex lower g rest"
  by (simp split: option.split)

lemma no_string_at: "\<nexists>rest. string_at (q # rs) rest \<Longrightarrow> skip_string (q # rs) = None"
  by (cases "skip_string (q # rs)") (auto simp: string_at_iff)

lemma tokens_lex: "tokens_of lower g rs ts \<Longrightarrow> lex lower g rs = ts"
proof (induction rule: tokens_of.induct)
  case tokens_end
  then show ?case by simp
next
  case (tokens_space c rs ts)
  then show ?case using lex_cons[OF lex1_single(2)] by simp
next
  case (tokens_string q rs rest ts)
  then have "lex1 lower g q rs = (Some (Str q), rest)" by (simp add: lex1_single(1) string_at_iff)
  from lex_cons[OF this] show ?case using tokens_string.IH by simp
next
  case (tokens_unterminated q rs)
  then have "lex1 lower g q rs = (Some Unterminated, [])" by (simp add: lex1_single(1) no_string_at)
  from lex_cons[OF this] show ?case by simp
next
  case (tokens_name c w rest ts)
  then have "lex1 lower g c (w @ rest) = (Some (Name (c # w)), rest)" by (auto simp: lex1_name)
  from lex_cons[OF this] show ?case using tokens_name.IH by simp
next
  case (tokens_interpolated c w q rest)
  then have "lex1 lower g c (w @ q # rest) = (Some Interpolated, [])" by (simp add: lex1_name)
  from lex_cons[OF this] show ?case by simp
next
  case (tokens_prefixed c w q rs rest ts)
  then have "lex1 lower g c (w @ q # rs) = (Some (Str q), rest)" by (simp add: lex1_name string_at_iff)
  from lex_cons[OF this] show ?case using tokens_prefixed.IH by simp
next
  case (tokens_prefixed_unterminated c w q rs)
  then have "lex1 lower g c (w @ q # rs) = (Some Unterminated, [])" by (simp add: lex1_name no_string_at)
  from lex_cons[OF this] show ?case by simp
next
  case (tokens_number c w rest ts)
  from lex_cons[OF lex1_number[OF tokens_number.hyps(1-4)]] show ?case using tokens_number.IH by simp
next
  case (tokens_open rs ts)
  from lex_cons[OF lex1_single(3)[OF tokens_open.hyps(1)]] show ?case using tokens_open.IH by simp
next
  case (tokens_closer c rs ts)
  from lex_cons[OF lex1_single(4)[OF tokens_closer.hyps(1,2)]] show ?case using tokens_closer.IH by simp
next
  case (tokens_operator c w rest ts)
  from lex_cons[OF lex1_operator[OF tokens_operator.hyps(1-3)]] show ?case using tokens_operator.IH by simp
next
  case (tokens_other c rs ts)
  from lex_cons[OF lex1_single(5)[OF tokens_other.hyps(1-6)]] show ?case using tokens_other.IH by simp
qed

lemma longest_exists: "P c \<Longrightarrow> \<exists>w rest. cs = w @ rest \<and> longest P (c # w) rest"
proof (intro exI conjI)
  assume "P c"
  then show "longest P (c # takeWhile P cs) (dropWhile P cs)" by (simp add: longest_while)
qed simp

lemma tokens_exist: "\<exists>ts. tokens_of lower g rs ts"
proof (induction "length rs" arbitrary: rs rule: less_induct)
  case less
  show ?case
  proof (cases rs)
    case Nil
    then show ?thesis using tokens_end by blast
  next
    case (Cons c cs)
    have rec: "\<exists>ts. tokens_of lower g r ts" if "length r \<le> length cs" for r
      using less[of r] that Cons by simp
    have str: "\<exists>ts. tokens_of lower g r ts" if "string_at (q # r') r" "length r' \<le> length cs" for q r r'
      using rec[of r] skip_string_shorter[of "q # r'" r] that by (simp add: string_at_iff)
    consider "IsSpace c" | (quote) "\<not> IsSpace c" "c \<in> set (g_quotes g)"
      | (name) "\<not> IsSpace c" "c \<notin> set (g_quotes g)" "letter_like c"
      | (digit) "\<not> IsSpace c" "c \<notin> set (g_quotes g)" "digit_like c"
      | (op) "c \<notin> set (g_quotes g)" "operator_like c"
      | (paren) "c \<notin> set (g_quotes g)" "c \<in> {40, 41, 93}"
      | (other) "\<not> IsSpace c" "c \<notin> set (g_quotes g)" "\<not> letter_like c" "\<not> digit_like c" "\<not> operator_like c" "c \<notin> {40, 41, 93}"
      by blast
    then show ?thesis
    proof cases
      case 1
      then show ?thesis using rec[of cs] Cons tokens_space by blast
    next
      case quote
      then show ?thesis using str[of c cs] Cons tokens_string[OF quote] tokens_unterminated[OF quote] by blast
    next
      case name
      obtain w rest where w: "cs = w @ rest" "longest part_like (c # w) rest" using longest_exists[of part_like c cs] name(3) by blast
      show ?thesis
      proof (cases "rest = [] \<or> hd rest \<notin> set (g_quotes g)")
        case True
        then show ?thesis using rec[of rest] tokens_name[OF name w(2) True] Cons w(1) by auto
      next
        case False
        then obtain q r where q: "rest = q # r" "q \<in> set (g_quotes g)" by (cases rest) auto
        have short: "length r \<le> length cs" and w': "longest part_like (c # w) (q # r)" using w q(1) by simp_all
        show ?thesis
        proof (cases "lower (string_of_runes (c # w)) \<in> set (g_prefixes g)")
          case True
          then show ?thesis using tokens_interpolated[where lower = lower, OF name w' q(2) True] w Cons q(1) by auto
        next
          case no: False
          show ?thesis using str[OF _ short, of q] tokens_prefixed[where lower = lower, OF name w' q(2) no] tokens_prefixed_unterminated[where lower = lower, OF name w' q(2) no]
              w Cons q(1) by blast
        qed
      qed
    next
      case digit
      obtain w rest where w: "cs = w @ rest" "longest (\<lambda>r. letter_like r \<or> digit_like r \<or> r = 46) (c # w) rest"
        using longest_exists[of "\<lambda>r. letter_like r \<or> digit_like r \<or> r = 46" c cs] digit(3) by blast
      then show ?thesis using rec[of rest] tokens_number[OF digit w(2)] Cons by auto
    next
      case op
      obtain w rest where w: "cs = w @ rest" "longest operator_like (c # w) rest" using longest_exists[of operator_like c cs] op(2) by blast
      then show ?thesis using rec[of rest] tokens_operator[OF op w(2)] Cons by auto
    next
      case paren
      then show ?thesis using rec[of cs] Cons tokens_open[of g] tokens_closer[of c g] by blast
    next
      case other
      then show ?thesis using rec[of cs] Cons tokens_other[OF other] by blast
    qed
  qed
qed

text \<open>
  C35: every expression has exactly one list of tokens, and the scan reports something
  exactly when one of them breaks a rule: a string that does not end, or one with a prefix
  that runs code; an operator that is, or starts with, an assigning one that no equals
  sign follows; or a parenthesis after a closing one or a name that is a call, where a
  safe name after a dot is a call too. The tokens are the scan's own in one point the
  manifests' documentation does not mention: a number takes all letters, digits and dots
  that follow it, so what is called on a number literal is part of the number.
\<close>

theorem guard_accepts_iff:
  "(\<exists>!ts. tokens_of lower g (runes expr) ts)
    \<and> (snd (guard_check lower g expr) \<longleftrightarrow> (\<exists>ts. tokens_of lower g (runes expr) ts \<and> \<not> harmless g ts))"
proof -
  have "remembers (new_scanner (runes expr)) []" by (simp add: remembers_def new_scanner_def)
  moreover have "harmless g []" by (simp add: harmless_def)
  ultimately have "snd (guard_check lower g expr) = (\<not> harmless g (lex lower g (runes expr)))"
    unfolding guard_check_def using check_loop_decides[of "new_scanner (runes expr)" "[]" g lower]
    by (simp add: new_scanner_def)
  moreover obtain ts where "tokens_of lower g (runes expr) ts" using tokens_exist by blast
  ultimately show ?thesis using tokens_lex by blast
qed

text \<open>
  A number literal takes the dots after it, so a method called on one is not seen as a call;
  the same call on a name is.
\<close>

definition sample_guard :: guard where
  "sample_guard = \<lparr>g_quotes = [34], g_prefixes = [''f''], g_nonCall = [''and''], g_safe = [''len''], g_assign = [''='']\<rparr>"

lemmas scan_simps = check_loop.simps step_def new_scanner_def scan_identifier_def Let_def isIdentPart_def isIdentStart_def
  IsSpace_def call_def string_of_runes_def encode_rune_def opChars_def sample_guard_def

lemma call_on_number_accepted: "guard_check id sample_guard ''1.0.hex()'' = ([], False)"
proof -
  have "runes ''1.0.hex()'' = [49, 46, 48, 46, 104, 101, 120, 40, 41]" by code_simp
  then show ?thesis by (simp add: guard_check_def scan_simps)
qed

lemma call_on_name_found: "guard_check id sample_guard ''x.hex()'' = (''call a function (hex)'', True)"
proof -
  have "runes ''x.hex()'' = [120, 46, 104, 101, 120, 40, 41]" by code_simp
  moreover have "char_of (104::nat) = CHR ''h''" "char_of (101::nat) = CHR ''e''" "char_of (120::nat) = CHR ''x''"
    by (simp_all only: char_of_eq_iff) simp_all
  ultimately show ?thesis by (simp add: guard_check_def scan_simps)
qed

end
