(* ===== verification/Csharp_Guard.thy ===== *)
theory Csharp_Guard
  imports Go_Base
begin

text \<open>
  The side-effect check of the .NET driver (\<^verbatim>\<open>drivers/dotnet/sideeffects.go\<close>): a scan of a C#
  expression's text for calls, \<^verbatim>\<open>new\<close>, assignments, increments and interpolated strings,
  with the state it keeps of generics, parentheses and casts. Positions are as in the
  source; stacks have their innermost entry first. The scan is compared with a splitting
  of the text into lexemes that knows nothing of that state.
\<close>

section \<open>The scanner\<close>

record paren =
  pa_name :: bool
  pa_empty :: bool

record cs_scanner =
  cs_pos :: nat
  cs_prev :: string
  cs_prevEnd :: nat
  cs_generics :: "string list"
  cs_closed :: string
  cs_parens :: "paren list"
  cs_castClose :: bool

definition new_scan :: cs_scanner where
  "new_scan = \<lparr>cs_pos = 0, cs_prev = [], cs_prevEnd = 0, cs_generics = [], cs_closed = [], cs_parens = [], cs_castClose = False\<rparr>"

definition reasonNew :: string where "reasonNew = ''create an object''"
definition reasonAssign :: string where "reasonAssign = ''assign''"
definition reasonIncrement :: string where "reasonIncrement = ''increment or decrement''"
definition reasonInterpolated :: string where "reasonInterpolated = ''use an interpolated string (it can call methods)''"

definition content :: "bool \<Rightarrow> cs_scanner \<Rightarrow> cs_scanner" where
  "content partOfName s =
    (case cs_parens s of [] \<Rightarrow> s
     | p # ps \<Rightarrow> s\<lparr>cs_parens := \<lparr>pa_name = pa_name p \<and> partOfName, pa_empty = False\<rparr> # ps\<rparr>)"

definition token :: "string \<Rightarrow> nat \<Rightarrow> cs_scanner \<Rightarrow> cs_scanner" where
  "token tok e s = s\<lparr>cs_prev := tok, cs_prevEnd := e, cs_pos := e, cs_closed := [], cs_castClose := False\<rparr>"

definition after_char :: "string \<Rightarrow> char" where
  "after_char rest = (case rest of c # d # cs \<Rightarrow> d | _ \<Rightarrow> CHR 0x00)"

definition cs_identStart :: "char \<Rightarrow> bool" where
  "cs_identStart c = (c = CHR ''_'' \<or> is_lower c \<or> is_upper c \<or> 128 \<le> byte c)"

definition cs_identPart :: "char \<Rightarrow> bool" where
  "cs_identPart c = (cs_identStart c \<or> is_digit c)"

definition isIdent :: "string \<Rightarrow> bool" where
  "isIdent tok = (tok \<noteq> [] \<and> (cs_identStart (hd tok) \<or> hd tok = CHR ''$'' \<or> hd tok = CHR ''@''))"

definition notCall :: "string \<Rightarrow> bool" where
  "notCall word = (word \<in> {''typeof'', ''sizeof'', ''default'', ''nameof'', ''checked'', ''unchecked'', ''is'', ''and'', ''or'', ''not''})"

text \<open>The length of what a comment, a string, a character literal takes of the text from its start.\<close>

fun comment_end :: "string \<Rightarrow> nat option" where
  "comment_end (CHR ''*'' # CHR ''/'' # cs) = Some 2"
| "comment_end (c # cs) = map_option Suc (comment_end cs)"
| "comment_end [] = None"

definition comment_length :: "string \<Rightarrow> nat" where
  "comment_length rest =
    (if after_char rest = CHR ''/'' then length rest
     else case comment_end (drop 2 rest) of Some n \<Rightarrow> 2 + n | None \<Rightarrow> length rest)"

abbreviation DQUOTE :: char where "DQUOTE \<equiv> CHR 0x22"
abbreviation SQUOTE :: char where "SQUOTE \<equiv> CHR 0x27"
abbreviation BACKSLASH :: char where "BACKSLASH \<equiv> CHR 0x5C"

function string_end :: "bool \<Rightarrow> string \<Rightarrow> nat option" where
  "string_end verbatim [] = None"
| "string_end verbatim (c # cs) =
    (if verbatim \<and> c = DQUOTE \<and> cs \<noteq> [] \<and> hd cs = DQUOTE then map_option (\<lambda>n. n + 2) (string_end verbatim (drop 1 cs))
     else if \<not> verbatim \<and> c = BACKSLASH then map_option (\<lambda>n. n + 2) (string_end verbatim (drop 1 cs))
     else if c = DQUOTE then Some 1
     else map_option Suc (string_end verbatim cs))"
  by pat_completeness auto
termination by (relation "measure (\<lambda>(v, s). length s)") auto

definition string_length :: "nat \<Rightarrow> bool \<Rightarrow> string \<Rightarrow> nat" where
  "string_length start verbatim rest =
    (case string_end verbatim (drop start rest) of Some n \<Rightarrow> start + n | None \<Rightarrow> length rest)"

function char_end :: "string \<Rightarrow> nat" where
  "char_end [] = 0"
| "char_end (c # cs) = (if c = SQUOTE then 0 else if c = BACKSLASH then char_end (drop 1 cs) + 2 else char_end cs + 1)"
  by pat_completeness auto
termination by (relation "measure length") auto

definition char_length :: "string \<Rightarrow> nat" where
  "char_length rest = min (1 + char_end (drop 1 rest) + 1) (length rest)"

text \<open>A scanning step returns the scanner and the reason, if it found one.\<close>

type_synonym scanned = "cs_scanner \<times> string option"

definition ident_length :: "string \<Rightarrow> nat" where
  "ident_length rest = 1 + length (takeWhile cs_identPart (drop 1 rest))"

definition ident :: "string \<Rightarrow> cs_scanner \<Rightarrow> scanned" where
  "ident src s =
    (let rest = drop (cs_pos s) src; word = take (ident_length rest) rest in
     if word = ''new'' then (s, Some reasonNew)
     else (token word (cs_pos s + ident_length rest) (content True s), None))"

definition number_length :: "string \<Rightarrow> nat" where
  "number_length rest = length (takeWhile (\<lambda>c. cs_identPart c \<or> c = CHR ''.'') rest)"

definition number :: "string \<Rightarrow> cs_scanner \<Rightarrow> cs_scanner" where
  "number src s = token ''0'' (cs_pos s + number_length (drop (cs_pos s) src)) (content False s)"

definition trim_marks :: "string \<Rightarrow> string" where
  "trim_marks w = dropWhile (\<lambda>c. c = CHR ''@'' \<or> c = CHR ''$'') w"

definition callee :: "cs_scanner \<Rightarrow> string option" where
  "callee s =
    (if isIdent (cs_prev s) \<and> \<not> notCall (cs_prev s) then Some ('' ('' @ trim_marks (cs_prev s) @ '')'')
     else if cs_prevEnd s \<noteq> cs_pos s then None
     else if (cs_prev s = '')'' \<and> \<not> cs_castClose s) \<or> cs_prev s = '']'' then Some []
     else if cs_prev s = ''>'' \<and> cs_closed s \<noteq> [] then Some ('' ('' @ trim_marks (cs_closed s) @ '')'')
     else None)"

text \<open>\<^verbatim>\<open>paren\<close>; a closing one finds an open one.\<close>

definition paren_step :: "string \<Rightarrow> cs_scanner \<Rightarrow> scanned" where
  "paren_step src s =
    (if src ! cs_pos s = CHR '')''
     then (let p = hd (cs_parens s)
           in ((token '')'' (cs_pos s + 1) (s\<lparr>cs_parens := tl (cs_parens s)\<rparr>))\<lparr>cs_castClose := pa_name p \<and> \<not> pa_empty p\<rparr>, None))
     else case callee s of
       Some name \<Rightarrow> (s, Some (''call a method'' @ name))
     | None \<Rightarrow> (let s1 = content False s
               in (token ''('' (cs_pos s + 1) (s1\<lparr>cs_parens := \<lparr>pa_name = True, pa_empty = True\<rparr> # cs_parens s1\<rparr>), None)))"

definition equals :: "string \<Rightarrow> cs_scanner \<Rightarrow> scanned" where
  "equals src s =
    (let s1 = content False s; next_char = after_char (drop (cs_pos s) src);
         before = (if cs_pos s > 0 then src ! (cs_pos s - 1) else CHR 0x00);
         before2 = (if cs_pos s > 1 then src ! (cs_pos s - 2) else CHR 0x00)
     in if next_char = CHR ''='' \<or> next_char = CHR ''>'' then (token ''='' (cs_pos s + 2) s1, None)
        else if before = CHR ''!'' \<or> ((before = CHR ''<'' \<or> before = CHR ''>'') \<and> before2 \<noteq> before)
        then (token ''='' (cs_pos s + 1) s1, None)
        else (s1, Some reasonAssign))"

definition punct :: "string \<Rightarrow> cs_scanner \<Rightarrow> scanned" where
  "punct src s =
    (let c = src ! cs_pos s; rest = drop (cs_pos s) src;
         plain = (\<lambda>s. (token [c] (cs_pos s + 1) (content (c = CHR ''.'') s), None))
     in if prefix ''++'' rest \<or> prefix ''--'' rest then (s, Some reasonIncrement)
        else if c = CHR ''('' \<or> (c = CHR '')'' \<and> cs_parens s \<noteq> []) then paren_step src s
        else if c = CHR ''='' then equals src s
        else if c = CHR ''<'' \<and> cs_prevEnd s = cs_pos s \<and> isIdent (cs_prev s) \<and> after_char rest \<noteq> CHR ''='' \<and> after_char rest \<noteq> CHR ''<''
        then plain (s\<lparr>cs_generics := cs_prev s # cs_generics s\<rparr>)
        else if c = CHR ''>'' \<and> cs_generics s \<noteq> [] \<and> after_char rest \<noteq> CHR ''=''
        then ((token ''>'' (cs_pos s + 1) (content False (s\<lparr>cs_generics := tl (cs_generics s)\<rparr>)))\<lparr>cs_closed := hd (cs_generics s)\<rparr>, None)
        else plain s)"

definition literal :: "string \<Rightarrow> cs_scanner \<Rightarrow> scanned option" where
  "literal src s =
    (let c = src ! cs_pos s; rest = drop (cs_pos s) src; n = after_char rest in
     if (c = CHR ''$'' \<and> (n = DQUOTE \<or> n = CHR ''@'')) \<or> (c = CHR ''@'' \<and> n = CHR ''$'') then Some (s, Some reasonInterpolated)
     else if c = DQUOTE then Some (token [DQUOTE] (cs_pos s + string_length 1 False rest) (content False s), None)
     else if c = CHR ''@'' \<and> n = DQUOTE then Some (token [DQUOTE] (cs_pos s + string_length 2 True rest) (content False s), None)
     else if c = SQUOTE then Some (token [SQUOTE] (cs_pos s + char_length rest) (content False s), None)
     else if cs_identStart n then Some (ident src s)
     else None)"

definition is_blank :: "char \<Rightarrow> bool" where
  "is_blank c = (c = CHR '' '' \<or> c = CHR 0x09 \<or> c = CHR 0x0D \<or> c = CHR 0x0A)"

text \<open>\<^verbatim>\<open>next\<close>, at a position inside the text.\<close>

definition scan_next :: "string \<Rightarrow> cs_scanner \<Rightarrow> scanned" where
  "scan_next src s =
    (let c = src ! cs_pos s; rest = drop (cs_pos s) src; n = after_char rest in
     if is_blank c then (s\<lparr>cs_pos := cs_pos s + 1\<rparr>, None)
     else if c = SL \<and> (n = CHR ''*'' \<or> n = SL) then (s\<lparr>cs_pos := cs_pos s + comment_length rest\<rparr>, None)
     else if c = CHR ''$'' \<or> c = CHR ''@'' \<or> c = DQUOTE \<or> c = SQUOTE
     then (case literal src s of Some r \<Rightarrow> r | None \<Rightarrow> punct src s)
     else if cs_identStart c then ident src s
     else if is_digit c then (number src s, None)
     else punct src s)"

section \<open>Progress, and the loop\<close>

lemma content_pos [simp]: "cs_pos (content b s) = cs_pos s"
  by (simp add: content_def split: list.splits)

lemma content_prev [simp]: "cs_prev (content b s) = cs_prev s"
  by (simp add: content_def split: list.splits)

lemma content_prevEnd [simp]: "cs_prevEnd (content b s) = cs_prevEnd s"
  by (simp add: content_def split: list.splits)

lemma token_fields [simp]:
  "cs_pos (token t e s) = e" "cs_prev (token t e s) = t" "cs_prevEnd (token t e s) = e"
  by (simp_all add: token_def)

text \<open>
  What the text has at a position, whatever the scanner's state there: the kind of the token
  and its length.
\<close>

datatype lexeme = Blank | Interpolated | Twice | Word string | Mark string

datatype kind = Space | Comment | Interpolation | Quotation | Verbatim | Character | Name | Numeral | Punctuation

definition kind_of :: "char \<Rightarrow> char \<Rightarrow> kind" where
  "kind_of c n =
    (if is_blank c then Space
     else if c = SL \<and> (n = CHR ''*'' \<or> n = SL) then Comment
     else if (c = CHR ''$'' \<and> (n = DQUOTE \<or> n = CHR ''@'')) \<or> (c = CHR ''@'' \<and> n = CHR ''$'') then Interpolation
     else if c = DQUOTE then Quotation
     else if c = CHR ''@'' \<and> n = DQUOTE then Verbatim
     else if c = SQUOTE then Character
     else if c = CHR ''$'' \<or> c = CHR ''@'' then (if cs_identStart n then Name else Punctuation)
     else if cs_identStart c then Name
     else if is_digit c then Numeral
     else Punctuation)"

definition lexeme_at :: "string \<Rightarrow> lexeme \<times> nat" where
  "lexeme_at rest =
    (let c = hd rest; n = after_char rest
     in case kind_of c n of
       Space \<Rightarrow> (Blank, 1)
     | Comment \<Rightarrow> (Blank, comment_length rest)
     | Interpolation \<Rightarrow> (Interpolated, 2)
     | Quotation \<Rightarrow> (Mark [DQUOTE], string_length 1 False rest)
     | Verbatim \<Rightarrow> (Mark [DQUOTE], string_length 2 True rest)
     | Character \<Rightarrow> (Mark [SQUOTE], char_length rest)
     | Name \<Rightarrow> (Word (take (ident_length rest) rest), ident_length rest)
     | Numeral \<Rightarrow> (Mark ''0'', number_length rest)
     | Punctuation \<Rightarrow>
         (if prefix ''++'' rest \<or> prefix ''--'' rest then (Twice, 2)
          else if c = CHR ''='' \<and> (n = CHR ''='' \<or> n = CHR ''>'') then (Mark [c], 2)
          else (Mark [c], 1)))"

lemma comment_length_pos: "rest \<noteq> [] \<Longrightarrow> 0 < comment_length rest"
  by (simp add: comment_length_def split: option.splits)

lemma string_length_pos: "\<lbrakk>rest \<noteq> []; 0 < start\<rbrakk> \<Longrightarrow> 0 < string_length start v rest"
  by (simp add: string_length_def split: option.splits)

lemma char_length_pos: "rest \<noteq> [] \<Longrightarrow> 0 < char_length rest"
  by (simp add: char_length_def)

lemma number_length_pos: "\<lbrakk>rest \<noteq> []; kind_of (hd rest) n = Numeral\<rbrakk> \<Longrightarrow> 0 < number_length rest"
  by (cases rest) (simp_all add: number_length_def cs_identPart_def kind_of_def split: if_splits)

lemma ident_length_pos: "0 < ident_length rest"
  by (simp add: ident_length_def)

lemma lexeme_length_pos: "rest \<noteq> [] \<Longrightarrow> 0 < snd (lexeme_at rest)"
  by (simp add: lexeme_at_def Let_def comment_length_pos string_length_pos char_length_pos number_length_pos
      ident_length_pos split: kind.split)

text \<open>A step that goes on takes the lexeme of the text, and keeps or sets the previous token by it.\<close>

fun told_by :: "string \<Rightarrow> lexeme \<Rightarrow> string" where
  "told_by prev (Word w) = w"
| "told_by prev (Mark m) = m"
| "told_by prev l = prev"

lemma punct_goes_on:
  "punct src s = (s', None) \<Longrightarrow>
    \<not> prefix ''++'' (drop (cs_pos s) src) \<and> \<not> prefix ''--'' (drop (cs_pos s) src) \<and>
    cs_prev s' = [src ! cs_pos s] \<and>
    cs_pos s' = cs_pos s + (if src ! cs_pos s = CHR ''='' \<and>
      (after_char (drop (cs_pos s) src) = CHR ''='' \<or> after_char (drop (cs_pos s) src) = CHR ''>'') then 2 else 1)"
  by (auto simp: punct_def paren_step_def equals_def Let_def split: if_splits option.splits)

lemma ident_goes_on:
  "ident src s = (s', None) \<Longrightarrow>
    take (ident_length (drop (cs_pos s) src)) (drop (cs_pos s) src) \<noteq> ''new'' \<and>
    cs_prev s' = take (ident_length (drop (cs_pos s) src)) (drop (cs_pos s) src) \<and>
    cs_pos s' = cs_pos s + ident_length (drop (cs_pos s) src)"
  by (auto simp: ident_def Let_def split: if_splits)

lemma head_of_rest: "i < length src \<Longrightarrow> hd (drop i src) = src ! i"
  by (simp add: hd_drop_conv_nth)

lemma scan_by_kind:
  "scan_next src s =
    (let rest = drop (cs_pos s) src
     in case kind_of (src ! cs_pos s) (after_char rest) of
       Space \<Rightarrow> (s\<lparr>cs_pos := cs_pos s + 1\<rparr>, None)
     | Comment \<Rightarrow> (s\<lparr>cs_pos := cs_pos s + comment_length rest\<rparr>, None)
     | Interpolation \<Rightarrow> (s, Some reasonInterpolated)
     | Quotation \<Rightarrow> (token [DQUOTE] (cs_pos s + string_length 1 False rest) (content False s), None)
     | Verbatim \<Rightarrow> (token [DQUOTE] (cs_pos s + string_length 2 True rest) (content False s), None)
     | Character \<Rightarrow> (token [SQUOTE] (cs_pos s + char_length rest) (content False s), None)
     | Name \<Rightarrow> ident src s
     | Numeral \<Rightarrow> (number src s, None)
     | Punctuation \<Rightarrow> punct src s)"
proof -
  define c where "c = src ! cs_pos s"
  define n where "n = after_char (drop (cs_pos s) src)"
  show ?thesis
    unfolding scan_next_def literal_def Let_def c_def [symmetric] n_def [symmetric] kind_of_def
    by (cases "is_blank c"; cases "c = SL \<and> (n = CHR ''*'' \<or> n = SL)"; cases "c = CHR ''$'' \<or> c = CHR ''@''") auto
qed

lemma scan_open: "src ! cs_pos s = CHR ''('' \<Longrightarrow> scan_next src s = punct src s"
  by (simp add: scan_next_def Let_def is_blank_def cs_identStart_def is_lower_def is_upper_def is_digit_def)

lemma scan_goes_on:
  assumes n: "scan_next src s = (s', None)" and p: "cs_pos s < length src"
  shows "cs_pos s' = cs_pos s + snd (lexeme_at (drop (cs_pos s) src)) \<and>
    cs_prev s' = told_by (cs_prev s) (fst (lexeme_at (drop (cs_pos s) src))) \<and>
    fst (lexeme_at (drop (cs_pos s) src)) \<notin> {Interpolated, Twice, Word ''new''}"
proof -
  show ?thesis
    using n unfolding scan_by_kind lexeme_at_def Let_def head_of_rest [OF p]
    by (cases "kind_of (src ! cs_pos s) (after_char (drop (cs_pos s) src))")
      (auto simp: number_def dest!: punct_goes_on ident_goes_on)
qed

text \<open>\<^verbatim>\<open>SideEffects\<close>: the reason found, if any.\<close>

function scan_on :: "string \<Rightarrow> cs_scanner \<Rightarrow> string option" where
  "scan_on src s =
    (if cs_pos s < length src
     then case scan_next src s of (s', Some r) \<Rightarrow> Some r | (s', None) \<Rightarrow> scan_on src s'
     else None)"
  by pat_completeness auto
termination
proof (relation "measure (\<lambda>(src, s). length src - cs_pos s)")
  fix src s s' q
  assume h: "cs_pos s < length src" "(s', q) = scan_next src s" "q = None"
  have "0 < snd (lexeme_at (drop (cs_pos s) src))"
    using h(1) by (simp add: lexeme_length_pos)
  then have "cs_pos s < cs_pos s'"
    using scan_goes_on [of src s s'] h by (metis less_add_same_cancel1)
  with h(1) show "((src, s'), src, s) \<in> measure (\<lambda>(src, s). length src - cs_pos s)"
    by simp
qed simp

declare scan_on.simps [simp del]

definition SideEffects :: "string \<Rightarrow> string option" where
  "SideEffects expr = scan_on expr new_scan"

section \<open>What an accepted text does not have\<close>

function lexemes :: "string \<Rightarrow> lexeme list" where
  "lexemes rest = (if rest = [] then [] else fst (lexeme_at rest) # lexemes (drop (snd (lexeme_at rest)) rest))"
  by pat_completeness auto
termination
  by (relation "measure length") (use lexeme_length_pos in auto)

declare lexemes.simps [simp del]

text \<open>A parenthesis opened right behind a word that is not one of the keywords: with blanks and comments left out.\<close>

fun calls_word :: "string \<Rightarrow> lexeme list \<Rightarrow> bool" where
  "calls_word prev [] = False"
| "calls_word prev (l # ls) =
    ((l = Mark ''('' \<and> isIdent prev \<and> \<not> notCall prev) \<or> calls_word (told_by prev l) ls)"

lemma paren_at_call:
  assumes "scan_next src s = (s', None)" "cs_pos s < length src"
    "fst (lexeme_at (drop (cs_pos s) src)) = Mark ''(''"
  shows "\<not> (isIdent (cs_prev s) \<and> \<not> notCall (cs_prev s))"
proof -
  have "src ! cs_pos s = CHR ''(''"
    using assms(3) head_of_rest [OF assms(2)] by (simp add: lexeme_at_def Let_def split: if_splits kind.splits)
  then show ?thesis
    using assms scan_open [of src s] by (auto simp: punct_def paren_step_def callee_def Let_def split: if_splits)
qed

lemma scan_on_accepts:
  "scan_on src s = None \<Longrightarrow> set (lexemes (drop (cs_pos s) src)) \<inter> {Interpolated, Twice, Word ''new''} = {} \<and>
    \<not> calls_word (cs_prev s) (lexemes (drop (cs_pos s) src))"
proof (induction src s rule: scan_on.induct)
  case (1 src s)
  show ?case
  proof (cases "cs_pos s < length src")
    case False
    then show ?thesis by (simp add: lexemes.simps [of "[]"])
  next
    case True
    obtain s' where goes: "scan_next src s = (s', None)"
      using 1(2) True by (cases "scan_next src s") (auto simp: scan_on.simps [of src s] split: option.splits)
    let ?l = "lexeme_at (drop (cs_pos s) src)"
    have cut: "lexemes (drop (cs_pos s) src) = fst ?l # lexemes (drop (cs_pos s') src)"
      using True scan_goes_on [OF goes True] by (simp add: lexemes.simps [of "drop (cs_pos s) src"] add.commute)
    have "scan_on src s' = None"
      using 1(2) True goes by (simp add: scan_on.simps [of src s])
    from 1(1) [OF True goes [symmetric] refl this]
    show ?thesis
      using scan_goes_on [OF goes True] paren_at_call [OF goes True] by (auto simp: cut)
  qed
qed

text \<open>
  A text with nothing reported has no interpolated string, no \<^verbatim>\<open>++\<close> or \<^verbatim>\<open>--\<close>, no word
  \<^verbatim>\<open>new\<close>, and no word but the keywords before a parenthesis, whatever blanks and comments stand
  between them.
\<close>

lemma SideEffects_accepts:
  assumes "SideEffects expr = None"
  shows "set (lexemes expr) \<inter> {Interpolated, Twice, Word ''new''} = {}" "\<not> calls_word [] (lexemes expr)"
  using scan_on_accepts [of expr new_scan] assms by (simp_all add: SideEffects_def new_scan_def)

text \<open>
  A line comment is one lexeme up to the end of the whole text, not of its line: what stands on
  the lines below is never looked at, though the debugger evaluates it.
\<close>

lemma line_comment_ends_the_scan:
  assumes "cs_pos s + 1 < length src" "src ! cs_pos s = SL" "src ! (cs_pos s + 1) = SL"
  shows "scan_on src s = None"
proof -
  obtain cs where rest: "drop (cs_pos s) src = SL # SL # cs"
    using assms by (metis Cons_nth_drop_Suc Suc_eq_plus1 Suc_lessD)
  have "length (drop (cs_pos s) src) = length src - cs_pos s" by simp
  then have "scan_next src s = (s\<lparr>cs_pos := length src\<rparr>, None)"
    using assms rest by (simp add: scan_next_def Let_def after_char_def comment_length_def is_blank_def)
  then show ?thesis
    by (simp add: scan_on.simps [of src s] scan_on.simps [of src "s\<lparr>cs_pos := length src\<rparr>"])
qed

lemma call_below_a_comment_is_missed: "SideEffects (''1//'' @ [CHR 0x0A] @ ''+F()'') = None"
proof -
  let ?src = "''1//'' @ [CHR 0x0A] @ ''+F()''"
  obtain s where s: "scan_next ?src new_scan = (s, None)" "cs_pos s = 1"
    by (simp add: scan_next_def new_scan_def Let_def is_blank_def cs_identStart_def cs_identPart_def is_lower_def
        is_upper_def is_digit_def number_def number_length_def)
  have "scan_on ?src s = None"
    using s(2) by (intro line_comment_ends_the_scan) simp_all
  then show ?thesis
    using s(1) by (simp add: SideEffects_def scan_on.simps [of _ new_scan])
qed

end
