(* ===== verification/Mirrors.thy ===== *)
theory Mirrors
  imports Session_State Present
begin

text \<open>
  What an editor sees of a session's breakpoints (\<^verbatim>\<open>internal/facade/mirrors.go\<close>, and
  \<^verbatim>\<open>dapBreakpoint\<close> of \<^verbatim>\<open>events.go\<close>): the view a connection keeps of what it told its editor,
  the reconciliation with the breakpoints there are now, and the classification of the
  entries of a setBreakpoints request. Go's maps are association lists and the set of
  hidden ids is a list; no result depends on their order, as the source sorts by id.
\<close>

section \<open>What an editor is told\<close>

text \<open>A \<^verbatim>\<open>godap.Breakpoint\<close> as the facade fills it; the path is its source's.\<close>

record shown =
  sh_Id :: int
  sh_Verified :: bool
  sh_Line :: int
  sh_Column :: int
  sh_Path :: "string option"
  sh_Message :: string

definition no_shown :: shown where
  "no_shown = \<lparr>sh_Id = 0, sh_Verified = False, sh_Line = 0, sh_Column = 0, sh_Path = None, sh_Message = []\<rparr>"

text \<open>The standard DAP events and the eyedbg events a connection sends.\<close>

datatype sent_event =
    StoppedSent string int string string bool bool "int list"
  | ContinuedSent int
  | OutputSent string string
  | ThreadSent string int
  | ExitedSent int
  | TerminatedSent
  | InvalidatedSent
  | BreakpointSent string shown
  | InitializedSent
  | CapabilitiesSent
  | LeaseSent lease_info
  | ClientsSent "client_info list"
  | BreakpointsSent "api_breakpoint list" int
  | ActivitySent event
  | SessionSent string
  | TerminalSent int

definition actionChanged :: string where "actionChanged = ''changed''"
definition actionRemoved :: string where "actionRemoved = ''removed''"
definition actionNew :: string where "actionNew = ''new''"

definition dapBreakpoint :: "api_breakpoint \<Rightarrow> shown" where
  "dapBreakpoint b =
    \<lparr>sh_Id = bp_ID b, sh_Verified = bp_Verified b, sh_Line = (if bp_Function b \<noteq> [] then 0 else bp_Line b), sh_Column = 0,
     sh_Path = None,
     sh_Message = (if bp_Note b \<noteq> [] then (if bp_Message b \<noteq> [] then bp_Message b @ ''; '' else []) @ bp_Note b else bp_Message b)\<rparr>"

text \<open>
  \<^verbatim>\<open>mirrorMessage\<close>, with \<^verbatim>\<open>maxMirrorMessage\<close> and the hint that ends every message (its dash
  and the dots and ellipsis are three bytes of UTF-8, the dot between the parts two).
\<close>

definition maxMirrorMessage :: nat where "maxMirrorMessage = 300"

definition hideHint :: string where
  "hideHint = '' '' @ [CHR 0xE2, CHR 0x80, CHR 0x94] @ '' removing it here only hides it''"

definition mirror_parts :: "api_breakpoint \<Rightarrow> string \<Rightarrow> string list" where
  "mirror_parts b self =
    [if bp_Owner b = self then ''your breakpoint, set outside this editor'' else bp_Owner b @ CHR 0x27 # ''s breakpoint'']
    @ (if bp_Condition b \<noteq> [] then [''if '' @ bp_Condition b] else [])
    @ (if bp_HitCondition b \<noteq> [] then [''hit '' @ bp_HitCondition b] else [])
    @ (if bp_LogMessage b \<noteq> [] then [''logs '' @ bp_LogMessage b @ '', doesn'' @ CHR 0x27 # ''t stop''] else [])
    @ filter (\<lambda>s. s \<noteq> []) [bp_Message b, bp_Note b]"

definition mirrorMessage :: "api_breakpoint \<Rightarrow> string \<Rightarrow> string" where
  "mirrorMessage b self =
    (let body = join_with ('' '' @ [CHR 0xC2, CHR 0xB7] @ '' '') (mirror_parts b self);
         limit = maxMirrorMessage - RuneCount hideHint
     in (if RuneCount body > limit then take_runes (limit - 1) body @ [CHR 0xE2, CHR 0x80, CHR 0xA6] else body) @ hideHint)"

definition markColumn :: int where "markColumn = 1"

definition mirrorBreakpoint :: "api_breakpoint \<Rightarrow> string \<Rightarrow> string \<Rightarrow> shown" where
  "mirrorBreakpoint b self path =
    \<lparr>sh_Id = bp_ID b, sh_Verified = bp_Verified b, sh_Line = bp_Line b, sh_Column = markColumn, sh_Path = Some path,
     sh_Message = mirrorMessage b self\<rparr>"

definition sameBreakpoint :: "shown \<Rightarrow> shown \<Rightarrow> bool" where
  "sameBreakpoint a b =
    (let path = (\<lambda>x. case sh_Path x of None \<Rightarrow> [] | Some p \<Rightarrow> p)
     in a\<lparr>sh_Path := None\<rparr> = b\<lparr>sh_Path := None\<rparr> \<and> path a = path b)"

section \<open>The view\<close>

record mirror =
  mi_key :: string
  mi_path :: string
  mi_line :: int
  mi_told :: shown

datatype bpsKey = FuncBreakpoints | SourceBreakpoints string

record view =
  vw_lists :: "(bpsKey \<times> int list) list"
  vw_reported :: "(int \<times> shown) list"
  vw_files :: "(string \<times> string) list"
  vw_latest :: "(string \<times> string) list"
  vw_mirrors :: "(int \<times> mirror) list"
  vw_hidden :: "int list"
  vw_lastRetract :: int
  vw_configured :: bool
  vw_leaving :: bool
  vw_after :: "sent_event list"

definition newView :: view where
  "newView = \<lparr>vw_lists = [], vw_reported = [], vw_files = [], vw_latest = [], vw_mirrors = [], vw_hidden = [],
    vw_lastRetract = 0, vw_configured = False, vw_leaving = False, vw_after = []\<rparr>"

text \<open>\<^verbatim>\<open>track\<close>; \<open>None\<close> is Go's nil, a request that placed nothing.\<close>

definition track :: "bpsKey \<Rightarrow> api_breakpoint list option \<Rightarrow> view \<Rightarrow> view \<times> shown list" where
  "track key got v =
    (case got of None \<Rightarrow> (v, [])
     | Some bs \<Rightarrow>
         let withID = filter (\<lambda>b. bp_ID b \<noteq> 0) bs;
             old = (case map_of (vw_lists v) key of Some l \<Rightarrow> l | None \<Rightarrow> []);
             v1 = v\<lparr>vw_reported := fold (\<lambda>b. aput (bp_ID b) (dapBreakpoint b)) withID (vw_reported v),
                    vw_lists := aput key (map bp_ID withID) (vw_lists v)\<rparr>;
             listed = concat (map snd (vw_lists v1));
             v2 = v1\<lparr>vw_reported := fold adel (filter (\<lambda>i. i \<notin> set listed) old) (vw_reported v1)\<rparr>
         in (v2, map dapBreakpoint bs))"

definition sourceSeen :: "string \<Rightarrow> string \<Rightarrow> bool \<Rightarrow> view \<Rightarrow> view" where
  "sourceSeen path key own v =
    (let v1 = v\<lparr>vw_files := aput path key (vw_files v)\<rparr>
     in if own then v1\<lparr>vw_latest := aput key path (vw_latest v1)\<rparr> else v1)"

definition keep_ids :: "string \<Rightarrow> string \<Rightarrow> view \<Rightarrow> int list" where
  "keep_ids key path v =
    concat (map (\<lambda>(p, k). if k = key \<and> p \<noteq> path
        then (case map_of (vw_lists v) (SourceBreakpoints p) of Some l \<Rightarrow> l | None \<Rightarrow> []) else []) (vw_files v))"

definition announcePath :: "string \<Rightarrow> view \<Rightarrow> string" where
  "announcePath key v = (case map_of (vw_latest v) key of Some p \<Rightarrow> p | None \<Rightarrow> key)"

definition forget_reported :: "int \<Rightarrow> view \<Rightarrow> view" where
  "forget_reported i v = v\<lparr>vw_reported := adel i (vw_reported v),
     vw_lists := map (\<lambda>(k, ids). (k, filter (\<lambda>j. j \<noteq> i) ids)) (vw_lists v)\<rparr>"

section \<open>Which breakpoints are mirrored\<close>

definition mirrorable :: "api_breakpoint \<Rightarrow> string \<Rightarrow> view \<Rightarrow> bool" where
  "mirrorable b self v =
    (bp_ID b > 0 \<and> bp_Function b = [] \<and> bp_File b \<noteq> [] \<and> \<not> bp_Temporary b \<and> map_of (vw_reported v) (bp_ID b) = None
     \<and> (bp_Owner b \<noteq> self \<or> \<not> bp_Editor b))"

type_synonym file_line = "string \<times> int"

definition own_lines :: "api_breakpoint list \<Rightarrow> view \<Rightarrow> file_line list" where
  "own_lines bps v =
    concat (map (\<lambda>b. if map_of (vw_reported v) (bp_ID b) \<noteq> None \<and> bp_Function b = []
        then [(bp_File b, bp_Line b), (bp_File b, bp_RequestedLine b)] else []) bps)"

definition mirror_path :: "view \<Rightarrow> api_breakpoint \<Rightarrow> string" where
  "mirror_path v b = (case map_of (vw_mirrors v) (bp_ID b) of Some m \<Rightarrow> mi_path m | None \<Rightarrow> announcePath (bp_File b) v)"

fun wanted_loop :: "string \<Rightarrow> view \<Rightarrow> file_line list \<Rightarrow> file_line list \<Rightarrow> api_breakpoint list \<Rightarrow> (int \<times> shown) list" where
  "wanted_loop self v own taken [] = []"
| "wanted_loop self v own taken (b # bs) =
    (let here = (bp_File b, bp_Line b) in
     if \<not> mirrorable b self v \<or> here \<in> set own \<or> here \<in> set taken then wanted_loop self v own taken bs
     else if bp_ID b \<in> set (vw_hidden v) then wanted_loop self v own (here # taken) bs
     else (bp_ID b, mirrorBreakpoint b self (mirror_path v b)) # wanted_loop self v own (here # taken) bs)"

definition wanted :: "string \<Rightarrow> api_breakpoint list \<Rightarrow> view \<Rightarrow> (int \<times> shown) list" where
  "wanted self bps v = wanted_loop self v (own_lines bps v) [] bps"

section \<open>Reconciling\<close>

abbreviation by_id :: "api_breakpoint list \<Rightarrow> int \<Rightarrow> api_breakpoint option" where
  "by_id bps i \<equiv> find (\<lambda>b. bp_ID b = i) bps"

definition removed_shown :: "int \<Rightarrow> shown" where
  "removed_shown i = no_shown\<lparr>sh_Id := i\<rparr>"

text \<open>\<^verbatim>\<open>reconcileReported\<close>, one step of its loop over what was reported.\<close>

fun reported_step :: "api_breakpoint list \<Rightarrow> int \<times> shown \<Rightarrow> view \<times> shown list \<times> shown list \<Rightarrow> view \<times> shown list \<times> shown list" where
  "reported_step bps (i, told) (v, removed, changed) =
    (case by_id bps i of
       None \<Rightarrow> (forget_reported i v, removed @ [removed_shown i], changed)
     | Some b \<Rightarrow>
         if dapBreakpoint b \<noteq> told
         then (v\<lparr>vw_reported := aput i (dapBreakpoint b) (vw_reported v)\<rparr>, removed, changed @ [dapBreakpoint b])
         else (v, removed, changed))"

definition reconcileReported :: "api_breakpoint list \<Rightarrow> view \<Rightarrow> view \<times> shown list \<times> shown list" where
  "reconcileReported bps v = fold (reported_step bps) (vw_reported v) (v, [], [])"

text \<open>The loop over the mirrors, and the one over the wanted that are not announced yet.\<close>

fun mirror_step :: "(int \<times> shown) list \<Rightarrow> int \<times> mirror \<Rightarrow> view \<times> shown list \<times> shown list \<Rightarrow> view \<times> shown list \<times> shown list" where
  "mirror_step want (i, m) (v, removed, changed) =
    (case map_of want i of
       None \<Rightarrow> (v\<lparr>vw_mirrors := adel i (vw_mirrors v)\<rparr>, removed @ [removed_shown i], changed)
     | Some w \<Rightarrow>
         if \<not> sameBreakpoint w (mi_told m)
         then (v\<lparr>vw_mirrors := aput i (m\<lparr>mi_told := w\<rparr>) (vw_mirrors v)\<rparr>, removed, changed @ [w])
         else (v, removed, changed))"

definition announced :: "api_breakpoint list \<Rightarrow> int \<Rightarrow> shown \<Rightarrow> mirror" where
  "announced bps i w = \<lparr>mi_key = (case by_id bps i of Some b \<Rightarrow> bp_File b | None \<Rightarrow> []),
     mi_path = (case sh_Path w of Some p \<Rightarrow> p | None \<Rightarrow> []), mi_line = sh_Line w, mi_told = w\<rparr>"

fun announce_step :: "api_breakpoint list \<Rightarrow> int \<times> shown \<Rightarrow> view \<times> shown list \<Rightarrow> view \<times> shown list" where
  "announce_step bps (i, w) (v, added) =
    (if map_of (vw_mirrors v) i = None
     then (v\<lparr>vw_mirrors := aput i (announced bps i w) (vw_mirrors v)\<rparr>, added @ [w])
     else (v, added))"

definition event_group :: "string \<Rightarrow> shown list \<Rightarrow> sent_event list" where
  "event_group reason bs = map (BreakpointSent reason) (sort_key sh_Id bs)"

definition reconcile :: "view \<Rightarrow> string \<Rightarrow> api_breakpoint list \<Rightarrow> view \<times> sent_event list" where
  "reconcile v self bps =
    (let (v1, removed1, changed1) = reconcileReported bps v;
         want = wanted self bps v1;
         (v2, removed, changed) = fold (mirror_step want) (vw_mirrors v1) (v1, removed1, changed1);
         (v3, added) = fold (announce_step bps) want (v2, []);
         v4 = v3\<lparr>vw_hidden := filter (\<lambda>i. by_id bps i \<noteq> None) (vw_hidden v3)\<rparr>
     in (v4, event_group actionRemoved removed @ event_group actionChanged changed @ event_group actionNew added))"

definition retractMirrors :: "view \<Rightarrow> view \<times> sent_event list" where
  "retractMirrors v = (v\<lparr>vw_mirrors := []\<rparr>, map (\<lambda>i. BreakpointSent actionRemoved (removed_shown i)) (sort (map fst (vw_mirrors v))))"

section \<open>What the editor shows\<close>

text \<open>
  An editor as far as these events go: the breakpoints it was told of, by id. A removed
  event drops one, any other breakpoint event sets one.
\<close>

type_synonym editor = "int \<Rightarrow> shown option"

fun receive :: "editor \<Rightarrow> sent_event \<Rightarrow> editor" where
  "receive ed (BreakpointSent reason b) = (if reason = actionRemoved then ed(sh_Id b := None) else ed(sh_Id b \<mapsto> b))"
| "receive ed _ = ed"

definition told :: "view \<Rightarrow> editor" where
  "told v i = (case map_of (vw_reported v) i of Some b \<Rightarrow> Some b | None \<Rightarrow> map_option mi_told (map_of (vw_mirrors v) i))"

text \<open>
  A view in order: what it holds under an id is about that id, and no breakpoint is both
  reported and a mirror.
\<close>

definition view_ok :: "view \<Rightarrow> bool" where
  "view_ok v \<longleftrightarrow> distinct (map fst (vw_reported v)) \<and> distinct (map fst (vw_mirrors v))
    \<and> (\<forall>i. map_of (vw_reported v) i = None \<or> map_of (vw_mirrors v) i = None)
    \<and> (\<forall>i b. map_of (vw_reported v) i = Some b \<longrightarrow> sh_Id b = i)
    \<and> (\<forall>i m. map_of (vw_mirrors v) i = Some m \<longrightarrow> sh_Id (mi_told m) = i \<and> sh_Path (mi_told m) \<noteq> None)"

lemma reasons [simp]: "actionChanged \<noteq> actionRemoved" "actionNew \<noteq> actionRemoved"
  by (simp_all add: actionChanged_def actionRemoved_def actionNew_def)

lemma shown_ids [simp]:
  "sh_Id (dapBreakpoint b) = bp_ID b" "sh_Id (mirrorBreakpoint b self path) = bp_ID b" "sh_Id (removed_shown i) = i"
  by (simp_all add: dapBreakpoint_def mirrorBreakpoint_def removed_shown_def no_shown_def)

lemma receive_removed:
  "foldl receive ed (event_group actionRemoved bs) i = (if i \<in> sh_Id ` set bs then None else ed i)"
proof -
  have "foldl receive ed (map (BreakpointSent actionRemoved) xs) i = (if i \<in> sh_Id ` set xs then None else ed i)" for xs
    by (induction xs arbitrary: ed) auto
  then show ?thesis by (simp add: event_group_def)
qed

lemma receive_set:
  assumes "reason \<noteq> actionRemoved" "distinct (map sh_Id bs)"
  shows "foldl receive ed (event_group reason bs) i
    = (case find (\<lambda>b. sh_Id b = i) bs of Some b \<Rightarrow> Some b | None \<Rightarrow> ed i)"
proof -
  let ?entry = "\<lambda>b. (sh_Id b, b)" and ?bs = "sort_key sh_Id bs"
  have "foldl receive ed (map (BreakpointSent reason) xs) = ed ++ map_of (rev (map ?entry xs))" for xs
    using assms(1) by (induction xs arbitrary: ed) (simp_all add: map_add_def fun_eq_iff split: option.split)
  then have fold: "foldl receive ed (event_group reason bs) i = (ed ++ map_of (rev (map ?entry ?bs))) i"
    by (simp add: event_group_def)
  have "distinct (map sh_Id ?bs)" using assms(2) by (simp add: distinct_map)
  then have d: "distinct (map fst (rev (map ?entry ?bs)))" by (simp add: rev_map[symmetric] comp_def)
  show ?thesis
  proof (cases "find (\<lambda>b. sh_Id b = i) bs")
    case None
    then have "map_of (rev (map ?entry ?bs)) i = None" by (auto simp: find_None_iff map_of_eq_None_iff)
    then show ?thesis using fold None by (simp add: map_add_def)
  next
    case (Some b)
    then have "b \<in> set bs" "sh_Id b = i" by (auto simp: find_Some_iff)
    then have "map_of (rev (map ?entry ?bs)) i = Some b" by (intro map_of_is_SomeI[OF d]) auto
    then show ?thesis using fold Some by (simp add: map_add_def)
  qed
qed

section \<open>What each loop does\<close>

text \<open>Everything of a view but what was reported, and but the mirrors.\<close>

definition beside_reported :: "view \<Rightarrow> view" where
  "beside_reported v = v\<lparr>vw_reported := [], vw_lists := []\<rparr>"

definition reported_now :: "api_breakpoint list \<Rightarrow> editor \<Rightarrow> editor" where
  "reported_now bps rep i = (if rep i = None then None else map_option dapBreakpoint (by_id bps i))"

definition reported_change :: "api_breakpoint list \<Rightarrow> int \<times> shown \<Rightarrow> shown list" where
  "reported_change bps p =
    (case by_id bps (fst p) of Some n \<Rightarrow> if dapBreakpoint n \<noteq> snd p then [dapBreakpoint n] else [] | None \<Rightarrow> [])"

lemma reported_loop:
  assumes "distinct (map fst xs)" "\<forall>(i, b) \<in> set xs. map_of (vw_reported v) i = Some b" "distinct (map fst (vw_reported v))"
    "fold (reported_step bps) xs (v, removed, changed) = (v', removed', changed')"
  shows "beside_reported v' = beside_reported v \<and> distinct (map fst (vw_reported v'))
    \<and> (\<forall>i. map_of (vw_reported v') i = (if map_of xs i = None then map_of (vw_reported v) i else map_option dapBreakpoint (by_id bps i)))
    \<and> removed' = removed @ map removed_shown (filter (\<lambda>i. by_id bps i = None) (map fst xs))
    \<and> changed' = changed @ concat (map (reported_change bps) xs)"
  using assms
proof (induction xs arbitrary: v removed changed)
  case Nil
  then show ?case by simp
next
  case (Cons x xs)
  obtain i b where x: "x = (i, b)" by (cases x)
  have i: "i \<notin> fst ` set xs" "map_of (vw_reported v) i = Some b" "map_of xs i = None" using Cons.prems by (auto simp: x map_of_eq_None_iff)
  have rest: "distinct (map fst xs)" using Cons.prems by simp
  show ?case
  proof (cases "by_id bps i")
    case None
    let ?v = "forget_reported i v"
    have "\<forall>(j, c) \<in> set xs. map_of (vw_reported ?v) j = Some c" "distinct (map fst (vw_reported ?v))"
      using Cons.prems i(1) by (force simp: forget_reported_def x, simp add: forget_reported_def distinct_adel)
    from Cons.IH[OF rest this, of "removed @ [removed_shown i]" changed] Cons.prems(4) None show ?thesis
      using i by (auto simp: x forget_reported_def beside_reported_def reported_change_def)
  next
    case (Some n)
    let ?v = "v\<lparr>vw_reported := aput i (dapBreakpoint n) (vw_reported v)\<rparr>"
    have v: "\<forall>(j, c) \<in> set xs. map_of (vw_reported ?v) j = Some c" "distinct (map fst (vw_reported ?v))"
      using Cons.prems i(1) by (force simp: x, simp add: distinct_aput)
    have same: "\<forall>(j, c) \<in> set xs. map_of (vw_reported v) j = Some c" using Cons.prems by simp
    show ?thesis
    proof (cases "dapBreakpoint n \<noteq> b")
      case True
      from Cons.IH[OF rest v, of removed "changed @ [dapBreakpoint n]"] Cons.prems(4) Some True show ?thesis
        using i by (auto simp: x beside_reported_def reported_change_def)
    next
      case False
      from Cons.IH[OF rest same Cons.prems(3), of removed changed] Cons.prems(4) Some False show ?thesis
        using i by (auto simp: x reported_change_def)
    qed
  qed
qed

definition beside_mirrors :: "view \<Rightarrow> view" where
  "beside_mirrors v = v\<lparr>vw_mirrors := []\<rparr>"

definition mirror_now :: "(int \<times> shown) list \<Rightarrow> int \<Rightarrow> mirror \<Rightarrow> mirror option" where
  "mirror_now want i m = map_option (\<lambda>w. if sameBreakpoint w (mi_told m) then m else m\<lparr>mi_told := w\<rparr>) (map_of want i)"

definition mirror_change :: "(int \<times> shown) list \<Rightarrow> int \<times> mirror \<Rightarrow> shown list" where
  "mirror_change want p = (case map_of want (fst p) of Some w \<Rightarrow> if sameBreakpoint w (mi_told (snd p)) then [] else [w] | None \<Rightarrow> [])"

lemma mirror_loop:
  assumes "distinct (map fst xs)" "\<forall>(i, m) \<in> set xs. map_of (vw_mirrors v) i = Some m" "distinct (map fst (vw_mirrors v))"
    "fold (mirror_step want) xs (v, removed, changed) = (v', removed', changed')"
  shows "beside_mirrors v' = beside_mirrors v \<and> distinct (map fst (vw_mirrors v'))
    \<and> (\<forall>i. map_of (vw_mirrors v') i = (if map_of xs i = None then map_of (vw_mirrors v) i else Option.bind (map_of (vw_mirrors v) i) (mirror_now want i)))
    \<and> removed' = removed @ map removed_shown (filter (\<lambda>i. map_of want i = None) (map fst xs))
    \<and> changed' = changed @ concat (map (mirror_change want) xs)"
  using assms
proof (induction xs arbitrary: v removed changed)
  case Nil
  then show ?case by simp
next
  case (Cons x xs)
  obtain i m where x: "x = (i, m)" by (cases x)
  have i: "i \<notin> fst ` set xs" "map_of (vw_mirrors v) i = Some m" "map_of xs i = None" using Cons.prems by (auto simp: x map_of_eq_None_iff)
  have rest: "distinct (map fst xs)" "\<forall>(j, c) \<in> set xs. map_of (vw_mirrors v) j = Some c" using Cons.prems by simp_all
  show ?case
  proof (cases "map_of want i")
    case None
    let ?v = "v\<lparr>vw_mirrors := adel i (vw_mirrors v)\<rparr>"
    have "\<forall>(j, c) \<in> set xs. map_of (vw_mirrors ?v) j = Some c" "distinct (map fst (vw_mirrors ?v))"
      using Cons.prems i(1) by (force simp: x, simp add: distinct_adel)
    from Cons.IH[OF rest(1) this, of "removed @ [removed_shown i]" changed] Cons.prems(4) None show ?thesis
      using i by (auto simp: x beside_mirrors_def mirror_now_def mirror_change_def)
  next
    case (Some w)
    let ?v = "v\<lparr>vw_mirrors := aput i (m\<lparr>mi_told := w\<rparr>) (vw_mirrors v)\<rparr>"
    have v: "\<forall>(j, c) \<in> set xs. map_of (vw_mirrors ?v) j = Some c" "distinct (map fst (vw_mirrors ?v))"
      using Cons.prems i(1) by (force simp: x, simp add: distinct_aput)
    show ?thesis
    proof (cases "sameBreakpoint w (mi_told m)")
      case False
      from Cons.IH[OF rest(1) v, of removed "changed @ [w]"] Cons.prems(4) Some False show ?thesis
        using i by (auto simp: x beside_mirrors_def mirror_now_def mirror_change_def)
    next
      case True
      from Cons.IH[OF rest Cons.prems(3), of removed changed] Cons.prems(4) Some True show ?thesis
        using i by (auto simp: x mirror_now_def mirror_change_def)
    qed
  qed
qed

lemma announce_loop:
  assumes "distinct (map fst xs)" "distinct (map fst (vw_mirrors v))" "fold (announce_step bps) xs (v, added) = (v', added')"
  shows "beside_mirrors v' = beside_mirrors v \<and> distinct (map fst (vw_mirrors v'))
    \<and> (\<forall>i. map_of (vw_mirrors v') i = (case map_of (vw_mirrors v) i of Some m \<Rightarrow> Some m | None \<Rightarrow> map_option (announced bps i) (map_of xs i)))
    \<and> added' = added @ map snd (filter (\<lambda>(i, w). map_of (vw_mirrors v) i = None) xs)"
  using assms
proof (induction xs arbitrary: v added)
  case Nil
  then show ?case by (simp split: option.split)
next
  case (Cons x xs)
  obtain i w where x: "x = (i, w)" by (cases x)
  have i: "i \<notin> fst ` set xs" "map_of xs i = None" and rest: "distinct (map fst xs)" using Cons.prems(1) by (auto simp: x map_of_eq_None_iff)
  show ?case
  proof (cases "map_of (vw_mirrors v) i")
    case (Some m)
    then show ?thesis using Cons.IH[OF rest Cons.prems(2), of added] Cons.prems(3) by (auto simp: x split: option.split)
  next
    case None
    let ?v = "v\<lparr>vw_mirrors := aput i (announced bps i w) (vw_mirrors v)\<rparr>"
    have "distinct (map fst (vw_mirrors ?v))" using Cons.prems(2) by (simp add: distinct_aput)
    from Cons.IH[OF rest this, of "added @ [w]"] Cons.prems(3) None
    have IH: "beside_mirrors v' = beside_mirrors v" "distinct (map fst (vw_mirrors v'))"
      "\<And>j. map_of (vw_mirrors v') j = (case ((map_of (vw_mirrors v))(i \<mapsto> announced bps i w)) j of Some m \<Rightarrow> Some m
         | None \<Rightarrow> map_option (announced bps j) (map_of xs j))"
      "added' = (added @ [w]) @ map snd (filter (\<lambda>(j, u). ((map_of (vw_mirrors v))(i \<mapsto> announced bps i w)) j = None) xs)"
      by (simp_all add: x beside_mirrors_def)
    have "filter (\<lambda>(j, u). ((map_of (vw_mirrors v))(i \<mapsto> announced bps i w)) j = None) xs = filter (\<lambda>(j, u). map_of (vw_mirrors v) j = None) xs"
      using i(1) by (intro filter_cong) force+
    then show ?thesis using IH None by (auto simp: x split: option.split)
  qed
qed

section \<open>What is wanted\<close>

abbreviation place :: "api_breakpoint \<Rightarrow> file_line" where
  "place b \<equiv> (bp_File b, bp_Line b)"

lemma wanted_sound:
  "(i, w) \<in> set (wanted_loop self v own taken bs) \<Longrightarrow>
    \<exists>b \<in> set bs. bp_ID b = i \<and> w = mirrorBreakpoint b self (mirror_path v b) \<and> mirrorable b self v
      \<and> place b \<notin> set own \<and> place b \<notin> set taken \<and> i \<notin> set (vw_hidden v)"
  by (induction self v own taken bs rule: wanted_loop.induct) (auto simp: Let_def split: if_splits)

lemma wanted_distinct: "distinct (map bp_ID bs) \<Longrightarrow> distinct (map fst (wanted_loop self v own taken bs))"
proof (induction bs arbitrary: taken)
  case (Cons b bs)
  moreover have "bp_ID b \<notin> fst ` set (wanted_loop self v own t bs)" for t
    using Cons.prems wanted_sound[of _ _ self v own t bs] by fastforce
  ultimately show ?case by (auto simp: Let_def)
qed simp

lemma wanted_loop_cong:
  assumes "\<And>b. b \<in> set bs \<Longrightarrow> mirrorable b self v' = mirrorable b self v"
    "\<And>b. b \<in> set bs \<Longrightarrow> bp_ID b \<in> set (vw_hidden v') \<longleftrightarrow> bp_ID b \<in> set (vw_hidden v)"
    "\<And>b. b \<in> set bs \<Longrightarrow> bp_ID b \<in> fst ` set (wanted_loop self v own taken bs) \<Longrightarrow> mirror_path v' b = mirror_path v b"
  shows "wanted_loop self v' own taken bs = wanted_loop self v own taken bs"
  using assms
proof (induction bs arbitrary: taken)
  case (Cons b bs)
  have IH: "wanted_loop self v' own t bs = wanted_loop self v own t bs"
    if "set (wanted_loop self v own t bs) \<subseteq> set (wanted_loop self v own taken (b # bs))" for t
  proof (rule Cons.IH)
    fix b' assume b': "b' \<in> set bs"
    then show "mirrorable b' self v' = mirrorable b' self v" "bp_ID b' \<in> set (vw_hidden v') \<longleftrightarrow> bp_ID b' \<in> set (vw_hidden v)"
      by (simp_all add: Cons.prems(1,2))
    assume "bp_ID b' \<in> fst ` set (wanted_loop self v own t bs)"
    then have "bp_ID b' \<in> fst ` set (wanted_loop self v own taken (b # bs))" using that by blast
    then show "mirror_path v' b' = mirror_path v b'" using b' by (intro Cons.prems(3)) simp_all
  qed
  show ?case
  proof (cases "\<not> mirrorable b self v \<or> place b \<in> set own \<or> place b \<in> set taken")
    case True
    then have "wanted_loop self v' own taken bs = wanted_loop self v own taken bs" by (intro IH) auto
    then show ?thesis using True Cons.prems(1)[of b] by (simp add: Let_def)
  next
    case False
    then have *: "wanted_loop self v' own (place b # taken) bs = wanted_loop self v own (place b # taken) bs"
      by (intro IH) (auto simp: Let_def)
    show ?thesis
    proof (cases "bp_ID b \<in> set (vw_hidden v)")
      case True
      then show ?thesis using False * Cons.prems(1)[of b] Cons.prems(2)[of b] by (simp add: Let_def)
    next
      case hid: False
      then have "mirror_path v' b = mirror_path v b" using False by (intro Cons.prems(3)) (auto simp: Let_def)
      then show ?thesis using hid False * Cons.prems(1)[of b] Cons.prems(2)[of b] by (simp add: Let_def)
    qed
  qed
qed simp

lemma own_lines_cong:
  "(\<And>b. b \<in> set bps \<Longrightarrow> map_of (vw_reported v') (bp_ID b) = None \<longleftrightarrow> map_of (vw_reported v) (bp_ID b) = None)
    \<Longrightarrow> own_lines bps v' = own_lines bps v"
  unfolding own_lines_def by (intro arg_cong[where f = concat] map_cong) auto

lemma mirrorable_cong:
  "(map_of (vw_reported v') (bp_ID b) = None \<longleftrightarrow> map_of (vw_reported v) (bp_ID b) = None) \<Longrightarrow> mirrorable b self v' = mirrorable b self v"
  by (simp add: mirrorable_def)

lemma by_id_in: "b \<in> set bps \<Longrightarrow> by_id bps (bp_ID b) \<noteq> None"
  by (auto simp: find_None_iff)

lemma by_id_the: "distinct (map bp_ID bps) \<Longrightarrow> b \<in> set bps \<Longrightarrow> by_id bps (bp_ID b) = Some b"
  by (induction bps) auto

lemma find_holds: "find P xs = Some x \<Longrightarrow> P x \<and> x \<in> set xs"
  by (auto simp: find_Some_iff)

lemma by_id_ID: "by_id bps i = Some b \<Longrightarrow> bp_ID b = i \<and> b \<in> set bps"
  by (auto simp: find_Some_iff)

definition first_there :: "string \<Rightarrow> view \<Rightarrow> api_breakpoint list \<Rightarrow> api_breakpoint \<Rightarrow> bool" where
  "first_there self v bs b \<longleftrightarrow> list_all (\<lambda>c. mirrorable c self v \<and> place c = place b \<longrightarrow> bp_ID b \<le> bp_ID c) bs"

lemma wanted_loop_iff:
  assumes "sorted_wrt (<) (map bp_ID bs)"
  shows "(i, w) \<in> set (wanted_loop self v own taken bs) \<longleftrightarrow>
    (\<exists>b \<in> set bs. bp_ID b = i \<and> w = mirrorBreakpoint b self (mirror_path v b) \<and> mirrorable b self v \<and> i \<notin> set (vw_hidden v)
      \<and> place b \<notin> set own \<and> place b \<notin> set taken \<and> first_there self v bs b)"
  using assms
proof (induction bs arbitrary: taken)
  case (Cons b bs)
  then have later: "\<forall>c \<in> set bs. bp_ID b < bp_ID c" and sorted: "sorted_wrt (<) (map bp_ID bs)" by simp_all
  note IH = Cons.IH[OF sorted]
  show ?case
  proof (cases "\<not> mirrorable b self v \<or> place b \<in> set own \<or> place b \<in> set taken")
    case True
    then have "wanted_loop self v own taken (b # bs) = wanted_loop self v own taken bs" by (simp add: Let_def)
    moreover have "first_there self v (b # bs) c \<longleftrightarrow> first_there self v bs c" if "place c \<notin> set own" "place c \<notin> set taken" for c
      using True that by (auto simp: first_there_def)
    ultimately show ?thesis using True IH[of taken] by auto
  next
    case False
    have "first_there self v (b # bs) b" using later by (auto simp: first_there_def list_all_iff)
    moreover have "first_there self v (b # bs) c \<longleftrightarrow> first_there self v bs c \<and> place c \<noteq> place b" if "c \<in> set bs" for c
      using False later that by (auto simp: first_there_def)
    ultimately show ?thesis using False IH[of "place b # taken"] by (auto simp: Let_def)
  qed
qed (simp add: first_there_def)

section \<open>Reconciling brings the editor up to date\<close>

text \<open>What the editor is to show: what was reported as it is now, and the wanted mirrors.\<close>

definition due :: "view \<Rightarrow> string \<Rightarrow> api_breakpoint list \<Rightarrow> editor" where
  "due v self bps i =
    (if map_of (vw_reported v) i \<noteq> None then map_option dapBreakpoint (by_id bps i) else map_of (wanted self bps v) i)"

definition settled :: "view \<Rightarrow> string \<Rightarrow> api_breakpoint list \<Rightarrow> bool" where
  "settled v self bps \<longleftrightarrow>
    (\<forall>(i, b) \<in> set (vw_reported v). map_option dapBreakpoint (by_id bps i) = Some b)
    \<and> (\<forall>(i, m) \<in> set (vw_mirrors v). map_of (wanted self bps v) i = Some (mi_told m))
    \<and> (\<forall>(i, w) \<in> set (wanted self bps v). map_of (vw_mirrors v) i \<noteq> None)
    \<and> (\<forall>i \<in> set (vw_hidden v). by_id bps i \<noteq> None)"

lemma reconcile_settled:
  assumes "settled v self bps"
  shows "reconcile v self bps = (v, [])"
proof -
  have "fold (reported_step bps) xs s = s" if "\<forall>(i, b) \<in> set xs. map_option dapBreakpoint (by_id bps i) = Some b" for xs s
    using that by (induction xs) (auto, cases s, auto)
  then have 1: "reconcileReported bps v = (v, [], [])" using assms by (simp add: reconcileReported_def settled_def)
  have "fold (mirror_step want) xs s = s" if "\<forall>(i, m) \<in> set xs. map_of want i = Some (mi_told m)" for xs s want
    using that by (induction xs) (auto, cases s, auto simp: sameBreakpoint_def)
  then have 2: "fold (mirror_step (wanted self bps v)) (vw_mirrors v) s = s" for s using assms by (simp add: settled_def)
  have "fold (announce_step bps) xs (v, []) = (v, [])" if "\<forall>(i, w) \<in> set xs. map_of (vw_mirrors v) i \<noteq> None" for xs
    using that by (induction xs) auto
  then have 3: "fold (announce_step bps) (wanted self bps v) (v, []) = (v, [])" using assms by (simp add: settled_def)
  have "filter (\<lambda>i. by_id bps i \<noteq> None) (vw_hidden v) = vw_hidden v" using assms by (simp add: settled_def filter_id_conv)
  then show ?thesis by (simp add: reconcile_def 1 2 3 event_group_def)
qed

lemma sameBreakpoint_eq: "sh_Path a \<noteq> None \<Longrightarrow> sh_Path b \<noteq> None \<Longrightarrow> sameBreakpoint a b \<longleftrightarrow> a = b"
  by (cases a; cases b) (auto simp: sameBreakpoint_def)

text \<open>The changes a loop collects, at most one per entry.\<close>

lemma find_append: "find P (xs @ ys) = (case find P xs of Some x \<Rightarrow> Some x | None \<Rightarrow> find P ys)"
  by (induction xs) auto

lemma changes_of:
  assumes "distinct (map fst xs)" "\<And>p y. p \<in> set xs \<Longrightarrow> y \<in> set (f p) \<Longrightarrow> sh_Id y = fst p" "\<And>p. length (f p) \<le> 1"
  shows "distinct (map sh_Id (concat (map f xs))) \<and> sh_Id ` set (concat (map f xs)) \<subseteq> fst ` set xs
    \<and> find (\<lambda>b. sh_Id b = i) (concat (map f xs)) = Option.bind (map_of xs i) (\<lambda>x. case f (i, x) of [] \<Rightarrow> None | y # _ \<Rightarrow> Some y)"
  using assms(1,2)
proof (induction xs)
  case (Cons p xs)
  have IH: "distinct (map sh_Id (concat (map f xs)))" "sh_Id ` set (concat (map f xs)) \<subseteq> fst ` set xs"
    "find (\<lambda>b. sh_Id b = i) (concat (map f xs)) = Option.bind (map_of xs i) (\<lambda>x. case f (i, x) of [] \<Rightarrow> None | y # _ \<Rightarrow> Some y)"
    using Cons by simp_all
  have none: "map_of xs (fst p) = None" using Cons.prems(1) by (simp add: map_of_eq_None_iff)
  show ?case
  proof (cases "f p")
    case Nil
    then show ?thesis using IH none by (cases p) auto
  next
    case (Cons y ys)
    then have "ys = []" using assms(3)[of p] by simp
    moreover have "sh_Id y = fst p" using Cons Cons.prems(2)[of p y] by simp
    moreover have "sh_Id y \<notin> sh_Id ` set (concat (map f xs))" using calculation IH(2) Cons.prems(1) by auto
    ultimately show ?thesis using IH none Cons by (cases p) (auto simp: find_append)
  qed
qed simp

lemma reported_change_id: "y \<in> set (reported_change bps p) \<Longrightarrow> sh_Id y = fst p" "length (reported_change bps p) \<le> 1"
  by (cases "by_id bps (fst p)"; auto simp: reported_change_def dest: by_id_ID split: if_splits)+

lemma mirror_change_in: "y \<in> set (mirror_change want p) \<Longrightarrow> map_of want (fst p) = Some y" "length (mirror_change want p) \<le> 1"
  by (auto simp: mirror_change_def split: option.splits if_splits)

lemma removed_ids: "sh_Id ` set (map removed_shown (filter P xs)) = {i \<in> set xs. P i}"
  by (auto simp: image_image)

lemma key_iff: "k \<in> set (map fst xs) \<longleftrightarrow> map_of xs k \<noteq> None"
  by (simp add: map_of_eq_None_iff)

lemma map_snd_filter: "map snd (filter P xs) = concat (map (\<lambda>p. if P p then [snd p] else []) xs)"
  by (induction xs) auto

lemma wanted_facts:
  assumes "distinct (map bp_ID bps)" "map_of (wanted self bps v) i = Some w"
  shows "\<exists>b. by_id bps i = Some b \<and> bp_ID b = i \<and> w = mirrorBreakpoint b self (mirror_path v b) \<and> map_of (vw_reported v) i = None"
  using wanted_sound[OF map_of_SomeD[OF assms(2), unfolded wanted_def]] by_id_the[OF assms(1)] by (auto simp: mirrorable_def)

lemma wanted_id:
  assumes "distinct (map bp_ID bps)" "map_of (wanted self bps v) i = Some w"
  shows "sh_Id w = i \<and> sh_Path w \<noteq> None"
  using wanted_facts[OF assms] by (auto simp: mirrorBreakpoint_def)

lemma wanted_keys: "distinct (map bp_ID bps) \<Longrightarrow> distinct (map fst (wanted self bps v))"
  unfolding wanted_def by (rule wanted_distinct)

lemma view_okD:
  assumes "view_ok v"
  shows "distinct (map fst (vw_reported v))" "distinct (map fst (vw_mirrors v))"
    "map_of (vw_reported v) i \<noteq> None \<Longrightarrow> map_of (vw_mirrors v) i = None"
    "map_of (vw_mirrors v) i = Some m \<Longrightarrow> sh_Path (mi_told m) \<noteq> None"
  using assms unfolding view_ok_def by metis+

lemma wanted_cong:
  assumes "\<And>b. b \<in> set bps \<Longrightarrow> map_of (vw_reported v') (bp_ID b) = None \<longleftrightarrow> map_of (vw_reported v) (bp_ID b) = None"
    "\<And>b. b \<in> set bps \<Longrightarrow> bp_ID b \<in> set (vw_hidden v') \<longleftrightarrow> bp_ID b \<in> set (vw_hidden v)"
    "\<And>b. b \<in> set bps \<Longrightarrow> bp_ID b \<in> fst ` set (wanted self bps v) \<Longrightarrow> mirror_path v' b = mirror_path v b"
  shows "wanted self bps v' = wanted self bps v"
proof -
  have own: "own_lines bps v' = own_lines bps v" by (rule own_lines_cong) (rule assms(1))
  show ?thesis using assms(3) unfolding wanted_def own
    by (intro wanted_loop_cong) (auto intro!: mirrorable_cong assms(1,2))
qed

text \<open>The three loops together: the view after them, and the events.\<close>

definition reported_after :: "api_breakpoint list \<Rightarrow> view \<Rightarrow> view \<Rightarrow> bool" where
  "reported_after bps v v' \<longleftrightarrow>
    (\<forall>i. map_of (vw_reported v') i = (if map_of (vw_reported v) i = None then None else map_option dapBreakpoint (by_id bps i)))"

definition mirrors_after :: "(int \<times> shown) list \<Rightarrow> api_breakpoint list \<Rightarrow> view \<Rightarrow> view \<Rightarrow> bool" where
  "mirrors_after want bps v v' \<longleftrightarrow>
    (\<forall>i. case map_of want i of None \<Rightarrow> map_of (vw_mirrors v') i = None
     | Some w \<Rightarrow> \<exists>m. map_of (vw_mirrors v') i = Some m \<and> mi_told m = w \<and> (\<forall>b. by_id bps i = Some b \<longrightarrow> mi_path m = mirror_path v b))"

lemma mirror_afterI:
  assumes ok: "view_ok v" and ids: "distinct (map bp_ID bps)"
    and M: "m2 = Option.bind (map_of (vw_mirrors v) i) (mirror_now (wanted self bps v) i)"
    and A: "m3 = (case m2 of Some m \<Rightarrow> Some m | None \<Rightarrow> map_option (announced bps i) (map_of (wanted self bps v) i))"
  shows "(case map_of (wanted self bps v) i of None \<Rightarrow> m3 = None
     | Some w \<Rightarrow> \<exists>m. m3 = Some m \<and> mi_told m = w \<and> (\<forall>b. by_id bps i = Some b \<longrightarrow> mi_path m = mirror_path v b))"
proof (cases "map_of (wanted self bps v) i")
  case None
  then show ?thesis using M A by (cases "map_of (vw_mirrors v) i") (simp_all add: mirror_now_def)
next
  case (Some w)
  obtain b where b: "by_id bps i = Some b" "bp_ID b = i" "w = mirrorBreakpoint b self (mirror_path v b)" using wanted_facts[OF ids Some] by blast
  then have p: "sh_Path w = Some (mirror_path v b)" by (simp add: mirrorBreakpoint_def)
  show ?thesis
  proof (cases "map_of (vw_mirrors v) i")
    case None
    then show ?thesis using Some b(1) p M A by (simp add: announced_def)
  next
    case m: (Some m)
    have "sameBreakpoint w (mi_told m) \<longleftrightarrow> w = mi_told m" using p view_okD(4)[OF ok m] by (intro sameBreakpoint_eq) simp_all
    moreover have "mirror_path v b = mi_path m" using m b(2) by (simp add: mirror_path_def)
    ultimately show ?thesis using m Some b(1) M A by (auto simp: mirror_now_def)
  qed
qed

lemma reconcile_loops:
  assumes ok: "view_ok v" and ids: "distinct (map bp_ID bps)" and r: "reconcile v self bps = (v', evs)"
  defines "want \<equiv> wanted self bps v"
  shows "reported_after bps v v' \<and> mirrors_after want bps v v' \<and> vw_hidden v' = filter (\<lambda>i. by_id bps i \<noteq> None) (vw_hidden v)
    \<and> distinct (map fst (vw_reported v')) \<and> distinct (map fst (vw_mirrors v'))
    \<and> evs = event_group actionRemoved (map removed_shown (filter (\<lambda>i. by_id bps i = None) (map fst (vw_reported v)))
              @ map removed_shown (filter (\<lambda>i. map_of want i = None) (map fst (vw_mirrors v))))
          @ event_group actionChanged (concat (map (reported_change bps) (vw_reported v)) @ concat (map (mirror_change want) (vw_mirrors v)))
          @ event_group actionNew (map snd (filter (\<lambda>(i, w). map_of (vw_mirrors v) i = None) want))"
proof -
  obtain v1 rem1 chg1 where 1: "fold (reported_step bps) (vw_reported v) (v, [], []) = (v1, rem1, chg1)" by (metis prod_cases3)
  obtain v2 rem chg where 2: "fold (mirror_step (wanted self bps v1)) (vw_mirrors v1) (v1, rem1, chg1) = (v2, rem, chg)" by (metis prod_cases3)
  obtain v3 new where 3: "fold (announce_step bps) (wanted self bps v1) (v2, []) = (v3, new)" by fastforce
  have v': "v' = v3\<lparr>vw_hidden := filter (\<lambda>i. by_id bps i \<noteq> None) (vw_hidden v3)\<rparr>"
    and evs: "evs = event_group actionRemoved rem @ event_group actionChanged chg @ event_group actionNew new"
    using r 1 2 3 by (auto simp: reconcile_def reconcileReported_def)
  let ?rep = "map_of (vw_reported v)" and ?mir = "map_of (vw_mirrors v)"
  note dr = view_okD(1)[OF ok] and dm = view_okD(2)[OF ok]
  have entries: "\<forall>(i, b) \<in> set (vw_reported v). ?rep i = Some b" "\<forall>(i, m) \<in> set (vw_mirrors v). ?mir i = Some m"
    using dr dm by simp_all
  have R: "beside_reported v1 = beside_reported v" "distinct (map fst (vw_reported v1))"
      "\<And>i. map_of (vw_reported v1) i = (if ?rep i = None then ?rep i else map_option dapBreakpoint (by_id bps i))"
      "rem1 = map removed_shown (filter (\<lambda>i. by_id bps i = None) (map fst (vw_reported v)))"
      "chg1 = concat (map (reported_change bps) (vw_reported v))"
    using reported_loop[OF dr entries(1) dr 1] unfolding append_Nil by blast+
  have v1: "vw_mirrors v1 = vw_mirrors v" "vw_hidden v1 = vw_hidden v" "vw_latest v1 = vw_latest v"
    using arg_cong[OF R(1), of vw_mirrors] arg_cong[OF R(1), of vw_hidden] arg_cong[OF R(1), of vw_latest] by (simp_all add: beside_reported_def)
  have rep1: "map_of (vw_reported v1) (bp_ID b) = None \<longleftrightarrow> ?rep (bp_ID b) = None" if "b \<in> set bps" for b
    using R(3)[of "bp_ID b"] by_id_in[OF that] by (cases "?rep (bp_ID b)") simp_all
  have "announcePath k v1 = announcePath k v" for k by (simp add: announcePath_def v1)
  then have path: "mirror_path v1 b = mirror_path v b" for b by (simp add: mirror_path_def v1 split: option.split)
  have want: "wanted self bps v1 = want"
    unfolding want_def by (rule wanted_cong) (simp_all add: rep1 v1 path)
  have wd: "distinct (map fst want)" unfolding want_def by (rule wanted_keys[OF ids])
  have M: "beside_mirrors v2 = beside_mirrors v1" "distinct (map fst (vw_mirrors v2))"
      "\<And>i. map_of (vw_mirrors v2) i = (if ?mir i = None then ?mir i else Option.bind (?mir i) (mirror_now want i))"
      "rem = rem1 @ map removed_shown (filter (\<lambda>i. map_of want i = None) (map fst (vw_mirrors v)))"
      "chg = chg1 @ concat (map (mirror_change want) (vw_mirrors v))"
    using mirror_loop[OF dm[folded v1] entries(2)[folded v1] dm[folded v1] 2] unfolding v1 want by blast+
  have A: "beside_mirrors v3 = beside_mirrors v2" "distinct (map fst (vw_mirrors v3))"
      "\<And>i. map_of (vw_mirrors v3) i = (case map_of (vw_mirrors v2) i of Some m \<Rightarrow> Some m | None \<Rightarrow> map_option (announced bps i) (map_of want i))"
      "new = map snd (filter (\<lambda>(i, w). map_of (vw_mirrors v2) i = None) want)"
    using announce_loop[OF wd M(2) 3[unfolded want]] unfolding append_Nil by blast+
  have v3: "vw_reported v3 = vw_reported v1" "vw_hidden v3 = vw_hidden v"
    using arg_cong[OF A(1), of vw_reported] arg_cong[OF M(1), of vw_reported] arg_cong[OF A(1), of vw_hidden] arg_cong[OF M(1), of vw_hidden] v1
    by (simp_all add: beside_mirrors_def)
  have M': "map_of (vw_mirrors v2) i = Option.bind (?mir i) (mirror_now want i)" for i using M(3)[of i] by simp
  have "mirrors_after want bps v v'"
    unfolding mirrors_after_def
  proof
    have "map_of (vw_mirrors v') i = map_of (vw_mirrors v3) i" for i by (simp add: v')
    then show "case map_of want i of None \<Rightarrow> map_of (vw_mirrors v') i = None
      | Some w \<Rightarrow> \<exists>m. map_of (vw_mirrors v') i = Some m \<and> mi_told m = w \<and> (\<forall>b. by_id bps i = Some b \<longrightarrow> mi_path m = mirror_path v b)" for i
      using mirror_afterI[OF ok ids M'[unfolded want_def] A(3)[unfolded want_def]] by (simp only: want_def)
  qed
  moreover have "reported_after bps v v'" using R(3) by (simp add: reported_after_def v' v3)
  moreover have "filter (\<lambda>(i, w). map_of (vw_mirrors v2) i = None) want = filter (\<lambda>(i, w). ?mir i = None) want"
    using map_of_is_SomeI[OF wd] by (intro filter_cong) (auto simp: M' mirror_now_def split: bind_splits)
  ultimately show ?thesis using R(2) A(2) by (simp add: v' v3 evs M(4,5) A(4) R(4,5))
qed

lemma reconcile_view:
  assumes ok: "view_ok v" and ids: "distinct (map bp_ID bps)" and r: "reconcile v self bps = (v', evs)"
  shows "told v' = due v self bps \<and> view_ok v' \<and> settled v' self bps"
proof -
  let ?rep = "map_of (vw_reported v)" and ?w = "map_of (wanted self bps v)"
  note loops = reconcile_loops[OF ok ids r]
  have rep': "map_of (vw_reported v') i = (if ?rep i = None then None else map_option dapBreakpoint (by_id bps i))" for i
    using loops by (simp add: reported_after_def)
  have mir': "case ?w i of None \<Rightarrow> map_of (vw_mirrors v') i = None
     | Some w \<Rightarrow> \<exists>m. map_of (vw_mirrors v') i = Some m \<and> mi_told m = w \<and> (\<forall>b. by_id bps i = Some b \<longrightarrow> mi_path m = mirror_path v b)" for i
    using loops by (simp add: mirrors_after_def)
  have hid': "vw_hidden v' = filter (\<lambda>i. by_id bps i \<noteq> None) (vw_hidden v)"
    and dist': "distinct (map fst (vw_reported v'))" "distinct (map fst (vw_mirrors v'))" using loops by simp_all
  have disj2: "?w i = None" if "?rep i \<noteq> None" for i using wanted_facts[OF ids, of self v i] that by (cases "?w i") auto
  have mirN: "map_of (vw_mirrors v') i = None \<longleftrightarrow> ?w i = None" for i using mir'[of i] by (auto split: option.splits)
  have toldm: "map_option mi_told (map_of (vw_mirrors v') i) = ?w i" for i using mir'[of i] by (auto split: option.splits)
  have told': "told v' i = due v self bps i" for i
    using toldm[of i] disj2[of i] by (cases "?rep i"; cases "by_id bps i") (auto simp: told_def due_def rep' split: option.splits)
  have ok2: "view_ok v'"
  proof -
    have "map_of (vw_reported v') i = None \<or> map_of (vw_mirrors v') i = None" for i
      using disj2[of i] mirN[of i] rep'[of i] by (cases "?rep i") simp_all
    moreover have "sh_Id b = i" if "map_of (vw_reported v') i = Some b" for i b
      using that by (auto simp: rep' find_Some_iff split: if_splits)
    moreover have "sh_Id (mi_told m) = i \<and> sh_Path (mi_told m) \<noteq> None" if "map_of (vw_mirrors v') i = Some m" for i m
    proof -
      have "?w i = Some (mi_told m)" using toldm[of i] that by simp
      then show ?thesis by (rule wanted_id[OF ids])
    qed
    ultimately show ?thesis using dist' unfolding view_ok_def by blast
  qed
  have rep2: "map_of (vw_reported v') (bp_ID b) = None \<longleftrightarrow> ?rep (bp_ID b) = None" if "b \<in> set bps" for b
    using rep'[of "bp_ID b"] by_id_in[OF that] by (cases "?rep (bp_ID b)") simp_all
  have path': "mirror_path v' b = mirror_path v b" if "b \<in> set bps" "bp_ID b \<in> fst ` set (wanted self bps v)" for b
  proof -
    have "?w (bp_ID b) \<noteq> None" using that(2) by (simp add: map_of_eq_None_iff)
    then show ?thesis using mir'[of "bp_ID b"] by_id_the[OF ids that(1)] by (auto simp: mirror_path_def split: option.splits)
  qed
  have want': "wanted self bps v' = wanted self bps v"
    by (rule wanted_cong) (auto intro!: rep2 path' simp: hid' dest: by_id_in)
  have set': "settled v' self bps"
  proof -
    have "map_option dapBreakpoint (by_id bps i) = Some b" if "(i, b) \<in> set (vw_reported v')" for i b
      using map_of_is_SomeI[OF dist'(1) that] by (simp add: rep' split: if_splits)
    moreover have "?w i = Some (mi_told m)" if "(i, m) \<in> set (vw_mirrors v')" for i m
      using map_of_is_SomeI[OF dist'(2) that] toldm[of i] by simp
    moreover have "map_of (vw_mirrors v') i \<noteq> None" if "(i, w) \<in> set (wanted self bps v)" for i w
      using map_of_is_SomeI[OF wanted_keys[OF ids] that] mirN[of i] by simp
    ultimately show ?thesis unfolding settled_def want' by (auto simp: hid')
  qed
  show ?thesis using told' ok2 set' by (auto simp: fun_eq_iff)
qed

lemma reconcile_events:
  assumes ok: "view_ok v" and ids: "distinct (map bp_ID bps)" and r: "reconcile v self bps = (v', evs)"
  shows "foldl receive (told v) evs i = due v self bps i"
proof -
  let ?rep = "map_of (vw_reported v)" and ?mir = "map_of (vw_mirrors v)" and ?want = "wanted self bps v"
  let ?w = "map_of ?want" and ?rc = "concat (map (reported_change bps) (vw_reported v))" and ?mc = "concat (map (mirror_change ?want) (vw_mirrors v))"
  let ?rem = "map removed_shown (filter (\<lambda>i. by_id bps i = None) (map fst (vw_reported v)))
              @ map removed_shown (filter (\<lambda>i. ?w i = None) (map fst (vw_mirrors v)))"
  let ?f = "\<lambda>p. if (case p of (i, w) \<Rightarrow> ?mir i = None) then [snd p] else []"
  let ?new = "map snd (filter (\<lambda>(i, w). ?mir i = None) ?want)"
  note wd = wanted_keys[OF ids] and wid = wanted_id[OF ids] and dr = view_okD(1)[OF ok] and dm = view_okD(2)[OF ok] and disj = view_okD(3)[OF ok]
  have evs: "evs = event_group actionRemoved ?rem @ event_group actionChanged (?rc @ ?mc) @ event_group actionNew ?new"
    using reconcile_loops[OF ok ids r] by blast
  have rem: "j \<in> sh_Id ` set ?rem \<longleftrightarrow> ?rep j \<noteq> None \<and> by_id bps j = None \<or> ?mir j \<noteq> None \<and> ?w j = None" for j
    unfolding set_append image_Un removed_ids Un_iff mem_Collect_eq key_iff by blast
  have rc: "distinct (map sh_Id ?rc) \<and> sh_Id ` set ?rc \<subseteq> fst ` set (vw_reported v)
      \<and> find (\<lambda>b. sh_Id b = i) ?rc = Option.bind (?rep i) (\<lambda>x. case reported_change bps (i, x) of [] \<Rightarrow> None | y # _ \<Rightarrow> Some y)"
    by (rule changes_of[OF dr reported_change_id])
  have mc: "distinct (map sh_Id ?mc) \<and> sh_Id ` set ?mc \<subseteq> fst ` set (vw_mirrors v)
      \<and> find (\<lambda>b. sh_Id b = i) ?mc = Option.bind (?mir i) (\<lambda>x. case mirror_change ?want (i, x) of [] \<Rightarrow> None | y # _ \<Rightarrow> Some y)"
    by (rule changes_of[OF dm _ mirror_change_in(2)]) (use wid in \<open>auto dest!: mirror_change_in(1)\<close>)
  have "fst ` set (vw_reported v) \<inter> fst ` set (vw_mirrors v) = {}"
    using disj key_iff[of _ "vw_reported v"] key_iff[of _ "vw_mirrors v"] unfolding set_map by blast
  then have dc: "distinct (map sh_Id (?rc @ ?mc))" using rc mc unfolding map_append distinct_append set_map by blast
  have nc: "distinct (map sh_Id ?new) \<and> sh_Id ` set ?new \<subseteq> fst ` set ?want
      \<and> find (\<lambda>b. sh_Id b = i) ?new = Option.bind (?w i) (\<lambda>x. case ?f (i, x) of [] \<Rightarrow> None | y # _ \<Rightarrow> Some y)"
    unfolding map_snd_filter
    by (rule changes_of[OF wd]) (use wid[OF map_of_is_SomeI[OF wd]] in \<open>auto split: if_splits\<close>)
  have events: "foldl receive (told v) evs i
    = (case find (\<lambda>b. sh_Id b = i) ?new of Some b \<Rightarrow> Some b | None \<Rightarrow>
       (case find (\<lambda>b. sh_Id b = i) (?rc @ ?mc) of Some b \<Rightarrow> Some b | None \<Rightarrow> if i \<in> sh_Id ` set ?rem then None else told v i))"
    by (simp only: evs foldl_append receive_set[OF reasons(2) conjunct1[OF nc]] receive_set[OF reasons(1) dc] receive_removed)
  show ?thesis
  proof (cases "?rep i")
    case (Some r)
    moreover have "?w i = None" using wanted_facts[OF ids, of self v i] Some by (cases "?w i") auto
    ultimately show ?thesis using events rc mc nc rem[of i] disj[of i]
      by (cases "by_id bps i") (simp_all add: find_append reported_change_def due_def told_def)
  next
    case None
    then have chg: "find (\<lambda>b. sh_Id b = i) (?rc @ ?mc) = find (\<lambda>b. sh_Id b = i) ?mc" using rc by (simp add: find_append)
    consider "?mir i = None" | m where "?mir i = Some m" "?w i = None" | m w where "?mir i = Some m" "?w i = Some w"
      by (cases "?mir i"; cases "?w i") auto
    then show ?thesis
    proof cases
      case 1
      then show ?thesis using events mc nc rem[of i] None chg by (cases "?w i") (simp_all add: due_def told_def)
    next
      case (2 m)
      then show ?thesis using events mc nc rem[of i] None chg by (simp add: due_def mirror_change_def)
    next
      case (3 m w)
      then have "sameBreakpoint w (mi_told m) \<longleftrightarrow> w = mi_told m" using wid view_okD(4)[OF ok] by (intro sameBreakpoint_eq) auto
      then show ?thesis using events mc nc rem[of i] None chg 3
        by (auto simp: due_def mirror_change_def told_def)
    qed
  qed
qed

text \<open>
  C25: from a view in order (\<open>view_ok\<close>: among others no id is both reported and a mirror; a new
  view is, a reconcile keeps it so, but a setBreakpoints under a file's other path can break
  it, see \<open>reported_mirror_is_removed\<close> in \<open>Editor\<close>), an editor that applies the events of a
  reconcile shows exactly what the connection says it told: what it reported, as it is now,
  and the wanted mirrors, and nothing else. The view stays in order, and a second reconcile
  has nothing to say.
\<close>

theorem reconcile_updates_editor:
  assumes "view_ok v" "distinct (map bp_ID bps)" "reconcile v self bps = (v', evs)"
  shows "foldl receive (told v) evs = told v' \<and> told v' = due v self bps \<and> view_ok v' \<and> reconcile v' self bps = (v', [])"
  using reconcile_view[OF assms] reconcile_events[OF assms] reconcile_settled[of v' self bps] by (auto simp: fun_eq_iff)

definition demo_bp :: "int \<Rightarrow> int \<Rightarrow> api_breakpoint" where
  "demo_bp i l = \<lparr>bp_ID = i, bp_File = ''/a.cs'', bp_RequestedLine = l, bp_Line = l, bp_Verified = True, bp_Message = [],
    bp_Condition = [], bp_Temporary = False, bp_Owner = ''agent:x'', bp_CreatedAt = 0, bp_Note = [], bp_Function = [], bp_Anchor = [],
    bp_HitCondition = [], bp_LogMessage = [], bp_Hits = 0, bp_Editor = False\<rparr>"

theorem reconcile_updates_editor_witness:
  "told (fst (reconcile newView ''human:h'' [demo_bp 1 5, demo_bp 2 5, demo_bp 3 9])) 3
    = Some (mirrorBreakpoint (demo_bp 3 9) ''human:h'' ''/a.cs'')"
proof -
  let ?bps = "[demo_bp 1 5, demo_bp 2 5, demo_bp 3 9]"
  have "view_ok newView" by (simp add: view_ok_def newView_def)
  moreover have "distinct (map bp_ID ?bps)" by (simp add: demo_bp_def)
  moreover have "reconcile newView ''human:h'' ?bps = (fst (reconcile newView ''human:h'' ?bps), snd (reconcile newView ''human:h'' ?bps))" by simp
  ultimately have "told (fst (reconcile newView ''human:h'' ?bps)) = due newView ''human:h'' ?bps"
    by (rule reconcile_updates_editor[THEN conjunct2, THEN conjunct1])
  then show ?thesis
    by (simp add: due_def wanted_def own_lines_def newView_def demo_bp_def mirrorable_def mirror_path_def announcePath_def)
qed

text \<open>
  A breakpoint is mirrored exactly if it may be (a permanent line breakpoint that the
  connection did not report and that is no editor breakpoint of its client), the editor has
  not hidden it, the connection has none of its own at its line, and it is the first of
  those there.
\<close>

theorem mirrors_wanted_iff:
  assumes "sorted_wrt (<) (map bp_ID bps)"
  shows "map_of (wanted self bps v) i = Some w \<longleftrightarrow>
    (\<exists>b \<in> set bps. bp_ID b = i \<and> w = mirrorBreakpoint b self (mirror_path v b) \<and> mirrorable b self v \<and> i \<notin> set (vw_hidden v)
      \<and> place b \<notin> set (own_lines bps v) \<and> first_there self v bps b)"
proof -
  have "distinct (map bp_ID bps)" using assms by (simp add: strict_sorted_iff)
  then have "map_of (wanted self bps v) i = Some w \<longleftrightarrow> (i, w) \<in> set (wanted self bps v)" by (simp add: wanted_keys)
  then show ?thesis unfolding wanted_def by (simp add: wanted_loop_iff[OF assms])
qed

theorem mirrors_wanted_iff_witness:
  "map_of (wanted ''human:h'' [demo_bp 1 5, demo_bp 2 5, demo_bp 3 9] newView) 3 = Some (mirrorBreakpoint (demo_bp 3 9) ''human:h'' ''/a.cs'')"
proof -
  have "sorted_wrt (<) (map bp_ID [demo_bp 1 5, demo_bp 2 5, demo_bp 3 9])" by (simp add: demo_bp_def)
  from mirrors_wanted_iff[OF this, of "''human:h''" newView 3 "mirrorBreakpoint (demo_bp 3 9) ''human:h'' ''/a.cs''"] show ?thesis
    by (simp add: own_lines_def newView_def demo_bp_def mirrorable_def mirror_path_def announcePath_def first_there_def)
qed

end
