(* ===== verification/Echoes.thy ===== *)
theory Echoes
  imports Mirrors
begin

text \<open>
  The entries of an editor's setBreakpoints (\<^verbatim>\<open>classify\<close>, \<^verbatim>\<open>settle\<close> and what they use in
  \<^verbatim>\<open>internal/facade/mirrors.go\<close>): which are the editor's copies of mirrors, which are copies
  of breakpoints that are gone, and which are the client's own.
\<close>

section \<open>Entries\<close>

text \<open>A \<^verbatim>\<open>godap.SourceBreakpoint\<close>.\<close>

record source_entry =
  en_Line :: int
  en_Column :: int
  en_Condition :: string
  en_HitCondition :: string
  en_LogMessage :: string

datatype entry_class = EntryOwn | EntryEcho int shown | EntryRetract | EntryDuplicate

definition plain :: "source_entry \<Rightarrow> bool" where
  "plain e = (en_Condition e = [] \<and> en_HitCondition e = [] \<and> en_LogMessage e = [])"

definition marked :: "source_entry \<Rightarrow> bool" where
  "marked e = (plain e \<and> en_Column e = markColumn)"

section \<open>The index of a file\<close>

text \<open>
  \<^verbatim>\<open>fileIndex\<close>: the view's mirrors of the file (\<open>shown\<close>) and those of them under the request's
  path (\<open>here\<close>) by announced line, lowest id first and 0 for none, and the file's breakpoints.
\<close>

record file_index =
  fx_path :: string
  fx_self :: string
  fx_view :: view
  fx_shown :: "int \<Rightarrow> int"
  fx_here :: "int \<Rightarrow> int"
  fx_bps :: "api_breakpoint list"

fun lowest :: "int list \<Rightarrow> int" where
  "lowest [] = 0"
| "lowest (i # is) = fold min is i"

definition indexFile :: "string \<Rightarrow> string \<Rightarrow> view \<Rightarrow> api_breakpoint list \<Rightarrow> string \<Rightarrow> file_index" where
  "indexFile key path v bps self =
    \<lparr>fx_path = path, fx_self = self, fx_view = v,
     fx_shown = (\<lambda>l. lowest (map fst (filter (\<lambda>(i, m). mi_key m = key \<and> mi_line m = l) (vw_mirrors v)))),
     fx_here = (\<lambda>l. lowest (map fst (filter (\<lambda>(i, m). mi_key m = key \<and> mi_line m = l \<and> mi_path m = path) (vw_mirrors v)))),
     fx_bps = filter (\<lambda>b. bp_File b = key) bps\<rparr>"

text \<open>\<^verbatim>\<open>candidate\<close>: the breakpoint a copy at line \<open>l\<close> stands for; \<open>used\<close> are the ids echoed already.\<close>

definition candidate :: "file_index \<Rightarrow> int list \<Rightarrow> int \<Rightarrow> shown option" where
  "candidate f used l =
    (let best = (case find (\<lambda>i. i \<noteq> 0 \<and> by_id (fx_bps f) i \<noteq> None \<and> i \<notin> set used) [fx_here f l, fx_shown f l] of
         Some i \<Rightarrow> by_id (fx_bps f) i
       | None \<Rightarrow> find (\<lambda>b. (bp_Line b = l \<or> bp_RequestedLine b = l) \<and> mirrorable b (fx_self f) (fx_view f) \<and> bp_ID b \<notin> set used) (fx_bps f))
     in map_option (\<lambda>b. mirrorBreakpoint b (fx_self f) (fx_path f)) best)"

definition echoOf :: "shown option \<Rightarrow> mirror option \<Rightarrow> int list \<Rightarrow> entry_class \<times> int list" where
  "echoOf b fallback used =
    (case b of
       Some b \<Rightarrow> (EntryEcho (sh_Id b) b, sh_Id b # used)
     | None \<Rightarrow> (case fallback of
         Some m \<Rightarrow> if sh_Id (mi_told m) \<notin> set used then (EntryEcho (sh_Id (mi_told m)) (mi_told m), sh_Id (mi_told m) # used)
                   else (EntryRetract, used)
       | None \<Rightarrow> (EntryRetract, used)))"

section \<open>Classifying\<close>

definition set_all :: "nat list \<Rightarrow> entry_class \<Rightarrow> entry_class list \<Rightarrow> entry_class list" where
  "set_all idx c classes = fold (\<lambda>i cs. cs[i := c]) idx classes"

text \<open>The positions of a line's entries, and the lines in the order in which they come first.\<close>

definition entries_at :: "source_entry list \<Rightarrow> int \<Rightarrow> nat list" where
  "entries_at entries l = filter (\<lambda>i. en_Line (entries ! i) = l) [0..<length entries]"

definition lines_of :: "source_entry list \<Rightarrow> int list" where
  "lines_of entries = rev (remdups (rev (map en_Line entries)))"

definition classifyLine :: "file_index \<Rightarrow> source_entry list \<Rightarrow> int \<Rightarrow> entry_class list \<times> int list \<Rightarrow> entry_class list \<times> int list" where
  "classifyLine f entries l st =
    (case st of (classes, used) \<Rightarrow>
     let idx = entries_at entries l;
         allMarked = list_all (\<lambda>i. marked (entries ! i)) idx;
         allUnmarked = list_all (\<lambda>i. plain (entries ! i) \<and> \<not> marked (entries ! i)) idx;
         here = fx_here f l
     in if allMarked
        then let (c, used') = echoOf (candidate f used l) None used
             in (set_all (tl idx) EntryRetract (classes[hd idx := c]), used')
        else if allUnmarked \<and> here \<noteq> 0
        then let (c, used') = echoOf (candidate f used l) (map_of (vw_mirrors (fx_view f)) here) used
             in (set_all (tl idx) EntryDuplicate (classes[hd idx := c]), used')
        else (set_all (filter (\<lambda>i. marked (entries ! i)) idx) EntryRetract classes, used))"

definition classify :: "source_entry list \<Rightarrow> string \<Rightarrow> string \<Rightarrow> view \<Rightarrow> api_breakpoint list \<Rightarrow> string \<Rightarrow> entry_class list" where
  "classify entries key path v bps self =
    (let own = replicate (length entries) EntryOwn in
     if key = [] then own
     else fst (fold (classifyLine (indexFile key path v bps self) entries) (lines_of entries) (own, [])))"

section \<open>Settling\<close>

fun settle_entry :: "string \<Rightarrow> string \<Rightarrow> source_entry \<times> entry_class \<Rightarrow> view \<Rightarrow> view" where
  "settle_entry key path (e, EntryEcho i shown) v =
    v\<lparr>vw_mirrors := aput i \<lparr>mi_key = key, mi_path = path, mi_line = en_Line e, mi_told = shown\<rparr> (vw_mirrors v),
      vw_hidden := filter (\<lambda>j. j \<noteq> i) (vw_hidden v)\<rparr>"
| "settle_entry key path _ v = v"

fun echo_id :: "entry_class \<Rightarrow> int option" where
  "echo_id (EntryEcho i shown) = Some i"
| "echo_id _ = None"

text \<open>A mirror of the file under this path that was not echoed leaves the view.\<close>

definition settle_leaves :: "string \<Rightarrow> string \<Rightarrow> entry_class list \<Rightarrow> int \<times> mirror \<Rightarrow> bool" where
  "settle_leaves key path classes p =
    (mi_key (snd p) = key \<and> mi_path (snd p) = path \<and> \<not> list_ex (\<lambda>c. echo_id c = Some (fst p)) classes)"

definition settle_view :: "string \<Rightarrow> string \<Rightarrow> source_entry list \<Rightarrow> entry_class list \<Rightarrow> view \<Rightarrow> view" where
  "settle_view key path entries classes v =
    (if key = [] then v
     else let v1 = fold (settle_entry key path) (zip entries classes) v;
              gone = filter (settle_leaves key path classes) (vw_mirrors v1);
              lines = map en_Line entries
          in v1\<lparr>vw_mirrors := filter (\<lambda>p. \<not> settle_leaves key path classes p) (vw_mirrors v1),
                vw_hidden := vw_hidden v1 @ map fst (filter (\<lambda>(i, m). mi_line m \<notin> set lines) gone)\<rparr>)"

section \<open>What a line's entries become\<close>

lemma set_all_length [simp]: "length (set_all idx c cs) = length cs"
  unfolding set_all_def by (induction idx arbitrary: cs) simp_all

lemma nth_set_all: "i < length cs \<Longrightarrow> set_all idx c cs ! i = (if i \<in> set idx then c else cs ! i)"
proof (induction idx arbitrary: cs)
  case (Cons j idx)
  then have "set_all idx c (cs[j := c]) ! i = (if i \<in> set idx then c else cs[j := c] ! i)" by simp
  then show ?case using Cons.prems by (auto simp: set_all_def nth_list_update)
qed (simp add: set_all_def)

lemma entries_at_set: "i \<in> set (entries_at entries l) \<longleftrightarrow> i < length entries \<and> en_Line (entries ! i) = l"
  by (auto simp: entries_at_def)

lemma entries_at_distinct: "distinct (entries_at entries l)"
  by (simp add: entries_at_def)

text \<open>An echo stands for a breakpoint of the file or for a mirror the connection announced, never for one echoed before.\<close>

definition stands_for :: "file_index \<Rightarrow> int \<Rightarrow> shown \<Rightarrow> bool" where
  "stands_for f i shown \<longleftrightarrow> sh_Id shown = i \<and>
    ((\<exists>b \<in> set (fx_bps f). bp_ID b = i \<and> shown = mirrorBreakpoint b (fx_self f) (fx_path f))
     \<or> (\<exists>m. map_of (vw_mirrors (fx_view f)) i = Some m \<and> shown = mi_told m))"

lemma candidate_spec:
  assumes "candidate f used l = Some shown"
  shows "sh_Id shown \<notin> set used \<and> stands_for f (sh_Id shown) shown"
proof -
  let ?P = "\<lambda>i. i \<noteq> 0 \<and> by_id (fx_bps f) i \<noteq> None \<and> i \<notin> set used"
  obtain b where b: "b \<in> set (fx_bps f)" "bp_ID b \<notin> set used" "shown = mirrorBreakpoint b (fx_self f) (fx_path f)"
  proof (cases "find ?P [fx_here f l, fx_shown f l]")
    case (Some i)
    have i: "by_id (fx_bps f) i \<noteq> None" "i \<notin> set used" using find_holds[OF Some] by simp_all
    then obtain b where b: "by_id (fx_bps f) i = Some b" by blast
    then have "shown = mirrorBreakpoint b (fx_self f) (fx_path f)" using assms Some by (simp add: candidate_def del: find.simps)
    then show ?thesis using that[of b] by_id_ID[OF b] i(2) by simp
  next
    case None
    then obtain b where "find (\<lambda>b. (bp_Line b = l \<or> bp_RequestedLine b = l) \<and> mirrorable b (fx_self f) (fx_view f) \<and> bp_ID b \<notin> set used) (fx_bps f) = Some b"
        "shown = mirrorBreakpoint b (fx_self f) (fx_path f)"
      using assms by (auto simp: candidate_def)
    then show ?thesis using that[of b] find_holds by fastforce
  qed
  then show ?thesis by (auto simp: stands_for_def)
qed

lemma echoOf_spec:
  assumes "echoOf b m used = (c, used')" "\<And>x. b = Some x \<Longrightarrow> sh_Id x \<notin> set used \<and> stands_for f (sh_Id x) x"
    "\<And>x. m = Some x \<Longrightarrow> stands_for f (sh_Id (mi_told x)) (mi_told x)"
  shows "c \<noteq> EntryOwn \<and> set used \<subseteq> set used' \<and> (\<forall>i x. c = EntryEcho i x \<longrightarrow> i \<notin> set used \<and> i \<in> set used' \<and> stands_for f i x)"
  using assms by (auto simp: echoOf_def split: option.splits if_splits)

text \<open>The loop over the lines.\<close>

definition line_unmarked :: "source_entry list \<Rightarrow> int \<Rightarrow> bool" where
  "line_unmarked entries l = list_all (\<lambda>e. en_Line e = l \<longrightarrow> plain e \<and> \<not> marked e) entries"

definition taken_as_own :: "file_index \<Rightarrow> source_entry list \<Rightarrow> nat \<Rightarrow> bool" where
  "taken_as_own f entries i =
    (\<not> marked (entries ! i) \<and> \<not> (line_unmarked entries (en_Line (entries ! i)) \<and> fx_here f (en_Line (entries ! i)) \<noteq> 0))"

definition classes_ok :: "file_index \<Rightarrow> source_entry list \<Rightarrow> int set \<Rightarrow> entry_class list \<times> int list \<Rightarrow> bool" where
  "classes_ok f entries ls st \<longleftrightarrow> (case st of (cs, used) \<Rightarrow> length cs = length entries
    \<and> (\<forall>i < length entries. cs ! i = EntryOwn \<longleftrightarrow> en_Line (entries ! i) \<notin> ls \<or> taken_as_own f entries i)
    \<and> (\<forall>i < length entries. \<forall>k x. cs ! i = EntryEcho k x \<longrightarrow> k \<in> set used \<and> stands_for f k x)
    \<and> (\<forall>i < length entries. \<forall>j < length entries. \<forall>k x y. cs ! i = EntryEcho k x \<and> cs ! j = EntryEcho k y \<longrightarrow> i = j))"

lemma hd_tl_entries:
  "entries_at entries l \<noteq> [] \<Longrightarrow> i \<in> set (entries_at entries l) \<longleftrightarrow> i = hd (entries_at entries l) \<or> i \<in> set (tl (entries_at entries l))"
  "entries_at entries l \<noteq> [] \<Longrightarrow> hd (entries_at entries l) \<notin> set (tl (entries_at entries l))"
  using entries_at_distinct[of entries l] by (cases "entries_at entries l"; auto)+

lemma put_line:
  assumes ok: "classes_ok f entries ls (cs, used)" and l: "l \<notin> ls" "entries_at entries l \<noteq> []"
    and c: "c \<noteq> EntryOwn" "\<forall>i x. c = EntryEcho i x \<longrightarrow> i \<notin> set used \<and> i \<in> set used' \<and> stands_for f i x" and used: "set used \<subseteq> set used'"
    and d: "d \<noteq> EntryOwn" "echo_id d = None" and own: "\<forall>i \<in> set (entries_at entries l). \<not> taken_as_own f entries i"
  shows "classes_ok f entries (insert l ls) (set_all (tl (entries_at entries l)) d (cs[hd (entries_at entries l) := c]), used')"
proof -
  let ?idx = "entries_at entries l" and ?cs = "set_all (tl (entries_at entries l)) d (cs[hd (entries_at entries l) := c])"
  have len: "length cs = length entries" using ok by (simp add: classes_ok_def)
  have nth: "?cs ! i = (if en_Line (entries ! i) \<noteq> l then cs ! i else if i = hd ?idx then c else d)" if "i < length entries" for i
    using that hd_tl_entries(1)[OF l(2), of i] hd_tl_entries(2)[OF l(2)] entries_at_set[of i entries l] len by (auto simp: nth_set_all nth_list_update)
  have "?cs ! i = EntryOwn \<longleftrightarrow> en_Line (entries ! i) \<notin> insert l ls \<or> taken_as_own f entries i" if "i < length entries" for i
    using that ok own c(1) d(1) l(1) entries_at_set[of i entries l] unfolding classes_ok_def nth[OF that] by auto
  note own' = this
  have echo: "en_Line (entries ! i) \<noteq> l \<and> cs ! i = EntryEcho k x \<and> k \<in> set used \<or> i = hd ?idx \<and> c = EntryEcho k x" if "i < length entries" "?cs ! i = EntryEcho k x" for i k x
    using that ok d(2) unfolding classes_ok_def nth[OF that(1)] by (auto split: if_splits)
  have "k \<in> set used' \<and> stands_for f k x" if "i < length entries" "?cs ! i = EntryEcho k x" for i k x
    using echo[OF that] ok c(2) used that(1) unfolding classes_ok_def by blast
  moreover have "i = j" if "i < length entries" "j < length entries" "?cs ! i = EntryEcho k x" "?cs ! j = EntryEcho k y" for i j k x y
    using echo[OF that(1,3)] echo[OF that(2,4)] ok c(2) that(1,2) unfolding classes_ok_def by blast
  moreover have "length ?cs = length entries" by (simp add: len)
  ultimately show ?thesis using own' unfolding classes_ok_def prod.case by blast
qed

lemma line_unmarked_at:
  "line_unmarked entries l \<longleftrightarrow> list_all (\<lambda>i. plain (entries ! i) \<and> \<not> marked (entries ! i)) (entries_at entries l)"
proof -
  have "line_unmarked entries l \<longleftrightarrow> (\<forall>i < length entries. en_Line (entries ! i) = l \<longrightarrow> plain (entries ! i) \<and> \<not> marked (entries ! i))"
    by (simp add: line_unmarked_def list_all_length)
  then show ?thesis by (auto simp: list_all_iff entries_at_set)
qed

text \<open>The mirrors of the view carry their own ids.\<close>

lemma classifyLine_ok:
  assumes ok: "classes_ok f entries ls st" and l: "l \<notin> ls" "entries_at entries l \<noteq> []"
    and m: "\<And>i m. map_of (vw_mirrors (fx_view f)) i = Some m \<Longrightarrow> sh_Id (mi_told m) = i"
  shows "classes_ok f entries (insert l ls) (classifyLine f entries l st)"
proof -
  obtain cs used where st: "st = (cs, used)" by (cases st)
  let ?idx = "entries_at entries l"
  let ?marked = "list_all (\<lambda>i. marked (entries ! i)) ?idx" and ?copies = "line_unmarked entries l \<and> fx_here f l \<noteq> 0"
  have cand: "sh_Id x \<notin> set used \<and> stands_for f (sh_Id x) x" if "candidate f used l = Some x" for x using candidate_spec[OF that] .
  consider "?marked" | "\<not> ?marked" "?copies" | "\<not> ?marked" "\<not> ?copies" by blast
  then show ?thesis
  proof cases
    case 1
    obtain c used' where e: "echoOf (candidate f used l) None used = (c, used')" by fastforce
    have "classifyLine f entries l st = (set_all (tl ?idx) EntryRetract (cs[hd ?idx := c]), used')"
      using 1 e by (simp add: classifyLine_def st Let_def)
    moreover have own: "\<forall>i \<in> set ?idx. \<not> taken_as_own f entries i" using 1 by (simp add: list_all_iff taken_as_own_def)
    moreover have c: "c \<noteq> EntryOwn \<and> set used \<subseteq> set used' \<and> (\<forall>i x. c = EntryEcho i x \<longrightarrow> i \<notin> set used \<and> i \<in> set used' \<and> stands_for f i x)"
      by (rule echoOf_spec[OF e cand]) simp_all
    ultimately show ?thesis
      using put_line[OF ok[unfolded st] l conjunct1[OF c] conjunct2[OF conjunct2[OF c]] conjunct1[OF conjunct2[OF c]] _ _ own, of EntryRetract] by simp
  next
    case 2
    let ?m = "map_of (vw_mirrors (fx_view f)) (fx_here f l)"
    obtain c used' where e: "echoOf (candidate f used l) ?m used = (c, used')" by fastforce
    have "classifyLine f entries l st = (set_all (tl ?idx) EntryDuplicate (cs[hd ?idx := c]), used')"
      using 2 e by (simp add: classifyLine_def st Let_def line_unmarked_at)
    moreover have own: "\<forall>i \<in> set ?idx. \<not> taken_as_own f entries i" using 2 by (simp add: entries_at_set taken_as_own_def)
    moreover have fallback: "stands_for f (sh_Id (mi_told x)) (mi_told x)" if "?m = Some x" for x
      using m[OF that] that by (simp add: stands_for_def)
    moreover have c: "c \<noteq> EntryOwn \<and> set used \<subseteq> set used' \<and> (\<forall>i x. c = EntryEcho i x \<longrightarrow> i \<notin> set used \<and> i \<in> set used' \<and> stands_for f i x)"
      by (rule echoOf_spec[OF e cand fallback])
    ultimately show ?thesis
      using put_line[OF ok[unfolded st] l conjunct1[OF c] conjunct2[OF conjunct2[OF c]] conjunct1[OF conjunct2[OF c]] _ _ own, of EntryDuplicate] by simp
  next
    case 3
    let ?cs = "set_all (filter (\<lambda>i. marked (entries ! i)) ?idx) EntryRetract cs"
    have "classifyLine f entries l st = (?cs, used)"
      using 3 by (auto simp: classifyLine_def st Let_def line_unmarked_at)
    moreover have nth: "?cs ! i = (if en_Line (entries ! i) = l \<and> marked (entries ! i) then EntryRetract else cs ! i)" if "i < length entries" for i
      using that ok by (simp add: st classes_ok_def nth_set_all entries_at_set)
    moreover have "taken_as_own f entries i \<longleftrightarrow> \<not> marked (entries ! i)" if "en_Line (entries ! i) = l" for i
      using 3 that by (simp add: taken_as_own_def)
    ultimately show ?thesis using ok l(1) unfolding classes_ok_def st by (auto simp: nth split: if_splits)
  qed
qed

lemma classify_lines:
  assumes m: "\<And>i m. map_of (vw_mirrors (fx_view f)) i = Some m \<Longrightarrow> sh_Id (mi_told m) = i"
    and "classes_ok f entries done_lines st" "distinct lines" "set lines \<inter> done_lines = {}" "\<And>l. l \<in> set lines \<Longrightarrow> entries_at entries l \<noteq> []"
  shows "classes_ok f entries (done_lines \<union> set lines) (fold (classifyLine f entries) lines st)"
  using assms(2-)
proof (induction lines arbitrary: st done_lines)
  case (Cons l ls)
  have "classes_ok f entries (insert l done_lines) (classifyLine f entries l st)"
    by (rule classifyLine_ok[OF Cons.prems(1) _ _ m]) (use Cons.prems in auto)
  then have "classes_ok f entries (insert l done_lines \<union> set ls) (fold (classifyLine f entries) ls (classifyLine f entries l st))"
    by (rule Cons.IH) (use Cons.prems in auto)
  then show ?case by simp
qed simp

text \<open>
  In every setBreakpoints request, an entry is taken as the client's own breakpoint
  exactly if it is no marked copy and not one of plain entries on a line where this path
  shows a mirror; no breakpoint is echoed twice, and an echo is the breakpoint of the file or
  the announced mirror that the copy stands for. So a copy of another client's breakpoint
  never becomes the editor's user's own.
\<close>

lemma classify_spec:
  assumes "view_ok v" "key \<noteq> []"
  shows "length (classify entries key path v bps self) = length entries
    \<and> (\<forall>i < length entries. classify entries key path v bps self ! i = EntryOwn \<longleftrightarrow> taken_as_own (indexFile key path v bps self) entries i)
    \<and> (\<forall>i < length entries. \<forall>k x. classify entries key path v bps self ! i = EntryEcho k x \<longrightarrow> stands_for (indexFile key path v bps self) k x)
    \<and> (\<forall>i < length entries. \<forall>j < length entries. \<forall>k x y. classify entries key path v bps self ! i = EntryEcho k x
         \<and> classify entries key path v bps self ! j = EntryEcho k y \<longrightarrow> i = j)"
proof -
  let ?f = "indexFile key path v bps self" and ?lines = "lines_of entries"
  have "classes_ok ?f entries {} (replicate (length entries) EntryOwn, [])" by (simp add: classes_ok_def)
  moreover have "distinct ?lines" by (simp add: lines_of_def)
  moreover have lines: "set ?lines = set (map en_Line entries)" by (simp add: lines_of_def)
  moreover have "entries_at entries l \<noteq> []" if "l \<in> set ?lines" for l
    using that entries_at_set[of _ entries l] unfolding lines by (force simp: in_set_conv_nth)
  moreover have "sh_Id (mi_told m) = i" if "map_of (vw_mirrors (fx_view ?f)) i = Some m" for i m
    using that assms(1) unfolding view_ok_def indexFile_def by simp
  ultimately have "classes_ok ?f entries ({} \<union> set ?lines) (fold (classifyLine ?f entries) ?lines (replicate (length entries) EntryOwn, []))"
    by (intro classify_lines) simp_all
  moreover have "classify entries key path v bps self = fst (fold (classifyLine ?f entries) ?lines (replicate (length entries) EntryOwn, []))"
    using assms(2) by (simp add: classify_def)
  ultimately obtain used where ok: "classes_ok ?f entries (set ?lines) (classify entries key path v bps self, used)"
    by (cases "fold (classifyLine ?f entries) ?lines (replicate (length entries) EntryOwn, [])") simp
  have at: "en_Line (entries ! i) \<in> set ?lines" if "i < length entries" for i using that unfolding lines by simp
  show ?thesis using ok at unfolding classes_ok_def prod.case by simp
qed

section \<open>What settling leaves\<close>

definition echoed :: "source_entry list \<Rightarrow> entry_class list \<Rightarrow> int \<Rightarrow> bool" where
  "echoed entries classes i = list_ex (\<lambda>c. echo_id (snd c) = Some i) (zip entries classes)"

lemma echo_id_Some: "echo_id c = Some i \<longleftrightarrow> (\<exists>x. c = EntryEcho i x)"
  by (cases c) auto

lemma settle_entries:
  shows "(\<not> list_ex (\<lambda>c. echo_id (snd c) = Some i) zs \<longrightarrow> map_of (vw_mirrors (fold (settle_entry key path) zs v)) i = map_of (vw_mirrors v) i)
    \<and> (list_ex (\<lambda>c. echo_id (snd c) = Some i) zs \<longrightarrow> (\<exists>e x. (e, EntryEcho i x) \<in> set zs
        \<and> map_of (vw_mirrors (fold (settle_entry key path) zs v)) i = Some \<lparr>mi_key = key, mi_path = path, mi_line = en_Line e, mi_told = x\<rparr>))
    \<and> (i \<in> set (vw_hidden (fold (settle_entry key path) zs v)) \<longleftrightarrow> i \<in> set (vw_hidden v) \<and> \<not> list_ex (\<lambda>c. echo_id (snd c) = Some i) zs)
    \<and> (distinct (map fst (vw_mirrors v)) \<longrightarrow> distinct (map fst (vw_mirrors (fold (settle_entry key path) zs v))))
    \<and> vw_reported (fold (settle_entry key path) zs v) = vw_reported v"
proof (induction zs arbitrary: v)
  case (Cons z zs)
  obtain e c where z: "z = (e, c)" by (cases z)
  show ?case
  proof (cases c)
    case (EntryEcho j x)
    show ?thesis using Cons.IH[of "settle_entry key path z v"]
      by (cases "j = i"; cases "list_ex (\<lambda>c. echo_id (snd c) = Some i) zs") (auto simp: z EntryEcho distinct_aput)
  qed (use Cons.IH[of v] in \<open>auto simp: z\<close>)
qed simp

lemma map_of_filter_keys:
  "distinct (map fst xs) \<Longrightarrow> map_of (filter P xs) i = Option.bind (map_of xs i) (\<lambda>m. if P (i, m) then Some m else None)"
  by (induction xs) (auto simp: map_of_eq_None_iff split: bind_splits)

text \<open>
  What a setBreakpoints request leaves of the mirrors: each echo is a mirror under the
  request's path at the line the editor sent; the other mirrors under that path leave, hidden
  exactly if no entry took over their line; the mirrors of other files and under other paths
  stay, and nothing else is hidden or shown again.
\<close>

theorem settle_spec:
  assumes "distinct (map fst (vw_mirrors v))" "key \<noteq> []" "length classes = length entries"
  shows "(if echoed entries classes i
      then \<exists>e x. (e, EntryEcho i x) \<in> set (zip entries classes)
        \<and> map_of (vw_mirrors (settle_view key path entries classes v)) i = Some \<lparr>mi_key = key, mi_path = path, mi_line = en_Line e, mi_told = x\<rparr>
      else map_of (vw_mirrors (settle_view key path entries classes v)) i
        = Option.bind (map_of (vw_mirrors v) i) (\<lambda>m. if mi_key m = key \<and> mi_path m = path then None else Some m))
    \<and> (i \<in> set (vw_hidden (settle_view key path entries classes v)) \<longleftrightarrow> \<not> echoed entries classes i \<and>
        (i \<in> set (vw_hidden v) \<or> (\<exists>m. map_of (vw_mirrors v) i = Some m \<and> mi_key m = key \<and> mi_path m = path \<and> mi_line m \<notin> set (map en_Line entries))))"
proof -
  let ?zs = "zip entries classes"
  let ?v1 = "fold (settle_entry key path) ?zs v"
  note S = settle_entries[of i ?zs key path v, folded echoed_def]
  have ex: "list_ex (\<lambda>c. echo_id c = Some j) classes \<longleftrightarrow> echoed entries classes j" for j
    using assms(3) by (auto simp: echoed_def list_ex_length)
  have d: "distinct (map fst (vw_mirrors ?v1))" using S assms(1) by simp
  have settle: "vw_mirrors (settle_view key path entries classes v) = filter (\<lambda>p. \<not> settle_leaves key path classes p) (vw_mirrors ?v1)"
    "vw_hidden (settle_view key path entries classes v)
      = vw_hidden ?v1 @ map fst (filter (\<lambda>(i, m). mi_line m \<notin> set (map en_Line entries)) (filter (settle_leaves key path classes) (vw_mirrors ?v1)))"
    using assms(2) by (simp_all add: settle_view_def Let_def)
  have hidden: "i \<in> set (vw_hidden (settle_view key path entries classes v)) \<longleftrightarrow> i \<in> set (vw_hidden ?v1)
      \<or> (\<exists>m. map_of (vw_mirrors ?v1) i = Some m \<and> settle_leaves key path classes (i, m) \<and> mi_line m \<notin> set (map en_Line entries))"
    unfolding settle using d by force
  show ?thesis
    using S hidden map_of_filter_keys[OF d, of "\<lambda>p. \<not> settle_leaves key path classes p" i]
    by (cases "echoed entries classes i") (auto simp: settle(1) settle_leaves_def ex split: bind_splits)
qed

text \<open>A view that announced breakpoint 3 at line 9.\<close>

definition demo_view :: view where
  "demo_view = newView\<lparr>vw_mirrors := [(3, \<lparr>mi_key = ''/a.cs'', mi_path = ''/a.cs'', mi_line = 9,
     mi_told = mirrorBreakpoint (demo_bp 3 9) ''human:h'' ''/a.cs''\<rparr>)]\<rparr>"

theorem settle_spec_witness:
  "3 \<in> set (vw_hidden (settle_view ''/a.cs'' ''/a.cs'' [] [] demo_view))"
  using settle_spec[of demo_view "''/a.cs''" "[]" "[]" 3 "''/a.cs''"] by (simp add: demo_view_def newView_def echoed_def)

end
