(* ===== verification/Follow.thy ===== *)
theory Follow
  imports Mirrors Manager Replace
begin

text \<open>
  What an editor is sent of a session's events (\<^verbatim>\<open>internal/facade/events.go\<close>, and what it uses
  of \<^verbatim>\<open>custom.go\<close> and \<^verbatim>\<open>requests.go\<close>): the translation of the event log, the catching up of
  one that missed events, the join and the follower's batches. The session is read at the
  moment of each step, so a step has the session then. A write that fails ends the
  follower: what is stated of a batch holds of each part of it that was sent.
\<close>

section \<open>Translating one event\<close>

definition logpointCategory :: string where "logpointCategory = ''logpoint''"
definition replayChunks :: int where "replayChunks = 200"
definition replayBytes :: nat where "replayBytes = 64 * 2 ^ 10"

record follow_state =
  fo_self :: string
  fo_invalidated :: bool
  fo_lastThread :: int
  fo_lastExec :: string

definition outputEvent :: "string \<Rightarrow> string \<Rightarrow> sent_event" where
  "outputEvent category t = OutputSent (if category = logpointCategory then ''console'' else category) t"

definition consoleLine :: "string \<Rightarrow> sent_event" where
  "consoleLine t = outputEvent ''console'' (''eyedbg: '' @ t @ [CHR 0x0A])"

definition hitIDs :: "stop_breakpoint list \<Rightarrow> int list" where
  "hitIDs bs = map sb_ID bs"

definition stoppedEvent :: "stop_info option \<Rightarrow> bool \<Rightarrow> follow_state \<Rightarrow> sent_event list \<times> follow_state" where
  "stoppedEvent stop hint st =
    (case stop of
       None \<Rightarrow> ([], st)
     | Some i \<Rightarrow> ([StoppedSent (si_Reason i) (si_ThreadID i) (si_Description i) (si_Text i) (si_AllThreadsStopped i) hint (hitIDs (si_Breakpoints i))],
                  st\<lparr>fo_lastThread := si_ThreadID i\<rparr>))"

definition runs :: "string \<Rightarrow> bool" where
  "runs action = (action \<in> {ExecContinue, ExecNext, ExecStepIn, ExecStepOut, ExecRunUntil, ExecPause})"

definition continuedEvent :: "int \<Rightarrow> follow_state \<Rightarrow> sent_event" where
  "continuedEvent thread st = ContinuedSent (if thread = 0 then fo_lastThread st else thread)"

definition execEvent :: "event \<Rightarrow> follow_state \<Rightarrow> sent_event list" where
  "execEvent ev st =
    (if ev_Client ev = fo_self st then []
     else if ev_Action ev \<in> {ExecContinue, ExecNext, ExecStepIn, ExecStepOut, ExecRunUntil} then [continuedEvent (ev_ThreadID ev) st]
     else if ev_Action ev \<in> {ExecEval, ExecSet} then (if fo_invalidated st then [InvalidatedSent] else [])
     else [])"

definition translate_event :: "event \<Rightarrow> follow_state \<Rightarrow> sent_event list \<times> follow_state" where
  "translate_event ev st =
    (if ev_Kind ev = EventStopped
     then stoppedEvent (ev_Stop ev) (fo_lastExec st \<noteq> [] \<and> fo_lastExec st \<noteq> fo_self st) (st\<lparr>fo_lastExec := []\<rparr>)
     else if ev_Kind ev = EventExec
     then (let st1 = (if runs (ev_Action ev) then st\<lparr>fo_lastExec := ev_Client ev\<rparr> else st) in (execEvent ev st1, st1))
     else if ev_Kind ev = EventContinued then ([continuedEvent (ev_ThreadID ev) st], st)
     else if ev_Kind ev = EventOutput then ([outputEvent (ev_Category ev) (ev_Text ev)], st)
     else if ev_Kind ev = EventThread then ([ThreadSent (ev_Reason ev) (ev_ThreadID ev)], st)
     else if ev_Kind ev = EventExited then ((case ev_ExitCode ev of None \<Rightarrow> [] | Some c \<Rightarrow> [ExitedSent c]), st)
     else if ev_Kind ev = EventEnded then ([TerminatedSent], st)
     else ([], st))"

definition resync :: "int \<Rightarrow> session_state \<Rightarrow> stop_info option \<Rightarrow> follow_state \<Rightarrow> sent_event list \<times> follow_state" where
  "resync dropped state stop st =
    (let notice = consoleLine (itoa dropped @ '' session events were missed''); st1 = st\<lparr>fo_lastExec := []\<rparr> in
     if state = StateStopped then (case stoppedEvent stop False st1 of (evs, st2) \<Rightarrow> (notice # evs, st2))
     else if state = StateRunning then ([notice, continuedEvent 0 st1], st1)
     else ([notice], st1))"

section \<open>Other clients' activity\<close>

definition activity :: "event \<Rightarrow> string \<Rightarrow> bool" where
  "activity ev self =
    (ev_Client ev \<noteq> [] \<and> ev_Client ev \<noteq> self
     \<and> ev_Kind ev \<in> {EventExec, EventBreakpoint, EventExceptions, EventLease, EventClient})"

definition activityEvent :: "event \<Rightarrow> sent_event" where
  "activityEvent ev =
    ActivitySent (if RuneCount (ev_Text ev) > EventTextLimit
      then ev\<lparr>ev_Text := take_runes EventTextLimit (ev_Text ev), ev_Truncated := True\<rparr> else ev)"

definition maxListedBreakpoints :: nat where "maxListedBreakpoints = 1000"

definition breakpointsBody :: "api_breakpoint list \<Rightarrow> api_breakpoint list \<times> int" where
  "breakpointsBody bps =
    (if length bps > maxListedBreakpoints then (take maxListedBreakpoints bps, int (length bps) - int maxListedBreakpoints) else (bps, 0))"

definition breakpointsEvent :: "env \<Rightarrow> session \<Rightarrow> sent_event" where
  "breakpointsEvent E s = (case breakpointsBody (Breakpoints E [] s) of (bps, n) \<Rightarrow> BreakpointsSent bps n)"

section \<open>Under the event gate\<close>

definition conn_reconcile :: "env \<Rightarrow> string \<Rightarrow> session \<Rightarrow> view \<Rightarrow> view \<times> sent_event list" where
  "conn_reconcile E self s v = (if \<not> vw_configured v then (v, []) else reconcile v self (Breakpoints E [] s))"

text \<open>\<^verbatim>\<open>reconcileOnce\<close>; the flag is the batch's, whether one spent with the view configured.\<close>

definition reconcileOnce :: "env \<Rightarrow> string \<Rightarrow> session \<Rightarrow> bool \<Rightarrow> view \<Rightarrow> view \<times> sent_event list \<times> bool" where
  "reconcileOnce E self s spent v =
    (if spent then (v, [], spent) else (case conn_reconcile E self s v of (v', out) \<Rightarrow> (v', out, vw_configured v)))"

fun about :: "int \<Rightarrow> sent_event \<Rightarrow> bool" where
  "about i (BreakpointSent reason b) = (sh_Id b = i)"
| "about i _ = False"

definition breakpointChanged :: "env \<Rightarrow> string \<Rightarrow> session \<Rightarrow> event \<Rightarrow> bool \<Rightarrow> view \<Rightarrow> view \<times> sent_event list \<times> bool" where
  "breakpointChanged E self s ev spent v =
    (case reconcileOnce E self s spent v of (v', out, spent') \<Rightarrow>
       (v', (if ev_Action ev \<noteq> actionChanged \<or> ev_Client ev \<noteq> [] \<or> \<not> vw_configured v' then out
             else case ev_Breakpoint ev of
               None \<Rightarrow> out
             | Some b \<Rightarrow> (case map_of (vw_reported v') (bp_ID b) of
                 None \<Rightarrow> out
               | Some b_told \<Rightarrow> if list_ex (about (bp_ID b)) out then out else out @ [BreakpointSent actionChanged b_told])), spent'))"

definition conn_translate :: "env \<Rightarrow> session \<Rightarrow> event \<Rightarrow> bool \<Rightarrow> view \<Rightarrow> follow_state
    \<Rightarrow> view \<times> follow_state \<times> bool \<times> sent_event list" where
  "conn_translate E s ev spent v st =
    (let (v1, retracted) = (if ev_Kind ev = EventEnded then retractMirrors v else (v, []));
         (plain, st1) = translate_event ev st;
         (v2, special, ran2) =
           (if ev_Kind ev = EventBreakpoint then breakpointChanged E (fo_self st) s ev spent v1
            else if ev_Kind ev = EventLease then (v1, (case ev_Lease ev of None \<Rightarrow> [] | Some l \<Rightarrow> [LeaseSent l]), spent)
            else if ev_Kind ev = EventClient then (v1, [ClientsSent (clientsLocked s)], spent)
            else (v1, [], spent))
     in (v2, st1, ran2, retracted @ plain @ special @ (if activity ev (fo_self st) then [activityEvent ev] else [])))"

section \<open>The follower\<close>

text \<open>
  One batch: the events and, with each, the session when it is translated. An event is
  translated only if the connection is not leaving, and none after the ended event is.
\<close>

fun follow_events :: "env \<Rightarrow> (event \<times> session) list \<Rightarrow> bool \<Rightarrow> view \<Rightarrow> follow_state \<Rightarrow> view \<times> follow_state \<times> sent_event list \<times> bool" where
  "follow_events E [] spent v st = (v, st, [], True)"
| "follow_events E ((ev, s) # evs) spent v st =
    (let (v1, st1, ran1, out) = (if vw_leaving v then (v, st, spent, []) else conn_translate E s ev spent v st) in
     if ev_Kind ev = EventEnded then (v1, st1, out, False)
     else (case follow_events E evs ran1 v1 st1 of (v2, st2, out2, going) \<Rightarrow> (v2, st2, out @ out2, going)))"

definition follow_batch :: "env \<Rightarrow> int \<Rightarrow> session \<Rightarrow> (event \<times> session) list \<Rightarrow> session \<Rightarrow> view \<Rightarrow> follow_state
    \<Rightarrow> view \<times> follow_state \<times> sent_event list \<times> bool" where
  "follow_batch E dropped s0 evs s_end v st =
    (let (v1, st1, spent, out1) =
       (if dropped > 0 \<and> \<not> vw_leaving v
        then (case resync dropped (s_state s0) (sn_Stop (infoLocked s0)) st of (out, st') \<Rightarrow>
             (case reconcileOnce E (fo_self st) s0 False v of (v', out', spent') \<Rightarrow> (v', st', spent', out @ out')))
        else (v, st, False, []));
         (v2, st2, out2, going) = follow_events E evs spent v1 st1;
         out3 = (if going \<and> list_ex (\<lambda>(ev, s). ev_Kind ev = EventBreakpoint) evs \<and> \<not> vw_leaving v2 then [breakpointsEvent E s_end] else [])
     in (v2, st2, out1 @ out2 @ out3, going))"

section \<open>Joining\<close>

definition replayOutput :: "int \<Rightarrow> session \<Rightarrow> sent_event list" where
  "replayOutput sq s =
    (case OutputBefore sq replayChunks replayBytes s of (lines, omitted) \<Rightarrow>
       (if omitted > 0 then [consoleLine (itoa (int omitted) @ '' earlier output chunks aren'' @ CHR 0x27 # ''t shown ('' @ CHR 0x27 # ''eyedbg output''
          @ CHR 0x27 # '' has them)'')] else [])
       @ map (\<lambda>l. outputEvent (ol_Category l) (ol_Text l)) lines)"

text \<open>\<open>at\<close> is the session at the join point, \<open>s\<close> the session when the events are sent; the flag is whether a follower starts.\<close>

definition join :: "env \<Rightarrow> string \<Rightarrow> bool \<Rightarrow> session \<Rightarrow> int \<Rightarrow> session \<Rightarrow> view \<Rightarrow> view \<times> follow_state \<times> sent_event list \<times> bool" where
  "join E self invalidated at sq s v =
    (let st = \<lparr>fo_self = self, fo_invalidated = invalidated, fo_lastThread = 0, fo_lastExec = []\<rparr>;
         info = infoLocked at;
         replay = replayOutput sq s
     in if sn_State info = StateExited
        then (v, st, replay @ (case sn_ExitCode info of None \<Rightarrow> [] | Some c \<Rightarrow> [ExitedSent c]) @ [TerminatedSent], False)
        else let (stopped, st1) = (if sn_State info = StateStopped then stoppedEvent (sn_Stop info) False st else ([], st));
                 (v1, news) = conn_reconcile E self s (v\<lparr>vw_configured := True\<rparr>)
             in (v1, st1, replay @ stopped @ news @ (case sn_Lease info of None \<Rightarrow> [] | Some l \<Rightarrow> [LeaseSent l])
                   @ [ClientsSent (sn_Clients info), breakpointsEvent E s], True))"

section \<open>Whose stop it is\<close>

definition exec_runs :: "event \<Rightarrow> bool" where
  "exec_runs e \<longleftrightarrow> ev_Kind e = EventExec \<and> runs (ev_Action e)"

text \<open>The latest request that made the program run or pause since the last stop was another client's.\<close>

definition foreign_cause :: "string \<Rightarrow> event list \<Rightarrow> bool" where
  "foreign_cause self es \<longleftrightarrow> (\<exists>as e bs. es = as @ e # bs \<and> exec_runs e \<and> ev_Client e \<noteq> [] \<and> ev_Client e \<noteq> self
    \<and> list_all (\<lambda>x. ev_Kind x \<noteq> EventStopped \<and> \<not> exec_runs x) bs)"

definition after_events :: "event list \<Rightarrow> follow_state \<Rightarrow> follow_state" where
  "after_events es st = fold (\<lambda>e s. snd (translate_event e s)) es st"

lemma translate_state:
  "fo_self (snd (translate_event e st)) = fo_self st"
  "fo_lastExec (snd (translate_event e st)) = (if ev_Kind e = EventStopped then [] else if exec_runs e then ev_Client e else fo_lastExec st)"
  by (auto simp: translate_event_def stoppedEvent_def exec_runs_def Let_def split: option.splits)

lemma ex_snoc:
  "(\<exists>as x bs. es @ [e] = as @ x # bs \<and> R x bs) \<longleftrightarrow> R e [] \<or> (\<exists>as x cs. es = as @ x # cs \<and> R x (cs @ [e]))"
proof -
  have "es @ [e] = as @ x # bs \<longleftrightarrow> (bs = [] \<and> as = es \<and> x = e) \<or> (\<exists>cs. bs = cs @ [e] \<and> es = as @ x # cs)" for as x bs
    by (cases bs rule: rev_cases) auto
  then show ?thesis by metis
qed

lemma foreign_cause_snoc:
  "foreign_cause self (es @ [e]) \<longleftrightarrow>
    (if exec_runs e then ev_Client e \<noteq> [] \<and> ev_Client e \<noteq> self else ev_Kind e \<noteq> EventStopped \<and> foreign_cause self es)"
proof -
  let ?R = "\<lambda>x bs. exec_runs x \<and> ev_Client x \<noteq> [] \<and> ev_Client x \<noteq> self \<and> list_all (\<lambda>x. ev_Kind x \<noteq> EventStopped \<and> \<not> exec_runs x) bs"
  have "?R x (cs @ [e]) \<longleftrightarrow> ?R x cs \<and> ev_Kind e \<noteq> EventStopped \<and> \<not> exec_runs e" for x cs by auto
  moreover have "exec_runs e \<Longrightarrow> ev_Kind e \<noteq> EventStopped" by (simp add: exec_runs_def)
  ultimately show ?thesis unfolding foreign_cause_def ex_snoc[of es e ?R] by auto
qed

lemma after_events_cause:
  assumes "fo_lastExec st = []"
  shows "fo_self (after_events es st) = fo_self st
    \<and> (fo_lastExec (after_events es st) \<noteq> [] \<and> fo_lastExec (after_events es st) \<noteq> fo_self st \<longleftrightarrow> foreign_cause (fo_self st) es)"
proof (induction es rule: rev_induct)
  case Nil
  then show ?case using assms by (simp add: after_events_def foreign_cause_def)
next
  case (snoc e es)
  have step: "after_events (es @ [e]) st = snd (translate_event e (after_events es st))" by (simp add: after_events_def)
  show ?case unfolding step translate_state foreign_cause_snoc using snoc.IH by (auto simp: exec_runs_def)
qed

text \<open>
  C22: a stop takes an editor's focus exactly if it is not another client's doing: whatever
  events came before, the stop is marked as one to leave the focus alone exactly if the
  latest request since the stop before that made the program run or pause came from
  another client.
\<close>

theorem stop_keeps_focus_iff:
  assumes "fo_lastExec st = []" "ev_Kind ev = EventStopped" "ev_Stop ev = Some i"
  shows "fst (translate_event ev (after_events before st))
    = [StoppedSent (si_Reason i) (si_ThreadID i) (si_Description i) (si_Text i) (si_AllThreadsStopped i)
        (foreign_cause (fo_self st) before) (map sb_ID (si_Breakpoints i))]"
  using after_events_cause[OF assms(1), of before] assms(2,3) by (simp add: translate_event_def stoppedEvent_def hitIDs_def)

definition demo_exec :: event where
  "demo_exec = (Event EventExec)\<lparr>ev_Client := ''agent:x'', ev_Action := ExecContinue\<rparr>"

definition demo_follow :: follow_state where
  "demo_follow = \<lparr>fo_self = ''human:h'', fo_invalidated = True, fo_lastThread = 0, fo_lastExec = []\<rparr>"

theorem stop_keeps_focus_iff_witness:
  "fst (translate_event ((Event EventStopped)\<lparr>ev_Stop := Some no_stop\<rparr>) (after_events [demo_exec] demo_follow))
    = [StoppedSent [] 0 [] [] False True []]"
proof -
  have "foreign_cause ''human:h'' [demo_exec]"
    using foreign_cause_snoc[of "''human:h''" "[]" demo_exec] by (simp add: demo_exec_def exec_runs_def runs_def)
  then show ?thesis
    using stop_keeps_focus_iff[of demo_follow "(Event EventStopped)\<lparr>ev_Stop := Some no_stop\<rparr>" no_stop "[demo_exec]"]
    by (simp add: demo_follow_def no_stop_def)
qed

section \<open>One reconcile is enough\<close>

text \<open>The follower that reconciles at every breakpoint event of a batch.\<close>

fun follow_always :: "env \<Rightarrow> (event \<times> session) list \<Rightarrow> view \<Rightarrow> follow_state \<Rightarrow> view \<times> follow_state \<times> sent_event list \<times> bool" where
  "follow_always E [] v st = (v, st, [], True)"
| "follow_always E ((ev, s) # evs) v st =
    (let (v1, st1, out) = (if vw_leaving v then (v, st, [])
         else (case conn_translate E s ev False v st of (v1, st1, _, out) \<Rightarrow> (v1, st1, out))) in
     if ev_Kind ev = EventEnded then (v1, st1, out, False)
     else (case follow_always E evs v1 st1 of (v2, st2, out2, going) \<Rightarrow> (v2, st2, out @ out2, going)))"

lemma reported_step_flags:
  "vw_configured (fst (reported_step bps p x)) = vw_configured (fst x)" "vw_leaving (fst (reported_step bps p x)) = vw_leaving (fst x)"
  by (cases p; cases x; simp add: forget_reported_def split: option.split)+

lemma mirror_step_flags:
  "vw_configured (fst (mirror_step want p x)) = vw_configured (fst x)" "vw_leaving (fst (mirror_step want p x)) = vw_leaving (fst x)"
  by (cases p; cases x; simp split: option.split)+

lemma announce_step_flags:
  "vw_configured (fst (announce_step bps p x)) = vw_configured (fst x)" "vw_leaving (fst (announce_step bps p x)) = vw_leaving (fst x)"
  by (cases p; cases x; simp)+

lemma reconcile_flag:
  assumes "\<And>bps p x. f (fst (reported_step bps p x)) = f (fst x)" "\<And>w p x. f (fst (mirror_step w p x)) = f (fst x)"
    "\<And>bps p x. f (fst (announce_step bps p x)) = f (fst x)" "\<And>v h. f (v\<lparr>vw_hidden := h\<rparr>) = f v"
  shows "f (fst (reconcile v self bps)) = f v"
proof -
  have 1: "f (fst (fold (reported_step bps) ps x)) = f (fst x)" for ps x by (induction ps arbitrary: x) (simp_all add: assms(1))
  have 2: "f (fst (fold (mirror_step w) ps x)) = f (fst x)" for w ps x by (induction ps arbitrary: x) (simp_all add: assms(2))
  have 3: "f (fst (fold (announce_step bps) ps x)) = f (fst x)" for ps x by (induction ps arbitrary: x) (simp_all add: assms(3))
  show ?thesis by (simp add: reconcile_def reconcileReported_def case_prod_unfold Let_def 1 2 3 assms(4))
qed

lemma reconcile_flags:
  "vw_configured (fst (reconcile v self bps)) = vw_configured v" "vw_leaving (fst (reconcile v self bps)) = vw_leaving v"
  using reconcile_flag[of vw_configured v self bps, OF reported_step_flags(1) mirror_step_flags(1) announce_step_flags(1)]
    reconcile_flag[of vw_leaving v self bps, OF reported_step_flags(2) mirror_step_flags(2) announce_step_flags(2)] by simp_all

text \<open>What a batch has brought the view to: with the flag set, a reconcile has nothing to say.\<close>

definition caught_up :: "env \<Rightarrow> session \<Rightarrow> string \<Rightarrow> bool \<Rightarrow> view \<Rightarrow> bool" where
  "caught_up E s self spent v \<longleftrightarrow> view_ok v \<and> (spent \<longrightarrow> vw_configured v \<and> reconcile v self (Breakpoints E [] s) = (v, []))"

lemma reconcileOnce_caught_up:
  assumes "caught_up E s self spent v" "distinct (map bp_ID (Breakpoints E [] s))" "Breakpoints E [] t = Breakpoints E [] s"
  shows "(case reconcileOnce E self t spent v of (v', out, spent') \<Rightarrow>
    conn_reconcile E self t v = (v', out) \<and> vw_configured v' = vw_configured v \<and> caught_up E s self spent' v')"
proof (cases "spent \<or> \<not> vw_configured v")
  case True
  then show ?thesis using assms(1,3) by (auto simp: reconcileOnce_def conn_reconcile_def caught_up_def)
next
  case False
  obtain v' evs where r: "reconcile v self (Breakpoints E [] s) = (v', evs)" by fastforce
  have "view_ok v' \<and> settled v' self (Breakpoints E [] s)" using reconcile_view[OF _ assms(2) r] assms(1) by (simp add: caught_up_def)
  then have "caught_up E s self True v'" using reconcile_settled reconcile_flags(1)[of v self "Breakpoints E [] s"] r False by (auto simp: caught_up_def)
  then show ?thesis using False r assms(3) reconcile_flags(1)[of v self "Breakpoints E [] s"] by (simp add: reconcileOnce_def conn_reconcile_def)
qed
lemma breakpointChanged_caught_up:
  assumes "caught_up E s self spent v" "distinct (map bp_ID (Breakpoints E [] s))" "Breakpoints E [] t = Breakpoints E [] s"
    "breakpointChanged E self t ev spent v = (v1, out, spent1)"
  shows "caught_up E s self spent1 v1 \<and> (\<exists>x. breakpointChanged E self t ev False v = (v1, out, x))"
proof -
  obtain v' o' r' where r: "reconcileOnce E self t spent v = (v', o', r')" by (metis prod_cases3)
  note C = reconcileOnce_caught_up[OF assms(1-3), unfolded r prod.case]
  have "reconcileOnce E self t False v = (v', o', vw_configured v)" using C by (simp add: reconcileOnce_def)
  then show ?thesis using C assms(4) unfolding breakpointChanged_def r by (auto split: prod.splits)
qed

lemma conn_translate_caught_up:
  assumes "caught_up E s (fo_self st) spent v" "distinct (map bp_ID (Breakpoints E [] s))" "Breakpoints E [] t = Breakpoints E [] s"
    "conn_translate E t ev spent v st = (v1, st1, spent1, out)"
  shows "(\<exists>x. conn_translate E t ev False v st = (v1, st1, x, out)) \<and> fo_self st1 = fo_self st
    \<and> (ev_Kind ev = EventEnded \<or> caught_up E s (fo_self st) spent1 v1)"
proof (cases "ev_Kind ev = EventBreakpoint")
  case True
  obtain v2 sp r2 where b: "breakpointChanged E (fo_self st) t ev spent v = (v2, sp, r2)" by (metis prod_cases3)
  obtain plain st2 where p: "translate_event ev st = (plain, st2)" by fastforce
  note C = breakpointChanged_caught_up[OF assms(1-3) b]
  then obtain x where x: "breakpointChanged E (fo_self st) t ev False v = (v2, sp, x)" by blast
  show ?thesis using assms(4) C translate_state(1)[of ev st] True unfolding conn_translate_def by (auto simp: b x p)
next
  case False
  obtain plain st2 where p: "translate_event ev st = (plain, st2)" by fastforce
  show ?thesis using assms(1,4) translate_state(1)[of ev st] False unfolding conn_translate_def p
    by (auto simp: Let_def p split: if_splits prod.splits)
qed

lemma follow_once_enough:
  assumes "caught_up E s (fo_self st) spent v" "distinct (map bp_ID (Breakpoints E [] s))"
    "\<forall>(ev, t) \<in> set evs. Breakpoints E [] t = Breakpoints E [] s"
  shows "follow_events E evs spent v st = follow_always E evs v st"
  using assms
proof (induction evs arbitrary: spent v st)
  case (Cons p evs)
  obtain ev t where p: "p = (ev, t)" by fastforce
  have t: "Breakpoints E [] t = Breakpoints E [] s" and rest: "\<forall>(ev, t) \<in> set evs. Breakpoints E [] t = Breakpoints E [] s"
    using Cons.prems(3) by (auto simp: p)
  show ?case
  proof (cases "vw_leaving v")
    case True
    then show ?thesis using Cons.IH[OF Cons.prems(1,2) rest] by (simp add: p)
  next
    case False
    obtain v1 st1 spent1 out where c: "conn_translate E t ev spent v st = (v1, st1, spent1, out)" by (metis prod_cases4)
    note C = conn_translate_caught_up[OF Cons.prems(1,2) t c]
    then obtain x where x: "conn_translate E t ev False v st = (v1, st1, x, out)" by blast
    have "ev_Kind ev \<noteq> EventEnded \<Longrightarrow> follow_events E evs spent1 v1 st1 = follow_always E evs v1 st1"
      using C Cons.IH[OF _ Cons.prems(2) rest, of st1 spent1 v1] by simp
    then show ?thesis using False by (simp add: p c x)
  qed
qed simp

lemma breakpoints_distinct: "sess_inv s \<Longrightarrow> distinct (map bp_ID (Breakpoints E [] s))"
proof -
  assume "sess_inv s"
  moreover have "bp_ID (api_of b) = bp_ID b" for b by (simp add: api_of_def api_breakpoint.defs)
  then have ids: "map bp_ID (map api_of bs) = map bp_ID bs" for bs by (simp add: comp_def)
  ultimately have "distinct (map bp_ID (map api_of (all_bps s)))" using inv_ids[of s] unfolding ids by blast
  then have "distinct (map bp_ID (sort_key bp_ID (map api_of (all_bps s))))" by (simp only: distinct_map distinct_sort set_sort)
  then show ?thesis by (simp add: Breakpoints_def annotate_ids del: map_map)
qed

text \<open>
  C23: reconciling once in a batch of events is as good as reconciling at each of its
  breakpoint events, as long as the session's breakpoints stay the same while the batch is
  translated and the view is in order (\<open>view_ok\<close>, so no breakpoint is both reported and a
  mirror): then the editor is sent the same, in the same order. (If a breakpoint changes
  while the batch is translated, reconciling at each event may tell it in this batch, and
  reconciling once tells it in the batch that holds the change's own event.)
\<close>

theorem one_reconcile_per_batch:
  assumes "view_ok v" "sess_inv s" "\<forall>(ev, t) \<in> set evs. Breakpoints E [] t = Breakpoints E [] s"
  shows "follow_events E evs False v st = follow_always E evs v st"
  using follow_once_enough[of E s st False v evs] assms breakpoints_distinct by (simp add: caught_up_def)

theorem one_reconcile_per_batch_witness:
  "follow_events demo_env [((Event EventBreakpoint)\<lparr>ev_Action := actionNew\<rparr>, demo_session)] False newView demo_follow
    = follow_always demo_env [((Event EventBreakpoint)\<lparr>ev_Action := actionNew\<rparr>, demo_session)] newView demo_follow"
proof -
  have "view_ok newView" by (simp add: view_ok_def newView_def)
  from one_reconcile_per_batch[OF this demo_session_inv, of "[((Event EventBreakpoint)\<lparr>ev_Action := actionNew\<rparr>, demo_session)]" demo_env demo_follow]
  show ?thesis by simp
qed

end
