(* ===== verification/Editor.thy ===== *)
theory Editor
  imports Echoes Follow Session_Steps
begin

text \<open>
  The requests of an editor against the session it joined (\<^verbatim>\<open>serve\<close>, \<^verbatim>\<open>handle\<close> and what they
  call in \<^verbatim>\<open>internal/facade/requests.go\<close>, with \<^verbatim>\<open>exceptionMode\<close> of \<^verbatim>\<open>caps.go\<close> and the argument
  types of \<^verbatim>\<open>custom.go\<close>). Other clients act on the session at any time: where the source
  reads the session, calls it and reads it again, each has the session then. On a launch
  connection terminate is the manager's \<^verbatim>\<open>StopSession\<close> instead.
\<close>

section \<open>Requests\<close>

record lease_arguments =
  lg_Action :: string
  lg_To :: string
  lg_Policy :: string
  lg_Force :: bool
  lg_Message :: string

record function_entry =
  fe_Name :: string
  fe_Condition :: string
  fe_HitCondition :: string

datatype editor_request =
    EdContinue int | EdNext int | EdStepIn int | EdStepOut int | EdPause int | EdTerminate
  | EdSetBreakpoints string "source_entry list option" "int list"
  | EdSetFunctionBreakpoints "function_entry list"
  | EdSetExceptionBreakpoints "string list"
  | EdLease lease_arguments
  | EdClients
  | EdBreakpoints string int bool
  | EdOther dap_request

datatype editor_response =
    EdDone
  | EdPlaced "shown list"
  | EdLeaseInfo lease_info
  | EdClientList "client_info list" "lease_info option"
  | EdBreakpointList "api_breakpoint list" int nat
  | EdForwarded dap_response

fun isExecution :: "editor_request \<Rightarrow> bool" where
  "isExecution (EdContinue t) = True"
| "isExecution (EdNext t) = True"
| "isExecution (EdStepIn t) = True"
| "isExecution (EdStepOut t) = True"
| "isExecution (EdPause t) = True"
| "isExecution EdTerminate = True"
| "isExecution (EdOther req) = ForwardsAsExecution req"
| "isExecution _ = False"

fun changesBreakpoints :: "editor_request \<Rightarrow> bool" where
  "changesBreakpoints (EdSetBreakpoints path entries lines) = True"
| "changesBreakpoints (EdSetFunctionBreakpoints entries) = True"
| "changesBreakpoints (EdBreakpoints action i force) = (action = ''remove'')"
| "changesBreakpoints _ = False"

fun isGated :: "editor_request \<Rightarrow> bool" where
  "isGated (EdSetBreakpoints path entries lines) = True"
| "isGated (EdSetFunctionBreakpoints entries) = True"
| "isGated (EdLease a) = (lg_Action a \<noteq> ''status'')"
| "isGated (EdBreakpoints action i force) = changesBreakpoints (EdBreakpoints action i force)"
| "isGated req = isExecution req"

fun isOrdered :: "editor_request \<Rightarrow> bool" where
  "isOrdered (EdSetExceptionBreakpoints filters) = True"
| "isOrdered req = isGated req"

section \<open>Breakpoints\<close>

definition maxRequestBreakpoints :: nat where "maxRequestBreakpoints = 1000"

definition tooManyBreakpoints :: "nat \<Rightarrow> error" where
  "tooManyBreakpoints n = NewError CodeInvalidRequest
    [Lit (itoa (int n) @ '' breakpoints in one request: eyedbg takes at most 1000'')]"

definition retractMessage :: string where
  "retractMessage = ''eyedbg: a leftover copy of another client'' @ CHR 0x27 # ''s breakpoint; removed''"

definition duplicateMessage :: string where
  "duplicateMessage = ''another breakpoint of this request is on the same line: eyedbg keeps one per line per client (columns are ignored)''"

definition retracted :: "int \<Rightarrow> int \<Rightarrow> shown" where
  "retracted i l = no_shown\<lparr>sh_Id := i, sh_Line := l, sh_Message := retractMessage\<rparr>"

text \<open>The answers to the client's own entries: \<open>own\<close> are their positions.\<close>

definition fill_own :: "nat list \<Rightarrow> shown list \<Rightarrow> shown list \<Rightarrow> shown list" where
  "fill_own own got_shown out = fold (\<lambda>(i, b) out. out[i := b]) (zip own got_shown) out"

text \<open>One turn of the loop of \<^verbatim>\<open>answerCopies\<close>, with \<^verbatim>\<open>nextRetractID\<close>.\<close>

definition nextRetractID :: "view \<Rightarrow> view \<times> int" where
  "nextRetractID v = (let i = vw_lastRetract v - 1 in (v\<lparr>vw_lastRetract := i\<rparr>, i))"

definition answer_copy :: "source_entry list \<Rightarrow> entry_class list \<Rightarrow> nat \<Rightarrow> view \<times> shown list \<times> nat \<Rightarrow> view \<times> shown list \<times> nat" where
  "answer_copy entries classes i x =
    (case x of (v, out, retracts) \<Rightarrow>
      (case classes ! i of
         EntryEcho k b \<Rightarrow> (v, out[i := b], retracts)
       | EntryRetract \<Rightarrow> (case nextRetractID v of (v', k) \<Rightarrow>
           (v'\<lparr>vw_after := vw_after v' @ [BreakpointSent actionRemoved (removed_shown k)]\<rparr>, out[i := retracted k (en_Line (entries ! i))], retracts + 1))
       | EntryDuplicate \<Rightarrow> (v, out[i := no_shown\<lparr>sh_Line := en_Line (entries ! i), sh_Message := duplicateMessage\<rparr>], retracts)
       | EntryOwn \<Rightarrow> (v, out, retracts)))"

definition leftover_notice :: "nat \<Rightarrow> string \<Rightarrow> sent_event" where
  "leftover_notice n path = consoleLine (''removed '' @ itoa (int n) @ '' leftover copies of other clients'' @ CHR 0x27 # '' breakpoints from ''
    @ path @ '' (column 1 marks eyedbg'' @ CHR 0x27 # ''s copies)'')"

definition answerCopies :: "string \<Rightarrow> source_entry list \<Rightarrow> entry_class list \<Rightarrow> shown list \<Rightarrow> view \<Rightarrow> view \<times> shown list" where
  "answerCopies path entries classes out v =
    (case fold (answer_copy entries classes) [0..<length classes] (v, out, 0) of (v', out', retracts) \<Rightarrow>
       (if retracts > 0 then v'\<lparr>vw_after := vw_after v' @ [leftover_notice retracts path]\<rparr> else v', out'))"

text \<open>
  \<^verbatim>\<open>setBreakpoints\<close> once the entries are not too many: \<open>bps\<close> is the session's list as it was
  read for the classification. The replaced list is nil exactly if the session had exited.
\<close>

definition entry_spec :: "source_entry \<Rightarrow> breakpoint_spec" where
  "entry_spec e = no_spec\<lparr>bs_Line := en_Line e, bs_Condition := en_Condition e, bs_HitCondition := en_HitCondition e, bs_LogMessage := en_LogMessage e\<rparr>"

definition place_entries :: "env \<Rightarrow> client \<Rightarrow> string \<Rightarrow> source_entry list \<Rightarrow> api_breakpoint list \<Rightarrow> view \<Rightarrow> session
    \<Rightarrow> view \<times> session \<times> shown list \<times> error option" where
  "place_entries E c path entries bps v s =
    (let file = FileKey (env_fs E) path;
         key = (case file of Inl e \<Rightarrow> [] | Inr k \<Rightarrow> k);
         classes = classify entries key path v (if is_ok file then bps else []) (cl_ID c);
         own = filter (\<lambda>i. classes ! i = EntryOwn) [0..<length entries];
         keep = (if key \<noteq> [] then keep_ids key path v else []);
         v1 = (if key \<noteq> [] then sourceSeen path key (own \<noteq> []) v else v);
         (s', got, err) = ReplaceBreakpoints E c path (map (\<lambda>i. entry_spec (entries ! i)) own) keep s;
         (v2, got_shown) = track (SourceBreakpoints path) (if is_ok file \<and> s_state s = StateExited then None else Some got) v1;
         (v3, out) = answerCopies path entries classes (fill_own own got_shown (replicate (length entries) no_shown)) v2
     in (settle_view key path entries classes v3, s', out, err))"

definition setBreakpoints :: "env \<Rightarrow> client \<Rightarrow> string \<Rightarrow> source_entry list option \<Rightarrow> int list \<Rightarrow> api_breakpoint list \<Rightarrow> view \<Rightarrow> session
    \<Rightarrow> view \<times> session \<times> editor_response result" where
  "setBreakpoints E c path breakpoints lines bps v s =
    (let entries = (case breakpoints of Some es \<Rightarrow> es
         | None \<Rightarrow> map (\<lambda>l. \<lparr>en_Line = l, en_Column = 0, en_Condition = [], en_HitCondition = [], en_LogMessage = []\<rparr>) lines)
     in if length entries > maxRequestBreakpoints then (v, s, Inl (tooManyBreakpoints (length entries)))
        else case place_entries E c path entries bps v s of (v', s', out, err) \<Rightarrow>
          (v', s', case err of None \<Rightarrow> Inr (EdPlaced out) | Some e \<Rightarrow> Inl e))"

definition setFunctionBreakpoints :: "env \<Rightarrow> client \<Rightarrow> function_entry list \<Rightarrow> view \<Rightarrow> session \<Rightarrow> view \<times> session \<times> editor_response result" where
  "setFunctionBreakpoints E c entries v s =
    (if length entries > maxRequestBreakpoints then (v, s, Inl (tooManyBreakpoints (length entries)))
     else let specs = map (\<lambda>e. no_spec\<lparr>bs_Function := fe_Name e, bs_Condition := fe_Condition e, bs_HitCondition := fe_HitCondition e\<rparr>) entries;
              (s', got, err) = ReplaceFunctionBreakpoints E c specs s;
              (v', out) = track FuncBreakpoints (if s_state s = StateExited then None else Some got) v
          in (v', s', case err of None \<Rightarrow> Inr (EdPlaced out) | Some e \<Rightarrow> Inl e))"

section \<open>Exceptions, the lease and the list\<close>

fun exceptionMode :: "string list \<Rightarrow> exception_mode \<Rightarrow> exception_mode" where
  "exceptionMode [] mode = mode"
| "exceptionMode (f # fs) mode =
    (if f = ExceptionsAll then ExceptionsAll
     else if f = ExceptionsUncaught then exceptionMode fs ExceptionsUncaught else exceptionMode fs mode)"

text \<open>
  The connection's part of the state besides its view: \<open>ec_unservable\<close> is a launch
  connection's mode that the adapter cannot serve, said once after the response.
\<close>

record editor_conn =
  ec_presence :: connection
  ec_launch :: bool
  ec_unservable :: exception_mode

abbreviation ec_client :: "editor_conn \<Rightarrow> client" where "ec_client ec \<equiv> cn_client (ec_presence ec)"

definition setExceptionBreakpoints :: "env \<Rightarrow> string list \<Rightarrow> editor_conn \<Rightarrow> session \<Rightarrow> editor_conn \<times> session \<times> editor_response result" where
  "setExceptionBreakpoints E filters ec s =
    (let mode = exceptionMode filters ExceptionsNone;
         cannot = ec_launch ec \<and> mode \<noteq> ExceptionsNone \<and> mode \<notin> set (SupportedExceptionModes s);
         ec1 = (if cannot then ec\<lparr>ec_unservable := mode\<rparr> else ec);
         mode1 = (if cannot then ExceptionsNone else mode)
     in case Exceptions E (ec_client ec) mode1 False s of
          (s', Inl e) \<Rightarrow> (ec1, s', Inl e)
        | (s', Inr r) \<Rightarrow> (ec1, ExceptionsSet (ec_presence ec) mode1 s', Inr EdDone))"

definition afterExceptions :: "editor_conn \<Rightarrow> editor_conn \<times> sent_event list" where
  "afterExceptions ec =
    (if \<not> ec_launch ec \<or> ec_unservable ec = [] then (ec, [])
     else (ec\<lparr>ec_unservable := []\<rparr>, [consoleLine (''the debug adapter can'' @ CHR 0x27 # ''t stop on '' @ ec_unservable ec
        @ '' exceptions: exception stops are off for you'')]))"

definition leaseRequest :: "env \<Rightarrow> client \<Rightarrow> lease_arguments \<Rightarrow> session \<Rightarrow> session \<times> editor_response result" where
  "leaseRequest E c a s =
    (let now = env_now E in
     if lg_Action a = ''policy'' \<and> lg_Policy a = []
     then (s, Inl (NewError CodeInvalidRequest [Lit ''eyedbg/lease policy needs a policy: free, handoff or human-priority'']))
     else case (if lg_Action a = ''status'' then Some (s, Inr (lease_view (s_lease s)))
                else if lg_Action a = ''take'' then Some (TakeLease now c (lg_Force a) s)
                else if lg_Action a = ''release'' then Some (ReleaseLease now c s)
                else if lg_Action a = ''request'' then Some (RequestLease now c (lg_Message a) s)
                else if lg_Action a = ''grant'' then Some (GrantLease now c (lg_To a) (lg_Force a) s)
                else if lg_Action a = ''policy'' then Some (SetLeasePolicy now c (lg_Policy a) (lg_Force a) s)
                else None) of
       None \<Rightarrow> (s, Inl (NewError CodeInvalidRequest [Lit ''eyedbg/lease needs an action: status, take, release, request, grant or policy'']))
     | Some (s', r) \<Rightarrow> (s', map_sum id EdLeaseInfo r))"

text \<open>\<^verbatim>\<open>breakpoints\<close>; \<open>later\<close> is what happens to the session until its list is read.\<close>

definition breakpoints_request :: "env \<Rightarrow> client \<Rightarrow> string \<Rightarrow> int \<Rightarrow> bool \<Rightarrow> (session \<Rightarrow> session) \<Rightarrow> session \<Rightarrow> session \<times> editor_response result" where
  "breakpoints_request E c action i force later s =
    (if action = [] \<or> action = ''list''
     then (case breakpointsBody (Breakpoints E [] s) of (bps, n) \<Rightarrow> (s, Inr (EdBreakpointList bps n 0)))
     else if action = ''remove''
     then (if i < 1 then (s, Inl (NewError CodeInvalidRequest [Lit ''eyedbg/breakpoints remove needs a breakpoint id from 1'']))
           else case RemoveBreakpoint E c i force s of (s1, r) \<Rightarrow>
             (case rm_err r of
                Some e \<Rightarrow> (s1, Inl e)
              | None \<Rightarrow> (let s2 = later s1 in case breakpointsBody (Breakpoints E [] s2) of (bps, n) \<Rightarrow>
                  (s2, Inr (EdBreakpointList bps n (rm_removed r))))))
     else (s, Inl (NewError CodeInvalidRequest [Lit ''eyedbg/breakpoints needs an action: list or remove''])))"

section \<open>Serving\<close>

definition editor_exec :: "env \<Rightarrow> client \<Rightarrow> string \<Rightarrow> int \<Rightarrow> session \<Rightarrow> session \<times> editor_response result" where
  "editor_exec E c kind thread s = (case Exec E c kind thread s of (s', r) \<Rightarrow> (s', map_sum id (\<lambda>_. EdDone) r))"

text \<open>
  \<^verbatim>\<open>serve\<close>: \<open>later\<close> is what other clients and the adapter do to the session between two looks
  of the request at it.
\<close>

fun serve :: "env \<Rightarrow> (session \<Rightarrow> session) \<Rightarrow> editor_request \<Rightarrow> editor_conn \<Rightarrow> view \<Rightarrow> session
    \<Rightarrow> editor_conn \<times> view \<times> session \<times> editor_response result" where
  "serve E later (EdContinue t) ec v s = (ec, v, editor_exec E (ec_client ec) ExecContinue t s)"
| "serve E later (EdNext t) ec v s = (ec, v, editor_exec E (ec_client ec) ExecNext t s)"
| "serve E later (EdStepIn t) ec v s = (ec, v, editor_exec E (ec_client ec) ExecStepIn t s)"
| "serve E later (EdStepOut t) ec v s = (ec, v, editor_exec E (ec_client ec) ExecStepOut t s)"
| "serve E later (EdPause t) ec v s = (ec, v, editor_exec E (ec_client ec) ExecPause t s)"
| "serve E later EdTerminate ec v s = (case Terminate E (ec_client ec) s of (s', r) \<Rightarrow> (ec, v, s', map_sum id (\<lambda>_. EdDone) r))"
| "serve E later (EdSetBreakpoints path entries lines) ec v s =
    (ec, setBreakpoints E (ec_client ec) path entries lines (Breakpoints E [] s) v (later s))"
| "serve E later (EdSetFunctionBreakpoints entries) ec v s = (ec, setFunctionBreakpoints E (ec_client ec) entries v s)"
| "serve E later (EdSetExceptionBreakpoints filters) ec v s =
    (case setExceptionBreakpoints E filters ec s of (ec', s', r) \<Rightarrow> (ec', v, s', r))"
| "serve E later (EdLease a) ec v s = (ec, v, leaseRequest E (ec_client ec) a s)"
| "serve E later EdClients ec v s = (ec, v, s, Inr (EdClientList (clientsLocked s) (sn_Lease (infoLocked s))))"
| "serve E later (EdBreakpoints action i force) ec v s = (ec, v, breakpoints_request E (ec_client ec) action i force later s)"
| "serve E later (EdOther req) ec v s = (case Forward E (ec_client ec) req s of (s', r) \<Rightarrow> (ec, v, s', map_sum id EdForwarded r))"

text \<open>\<^verbatim>\<open>afterBreakpoints\<close>: \<open>s\<close> is the session when the view is reconciled.\<close>

definition afterBreakpoints :: "env \<Rightarrow> client \<Rightarrow> bool \<Rightarrow> session \<Rightarrow> view \<Rightarrow> view \<times> sent_event list" where
  "afterBreakpoints E c was_answered s v =
    (let v1 = v\<lparr>vw_after := []\<rparr> in
     if vw_leaving v then (v1, [])
     else case conn_reconcile E (cl_ID c) s v1 of (v2, news) \<Rightarrow> (v2, (if was_answered then vw_after v else []) @ news))"

text \<open>
  \<^verbatim>\<open>handle\<close>: what is written is the response or an error (shown to the user for an execution
  request), then events; \<open>written\<close> says whether the response could be written. \<open>cause\<close> is
  the end of the connection's context, if it ended: which errors are it. A request that it
  cancelled is not answered (\<^verbatim>\<open>abandoned\<close>, \<^verbatim>\<open>fail\<close>).
\<close>

datatype editor_sent = EdResponse editor_response | EdFailure error bool | EdEvent sent_event

definition abandoned :: "(error \<Rightarrow> bool) option \<Rightarrow> error \<Rightarrow> bool" where
  "abandoned cause e = (case cause of None \<Rightarrow> False | Some is_cause \<Rightarrow> CodeOf e = None \<and> is_cause e)"

definition fail_request :: "(error \<Rightarrow> bool) option \<Rightarrow> error \<Rightarrow> bool \<Rightarrow> editor_sent list" where
  "fail_request cause e showUser = (if abandoned cause e then [] else [EdFailure e showUser])"

definition handle :: "env \<Rightarrow> (session \<Rightarrow> session) \<Rightarrow> (error \<Rightarrow> bool) option \<Rightarrow> bool \<Rightarrow> editor_request \<Rightarrow> editor_conn \<Rightarrow> view \<Rightarrow> session
    \<Rightarrow> editor_conn \<times> view \<times> session \<times> editor_sent list" where
  "handle E later cause written req ec v s =
    (let (ec1, v1, s1, r) = serve E later req ec v s;
         answer_sent = (case r of Inl e \<Rightarrow> fail_request cause e (isExecution req) | Inr x \<Rightarrow> [EdResponse x]);
         was_answered = (is_ok r \<and> written);
         (ec2, excs) = (case req of EdSetExceptionBreakpoints fs \<Rightarrow> if was_answered then afterExceptions ec1 else (ec1, []) | _ \<Rightarrow> (ec1, []));
         (v2, evs, s2) = (if changesBreakpoints req
            then let t = later s1 in case afterBreakpoints E (ec_client ec) was_answered t v1 of (v', evs) \<Rightarrow> (v', evs, t)
            else (v1, [], s1))
     in (ec2, v2, s2, answer_sent @ map EdEvent ((if vw_leaving v1 then [] else excs) @ evs)))"

section \<open>Every request is made of the session's steps\<close>

abbreviation session_steps :: "session \<Rightarrow> session \<Rightarrow> bool" where "session_steps \<equiv> rtranclp session_step"

lemma one_step: "session_step s t \<Longrightarrow> session_steps s t"
  by (rule r_into_rtranclp)

lemma Exec_steps: "session_steps s (fst (Exec E c kind t s))"
proof (cases "kind \<in> {ExecContinue, ExecNext, ExecStepIn, ExecStepOut, ExecPause}")
  case True
  let ?r = "\<lparr>xr_client = c, xr_kind = kind, xr_thread = t, xr_target = None, xr_text = []\<rparr>"
  have "fst (Exec E c kind t s) = fst (execute E ?r s)"
    using True by (cases "execute E ?r s"; cases "snd (execute E ?r s)") (auto simp: Exec_def bind_act_def ret_def)
  then show ?thesis using one_step[OF session_step.Execute[of s E ?r]] by simp
next
  case False
  then show ?thesis by (simp add: Exec_def fail_def)
qed

lemma lease_steps: "session_steps s (fst (leaseRequest E c a s))"
proof -
  note L = one_step[OF session_step.Inter[of s "env_now E" "ClientLease call" for call]]
  have "session_steps s (fst (TakeLease (env_now E) c f s))" for f using L[of "CallTake c f"] by simp
  moreover have "session_steps s (fst (ReleaseLease (env_now E) c s))" using L[of "CallRelease c"] by simp
  moreover have "session_steps s (fst (RequestLease (env_now E) c m s))" for m using L[of "CallRequest c m"] by simp
  moreover have "session_steps s (fst (GrantLease (env_now E) c to f s))" for to f using L[of "CallGrant c to f"] by simp
  moreover have "session_steps s (fst (SetLeasePolicy (env_now E) c p f s))" for p f using L[of "CallPolicy c p f"] by simp
  ultimately show ?thesis by (simp add: leaseRequest_def Let_def case_prod_unfold)
qed

lemma Forward_steps: "session_steps s (fst (Forward E c req s))"
  by (rule one_step) (rule session_step.ForwardRequest)

lemma exceptions_steps: "session_steps s (fst (snd (setExceptionBreakpoints E fs ec s)))"
proof -
  have "session_steps s (fst (Exceptions E c m f s))" for c m f by (rule one_step) (rule session_step.ExceptionMode)
  moreover have "session_steps t (ExceptionsSet cn m t)" for cn m t by (rule one_step) (rule session_step.ExceptionSet)
  ultimately have "session_steps s (fst (Exceptions E c m f s)) \<and> session_steps s (ExceptionsSet cn m (fst (Exceptions E c m f s)))" for c m f cn
    by (meson rtranclp_trans)
  then show ?thesis
    by (auto simp: setExceptionBreakpoints_def Let_def split: prod.splits sum.splits) (metis fst_conv)+
qed

lemma place_steps: "session_steps s (fst (snd (place_entries E c path entries bps v s)))"
  using one_step[OF session_step.Replace[of s E c path]] by (simp add: place_entries_def Let_def case_prod_unfold)

lemma setBreakpoints_steps: "session_steps s (fst (snd (setBreakpoints E c path entries lines bps v s)))"
  using place_steps[of s E c path] by (simp add: setBreakpoints_def Let_def case_prod_unfold)

lemma setFunctionBreakpoints_steps: "session_steps s (fst (snd (setFunctionBreakpoints E c entries v s)))"
  using one_step[OF session_step.ReplaceFunctions[of s E c]] by (simp add: setFunctionBreakpoints_def Let_def case_prod_unfold)

lemma breakpoints_steps:
  assumes "\<And>t. session_steps t (later t)"
  shows "session_steps s (fst (breakpoints_request E c action i force later s))"
proof -
  have "session_steps s (fst (RemoveBreakpoint E c i force s))" by (rule one_step) (rule session_step.Remove)
  then have "session_steps s (later (fst (RemoveBreakpoint E c i force s)))" using assms by (rule rtranclp_trans)
  then show ?thesis using one_step[OF session_step.Remove[of s E c i force]]
    by (simp add: breakpoints_request_def Let_def case_prod_unfold split: option.split)
qed

lemma serve_steps:
  assumes "\<forall>t. session_steps t (later t)"
  shows "session_steps s (fst (snd (snd (serve E later req ec v s))))"
proof (cases req)
  case EdTerminate
  then show ?thesis using one_step[OF session_step.End[of s E "ec_client ec"]] by (simp add: case_prod_unfold)
next
  case (EdSetBreakpoints path entries lines)
  have "session_steps s (later s)" using assms by blast
  then show ?thesis using rtranclp_trans[OF _ setBreakpoints_steps[of "later s"]] EdSetBreakpoints by simp
next
  case (EdBreakpoints action i force)
  then show ?thesis using breakpoints_steps[of later s] assms by simp
qed (simp_all add: editor_exec_def case_prod_unfold Exec_steps lease_steps Forward_steps exceptions_steps setFunctionBreakpoints_steps)

lemma steps_reachable: "session_steps s t \<Longrightarrow> reachable s \<Longrightarrow> reachable t"
  by (induction rule: rtranclp_induct) (auto intro: reachable.Step)

lemma afterBreakpoints_leaving: "vw_leaving (fst (afterBreakpoints E c a s v)) = vw_leaving v"
  "vw_leaving v \<Longrightarrow> snd (afterBreakpoints E c a s v) = []"
  by (auto simp: afterBreakpoints_def conn_reconcile_def Let_def case_prod_unfold reconcile_flags)

lemma no_exceptions: "changesBreakpoints req \<Longrightarrow> (case req of EdSetExceptionBreakpoints fs \<Rightarrow> f fs | _ \<Rightarrow> y) = y"
  by (cases req) simp_all

text \<open>The response a request is owed.\<close>

fun fits :: "editor_request \<Rightarrow> editor_response \<Rightarrow> bool" where
  "fits (EdSetBreakpoints path entries lines) (EdPlaced out) = True"
| "fits (EdSetFunctionBreakpoints entries) (EdPlaced out) = True"
| "fits (EdSetExceptionBreakpoints filters) EdDone = True"
| "fits (EdLease a) (EdLeaseInfo i) = True"
| "fits EdClients (EdClientList cs l) = True"
| "fits (EdBreakpoints action i force) (EdBreakpointList bps n removed) = (removed = 0 \<or> action = ''remove'')"
| "fits (EdOther req) (EdForwarded r) = True"
| "fits req EdDone = (req = EdTerminate \<or> (\<exists>t. req \<in> {EdContinue t, EdNext t, EdStepIn t, EdStepOut t, EdPause t}))"
| "fits _ _ = False"

lemma map_sum_Inr_iff: "map_sum f g x = Inr y \<longleftrightarrow> (\<exists>z. x = Inr z \<and> y = g z)"
  by (cases x) auto

lemma setBreakpoints_fits: "setBreakpoints E c path entries lines bps v s = (v', s', Inr x) \<Longrightarrow> \<exists>out. x = EdPlaced out"
  by (auto simp: setBreakpoints_def Let_def split: if_splits prod.splits option.splits)

lemma setFunctionBreakpoints_fits: "setFunctionBreakpoints E c entries v s = (v', s', Inr x) \<Longrightarrow> \<exists>out. x = EdPlaced out"
  by (auto simp: setFunctionBreakpoints_def Let_def split: if_splits prod.splits option.splits)

lemma setExceptionBreakpoints_fits: "setExceptionBreakpoints E fs ec s = (ec', s', Inr x) \<Longrightarrow> x = EdDone"
  by (auto simp: setExceptionBreakpoints_def Let_def split: if_splits prod.splits sum.splits)

lemma leaseRequest_fits: "leaseRequest E c a s = (s', Inr x) \<Longrightarrow> \<exists>i. x = EdLeaseInfo i"
  by (auto simp: leaseRequest_def Let_def map_sum_Inr_iff split: if_splits prod.splits option.splits)

lemma breakpoints_fits: "breakpoints_request E c action i force later s = (s', Inr x) \<Longrightarrow> fits (EdBreakpoints action i force) x"
  by (auto simp: breakpoints_request_def Let_def split: if_splits prod.splits option.splits)

lemma serve_fits: "serve E later req ec v s = (ec', v', s', Inr x) \<Longrightarrow> fits req x"
  by (cases req)
    (auto simp: editor_exec_def map_sum_Inr_iff breakpoints_fits split: prod.splits
      dest!: setBreakpoints_fits setFunctionBreakpoints_fits setExceptionBreakpoints_fits leaseRequest_fits)

text \<open>
  C21: whatever an editor requests and whatever others do to the session meanwhile, the
  session changes only by the steps every client's calls are made of, so it stays one
  that can be reached and keeps its invariants. What is written first is the answer: the
  response that is owed to such a request if it succeeded, or its error. The one request
  with no answer is one that failed because the connection's context ended. Every event it
  causes comes after the answer, and there is none once the connection is leaving.
\<close>

theorem editor_request_is_answered:
  assumes "reachable s" "\<forall>t. session_steps t (later t)" "handle E later cause written req ec v s = (ec', v', s', sent)"
  shows "session_steps s s' \<and> reachable s'
    \<and> (\<exists>answer evs. sent = answer @ map EdEvent evs \<and> (vw_leaving v' \<longrightarrow> evs = [])
        \<and> (case snd (snd (snd (serve E later req ec v s))) of
             Inr x \<Rightarrow> answer = [EdResponse x] \<and> fits req x
           | Inl e \<Rightarrow> if \<exists>is_cause. cause = Some is_cause \<and> is_cause e \<and> CodeOf e = None then answer = []
                     else answer = [EdFailure e (isExecution req)]))"
proof -
  obtain ec1 v1 s1 r where served: "serve E later req ec v s = (ec1, v1, s1, r)" by (metis prod_cases4)
  have s1: "session_steps s s1" using serve_steps[OF assms(2), of s E req ec v] by (simp add: served)
  have "session_steps s1 (later s1)" using assms(2) by blast
  then have "session_steps s (later s1)" using s1 by (rule rtranclp_trans[rotated])
  let ?X = "case r of Inl e \<Rightarrow> fail_request cause e (isExecution req) | Inr x \<Rightarrow> [EdResponse x]"
  have shape: "s' \<in> {s1, later s1} \<and> (\<exists>evs. sent = ?X @ map EdEvent evs \<and> (vw_leaving v' \<longrightarrow> evs = []))"
  proof (cases "changesBreakpoints req")
    case True
    obtain v2 evs where a: "afterBreakpoints E (ec_client ec) (is_ok r \<and> written) (later s1) v1 = (v2, evs)" by fastforce
    have "v' = v2 \<and> s' = later s1 \<and> sent = ?X @ map EdEvent evs"
      using assms(3) True by (auto simp: handle_def served Let_def a no_exceptions[OF True])
    then show ?thesis using afterBreakpoints_leaving[where E=E and c="ec_client ec" and a="is_ok r \<and> written" and s="later s1" and v=v1]
      by (auto simp: a)
  next
    case False
    then have "v' = v1 \<and> s' = s1 \<and> (\<exists>excs. sent = ?X @ map EdEvent (if vw_leaving v1 then [] else excs))"
      using assms(3) by (auto simp: handle_def served Let_def split: prod.splits)
    then show ?thesis by auto
  qed
  then obtain evs where evs: "sent = ?X @ map EdEvent evs" "vw_leaving v' \<longrightarrow> evs = []" by blast
  have steps: "session_steps s s'" using shape s1 \<open>session_steps s (later s1)\<close> by blast
  have kind: "case r of Inr x \<Rightarrow> ?X = [EdResponse x] \<and> fits req x
      | Inl e \<Rightarrow> if \<exists>is_cause. cause = Some is_cause \<and> is_cause e \<and> CodeOf e = None then ?X = []
                else ?X = [EdFailure e (isExecution req)]"
    using serve_fits served by (auto simp: fail_request_def abandoned_def split: sum.split option.splits)
  show ?thesis
    unfolding served snd_conv
    by (intro conjI exI[of _ ?X] exI[of _ evs]) (rule steps steps_reachable[OF steps assms(1)] evs kind)+
qed

definition demo_conn :: editor_conn where
  "demo_conn = \<lparr>ec_presence = \<lparr>cn_client = demo_client KindHuman, cn_left = False\<rparr>, ec_launch = False, ec_unservable = []\<rparr>"

theorem editor_request_is_answered_witness:
  "reachable (fst (snd (snd (handle demo_env id None True (EdLease \<lparr>lg_Action = ''take'', lg_To = [], lg_Policy = [], lg_Force = False, lg_Message = []\<rparr>)
      demo_conn newView demo_session))))"
proof -
  have "reachable demo_session" by (simp add: demo_session_def reachable.Start)
  moreover have "\<forall>t. session_steps t (id t)" by simp
  moreover obtain ec' v' s' sent where h: "handle demo_env id None True (EdLease \<lparr>lg_Action = ''take'', lg_To = [], lg_Policy = [], lg_Force = False, lg_Message = []\<rparr>)
      demo_conn newView demo_session = (ec', v', s', sent)" by (metis prod_cases4)
  ultimately show ?thesis using editor_request_is_answered[of demo_session id] by simp
qed

section \<open>The answers to a setBreakpoints request\<close>

lemma fill_own_simps [simp]:
  "fill_own [] bs out = out" "fill_own own [] out = out" "fill_own (i # own) (b # bs) out = fill_own own bs (out[i := b])"
  by (simp_all add: fill_own_def)

lemma fill_own_length [simp]: "length (fill_own own bs out) = length out"
  by (induction own bs arbitrary: out rule: list_induct2') simp_all

lemma fill_own_other: "i \<notin> set own \<Longrightarrow> fill_own own bs out ! i = out ! i"
  by (induction own bs arbitrary: out rule: list_induct2') simp_all

lemma fill_own_at:
  "distinct own \<Longrightarrow> j < length own \<Longrightarrow> j < length bs \<Longrightarrow> own ! j < length out \<Longrightarrow> fill_own own bs out ! (own ! j) = bs ! j"
proof (induction own bs arbitrary: out j rule: list_induct2')
  case (4 i own b bs)
  then show ?case by (cases j) (simp_all add: fill_own_other)
qed simp_all

definition is_answer :: "source_entry list \<Rightarrow> entry_class list \<Rightarrow> shown list \<Rightarrow> view \<Rightarrow> view \<Rightarrow> nat \<Rightarrow> shown \<Rightarrow> bool" where
  "is_answer entries classes out v v' i x \<longleftrightarrow>
    (case classes ! i of
       EntryOwn \<Rightarrow> x = out ! i
     | EntryEcho k b \<Rightarrow> x = b
     | EntryDuplicate \<Rightarrow> sh_Id x = 0
     | EntryRetract \<Rightarrow> sh_Id x < vw_lastRetract v \<and> BreakpointSent actionRemoved (removed_shown (sh_Id x)) \<in> set (vw_after v'))"

lemma is_answer_later: "is_answer entries classes out v v1 i x \<Longrightarrow> set (vw_after v1) \<subseteq> set (vw_after v2) \<Longrightarrow> is_answer entries classes out v v2 i x"
  by (auto simp: is_answer_def split: entry_class.splits)

lemma answer_copy_step:
  assumes "answer_copy entries classes i (v, out, r) = (v1, out1, r1)" "i < length out"
  shows "length out1 = length out \<and> set (vw_after v) \<subseteq> set (vw_after v1) \<and> vw_lastRetract v1 \<le> vw_lastRetract v
    \<and> is_answer entries classes out v v1 i (out1 ! i) \<and> (\<forall>j. j \<noteq> i \<longrightarrow> out1 ! j = out ! j)"
  using assms
  by (auto simp: answer_copy_def is_answer_def nextRetractID_def retracted_def no_shown_def Let_def split: entry_class.splits prod.splits)

lemma answer_copies:
  assumes "fold (answer_copy entries classes) is (v, out, r) = (v', out', r')" "distinct is" "\<forall>i \<in> set is. i < length out"
  shows "length out' = length out \<and> set (vw_after v) \<subseteq> set (vw_after v') \<and> vw_lastRetract v' \<le> vw_lastRetract v
    \<and> (\<forall>i \<in> set is. is_answer entries classes out v v' i (out' ! i)) \<and> (\<forall>j. j \<notin> set is \<longrightarrow> out' ! j = out ! j)"
  using assms
proof (induction "is" arbitrary: v out r)
  case (Cons i "is")
  obtain v1 out1 r1 where 1: "answer_copy entries classes i (v, out, r) = (v1, out1, r1)" by (metis prod_cases3)
  note S = answer_copy_step[OF 1]
  have i: "i < length out" "i \<notin> set is" "distinct is" using Cons.prems by auto
  have "fold (answer_copy entries classes) is (v1, out1, r1) = (v', out', r')" "\<forall>j \<in> set is. j < length out1"
    using Cons.prems(1,3) S[OF i(1)] by (simp_all add: 1)
  note IH = Cons.IH[OF this(1) i(3) this(2)]
  have same: "is_answer entries classes out v v' j x" if "is_answer entries classes out1 v1 v' j x" "j \<in> set is" for j x
    using that S[OF i(1)] i(2) by (auto simp: is_answer_def split: entry_class.splits)
  show ?case using IH S[OF i(1)] i same is_answer_later[of entries classes out v v1 i "out1 ! i" v'] by auto
qed simp

lemma answerCopies_spec:
  assumes "answerCopies path entries classes out v = (v', out')" "length classes = length out"
  shows "length out' = length out \<and> (\<forall>i < length out. is_answer entries classes out v v' i (out' ! i))"
proof -
  obtain v1 out1 r where f: "fold (answer_copy entries classes) [0..<length classes] (v, out, 0) = (v1, out1, r)" by (metis prod_cases3)
  have "out' = out1" "set (vw_after v1) \<subseteq> set (vw_after v')" using assms(1) by (auto simp: answerCopies_def f split: if_splits)
  then show ?thesis using answer_copies[OF f] assms(2) is_answer_later[of entries classes out v v1 _ _ v'] by auto
qed

lemma settle_after [simp]: "vw_after (settle_view key path entries classes v) = vw_after v"
proof -
  have "vw_after (settle_entry key path p v) = vw_after v" for p v by (cases "(key, path, p, v)" rule: settle_entry.cases) simp_all
  then have "vw_after (fold (settle_entry key path) ps v) = vw_after v" for ps by (induction ps arbitrary: v) simp_all
  then show ?thesis by (simp add: settle_view_def Let_def)
qed

lemma seen_retract [simp]: "vw_lastRetract (sourceSeen path key own v) = vw_lastRetract v"
  by (simp add: sourceSeen_def Let_def)

lemma track_retract [simp]: "vw_lastRetract (fst (track key got v)) = vw_lastRetract v"
  by (simp add: track_def Let_def split: option.split)

lemma track_shown [simp]: "snd (track key (Some bs) v) = map dapBreakpoint bs"
  by (simp add: track_def Let_def)

text \<open>What a request that places entries runs through.\<close>

definition own_entries :: "entry_class list \<Rightarrow> nat list" where
  "own_entries classes = filter (\<lambda>i. classes ! i = EntryOwn) [0..<length classes]"

lemma place_entries_run:
  assumes "s_state s \<noteq> StateExited" "FileKey (env_fs E) path = Inr key" "key \<noteq> []" "place_entries E c path entries bps v s = (v', s', out, err)"
    and len: "length (classify entries key path v bps (cl_ID c)) = length entries"
  defines "classes \<equiv> classify entries key path v bps (cl_ID c)"
  obtains got v2 v3 where
    "ReplaceBreakpoints E c path (map (\<lambda>i. entry_spec (entries ! i)) (own_entries classes)) (keep_ids key path v) s = (s', got, err)"
    "answerCopies path entries classes (fill_own (own_entries classes) (map dapBreakpoint got) (replicate (length entries) no_shown)) v2 = (v3, out)"
    "vw_lastRetract v2 = vw_lastRetract v" "vw_after v' = vw_after v3"
proof -
  let ?v1 = "sourceSeen path key (own_entries classes \<noteq> []) v"
  have own: "filter (\<lambda>i. classes ! i = EntryOwn) [0..<length entries] = own_entries classes" using len by (simp add: own_entries_def classes_def)
  obtain s1 got err' where r: "ReplaceBreakpoints E c path (map (\<lambda>i. entry_spec (entries ! i)) (own_entries classes)) (keep_ids key path v) s = (s1, got, err')"
    by (metis prod_cases3)
  obtain v2 where t: "track (SourceBreakpoints path) (Some got) ?v1 = (v2, map dapBreakpoint got)" by (metis prod.collapse track_shown)
  obtain v3 out1 where a: "answerCopies path entries classes (fill_own (own_entries classes) (map dapBreakpoint got) (replicate (length entries) no_shown)) v2 = (v3, out1)"
    by fastforce
  have "place_entries E c path entries bps v s = (settle_view key path entries classes v3, s1, out1, err')"
    using assms(1,3) own r t a by (simp add: place_entries_def assms(2) classes_def[symmetric])
  then have "s1 = s'" "out1 = out" "err' = err" "vw_after v' = vw_after v3" using assms(4) by simp_all
  moreover have "vw_lastRetract v2 = vw_lastRetract v" using track_retract[of "SourceBreakpoints path" "Some got" ?v1] by (simp add: t)
  ultimately show ?thesis using r a that by blast
qed

text \<open>The session's answer to an own entry is the answer to that entry.\<close>

lemma own_answer:
  assumes "answerCopies path entries classes (fill_own (own_entries classes) (map dapBreakpoint got) (replicate (length entries) no_shown)) v2 = (v3, out)"
    "length classes = length entries" "length got = length (own_entries classes)" "i \<in> bp_ID ` set got"
  shows "\<exists>k < length entries. classes ! k = EntryOwn \<and> sh_Id (out ! k) = i"
proof -
  obtain j where j: "j < length got" "bp_ID (got ! j) = i" using assms(4) by (auto simp: in_set_conv_nth)
  let ?k = "own_entries classes ! j"
  have "?k \<in> set (own_entries classes)" using j(1) assms(3) by simp
  then have k: "?k < length entries" "classes ! ?k = EntryOwn" using assms(2) by (auto simp: own_entries_def)
  then have "out ! ?k = fill_own (own_entries classes) (map dapBreakpoint got) (replicate (length entries) no_shown) ! ?k"
    using answerCopies_spec[OF assms(1)] assms(2) by (auto simp: is_answer_def)
  also have "\<dots> = dapBreakpoint (got ! j)"
    using fill_own_at[of "own_entries classes" j "map dapBreakpoint got" "replicate (length entries) no_shown"] j(1) assms(3) k(1)
    by (simp add: own_entries_def)
  finally show ?thesis using k j(2) by auto
qed

text \<open>
  C19: a setBreakpoints request never makes a copy of another client's breakpoint the
  user's own, whatever the editor sends, the adapter answers and others did since the
  entries were classified: other clients' breakpoints stay as they were; every editor
  breakpoint the client has in the file afterwards is one that another list of the
  connection holds, or the answer to an entry that was taken as the client's own; and
  every other entry is answered by the breakpoint it is a copy of, refused as a duplicate
  (with no id), or retracted: a new negative id, removed right after the response.
\<close>

theorem copies_never_reach_the_session:
  assumes "sess_inv s" "s_state s \<noteq> StateExited" "view_ok v" "vw_lastRetract v \<le> 0"
    "FileKey (env_fs E) path = Inr key" "key \<noteq> []" "place_entries E c path entries bps v s = (v', s', out, err)"
  shows "sess_inv s' \<and> filter (prot (cl_ID c)) (view_bps (bp_view s')) = filter (prot (cl_ID c)) (view_bps (bp_view s))
    \<and> length out = length entries
    \<and> (\<forall>b \<in> set (all_bps s'). \<not> prot (cl_ID c) b \<and> bp_Editor b \<and> bp_File b = key \<longrightarrow> bp_ID b \<in> set (keep_ids key path v)
        \<or> (\<exists>i < length entries. taken_as_own (indexFile key path v bps (cl_ID c)) entries i \<and> sh_Id (out ! i) = bp_ID b))
    \<and> (\<forall>i < length entries. \<not> taken_as_own (indexFile key path v bps (cl_ID c)) entries i \<longrightarrow>
        stands_for (indexFile key path v bps (cl_ID c)) (sh_Id (out ! i)) (out ! i) \<or> sh_Id (out ! i) = 0
        \<or> sh_Id (out ! i) < 0 \<and> BreakpointSent actionRemoved (removed_shown (sh_Id (out ! i))) \<in> set (vw_after v'))"
proof -
  let ?f = "indexFile key path v bps (cl_ID c)" and ?classes = "classify entries key path v bps (cl_ID c)" and ?n = "length entries"
  note C = classify_spec[OF assms(3,6), of entries path bps "cl_ID c"]
  obtain got v2 v3 where r: "ReplaceBreakpoints E c path (map (\<lambda>i. entry_spec (entries ! i)) (own_entries ?classes)) (keep_ids key path v) s = (s', got, err)"
    and a: "answerCopies path entries ?classes (fill_own (own_entries ?classes) (map dapBreakpoint got) (replicate ?n no_shown)) v2 = (v3, out)"
    and v: "vw_lastRetract v2 = vw_lastRetract v" "vw_after v' = vw_after v3"
    by (rule place_entries_run[OF assms(2,5,6,7) conjunct1[OF C]])
  note F = ReplaceBreakpoints_facts[OF assms(1) r assms(5,2)]
  have A: "length out = ?n \<and> (\<forall>i < ?n. is_answer entries ?classes (fill_own (own_entries ?classes) (map dapBreakpoint got) (replicate ?n no_shown)) v2 v3 i (out ! i))"
    using answerCopies_spec[OF a] C by simp
  have len: "length got = length (own_entries ?classes)" using F by simp
  have own: "\<exists>i < ?n. taken_as_own ?f entries i \<and> sh_Id (out ! i) = bp_ID b" if "bp_ID b \<in> bp_ID ` set got" for b
    using own_answer[OF a conjunct1[OF C] len that] C by blast
  have copies: "stands_for ?f (sh_Id (out ! i)) (out ! i) \<or> sh_Id (out ! i) = 0
      \<or> sh_Id (out ! i) < 0 \<and> BreakpointSent actionRemoved (removed_shown (sh_Id (out ! i))) \<in> set (vw_after v')"
    if i: "i < ?n" "\<not> taken_as_own ?f entries i" for i
  proof -
    note ans = A[THEN conjunct2, rule_format, OF i(1), unfolded is_answer_def]
    have "?classes ! i \<noteq> EntryOwn" using C i by blast
    moreover have "stands_for ?f k x" if "?classes ! i = EntryEcho k x" for k x using C i(1) that by blast
    ultimately show ?thesis using ans assms(4) v by (cases "?classes ! i") (simp_all add: stands_for_def)
  qed
  show ?thesis using F A own copies by blast
qed

theorem copies_never_reach_the_session_witness:
  "sess_inv (fst (snd (place_entries demo_env (demo_client KindHuman) ''/a.cs''
      [\<lparr>en_Line = 5, en_Column = 1, en_Condition = [], en_HitCondition = [], en_LogMessage = []\<rparr>] [] newView demo_session)))"
proof -
  let ?p = "place_entries demo_env (demo_client KindHuman) ''/a.cs''
      [\<lparr>en_Line = 5, en_Column = 1, en_Condition = [], en_HitCondition = [], en_LogMessage = []\<rparr>] [] newView demo_session"
  have key: "FileKey (env_fs demo_env) ''/a.cs'' = Inr ''/a.cs''" by (simp add: FileKey_def demo_env_def IsAbs_def)
  have v: "view_ok newView" "vw_lastRetract newView \<le> 0" by (simp_all add: view_ok_def newView_def)
  have st: "s_state demo_session \<noteq> StateExited" by (simp add: demo_session_more)
  obtain v' s' out err where p: "?p = (v', s', out, err)" by (metis prod_cases4)
  show ?thesis using copies_never_reach_the_session[OF demo_session_inv st v key _ p] by (simp add: p)
qed

section \<open>A breakpoint under two paths\<close>

text \<open>
  A client's breakpoint that was not set by its editor is mirrored. If the editor then sets
  one at its line under the file's other path, the session adopts it and \<open>track\<close> reports
  it, but \<open>settle_view\<close> takes only mirrors of the request's path out of the view. The next
  reconcile tells the editor that the breakpoint it just set was removed, while the view
  still holds it as reported.
\<close>

definition twice_view :: "api_breakpoint \<Rightarrow> string \<Rightarrow> string \<Rightarrow> view" where
  "twice_view b self path = newView\<lparr>vw_configured := True, vw_reported := [(bp_ID b, dapBreakpoint b)],
    vw_mirrors := [(bp_ID b, \<lparr>mi_key = bp_File b, mi_path = path, mi_line = bp_Line b, mi_told = mirrorBreakpoint b self path\<rparr>)]\<rparr>"

lemma reported_mirror_is_removed:
  "snd (reconcile (twice_view b self path) self [b]) = [BreakpointSent actionRemoved (removed_shown (bp_ID b))]"
  "map_of (vw_reported (fst (reconcile (twice_view b self path) self [b]))) (bp_ID b) = Some (dapBreakpoint b)"
  by (simp_all add: reconcile_def reconcileReported_def twice_view_def newView_def wanted_def own_lines_def mirrorable_def event_group_def)

end
