(* ===== verification/Handshake.thy ===== *)
theory Handshake
  imports Editor
begin

text \<open>
  The order in which a connection handles its requests (\<^verbatim>\<open>dispatch\<close>, \<^verbatim>\<open>admissible\<close> and the
  lifecycle requests of \<^verbatim>\<open>internal/facade/requests.go\<close>, \<^verbatim>\<open>readLoop\<close> and \<^verbatim>\<open>spawn\<close> of
  \<^verbatim>\<open>facade.go\<close>, and a launch connection's part in \<^verbatim>\<open>launch.go\<close>) as a state machine: one
  reader, one worker that handles the requests that change something in the order they
  came, the others on goroutines of their own, and a launch connection's launch. What a
  request does to the session is in the theory before; here it is when it may be handled.
\<close>

section \<open>The connection\<close>

datatype phase = PhaseNew | PhaseInitialized | PhaseLaunching | PhaseAttached | PhaseConfigured | PhaseFailed

text \<open>
  A request as the reader reads it, with what decides about it: whether the initialize's
  arguments are those the facade needs and the session's start is over (\<^verbatim>\<open>Ready\<close>), whether
  attach names this session, whether a launch's arguments are valid.
\<close>

datatype conn_request =
    RqInitialize bool bool
  | RqAttach bool
  | RqLaunch bool
  | RqConfigurationDone
  | RqTerminal
  | RqDisconnect
  | RqOther editor_request

text \<open>
  What is handed to the worker or to a goroutine; with a request, the phase in which it was
  let pass, which the code does not keep: it is what the properties speak of.
\<close>

datatype work = WorkRequest editor_request phase | WorkConfigured | WorkStopLaunch

definition maxInFlight :: nat where "maxInFlight = 32"

text \<open>
  \<open>dc_accepted\<close> and \<open>dc_handled\<close> record the worker's requests in the order they were handed to
  it and handled; \<open>dc_served\<close> every request whose handling began, with the phase then.
\<close>

record dap_conn =
  dc_launch :: bool
  dc_phase :: phase
  dc_started :: bool
  dc_finished :: bool
  dc_launched :: bool
  dc_configured :: bool
  dc_reading :: bool
  dc_queue :: "work list"
  dc_busy :: "work option"
  dc_goroutines :: "work list"
  dc_accepted :: "work list"
  dc_handled :: "work list"
  dc_served :: "(work \<times> phase) list"

definition new_conn :: "bool \<Rightarrow> dap_conn" where
  "new_conn launch = \<lparr>dc_launch = launch, dc_phase = PhaseNew, dc_started = False, dc_finished = False, dc_launched = False,
    dc_configured = False, dc_reading = True, dc_queue = [], dc_busy = None, dc_goroutines = [], dc_accepted = [], dc_handled = [],
    dc_served = []\<rparr>"

definition in_flight :: "dap_conn \<Rightarrow> nat" where
  "in_flight c = length (dc_queue c) + (case dc_busy c of None \<Rightarrow> 0 | Some w \<Rightarrow> 1) + length (dc_goroutines c)"

section \<open>Dispatching\<close>

definition admissible :: "dap_conn \<Rightarrow> editor_request \<Rightarrow> unit result" where
  "admissible c req =
    (case dc_phase c of
       PhaseNew \<Rightarrow> Inl (NewError CodeInvalidRequest [Lit ''send initialize first''])
     | PhaseInitialized \<Rightarrow> Inl (NewError CodeInvalidRequest [Lit (if dc_launch c then ''send launch first'' else ''attach to the session first'')])
     | PhaseLaunching \<Rightarrow> Inl (NewError CodeInvalidRequest [Lit ''the session is still starting: wait for the initialized event''])
     | PhaseFailed \<Rightarrow> Inl (NewError CodeInvalidRequest [Lit (''this connection'' @ CHR 0x27 # ''s launch failed: disconnect, then launch again'')])
     | PhaseAttached \<Rightarrow> if isExecution req then Inl (NewError CodeInvalidRequest [Lit ''needs configurationDone first'']) else Inr ()
     | PhaseConfigured \<Rightarrow> Inr ())"

text \<open>\<^verbatim>\<open>spawn\<close>, once a slot is free.\<close>

definition spawn :: "bool \<Rightarrow> work \<Rightarrow> dap_conn \<Rightarrow> dap_conn" where
  "spawn ordered w c =
    (if ordered then c\<lparr>dc_queue := dc_queue c @ [w], dc_accepted := dc_accepted c @ [w]\<rparr>
     else c\<lparr>dc_goroutines := dc_goroutines c @ [w], dc_served := dc_served c @ [(w, dc_phase c)]\<rparr>)"

definition dispatchOther :: "editor_request \<Rightarrow> dap_conn \<Rightarrow> dap_conn" where
  "dispatchOther req c = (if is_ok (admissible c req) then spawn (isOrdered req) (WorkRequest req (dc_phase c)) c else c)"

definition initialize_conn :: "bool \<Rightarrow> bool \<Rightarrow> dap_conn \<Rightarrow> dap_conn" where
  "initialize_conn args_ok ready c =
    (if dc_phase c \<noteq> PhaseNew \<or> \<not> args_ok \<or> (\<not> dc_launch c \<and> \<not> ready) then c else c\<lparr>dc_phase := PhaseInitialized\<rparr>)"

definition attach_conn :: "bool \<Rightarrow> dap_conn \<Rightarrow> dap_conn" where
  "attach_conn names_this c = (if dc_phase c \<noteq> PhaseInitialized \<or> \<not> names_this then c else c\<lparr>dc_phase := PhaseAttached\<rparr>)"

definition startLaunch :: "bool \<Rightarrow> dap_conn \<Rightarrow> dap_conn" where
  "startLaunch args_ok c =
    (if dc_phase c \<noteq> PhaseInitialized \<or> dc_started c \<or> \<not> args_ok then c else c\<lparr>dc_started := True, dc_phase := PhaseLaunching\<rparr>)"

definition configurationDone_conn :: "dap_conn \<Rightarrow> dap_conn" where
  "configurationDone_conn c =
    (if dc_phase c \<noteq> PhaseAttached then c
     else if dc_launch c then spawn True WorkConfigured c else c\<lparr>dc_phase := PhaseConfigured\<rparr>)"

text \<open>\<^verbatim>\<open>launchTerminate\<close>: None where terminate takes the usual path.\<close>

definition launchTerminate :: "dap_conn \<Rightarrow> dap_conn option" where
  "launchTerminate c =
    (if \<not> dc_started c \<or> (dc_finished c \<and> \<not> dc_launched c) then Some c
     else if \<not> dc_finished c then Some (spawn False WorkStopLaunch c)
     else None)"

fun dispatch_request :: "conn_request \<Rightarrow> dap_conn \<Rightarrow> dap_conn" where
  "dispatch_request (RqInitialize args_ok ready) c = initialize_conn args_ok ready c"
| "dispatch_request (RqAttach names_this) c = (if dc_launch c then c else attach_conn names_this c)"
| "dispatch_request (RqLaunch args_ok) c = (if \<not> dc_launch c then c else startLaunch args_ok c)"
| "dispatch_request RqConfigurationDone c = configurationDone_conn c"
| "dispatch_request RqTerminal c = c"
| "dispatch_request RqDisconnect c = c\<lparr>dc_reading := False\<rparr>"
| "dispatch_request (RqOther EdTerminate) c =
    (case (if dc_launch c then launchTerminate c else None) of Some c' \<Rightarrow> c' | None \<Rightarrow> dispatchOther EdTerminate c)"
| "dispatch_request (RqOther req) c = dispatchOther req c"

section \<open>Steps\<close>

text \<open>
  The reader dispatches only while a slot is free: where a request needs none, the source
  would not wait, and dispatching it later is one of the orders. The launch goroutine
  binds the session, ends well only once configured, or fails at any time.
\<close>

definition end_work :: "work \<Rightarrow> dap_conn \<Rightarrow> dap_conn" where
  "end_work w c = (if w = WorkConfigured then c\<lparr>dc_configured := True\<rparr> else c)"

inductive conn_step :: "dap_conn \<Rightarrow> dap_conn \<Rightarrow> bool" where
  Read: "dc_reading c \<Longrightarrow> in_flight c < maxInFlight \<Longrightarrow> conn_step c (dispatch_request r c)"
| ReadEnds: "conn_step c (c\<lparr>dc_reading := False\<rparr>)"
| WorkerTakes: "dc_busy c = None \<Longrightarrow> dc_queue c = w # ws
    \<Longrightarrow> conn_step c (c\<lparr>dc_queue := ws, dc_busy := Some w, dc_served := dc_served c @ [(w, dc_phase c)]\<rparr>)"
| WorkerDone: "dc_busy c = Some w \<Longrightarrow> conn_step c (end_work w (c\<lparr>dc_busy := None, dc_handled := dc_handled c @ [w]\<rparr>))"
| GoroutineDone: "w \<in> set (dc_goroutines c) \<Longrightarrow> conn_step c (c\<lparr>dc_goroutines := remove1 w (dc_goroutines c)\<rparr>)"
| LaunchBinds: "dc_started c \<Longrightarrow> \<not> dc_finished c \<Longrightarrow> dc_phase c = PhaseLaunching \<Longrightarrow> conn_step c (c\<lparr>dc_phase := PhaseAttached\<rparr>)"
| LaunchSucceeds: "dc_started c \<Longrightarrow> \<not> dc_finished c \<Longrightarrow> dc_phase c = PhaseAttached \<Longrightarrow> dc_configured c
    \<Longrightarrow> conn_step c (c\<lparr>dc_phase := PhaseConfigured, dc_finished := True, dc_launched := True\<rparr>)"
| LaunchFails: "dc_started c \<Longrightarrow> \<not> dc_finished c \<Longrightarrow> conn_step c (c\<lparr>dc_phase := PhaseFailed, dc_finished := True\<rparr>)"

inductive conn_reachable :: "dap_conn \<Rightarrow> bool" where
  conn_new: "conn_reachable (new_conn launch)"
| conn_next: "conn_reachable c \<Longrightarrow> conn_step c c' \<Longrightarrow> conn_reachable c'"

section \<open>The invariant\<close>

text \<open>A request let pass before the handshake was over is no execution request; one let pass after it was.\<close>

definition conf_work :: "work \<Rightarrow> bool" where
  "conf_work w \<longleftrightarrow> (case w of WorkRequest req p \<Rightarrow> p = PhaseConfigured | _ \<Rightarrow> False)"

definition admitted_ok :: "work \<Rightarrow> bool" where
  "admitted_ok w \<longleftrightarrow>
    (case w of WorkRequest req p \<Rightarrow> p = PhaseConfigured \<or> p = PhaseAttached \<and> \<not> isExecution req | _ \<Rightarrow> True)"

definition is_session_work :: "work \<Rightarrow> bool" where
  "is_session_work w \<longleftrightarrow> (case w of WorkRequest req p \<Rightarrow> True | _ \<Rightarrow> False)"

definition busy_list :: "dap_conn \<Rightarrow> work list" where
  "busy_list c = (case dc_busy c of None \<Rightarrow> [] | Some w \<Rightarrow> [w])"

definition bound :: "phase \<Rightarrow> bool" where
  "bound p \<longleftrightarrow> p = PhaseAttached \<or> p = PhaseConfigured \<or> p = PhaseFailed"

definition conn_inv :: "dap_conn \<Rightarrow> bool" where
  "conn_inv c \<longleftrightarrow> in_flight c \<le> maxInFlight \<and> dc_handled c @ busy_list c @ dc_queue c = dc_accepted c
    \<and> (\<forall>w \<in> set (dc_accepted c). admitted_ok w \<and> (conf_work w \<longrightarrow> dc_phase c = PhaseConfigured))
    \<and> (\<forall>(w, p) \<in> set (dc_served c). admitted_ok w \<and> (conf_work w \<longrightarrow> p = PhaseConfigured \<and> dc_phase c = PhaseConfigured) \<and> (is_session_work w \<longrightarrow> bound p))
    \<and> (dc_accepted c = [] \<or> bound (dc_phase c))
    \<and> ((\<exists>w \<in> set (map fst (dc_served c)). is_session_work w) \<longrightarrow> bound (dc_phase c))
    \<and> (dc_configured c \<longrightarrow> WorkConfigured \<in> set (dc_handled c))
    \<and> (dc_phase c = PhaseConfigured \<longrightarrow> \<not> dc_launch c \<or> dc_finished c \<and> dc_configured c)
    \<and> (\<not> dc_launch c \<longrightarrow> \<not> dc_started c \<and> WorkConfigured \<notin> set (dc_accepted c))
    \<and> (dc_phase c = PhaseFailed \<longrightarrow> dc_finished c)"

lemma spawn_inv:
  assumes "conn_inv c" "in_flight c < maxInFlight" "is_session_work w \<or> ordered \<Longrightarrow> bound (dc_phase c)"
    "conf_work w \<Longrightarrow> dc_phase c = PhaseConfigured" "admitted_ok w" "w = WorkConfigured \<Longrightarrow> dc_launch c"
  shows "conn_inv (spawn ordered w c)"
  using assms unfolding conn_inv_def spawn_def
  by (cases ordered) (auto simp: in_flight_def busy_list_def append_eq_append_conv2)

lemma admissible_ok:
  "is_ok (admissible c req) \<Longrightarrow> bound (dc_phase c) \<and> admitted_ok (WorkRequest req (dc_phase c))"
  by (cases "dc_phase c") (auto simp: admissible_def bound_def admitted_ok_def split: if_splits)

lemma dispatchOther_inv: "conn_inv c \<Longrightarrow> in_flight c < maxInFlight \<Longrightarrow> conn_inv (dispatchOther req c)"
  using spawn_inv[of c "WorkRequest req (dc_phase c)"] admissible_ok[of c req] by (auto simp: dispatchOther_def conf_work_def)

lemma phase_inv:
  assumes "conn_inv c" "bound (dc_phase c) \<Longrightarrow> bound p" "dc_phase c = PhaseConfigured \<Longrightarrow> p = PhaseConfigured"
    "p = PhaseConfigured \<Longrightarrow> \<not> dc_launch c \<or> dc_finished c \<and> dc_configured c" "p = PhaseFailed \<Longrightarrow> dc_finished c"
  shows "conn_inv (c\<lparr>dc_phase := p\<rparr>)"
  using assms unfolding conn_inv_def by (auto simp: in_flight_def busy_list_def)

lemma launch_flags_inv:
  "conn_inv c \<Longrightarrow> dc_launch c \<Longrightarrow> conn_inv (c\<lparr>dc_started := True\<rparr>)"
  "conn_inv c \<Longrightarrow> conn_inv (c\<lparr>dc_finished := True\<rparr>)" "conn_inv c \<Longrightarrow> conn_inv (c\<lparr>dc_launched := b\<rparr>)"
  "conn_inv c \<Longrightarrow> conn_inv (c\<lparr>dc_reading := b\<rparr>)"
  unfolding conn_inv_def by (auto simp: in_flight_def busy_list_def)

lemma dispatch_inv:
  assumes "conn_inv c" "in_flight c < maxInFlight"
  shows "conn_inv (dispatch_request r c)"
proof -
  note other = dispatchOther_inv[OF assms]
  show ?thesis
  proof (cases r)
    case (RqInitialize a b)
    then show ?thesis using assms(1) by (auto simp: initialize_conn_def bound_def intro!: phase_inv)
  next
    case (RqAttach b)
    then show ?thesis using assms(1) by (auto simp: attach_conn_def bound_def intro!: phase_inv)
  next
    case (RqLaunch b)
    have "conn_inv (c\<lparr>dc_started := True\<rparr>\<lparr>dc_phase := PhaseLaunching\<rparr>)" if "dc_launch c" "dc_phase c = PhaseInitialized"
      by (rule phase_inv[OF launch_flags_inv(1)[OF assms(1)]]) (use that in \<open>auto simp: bound_def\<close>)
    then show ?thesis using assms(1) RqLaunch by (auto simp: startLaunch_def)
  next
    case RqConfigurationDone
    have "conn_inv (spawn True WorkConfigured c)" if "dc_launch c" "dc_phase c = PhaseAttached"
      by (rule spawn_inv[OF assms]) (use that in \<open>auto simp: bound_def conf_work_def admitted_ok_def is_session_work_def\<close>)
    then show ?thesis using assms(1) RqConfigurationDone by (auto simp: configurationDone_conn_def bound_def intro!: phase_inv)
  next
    case (RqOther req)
    have stop: "conn_inv (spawn False WorkStopLaunch c)"
      by (rule spawn_inv[OF assms]) (auto simp: conf_work_def admitted_ok_def is_session_work_def)
    have "conn_inv (case (if dc_launch c then launchTerminate c else None) of Some c' \<Rightarrow> c' | None \<Rightarrow> dispatchOther EdTerminate c)"
      using other stop assms(1) by (simp add: launchTerminate_def split: option.split)
    then show ?thesis using RqOther other by (cases req) simp_all
  qed (use assms(1) launch_flags_inv in simp_all)
qed

lemma step_inv: "conn_step c c' \<Longrightarrow> conn_inv c \<Longrightarrow> conn_inv c'"
proof (induction rule: conn_step.induct)
  case (Read c r)
  then show ?case by (simp add: dispatch_inv)
next
  case (ReadEnds c)
  then show ?case by (simp add: launch_flags_inv)
next
  case (WorkerTakes c w ws)
  have "dc_handled c @ busy_list c @ dc_queue c = dc_accepted c" using WorkerTakes.prems unfolding conn_inv_def by (elim conjE)
  then have eq: "dc_handled c @ w # ws = dc_accepted c" using WorkerTakes.hyps by (simp add: busy_list_def)
  then have acc: "w \<in> set (dc_accepted c)" by (metis in_set_conv_decomp)
  have exec: "admitted_ok w \<and> (conf_work w \<longrightarrow> dc_phase c = PhaseConfigured)" using WorkerTakes.prems acc unfolding conn_inv_def by (elim conjE) blast
  have "dc_accepted c \<noteq> []" using acc by auto
  then have "bound (dc_phase c)" using WorkerTakes.prems unfolding conn_inv_def by (elim conjE) blast
  then show ?case using WorkerTakes eq exec unfolding conn_inv_def by (elim conjE) (simp add: in_flight_def busy_list_def)
next
  case (WorkerDone c w)
  then show ?case unfolding conn_inv_def by (auto simp: in_flight_def busy_list_def end_work_def)
next
  case (GoroutineDone w c)
  then show ?case unfolding conn_inv_def by (auto simp: in_flight_def busy_list_def length_remove1)
next
  case (LaunchBinds c)
  then show ?case by (intro phase_inv) (simp_all add: bound_def)
next
  case (LaunchSucceeds c)
  have "conn_inv (c\<lparr>dc_launched := True\<rparr>\<lparr>dc_finished := True\<rparr>\<lparr>dc_phase := PhaseConfigured\<rparr>)"
    by (rule phase_inv[OF launch_flags_inv(2)[OF launch_flags_inv(3)[OF LaunchSucceeds.prems]]]) (use LaunchSucceeds in \<open>auto simp: bound_def\<close>)
  moreover have "c\<lparr>dc_launched := True\<rparr>\<lparr>dc_finished := True\<rparr>\<lparr>dc_phase := PhaseConfigured\<rparr>
      = c\<lparr>dc_phase := PhaseConfigured, dc_finished := True, dc_launched := True\<rparr>" by (rule dap_conn.equality) simp_all
  ultimately show ?case by metis
next
  case (LaunchFails c)
  have "dc_phase c \<noteq> PhaseConfigured" using LaunchFails unfolding conn_inv_def by blast
  have "conn_inv (c\<lparr>dc_finished := True\<rparr>\<lparr>dc_phase := PhaseFailed\<rparr>)"
    by (rule phase_inv[OF launch_flags_inv(2)[OF LaunchFails.prems]]) (use \<open>dc_phase c \<noteq> PhaseConfigured\<close> in \<open>auto simp: bound_def\<close>)
  moreover have "c\<lparr>dc_finished := True\<rparr>\<lparr>dc_phase := PhaseFailed\<rparr> = c\<lparr>dc_phase := PhaseFailed, dc_finished := True\<rparr>"
    by (rule dap_conn.equality) simp_all
  ultimately show ?case by metis
qed

lemma reachable_conn_inv: "conn_reachable c \<Longrightarrow> conn_inv c"
proof (induction rule: conn_reachable.induct)
  case (conn_new launch)
  show ?case by (simp add: conn_inv_def new_conn_def in_flight_def busy_list_def)
qed (rule step_inv)

text \<open>
  C20: in every interleaving of the reader, the worker, the goroutines and a launch, a
  request that is handled for the session was let pass only when the connection was
  attached to it (or its launch had bound it) and had not failed, and an execution request
  only when the handshake was over, which it then stays; one that waited for the worker
  may be handled after its launch failed, never one that came after it. Requests that
  change something are handled one at a time in the order they came; a launched program
  runs only after every such request that came before the configurationDone; and at most
  32 requests are handled or waiting. (A terminate while a launch runs stops the launch and
  is none of them.)
\<close>

theorem handshake_is_respected:
  assumes "conn_reachable c"
  shows "in_flight c \<le> 32 \<and> dc_handled c @ busy_list c @ dc_queue c = dc_accepted c
    \<and> (\<forall>req admitted p. (WorkRequest req admitted, p) \<in> set (dc_served c) \<longrightarrow>
        admitted \<in> {PhaseAttached, PhaseConfigured} \<and> (isExecution req \<longrightarrow> admitted = PhaseConfigured)
        \<and> (if admitted = PhaseConfigured then p = PhaseConfigured else p \<in> {PhaseAttached, PhaseConfigured, PhaseFailed}))
    \<and> (\<forall>req admitted. WorkRequest req admitted \<in> set (dc_accepted c) \<longrightarrow> admitted \<in> {PhaseAttached, PhaseConfigured})
    \<and> (dc_launched c \<and> dc_phase c = PhaseConfigured \<and> dc_launch c \<longrightarrow>
        (\<exists>before rest. dc_accepted c = before @ WorkConfigured # rest \<and> WorkConfigured \<notin> set before \<and> prefix (before @ [WorkConfigured]) (dc_handled c)))"
proof -
  note I = reachable_conn_inv[OF assms]
  have "\<exists>before rest. dc_accepted c = before @ WorkConfigured # rest \<and> WorkConfigured \<notin> set before \<and> prefix (before @ [WorkConfigured]) (dc_handled c)"
    if "dc_phase c = PhaseConfigured" "dc_launch c"
  proof -
    have "WorkConfigured \<in> set (dc_handled c)" using I that unfolding conn_inv_def by blast
    then obtain before rest where "dc_handled c = before @ WorkConfigured # rest" "WorkConfigured \<notin> set before" by (meson split_list_first)
    moreover have "dc_accepted c = dc_handled c @ busy_list c @ dc_queue c" using I unfolding conn_inv_def by simp
    ultimately show ?thesis by (intro exI[of _ before] exI[of _ "rest @ busy_list c @ dc_queue c"]) (simp add: prefix_def)
  qed
  moreover have "admitted \<in> {PhaseAttached, PhaseConfigured} \<and> (isExecution req \<longrightarrow> admitted = PhaseConfigured)
      \<and> (if admitted = PhaseConfigured then p = PhaseConfigured else p \<in> {PhaseAttached, PhaseConfigured, PhaseFailed})"
    if "(WorkRequest req admitted, p) \<in> set (dc_served c)" for req admitted p
  proof -
    have "admitted_ok (WorkRequest req admitted) \<and> (conf_work (WorkRequest req admitted) \<longrightarrow> p = PhaseConfigured)
        \<and> (is_session_work (WorkRequest req admitted) \<longrightarrow> bound p)"
      using I that unfolding conn_inv_def by fast
    then show ?thesis by (auto simp: admitted_ok_def conf_work_def is_session_work_def bound_def)
  qed
  moreover have "admitted \<in> {PhaseAttached, PhaseConfigured}"
    if "WorkRequest req admitted \<in> set (dc_accepted c)" for req admitted
  proof -
    have "admitted_ok (WorkRequest req admitted)" using I that unfolding conn_inv_def by fast
    then show ?thesis by (auto simp: admitted_ok_def)
  qed
  moreover have "in_flight c \<le> 32 \<and> dc_handled c @ busy_list c @ dc_queue c = dc_accepted c"
    using I by (simp add: conn_inv_def maxInFlight_def)
  ultimately show ?thesis by blast
qed

theorem handshake_is_respected_witness:
  "\<exists>c. conn_reachable c \<and> dc_queue c = [WorkRequest (EdContinue 1) PhaseConfigured] \<and> in_flight c \<le> 32"
proof -
  let ?c0 = "new_conn False"
  let ?c1 = "dispatch_request (RqInitialize True True) ?c0"
  let ?c2 = "dispatch_request (RqAttach True) ?c1"
  let ?c3 = "dispatch_request RqConfigurationDone ?c2"
  let ?c4 = "dispatch_request (RqOther (EdContinue 1)) ?c3"
  note defs = new_conn_def initialize_conn_def attach_conn_def configurationDone_conn_def dispatchOther_def admissible_def spawn_def in_flight_def maxInFlight_def
  have "conn_reachable ?c1" by (rule conn_next[OF conn_new Read]) (simp_all add: defs)
  then have "conn_reachable ?c2" by (rule conn_next[OF _ Read]) (simp_all add: defs)
  then have "conn_reachable ?c3" by (rule conn_next[OF _ Read]) (simp_all add: defs)
  then have r: "conn_reachable ?c4" by (rule conn_next[OF _ Read]) (simp_all add: defs)
  have "dc_queue ?c4 = [WorkRequest (EdContinue 1) PhaseConfigured]" by (simp add: defs)
  then show ?thesis using handshake_is_respected[OF r] r by blast
qed

end
