(* ===== verification/Build_Output.thy ===== *)
theory Build_Output
  imports Present
begin

text \<open>
  The build output of a launch on the editor's console (\<^verbatim>\<open>buildOutput\<close> in
  \<^verbatim>\<open>internal/facade/launch.go\<close>): each line becomes one output event, within bounds on a
  line, on the lines and on the bytes. The theory shows that how the build's output is
  split into writes makes no difference, and the bounds.
\<close>

section \<open>Writing\<close>

definition maxBuildLine :: nat where "maxBuildLine = 4096"
definition maxBuildLines :: nat where "maxBuildLines = 10000"
definition maxBuildBytes :: nat where "maxBuildBytes = 2 ^ 20"

text \<open>The state, with the texts of the events it has sent (an editor that is leaving gets none of them).\<close>

record build_output =
  bo_line :: string
  bo_cut :: bool
  bo_lines :: nat
  bo_bytes :: nat
  bo_done :: bool
  bo_shown :: "string list"

definition new_build :: build_output where
  "new_build = \<lparr>bo_line = [], bo_cut = False, bo_lines = 0, bo_bytes = 0, bo_done = False, bo_shown = []\<rparr>"

definition UTFMax :: nat where "UTFMax = 4"

definition build_add :: "string \<Rightarrow> build_output \<Rightarrow> build_output" where
  "build_add b bo =
    (let room = maxBuildLine + UTFMax - length (bo_line bo) in
     bo\<lparr>bo_line := bo_line bo @ take room b, bo_cut := bo_cut bo \<or> length b > room\<rparr>)"

definition ellipsis :: string where
  "ellipsis = [CHR 0xE2, CHR 0x80, CHR 0xA6]"

definition trim_cr :: "string \<Rightarrow> string" where
  "trim_cr s = (if s \<noteq> [] \<and> last s = CHR 0x0D then butlast s else s)"

text \<open>The loop of \<^verbatim>\<open>emit\<close> that backs up to the start of a rune.\<close>

fun rune_end :: "string \<Rightarrow> nat \<Rightarrow> nat" where
  "rune_end s 0 = 0"
| "rune_end s (Suc n) = (if Suc n < length s \<and> \<not> RuneStart (s ! Suc n) then rune_end s n else Suc n)"

definition emitted_line :: "string \<Rightarrow> bool \<Rightarrow> string" where
  "emitted_line s was_cut =
    (let l = trim_cr s in
     if was_cut \<or> length l > maxBuildLine then take (rune_end l (min (length l) maxBuildLine)) l @ ellipsis else l)"

definition moreNotice :: string where
  "moreNotice = ''eyedbg: '' @ ''more build output isn'' @ CHR 0x27 # ''t shown'' @ [CHR 0x0A]"

definition build_emit :: "build_output \<Rightarrow> build_output" where
  "build_emit bo =
    (let l = emitted_line (bo_line bo) (bo_cut bo); bo1 = bo\<lparr>bo_line := [], bo_cut := False\<rparr> in
     if bo_lines bo + 1 > maxBuildLines \<or> bo_bytes bo + length l > maxBuildBytes
     then bo1\<lparr>bo_done := True, bo_shown := bo_shown bo @ [moreNotice]\<rparr>
     else bo1\<lparr>bo_lines := bo_lines bo + 1, bo_bytes := bo_bytes bo + length l, bo_shown := bo_shown bo @ [l @ [CHR 0x0A]]\<rparr>)"

lemma cut_at_shorter: "cut_at c s = (a, b, True) \<Longrightarrow> length b < length s"
  by (induction c s arbitrary: a b rule: cut_at.induct) (auto split: if_splits prod.splits)

function build_write :: "string \<Rightarrow> build_output \<Rightarrow> build_output" where
  "build_write p bo =
    (if p = [] \<or> bo_done bo then bo
     else case cut_at (CHR 0x0A) p of
       (a, b, False) \<Rightarrow> build_add p bo
     | (a, b, True) \<Rightarrow> build_write b (build_emit (build_add a bo)))"
  by pat_completeness auto
termination
  by (relation "measure (\<lambda>(p, bo). length p)") (auto dest!: cut_at_shorter[OF sym])

declare build_write.simps [simp del]

definition build_finish :: "build_output \<Rightarrow> build_output" where
  "build_finish bo =
    (let bo1 = (if \<not> bo_done bo \<and> (bo_line bo \<noteq> [] \<or> bo_cut bo) then build_emit bo else bo) in bo1\<lparr>bo_done := True\<rparr>)"

section \<open>Byte by byte\<close>

definition byte_step :: "char \<Rightarrow> build_output \<Rightarrow> build_output" where
  "byte_step c bo = (if bo_done bo then bo else if c = CHR 0x0A then build_emit bo else build_add [c] bo)"

lemma build_add_nil [simp]: "build_add [] bo = bo"
  by (simp add: build_add_def)

lemma build_add_append:
  "length (bo_line bo) \<le> maxBuildLine + UTFMax \<Longrightarrow> build_add (a @ b) bo = build_add b (build_add a bo)"
proof -
  assume len: "length (bo_line bo) \<le> maxBuildLine + UTFMax"
  show ?thesis
  proof (cases "length a \<le> maxBuildLine + UTFMax - length (bo_line bo)")
    case True
    then have "maxBuildLine + UTFMax - (length (bo_line bo) + length a) = maxBuildLine + UTFMax - length (bo_line bo) - length a" by simp
    moreover have "maxBuildLine + UTFMax - length (bo_line bo) < length a + length b
        \<longleftrightarrow> maxBuildLine + UTFMax - length (bo_line bo) - length a < length b" using True by linarith
    ultimately show ?thesis using True by (simp add: build_add_def Let_def)
  next
    case False
    then show ?thesis using len by (simp add: build_add_def Let_def)
  qed
qed

lemma build_add_line: "length (bo_line bo) \<le> maxBuildLine + UTFMax \<Longrightarrow> length (bo_line (build_add a bo)) \<le> maxBuildLine + UTFMax"
  by (simp add: build_add_def Let_def)

lemma build_add_done [simp]: "bo_done (build_add a bo) = bo_done bo"
  by (simp add: build_add_def Let_def)

lemma fold_bytes_done: "bo_done bo \<Longrightarrow> fold byte_step p bo = bo"
  by (induction p) (simp_all add: byte_step_def)

lemma fold_bytes_add:
  "CHR 0x0A \<notin> set a \<Longrightarrow> \<not> bo_done bo \<Longrightarrow> length (bo_line bo) \<le> maxBuildLine + UTFMax \<Longrightarrow> fold byte_step a bo = build_add a bo"
proof (induction a arbitrary: bo)
  case (Cons c a)
  then have "fold byte_step (c # a) bo = fold byte_step a (build_add [c] bo)" by (auto simp: byte_step_def)
  also have "\<dots> = build_add a (build_add [c] bo)" using Cons by (intro Cons.IH) (simp_all add: build_add_line)
  also have "\<dots> = build_add ([c] @ a) bo" using Cons.prems(3) by (simp only: build_add_append)
  finally show ?case by simp
qed simp

lemma build_emit_line [simp]: "bo_line (build_emit bo) = []"
  by (simp add: build_emit_def Let_def)

lemma build_write_bytes: "length (bo_line bo) \<le> maxBuildLine + UTFMax \<Longrightarrow> build_write p bo = fold byte_step p bo"
proof (induction p bo rule: build_write.induct)
  case (1 p bo)
  show ?case
  proof (cases "p = [] \<or> bo_done bo")
    case True
    then show ?thesis using fold_bytes_done[of bo p] by (auto simp: build_write.simps[of p])
  next
    case False
    show ?thesis
    proof (cases "CHR 0x0A \<in> set p")
      case no: False
      then have "cut_at (CHR 0x0A) p = (p, [], False)" by (simp add: cut_at_absent)
      then show ?thesis using False no 1(2) by (simp add: build_write.simps[of p] fold_bytes_add)
    next
      case True
      then obtain a b where p: "p = a @ CHR 0x0A # b" "CHR 0x0A \<notin> set a" by (meson split_list_first)
      then have c: "cut_at (CHR 0x0A) p = (a, b, True)" by (simp add: cut_at_found)
      let ?bo = "build_emit (build_add a bo)"
      have "build_write b ?bo = fold byte_step b ?bo"
        using 1(1)[OF False c[symmetric] _ _, of b True] by simp
      moreover have "fold byte_step p bo = fold byte_step b ?bo"
        using p False 1(2) by (simp add: fold_bytes_add byte_step_def)
      ultimately show ?thesis using False c by (simp add: build_write.simps[of p])
    qed
  qed
qed

section \<open>Properties\<close>

definition build_writes :: "string list \<Rightarrow> build_output" where
  "build_writes ws = build_finish (fold build_write ws new_build)"

text \<open>
  The console shows the same whatever writes the build's output came in: writing it in
  pieces and writing it at once show the same lines.
\<close>

theorem build_output_ignores_chunking: "bo_shown (build_writes ws) = bo_shown (build_writes [concat ws])"
proof -
  have line: "length (bo_line (fold byte_step p bo)) \<le> maxBuildLine + UTFMax" if "length (bo_line bo) \<le> maxBuildLine + UTFMax" for p bo
    using that by (induction p arbitrary: bo) (auto simp: byte_step_def build_add_line)
  have "fold build_write ws bo = fold byte_step (concat ws) bo" if "length (bo_line bo) \<le> maxBuildLine + UTFMax" for bo
    using that by (induction ws arbitrary: bo) (simp_all add: build_write_bytes line)
  then show ?thesis by (simp add: build_writes_def new_build_def build_write_bytes)
qed

text \<open>What it has shown, after any writes.\<close>

definition build_inv :: "build_output \<Rightarrow> bool" where
  "build_inv bo \<longleftrightarrow> length (bo_line bo) \<le> maxBuildLine + UTFMax \<and> bo_bytes bo \<le> maxBuildBytes \<and> bo_lines bo \<le> maxBuildLines
    \<and> list_all (\<lambda>t. length t \<le> maxBuildLine + 4) (bo_shown bo)
    \<and> (if bo_done bo then length (bo_shown bo) \<le> bo_lines bo + 1 \<and> sum_list (map length (bo_shown bo)) \<le> bo_bytes bo + bo_lines bo + length moreNotice
       else length (bo_shown bo) = bo_lines bo \<and> sum_list (map length (bo_shown bo)) = bo_bytes bo + bo_lines bo)"

lemma rune_end_le: "rune_end s n \<le> n"
  by (induction n) auto

lemma emitted_line_length: "length (emitted_line s b) \<le> maxBuildLine + 3"
proof (cases "b \<or> length (trim_cr s) > maxBuildLine")
  case True
  then show ?thesis using rune_end_le[of "trim_cr s" "min (length (trim_cr s)) maxBuildLine"]
    by (simp add: emitted_line_def Let_def ellipsis_def)
qed (simp add: emitted_line_def Let_def)

lemma build_emit_inv: "build_inv bo \<Longrightarrow> \<not> bo_done bo \<Longrightarrow> build_inv (build_emit bo)"
  using emitted_line_length[of "bo_line bo" "bo_cut bo"]
  by (auto simp: build_inv_def build_emit_def Let_def moreNotice_def maxBuildLine_def)

lemma build_step_inv: "build_inv bo \<Longrightarrow> build_inv (byte_step c bo)"
  using build_emit_inv[of bo] build_add_line[of bo "[c]"]
  by (auto simp: byte_step_def) (auto simp: build_inv_def build_add_def Let_def)

text \<open>
  Whatever a build writes, its launch shows at most 10001 lines of at most 4100 bytes,
  and one MiB of text with a newline for each line and the notice that more is not shown.
\<close>

theorem build_output_is_bounded:
  "length (bo_shown (build_writes ws)) \<le> maxBuildLines + 1
    \<and> list_all (\<lambda>t. length t \<le> maxBuildLine + 4) (bo_shown (build_writes ws))
    \<and> sum_list (map length (bo_shown (build_writes ws))) \<le> maxBuildBytes + maxBuildLines + length moreNotice"
proof -
  have bytes: "length (bo_line bo) \<le> maxBuildLine + UTFMax \<and> build_inv (fold byte_step p bo)" if "build_inv bo" for p bo
    using that by (induction p arbitrary: bo) (auto simp: build_step_inv, auto simp: build_inv_def)
  have "build_inv (fold build_write ws bo)" if "build_inv bo" for bo
    using that bytes by (induction ws arbitrary: bo) (simp_all add: build_write_bytes)
  moreover have "build_inv new_build" by (simp add: build_inv_def new_build_def)
  ultimately have written: "build_inv (fold build_write ws new_build)" by blast
  have finish: "build_inv (bo\<lparr>bo_done := True\<rparr>)" if "build_inv bo" for bo
    using that by (auto simp: build_inv_def split: if_splits)
  have "build_inv (build_writes ws)"
    using finish[OF written] finish[OF build_emit_inv[OF written]] by (simp add: build_writes_def build_finish_def Let_def)
  then show ?thesis by (auto simp: build_inv_def split: if_splits)
qed

end
