(* ===== verification/Launch_Args.thy ===== *)
theory Launch_Args
  imports Starting "HOL-Library.List_Lexorder" "HOL-Library.Char_ord"
begin

text \<open>
  The arguments of an editor's launch request (\<^verbatim>\<open>launchParams\<close> and what it uses in
  \<^verbatim>\<open>internal/facade/launch.go\<close>): JSON values from an editor's configuration, read key by
  key into the parameters of a start. JSON's decoder is not modelled: the request has the
  decoded value, an object's fields with distinct names. The host is a Unix.
\<close>

section \<open>Names\<close>

datatype json = JNull | JBool bool | JNumber string | JString string | JList "json list" | JObject "(string \<times> json) list"

text \<open>
  \<^verbatim>\<open>strings.EqualFold\<close> with a name of ASCII letters: a rune folds to the letter's other
  case, and the long s and the Kelvin sign fold to s and k.
\<close>

definition fold_rune :: "rune \<Rightarrow> rune" where
  "fold_rune r = (if 65 \<le> r \<and> r \<le> 90 then r + 32 else if r = 0x17F then 115 else if r = 0x212A then 107 else r)"

definition EqualFold :: "string \<Rightarrow> string \<Rightarrow> bool" where
  "EqualFold k name = (map fold_rune (runes k) = map fold_rune (runes name))"

definition launch_names :: "string list" where
  "launch_names = [''lang'', ''program'', ''project'', ''cwd'', ''args'', ''env'', ''opts'', ''stopOnEntry'', ''noBuild'',
     ''leasePolicy'', ''exceptions'', ''adapter'', ''console'']"

definition launchKey :: "string \<Rightarrow> string option" where
  "launchKey k = find (EqualFold k) launch_names"

section \<open>Values\<close>

definition invalidLaunch :: "string \<Rightarrow> 'a result" where
  "invalidLaunch msg = Inl (NewError CodeInvalidRequest [Lit msg])"

abbreviation NUL :: char where "NUL \<equiv> CHR 0x00"

definition noNUL :: "string \<Rightarrow> string \<Rightarrow> unit result" where
  "noNUL name s = (if NUL \<in> set s then invalidLaunch (''launch argument '' @ name @ '' holds a NUL character'') else Inr ())"

fun stringArg :: "string \<Rightarrow> json \<Rightarrow> string result" where
  "stringArg name (JString s) = (case noNUL name s of Inl e \<Rightarrow> Inl e | Inr _ \<Rightarrow> Inr s)"
| "stringArg name _ = invalidLaunch (''launch argument '' @ name @ '' must be a string'')"

fun strings_of :: "string \<Rightarrow> json list \<Rightarrow> string list result" where
  "strings_of name [] = Inr []"
| "strings_of name (JString s # vs) =
    (case noNUL name s of Inl e \<Rightarrow> Inl e | Inr _ \<Rightarrow> (case strings_of name vs of Inl e \<Rightarrow> Inl e | Inr ss \<Rightarrow> Inr (s # ss)))"
| "strings_of name (_ # vs) = invalidLaunch (''launch argument '' @ name @ '' must be a list of strings'')"

fun stringsArg :: "string \<Rightarrow> json \<Rightarrow> string list result" where
  "stringsArg name (JList vs) = strings_of name vs"
| "stringsArg name _ = invalidLaunch (''launch argument '' @ name @ '' must be a list of strings'')"

fun map_of_strings :: "string \<Rightarrow> (string \<times> json) list \<Rightarrow> (string \<times> string) list result" where
  "map_of_strings name [] = Inr []"
| "map_of_strings name ((k, JString s) # fs) =
    (case noNUL name (k @ s) of Inl e \<Rightarrow> Inl e
     | Inr _ \<Rightarrow>
         if k = [] \<or> CHR ''='' \<in> set k then invalidLaunch (''launch argument '' @ name @ '' has an empty name or one holding \"=\"'')
         else (case map_of_strings name fs of Inl e \<Rightarrow> Inl e | Inr m \<Rightarrow> Inr ((k, s) # m)))"
| "map_of_strings name (_ # fs) = invalidLaunch (''launch argument '' @ name @ '' must be an object of strings'')"

fun mapArg :: "string \<Rightarrow> json \<Rightarrow> (string \<times> string) list result" where
  "mapArg name (JObject fs) = map_of_strings name fs"
| "mapArg name _ = invalidLaunch (''launch argument '' @ name @ '' must be an object of strings'')"

fun boolArg :: "string \<Rightarrow> json \<Rightarrow> bool result" where
  "boolArg name (JBool b) = Inr b"
| "boolArg name _ = invalidLaunch (''launch argument '' @ name @ '' must be true or false'')"

section \<open>The arguments\<close>

record launch_args =
  la_lang :: string
  la_program :: string
  la_project :: string
  la_cwd :: string
  la_leasePolicy :: string
  la_exceptions :: string
  la_adapter :: string
  la_console :: string
  la_args :: "string list"
  la_env :: "(string \<times> string) list"
  la_opts :: "(string \<times> string) list"
  la_stopOnEntry :: bool
  la_noBuild :: bool

definition no_args :: launch_args where
  "no_args = \<lparr>la_lang = [], la_program = [], la_project = [], la_cwd = [], la_leasePolicy = [], la_exceptions = [], la_adapter = [],
    la_console = [], la_args = [], la_env = [], la_opts = [], la_stopOnEntry = False, la_noBuild = False\<rparr>"

text \<open>\<^verbatim>\<open>set\<close>, by the argument's name.\<close>

definition set_arg :: "string \<Rightarrow> json \<Rightarrow> launch_args \<Rightarrow> launch_args result" where
  "set_arg name v a =
    (if name = ''lang'' then map_sum id (\<lambda>s. a\<lparr>la_lang := s\<rparr>) (stringArg name v)
     else if name = ''program'' then map_sum id (\<lambda>s. a\<lparr>la_program := s\<rparr>) (stringArg name v)
     else if name = ''project'' then map_sum id (\<lambda>s. a\<lparr>la_project := s\<rparr>) (stringArg name v)
     else if name = ''cwd'' then map_sum id (\<lambda>s. a\<lparr>la_cwd := s\<rparr>) (stringArg name v)
     else if name = ''leasePolicy'' then map_sum id (\<lambda>s. a\<lparr>la_leasePolicy := s\<rparr>) (stringArg name v)
     else if name = ''exceptions'' then map_sum id (\<lambda>s. a\<lparr>la_exceptions := s\<rparr>) (stringArg name v)
     else if name = ''adapter'' then map_sum id (\<lambda>s. a\<lparr>la_adapter := s\<rparr>) (stringArg name v)
     else if name = ''console'' then map_sum id (\<lambda>s. a\<lparr>la_console := s\<rparr>) (stringArg name v)
     else if name = ''args'' then map_sum id (\<lambda>ss. a\<lparr>la_args := ss\<rparr>) (stringsArg name v)
     else if name = ''env'' then map_sum id (\<lambda>m. a\<lparr>la_env := m\<rparr>) (mapArg name v)
     else if name = ''opts'' then map_sum id (\<lambda>m. a\<lparr>la_opts := m\<rparr>) (mapArg name v)
     else if name = ''stopOnEntry'' then map_sum id (\<lambda>b. a\<lparr>la_stopOnEntry := b\<rparr>) (boolArg name v)
     else if name = ''noBuild'' then map_sum id (\<lambda>b. a\<lparr>la_noBuild := b\<rparr>) (boolArg name v)
     else Inr a)"

fun read_args :: "(string \<times> json) list \<Rightarrow> launch_args \<Rightarrow> launch_args result" where
  "read_args [] a = Inr a"
| "read_args ((k, v) # fs) a =
    (case launchKey k of
       None \<Rightarrow> read_args fs a
     | Some name \<Rightarrow>
         if name \<noteq> k
         then Inl (NewError CodeInvalidRequest [Lit ''launch argument '', Quoted k, Lit '': did you mean '', Quoted name, Lit ''? (names are case-sensitive)''])
         else (case set_arg name v a of Inl e \<Rightarrow> Inl e | Inr a' \<Rightarrow> read_args fs a'))"

definition isName :: "string \<Rightarrow> string \<Rightarrow> bool" where
  "isName s extra =
    (s \<noteq> [] \<and> length s \<le> 32 \<and> is_lower (hd s) \<and> list_all (\<lambda>c. is_lower c \<or> is_digit c \<or> c \<in> set extra) s)"

definition check_args :: "launch_args \<Rightarrow> unit result" where
  "check_args a =
    (if la_console a \<noteq> [] \<and> la_console a \<noteq> ''internalConsole'' \<and> la_console a \<noteq> ''integratedTerminal''
     then invalidLaunch ''launch argument console must be internalConsole or integratedTerminal''
     else if la_lang a = [] then invalidLaunch (''launch needs lang (dotnet, python, ...: see '' @ CHR 0x27 # ''eyedbg adapters ls'' @ CHR 0x27 # '')'')
     else if \<not> isName (la_lang a) ''_+-''
     then invalidLaunch ''launch argument lang must be a language name: lowercase letters, digits and _ + -, up to 32''
     else if la_adapter a \<noteq> [] \<and> \<not> isName (la_adapter a) ''-''
     then invalidLaunch ''launch argument adapter must be an adapter name: lowercase letters, digits and -, up to 32''
     else Inr ())"

text \<open>What \<^verbatim>\<open>eyedbg start\<close> adds from the caller's environment.\<close>

record facade_launch =
  fl_ClientDir :: string
  fl_VirtualEnv :: string
  fl_NoRecord :: bool
  fl_DotnetAdapter :: string

definition resolvePath :: "string \<Rightarrow> string \<Rightarrow> string" where
  "resolvePath dir p = (if p = [] \<or> IsAbs p then p else Join2 dir p)"

definition args_params :: "launch_args \<Rightarrow> facade_launch \<Rightarrow> start_params" where
  "args_params a d =
    (let program = resolvePath (fl_ClientDir d) (la_program a);
         project = resolvePath (fl_ClientDir d) (la_project a);
         cwd = resolvePath (fl_ClientDir d) (la_cwd a)
     in \<lparr>ls_Project = (if program = [] \<and> project = [] then fl_ClientDir d else project), ls_Program = program,
         ls_Args = la_args a, ls_Cwd = cwd, ls_Env = la_env a, ls_NoBuild = la_noBuild a, ls_StopOnEntry = la_stopOnEntry a,
         ls_Options = la_opts a, ls_ClientDir = fl_ClientDir d, ls_VirtualEnv = fl_VirtualEnv d,
         sp_Lang = la_lang a, sp_Breakpoints = [], sp_LeasePolicy = la_leasePolicy a, sp_NoRecord = fl_NoRecord d,
         sp_Exceptions = la_exceptions a, sp_Attach = None, sp_Test = None, sp_ContainerLaunch = None,
         sp_Adapter = (if la_adapter a = [] \<and> la_lang a = ''dotnet'' then fl_DotnetAdapter d else la_adapter a), sp_Group = []\<rparr>)"

definition launchParams :: "json option \<Rightarrow> facade_launch \<Rightarrow> (start_params \<times> bool) result" where
  "launchParams raw d =
    (case raw of
       Some (JObject members) \<Rightarrow>
         (case read_args (sort_key fst members) no_args of
            Inl e \<Rightarrow> Inl e
          | Inr a \<Rightarrow> (case check_args a of Inl e \<Rightarrow> Inl e
                     | Inr _ \<Rightarrow> Inr (args_params a d, la_console a = ''integratedTerminal'')))
     | _ \<Rightarrow> invalidLaunch ''launch needs its arguments as an object, with lang at least'')"

section \<open>What is accepted\<close>

definition clean_text :: "string \<Rightarrow> bool" where
  "clean_text s \<longleftrightarrow> NUL \<notin> set s"

definition names_ok :: "(string \<times> string) list \<Rightarrow> bool" where
  "names_ok m \<longleftrightarrow> list_all (\<lambda>(k, v). k \<noteq> [] \<and> CHR ''='' \<notin> set k \<and> clean_text k \<and> clean_text v) m"

definition args_ok :: "launch_args \<Rightarrow> bool" where
  "args_ok a \<longleftrightarrow> list_all clean_text ([la_lang a, la_program a, la_project a, la_cwd a, la_leasePolicy a, la_exceptions a, la_adapter a, la_console a] @ la_args a)
    \<and> names_ok (la_env a) \<and> names_ok (la_opts a)"

text \<open>Every text in an argument's value.\<close>

fun json_texts :: "json \<Rightarrow> string list" where
  "json_texts (JString s) = [s]"
| "json_texts (JList vs) = concat (map json_texts vs)"
| "json_texts (JObject fs) = concat (map (\<lambda>(k, v). k # json_texts v) fs)"
| "json_texts _ = []"

lemma stringArg_ok: "stringArg name v = Inr s \<Longrightarrow> clean_text s"
  by (cases v) (auto simp: noNUL_def clean_text_def invalidLaunch_def split: if_splits)

lemma strings_of_ok: "strings_of name vs = Inr ss \<Longrightarrow> list_all clean_text ss"
  by (induction name vs arbitrary: ss rule: strings_of.induct)
    (auto simp: noNUL_def clean_text_def invalidLaunch_def split: if_splits sum.splits)

lemma stringsArg_ok: "stringsArg name v = Inr ss \<Longrightarrow> list_all clean_text ss"
  by (cases v) (auto simp: strings_of_ok invalidLaunch_def)

lemma map_of_strings_ok: "map_of_strings name fs = Inr m \<Longrightarrow> names_ok m"
  by (induction name fs arbitrary: m rule: map_of_strings.induct)
    (auto simp: noNUL_def clean_text_def names_ok_def invalidLaunch_def split: if_splits sum.splits)

lemma mapArg_ok: "mapArg name v = Inr m \<Longrightarrow> names_ok m"
  by (cases v) (auto simp: map_of_strings_ok invalidLaunch_def)

lemma map_sum_Inr: "map_sum id f r = Inr y \<longleftrightarrow> (\<exists>x. r = Inr x \<and> y = f x)"
  by (cases r) auto

lemma set_arg_ok: "set_arg name v a = Inr a' \<Longrightarrow> args_ok a \<Longrightarrow> args_ok a'"
  unfolding set_arg_def
  by (auto simp: map_sum_Inr args_ok_def dest: stringArg_ok stringsArg_ok mapArg_ok split: if_splits)

lemma read_args_ok:
  "read_args fs a = Inr a' \<Longrightarrow> args_ok a \<Longrightarrow> args_ok a' \<and> list_all (\<lambda>(k, v). launchKey k \<in> {None, Some k}) fs"
  by (induction fs a rule: read_args.induct) (auto split: option.splits if_splits sum.splits dest: set_arg_ok)

lemma clean_append [simp]: "clean_text (s @ t) \<longleftrightarrow> clean_text s \<and> clean_text t"
  by (auto simp: clean_text_def)

lemma noNUL_clean: "noNUL name s = Inr u \<longleftrightarrow> clean_text s"
  by (auto simp: noNUL_def clean_text_def invalidLaunch_def)

lemma strings_of_texts: "strings_of name vs = Inr ss \<Longrightarrow> list_all clean_text (concat (map json_texts vs))"
  by (induction name vs arbitrary: ss rule: strings_of.induct)
    (auto simp: noNUL_clean invalidLaunch_def split: sum.splits)

lemma map_of_strings_texts:
  "map_of_strings name fs = Inr m \<Longrightarrow> list_all clean_text (concat (map (\<lambda>(k, v). k # json_texts v) fs))"
  by (induction name fs arbitrary: m rule: map_of_strings.induct)
    (auto simp: noNUL_clean invalidLaunch_def split: sum.splits if_splits)

lemma arg_texts:
  "stringArg name v = Inr s \<Longrightarrow> list_all clean_text (json_texts v)"
  "stringsArg name v = Inr ss \<Longrightarrow> list_all clean_text (json_texts v)"
  "mapArg name v = Inr m \<Longrightarrow> list_all clean_text (json_texts v)"
  "boolArg name v = Inr b \<Longrightarrow> list_all clean_text (json_texts v)"
  by (cases v; auto simp: noNUL_clean invalidLaunch_def strings_of_texts map_of_strings_texts split: sum.splits)+

lemma set_arg_texts: "set_arg name v a = Inr a' \<Longrightarrow> name \<in> set launch_names \<Longrightarrow> list_all clean_text (json_texts v)"
  unfolding set_arg_def
  by (auto simp: map_sum_Inr launch_names_def dest: arg_texts split: if_splits)

lemma launchKey_name: "launchKey k = Some name \<Longrightarrow> name \<in> set launch_names"
  by (auto simp: launchKey_def find_Some_iff)

lemma read_args_texts:
  "read_args fs a = Inr a' \<Longrightarrow> list_all (\<lambda>(k, v). launchKey k \<noteq> None \<longrightarrow> list_all clean_text (json_texts v)) fs"
  by (induction fs a rule: read_args.induct)
    (auto split: option.splits if_splits sum.splits dest: set_arg_texts launchKey_name)

lemma split_at_chars: "w \<in> set (split_at c p) \<Longrightarrow> set w \<subseteq> set p"
  by (induction p arbitrary: w) (fastforce split: list.splits if_splits)+

lemma clean_segs_chars: "w \<in> set (clean_segs r acc ws) \<Longrightarrow> w \<in> set acc \<or> w \<in> set ws"
  by (induction r acc ws rule: clean_segs.induct) (auto split: if_splits list.splits)

lemma join_with_chars: "set (join_with s ws) \<subseteq> set s \<union> \<Union> (set ` set ws)"
  by (induction s ws rule: join_with.induct) auto

lemma Clean_chars: "set (Clean p) \<subseteq> set p \<union> {SL, CHR ''.''}"
proof -
  have "set (join_with [SL] (clean_segs r [] (split_at SL p))) \<subseteq> set p \<union> {SL}" for r
    using join_with_chars[of "[SL]" "clean_segs r [] (split_at SL p)"] clean_segs_chars split_at_chars by fastforce
  then show ?thesis by (auto simp: Clean_def Let_def)
qed

lemma resolvePath_ok: "clean_text dir \<Longrightarrow> clean_text p \<Longrightarrow> clean_text (resolvePath dir p)"
  using Clean_chars[of dir] Clean_chars[of p] Clean_chars[of "dir @ SL # p"]
  by (auto simp: resolvePath_def Join2_def clean_text_def)

lemma Clean_IsAbs: "IsAbs p \<Longrightarrow> IsAbs (Clean p)"
  by (simp add: Clean_def IsAbs_def Let_def)

lemma resolvePath_abs: "IsAbs dir \<Longrightarrow> p \<noteq> [] \<Longrightarrow> IsAbs (resolvePath dir p)"
  by (auto simp: resolvePath_def Join2_def intro!: Clean_IsAbs) (auto simp: IsAbs_def)


definition demo_fields :: "(string \<times> json) list" where
  "demo_fields = [(''env'', JObject [(''A'', JString ''1'')]), (''lang'', JString ''dotnet'')]"

definition demo_defaults :: facade_launch where
  "demo_defaults = \<lparr>fl_ClientDir = ''/w'', fl_VirtualEnv = [], fl_NoRecord = False, fl_DotnetAdapter = []\<rparr>"


end
