(* ===== verification/Terminal.thy ===== *)
theory Terminal
  imports Launch_Args
begin

text \<open>
  The terminal of an editor's launch (\<^verbatim>\<open>internal/facade/terminal.go\<close>): the adapter asks to
  run a program in a terminal, the daemon checks the request against nine rules, asks the
  editor with one event and waits for its answer. An environment is an association list
  with distinct names; Go visits it in any order, so which of two broken parts of rule 8
  is named is not determined, the order here is one of them.
\<close>

section \<open>The request\<close>

text \<open>\<^verbatim>\<open>godap.RunInTerminalRequestArguments\<close>; a value of the environment is any JSON value.\<close>

record terminal_args =
  ta_Kind :: string
  ta_Title :: string
  ta_Cwd :: string
  ta_Args :: "string list"
  ta_Env :: "(string \<times> json) list"
  ta_Shell :: bool

record terminal_body =
  tb_ID :: int
  tb_Title :: string
  tb_Cwd :: string
  tb_Args :: "string list"
  tb_Env :: "(string \<times> string option) list"

definition maxTerminalArgs :: nat where "maxTerminalArgs = 1000"
definition maxTerminalEnv :: nat where "maxTerminalEnv = 1000"
definition maxTerminalBytes :: nat where "maxTerminalBytes = 256 * 2 ^ 10"
definition maxTerminalTitle :: nat where "maxTerminalTitle = 200"
definition maxTerminalErrorLen :: nat where "maxTerminalErrorLen = 1000"
definition defaultTermTitle :: string where "defaultTermTitle = ''eyedbg''"
definition goosWindows :: string where "goosWindows = ''windows''"

section \<open>The rules\<close>

definition isTerminalControl :: "rune \<Rightarrow> bool" where
  "isTerminalControl r = (r \<le> 0x1F \<or> (0x7F \<le> r \<and> r \<le> 0x9F) \<or> r = 0x2028 \<or> r = 0x2029)"

definition checkKind :: "terminal_args \<Rightarrow> string" where
  "checkKind a =
    (if ta_Kind a \<noteq> [] \<and> ta_Kind a \<noteq> ''integrated'' then ''rule 1: only the integrated terminal''
     else if ta_Shell a then ''rule 2: its arguments would go through a shell'' else [])"

definition checkCount :: "terminal_args \<Rightarrow> string" where
  "checkCount a = (if length (ta_Args a) < 1 \<or> length (ta_Args a) > maxTerminalArgs then ''rule 3: it needs 1 to 1000 arguments'' else [])"

fun env_texts :: "(string \<times> json) list \<Rightarrow> string list" where
  "env_texts [] = []"
| "env_texts ((k, JString s) # env) = k # s # env_texts env"
| "env_texts ((k, _) # env) = k # env_texts env"

definition terminal_texts :: "terminal_args \<Rightarrow> string list" where
  "terminal_texts a = [ta_Title a, ta_Cwd a] @ ta_Args a @ env_texts (ta_Env a)"

definition checkChars :: "terminal_args \<Rightarrow> string" where
  "checkChars a =
    (if list_ex (\<lambda>s. list_ex isTerminalControl (runes s)) (terminal_texts a) then ''rule 4: it holds a control character''
     else if sum_list (map length (terminal_texts a)) > maxTerminalBytes then ''rule 5: it is larger than 256 KiB'' else [])"

definition isSep :: "char \<Rightarrow> bool" where
  "isSep c = (c = SL \<or> c = CHR 0x5C)"

text \<open>The drive letter: a byte that with bit 5 set is a lowercase letter.\<close>

definition localAbsolute :: "string \<Rightarrow> string \<Rightarrow> bool" where
  "localAbsolute p goos =
    (if length p \<ge> 2 \<and> isSep (p ! 0) \<and> isSep (p ! 1) then False
     else if goos \<noteq> goosWindows then prefix [SL] p
     else length p \<ge> 3 \<and> (is_lower (p ! 0) \<or> is_upper (p ! 0)) \<and> p ! 1 = CHR '':'' \<and> isSep (p ! 2))"

text \<open>The program is \<open>Args[0]\<close>: the rule on their number comes first.\<close>

definition checkPaths :: "terminal_args \<Rightarrow> string \<Rightarrow> string" where
  "checkPaths a goos =
    (if \<not> localAbsolute (hd (ta_Args a)) goos \<or> \<not> localAbsolute (ta_Cwd a) goos
     then ''rule 6: its program and working directory must be local absolute paths'' else [])"

text \<open>\<^verbatim>\<open>strings.ToLower\<close> before a suffix of ASCII: no rune beyond ASCII becomes one of its characters.\<close>

definition lower :: "char \<Rightarrow> char" where
  "lower c = (if is_upper c then char_of (byte c + 32) else c)"

abbreviation DQ :: char where "DQ \<equiv> CHR 0x22"

fun window_args :: "string list \<Rightarrow> string" where
  "window_args [] = []"
| "window_args (arg # rest) =
    (if arg = '' '' then ''rule 7: on Windows no argument may be a single space''
     else if length arg > 1 \<and> arg ! 0 = DQ \<and> arg ! (length arg - 1) = DQ \<and> CHR '' '' \<in> set arg
     then ''rule 7: on Windows no argument may start and end with '' @ [DQ] @ '' while holding a space''
     else window_args rest)"

definition checkWindowsArgs :: "terminal_args \<Rightarrow> string \<Rightarrow> string" where
  "checkWindowsArgs a goos =
    (if goos \<noteq> goosWindows then []
     else if \<not> suffix ''.exe'' (map lower (hd (ta_Args a))) then ''rule 7: on Windows its program must be an .exe''
     else window_args (ta_Args a))"

definition envName :: "string \<Rightarrow> bool" where
  "envName k = (k \<noteq> [] \<and> length k \<le> 128 \<and> \<not> is_digit (hd k)
    \<and> list_all (\<lambda>c. is_lower c \<or> is_upper c \<or> is_digit c \<or> c = CHR ''_'') k)"

fun env_rule :: "(string \<times> json) list \<Rightarrow> string" where
  "env_rule [] = []"
| "env_rule ((k, v) # env) =
    (if \<not> envName k then ''rule 8: an environment variable'' @ CHR 0x27 # ''s name isn'' @ CHR 0x27 # ''t a plain name''
     else if (case v of JString s \<Rightarrow> False | JNull \<Rightarrow> False | _ \<Rightarrow> True)
     then ''rule 8: an environment variable'' @ CHR 0x27 # ''s value isn'' @ CHR 0x27 # ''t a string or null''
     else env_rule env)"

definition checkEnv :: "terminal_args \<Rightarrow> string" where
  "checkEnv a = (if length (ta_Env a) > maxTerminalEnv then ''rule 8: it sets more than 1000 environment variables'' else env_rule (ta_Env a))"

definition checkTitle :: "terminal_args \<Rightarrow> string" where
  "checkTitle a = (if RuneCount (ta_Title a) > maxTerminalTitle then ''rule 9: its title is longer than 200 characters'' else [])"

fun env_value :: "json \<Rightarrow> string option" where
  "env_value (JString s) = Some s"
| "env_value _ = None"

definition checkTerminal :: "terminal_args \<Rightarrow> string \<Rightarrow> string + terminal_body" where
  "checkTerminal a goos =
    (case find (\<lambda>rule. rule \<noteq> []) [checkKind a, checkCount a, checkChars a, checkPaths a goos, checkWindowsArgs a goos, checkEnv a, checkTitle a] of
       Some rule \<Rightarrow> Inl rule
     | None \<Rightarrow> Inr \<lparr>tb_ID = 0, tb_Title = (if ta_Title a = [] then defaultTermTitle else ta_Title a), tb_Cwd = ta_Cwd a,
         tb_Args = ta_Args a, tb_Env = map (\<lambda>(k, v). (k, env_value v)) (ta_Env a)\<rparr>)"

section \<open>The answer\<close>

record terminal_arguments =
  tg_ID :: int
  tg_ProcessID :: "int option"
  tg_Error :: "string option"

datatype terminal_answer = Started int | NotStarted string

text \<open>\<^verbatim>\<open>WriteRune\<close> of a decoded rune: an invalid byte is written as the replacement character.\<close>

definition write_rune :: "rune \<times> string \<Rightarrow> string" where
  "write_rune p =
    (if isTerminalControl (fst p) then '' '' else if fst p = RuneError then [CHR 0xEF, CHR 0xBF, CHR 0xBD] else snd p)"

definition sanitizeTerminalError :: "string \<Rightarrow> string" where
  "sanitizeTerminalError s = TrimSpace (concat (map write_rune (take maxTerminalErrorLen (chunks s))))"

definition terminalAnswerOf :: "terminal_arguments \<Rightarrow> terminal_answer \<times> bool" where
  "terminalAnswerOf a =
    (case (tg_Error a, tg_ProcessID a) of
       (Some e, None) \<Rightarrow>
         (let msg = sanitizeTerminalError e in (NotStarted (if msg = [] then ''no reason given'' else msg), True))
     | (None, Some pid) \<Rightarrow>
         if 1 \<le> pid \<and> pid \<le> 2 ^ 31 - 1 then (Started pid, True) else (NotStarted ''its answer was invalid'', False)
     | _ \<Rightarrow> (NotStarted ''its answer was invalid'', False))"

section \<open>The exchange\<close>

text \<open>
  \<^verbatim>\<open>terminalState\<close>, with the channel of each event that was opened: what was sent to it and
  not received. An event's pointer is its id, which is never given twice.
\<close>

record terminal_state =
  ts_lastID :: int
  ts_pending :: "int option"
  ts_chans :: "(int \<times> terminal_answer list) list"

definition no_terminal :: terminal_state where
  "no_terminal = \<lparr>ts_lastID = 0, ts_pending = None, ts_chans = []\<rparr>"

definition term_open :: "terminal_state \<Rightarrow> terminal_state \<times> int option" where
  "term_open t =
    (if ts_pending t \<noteq> None then (t, None)
     else let i = ts_lastID t + 1
          in (t\<lparr>ts_lastID := i, ts_pending := Some i, ts_chans := aput i [] (ts_chans t)\<rparr>, Some i))"

definition term_close :: "int \<Rightarrow> terminal_state \<Rightarrow> terminal_state" where
  "term_close i t = (if ts_pending t = Some i then t\<lparr>ts_pending := None\<rparr> else t)"

definition chan :: "terminal_state \<Rightarrow> int \<Rightarrow> terminal_answer list" where
  "chan t i = (case map_of (ts_chans t) i of Some as \<Rightarrow> as | None \<Rightarrow> [])"

definition term_deliver :: "int \<Rightarrow> terminal_answer \<Rightarrow> terminal_state \<Rightarrow> terminal_state \<times> bool" where
  "term_deliver i a t =
    (if ts_pending t \<noteq> Some i then (t, False)
     else (t\<lparr>ts_chans := aput i (chan t i @ [a]) (ts_chans t), ts_pending := None\<rparr>, True))"

text \<open>\<^verbatim>\<open>terminalAnswered\<close> on a launch connection whose launch was started: what the request is answered with.\<close>

datatype terminal_reply = TerminalDone | TerminalRefused string

definition terminalAnswered :: "bool \<Rightarrow> terminal_arguments \<Rightarrow> terminal_state \<Rightarrow> terminal_state \<times> terminal_reply" where
  "terminalAnswered launching r t =
    (if \<not> launching then (t, TerminalRefused ''no terminal was asked for on this connection'')
     else case terminalAnswerOf r of (a, valid) \<Rightarrow>
       (case term_deliver (tg_ID r) a t of (t', ok) \<Rightarrow>
          (t', if \<not> ok then TerminalRefused ''no terminal with that id waits for an answer''
               else if \<not> valid then TerminalRefused ''answer with a processId from 1 to 2147483647, or an error''
               else TerminalDone)))"

text \<open>
  What \<^verbatim>\<open>runInTerminal\<close> and \<^verbatim>\<open>terminalAnswered\<close> do to the exchange, in any order: events are
  opened and closed, requests of the editor delivered, answers received. The list holds
  the answers that were delivered.
\<close>

inductive exchange :: "terminal_state \<Rightarrow> (int \<times> terminal_answer) list \<Rightarrow> bool" where
  exchange_start: "exchange no_terminal []"
| exchange_open: "exchange t h \<Longrightarrow> exchange (fst (term_open t)) h"
| exchange_close: "exchange t h \<Longrightarrow> exchange (term_close i t) h"
| exchange_answer: "exchange t h \<Longrightarrow> exchange (fst (terminalAnswered launching r t))
      (if launching \<and> snd (term_deliver (tg_ID r) (fst (terminalAnswerOf r)) t) then h @ [(tg_ID r, fst (terminalAnswerOf r))] else h)"
| exchange_receive: "exchange t h \<Longrightarrow> chan t i = a # as \<Longrightarrow> exchange (t\<lparr>ts_chans := aput i as (ts_chans t)\<rparr>) h"

section \<open>What is accepted\<close>

definition printable :: "string \<Rightarrow> bool" where
  "printable s \<longleftrightarrow> list_all (\<lambda>c. 32 \<le> byte c \<and> byte c \<noteq> 127) s"

lemma no_control_printable: "\<not> list_ex isTerminalControl (runes s) \<Longrightarrow> printable s"
proof -
  assume no: "\<not> list_ex isTerminalControl (runes s)"
  have "32 \<le> byte c \<and> byte c \<noteq> 127" if "c \<in> set s" for c
  proof (cases "byte c < 128")
    case True
    from ascii_rune[OF that this] no have "\<not> isTerminalControl (byte c)" by (auto simp: list_ex_iff)
    then show ?thesis by (auto simp: isTerminalControl_def)
  qed simp
  then show ?thesis by (simp add: printable_def list_all_iff)
qed

definition body_texts :: "terminal_body \<Rightarrow> string list" where
  "body_texts b = [tb_Title b, tb_Cwd b] @ tb_Args b @ concat (map (\<lambda>(k, v). k # (case v of Some s \<Rightarrow> [s] | None \<Rightarrow> [])) (tb_Env b))"

lemma env_texts_values:
  "concat (map (\<lambda>(k, v). k # (case v of Some s \<Rightarrow> [s] | None \<Rightarrow> [])) (map (\<lambda>(k, v). (k, env_value v)) env)) = env_texts env"
  by (induction env rule: env_texts.induct) auto

lemma env_rule_names: "env_rule env = [] \<Longrightarrow> list_all (\<lambda>(k, v). envName k) env"
  by (induction env rule: env_rule.induct) (auto split: if_splits)

lemma accepted_rules:
  assumes "checkTerminal a goos = Inr body"
  shows "checkKind a = []" "checkCount a = []" "checkChars a = []" "checkPaths a goos = []" "checkWindowsArgs a goos = []"
    "checkEnv a = []" "checkTitle a = []"
    "body = \<lparr>tb_ID = 0, tb_Title = (if ta_Title a = [] then defaultTermTitle else ta_Title a), tb_Cwd = ta_Cwd a,
         tb_Args = ta_Args a, tb_Env = map (\<lambda>(k, v). (k, env_value v)) (ta_Env a)\<rparr>"
  using assms by (auto simp: checkTerminal_def split: option.splits if_splits)

text \<open>
  What the documentation asks of texts, paths and names, spelled out: bytes and runes
  outside the C0 and C1 controls, DEL and the line and paragraph separators; on Windows a path with a
  drive and a separator, elsewhere one below the root, and none that starts with two
  separators; names of letters, digits and underscores.
\<close>

definition plain_text :: "string \<Rightarrow> bool" where
  "plain_text s \<longleftrightarrow> printable s \<and> list_all (\<lambda>r. 32 \<le> r \<and> r \<notin> {127..159} \<and> r \<noteq> 8232 \<and> r \<noteq> 8233) (runes s)"

definition local_path :: "string \<Rightarrow> string \<Rightarrow> bool" where
  "local_path goos p \<longleftrightarrow>
    (if goos = ''windows''
     then \<exists>drive sep rest. p = drive # CHR '':'' # sep # rest \<and> byte drive \<in> {65..90} \<union> {97..122} \<and> sep \<in> {CHR ''/'', CHR 0x5C}
     else \<exists>rest. p = CHR ''/'' # rest \<and> (rest = [] \<or> hd rest \<notin> {CHR ''/'', CHR 0x5C}))"

definition plain_name :: "string \<Rightarrow> bool" where
  "plain_name k \<longleftrightarrow> k \<noteq> [] \<and> length k \<le> 128 \<and> byte (hd k) \<notin> {48..57}
    \<and> list_all (\<lambda>c. byte c \<in> {48..57} \<union> {65..90} \<union> {95} \<union> {97..122}) k"

lemma no_control_plain: "\<not> list_ex isTerminalControl (runes s) \<longleftrightarrow> plain_text s"
  using no_control_printable[of s] by (auto simp: plain_text_def isTerminalControl_def list_ex_iff list_all_iff)

lemma drive_letter: "is_lower c \<or> is_upper c \<longleftrightarrow> byte c \<in> {65..90} \<union> {97..122}"
  by (auto simp: is_lower_def is_upper_def)

lemma isSep_set: "isSep c \<longleftrightarrow> c \<in> {CHR ''/'', CHR 0x5C}"
  by (simp add: isSep_def)

lemma localAbsolute_path: "localAbsolute p goos \<longleftrightarrow> local_path goos p"
proof (cases "goos = ''windows''")
  case True
  have drive: "\<not> (isSep c1 \<and> isSep CHR '':'')" for c1 by (simp add: isSep_def)
  have "localAbsolute (c1 # c2 # c3 # cs) goos \<longleftrightarrow> local_path goos (c1 # c2 # c3 # cs)" for c1 c2 c3 cs
    by (cases "c2 = CHR '':''") (simp_all add: True localAbsolute_def local_path_def goosWindows_def drive_letter isSep_set)
  moreover have "\<not> localAbsolute q goos \<and> \<not> local_path goos q" if "length q < 3" for q
    using that by (auto simp: True localAbsolute_def local_path_def goosWindows_def)
  moreover have "length p < 3 \<or> (\<exists>c1 c2 c3 cs. p = c1 # c2 # c3 # cs)"
  proof (rule disjCI)
    assume "\<nexists>c1 c2 c3 cs. p = c1 # c2 # c3 # cs"
    then show "length p < 3" by (metis Suc_le_length_iff not_less numeral_3_eq_3)
  qed
  ultimately show ?thesis by blast
next
  case False
  have "localAbsolute (c1 # c2 # cs) goos \<longleftrightarrow> local_path goos (c1 # c2 # cs)" for c1 c2 cs
    by (auto simp: False localAbsolute_def local_path_def goosWindows_def isSep_set)
  moreover have "localAbsolute [] goos \<longleftrightarrow> local_path goos []" "localAbsolute [c] goos \<longleftrightarrow> local_path goos [c]" for c
    by (auto simp: False localAbsolute_def local_path_def goosWindows_def)
  ultimately show ?thesis by (cases p rule: remdups_adj.cases) simp_all
qed

lemma underscore: "c = CHR ''_'' \<longleftrightarrow> byte c = 95"
proof
  assume "byte c = 95"
  then have "byte c = byte CHR ''_''" by simp
  then show "c = CHR ''_''" by (simp only: of_char_eq_iff)
qed simp

lemma name_char: "is_lower c \<or> is_upper c \<or> is_digit c \<or> c = CHR ''_'' \<longleftrightarrow> byte c \<in> {48..57} \<union> {65..90} \<union> {95} \<union> {97..122}"
  unfolding underscore is_lower_def is_upper_def is_digit_def Un_iff atLeastAtMost_iff singleton_iff by linarith

lemma envName_name: "envName k \<longleftrightarrow> plain_name k"
  unfolding envName_def plain_name_def name_char by (simp add: is_digit_def)

lemma env_rule_values: "env_rule env = [] \<Longrightarrow> list_all (\<lambda>(k, v). v = JNull \<or> (\<exists>s. v = JString s)) env"
proof (induction env rule: env_rule.induct)
  case (2 k v env)
  have "envName k" using 2(2) by (cases "envName k") simp_all
  then show ?case using 2 by (cases v) simp_all
qed simp

lemma env_value_map: "map (\<lambda>(k, v). (k, env_value v)) env = map (\<lambda>(k, v). (k, case v of JString s \<Rightarrow> Some s | _ \<Rightarrow> None)) env"
proof (rule map_cong[OF refl])
  fix x assume "x \<in> set env"
  show "(case x of (k, v) \<Rightarrow> (k, env_value v)) = (case x of (k, v) \<Rightarrow> (k, case v of JString s \<Rightarrow> Some s | _ \<Rightarrow> None))"
    by (cases x; cases "snd x") simp_all
qed

text \<open>
  C24: whatever an adapter asks to run in a terminal, what reaches the editor is the
  request itself with nothing cut or rewritten but an empty title: the arguments, the
  directory and the environment, whose values were texts or null. It is for the integrated
  terminal, runs no shell, starts a program given by an absolute local path in such a
  directory (on Windows one with a drive), no text of it holds a control character, a line
  or a paragraph separator, environment names are plain, and all is within the bounds.
\<close>

theorem terminal_request_is_safe:
  assumes "checkTerminal a goos = Inr body"
  shows "\<not> ta_Shell a \<and> ta_Kind a \<in> {[], ''integrated''}
    \<and> tb_Args body = ta_Args a \<and> tb_Cwd body = ta_Cwd a \<and> tb_Title body = (if ta_Title a = [] then ''eyedbg'' else ta_Title a)
    \<and> list_all (\<lambda>(k, v). v = JNull \<or> (\<exists>s. v = JString s)) (ta_Env a)
    \<and> tb_Env body = map (\<lambda>(k, v). (k, case v of JString s \<Rightarrow> Some s | _ \<Rightarrow> None)) (ta_Env a)
    \<and> tb_Args body \<noteq> [] \<and> local_path goos (hd (tb_Args body)) \<and> local_path goos (tb_Cwd body)
    \<and> list_all plain_text (body_texts body) \<and> list_all (\<lambda>(k, v). plain_name k) (tb_Env body)
    \<and> length (tb_Args body) \<le> 1000 \<and> length (tb_Env body) \<le> 1000 \<and> RuneCount (tb_Title body) \<le> 200
    \<and> sum_list (map length (body_texts body)) \<le> 256 * 1024 + 6"
proof -
  note R = accepted_rules[OF assms]
  have title: "RuneCount ''eyedbg'' \<le> 200" "plain_text ''eyedbg''"
    using RuneCount_le_length[of "''eyedbg''"] by (simp_all add: plain_text_def printable_def runes_def chunks_ascii)
  have texts: "body_texts body = [tb_Title body, ta_Cwd a] @ ta_Args a @ env_texts (ta_Env a)"
    unfolding body_texts_def R(8) by (simp add: env_texts_values del: map_map)
  have tt: "tb_Title body = (if ta_Title a = [] then ''eyedbg'' else ta_Title a)" by (simp add: R(8) defaultTermTitle_def)
  have "list_all plain_text (terminal_texts a)" "sum_list (map length (terminal_texts a)) \<le> 256 * 1024"
    using R(3) by (auto simp: checkChars_def list_all_iff list_ex_iff no_control_plain[symmetric] maxTerminalBytes_def split: if_splits)
  then have chars: "list_all plain_text (body_texts body)" "sum_list (map length (body_texts body)) \<le> 256 * 1024 + 6"
    unfolding texts terminal_texts_def tt using title(2) by auto
  have rule: "env_rule (ta_Env a) = []" "length (ta_Env a) \<le> 1000"
    using R(6) by (auto simp: checkEnv_def maxTerminalEnv_def split: if_splits)
  have body_env: "tb_Env body = map (\<lambda>(k, v). (k, env_value v)) (ta_Env a)" by (simp add: R(8))
  have env: "list_all (\<lambda>(k, v). plain_name k) (tb_Env body)" "length (tb_Env body) \<le> 1000"
    using env_rule_names[OF rule(1)] rule(2) unfolding body_env by (auto simp: list_all_iff envName_name)
  have paths: "local_path goos (hd (ta_Args a))" "local_path goos (ta_Cwd a)"
    using R(4) by (auto simp: checkPaths_def localAbsolute_path split: if_splits)
  have rest: "\<not> ta_Shell a" "ta_Kind a \<in> {[], ''integrated''}" "ta_Args a \<noteq> []" "length (ta_Args a) \<le> 1000" "RuneCount (ta_Title a) \<le> 200"
    using R(1,2,7) by (auto simp: checkKind_def checkCount_def checkTitle_def maxTerminalArgs_def maxTerminalTitle_def split: if_splits)
  have "tb_Env body = map (\<lambda>(k, v). (k, case v of JString s \<Rightarrow> Some s | _ \<Rightarrow> None)) (ta_Env a)"
    unfolding body_env by (rule env_value_map)
  then show ?thesis
    using rest chars env paths title env_rule_values[OF rule(1)] tt by (simp add: R(8) split: if_split)
qed

definition demo_terminal :: terminal_args where
  "demo_terminal = \<lparr>ta_Kind = ''integrated'', ta_Title = [], ta_Cwd = ''/w'', ta_Args = [''/bin/p'', ''-x''],
    ta_Env = [(''A'', JString ''1''), (''B'', JNull)], ta_Shell = False\<rparr>"

theorem terminal_request_is_safe_witness:
  "\<exists>body. checkTerminal demo_terminal ''linux'' = Inr body \<and> list_all plain_text (body_texts body) \<and> tb_Env body = [(''A'', Some ''1''), (''B'', None)]"
proof -
  have texts: "terminal_texts demo_terminal = [[], ''/w'', ''/bin/p'', ''-x'', ''A'', ''1'', ''B'']"
    by (simp add: terminal_texts_def demo_terminal_def)
  have chars: "checkChars demo_terminal = []"
    unfolding checkChars_def texts by (simp add: runes_def chunks_ascii isTerminalControl_def maxTerminalBytes_def)
  let ?b = "\<lparr>tb_ID = 0, tb_Title = ''eyedbg'', tb_Cwd = ''/w'', tb_Args = [''/bin/p'', ''-x''], tb_Env = [(''A'', Some ''1''), (''B'', None)]\<rparr>"
  have ok: "checkTerminal demo_terminal ''linux'' = Inr ?b"
    unfolding checkTerminal_def
    by (simp add: chars)
      (simp add: demo_terminal_def checkKind_def checkCount_def maxTerminalArgs_def checkPaths_def localAbsolute_def isSep_def goosWindows_def
        checkWindowsArgs_def checkEnv_def maxTerminalEnv_def envName_def is_lower_def is_upper_def is_digit_def
        checkTitle_def RuneCount_def defaultTermTitle_def)
  have "list_all plain_text (body_texts ?b)" using terminal_request_is_safe[OF ok] by blast
  then show ?thesis using ok by (intro exI[of _ ?b]) simp
qed

section \<open>Each event is answered once\<close>

lemma chan_put [simp]: "chan (t\<lparr>ts_chans := aput i as (ts_chans t)\<rparr>) j = (if j = i then as else chan t j)"
  by (simp add: chan_def)

lemma chan_pending [simp]: "chan (t\<lparr>ts_pending := p\<rparr>) j = chan t j" "chan (t\<lparr>ts_lastID := l\<rparr>) j = chan t j"
  by (simp_all add: chan_def)

definition exchange_ok :: "terminal_state \<Rightarrow> (int \<times> terminal_answer) list \<Rightarrow> bool" where
  "exchange_ok t h \<longleftrightarrow> distinct (map fst h) \<and> (\<forall>i. length (chan t i) \<le> 1 \<and> (\<forall>a \<in> set (chan t i). (i, a) \<in> set h))
    \<and> (\<forall>i. ts_pending t = Some i \<longrightarrow> i \<notin> fst ` set h \<and> i \<le> ts_lastID t) \<and> (\<forall>i \<in> fst ` set h. i \<le> ts_lastID t)"

lemma pending_empty: "exchange_ok t h \<Longrightarrow> i \<notin> fst ` set h \<Longrightarrow> chan t i = []"
proof (rule ccontr)
  assume ok: "exchange_ok t h" "i \<notin> fst ` set h" and "chan t i \<noteq> []"
  then obtain a where "a \<in> set (chan t i)" by (cases "chan t i") auto
  then have "(i, a) \<in> set h" using ok(1) unfolding exchange_ok_def by blast
  then show False using ok(2) by force
qed

lemma deliver_ok:
  assumes "exchange_ok t h" "term_deliver i a t = (t', ok)"
  shows "exchange_ok t' (if ok then h @ [(i, a)] else h)"
proof (cases "ts_pending t = Some i")
  case True
  then have i: "i \<notin> fst ` set h" "i \<le> ts_lastID t" using assms(1) by (simp_all add: exchange_ok_def)
  have t': "t' = t\<lparr>ts_chans := aput i [a] (ts_chans t), ts_pending := None\<rparr>" "ok"
    using assms(2) True pending_empty[OF assms(1) i(1)] by (auto simp: term_deliver_def)
  have "chan t' j = (if j = i then [a] else chan t j)" for j by (simp add: t'(1) chan_def)
  then show ?thesis using assms(1) i t' by (auto simp: exchange_ok_def)
next
  case False
  then show ?thesis using assms by (auto simp: term_deliver_def)
qed

text \<open>
  In every order of terminals opened and closed, answers of the editor and answers
  received, each event is answered at most once, by the request that names it; what a
  launch receives is the answer delivered for its own event, and a delivery never blocks.
\<close>

theorem terminal_is_answered_once:
  assumes "exchange t h"
  shows "distinct (map fst h) \<and> (\<forall>i. length (chan t i) \<le> 1 \<and> (\<forall>a \<in> set (chan t i). (i, a) \<in> set h))
    \<and> (\<forall>i a. snd (term_deliver i a t) \<longrightarrow> i \<notin> fst ` set h \<and> chan t i = [])"
proof -
  have ok: "exchange_ok t h"
    using assms
  proof induction
    case exchange_start
    then show ?case by (simp add: exchange_ok_def no_terminal_def chan_def)
  next
    case (exchange_open t h)
    have "chan (fst (term_open t)) j = (if ts_pending t = None \<and> j = ts_lastID t + 1 then [] else chan t j)" for j
      by (auto simp: term_open_def Let_def chan_def)
    moreover have "ts_lastID t + 1 \<notin> fst ` set h" using exchange_open.IH by (force simp: exchange_ok_def)
    ultimately show ?case using exchange_open.IH by (auto simp: exchange_ok_def term_open_def Let_def)
  next
    case (exchange_close t h i)
    then show ?case by (auto simp: exchange_ok_def term_close_def)
  next
    case (exchange_answer t h launching r)
    obtain a v where a: "terminalAnswerOf r = (a, v)" by fastforce
    obtain t' ok where d: "term_deliver (tg_ID r) a t = (t', ok)" by fastforce
    show ?case using deliver_ok[OF exchange_answer.IH d] exchange_answer.IH
      by (cases launching; cases ok) (simp_all add: terminalAnswered_def a d)
  next
    case (exchange_receive t h i a as)
    have "length (a # as) \<le> 1 \<and> (\<forall>b \<in> set (a # as). (i, b) \<in> set h)"
      using exchange_receive.IH exchange_receive.hyps(2) unfolding exchange_ok_def by metis
    then show ?case using exchange_receive.IH by (simp add: exchange_ok_def)
  qed
  moreover have "ts_pending t = Some i" if "snd (term_deliver i a t)" for i a using that by (simp add: term_deliver_def split: if_splits)
  ultimately have "i \<notin> fst ` set h \<and> chan t i = []" if "snd (term_deliver i a t)" for i a
    using that pending_empty[of t h i] unfolding exchange_ok_def by blast
  then show ?thesis using ok unfolding exchange_ok_def by blast
qed

theorem terminal_is_answered_once_witness:
  "chan (fst (terminalAnswered True \<lparr>tg_ID = 1, tg_ProcessID = Some 7, tg_Error = None\<rparr> (fst (term_open no_terminal)))) 1 = [Started 7]
    \<and> length (chan (fst (terminalAnswered True \<lparr>tg_ID = 1, tg_ProcessID = Some 7, tg_Error = None\<rparr> (fst (term_open no_terminal)))) 1) \<le> 1"
proof -
  note E = exchange_answer[OF exchange_open[OF exchange_start], of True "\<lparr>tg_ID = 1, tg_ProcessID = Some 7, tg_Error = None\<rparr>"]
  have "chan (fst (terminalAnswered True \<lparr>tg_ID = 1, tg_ProcessID = Some 7, tg_Error = None\<rparr> (fst (term_open no_terminal)))) 1 = [Started 7]"
    by (simp add: terminalAnswered_def terminalAnswerOf_def term_deliver_def term_open_def no_terminal_def Let_def chan_def)
  then show ?thesis using terminal_is_answered_once[OF E] by blast
qed

text \<open>A process id that is accepted fits the adapter's integer.\<close>

lemma answer_in_range: "terminalAnswerOf a = (Started pid, v) \<Longrightarrow> 1 \<le> pid \<and> pid < 2 ^ 31 \<and> v"
  by (auto simp: terminalAnswerOf_def Let_def split: option.splits if_splits)

end
