(* ===== verification/Spec2Isabelle.thy ===== *)
theory Spec2Isabelle
  imports Dap_Server Present Event_Log Path_Map Hit_Log Start_Spec Interleaving Eval_Guard Csharp_Guard Handshake Build_Output Terminal
begin

text \<open>
  \<^bold>\<open>EyeDebugger.\<close> A daemon that owns debug sessions and lets several clients (command
  line agents, editors) share each of them. A session speaks the Debug Adapter Protocol
  to one adapter process; its clients inspect the stopped program, set breakpoints, and
  take turns at running it under a control lease. This development models the Go code
  of the sessions and their manager (\<^verbatim>\<open>src/internal/session\<close>), of the protocol's client and
  server (\<^verbatim>\<open>internal/dap\<close>), of the server editors connect to (\<^verbatim>\<open>internal/facade\<close>), with the
  parts of \<^verbatim>\<open>internal/api\<close>, \<^verbatim>\<open>internal/present\<close> and \<^verbatim>\<open>drivers/generic\<close> they stand on.

  \<^bold>\<open>How the parts interact.\<close> A client's request reaches a method of the session, which
  takes the session's lock, checks the state and (for what changes the program) the
  lease, appends events to the log, sends requests to the adapter with the lock
  released, and applies the answers under the lock again. The adapter's events come in
  between: a stop first passes the stop filter (hit counts, conditions and logpoints of
  every owner of the breakpoints at the line) and is either swallowed, and the program
  continued, or captured and logged. Readers follow the log by a cursor; results are
  cut to a token budget before they leave. The manager starts sessions, lists them under
  ids it gives out, keeps claims on containers and answers for groups of sessions. An
  editor speaks the protocol to a connection of the facade: its requests become calls of
  the session's methods as its client, and the session's log becomes its events.

  \<^bold>\<open>Theories, in import order.\<close>

  \<^item> \<open>Go_Base\<close>, the prelude: Go strings as byte lists, UTF-8 decoding, the functions of
    \<^verbatim>\<open>strings\<close>, \<^verbatim>\<open>strconv\<close> and \<^verbatim>\<open>path\<close> that the code calls, errors as values, shared list
    lemmas and the collections of rewrite rules. \<open>Go_Number\<close> adds \<^verbatim>\<open>ParseInt\<close> with base 0
    and the zero test of \<^verbatim>\<open>ParseFloat\<close>.
  \<^item> \<open>Api_Types\<close> (\<^verbatim>\<open>internal/api\<close>): one record per wire struct, and the validators.
  \<^item> \<open>Dap_Frame\<close> (\<^verbatim>\<open>dap/frame.go\<close>): reading and writing frames on a byte stream. Written
    frames are read back; accepted frames have exactly the documented form; an oversized
    frame does not lose synchronisation; a header costs at most its bound. \<open>Dap_Client\<close>
    (\<^verbatim>\<open>dap/client.go\<close>): the read loop, and calls and the read goroutine as steps in any order;
    a response reaches its request, and the end of the stream leaves no waiter.
    \<open>Dap_Server\<close> (\<^verbatim>\<open>dap/server.go\<close>): requests read, and writes that may fail in the middle.
  \<^item> \<open>Present\<close>, \<open>Fitter\<close> (\<^verbatim>\<open>present\<close>): cutting text at whole runes, shaping events and
    output, the breadth-first fitting of variable trees within a budget.
  \<^item> \<open>Event_Log\<close> (\<^verbatim>\<open>events.go\<close>, \<^verbatim>\<open>record.go\<close>): the log as a bounded window on the history
    (locale \<open>cursor_log\<close>), paging without loss, and the recorder as its sink.
  \<^item> \<open>Hit_Log\<close> (parsers of \<^verbatim>\<open>emulate.go\<close>), \<open>Member_Path\<close> (\<^verbatim>\<open>splitPath\<close>, \<^verbatim>\<open>joinPath\<close>,
    \<^verbatim>\<open>checkAssignable\<close>), \<open>Path_Map\<close> (\<^verbatim>\<open>pathmap.go\<close>), \<open>Anchor\<close> (\<^verbatim>\<open>anchor.go\<close>): the languages
    and mappings that requests are written in, with round trips, containment, and the
    array program of the longest common subsequence against its definition.
  \<^item> \<open>Dap_Types\<close> (\<^verbatim>\<open>translate.go\<close>): the protocol messages and path translation.
  \<^item> \<open>Session_State\<close>: the record \<open>session\<close>, field by field the struct \<^verbatim>\<open>Session\<close> of
    \<^verbatim>\<open>session.go\<close>; \<open>Lease\<close> (\<^verbatim>\<open>lease.go\<close>, locale \<open>control_lease\<close>); \<open>Slots\<close> (\<^verbatim>\<open>slots.go\<close>);
    \<open>Presence\<close> (\<^verbatim>\<open>presence.go\<close>).
  \<^item> \<open>Adapter\<close>: the handlers of adapter events and a request to the adapter.
    \<open>Actions\<close>: sequences of requests that stop at the first error, and the locale
    \<open>frame_relation\<close> that carries a relation between the sessions before and after a
    request to whatever is composed of requests. It is interpreted on "no state is
    touched", "only these requests are sent", "the invariant is kept" and "made of critical
    sections".
  \<^item> \<open>Breakpoints\<close>, \<open>Replace\<close> (\<^verbatim>\<open>breakpoints.go\<close>, \<^verbatim>\<open>funcbps.go\<close>, \<^verbatim>\<open>replace.go\<close>): checking,
    adding, removing, replacing and sending breakpoints.
  \<^item> \<open>Inspect\<close> (\<^verbatim>\<open>inspect.go\<close>), \<open>Eval_Set\<close> (\<^verbatim>\<open>evalset.go\<close>), \<open>Forward\<close> (\<^verbatim>\<open>forward.go\<close>),
    \<open>Exceptions\<close> (\<^verbatim>\<open>exceptions.go\<close>, \<^verbatim>\<open>join.go\<close>), \<open>Exec\<close> (execution requests of
    \<^verbatim>\<open>session.go\<close>), \<open>Stop_Filter\<close> (\<^verbatim>\<open>emulate.go\<close>), \<open>Leaving\<close> (the cleanup after an editor
    and the configuration of a session).
  \<^item> \<open>Eval_Guard\<close> (\<^verbatim>\<open>drivers/generic/guard.go\<close>): the scan of an expression for side effects,
    against rules over tokens that are defined apart from it; \<open>Csharp_Guard\<close> (\<^verbatim>\<open>drivers/dotnet/sideeffects.go\<close>): the scan
    of C# expressions, and what a text it accepts does not have.
  \<^item> \<open>Group_Events\<close>, \<open>Group_Wait\<close> (\<^verbatim>\<open>group.go\<close>): the merged events of a group of sessions with
    the text of their cursor, and waiting for the first member that stops.
  \<^item> \<open>Starting\<close> (a session's part of its start, \<^verbatim>\<open>configure\<close> of \<^verbatim>\<open>session.go\<close> and the test runner
    of \<^verbatim>\<open>testrun.go\<close>), \<open>Session_Steps\<close>: the relation \<open>session_step\<close>, whose steps are whole calls, of every
    modelled request and event. \<open>Interleaving\<close>: the relation \<open>critical\<close>, whose steps are single
    critical sections in any order, so that calls overlap; the invariant of all sessions it
    leads to; and that every whole call is a run of it.
  \<^item> \<open>Manager\<close> (\<^verbatim>\<open>manager.go\<close>, \<^verbatim>\<open>claims.go\<close>): the sessions as a heap, so that two with one id stay
    apart, the map of ids, claims, stopping and detaching; \<open>Manager_Spec\<close>: its steps with those
    of the sessions, and their invariants. \<open>Start\<close> (\<^verbatim>\<open>modes.go\<close>, \<^verbatim>\<open>containerlaunch.go\<close>,
    \<^verbatim>\<open>launch.go\<close>): every way to start a session; \<open>Start_Spec\<close>: what a start that fails and
    one that succeeds leave.
  \<^item> The facade: \<open>Mirrors\<close> and \<open>Echoes\<close> (\<^verbatim>\<open>mirrors.go\<close>): what an editor is told of breakpoints it
    did not set, and which of its entries are copies of those. \<open>Follow\<close> (\<^verbatim>\<open>events.go\<close>): the
    session's log as the editor's events. \<open>Editor\<close> (\<^verbatim>\<open>requests.go\<close>): its requests on the session.
    \<open>Handshake\<close> (\<^verbatim>\<open>requests.go\<close>, \<^verbatim>\<open>facade.go\<close>): when each may be handled. \<open>Launch_Args\<close> and
    \<open>Build_Output\<close> (\<^verbatim>\<open>launch.go\<close>): what a launch starts, and the console it writes to.
    \<open>Terminal\<close> (\<^verbatim>\<open>terminal.go\<close>): running the program in the editor's terminal.

  \<^bold>\<open>What is shown.\<close> Every session that critical sections in any order lead to satisfies
  \<open>sess_inv\<close> (log, lease, breakpoint ids, presence) and has one exception mode per client.
  Nothing but a client that holds the lease changes the
  program: each forwarded request that is not a pure read is refused without the lease;
  inspection sends only reading requests; a refused execution request has no effect.
  The stop filter's rule gives every owner of a breakpoint what it would have had alone, and
  the filter publishes a stop in every case but one: conditions were found out and nothing
  wants it. A request to add, remove or replace breakpoints leaves other clients'
  breakpoints alone. Terminating ends the session whatever the adapter does. The manager
  lists each session under its own id and gives each container's launch one claim; a
  start that fails leaves nothing behind, and stopping a session ends that one and no
  newer one with its id. Merging, paging and waiting lose no member's event. What an
  editor shows is what its connection holds it told; a copy of another client's breakpoint
  never becomes its own; its requests are session steps, each answered once unless its
  connection ended, and none runs the program before the handshake is over. What reaches its terminal has passed
  the rules of the terminal table.

  \<^bold>\<open>Lemmas.\<close> Each component has its invariant and what every operation does to it; these
  are carried by the locales \<open>frame_relation\<close> (requests), \<open>control_lease\<close> and \<open>cursor_log\<close>. Loops
  over maps are shown to do to each key what their body does (\<open>reported_loop\<close>, \<open>mirror_loop\<close>,
  \<open>answer_copies\<close>); state machines have one invariant proved by rule induction.

  \<^bold>\<open>Concurrency.\<close> Each critical section of the source is one function on the session.
  While a request is at the adapter the lock is free: an arbitrary list of steps (adapter
  events, exit of the adapter, lease calls, connections of other clients) happens before
  the answer. It is part of the adapter parameter, so theorems about a call (C2 to C9, C39,
  C40) hold for all of them; no other client's breakpoint, execution or evaluation request
  runs inside the call in these. \<open>Interleaving\<close> drops that restriction for the invariant: its
  steps are single sections, with any values a goroutine may have read before. The manager's
  claims (\<open>taking\<close>), a connection of the facade (\<open>conn_step\<close>) and the protocol's client are
  step relations of their own critical sections.

  \<^bold>\<open>Parameters.\<close> The record \<open>env\<close>: the adapter's answers, the file system, the driver's
  side-effect check, Go's quoting, JSON sizes, Unicode's letters and digits. The clock is
  the argument \<open>now\<close>. Properties hold for every value of these.

  \<^bold>\<open>Bounds.\<close> All functions are total and no fuel is used: the recursions are structural,
  on the depth a request asks for, or have a termination proof. Go's \<^verbatim>\<open>int\<close> is unbounded
  where only counters use it, and the range is written out where a conversion checks it.
  Go leaves the order of map iteration open; where it shows, the model takes the order
  of a list.

  \<^bold>\<open>Not modelled.\<close> Hint texts and outputs attached to errors; Windows paths other than in
  the terminal's rules (the branch of \<open>resolvePath\<close> that refuses drive-relative paths too); the encoding of JSON itself; waiting for a stop of the own session
  (timers and channels); the adapter process itself, whose start has an outcome the model
  takes as given; stop requests of other clients during a start except where the start
  looks for them; reading source lines around a stop; the cache of an exception's
  description; the facade's capabilities, its error bodies and panics; a terminate of a
  launch connection inside \<open>Editor\<close> (it is \<open>StopSession\<close> of \<open>Manager\<close>). Of the other packages:
  the daemon's sockets and store, the command line, container engines and compose files,
  adapter installation, dumps and traces, and the drivers' builds, which are input and
  output around the core.
\<close>

end
